(* ===== verification/Prelude.thy ===== *)
theory Prelude
  imports Main "HOL-Library.Word"
begin

text \<open>
  Shared vocabulary of the development: the machine types of the Rust sources, their
  little-endian byte images (\<open>to_le_bytes\<close> and \<open>from_le_bytes\<close> of the standard
  library, at every width the code uses), checked slice access, and the generic lemmas on
  lists and words that the component theories share.

  Conventions. A \<open>Result\<close> of the source is a sum with the error on the left. A value
  of type \<open>usize\<close> is a \<open>nat\<close>; every target of this repository has a 64-bit
  \<open>usize\<close>, and the bound is written out where an operation can reach it. A fixed-width
  integer of the wire or of a register is a word. Where the code could panic (a slice index,
  an \<open>unwrap\<close>) the model has the panic as the value \<open>None\<close>, or the access is
  guarded in the model exactly as in the code and the guard is shown to be enough.
\<close>

unbundle bit_operations_syntax

section \<open>Machine types\<close>

type_synonym u8 = "8 word"
type_synonym u16 = "16 word"
type_synonym u32 = "32 word"
type_synonym u64 = "64 word"
type_synonym bytes = "u8 list"

named_theorems len_simps \<open>lengths of byte images and of encoded frames\<close>
named_theorems range_simps \<open>bounds of words read back as numbers\<close>
named_theorems roundtrips \<open>decoding what was encoded\<close>

section \<open>Results\<close>

text \<open>The \<open>?\<close> operator: stop at the first error.\<close>

definition bind_res :: "'e + 'a \<Rightarrow> ('a \<Rightarrow> 'e + 'b) \<Rightarrow> 'e + 'b" where
  "bind_res r f = (case r of Inl e \<Rightarrow> Inl e | Inr x \<Rightarrow> f x)"

lemma bind_res_simps [simp]:
  "bind_res (Inl e) f = Inl e"
  "bind_res (Inr x) f = f x"
  by (simp_all add: bind_res_def)

lemma bind_res_eq_Inr:
  "bind_res r f = Inr y \<longleftrightarrow> (\<exists>x. r = Inr x \<and> f x = Inr y)"
  by (cases r) auto

lemma bind_res_cong [fundef_cong]:
  "r = r' \<Longrightarrow> (\<And>x. r' = Inr x \<Longrightarrow> f x = g x) \<Longrightarrow> bind_res r f = bind_res r' g"
  by (cases r') auto

section \<open>Little-endian byte images\<close>

definition to_le :: "nat \<Rightarrow> 'a::len word \<Rightarrow> bytes" where
  "to_le n w = map (\<lambda>i. ucast (drop_bit (8 * i) w)) [0..<n]"

primrec from_le :: "bytes \<Rightarrow> 'a::len word" where
  "from_le [] = 0"
| "from_le (b # bs) = ucast b OR push_bit 8 (from_le bs)"

abbreviation u16_le :: "u16 \<Rightarrow> bytes" where "u16_le \<equiv> to_le 2"
abbreviation u32_le :: "u32 \<Rightarrow> bytes" where "u32_le \<equiv> to_le 4"
abbreviation u64_le :: "u64 \<Rightarrow> bytes" where "u64_le \<equiv> to_le 8"

lemma length_to_le [simp, len_simps]: "length (to_le n w) = n"
  by (simp add: to_le_def)

lemma nth_to_le: "i < n \<Longrightarrow> to_le n w ! i = ucast (drop_bit (8 * i) w)"
  by (simp add: to_le_def)

lemma bit_from_le:
  "bit (from_le bs :: 'a::len word) n \<longleftrightarrow>
     n < LENGTH('a) \<and> n div 8 < length bs \<and> bit (bs ! (n div 8)) (n mod 8)"
proof (induction bs arbitrary: n)
  case Nil
  then show ?case by simp
next
  case (Cons b bs)
  show ?case
  proof (cases "n < 8")
    case True
    then show ?thesis
      by (auto simp: bit_or_iff bit_push_bit_iff bit_ucast_iff)
  next
    case False
    then have split: "n div 8 = Suc ((n - 8) div 8)" "(n - 8) mod 8 = n mod 8"
      by (simp_all add: le_div_geq le_mod_geq)
    have "\<not> bit b n"
      using False bit_imp_le_length [of b n] by auto
    then show ?thesis
      using False Cons.IH [of "n - 8"] split
      by (auto simp: bit_or_iff bit_push_bit_iff bit_ucast_iff not_less)
  qed
qed

declare from_le.simps(2) [simp del]

lemmas from_le_Cons = from_le.simps(2)

lemma from_le_to_le [simp, roundtrips]:
  assumes "LENGTH('a) \<le> 8 * n"
  shows "from_le (to_le n w) = (w :: 'a::len word)"
proof (rule bit_word_eqI)
  fix i assume i: "i < LENGTH('a)"
  with assms have "i div 8 < n" by simp
  then show "bit (from_le (to_le n w) :: 'a word) i = bit w i"
    using i by (simp add: bit_from_le nth_to_le bit_ucast_iff bit_drop_bit_eq)
qed

lemma to_le_from_le [simp, roundtrips]:
  assumes "length bs = n" and "8 * n \<le> LENGTH('a::len)"
  shows "to_le n (from_le bs :: 'a word) = bs"
proof (rule nth_equalityI)
  show "length (to_le n (from_le bs :: 'a word)) = length bs"
    using assms by simp
next
  fix i assume "i < length (to_le n (from_le bs :: 'a word))"
  then have i: "i < n" by simp
  show "to_le n (from_le bs :: 'a word) ! i = bs ! i"
  proof (rule bit_word_eqI)
    fix j assume j: "j < LENGTH(8)"
    then have "(8 * i + j) div 8 = i" "(8 * i + j) mod 8 = j" by simp_all
    moreover have "8 * i + j < LENGTH('a)"
      using i j assms(2) by simp
    ultimately show "bit (to_le n (from_le bs :: 'a word) ! i) j = bit (bs ! i) j"
      using i j assms(1)
      by (simp add: nth_to_le bit_ucast_iff bit_drop_bit_eq bit_from_le)
  qed
qed

lemma to_le_inj:
  "LENGTH('a) \<le> 8 * n \<Longrightarrow> to_le n v = to_le n w \<longleftrightarrow> v = (w :: 'a::len word)"
  by (metis from_le_to_le)

text \<open>A byte list of the right length is the image of the number it spells.\<close>

lemma from_le_inj:
  "length bs = length cs \<Longrightarrow> 8 * length bs \<le> LENGTH('a::len) \<Longrightarrow>
     (from_le bs :: 'a word) = from_le cs \<longleftrightarrow> bs = cs"
  by (metis to_le_from_le)

section \<open>Slices\<close>

text \<open>The sub-slice \<open>&xs[a..b]\<close>, where the code has made sure that it exists.\<close>

definition slice_of :: "nat \<Rightarrow> nat \<Rightarrow> 'a list \<Rightarrow> 'a list" where
  "slice_of a b xs = take (b - a) (drop a xs)"

lemma length_slice_of [simp, len_simps]:
  "b \<le> length xs \<Longrightarrow> length (slice_of a b xs) = b - a"
  by (simp add: slice_of_def)

lemma slice_of_append_exact [simp]:
  "a = length xs \<Longrightarrow> b = length xs + length ys \<Longrightarrow> slice_of a b (xs @ ys @ zs) = ys"
  by (simp add: slice_of_def)

lemma nth_slice_of: "b \<le> length xs \<Longrightarrow> i < b - a \<Longrightarrow> slice_of a b xs ! i = xs ! (a + i)"
  by (simp add: slice_of_def)

text \<open>\<open>dst[at..at + src.len()].copy_from_slice(src)\<close>, for a slice that exists.\<close>

definition copy_into :: "'a list \<Rightarrow> nat \<Rightarrow> 'a list \<Rightarrow> 'a list" where
  "copy_into dst at src = take at dst @ src @ drop (at + length src) dst"

lemma length_copy_into [simp, len_simps]:
  "at + length src \<le> length dst \<Longrightarrow> length (copy_into dst at src) = length dst"
  by (simp add: copy_into_def)

lemma take_copy_into_0 [simp]:
  "take (length src) (copy_into dst 0 src) = src"
  by (simp add: copy_into_def)

lemma nth_copy_into:
  assumes "at + length src \<le> length dst" and "i < length dst"
  shows "copy_into dst at src ! i =
    (if at \<le> i \<and> i < at + length src then src ! (i - at) else dst ! i)"
  using assms by (auto simp: copy_into_def nth_append min_def)

section \<open>Words and numbers\<close>

lemma unat_u8_less [range_simps]: "unat (b :: u8) < 256"
  using unsigned_less [of b] by simp

lemma unat_u16_less [range_simps]: "unat (b :: u16) < 65536"
  using unsigned_less [of b] by simp

lemma unat_u32_less [range_simps]: "unat (w :: u32) < 4294967296"
  using unsigned_less [of w] by simp

lemma unat_of_nat_less [simp]:
  "n < 2 ^ LENGTH('a) \<Longrightarrow> unat (of_nat n :: 'a::len word) = n"
  by (simp add: unat_of_nat take_bit_nat_eq_self)

lemma of_nat_eq_0_iff_less:
  "n < 2 ^ LENGTH('a) \<Longrightarrow> (of_nat n :: 'a::len word) = 0 \<longleftrightarrow> n = 0"
  using unat_of_nat_less [of n] by (auto simp: unat_eq_0 [symmetric] simp del: unat_of_nat_less)

lemma unat_drop_bit_div [range_simps]: "unat (drop_bit n (w :: 'a::len word)) = unat w div 2 ^ n"
proof -
  have "unat (drop_bit n w) = drop_bit n (unat w)"
    by (rule unat_drop_bit_eq)
  then show ?thesis by (simp only: drop_bit_eq_div)
qed

lemma unat_from_le_less: "unat (from_le bs :: 'a::len word) < 2 ^ (8 * length bs)"
proof -
  let ?w = "from_le bs :: 'a word"
  have "bit ?w n \<Longrightarrow> n < 8 * length bs" for n
    by (auto simp: bit_from_le)
  then have "take_bit (8 * length bs) ?w = ?w"
    by (intro bit_word_eqI) (auto simp: bit_take_bit_iff)
  then have "unat ?w = take_bit (8 * length bs) (unat ?w)"
    by (metis unsigned_take_bit_eq)
  also have "\<dots> < 2 ^ (8 * length bs)" by (rule take_bit_nat_less_exp)
  finally show ?thesis .
qed

text \<open>\<open>usize::checked_add\<close> on the 64-bit targets of this repository.\<close>

definition usize_max :: nat where
  "usize_max = 2 ^ 64 - 1"

definition checked_add_usize :: "nat \<Rightarrow> nat \<Rightarrow> nat option" where
  "checked_add_usize a b = (if a + b \<le> usize_max then Some (a + b) else None)"

lemma checked_add_usize_eq_Some [simp]:
  "checked_add_usize a b = Some c \<longleftrightarrow> c = a + b \<and> a + b \<le> usize_max"
  by (auto simp: checked_add_usize_def)

section \<open>Streams in chunks\<close>

text \<open>
  Several components take a stream in chunks: what they hand out and the state they keep must not
  depend on how the stream is cut.
\<close>

primrec feed_all :: "('s \<Rightarrow> 'a list \<Rightarrow> 'o list \<times> 's) \<Rightarrow> 's \<Rightarrow> 'a list list \<Rightarrow> 'o list \<times> 's" where
  "feed_all feed s [] = ([], s)"
| "feed_all feed s (c # cs) =
     (case feed s c of (out, s') \<Rightarrow> map_prod ((@) out) id (feed_all feed s' cs))"

locale chunked =
  fixes feed :: "'s \<Rightarrow> 'a list \<Rightarrow> 'o list \<times> 's" and inv :: "'s \<Rightarrow> bool"
  assumes keeps: "inv s \<Longrightarrow> inv (snd (feed s xs))"
    and no_chunk: "inv s \<Longrightarrow> feed s [] = ([], s)"
    and append: "inv s \<Longrightarrow> feed s (xs @ ys) =
      map_prod ((@) (fst (feed s xs))) id (feed (snd (feed s xs)) ys)"
begin

lemma all_chunks: "inv s \<Longrightarrow> feed_all feed s cs = feed s (concat cs)"
proof (induction cs arbitrary: s)
  case Nil
  then show ?case unfolding feed_all.simps concat.simps by (rule no_chunk [symmetric])
next
  case (Cons c cs)
  then show ?case
    using keeps [of s c] append [of s c "concat cs"] by (cases "feed s c") simp
qed

lemma regrouped: "inv s \<Longrightarrow> concat cs = concat ds \<Longrightarrow> feed_all feed s cs = feed_all feed s ds"
  by (simp add: all_chunks)

end

end
