(* ===== verification/Tpiu.thy ===== *)
theory Tpiu
  imports Prelude
begin

text \<open>
  The TPIU formatter decoder of \<open>applications/orbtrace/model/src/lib.rs\<close>
  (\<open>TpiuDecoder::push\<close>, \<open>TpiuDecoder::reset_sync\<close>): a byte-at-a-time state machine that
  waits for a full synchronisation packet, collects 16-byte formatter frames and undoes the
  formatter's mangling. The reference is the formatter itself: \<open>pack_frame\<close> builds a frame
  from its fifteen slots, \<open>slot_effect\<close> says what a slot means.
\<close>

section \<open>The decoder\<close>

datatype muxed_byte = MuxedByte (mux_channel: u8) (mux_data: u8)

record tpiu_decoder =
  sync_window :: u32
  synced :: bool
  tpiu_frame :: bytes
  channel :: u8
  delayed_channel :: "u8 option"
  sync_losses :: u64

definition tpiu_default :: tpiu_decoder where
  "tpiu_default = \<lparr>sync_window = 0, synced = False, tpiu_frame = [], channel = 0,
     delayed_channel = None, sync_losses = 0\<rparr>"

definition reset_sync :: "tpiu_decoder \<Rightarrow> tpiu_decoder" where
  "reset_sync d =
     (let d1 = (if synced d then d\<lparr>sync_losses := sync_losses d + 1\<rparr> else d)
      in d1\<lparr>synced := False, tpiu_frame := []\<rparr>)"

text \<open>One turn of the loop over the 15 slots of a complete frame.\<close>

type_synonym demux = "u8 \<times> u8 option \<times> muxed_byte list"

definition demux_slot :: "bytes \<Rightarrow> demux \<Rightarrow> nat \<Rightarrow> demux" where
  "demux_slot raw st index = (case st of (ch, delayed, out) \<Rightarrow>
     let is_id = (index mod 2 = 0 \<and> raw ! index AND 1 \<noteq> 0);
         data = (if index mod 2 = 0
                 then (raw ! index AND 0xfe) OR (drop_bit (index div 2) (raw ! 15) AND 1)
                 else raw ! index)
     in if is_id then
          let id = drop_bit 1 data
          in if data AND 1 \<noteq> 0 then (ch, Some id, out) else (id, delayed, out)
        else
          let out' = (if ch \<noteq> 0 then out @ [MuxedByte ch data] else out)
          in case delayed of Some nxt \<Rightarrow> (nxt, None, out') | None \<Rightarrow> (ch, None, out'))"

definition demux_frame :: "bytes \<Rightarrow> demux \<Rightarrow> demux" where
  "demux_frame raw st = foldl (demux_slot raw) st [0..<15]"

definition tpiu_push :: "tpiu_decoder \<Rightarrow> u8 \<Rightarrow> tpiu_decoder \<times> muxed_byte list" where
  "tpiu_push d byte =
     (let d1 = d\<lparr>sync_window := drop_bit 8 (sync_window d) OR push_bit 24 (ucast byte)\<rparr>
      in if \<not> synced d1 then
           (if sync_window d1 = 0xffffff7f then d1\<lparr>synced := True, tpiu_frame := []\<rparr> else d1, [])
         else
           let d2 = d1\<lparr>tpiu_frame := tpiu_frame d1 @ [byte]\<rparr>
           in if length (tpiu_frame d2) \<noteq> 16 then (d2, [])
              else case demux_frame (tpiu_frame d2) (channel d2, delayed_channel d2, []) of
                (ch, delayed, out) \<Rightarrow>
                  (d2\<lparr>tpiu_frame := [], channel := ch, delayed_channel := delayed\<rparr>, out))"

text \<open>Bytes arriving one after the other, with the outputs collected by the caller.\<close>

fun tpiu_feed :: "tpiu_decoder \<Rightarrow> bytes \<Rightarrow> tpiu_decoder \<times> muxed_byte list" where
  "tpiu_feed d [] = (d, [])"
| "tpiu_feed d (b # bs) =
     (let (d1, out1) = tpiu_push d b; (d2, out2) = tpiu_feed d1 bs in (d2, out1 @ out2))"

lemma tpiu_feed_append:
  "tpiu_feed d (xs @ ys) =
     (let (d1, out1) = tpiu_feed d xs; (d2, out2) = tpiu_feed d1 ys in (d2, out1 @ out2))"
  by (induction xs arbitrary: d) (auto simp: Let_def split: prod.splits)

interpretation tpiu: chunked "\<lambda>d bs. prod.swap (tpiu_feed d bs)" "\<lambda>_. True"
  by unfold_locales (simp_all add: tpiu_feed_append Let_def case_prod_beta map_prod_def)

section \<open>The formatter, as the reference\<close>

text \<open>
  Fifteen slots make a frame. An even slot holds a data byte or a source id with a flag that
  delays the change of source by one data byte; an odd slot holds a data byte. The last byte
  of the frame carries the low bits of the even slots.
\<close>

datatype slot = DataSlot u8 | IdSlot u8 bool

definition valid_slots :: "slot list \<Rightarrow> bool" where
  "valid_slots slots \<longleftrightarrow> length slots = 15 \<and>
     (\<forall>i < 15. case slots ! i of DataSlot d \<Rightarrow> True | IdSlot c delay \<Rightarrow> even i \<and> c < 128)"

definition slot_byte :: "slot list \<Rightarrow> nat \<Rightarrow> u8" where
  "slot_byte slots i =
     (case slots ! i of
        DataSlot d \<Rightarrow> if even i then d AND 0xfe else d
      | IdSlot c delay \<Rightarrow> push_bit 1 c OR 1)"

definition low_bit :: "slot \<Rightarrow> bool" where
  "low_bit s = (case s of DataSlot d \<Rightarrow> bit d 0 | IdSlot c delay \<Rightarrow> delay)"

definition aux_byte :: "slot list \<Rightarrow> u8" where
  "aux_byte slots = horner_sum of_bool 2 (map (\<lambda>k. low_bit (slots ! (2 * k))) [0..<8])"

definition pack_frame :: "slot list \<Rightarrow> bytes" where
  "pack_frame slots = map (slot_byte slots) [0..<15] @ [aux_byte slots]"

fun slot_effect :: "demux \<Rightarrow> slot \<Rightarrow> demux" where
  "slot_effect (ch, delayed, out) (IdSlot c True) = (ch, Some c, out)"
| "slot_effect (ch, delayed, out) (IdSlot c False) = (c, delayed, out)"
| "slot_effect (ch, delayed, out) (DataSlot d) =
     ((case delayed of Some nxt \<Rightarrow> nxt | None \<Rightarrow> ch), None,
      if ch \<noteq> 0 then out @ [MuxedByte ch d] else out)"

lemma length_pack_frame [simp, len_simps]: "length (pack_frame slots) = 16"
  by (simp add: pack_frame_def)

lemma nth_pack_frame: "i < 15 \<Longrightarrow> pack_frame slots ! i = slot_byte slots i"
  by (simp add: pack_frame_def nth_append)

lemma aux_pack_frame: "pack_frame slots ! 15 = aux_byte slots"
  by (simp add: pack_frame_def nth_append)

lemma bit_aux_byte: "k < 8 \<Longrightarrow> bit (aux_byte slots) k = low_bit (slots ! (2 * k))"
  by (simp add: aux_byte_def bit_horner_sum_bit_word_iff)

lemma and_1_bit: "(w :: u8) AND 1 \<noteq> 0 \<longleftrightarrow> bit w 0"
  by (simp add: and_one_eq odd_iff_mod_2_eq_one [symmetric] bit_0)

lemma u8_eqI: "(\<And>n. n < 8 \<Longrightarrow> bit (a :: u8) n = bit b n) \<Longrightarrow> a = b"
  by (rule bit_word_eqI) simp

lemma u8_top_bit: "(c :: u8) < 128 \<Longrightarrow> \<not> bit c 7"
proof
  assume "c < 128" and "bit c 7"
  from \<open>bit c 7\<close> have "bit (unat c) 7" by (simp add: bit_unsigned_iff)
  then have "odd (unat c div 2 ^ 7)" by (simp add: bit_iff_odd)
  moreover have "unat c < 2 ^ 7" using \<open>c < 128\<close> by (simp add: word_less_nat_alt)
  ultimately show False by simp
qed

declare bit_numeral_word_iff [simp del]

lemma bit_0xfe: "bit (0xfe :: u8) n \<longleftrightarrow> 0 < n \<and> n < 8"
proof -
  have "(0xfe :: u8) = NOT 1" by simp
  then show ?thesis
    by (simp only: bit_not_iff bit_1_iff possible_bit_word) auto
qed

definition id_byte :: "u8 \<Rightarrow> u8" where
  "id_byte c = push_bit 1 c OR 1"

lemma bit_id_byte: "bit (id_byte c) n \<longleftrightarrow> n = 0 \<or> 0 < n \<and> n < 8 \<and> bit c (n - 1)"
  unfolding id_byte_def by (simp only: bit_or_iff bit_push_bit_iff bit_1_iff possible_bit_word) auto

lemma drop_id_byte:
  assumes "\<not> bit c 7"
  shows "drop_bit 1 (id_byte c OR 1) = c" and "drop_bit 1 (id_byte c AND 0xfe) = c"
proof -
  have key: "bit (id_byte c) (1 + n) = bit c n" if "n < 8" for n
    using assms that by (cases "n = 7") (auto simp: bit_id_byte)
  have "bit (drop_bit 1 (id_byte c OR 1)) n = bit c n"
    and "bit (drop_bit 1 (id_byte c AND 0xfe)) n = bit c n" if "n < 8" for n
    using key [OF that] assms that
    by (simp_all only: bit_drop_bit_eq bit_or_iff bit_and_iff bit_1_iff bit_0xfe comp_apply)
      (cases "n = 7"; auto)+
  then show "drop_bit 1 (id_byte c OR 1) = c" "drop_bit 1 (id_byte c AND 0xfe) = c"
    by (blast intro: u8_eqI)+
qed

lemma restore_low_bit:
  assumes "k < 8"
  shows "(x AND 0xfe) OR (drop_bit k a AND 1) = (if bit a k then x OR 1 else x AND 0xfe :: u8)"
  using assms
  by (intro u8_eqI)
    (auto simp: bit_or_iff bit_and_iff bit_drop_bit_eq bit_1_iff bit_0xfe intro!: gr0I)

lemma demux_slot_pack:
  assumes "valid_slots slots" and i: "i < 15"
  shows "demux_slot (pack_frame slots) st i = slot_effect st (slots ! i)"
proof -
  obtain ch delayed out where st: "st = (ch, delayed, out)"
    by (cases st)
  let ?raw = "pack_frame slots"
  have raw: "?raw ! i = slot_byte slots i" "?raw ! 15 = aux_byte slots"
    using i by (simp_all add: nth_pack_frame aux_pack_frame)
  show ?thesis
  proof (cases "even i")
    case False
    then obtain d where d: "slots ! i = DataSlot d"
      using assms False by (cases "slots ! i") (auto simp: valid_slots_def split: slot.splits)
    moreover have "i mod 2 \<noteq> 0" using False by presburger
    ultimately show ?thesis
      using False by (simp add: demux_slot_def st raw slot_byte_def Let_def split: option.splits)
  next
    case True
    then have k: "i div 2 < 8" "2 * (i div 2) = i"
      using i by auto
    have aux: "bit (aux_byte slots) (i div 2) = low_bit (slots ! i)"
      using k by (simp add: bit_aux_byte)
    show ?thesis
    proof (cases "slots ! i")
      case (DataSlot d)
      have "\<not> bit (d AND 0xfe) 0" by (simp add: bit_and_iff bit_0xfe)
      moreover have "bit d 0 \<Longrightarrow> d OR 1 = d" "\<not> bit d 0 \<Longrightarrow> d AND 0xfe = d"
        by (rule u8_eqI; auto simp: bit_or_iff bit_and_iff bit_1_iff bit_0xfe intro!: gr0I)+
      moreover have "i mod 2 = 0" using True by simp
      ultimately show ?thesis
        using DataSlot aux k
        by (simp add: demux_slot_def st raw slot_byte_def and_1_bit restore_low_bit low_bit_def
            True Let_def split: option.splits)
    next
      case (IdSlot c delay)
      have "c < 128"
        using assms IdSlot by (auto simp: valid_slots_def split: slot.splits)
      then have top: "\<not> bit c 7"
        by (rule u8_top_bit)
      have byte: "slot_byte slots i = id_byte c"
        by (simp add: slot_byte_def IdSlot id_byte_def)
      then show ?thesis
        using True IdSlot aux k drop_id_byte [OF top]
        by (cases delay) (simp_all add: demux_slot_def st raw and_1_bit restore_low_bit
            low_bit_def Let_def bit_id_byte bit_or_iff bit_and_iff bit_1_iff bit_0xfe)
    qed
  qed
qed

lemma demux_pack_frame:
  assumes "valid_slots slots"
  shows "demux_frame (pack_frame slots) st = foldl slot_effect st slots"
proof -
  have len: "length slots = 15" using assms by (simp add: valid_slots_def)
  have "foldl (demux_slot (pack_frame slots)) st [0..<n] = foldl slot_effect st (take n slots)"
    if "n \<le> 15" for n
    using that
  proof (induction n)
    case (Suc n)
    then have "take (Suc n) slots = take n slots @ [slots ! n]"
      using len by (simp add: take_Suc_conv_app_nth)
    with Suc assms show ?case by (simp add: demux_slot_pack)
  qed simp
  from this [of 15] show ?thesis
    using len by (simp add: demux_frame_def)
qed

section \<open>Collecting frames\<close>

lemma tpiu_push_unsynced:
  "\<not> synced d \<Longrightarrow> snd (tpiu_push d b) = []"
  by (simp add: tpiu_push_def Let_def)

lemma window_push:
  "sync_window (fst (tpiu_push d b)) = drop_bit 8 (sync_window d) OR push_bit 24 (ucast b)"
  by (simp add: tpiu_push_def Let_def split: prod.splits)

lemma synced_push: "synced d \<Longrightarrow> synced (fst (tpiu_push d b))"
  by (simp add: tpiu_push_def Let_def split: prod.splits)

text \<open>The fields a run of bytes inside a frame does not touch are the source and the delay.\<close>

lemma tpiu_feed_partial:
  assumes "synced d" and "length (tpiu_frame d) + length bs < 16"
  shows "\<exists>w. tpiu_feed d bs = (d\<lparr>sync_window := w, tpiu_frame := tpiu_frame d @ bs\<rparr>, [])"
  using assms
proof (induction bs arbitrary: d)
  case Nil
  show ?case by (rule exI [of _ "sync_window d"]) simp
next
  case (Cons b bs)
  let ?w = "drop_bit 8 (sync_window d) OR push_bit 24 (ucast b) :: u32"
  have push: "tpiu_push d b = (d\<lparr>sync_window := ?w, tpiu_frame := tpiu_frame d @ [b]\<rparr>, [])"
    using Cons.prems by (simp add: tpiu_push_def Let_def)
  then show ?case
    using Cons.IH [of "d\<lparr>sync_window := ?w, tpiu_frame := tpiu_frame d @ [b]\<rparr>"] Cons.prems
    by auto
qed

definition at_boundary :: "tpiu_decoder \<Rightarrow> bool" where
  "at_boundary d \<longleftrightarrow> synced d \<and> tpiu_frame d = []"

lemma tpiu_feed_frame:
  assumes d: "at_boundary d" and raw: "length raw = 16"
  shows "\<exists>w. tpiu_feed d raw = (case demux_frame raw (channel d, delayed_channel d, []) of
    (ch, delayed, out) \<Rightarrow>
      (d\<lparr>sync_window := w, channel := ch, delayed_channel := delayed\<rparr>, out))"
proof -
  obtain xs b where raw_eq: "raw = xs @ [b]" and len: "length xs = 15"
    using raw by (cases raw rule: rev_cases) auto
  obtain w where feed: "tpiu_feed d xs = (d\<lparr>sync_window := w, tpiu_frame := xs\<rparr>, [])"
    using tpiu_feed_partial [of d xs] d len by (auto simp: at_boundary_def)
  obtain ch delayed out where dm: "demux_frame raw (channel d, delayed_channel d, []) = (ch, delayed, out)"
    by (cases "demux_frame raw (channel d, delayed_channel d, [])")
  let ?w = "drop_bit 8 w OR push_bit 24 (ucast b) :: u32"
  have "d\<lparr>sync_window := ?w, tpiu_frame := [], channel := ch, delayed_channel := delayed\<rparr>
      = d\<lparr>sync_window := ?w, channel := ch, delayed_channel := delayed\<rparr>"
    using d by (simp add: at_boundary_def)
  then have "tpiu_feed d raw = (d\<lparr>sync_window := ?w, channel := ch, delayed_channel := delayed\<rparr>, out)"
    using d len dm feed
    by (simp add: raw_eq tpiu_feed_append tpiu_push_def at_boundary_def)
  with dm show ?thesis by auto
qed

text \<open>The source and delay after some frames, and the bytes they carry.\<close>

fun demux_frames :: "u8 \<times> u8 option \<Rightarrow> slot list list \<Rightarrow> (u8 \<times> u8 option) \<times> muxed_byte list" where
  "demux_frames s [] = (s, [])"
| "demux_frames s (f # fs) =
     (case foldl slot_effect (fst s, snd s, []) f of (ch, delayed, out) \<Rightarrow>
        case demux_frames (ch, delayed) fs of (s', out') \<Rightarrow> (s', out @ out'))"

lemma tpiu_feed_frames:
  assumes "at_boundary d" and "list_all valid_slots fs"
  shows "\<exists>d'. tpiu_feed d (concat (map pack_frame fs))
      = (d', snd (demux_frames (channel d, delayed_channel d) fs))
    \<and> at_boundary d' \<and> (channel d', delayed_channel d') = fst (demux_frames (channel d, delayed_channel d) fs)"
  using assms
proof (induction fs arbitrary: d)
  case (Cons f fs)
  have "\<exists>ch delayed out. foldl slot_effect (channel d, delayed_channel d, []) f = (ch, delayed, out)"
    by (metis prod_cases3)
  then obtain ch delayed out
    where sem: "foldl slot_effect (channel d, delayed_channel d, []) f = (ch, delayed, out)"
    by blast
  obtain w where "tpiu_feed d (pack_frame f)
      = (d\<lparr>sync_window := w, channel := ch, delayed_channel := delayed\<rparr>, out)"
    using tpiu_feed_frame [OF Cons.prems(1), of "pack_frame f"] Cons.prems(2) sem
    by (auto simp: demux_pack_frame)
  moreover have "at_boundary (d\<lparr>sync_window := w, channel := ch, delayed_channel := delayed\<rparr>)"
    using Cons.prems(1) by (simp add: at_boundary_def)
  ultimately show ?case
    using Cons.IH [of "d\<lparr>sync_window := w, channel := ch, delayed_channel := delayed\<rparr>"]
      Cons.prems(2) sem
    by (auto simp: tpiu_feed_append split: prod.splits)
qed simp

section \<open>Finding synchronisation\<close>

definition sync_word :: bytes where
  "sync_word = [0x7f, 0xff, 0xff, 0xff]"

lemma shift_in_byte:
  "drop_bit 8 (from_le [p, q, r, s] :: u32) OR push_bit 24 (ucast b) = from_le [q, r, s, b]"
proof (rule bit_word_eqI)
  fix n assume n: "n < LENGTH(32)"
  show "bit (drop_bit 8 (from_le [p, q, r, s] :: u32) OR push_bit 24 (ucast b)) n
      = bit (from_le [q, r, s, b] :: u32) n"
  proof (cases "n < 24")
    case True
    then have "n div 8 < 3" by simp
    with True n show ?thesis
      by (auto simp: bit_or_iff bit_drop_bit_eq bit_push_bit_iff bit_from_le nth_append
          less_Suc_eq numeral_3_eq_3)
  next
    case False
    then have "24 \<le> n" "n < 32" using n by auto
    then have "n div 8 = 3" "n mod 8 = n - 24" by presburger+
    with False n show ?thesis
      by (auto simp: bit_or_iff bit_drop_bit_eq bit_push_bit_iff bit_from_le bit_ucast_iff)
  qed
qed

lemma list4_cases: "length xs = 4 \<Longrightarrow> \<exists>a b c d. xs = [a, b, c, d]"
  by (auto simp: length_Suc_conv eval_nat_numeral)

lemma window_after:
  "length ws = 4 \<Longrightarrow> sync_window d = from_le ws \<Longrightarrow>
   sync_window (fst (tpiu_feed d bs)) = from_le (drop (length bs) (ws @ bs))"
proof (induction bs arbitrary: d ws)
  case (Cons b bs)
  obtain p q r s where ws: "ws = [p, q, r, s]"
    using list4_cases [OF Cons.prems(1)] by blast
  have "sync_window (fst (tpiu_push d b)) = from_le [q, r, s, b]"
    using Cons.prems(2) by (simp add: window_push ws shift_in_byte)
  then show ?case
    using Cons.IH [of "[q, r, s, b]" "fst (tpiu_push d b)"]
    by (simp add: ws Let_def case_prod_unfold)
qed simp

lemma window_ends:
  assumes "length w = 4" "hd w \<noteq> 0"
  shows "sync_window (fst (tpiu_feed tpiu_default bs)) = from_le w \<longleftrightarrow> (\<exists>pre. bs = pre @ w)"
proof -
  let ?last = "drop (length bs) ([0, 0, 0, 0] @ bs)"
  have window: "sync_window (fst (tpiu_feed tpiu_default bs)) = from_le ?last"
    by (rule window_after) (simp_all add: tpiu_default_def from_le_Cons)
  have "sync_window (fst (tpiu_feed tpiu_default bs)) = from_le w \<longleftrightarrow> ?last = w"
    unfolding window by (rule from_le_inj) (simp_all add: assms)
  also have "\<dots> \<longleftrightarrow> (\<exists>pre. bs = pre @ w)"
  proof
    assume last: "?last = w"
    have "4 \<le> length bs"
    proof (rule ccontr)
      assume "\<not> 4 \<le> length bs"
      then have "hd ?last = 0"
        by (auto simp: not_le less_Suc_eq numeral_eq_Suc length_Suc_conv)
      then show False using last assms(2) by simp
    qed
    then have "drop (length bs) [0, 0, 0, 0 :: u8] = []" "length [0, 0, 0, 0 :: u8] = 4" by simp_all
    then have "?last = drop (length bs - 4) bs" by (simp only: drop_append append_Nil)
    then have "drop (length bs - 4) bs = w" using last by (simp only:)
    then show "\<exists>pre. bs = pre @ w"
      by (metis append_take_drop_id)
  next
    assume "\<exists>pre. bs = pre @ w"
    then show "?last = w" using assms(1) by (auto simp: numeral_eq_Suc)
  qed
  finally show ?thesis .
qed

lemma window_is_sync:
  "sync_window (fst (tpiu_feed tpiu_default bs)) = 0xffffff7f \<longleftrightarrow> (\<exists>pre. bs = pre @ sync_word)"
  using window_ends [of sync_word bs] by (simp add: sync_word_def from_le_Cons)

lemma feed_snoc_synced:
  "synced (fst (tpiu_feed d (bs @ [b]))) \<longleftrightarrow>
     synced (fst (tpiu_feed d bs)) \<or> sync_window (fst (tpiu_feed d (bs @ [b]))) = 0xffffff7f"
  by (auto simp: tpiu_feed_append tpiu_push_def Let_def split: prod.splits if_splits)

definition has_sync :: "bytes \<Rightarrow> bool" where
  "has_sync bs \<longleftrightarrow> (\<exists>pre post. bs = pre @ sync_word @ post)"

lemma has_sync_snoc: "has_sync (bs @ [b]) \<longleftrightarrow> has_sync bs \<or> (\<exists>pre. bs @ [b] = pre @ sync_word)"
proof
  assume "has_sync (bs @ [b])"
  then obtain pre post where eq: "bs @ [b] = (pre @ sync_word) @ post"
    by (auto simp: has_sync_def)
  show "has_sync bs \<or> (\<exists>pre. bs @ [b] = pre @ sync_word)"
  proof (cases post rule: rev_cases)
    case Nil
    with eq show ?thesis by auto
  next
    case (snoc ys y)
    with eq have "bs = pre @ sync_word @ ys" by simp
    then show ?thesis by (auto simp: has_sync_def)
  qed
next
  assume "has_sync bs \<or> (\<exists>pre. bs @ [b] = pre @ sync_word)"
  then show "has_sync (bs @ [b])"
    unfolding has_sync_def by (metis append.assoc append_Nil2)
qed

lemma synced_iff_has_sync: "synced (fst (tpiu_feed tpiu_default bs)) \<longleftrightarrow> has_sync bs"
proof (induction bs rule: rev_induct)
  case Nil
  then show ?case by (simp add: tpiu_default_def has_sync_def sync_word_def)
next
  case (snoc b bs)
  then show ?case
    by (simp only: feed_snoc_synced has_sync_snoc window_is_sync)
qed

lemma feed_unsynced:
  "\<not> synced (fst (tpiu_feed d bs)) \<Longrightarrow>
   snd (tpiu_feed d bs) = [] \<and> (\<exists>w. fst (tpiu_feed d bs) = d\<lparr>sync_window := w\<rparr>)"
proof (induction bs rule: rev_induct)
  case Nil
  show ?case by (auto intro: exI [of _ "sync_window d"])
next
  case (snoc b bs)
  then have u: "\<not> synced (fst (tpiu_feed d bs))"
    by (simp add: feed_snoc_synced)
  with snoc.IH obtain w where fd: "tpiu_feed d bs = (d\<lparr>sync_window := w\<rparr>, [])"
    by (metis prod.collapse)
  with u have "\<not> synced d" by simp
  with snoc.prems fd show ?case
    by (auto simp: tpiu_feed_append tpiu_push_def Let_def split: if_splits)
qed

text \<open>
  Acquiring synchronisation. A decoder started from its default state is
  synchronised after a byte stream exactly when the full synchronisation packet
  \<open>7f ff ff ff\<close> occurs somewhere in that stream, at any alignment; until then it emits
  nothing.
\<close>

theorem tpiu_sync_exact:
  "synced (fst (tpiu_feed tpiu_default bs)) = has_sync bs
   \<and> (has_sync bs \<or> snd (tpiu_feed tpiu_default bs) = [])"
  using synced_iff_has_sync [of bs] feed_unsynced [of tpiu_default bs] by blast


text \<open>One frame in the reference notation: source 2 from the first slot on, then data.\<close>

definition sample_slots :: "slot list" where
  "sample_slots = IdSlot 2 False # map (\<lambda>i. DataSlot (of_nat i)) [1..<15]"


section \<open>The invariant of the decoder\<close>

definition tpiu_wf :: "tpiu_decoder \<Rightarrow> bool" where
  "tpiu_wf d \<longleftrightarrow> length (tpiu_frame d) < 16 \<and> (synced d \<or> tpiu_frame d = [])
     \<and> channel d < 128 \<and> (\<forall>c. delayed_channel d = Some c \<longrightarrow> c < 128)"

definition demux_wf :: "nat \<Rightarrow> demux \<Rightarrow> bool" where
  "demux_wf n st \<longleftrightarrow> (case st of (ch, delayed, out) \<Rightarrow>
     ch < 128 \<and> (\<forall>c. delayed = Some c \<longrightarrow> c < 128) \<and> length out \<le> n
     \<and> (\<forall>m \<in> set out. 0 < mux_channel m \<and> mux_channel m < 128))"

lemma drop_bit_1_less [range_simps]: "drop_bit 1 (x :: u8) < 128"
proof -
  have "unat (drop_bit 1 x) = drop_bit 1 (unat x)"
    by (rule unat_drop_bit_eq)
  also have "\<dots> = unat x div 2" by (simp add: drop_bit_eq_div)
  finally have "unat (drop_bit 1 x) = unat x div 2" .
  then show ?thesis
    using unat_u8_less [of x] unfolding word_less_nat_alt by simp
qed

lemma demux_slot_wf: "demux_wf n st \<Longrightarrow> demux_wf (Suc n) (demux_slot raw st i)"
proof -
  assume wf: "demux_wf n st"
  obtain ch delayed out where st: "st = (ch, delayed, out)" by (cases st)
  let ?x = "if i mod 2 = 0 then (raw ! i AND 0xfe) OR (drop_bit (i div 2) (raw ! 15) AND 1) else raw ! i"
  have eq: "demux_slot raw st i =
      (if i mod 2 = 0 \<and> raw ! i AND 1 \<noteq> 0
       then (if ?x AND 1 \<noteq> 0 then (ch, Some (drop_bit 1 ?x), out) else (drop_bit 1 ?x, delayed, out))
       else ((case delayed of Some nxt \<Rightarrow> nxt | None \<Rightarrow> ch), None,
             if ch \<noteq> 0 then out @ [MuxedByte ch ?x] else out))"
    by (simp only: demux_slot_def st Let_def split: option.split) auto
  have wf': "demux_wf (Suc n) (ch, Some (drop_bit 1 x), out)"
      "demux_wf (Suc n) (drop_bit 1 x, delayed, out)"
      "demux_wf (Suc n) ((case delayed of Some nxt \<Rightarrow> nxt | None \<Rightarrow> ch), None,
             if ch \<noteq> 0 then out @ [MuxedByte ch x] else out)" for x
    using wf drop_bit_1_less [of x]
    by (auto simp: demux_wf_def st word_neq_0_conv simp del: drop_bit_Suc split: option.split)
  show ?thesis
    unfolding eq by (simp only: wf' split: if_split) simp
qed

lemma demux_slots_wf: "demux_wf n st \<Longrightarrow> demux_wf (n + length is) (foldl (demux_slot raw) st is)"
proof (induction "is" arbitrary: n st)
  case (Cons i "is")
  from Cons.IH [OF demux_slot_wf [OF Cons.prems]] show ?case by simp
qed simp

text \<open>
  The state of the TPIU decoder. The invariant -- fewer than sixteen buffered bytes,
  none of them while unsynchronised, and 7-bit source numbers -- holds initially, is kept by
  \<open>push\<close> on every byte and by \<open>reset_sync\<close>; from a state that satisfies it, a push
  emits at most fifteen bytes, all of them with a source from 1 to 127.
\<close>

theorem tpiu_push_invariant:
  "tpiu_wf tpiu_default \<and> {d. tpiu_wf d} \<subseteq> {d. tpiu_wf (reset_sync d)}
   \<and> {d. tpiu_wf d} \<subseteq> {d. case tpiu_push d b of (d', out) \<Rightarrow> tpiu_wf d' \<and> length out \<le> 15
       \<and> set (map mux_channel out) \<subseteq> {1..127}}"
proof (intro conjI subsetI CollectI; (elim CollectE)?)
  show "tpiu_wf tpiu_default"
    by (simp add: tpiu_wf_def tpiu_default_def)
next
  fix d assume "tpiu_wf d"
  then show "tpiu_wf (reset_sync d)"
    by (simp add: tpiu_wf_def reset_sync_def Let_def)
next
  fix d assume wf: "tpiu_wf d"
  then have "demux_wf 0 (channel d, delayed_channel d, [])"
    by (simp add: tpiu_wf_def demux_wf_def)
  from demux_slots_wf [OF this, of "[0..<15]" "tpiu_frame d @ [b]"]
  have "demux_wf 15 (demux_frame (tpiu_frame d @ [b]) (channel d, delayed_channel d, []))"
    by (simp add: demux_frame_def)
  with wf show "case tpiu_push d b of (d', out) \<Rightarrow> tpiu_wf d' \<and> length out \<le> 15
       \<and> set (map mux_channel out) \<subseteq> {1..127}"
    by (auto simp: tpiu_push_def tpiu_wf_def demux_wf_def Let_def word_le_nat_alt word_less_nat_alt
        split: prod.splits)
qed

end
