(* ===== verification/DemuxRtl.thy ===== *)
theory DemuxRtl
  imports Tpiu "HOL-Library.Sublist"
begin

text \<open>
  The formatter decoder in the programmable logic, \<open>applications/orbtrace/rtl/orbtrace_tpiu_demux.sv\<close>, and the byte
  source that is meant to exercise it, \<open>orbtrace_test_source.sv\<close>, as clocked steps. The decoder is tied to
  the slot rules of the Rust model; the order of the bytes of a synchronisation packet is where the two part.
\<close>

section \<open>The demultiplexer\<close>

record demux_regs =
  dx_synced :: bool
  dx_window :: u32
  dx_frame :: "nat \<Rightarrow> u8"
  dx_fill :: nat
  dx_emit :: nat
  dx_emitting :: bool
  dx_channel :: "7 word"
  dx_delayed_channel :: "7 word"
  dx_delayed_valid :: bool
  dx_sync_loss :: u64

record demux_in =
  dx_reset_n :: bool
  dx_reset_sync :: bool
  dx_data :: u8
  dx_valid :: bool
  dx_ready :: bool
  dx_m3_source :: bool

definition M3_EXPECTED_CHANNEL :: "7 word" where "M3_EXPECTED_CHANNEL = 1"

text \<open>The byte of the slot with its low bit restored, and whether it is a source id.\<close>

definition dx_unmangled :: "demux_regs \<Rightarrow> u8" where
  "dx_unmangled s =
     (if even (dx_emit s)
      then (dx_frame s (dx_emit s) AND 0xfe) OR of_bool (bit (dx_frame s 15) (dx_emit s div 2))
      else dx_frame s (dx_emit s))"

definition dx_is_id :: "demux_regs \<Rightarrow> bool" where
  "dx_is_id s \<longleftrightarrow> even (dx_emit s) \<and> bit (dx_frame s (dx_emit s)) 0"

definition dx_input_ready :: "demux_regs \<Rightarrow> bool" where
  "dx_input_ready s \<longleftrightarrow> \<not> dx_emitting s"

definition dx_output_valid :: "demux_regs \<Rightarrow> bool" where
  "dx_output_valid s \<longleftrightarrow> dx_emitting s \<and> \<not> dx_is_id s \<and> dx_channel s \<noteq> 0"

definition demux_reset :: "demux_regs \<Rightarrow> demux_regs" where
  "demux_reset s = s\<lparr>dx_synced := False, dx_window := 0, dx_fill := 0, dx_emit := 0, dx_emitting := False,
     dx_channel := 0, dx_delayed_channel := 0, dx_delayed_valid := False, dx_sync_loss := 0\<rparr>"

definition shift_window :: "u32 \<Rightarrow> u8 \<Rightarrow> u32" where
  "shift_window w b = drop_bit 8 w OR push_bit 24 (ucast b)"

definition dx_resync :: "demux_in \<Rightarrow> demux_regs \<Rightarrow> demux_regs \<Rightarrow> demux_regs" where
  "dx_resync i s t =
     (if dx_reset_sync i then
        let t = (if dx_synced s then t\<lparr>dx_sync_loss := dx_sync_loss s + 1\<rparr> else t)
        in t\<lparr>dx_synced := False, dx_fill := 0, dx_emitting := False\<rparr>
      else t)"

definition dx_take :: "demux_in \<Rightarrow> demux_regs \<Rightarrow> demux_regs \<Rightarrow> demux_regs" where
  "dx_take i s t =
     (if dx_valid i \<and> dx_input_ready s then
        let t = t\<lparr>dx_window := shift_window (dx_window s) (dx_data i)\<rparr>
        in if \<not> dx_synced s then
             if shift_window (dx_window s) (dx_data i) = 0x7fffffff then t\<lparr>dx_synced := True, dx_fill := 0\<rparr> else t
           else
             let t = t\<lparr>dx_frame := (dx_frame t)(dx_fill s := dx_data i)\<rparr>
             in if dx_fill s = 15 then t\<lparr>dx_fill := 0, dx_emit := 0, dx_emitting := True\<rparr>
                else t\<lparr>dx_fill := (dx_fill s + 1) mod 32\<rparr>
      else t)"

definition dx_slot :: "demux_in \<Rightarrow> demux_regs \<Rightarrow> demux_regs \<Rightarrow> demux_regs" where
  "dx_slot i s t =
     (if dx_emitting s \<and> (dx_is_id s \<or> dx_channel s = 0 \<or> dx_ready i) then
        let id = ucast (drop_bit 1 (dx_unmangled s))
        in if dx_m3_source i \<and> dx_is_id s \<and> id \<noteq> M3_EXPECTED_CHANNEL then
             t\<lparr>dx_synced := False, dx_fill := 0, dx_emitting := False, dx_sync_loss := dx_sync_loss s + 1\<rparr>
           else
             let t = (if dx_is_id s then
                        if bit (dx_unmangled s) 0 then t\<lparr>dx_delayed_channel := id, dx_delayed_valid := True\<rparr>
                        else t\<lparr>dx_channel := id\<rparr>
                      else if dx_delayed_valid s then
                        t\<lparr>dx_channel := dx_delayed_channel s, dx_delayed_valid := False\<rparr>
                      else t)
             in if dx_emit s = 14 then t\<lparr>dx_emitting := False\<rparr> else t\<lparr>dx_emit := (dx_emit s + 1) mod 32\<rparr>
      else t)"

definition demux_clock :: "demux_in \<Rightarrow> demux_regs \<Rightarrow> demux_regs" where
  "demux_clock i s =
     (if \<not> dx_reset_n i then demux_reset s else dx_slot i s (dx_take i s (dx_resync i s s)))"

definition dx_taken :: "demux_in \<Rightarrow> demux_regs \<Rightarrow> bytes" where
  "dx_taken i s = (if dx_valid i \<and> dx_input_ready s then [dx_data i] else [])"

definition dx_given :: "demux_in \<Rightarrow> demux_regs \<Rightarrow> (7 word \<times> u8) list" where
  "dx_given i s = (if dx_output_valid s \<and> dx_ready i then [(dx_channel s, dx_unmangled s)] else [])"

fun demux_run :: "demux_regs \<Rightarrow> demux_in list \<Rightarrow> bytes \<times> (7 word \<times> u8) list \<times> demux_regs" where
  "demux_run s [] = ([], [], s)"
| "demux_run s (i # is) =
     (case demux_run (demux_clock i s) is of
        (ins, outs, s') \<Rightarrow> (dx_taken i s @ ins, dx_given i s @ outs, s'))"

section \<open>The test source\<close>

record test_in =
  ts_reset_n :: bool
  ts_enable :: bool
  ts_tpiu_mode :: bool
  ts_ready :: bool

text \<open>The index register has five bits.\<close>

definition test_data :: "u8 \<Rightarrow> bool \<Rightarrow> nat \<Rightarrow> u8" where
  "test_data raw_base tpiu_mode index =
     (if \<not> tpiu_mode then raw_base + of_nat (index mod 16)
      else if index = 0 then 0x7f
      else if index \<in> {1, 2, 3} then 0xff
      else if index = 4 then 0x05
      else if index = 19 then 0
      else raw_base + of_nat index - 5)"

definition test_clock :: "test_in \<Rightarrow> nat \<Rightarrow> nat" where
  "test_clock i index =
     (if \<not> ts_reset_n i \<or> \<not> ts_enable i then 0
      else if ts_ready i then
        if ts_tpiu_mode i then (if index = 19 then 0 else (index + 1) mod 32)
        else (if index = 15 then 0 else (index + 1) mod 32)
      else index)"

text \<open>The bytes taken from it in a run.\<close>

fun test_run :: "u8 \<Rightarrow> nat \<Rightarrow> test_in list \<Rightarrow> bytes" where
  "test_run raw_base index [] = []"
| "test_run raw_base index (i # is) =
     (if ts_enable i \<and> ts_ready i then [test_data raw_base (ts_tpiu_mode i) index] else [])
     @ test_run raw_base (test_clock i index) is"

section \<open>The reference\<close>

text \<open>The decoder of the Rust model, but for the order of the synchronisation packet.\<close>

definition true_sync :: bytes where
  "true_sync = [0xff, 0xff, 0xff, 0x7f]"

definition rtl_push :: "tpiu_decoder \<Rightarrow> u8 \<Rightarrow> tpiu_decoder \<times> muxed_byte list" where
  "rtl_push d b =
     (if synced d then tpiu_push d b
      else let d1 = d\<lparr>sync_window := shift_window (sync_window d) b\<rparr>
           in (if sync_window d1 = 0x7fffffff then d1\<lparr>synced := True, tpiu_frame := []\<rparr> else d1, []))"

fun rtl_feed :: "tpiu_decoder \<Rightarrow> bytes \<Rightarrow> tpiu_decoder \<times> muxed_byte list" where
  "rtl_feed d [] = (d, [])"
| "rtl_feed d (b # bs) =
     (let (d1, out1) = rtl_push d b; (d2, out2) = rtl_feed d1 bs in (d2, out1 @ out2))"

lemma rtl_feed_append:
  "rtl_feed d (xs @ ys) =
     (let (d1, out1) = rtl_feed d xs; (d2, out2) = rtl_feed d1 ys in (d2, out1 @ out2))"
  by (induction xs arbitrary: d) (auto simp: Let_def split: prod.splits)

lemma rtl_feed_synced: "synced d \<Longrightarrow> rtl_feed d bs = tpiu_feed d bs"
proof (induction bs arbitrary: d)
  case (Cons b bs)
  have "synced (fst (tpiu_push d b))" using Cons.prems by (rule synced_push)
  then show ?case using Cons by (cases "tpiu_push d b") (simp add: rtl_push_def Let_def)
qed simp

lemma rtl_push_window: "sync_window (fst (rtl_push d b)) = shift_window (sync_window d) b"
  by (simp add: rtl_push_def window_push Let_def shift_window_def)

lemma rtl_feed_window:
  "sync_window d = sync_window d' \<Longrightarrow> sync_window (fst (rtl_feed d bs)) = sync_window (fst (tpiu_feed d' bs))"
proof (induction bs arbitrary: d d')
  case (Cons b bs)
  then show ?case
    using Cons.IH [of "fst (rtl_push d b)" "fst (tpiu_push d' b)"]
    by (simp add: Let_def case_prod_unfold rtl_push_window window_push shift_window_def)
qed simp

lemma rtl_window_is_sync:
  "sync_window (fst (rtl_feed tpiu_default bs)) = 0x7fffffff \<longleftrightarrow> suffix true_sync bs"
  using window_ends [of true_sync bs] rtl_feed_window [of tpiu_default tpiu_default bs]
  by (simp add: true_sync_def from_le_Cons suffix_def)

lemma rtl_feed_snoc_synced:
  "synced (fst (rtl_feed d (bs @ [b]))) \<longleftrightarrow>
     synced (fst (rtl_feed d bs)) \<or> sync_window (fst (rtl_feed d (bs @ [b]))) = 0x7fffffff"
proof (cases "rtl_feed d bs")
  case (Pair d1 out1)
  then have "rtl_feed d (bs @ [b]) = (fst (rtl_push d1 b), out1 @ snd (rtl_push d1 b))"
    by (simp add: rtl_feed_append Let_def case_prod_unfold)
  then show ?thesis
    using Pair by (cases "synced d1") (auto simp: rtl_push_def synced_push Let_def)
qed

text \<open>The decoder of the programmable logic is synchronised once a synchronisation packet has gone by.\<close>

lemma rtl_synced_iff: "synced (fst (rtl_feed tpiu_default bs)) \<longleftrightarrow> sublist true_sync bs"
proof (induction bs rule: rev_induct)
  case Nil
  show ?case by (simp add: tpiu_default_def true_sync_def)
next
  case (snoc b bs)
  then show ?case by (simp only: rtl_feed_snoc_synced sublist_snoc rtl_window_is_sync) blast
qed

lemma rtl_feed_unsynced:
  "\<not> synced (fst (rtl_feed d bs)) \<Longrightarrow>
   snd (rtl_feed d bs) = [] \<and> (\<exists>w. fst (rtl_feed d bs) = d\<lparr>sync_window := w\<rparr>)"
proof (induction bs rule: rev_induct)
  case Nil
  show ?case by (auto intro: exI [of _ "sync_window d"])
next
  case (snoc b bs)
  then have u: "\<not> synced (fst (rtl_feed d bs))" by (simp add: rtl_feed_snoc_synced)
  with snoc.IH obtain w where fd: "rtl_feed d bs = (d\<lparr>sync_window := w\<rparr>, [])"
    by (metis prod.collapse)
  with u have "\<not> synced d" by simp
  with snoc.prems fd show ?case
    by (auto simp: rtl_feed_append rtl_push_def Let_def split: if_splits)
qed

text \<open>At the last byte of the first synchronisation packet the decoder is at a frame boundary.\<close>

lemma rtl_feed_first_sync:
  assumes "\<not> sublist true_sync (pre @ [0xff, 0xff, 0xff])"
  shows "\<exists>w. rtl_feed tpiu_default (pre @ true_sync) = (tpiu_default\<lparr>sync_window := w, synced := True\<rparr>, [])"
proof -
  define head where "head = pre @ [0xff, 0xff, 0xff :: u8]"
  have split: "pre @ true_sync = head @ [0x7f]" by (simp add: head_def true_sync_def)
  have "\<not> synced (fst (rtl_feed tpiu_default head))" using assms by (simp add: rtl_synced_iff head_def)
  then obtain w where fed: "rtl_feed tpiu_default head = (tpiu_default\<lparr>sync_window := w\<rparr>, [])"
    using rtl_feed_unsynced by (metis prod.collapse)
  have "synced (fst (rtl_feed tpiu_default (pre @ true_sync)))" by (simp add: rtl_synced_iff)
  then show ?thesis
    unfolding split using fed by (auto simp: rtl_feed_append rtl_push_def tpiu_default_def Let_def split: if_splits)
qed

text \<open>The plausibility gate lets a frame through whose source ids, if any, are all that of the M3.\<close>

definition m3_ids :: "bytes \<Rightarrow> bool" where
  "m3_ids raw \<longleftrightarrow> (\<forall>k < 15. even k \<and> bit (raw ! k) 0 \<longrightarrow> raw ! k = 3)"

fun frames_ok :: "tpiu_decoder \<Rightarrow> bytes \<Rightarrow> bool" where
  "frames_ok d [] \<longleftrightarrow> True"
| "frames_ok d (b # bs) \<longleftrightarrow> (synced d \<and> length (tpiu_frame d) = 15 \<longrightarrow> m3_ids (tpiu_frame d @ [b]))
     \<and> frames_ok (fst (rtl_push d b)) bs"

lemma frames_ok_append: "frames_ok d (xs @ ys) \<longleftrightarrow> frames_ok d xs \<and> frames_ok (fst (rtl_feed d xs)) ys"
  by (induction xs arbitrary: d) (simp_all add: Let_def case_prod_unfold)

lemma rtl_push_synced: "synced d \<Longrightarrow> synced (fst (rtl_push d b))"
  by (simp add: rtl_push_def synced_push)

lemma rtl_feed_stays_synced: "synced d \<Longrightarrow> synced (fst (rtl_feed d bs))"
  by (induction bs arbitrary: d) (simp_all add: Let_def case_prod_unfold rtl_push_synced)

lemma frames_ok_unsynced: "\<not> synced (fst (rtl_feed d bs)) \<Longrightarrow> frames_ok d bs"
proof (induction bs rule: rev_induct)
  case (snoc b bs)
  then have "\<not> synced (fst (rtl_feed d bs))" by (simp add: rtl_feed_snoc_synced)
  with snoc.IH show ?case by (simp add: frames_ok_append)
qed simp

lemma frames_ok_frame:
  assumes "at_boundary d" "length raw = 16" "m3_ids raw"
  shows "frames_ok d raw"
proof -
  obtain xs b where raw: "raw = xs @ [b]" "length xs = 15" using assms(2) by (cases raw rule: rev_cases) auto
  have partial: "synced d \<Longrightarrow> length (tpiu_frame d) + length bs < 16 \<Longrightarrow> frames_ok d bs" for bs d
  proof (induction bs arbitrary: d)
    case (Cons b bs)
    then show ?case using synced_push [of d b]
      by (simp add: rtl_push_def) (simp add: tpiu_push_def Let_def)
  qed simp
  obtain w where "tpiu_feed d xs = (d\<lparr>sync_window := w, tpiu_frame := xs\<rparr>, [])"
    using tpiu_feed_partial [of d xs] assms(1) raw(2) by (auto simp: at_boundary_def)
  then show ?thesis
    using assms partial [of d xs] raw by (simp add: frames_ok_append rtl_feed_synced at_boundary_def)
qed

definition m3_frame :: "slot list \<Rightarrow> bool" where
  "m3_frame f \<longleftrightarrow> list_all (\<lambda>x. case x of DataSlot d \<Rightarrow> True | IdSlot c delay \<Rightarrow> c = 1) f"

lemma m3_ids_pack:
  assumes "valid_slots f" "m3_frame f"
  shows "m3_ids (pack_frame f)"
  unfolding m3_ids_def
proof (intro allI impI)
  fix k :: nat
  assume k: "k < 15" and id: "even k \<and> bit (pack_frame f ! k) 0"
  have "f ! k \<in> set f" using assms(1) k by (simp add: valid_slots_def)
  moreover have "\<not> bit (x AND 0xfe :: u8) 0" for x by (simp add: bit_and_iff bit_0xfe)
  ultimately obtain c delay where "f ! k = IdSlot c delay" "IdSlot c delay \<in> set f"
    using id k by (simp add: nth_pack_frame slot_byte_def) (cases "f ! k" rule: slot.exhaust; auto)
  moreover from this(2) have "c = 1" using assms(2) by (auto simp: m3_frame_def list_all_iff)
  ultimately show "pack_frame f ! k = 3" using k by (simp add: nth_pack_frame slot_byte_def)
qed

lemma frames_ok_frames:
  "at_boundary d \<Longrightarrow> list_all valid_slots fs \<Longrightarrow> list_all m3_frame fs \<Longrightarrow> frames_ok d (concat (map pack_frame fs))"
proof (induction fs arbitrary: d)
  case (Cons f fs)
  obtain d' where "fst (tpiu_feed d (pack_frame f)) = d'" "at_boundary d'"
    using tpiu_feed_frames [OF Cons.prems(1), of "[f]"] Cons.prems(2) by auto
  moreover have "frames_ok d (pack_frame f)"
    using Cons.prems m3_ids_pack by (simp add: frames_ok_frame)
  ultimately show ?case using Cons
    by (simp add: frames_ok_append rtl_feed_synced at_boundary_def)
qed simp

section \<open>Simulation\<close>

definition mux_of :: "7 word \<times> u8 \<Rightarrow> muxed_byte" where
  "mux_of x = MuxedByte (ucast (fst x)) (snd x)"

definition dx_source :: "demux_regs \<Rightarrow> u8 \<times> u8 option" where
  "dx_source s = (ucast (dx_channel s), if dx_delayed_valid s then Some (ucast (dx_delayed_channel s)) else None)"

lemma dx_source_updates [simp]:
  "dx_source (s\<lparr>dx_window := w\<rparr>) = dx_source s" "dx_source (s\<lparr>dx_frame := f\<rparr>) = dx_source s"
  "dx_source (s\<lparr>dx_fill := n\<rparr>) = dx_source s" "dx_source (s\<lparr>dx_emit := n\<rparr>) = dx_source s"
  "dx_source (s\<lparr>dx_emitting := b\<rparr>) = dx_source s" "dx_source (s\<lparr>dx_synced := b\<rparr>) = dx_source s"
  by (simp_all add: dx_source_def)

text \<open>The registers hold the state of the decoder, and \<open>pend\<close> is what of its output is not yet given.\<close>

definition demux_rel :: "bool \<Rightarrow> demux_regs \<Rightarrow> tpiu_decoder \<Rightarrow> muxed_byte list \<Rightarrow> bool" where
  "demux_rel m3 s d pend \<longleftrightarrow> dx_synced s = synced d \<and> dx_window s = sync_window d
     \<and> (if dx_emitting s
        then synced d \<and> tpiu_frame d = [] \<and> dx_fill s = 0 \<and> dx_emit s < 15
          \<and> (m3 \<longrightarrow> m3_ids (map (dx_frame s) [0..<16]))
          \<and> foldl (demux_slot (map (dx_frame s) [0..<16])) (fst (dx_source s), snd (dx_source s), []) [dx_emit s..<15]
              = (channel d, delayed_channel d, pend)
        else pend = [] \<and> dx_source s = (channel d, delayed_channel d)
          \<and> (synced d \<longrightarrow> dx_fill s < 16 \<and> tpiu_frame d = map (dx_frame s) [0..<dx_fill s]))"

lemma low_bit_of: "drop_bit k a AND 1 = (of_bool (bit a k) :: u8)"
  by (rule u8_eqI, cases "bit a k") (auto simp: bit_and_iff bit_drop_bit_eq bit_1_iff intro!: gr0I)

lemma id_of_u8: "ucast (ucast (drop_bit 1 (x :: u8)) :: 7 word) = drop_bit 1 x"
  by (rule bit_word_eqI) (auto simp: bit_ucast_iff bit_drop_bit_eq dest: bit_imp_le_length)

lemma m3_id: "ucast (drop_bit 1 ((3 AND 0xfe) OR of_bool b :: u8)) = M3_EXPECTED_CHANNEL"
  unfolding M3_EXPECTED_CHANNEL_def by (cases b) (simp_all only: of_bool_eq, code_simp+)

text \<open>One slot of the frame in the registers.\<close>

lemma demux_slot_regs:
  assumes "dx_emit s < 15"
  shows "demux_slot (map (dx_frame s) [0..<16]) (ch, delayed, out) (dx_emit s) =
    (if dx_is_id s then
       if bit (dx_unmangled s) 0 then (ch, Some (drop_bit 1 (dx_unmangled s)), out)
       else (drop_bit 1 (dx_unmangled s), delayed, out)
     else ((case delayed of Some nxt \<Rightarrow> nxt | None \<Rightarrow> ch), None,
           if ch \<noteq> 0 then out @ [MuxedByte ch (dx_unmangled s)] else out))"
proof -
  have at: "map (dx_frame s) [0..<16] ! k = dx_frame s k" if "k < 16" for k
    using that by (simp del: upt_rec_numeral)
  have "dx_emit s < 16" "15 < (16 :: nat)" using assms by simp_all
  note frame = this [THEN at]
  have data: "(if dx_emit s mod 2 = 0 then (dx_frame s (dx_emit s) AND 0xfe) OR (drop_bit (dx_emit s div 2) (dx_frame s 15) AND 1)
      else dx_frame s (dx_emit s)) = dx_unmangled s"
    by (simp add: dx_unmangled_def low_bit_of even_iff_mod_2_eq_zero)
  have id: "(dx_emit s mod 2 = 0 \<and> dx_frame s (dx_emit s) AND 1 \<noteq> 0) = dx_is_id s"
    by (simp add: dx_is_id_def and_1_bit even_iff_mod_2_eq_zero)
  show ?thesis
    unfolding demux_slot_def prod.case Let_def frame data id unfolding and_1_bit by (simp split: option.split)
qed

lemma demux_slot_out: "demux_slot raw (ch, delayed, out) k =
    (case demux_slot raw (ch, delayed, []) k of (ch', delayed', o') \<Rightarrow> (ch', delayed', out @ o'))"
  by (simp add: demux_slot_def Let_def split: option.split)

lemma demux_slots_out: "foldl (demux_slot raw) (ch, delayed, out) ks =
    (case foldl (demux_slot raw) (ch, delayed, []) ks of (ch', delayed', o') \<Rightarrow> (ch', delayed', out @ o'))"
proof (induction ks arbitrary: ch delayed out)
  case (Cons k ks)
  obtain c' d' o' where "demux_slot raw (ch, delayed, []) k = (c', d', o')" by (metis prod_cases3)
  then show ?case
    using demux_slot_out [of raw ch delayed out k] Cons [of c' d' "out @ o'"] Cons [of c' d' o']
    by (simp split: prod.splits)
qed simp

text \<open>An edge without resynchronisation, and where the M3 is selected only if \<open>m3\<close> says it may be.\<close>

definition dx_plain :: "bool \<Rightarrow> demux_in \<Rightarrow> bool" where
  "dx_plain m3 i \<longleftrightarrow> dx_reset_n i \<and> \<not> dx_reset_sync i \<and> (dx_m3_source i \<longrightarrow> m3)"

lemma demux_rel_collect:
  assumes "demux_rel m3 s d pend" "\<not> dx_emitting s" "dx_plain m3 i" "m3 \<longrightarrow> frames_ok d (dx_taken i s)"
  shows "\<exists>pend'. demux_rel m3 (demux_clock i s) (fst (rtl_feed d (dx_taken i s))) pend'
    \<and> pend @ snd (rtl_feed d (dx_taken i s)) = map mux_of (dx_given i s) @ pend'"
proof -
  have rel: "dx_synced s = synced d" "dx_window s = sync_window d" "pend = []" "dx_source s = (channel d, delayed_channel d)"
    "synced d \<Longrightarrow> dx_fill s < 16 \<and> tpiu_frame d = map (dx_frame s) [0..<dx_fill s]"
    using assms(1,2) by (simp_all add: demux_rel_def)
  have given: "dx_given i s = []" using assms(2) by (simp add: dx_given_def dx_output_valid_def)
  have clock: "demux_clock i s = dx_take i s s"
    using assms(2,3) by (simp add: demux_clock_def dx_plain_def dx_resync_def dx_slot_def)
  show ?thesis
  proof (cases "dx_valid i")
    case False
    then show ?thesis using assms(1) rel(3) given
      by (simp add: clock dx_take_def dx_taken_def)
  next
    case True
    let ?b = "dx_data i"
    have taken: "dx_taken i s = [?b]" using True assms(2) by (simp add: dx_taken_def dx_input_ready_def)
    have ready: "dx_valid i \<and> dx_input_ready s" using True assms(2) by (simp add: dx_input_ready_def)
    show ?thesis
    proof (cases "synced d")
      case False
      then show ?thesis using rel assms(2) given ready
        by (auto simp: clock dx_take_def taken rtl_push_def Let_def demux_rel_def)
    next
      case sync: True
      let ?raw = "map (dx_frame s) [0..<dx_fill s] @ [?b]"
      have fill: "dx_fill s < 16" "tpiu_frame d = map (dx_frame s) [0..<dx_fill s]" using rel(5) [OF sync] by simp_all
      have frame: "map ((dx_frame s)(dx_fill s := ?b)) [0..<Suc (dx_fill s)] = ?raw" by simp
      show ?thesis
      proof (cases "dx_fill s = 15")
        case False
        then have "rtl_feed d [?b] = (d\<lparr>sync_window := shift_window (sync_window d) ?b, tpiu_frame := ?raw\<rparr>, [])"
          using sync fill by (simp add: rtl_push_def tpiu_push_def Let_def shift_window_def)
        moreover have "(dx_fill s + 1) mod 32 = Suc (dx_fill s)" using fill(1) by simp
        ultimately show ?thesis using False sync rel assms(2) given fill frame ready
          by (auto simp: clock dx_take_def taken demux_rel_def Let_def split: if_splits)
      next
        case True
        obtain ch delayed out where dm: "demux_frame ?raw (channel d, delayed_channel d, []) = (ch, delayed, out)"
          by (metis prod_cases3)
        have "rtl_feed d [?b] = (d\<lparr>sync_window := shift_window (sync_window d) ?b, tpiu_frame := [], channel := ch,
            delayed_channel := delayed\<rparr>, out)"
          using sync fill dm True by (simp add: rtl_push_def tpiu_push_def Let_def shift_window_def)
        moreover have "demux_clock i s = s\<lparr>dx_window := shift_window (dx_window s) ?b,
            dx_frame := (dx_frame s)(15 := ?b), dx_fill := 0, dx_emit := 0, dx_emitting := True\<rparr>"
          using True sync rel(1) ready by (simp add: clock dx_take_def Let_def)
        moreover have "map ((dx_frame s)(15 := ?b)) [0..<16] = ?raw" using frame True by simp
        moreover have "m3 \<longrightarrow> m3_ids ?raw" using assms(4) sync fill True by (simp add: taken)
        ultimately show ?thesis using sync rel given dm unfolding demux_frame_def taken
          by (intro exI [of _ out]) (simp add: demux_rel_def del: upt_rec_numeral)
      qed
    qed
  qed
qed

lemma demux_rel_emit:
  assumes "demux_rel m3 s d pend" "dx_emitting s" "dx_plain m3 i"
  shows "\<exists>pend'. demux_rel m3 (demux_clock i s) d pend' \<and> pend = map mux_of (dx_given i s) @ pend'"
proof -
  let ?raw = "map (dx_frame s) [0..<16]" and ?ch = "fst (dx_source s)" and ?dl = "snd (dx_source s)"
  have rel: "dx_synced s = synced d" "dx_window s = sync_window d" "synced d" "tpiu_frame d = []" "dx_fill s = 0"
    "dx_emit s < 15" "foldl (demux_slot ?raw) (?ch, ?dl, []) [dx_emit s..<15] = (channel d, delayed_channel d, pend)"
    using assms(1,2) by (simp_all only: demux_rel_def if_True)
  have gate: "dx_m3_source i \<Longrightarrow> m3_ids ?raw" "m3 \<longrightarrow> m3_ids ?raw"
    using assms by (simp_all add: demux_rel_def dx_plain_def del: upt_rec_numeral)
  have plain: "dx_reset_n i" "\<not> dx_reset_sync i" using assms(3) by (simp_all add: dx_plain_def)
  have quiet: "\<not> (dx_m3_source i \<and> dx_is_id s \<and> ucast (drop_bit 1 (dx_unmangled s)) \<noteq> M3_EXPECTED_CHANNEL)"
  proof
    assume a: "dx_m3_source i \<and> dx_is_id s \<and> ucast (drop_bit 1 (dx_unmangled s)) \<noteq> M3_EXPECTED_CHANNEL"
    then have "dx_frame s (dx_emit s) = 3"
      using gate(1) rel(6) by (simp add: m3_ids_def dx_is_id_def del: upt_rec_numeral)
    then have "dx_unmangled s = (3 AND 0xfe) OR of_bool (bit (dx_frame s 15) (dx_emit s div 2))"
      using a by (simp only: dx_unmangled_def dx_is_id_def if_True)
    then show False using a m3_id by simp
  qed
  have clock: "demux_clock i s = dx_slot i s s"
    using assms(2) plain by (simp add: demux_clock_def dx_resync_def dx_take_def dx_input_ready_def)
  have ch: "?ch \<noteq> 0 \<longleftrightarrow> dx_channel s \<noteq> 0"
  proof -
    have "unat (dx_channel s) < 2 ^ LENGTH(7)" by (rule unsigned_less)
    then have "unat (ucast (dx_channel s) :: u8) = unat (dx_channel s)"
      by (simp add: unsigned_ucast_eq take_bit_nat_eq_self)
    then show ?thesis by (metis dx_source_def fst_conv unat_eq_0)
  qed
  obtain ch1 dl1 out1 where slot: "demux_slot ?raw (?ch, ?dl, []) (dx_emit s) = (ch1, dl1, out1)" by (metis prod_cases3)
  have upt: "[dx_emit s..<15] = dx_emit s # [Suc (dx_emit s)..<15]" using rel(6) by (simp add: upt_conv_Cons)
  obtain rest where rest: "foldl (demux_slot ?raw) (ch1, dl1, []) [Suc (dx_emit s)..<15] = (channel d, delayed_channel d, rest)"
    "pend = out1 @ rest"
    using rel(7) unfolding upt foldl_Cons slot using demux_slots_out [of ?raw ch1 dl1 out1 "[Suc (dx_emit s)..<15]"]
    by (auto split: prod.splits)
  show ?thesis
  proof (cases "dx_is_id s \<or> dx_channel s = 0 \<or> dx_ready i")
    case False
    then have "dx_given i s = []" "demux_clock i s = s" by (auto simp: clock dx_slot_def dx_given_def)
    then show ?thesis using assms(1) by auto
  next
    case True
    have regs: "dx_source (demux_clock i s) = (ch1, dl1)" "map mux_of (dx_given i s) = out1"
      using slot True ch assms(2) quiet unfolding demux_slot_regs [OF rel(6)]
      by (auto simp: clock dx_slot_def Let_def dx_source_def dx_given_def dx_output_valid_def mux_of_def id_of_u8 [unfolded One_nat_def] split: if_splits)
    have same: "dx_synced (demux_clock i s) = dx_synced s" "dx_window (demux_clock i s) = dx_window s"
      "dx_fill (demux_clock i s) = dx_fill s" "dx_frame (demux_clock i s) = dx_frame s"
      "dx_emitting (demux_clock i s) = (dx_emit s \<noteq> 14)"
      "dx_emit s \<noteq> 14 \<Longrightarrow> dx_emit (demux_clock i s) = Suc (dx_emit s)"
      using True assms(2) quiet rel(6) by (auto simp: clock dx_slot_def Let_def)
    show ?thesis
    proof (cases "dx_emit s = 14")
      case False
      then show ?thesis using rel regs same rest gate(2)
        by (intro exI [of _ rest]) (simp add: demux_rel_def del: upt_rec_numeral)
    next
      case last: True
      then have "[Suc (dx_emit s)..<15] = []" by simp
      then have "rest = [] \<and> ch1 = channel d \<and> dl1 = delayed_channel d" using rest(1) by simp
      then show ?thesis using rel regs same rest last
        by (intro exI [of _ "[]"]) (simp add: demux_rel_def)
    qed
  qed
qed

lemma demux_rel_run:
  "\<forall>i \<in> set is. dx_plain m3 i \<Longrightarrow> demux_rel m3 s d pend \<Longrightarrow> demux_run s is = (ins, outs, s') \<Longrightarrow>
   m3 \<longrightarrow> frames_ok d ins \<Longrightarrow> \<exists>pend'. demux_rel m3 s' (fst (rtl_feed d ins)) pend' \<and> pend @ snd (rtl_feed d ins) = map mux_of outs @ pend'"
proof (induction "is" arbitrary: s d pend ins outs)
  case (Cons i "is")
  obtain ins' outs' where run: "demux_run (demux_clock i s) is = (ins', outs', s')" "ins = dx_taken i s @ ins'"
    "outs = dx_given i s @ outs'"
    using Cons.prems(3) by (auto split: prod.splits)
  have "\<exists>pend'. demux_rel m3 (demux_clock i s) (fst (rtl_feed d (dx_taken i s))) pend'
      \<and> pend @ snd (rtl_feed d (dx_taken i s)) = map mux_of (dx_given i s) @ pend'"
  proof (cases "dx_emitting s")
    case True
    then have "dx_taken i s = []" by (simp add: dx_taken_def dx_input_ready_def)
    then show ?thesis using demux_rel_emit [OF Cons.prems(2) True] Cons.prems(1) by simp
  next
    case False
    then show ?thesis using demux_rel_collect [OF Cons.prems(2)] Cons.prems(1,4) run(2) by (simp add: frames_ok_append)
  qed
  then obtain pend1 where p1: "demux_rel m3 (demux_clock i s) (fst (rtl_feed d (dx_taken i s))) pend1"
    "pend @ snd (rtl_feed d (dx_taken i s)) = map mux_of (dx_given i s) @ pend1" by blast
  have "m3 \<longrightarrow> frames_ok (fst (rtl_feed d (dx_taken i s))) ins'"
    using Cons.prems(4) run(2) by (simp add: frames_ok_append)
  from Cons.IH [OF _ p1(1) run(1) this] Cons.prems(1) obtain pend2 where
    "demux_rel m3 s' (fst (rtl_feed (fst (rtl_feed d (dx_taken i s))) ins')) pend2"
    "pend1 @ snd (rtl_feed (fst (rtl_feed d (dx_taken i s))) ins') = map mux_of outs' @ pend2" by auto
  with p1(2) run(2,3) show ?case
    by (intro exI [of _ pend2])
      (simp add: rtl_feed_append Let_def case_prod_unfold, metis append.assoc)
qed auto

lemma demux_rel_reset: "demux_rel m3 (demux_reset s) tpiu_default []"
  by (simp add: demux_rel_def demux_reset_def tpiu_default_def dx_source_def)

lemma demux_recovered:
  assumes "\<forall>i \<in> set is. dx_plain m3 i" and "demux_run (demux_reset s) is = (ins, outs, s')"
    and "ins = pre @ true_sync @ concat (map pack_frame fs)"
    and "\<not> sublist true_sync (pre @ [0xff, 0xff, 0xff])" and "list_all valid_slots fs"
    and "m3 \<longrightarrow> list_all m3_frame fs"
  shows "\<exists>pend. snd (demux_frames (0, None) fs) = map mux_of outs @ pend \<and> (\<not> dx_emitting s' \<longrightarrow> pend = [])"
proof -
  obtain w where sync: "rtl_feed tpiu_default (pre @ true_sync) = (tpiu_default\<lparr>sync_window := w, synced := True\<rparr>, [])"
    using rtl_feed_first_sync [OF assms(4)] by blast
  let ?d = "tpiu_default\<lparr>sync_window := w, synced := True\<rparr>"
  have at: "at_boundary ?d" "channel ?d = 0" "delayed_channel ?d = None"
    by (simp_all add: at_boundary_def tpiu_default_def)
  have "rtl_feed tpiu_default ins = tpiu_feed ?d (concat (map pack_frame fs))"
    unfolding assms(3) append_assoc [symmetric] rtl_feed_append [of _ "pre @ true_sync"] sync
    using at by (simp add: rtl_feed_synced at_boundary_def Let_def case_prod_unfold)
  then have out: "snd (rtl_feed tpiu_default ins) = snd (demux_frames (0, None) fs)"
    using tpiu_feed_frames [OF at(1) assms(5)] at by auto
  have "frames_ok tpiu_default (pre @ true_sync)"
  proof -
    have "frames_ok tpiu_default (pre @ [0xff, 0xff, 0xff])" using assms(4) by (simp add: frames_ok_unsynced rtl_synced_iff)
    moreover have "\<not> synced (fst (rtl_feed tpiu_default (pre @ [0xff, 0xff, 0xff])))" using assms(4) by (simp add: rtl_synced_iff)
    ultimately have "frames_ok tpiu_default ((pre @ [0xff, 0xff, 0xff]) @ [0x7f])" unfolding frames_ok_append by simp
    then show ?thesis by (simp add: true_sync_def)
  qed
  then have ok: "m3 \<longrightarrow> frames_ok tpiu_default ins"
    using assms(5,6) frames_ok_frames [OF at(1)] sync
    unfolding assms(3) append_assoc [symmetric] frames_ok_append [of _ "pre @ true_sync"] by simp
  from demux_rel_run [OF assms(1) demux_rel_reset assms(2) ok] obtain pend
    where "demux_rel m3 s' (fst (rtl_feed tpiu_default ins)) pend"
      "snd (demux_frames (0, None) fs) = map mux_of outs @ pend" unfolding out append_Nil by blast
  then show ?thesis by (auto simp: demux_rel_def)
qed

text \<open>
  Property C13. The demultiplexer in the programmable logic recovers formatter frames. In any run of clock edges
  from reset, with the byte source and the consumer stalling at will, if the bytes taken are anything up to the first
  synchronisation packet \<open>ff ff ff 7f\<close> and then formatter frames with data and source changes in any of their
  slots (only to the source of the M3 if that is selected), the bytes given out are, in order and with their source,
  those the frames carry, up to what is left of the frame being given; nothing is left when none is.
\<close>

theorem demux_recovers_frames:
  assumes "\<forall>i \<in> set is. dx_plain m3 i" and "demux_run (demux_reset s) is = (ins, outs, s')"
    and "ins = pre @ true_sync @ concat (map pack_frame fs)"
    and "\<not> sublist true_sync (pre @ [0xff, 0xff, 0xff])" and "list_all valid_slots fs"
    and "m3 \<longrightarrow> list_all m3_frame fs"
  shows "\<exists>pend. snd (demux_frames (0, None) fs) = map mux_of outs @ pend \<and> (\<not> dx_emitting s' \<longrightarrow> pend = [])"
  using assms by (rule demux_recovered)

text \<open>A packet, a frame of source 2, and sixteen edges to give it out.\<close>

definition quiet_edge :: demux_in where
  "quiet_edge = \<lparr>dx_reset_n = True, dx_reset_sync = False, dx_data = 0, dx_valid = False, dx_ready = True,
     dx_m3_source = False\<rparr>"

definition sample_edges :: "demux_in list" where
  "sample_edges = map (\<lambda>b. quiet_edge\<lparr>dx_data := b, dx_valid := True\<rparr>) (true_sync @ pack_frame sample_slots)
     @ replicate 15 quiet_edge"

definition blank_regs :: demux_regs where
  "blank_regs = \<lparr>dx_synced = False, dx_window = 0, dx_frame = (\<lambda>_. 0), dx_fill = 0, dx_emit = 0, dx_emitting = False,
     dx_channel = 0, dx_delayed_channel = 0, dx_delayed_valid = False, dx_sync_loss = 0\<rparr>"

theorem demux_recovers_frames_witness:
  "snd (demux_frames (0, None) [sample_slots]) = map mux_of (fst (snd (demux_run (demux_reset blank_regs) sample_edges)))"
proof -
  obtain ins outs s' where run: "demux_run (demux_reset blank_regs) sample_edges = (ins, outs, s')"
    by (metis prod_cases3)
  have ins: "fst (demux_run (demux_reset blank_regs) sample_edges) = [] @ true_sync @ concat (map pack_frame [sample_slots])"
    by code_simp
  have off: "\<not> dx_emitting (snd (snd (demux_run (demux_reset blank_regs) sample_edges)))" by code_simp
  have "\<forall>i \<in> set sample_edges. dx_plain False i" by code_simp
  moreover have "\<not> sublist true_sync ([] @ [0xff, 0xff, 0xff])" by code_simp
  moreover have "list_all valid_slots [sample_slots]" by code_simp
  ultimately obtain pend where "snd (demux_frames (0, None) [sample_slots]) = map mux_of outs @ pend"
      "\<not> dx_emitting s' \<longrightarrow> pend = []"
    using demux_recovers_frames [OF _ run, of False "[]" "[sample_slots]"] ins run by auto
  with off run show ?thesis by simp
qed

section \<open>The test source and the Rust model\<close>

definition ts_on :: "test_in \<Rightarrow> bool" where
  "ts_on i \<longleftrightarrow> ts_reset_n i \<and> ts_enable i \<and> ts_tpiu_mode i"

lemma test_run_cyclic:
  "\<forall>i \<in> set is. ts_on i \<Longrightarrow> index < 20 \<Longrightarrow> j < length (test_run base index is) \<Longrightarrow>
   test_run base index is ! j = test_data base True ((index + j) mod 20)"
proof (induction "is" arbitrary: index j)
  case (Cons i "is")
  have on: "ts_reset_n i" "ts_enable i" "ts_tpiu_mode i" using Cons.prems(1) by (simp_all add: ts_on_def)
  show ?case
  proof (cases "ts_ready i")
    case False
    then show ?thesis using Cons on by (simp add: test_clock_def)
  next
    case ready: True
    let ?next = "test_clock i index"
    have step: "?next = Suc index mod 20"
      using on ready Cons.prems(2) by (simp add: test_clock_def)
    show ?thesis
    proof (cases j)
      case 0
      then show ?thesis using on ready Cons.prems(2) by simp
    next
      case (Suc k)
      have "test_run base ?next is ! k = test_data base True ((?next + k) mod 20)"
        using Cons.IH [of ?next k] Cons.prems on ready step Suc by simp
      then show ?thesis using on ready Suc step by (simp add: mod_simps)
    qed
  qed
qed simp

lemma byte_step: "(base :: u8) + of_nat (Suc k) - 5 = base + of_nat k - 5 + 1"
  by simp

text \<open>After three bytes \<open>ff\<close> the source gives \<open>05\<close>, whatever its parameter.\<close>

lemma no_sync_phase:
  assumes "k < 20" "test_data base True k = 0xff" "test_data base True (Suc k mod 20) = 0xff"
    "test_data base True (Suc (Suc k) mod 20) = 0xff"
  shows "k = 1"
proof -
  consider "k \<in> {0, 1, 2, 3, 4}" | "5 \<le> k" "k < 18" | "k = 18" | "k = 19" using assms(1) by force
  then show ?thesis
  proof cases
    case 2
    then have "base + of_nat k - 5 = 0xff" "base + of_nat (Suc k) - 5 = 0xff"
      using assms(2,3) by (simp_all add: test_data_def)
    then show ?thesis unfolding byte_step by simp
  qed (use assms in \<open>auto simp: test_data_def\<close>)
qed

lemma test_source_no_sync:
  assumes "\<forall>i \<in> set is. ts_on i"
  shows "\<not> sublist true_sync (test_run base 0 is)"
proof
  let ?bs = "test_run base 0 is"
  assume "sublist true_sync ?bs"
  then obtain pre post where bs: "?bs = pre @ true_sync @ post" by (auto simp: sublist_def)
  define k where "k = length pre mod 20"
  have at: "?bs ! (length pre + n) = test_data base True ((k + n) mod 20)" if "n < 4" for n
    using test_run_cyclic [OF assms, of 0 "length pre + n" base] that
    by (simp add: bs true_sync_def k_def mod_simps)
  have nth: "?bs ! (length pre + n) = true_sync ! n" if "n < 4" for n
    using that by (simp add: bs nth_append_length_plus nth_append [of true_sync] del: append_Cons) (simp add: true_sync_def)
  have data: "test_data base True ((k + n) mod 20) = true_sync ! n" if "n < 4" for n
    using at [OF that] nth [OF that] by simp
  have k: "k < 20" by (simp add: k_def)
  then have "k = 1"
    using data [of 0] data [of 1] data [of 2] by (intro no_sync_phase [of k base]) (simp_all add: true_sync_def)
  then show False using data [of 3] by (simp add: test_data_def true_sync_def)
qed

text \<open>
  The synthetic regression source and the demultiplexer do not fit: in TPIU mode the source announces
  its formatter frames with \<open>7f ff ff ff\<close>, and however long it runs, however both sides stall and whatever its
  parameter, the demultiplexer fed by it never synchronises and never gives out a byte.
\<close>

theorem test_source_never_syncs:
  assumes "\<forall>i \<in> set ts. ts_on i" and "\<forall>i \<in> set is. dx_plain True i"
    and "demux_run (demux_reset s) is = (test_run base 0 ts, outs, s')"
  shows "outs = [] \<and> \<not> dx_synced s'"
proof -
  have "\<not> synced (fst (rtl_feed tpiu_default (test_run base 0 ts)))"
    by (simp add: rtl_synced_iff test_source_no_sync [OF assms(1)])
  moreover from this have "snd (rtl_feed tpiu_default (test_run base 0 ts)) = []" using rtl_feed_unsynced by blast
  ultimately show ?thesis
    using demux_rel_run [OF assms(2) demux_rel_reset assms(3)] frames_ok_unsynced by (auto simp: demux_rel_def)
qed

definition ready_source :: test_in where
  "ready_source = \<lparr>ts_reset_n = True, ts_enable = True, ts_tpiu_mode = True, ts_ready = True\<rparr>"

theorem test_source_never_syncs_witness:
  "fst (snd (demux_run (demux_reset blank_regs)
      (map (\<lambda>b. quiet_edge\<lparr>dx_data := b, dx_valid := True\<rparr>) (test_run 0x40 0 (replicate 40 ready_source))))) = []"
    (is "fst (snd ?r) = []")
proof -
  have "fst ?r = test_run 0x40 0 (replicate 40 ready_source)" by code_simp
  then have run: "?r = (test_run 0x40 0 (replicate 40 ready_source), fst (snd ?r), snd (snd ?r))"
    by (metis prod.collapse)
  have "fst (snd ?r) = [] \<and> \<not> dx_synced (snd (snd ?r))"
    by (rule test_source_never_syncs [OF _ _ run]) (auto simp: ready_source_def ts_on_def quiet_edge_def dx_plain_def)
  then show ?thesis ..
qed

text \<open>
  The Rust decoder waits for \<open>7f ff ff ff\<close>. On the stream above it gives nothing where the programmable logic
  recovers the frame, and on the bytes of the test source it is the other way round.
\<close>

lemma decoders_disagree:
  "snd (tpiu_feed tpiu_default (true_sync @ pack_frame sample_slots)) = []"
  "snd (rtl_feed tpiu_default (true_sync @ pack_frame sample_slots)) = map (\<lambda>k. MuxedByte 2 (of_nat k)) [1..<15]"
  "snd (tpiu_feed tpiu_default (test_run 0x40 0 (replicate 20 ready_source))) \<noteq> []"
  by code_simp+

section \<open>The plausibility gate\<close>

text \<open>With the source of the M3 selected, nothing but channel 1 leaves the demultiplexer.\<close>

definition only_m3 :: "demux_regs \<Rightarrow> bool" where
  "only_m3 s \<longleftrightarrow> dx_channel s \<in> {0, M3_EXPECTED_CHANNEL}
     \<and> (dx_delayed_valid s \<longrightarrow> dx_delayed_channel s = M3_EXPECTED_CHANNEL)"

lemma only_m3_updates [simp]:
  "only_m3 (s\<lparr>dx_window := w\<rparr>) = only_m3 s" "only_m3 (s\<lparr>dx_frame := f\<rparr>) = only_m3 s"
  "only_m3 (s\<lparr>dx_fill := n\<rparr>) = only_m3 s" "only_m3 (s\<lparr>dx_emit := n\<rparr>) = only_m3 s"
  "only_m3 (s\<lparr>dx_emitting := b\<rparr>) = only_m3 s" "only_m3 (s\<lparr>dx_synced := b\<rparr>) = only_m3 s"
  "only_m3 (s\<lparr>dx_sync_loss := c\<rparr>) = only_m3 s"
  by (simp_all add: only_m3_def)

lemma only_m3_steps:
  "only_m3 t \<Longrightarrow> only_m3 (dx_resync i s t)" "only_m3 t \<Longrightarrow> only_m3 (dx_take i s t)"
  "only_m3 s \<Longrightarrow> only_m3 t \<Longrightarrow> dx_m3_source i \<Longrightarrow> only_m3 (dx_slot i s t)"
  by (simp_all add: dx_resync_def dx_take_def dx_slot_def Let_def)
    (auto simp: only_m3_def)

lemma only_m3_clock: "only_m3 s \<Longrightarrow> dx_m3_source i \<Longrightarrow> only_m3 (demux_clock i s)"
  by (simp add: demux_clock_def only_m3_steps) (simp add: only_m3_def demux_reset_def)

lemma m3_only_channel_one:
  "only_m3 s \<Longrightarrow> \<forall>i \<in> set is. dx_m3_source i \<Longrightarrow> demux_run s is = (ins, outs, s') \<Longrightarrow>
   fst ` set outs \<subseteq> {M3_EXPECTED_CHANNEL}"
proof (induction "is" arbitrary: s ins outs)
  case (Cons i "is")
  then show ?case
    using only_m3_clock [of s i] by (fastforce simp: dx_given_def dx_output_valid_def only_m3_def split: prod.splits)
qed simp

end
