(* ===== verification/Cobs.thy ===== *)
theory Cobs
  imports Prelude
begin

text \<open>
  Consistent overhead byte stuffing as \<open>applications/orbtrace/model/src/lib.rs\<close> has it:
  \<open>cobs_encode\<close> writes into one output buffer and patches the code byte of the current
  block afterwards, \<open>cobs_decode\<close> walks the input with a position. Both are modelled as
  written; \<open>cobs_blocks\<close> and \<open>cobs_unblocks\<close> are their specifications over lists,
  and the loops are shown equal to them. The facts the framing layer uses are the round
  trip, the absence of the delimiter in an encoding, and the length bound that the code
  reserves for its buffer.
\<close>

section \<open>Protocol errors\<close>

datatype protocol_error =
    Short
  | BadVersion u16
  | UnknownCommand u8
  | InvalidValue string
  | TooLarge nat
  | BadCobs
  | BadChecksum

section \<open>The encoder\<close>

text \<open>The loop state of \<open>cobs_encode\<close>: its three local variables.\<close>

record cobs_state =
  enc_out :: bytes
  code_index :: nat
  code_val :: u8

definition cobs_init :: cobs_state where
  "cobs_init = \<lparr>enc_out = [0], code_index = 0, code_val = 1\<rparr>"

definition cobs_step :: "cobs_state \<Rightarrow> u8 \<Rightarrow> cobs_state" where
  "cobs_step st byte =
     (if byte = 0 then
        let out = (enc_out st)[code_index st := code_val st]
        in \<lparr>enc_out = out @ [0], code_index = length out, code_val = 1\<rparr>
      else
        let out = enc_out st @ [byte]; code = code_val st + 1
        in if code = 0xff then
             let out' = out[code_index st := code]
             in \<lparr>enc_out = out' @ [0], code_index = length out', code_val = 1\<rparr>
           else st\<lparr>enc_out := out, code_val := code\<rparr>)"

definition cobs_finish :: "cobs_state \<Rightarrow> bytes" where
  "cobs_finish st = (enc_out st)[code_index st := code_val st]"

definition cobs_encode :: "bytes \<Rightarrow> bytes" where
  "cobs_encode input = cobs_finish (foldl cobs_step cobs_init input)"

text \<open>The specification: blocks of at most 254 bytes, each behind its code byte.\<close>

fun cobs_blocks :: "bytes \<Rightarrow> bytes \<Rightarrow> bytes" where
  "cobs_blocks blk [] = of_nat (length blk + 1) # blk"
| "cobs_blocks blk (b # bs) =
     (if b = 0 then (of_nat (length blk + 1) # blk) @ cobs_blocks [] bs
      else if length blk = 253 then (0xff # blk @ [b]) @ cobs_blocks [] bs
      else cobs_blocks (blk @ [b]) bs)"

lemma code_byte_full:
  assumes "n \<le> 253"
  shows "(of_nat (n + 1) + 1 :: u8) = 0xff \<longleftrightarrow> n = 253"
proof -
  have sum: "(of_nat (n + 1) + 1 :: u8) = of_nat (n + 2)"
    by (simp only: of_nat_add of_nat_1 of_nat_numeral) simp
  have "unat (of_nat (n + 2) :: u8) = n + 2"
    using assms by (intro unat_of_nat_less) simp
  moreover have "unat (0xff :: u8) = 255"
    by simp
  ultimately show ?thesis
    unfolding sum word_unat_eq_iff by simp
qed

lemma cobs_loop_blocks:
  "length blk \<le> 253 \<Longrightarrow>
   cobs_finish (foldl cobs_step
     \<lparr>enc_out = pre @ 0 # blk, code_index = length pre, code_val = of_nat (length blk + 1)\<rparr> bs)
   = pre @ cobs_blocks blk bs"
proof (induction bs arbitrary: pre blk)
  case Nil
  then show ?case by (simp add: cobs_finish_def)
next
  case (Cons b bs)
  let ?st = "\<lparr>enc_out = pre @ 0 # blk, code_index = length pre,
              code_val = of_nat (length blk + 1)\<rparr>"
  consider (zero) "b = 0" | (full) "b \<noteq> 0" "length blk = 253" | (more) "b \<noteq> 0" "length blk < 253"
    using Cons.prems by linarith
  then show ?case
  proof cases
    case zero
    let ?pre = "pre @ of_nat (length blk + 1) # blk"
    have "cobs_step ?st b = \<lparr>enc_out = ?pre @ 0 # [], code_index = length ?pre,
            code_val = of_nat (length ([] :: bytes) + 1)\<rparr>"
      using zero by (simp add: cobs_step_def Let_def)
    then show ?thesis
      using Cons.IH [of "[]" ?pre] zero by simp
  next
    case full
    let ?pre = "pre @ 0xff # blk @ [b]"
    have "(of_nat (length blk + 1) + 1 :: u8) = 0xff"
      using full by (simp add: code_byte_full)
    then have "cobs_step ?st b = \<lparr>enc_out = ?pre @ 0 # [], code_index = length ?pre,
            code_val = of_nat (length ([] :: bytes) + 1)\<rparr>"
      using full by (simp add: cobs_step_def Let_def)
    then show ?thesis
      using Cons.IH [of "[]" ?pre] full by simp
  next
    case more
    have "(of_nat (length blk + 1) + 1 :: u8) \<noteq> 0xff"
      using more code_byte_full [of "length blk"] by simp
    then have "cobs_step ?st b = \<lparr>enc_out = pre @ 0 # (blk @ [b]), code_index = length pre,
            code_val = of_nat (length (blk @ [b]) + 1)\<rparr>"
      using more by (simp add: cobs_step_def Let_def ac_simps)
    then show ?thesis
      using Cons.IH [of "blk @ [b]" pre] more by simp
  qed
qed

lemma cobs_encode_blocks: "cobs_encode xs = cobs_blocks [] xs"
  using cobs_loop_blocks [of "[]" "[]" xs] by (simp add: cobs_encode_def cobs_init_def)

section \<open>The decoder\<close>

text \<open>
  The inner loop copies \<open>n\<close> bytes and stops where the input ends. The error is the only
  one \<open>cobs_decode\<close> has.
\<close>

fun cobs_copy :: "bytes \<Rightarrow> nat \<Rightarrow> nat \<Rightarrow> bytes \<Rightarrow> protocol_error + (nat \<times> bytes)" where
  "cobs_copy input 0 pos out = Inr (pos, out)"
| "cobs_copy input (Suc n) pos out =
     (if pos \<ge> length input then Inl BadCobs
      else cobs_copy input n (pos + 1) (out @ [input ! pos]))"

lemma cobs_copy_eq:
  "cobs_copy input n pos out =
     (if n = 0 \<or> pos + n \<le> length input
      then Inr (pos + n, out @ take n (drop pos input)) else Inl BadCobs)"
proof (induction n arbitrary: pos out)
  case 0
  then show ?case by simp
next
  case (Suc n)
  show ?case
  proof (cases "pos < length input")
    case True
    then have "take (Suc n) (drop pos input) = input ! pos # take n (drop (Suc pos) input)"
      by (simp add: Cons_nth_drop_Suc [symmetric])
    with True show ?thesis by (auto simp: Suc.IH)
  next
    case False
    then show ?thesis by auto
  qed
qed

lemma cobs_copy_mono: "cobs_copy input n pos out = Inr (pos', out') \<Longrightarrow> pos' = pos + n"
  by (simp add: cobs_copy_eq split: if_splits)

function cobs_decode_loop :: "bytes \<Rightarrow> nat \<Rightarrow> bytes \<Rightarrow> protocol_error + bytes" where
  "cobs_decode_loop input pos out =
     (if pos < length input then
        let code = unat (input ! pos)
        in if code = 0 \<or> pos + code > length input + 1 then Inl BadCobs
           else bind_res (cobs_copy input (code - 1) (pos + 1) out) (\<lambda>(pos', out').
                  cobs_decode_loop input pos'
                    (if code \<noteq> 0xff \<and> pos' < length input then out' @ [0] else out'))
      else Inr out)"
  by pat_completeness auto
termination
  by (relation "measure (\<lambda>(input, pos, out). length input - pos)")
    (auto dest: cobs_copy_mono)

declare cobs_decode_loop.simps [simp del]

definition cobs_decode :: "bytes \<Rightarrow> protocol_error + bytes" where
  "cobs_decode input = cobs_decode_loop input 0 []"

text \<open>The specification of the decoder: one block off the front of the list at a time.\<close>

function cobs_unblocks :: "bytes \<Rightarrow> protocol_error + bytes" where
  "cobs_unblocks [] = Inr []"
| "cobs_unblocks (c # rest) =
     (let n = unat c - 1; tl = drop n rest
      in if c = 0 \<or> n > length rest then Inl BadCobs
         else bind_res (cobs_unblocks tl) (\<lambda>r.
                Inr (take n rest @ (if c \<noteq> 0xff \<and> tl \<noteq> [] then 0 # r else r))))"
  by pat_completeness auto
termination
  by (relation "measure length") auto

lemma code_not_zero: "unat (c :: u8) = 0 \<longleftrightarrow> c = 0"
  by (rule unat_eq_0)

lemma code_ff: "unat (c :: u8) = 255 \<longleftrightarrow> c = 0xff"
  by (simp add: word_unat_eq_iff)

lemma cobs_decode_loop_unblocks:
  "pos \<le> length input \<Longrightarrow>
   cobs_decode_loop input pos out =
     bind_res (cobs_unblocks (drop pos input)) (\<lambda>r. Inr (out @ r))"
proof (induction input pos out rule: cobs_decode_loop.induct)
  case (1 input pos out)
  show ?case
  proof (cases "pos < length input")
    case False
    with 1 show ?thesis by (simp add: cobs_decode_loop.simps)
  next
    case True
    define c where "c = input ! pos"
    define rest where "rest = drop (Suc pos) input"
    define n where "n = unat c - 1"
    have split: "drop pos input = c # rest"
      using True by (simp add: c_def rest_def Cons_nth_drop_Suc)
    have len: "length rest = length input - Suc pos"
      by (simp add: rest_def)
    show ?thesis
    proof (cases "c = 0 \<or> n > length rest")
      case True
      then show ?thesis
        using \<open>pos < length input\<close> len
        by (auto simp: cobs_decode_loop.simps [of input pos out] split c_def [symmetric]
            code_not_zero n_def Let_def cobs_copy_eq)
    next
      case False
      then have c0: "unat c \<noteq> 0" and n: "n \<le> length rest"
        by (simp_all add: code_not_zero)
      have "n = 0 \<or> pos + 1 + n \<le> length input"
        using n len True by linarith
      then have copy: "cobs_copy input (unat c - 1) (pos + 1) out
          = Inr (pos + 1 + n, out @ take n rest)"
        unfolding n_def [symmetric] by (simp add: cobs_copy_eq rest_def)
      have dr: "drop (pos + 1 + n) input = drop n rest"
        by (simp add: rest_def ac_simps)
      have fits: "\<not> (unat c = 0 \<or> pos + unat c > length input + 1)"
        using c0 n len True by (auto simp: n_def)
      have more: "pos + 1 + n < length input \<longleftrightarrow> drop n rest \<noteq> []"
        using len True by auto
      have unbl: "cobs_unblocks (drop pos input) = bind_res (cobs_unblocks (drop n rest))
          (\<lambda>r. Inr (take n rest @ (if c \<noteq> 0xff \<and> drop n rest \<noteq> [] then 0 # r else r)))"
        using False unfolding split cobs_unblocks.simps n_def [symmetric] Let_def
        by (simp only: if_False)
      let ?out = "if unat c \<noteq> 0xff \<and> pos + 1 + n < length input
        then (out @ take n rest) @ [0] else out @ take n rest"
      have "cobs_decode_loop input pos out = cobs_decode_loop input (pos + 1 + n) ?out"
        using True fits copy
        by (simp add: cobs_decode_loop.simps [of input pos out] c_def [symmetric] Let_def)
      also have "\<dots> = bind_res (cobs_unblocks (drop n rest)) (\<lambda>r. Inr (?out @ r))"
        using 1(1) [OF \<open>pos < length input\<close> refl, of "(pos + 1 + n, out @ take n rest)"]
          fits copy n len True dr
        by (auto simp: c_def [symmetric])
      also have "\<dots> = bind_res (cobs_unblocks (drop pos input)) (\<lambda>r. Inr (out @ r))"
        using more unbl by (cases "cobs_unblocks (drop n rest)") (auto simp: code_ff)
      finally show ?thesis .
    qed
  qed
qed

lemma cobs_decode_unblocks: "cobs_decode xs = cobs_unblocks xs"
  using cobs_decode_loop_unblocks [of 0 xs "[]"]
  by (cases "cobs_unblocks xs") (simp_all add: cobs_decode_def)

section \<open>What encoding and decoding promise\<close>

lemma cobs_blocks_not_Nil [simp]: "cobs_blocks blk bs \<noteq> []"
  by (induction blk bs rule: cobs_blocks.induct) auto

lemma cobs_unblocks_blocks:
  "length blk \<le> 253 \<Longrightarrow> cobs_unblocks (cobs_blocks blk bs) = Inr (blk @ bs)"
proof (induction blk bs rule: cobs_blocks.induct)
  case (1 blk)
  have "unat (of_nat (length blk + 1) :: u8) = length blk + 1"
    using 1 by (intro unat_of_nat_less) simp
  then show ?case
    by (simp add: Let_def code_not_zero [symmetric] del: of_nat_add of_nat_Suc)
next
  case (2 blk b bs)
  have len: "unat (of_nat (length blk + 1) :: u8) = length blk + 1"
    using 2 by (intro unat_of_nat_less) simp
  consider (zero) "b = 0" | (full) "b \<noteq> 0" "length blk = 253" | (more) "b \<noteq> 0" "length blk < 253"
    using 2 by linarith
  then show ?case
  proof cases
    case zero
    have "(of_nat (length blk + 1) :: u8) \<noteq> 0xff"
      using len 2(4) by (auto simp: code_ff [symmetric] simp del: of_nat_add of_nat_Suc)
    then show ?thesis
      using zero 2(1) len
      by (simp add: Let_def code_not_zero [symmetric] del: of_nat_add of_nat_Suc)
  next
    case full
    then show ?thesis using 2(2) by (simp add: Let_def)
  next
    case more
    then show ?thesis using 2(3) by simp
  qed
qed

lemma cobs_roundtrip [roundtrips]: "cobs_decode (cobs_encode xs) = Inr xs"
  by (simp add: cobs_decode_unblocks cobs_encode_blocks cobs_unblocks_blocks)

lemma zero_notin_cobs_blocks:
  "length blk \<le> 253 \<Longrightarrow> 0 \<notin> set blk \<Longrightarrow> 0 \<notin> set (cobs_blocks blk bs)"
proof (induction blk bs rule: cobs_blocks.induct)
  case (1 blk)
  then have "(of_nat (length blk + 1) :: u8) \<noteq> 0"
    by (subst of_nat_eq_0_iff_less) simp_all
  with 1 show ?case by auto
next
  case (2 blk b bs)
  then have "(of_nat (length blk + 1) :: u8) \<noteq> 0"
    by (subst of_nat_eq_0_iff_less) simp_all
  with 2 show ?case by auto
qed

lemma zero_notin_cobs_encode [simp]: "0 \<notin> set (cobs_encode xs)"
  by (simp add: cobs_encode_blocks zero_notin_cobs_blocks)

lemma cobs_encode_not_Nil [simp]: "cobs_encode xs \<noteq> []"
  by (simp add: cobs_encode_blocks)

lemma length_cobs_blocks:
  "length blk \<le> 253 \<Longrightarrow>
   length (cobs_blocks blk bs) \<le> length blk + length bs + (length blk + length bs) div 254 + 1"
proof (induction blk bs rule: cobs_blocks.induct)
  case (1 blk)
  then show ?case by simp
next
  case (2 blk b bs)
  consider (zero) "b = 0" | (full) "b \<noteq> 0" "length blk = 253" | (more) "b \<noteq> 0" "length blk < 253"
    using 2 by linarith
  then show ?case
  proof cases
    case zero
    have "length bs div 254 \<le> (length blk + length (b # bs)) div 254"
      by (intro div_le_mono) simp
    then show ?thesis using zero 2(1) by simp
  next
    case full
    have "(length blk + length (b # bs)) div 254 = Suc (length bs div 254)"
      using full by simp
    then show ?thesis using full 2(2) by simp
  next
    case more
    then show ?thesis using 2(3) by simp
  qed
qed

lemma length_cobs_encode:
  "length (cobs_encode xs) \<le> length xs + length xs div 254 + 1"
  using length_cobs_blocks [of "[]" xs] by (simp add: cobs_encode_blocks)

lemma length_cobs_unblocks: "cobs_unblocks xs = Inr ys \<Longrightarrow> length ys \<le> length xs"
proof (induction xs arbitrary: ys rule: cobs_unblocks.induct)
  case 1
  then show ?case by simp
next
  case (2 c rest)
  define n where "n = unat c - 1"
  from 2(2) obtain r where c: "c \<noteq> 0" "n \<le> length rest"
    and r: "cobs_unblocks (drop n rest) = Inr r"
    and ys: "ys = take n rest @ (if c \<noteq> 0xff \<and> drop n rest \<noteq> [] then 0 # r else r)"
    unfolding cobs_unblocks.simps n_def [symmetric] Let_def
    by (auto simp: bind_res_eq_Inr split: if_splits)
  have "length r \<le> length (drop n rest)"
    using 2(1) [of n "drop n rest"] c r by (simp add: n_def)
  with ys c show ?case by (auto split: if_splits)
qed

lemma length_cobs_decode: "cobs_decode xs = Inr ys \<Longrightarrow> length ys \<le> length xs"
  by (simp add: cobs_decode_unblocks length_cobs_unblocks)

text \<open>
  Property C32. COBS is a framing code. Whatever the payload, \<open>cobs_encode\<close>, run as the
  loop of the source over one buffer, yields bytes without a zero (so a zero can end a frame),
  no more of them than the capacity the code reserves (so the buffer is never grown), and
  \<open>cobs_decode\<close> gives the payload back.
\<close>

theorem cobs_encode_framing:
  "cobs_decode (cobs_encode xs) = Inr xs
   \<and> 0 \<notin> set (cobs_encode xs)
   \<and> length (cobs_encode xs) \<le> length xs + length xs div 254 + 1"
  using length_cobs_encode [of xs] by (simp add: cobs_roundtrip)

text \<open>
  The decoder is total and equals its specification on every input, well formed
  or not: it reads one block at a time, answers \<open>BadCobs\<close> exactly when a code byte is zero
  or its block runs past the end, and never returns more bytes than it was given.
\<close>

theorem cobs_decode_spec:
  "cobs_decode xs = cobs_unblocks xs
   \<and> (case cobs_decode xs of Inl e \<Rightarrow> e = BadCobs | Inr ys \<Rightarrow> length ys \<le> length xs)"
proof -
  have "cobs_unblocks xs = Inl e \<Longrightarrow> e = BadCobs" for e
    by (induction xs rule: cobs_unblocks.induct)
      (auto simp: Let_def bind_res_def split: if_splits sum.splits)
  then show ?thesis
    by (auto simp: cobs_decode_unblocks length_cobs_unblocks split: sum.splits)
qed

end
