(* ===== verification/Orbflow.thy ===== *)
theory Orbflow
  imports Cobs
begin

text \<open>
  The Orbflow framing of \<open>applications/orbtrace/model/src/lib.rs\<close>: a channel byte, the
  payload and a checksum byte, COBS encoded and ended by a zero (\<open>append_checksum\<close>,
  \<open>verify_checksum\<close>, \<open>orbflow_frame\<close>, \<open>orbflow_unframe\<close>), and the two passes
  over a capture file (\<open>reconstruct_channel_stream\<close>, \<open>channel_histogram\<close>). The
  locale \<open>delimited_code\<close> is the contract between a frame codec and a reader that cuts a
  stream at its delimiters; Orbflow is its interpretation.
\<close>

section \<open>Checksum\<close>

definition byte_sum :: "bytes \<Rightarrow> u8" where
  "byte_sum packet = foldl (+) 0 packet"

definition append_checksum :: "bytes \<Rightarrow> bytes" where
  "append_checksum packet = packet @ [0 - byte_sum packet]"

definition verify_checksum :: "bytes \<Rightarrow> bool" where
  "verify_checksum packet \<longleftrightarrow> packet \<noteq> [] \<and> byte_sum packet = 0"

lemma byte_sum_sum_list: "byte_sum xs = sum_list xs"
proof -
  have "foldl (+) a xs = a + sum_list xs" for a :: u8
    by (induction xs arbitrary: a) (simp_all add: ac_simps)
  then show ?thesis by (simp add: byte_sum_def)
qed

lemma verify_append_checksum [simp]: "verify_checksum (append_checksum xs)"
  by (simp add: verify_checksum_def append_checksum_def byte_sum_sum_list)

lemma byte_sum_update:
  "i < length xs \<Longrightarrow> byte_sum (xs[i := b]) = byte_sum xs - xs ! i + b"
  unfolding byte_sum_sum_list
  by (induction xs arbitrary: i) (simp_all add: nth_Cons list_update.simps algebra_simps split: nat.splits)

section \<open>Frames\<close>

definition orbflow_frame :: "u8 \<Rightarrow> bytes \<Rightarrow> protocol_error + bytes" where
  "orbflow_frame channel payload =
     (if channel > 0x7f then Inl (InvalidValue ''channel'')
      else let raw = append_checksum (channel # payload)
           in Inr (cobs_encode raw @ [0]))"

definition strip_zero :: "bytes \<Rightarrow> bytes" where
  "strip_zero frame = (if frame \<noteq> [] \<and> last frame = 0 then butlast frame else frame)"

definition orbflow_unframe :: "bytes \<Rightarrow> protocol_error + (u8 \<times> bytes)" where
  "orbflow_unframe frame =
     bind_res (cobs_decode (strip_zero frame)) (\<lambda>raw.
       if length raw < 2 \<or> \<not> verify_checksum raw then Inl BadChecksum
       else Inr (raw ! 0, slice_of 1 (length raw - 1) raw))"

lemma strip_zero_delimited [simp]: "strip_zero (xs @ [0]) = xs"
  by (simp add: strip_zero_def)

lemma strip_zero_free [simp]: "0 \<notin> set xs \<Longrightarrow> strip_zero xs = xs"
  by (auto simp: strip_zero_def dest: last_in_set)

text \<open>The encoding of a frame without its delimiter.\<close>

definition frame_body :: "u8 \<times> bytes \<Rightarrow> bytes" where
  "frame_body f = cobs_encode (append_checksum (fst f # snd f))"

lemma orbflow_frame_eq:
  "orbflow_frame c p =
     (if c > 0x7f then Inl (InvalidValue ''channel'') else Inr (frame_body (c, p) @ [0]))"
  by (simp add: orbflow_frame_def frame_body_def Let_def)

lemma unframe_raw:
  assumes "cobs_decode (strip_zero frame) = Inr (append_checksum (c # p))"
  shows "orbflow_unframe frame = Inr (c, p)"
proof -
  have "length (append_checksum (c # p)) = length p + 2"
    and "slice_of 1 (length p + 1) (append_checksum (c # p)) = p"
    and "append_checksum (c # p) ! 0 = c"
    by (simp_all add: append_checksum_def slice_of_def)
  then show ?thesis
    using assms by (simp add: orbflow_unframe_def)
qed

lemma orbflow_unframe_body [simp, roundtrips]: "orbflow_unframe (frame_body f) = Inr f"
  using unframe_raw [of "frame_body f" "fst f" "snd f"]
  by (simp add: frame_body_def cobs_roundtrip)

lemma orbflow_unframe_delimited [simp, roundtrips]:
  "orbflow_unframe (frame_body f @ [0]) = Inr f"
  using unframe_raw [of "frame_body f @ [0]" "fst f" "snd f"]
  by (simp add: frame_body_def cobs_roundtrip)

section \<open>Cutting a stream at its delimiters\<close>

text \<open>\<open>capture.split(|&byte| byte == 0)\<close>: one segment more than there are zeros.\<close>

fun split_zero :: "bytes \<Rightarrow> bytes list" where
  "split_zero [] = [[]]"
| "split_zero (b # bs) =
     (if b = 0 then [] # split_zero bs
      else (case split_zero bs of [] \<Rightarrow> [[b]] | s # ss \<Rightarrow> (b # s) # ss))"

lemma split_zero_append: "0 \<notin> set s \<Longrightarrow> split_zero (s @ 0 # rest) = s # split_zero rest"
  by (induction s) auto

definition segments :: "bytes \<Rightarrow> bytes list" where
  "segments capture = filter (\<lambda>frame. frame \<noteq> []) (split_zero capture)"

lemma segments_Nil [simp]: "segments [] = []"
  by (simp add: segments_def)

lemma segments_append:
  "0 \<notin> set s \<Longrightarrow> segments (s @ 0 # rest) = (if s = [] then [] else [s]) @ segments rest"
  by (simp add: segments_def split_zero_append)

lemma segments_last: "0 \<notin> set s \<Longrightarrow> segments s = (if s = [] then [] else [s])"
proof -
  assume "0 \<notin> set s"
  then have "split_zero s = [s]" by (induction s) auto
  then show ?thesis by (simp add: segments_def)
qed

text \<open>
  What a codec promises to a reader that cuts at zeros: an encoding is not empty, holds no
  zero, and decodes to what was encoded. What the reader gets for it: from the concatenation
  of delimited encodings, in any order and with any zero-free segments between them that do
  not decode, exactly the encoded values in their order.
\<close>

locale delimited_code =
  fixes enc :: "'f \<Rightarrow> bytes" and dec :: "bytes \<Rightarrow> 'f option"
  assumes enc_nonempty: "enc f \<noteq> []"
    and enc_zero_free: "0 \<notin> set (enc f)"
    and dec_enc: "dec (enc f) = Some f"
begin

fun stream :: "(bytes + 'f) list \<Rightarrow> bytes" where
  "stream [] = []"
| "stream (Inl noise # xs) = noise @ 0 # stream xs"
| "stream (Inr f # xs) = enc f @ 0 # stream xs"

definition noise_free :: "bytes + 'f \<Rightarrow> bool" where
  "noise_free x = (case x of Inl noise \<Rightarrow> 0 \<notin> set noise \<and> (noise \<noteq> [] \<longrightarrow> dec noise = None)
                           | Inr f \<Rightarrow> True)"

fun frames_in :: "(bytes + 'f) list \<Rightarrow> 'f list" where
  "frames_in [] = []"
| "frames_in (Inl noise # xs) = frames_in xs"
| "frames_in (Inr f # xs) = f # frames_in xs"

lemma recover_stream:
  "list_all noise_free xs \<Longrightarrow> noise_free (Inl tail) \<Longrightarrow>
   List.map_filter dec (segments (stream xs @ tail)) = frames_in xs"
  by (induction xs rule: stream.induct)
    (auto simp: segments_append segments_last enc_zero_free enc_nonempty dec_enc noise_free_def
      List.map_filter_def)

lemma recover_frames: "List.map_filter dec (segments (concat (map (\<lambda>f. enc f @ [0]) fs))) = fs"
proof -
  have "concat (map (\<lambda>f. enc f @ [0]) fs) = stream (map Inr fs)"
    by (induction fs) simp_all
  moreover have "frames_in (map Inr fs) = fs"
    by (induction fs) simp_all
  ultimately show ?thesis
    using recover_stream [of "map Inr fs" "[]"] by (simp add: list.pred_map noise_free_def list.pred_True comp_def)
qed

end

definition unframe_opt :: "bytes \<Rightarrow> (u8 \<times> bytes) option" where
  "unframe_opt s = (case orbflow_unframe s of Inl e \<Rightarrow> None | Inr f \<Rightarrow> Some f)"

interpretation orb: delimited_code frame_body unframe_opt
  by unfold_locales (simp_all add: frame_body_def unframe_opt_def
      orbflow_unframe_body [unfolded frame_body_def])

section \<open>Reading a capture\<close>

text \<open>The loop of \<open>reconstruct_channel_stream\<close>.\<close>

definition reconstruct_step :: "u8 \<Rightarrow> bytes \<Rightarrow> bytes \<Rightarrow> bytes" where
  "reconstruct_step channel stream frame =
     (if frame = [] then stream
      else case orbflow_unframe frame of
             Inl e \<Rightarrow> stream
           | Inr (frame_channel, payload) \<Rightarrow>
               if frame_channel = channel then stream @ payload else stream)"

definition reconstruct_channel_stream :: "bytes \<Rightarrow> u8 \<Rightarrow> bytes" where
  "reconstruct_channel_stream capture channel =
     foldl (reconstruct_step channel) [] (split_zero capture)"

text \<open>
  \<open>channel_histogram\<close> counts into a \<open>BTreeMap\<close>, which iterates in key order: an
  association list kept sorted by its keys.
\<close>

fun btree_incr :: "'k::linorder \<Rightarrow> ('k \<times> nat) list \<Rightarrow> ('k \<times> nat) list" where
  "btree_incr k [] = [(k, 0 + 1)]"
| "btree_incr k ((k', n) # m) =
     (if k < k' then (k, 0 + 1) # (k', n) # m
      else if k = k' then (k', n + 1) # m
      else (k', n) # btree_incr k m)"

definition histogram_step :: "(u8 \<times> nat) list \<Rightarrow> bytes \<Rightarrow> (u8 \<times> nat) list" where
  "histogram_step counts frame =
     (if frame = [] then counts
      else case orbflow_unframe frame of
             Inl e \<Rightarrow> counts
           | Inr (channel, payload) \<Rightarrow> btree_incr channel counts)"

text \<open>
  The comparator of \<open>entries.sort_by\<close>, larger counts first and then smaller channels, is a
  linear order of the entries; the sort of the code is the sort by that order.
\<close>

datatype hist_entry = Hist (entry_channel: u8) (entry_count: nat)

instantiation hist_entry :: linorder
begin

fun less_eq_hist_entry :: "hist_entry \<Rightarrow> hist_entry \<Rightarrow> bool" where
  "less_eq_hist_entry (Hist c n) (Hist c' n') \<longleftrightarrow> n' < n \<or> n' = n \<and> c \<le> c'"

fun less_hist_entry :: "hist_entry \<Rightarrow> hist_entry \<Rightarrow> bool" where
  "less_hist_entry (Hist c n) (Hist c' n') \<longleftrightarrow> n' < n \<or> n' = n \<and> c < c'"

instance
proof
  fix x y z :: hist_entry
  show "x < y \<longleftrightarrow> x \<le> y \<and> \<not> y \<le> x"
    by (cases x; cases y) auto
  show "x \<le> x"
    by (cases x) auto
  show "x \<le> y \<Longrightarrow> y \<le> z \<Longrightarrow> x \<le> z"
    by (cases x; cases y; cases z) auto
  show "x \<le> y \<Longrightarrow> y \<le> x \<Longrightarrow> x = y"
    by (cases x; cases y) auto
  show "x \<le> y \<or> y \<le> x"
    by (cases x; cases y) auto
qed

end

definition channel_histogram :: "bytes \<Rightarrow> (u8 \<times> nat) list" where
  "channel_histogram capture =
     (let counts = foldl histogram_step [] (split_zero capture)
      in map (\<lambda>e. (entry_channel e, entry_count e)) (sort (map (\<lambda>(c, n). Hist c n) counts)))"

text \<open>What both passes see: the frames of the capture that decode, in order.\<close>

definition valid_frames :: "bytes \<Rightarrow> (u8 \<times> bytes) list" where
  "valid_frames capture = List.map_filter unframe_opt (segments capture)"

lemma reconstruct_fold:
  "foldl (reconstruct_step ch) acc ss =
     acc @ concat (map snd (filter (\<lambda>f. fst f = ch)
       (List.map_filter unframe_opt (filter (\<lambda>s. s \<noteq> []) ss))))"
  by (induction ss arbitrary: acc)
    (auto simp: reconstruct_step_def unframe_opt_def List.map_filter_def split: sum.splits prod.splits)

lemma reconstruct_valid_frames:
  "reconstruct_channel_stream capture ch =
     concat (map snd (filter (\<lambda>f. fst f = ch) (valid_frames capture)))"
  by (simp add: reconstruct_channel_stream_def reconstruct_fold valid_frames_def segments_def)

lemma map_of_btree_incr:
  "map_of (btree_incr k m) = (map_of m)(k \<mapsto> (case map_of m k of None \<Rightarrow> 1 | Some n \<Rightarrow> n + 1))"
  if "sorted_wrt (<) (map fst m)"
  using that
proof (induction k m rule: btree_incr.induct)
  case (2 k k' n m)
  have "k < k' \<Longrightarrow> map_of m k = None"
    using 2(2) by (auto simp: map_of_eq_None_iff)
  with 2 show ?case by (auto simp: fun_eq_iff)
qed auto

lemma set_btree_incr: "fst ` set (btree_incr k m) = insert k (fst ` set m)"
  by (induction k m rule: btree_incr.induct) auto

lemma sorted_btree_incr:
  "sorted_wrt (<) (map fst m) \<Longrightarrow> sorted_wrt (<) (map fst (btree_incr k m))"
proof (induction k m rule: btree_incr.induct)
  case (2 k k' n m)
  have "set (map fst (btree_incr k m)) = insert k (set (map fst m))"
    using set_btree_incr [of k m] by simp
  with 2 show ?case by (auto simp del: set_map)
qed auto

lemma histogram_fold:
  "sorted_wrt (<) (map fst m) \<Longrightarrow>
   sorted_wrt (<) (map fst (foldl histogram_step m ss)) \<and>
   (\<forall>c. (case map_of (foldl histogram_step m ss) c of None \<Rightarrow> 0 | Some n \<Rightarrow> n) =
        (case map_of m c of None \<Rightarrow> 0 | Some n \<Rightarrow> n) +
        length (filter (\<lambda>f. fst f = c)
          (List.map_filter unframe_opt (filter (\<lambda>s. s \<noteq> []) ss))))"
proof (induction ss arbitrary: m)
  case Nil
  then show ?case by (simp add: List.map_filter_def)
next
  case (Cons s ss)
  show ?case
  proof (cases "unframe_opt s")
    case None
    then have "histogram_step m s = m"
      by (auto simp: histogram_step_def unframe_opt_def split: sum.splits)
    with None Cons show ?thesis by (auto simp: List.map_filter_def)
  next
    case (Some f)
    show ?thesis
    proof (cases "s = []")
      case True
      then show ?thesis using Cons by (simp add: histogram_step_def)
    next
      case False
      then have step: "histogram_step m s = btree_incr (fst f) m"
        using Some by (auto simp: histogram_step_def unframe_opt_def split: sum.splits)
      show ?thesis
        using Cons.IH [OF sorted_btree_incr [OF Cons.prems, of "fst f"]] Some False Cons.prems
        by (auto simp: step map_of_btree_incr List.map_filter_def split: option.splits)
    qed
  qed
qed

lemma btree_incr_pos:
  "\<forall>x \<in> set m. 0 < snd x \<Longrightarrow> \<forall>x \<in> set (btree_incr k m). 0 < snd x"
  by (induction k m rule: btree_incr.induct) auto

lemma histogram_fold_pos:
  "\<forall>x \<in> set m. 0 < snd x \<Longrightarrow> \<forall>x \<in> set (foldl histogram_step m ss). 0 < snd x"
proof (induction ss arbitrary: m)
  case (Cons s ss)
  have "\<forall>x \<in> set (histogram_step m s). 0 < snd x"
    using btree_incr_pos [OF Cons.prems] Cons.prems
    by (cases "s = []"; cases "orbflow_unframe s")
      (simp_all add: histogram_step_def case_prod_unfold)
  then show ?case by (simp add: Cons.IH)
qed simp

definition count_frames :: "bytes \<Rightarrow> u8 \<Rightarrow> nat" where
  "count_frames capture c = length (filter (\<lambda>f. fst f = c) (valid_frames capture))"

abbreviation more_frequent :: "u8 \<times> nat \<Rightarrow> u8 \<times> nat \<Rightarrow> bool" where
  "more_frequent x y \<equiv> snd y < snd x \<or> snd y = snd x \<and> fst x < fst y"

lemma sorted_distinct_less:
  "sorted xs \<Longrightarrow> distinct xs \<Longrightarrow> sorted_wrt (<) (xs :: 'a::linorder list)"
  by (induction xs) (auto simp: less_le)

lemma histogram_counts:
  fixes capture
  defines "m \<equiv> foldl histogram_step [] (split_zero capture)"
  shows "set m = {(c, n). n = count_frames capture c \<and> 0 < n}" and "distinct (map fst m)"
proof -
  have fold: "sorted_wrt (<) (map fst m)"
    and cnt: "\<And>c. (case map_of m c of None \<Rightarrow> 0 | Some n \<Rightarrow> n) = count_frames capture c"
    using histogram_fold [of "[]" "split_zero capture"]
    by (simp_all add: m_def count_frames_def valid_frames_def segments_def)
  have pos: "\<forall>x \<in> set m. 0 < snd x"
    using histogram_fold_pos [of "[]" "split_zero capture"] by (simp add: m_def)
  show dist: "distinct (map fst m)"
    using fold by (simp add: strict_sorted_iff)
  show "set m = {(c, n). n = count_frames capture c \<and> 0 < n}"
  proof (intro set_eqI iffI)
    fix x assume x: "x \<in> set m"
    then have "map_of m (fst x) = Some (snd x)"
      using dist x by (simp add: map_of_eq_Some_iff)
    then show "x \<in> {(c, n). n = count_frames capture c \<and> 0 < n}"
      using cnt [of "fst x"] pos x by auto
  next
    fix x assume "x \<in> {(c, n). n = count_frames capture c \<and> 0 < n}"
    then have "map_of m (fst x) = Some (snd x)"
      using cnt [of "fst x"] by (auto split: option.splits)
    then show "x \<in> set m"
      using dist by (simp add: map_of_eq_Some_iff)
  qed
qed

section \<open>What framing promises\<close>

text \<open>
  Property C33. Framing round trip and its error path. A channel above \<open>0x7f\<close> is refused;
  any other channel and any payload give a frame whose only zero is its last byte, and the
  unframer reads channel and payload back from it, with the delimiter or without.
\<close>

theorem orbflow_frame_unframe:
  "case orbflow_frame c p of
     Inl e \<Rightarrow> 0x7f < c \<and> e = InvalidValue ''channel''
   | Inr frame \<Rightarrow> c \<le> 0x7f
       \<and> (\<exists>body. frame = body @ [0] \<and> 0 \<notin> set body \<and> orbflow_unframe body = Inr (c, p))
       \<and> orbflow_unframe frame = Inr (c, p)"
  using orb.enc_zero_free [of "(c, p)"] by (auto simp: orbflow_frame_eq)

text \<open>
  The checksum detects every change of a single byte: a packet whose checksum
  holds no longer verifies once one of its bytes, at any position, is replaced by another
  value.
\<close>

theorem checksum_detects_single_byte:
  assumes "verify_checksum packet" and "i < length packet" and "b \<noteq> packet ! i"
  shows "\<not> verify_checksum (packet[i := b])"
  using assms by (auto simp: verify_checksum_def byte_sum_update)

theorem checksum_detects_single_byte_witness:
  "verify_checksum [7, 1, 248] \<and> \<not> verify_checksum ([7, 1, 248][1 := 3])"
proof -
  have ok: "verify_checksum [7, 1, 248]"
    by (simp add: verify_checksum_def byte_sum_def)
  show ?thesis
    using checksum_detects_single_byte [OF ok, of 1 3] ok by simp
qed

text \<open>
  The bytes of a capture: frames and zero-free noise (frames cut short or corrupted on the
  way), each ended by a zero.
\<close>

definition capture_of :: "(bytes + u8 \<times> bytes) list \<Rightarrow> bytes" where
  "capture_of xs =
     concat (map (\<lambda>x. case x of Inl noise \<Rightarrow> noise @ [0] | Inr f \<Rightarrow> frame_body f @ [0]) xs)"

definition noise_only :: "bytes \<Rightarrow> bool" where
  "noise_only s \<longleftrightarrow> 0 \<notin> set s \<and> (s = [] \<or> unframe_opt s = None)"

definition frames_of :: "(bytes + u8 \<times> bytes) list \<Rightarrow> (u8 \<times> bytes) list" where
  "frames_of xs = List.map_filter (\<lambda>x. case x of Inl noise \<Rightarrow> None | Inr f \<Rightarrow> Some f) xs"

lemma valid_frames_capture_of:
  assumes "\<And>s. Inl s \<in> set xs \<Longrightarrow> noise_only s" and "noise_only tail"
  shows "valid_frames (capture_of xs @ tail) = frames_of xs"
proof -
  have "capture_of xs = orb.stream xs"
    unfolding capture_of_def by (induction xs rule: orb.stream.induct) simp_all
  moreover have "frames_of xs = orb.frames_in xs"
    unfolding frames_of_def
    by (induction xs rule: orb.stream.induct) (simp_all add: List.map_filter_def)
  moreover have "list_all orb.noise_free xs" "orb.noise_free (Inl tail)"
    using assms by (auto simp: list_all_iff orb.noise_free_def noise_only_def split: sum.splits)
  ultimately show ?thesis
    by (simp add: valid_frames_def orb.recover_stream)
qed

text \<open>
  Reconstruction of a channel from a capture. For frames of any channels and
  payloads in any order, with any zero-free segments that do not unframe between them and a
  last one cut off by the end of the capture, \<open>reconstruct_channel_stream\<close> returns the concatenation of the payloads of the requested
  channel, in order, and nothing else.
\<close>

theorem reconstruct_channel_stream_exact:
  assumes "\<And>s. Inl s \<in> set xs \<Longrightarrow> noise_only s" and "noise_only tail"
  shows "reconstruct_channel_stream (capture_of xs @ tail) ch =
    concat (map snd (filter (\<lambda>f. fst f = ch) (frames_of xs)))"
  using valid_frames_capture_of [OF assms] by (simp add: reconstruct_valid_frames)

theorem reconstruct_channel_stream_exact_witness:
  "reconstruct_channel_stream
     (capture_of [Inr (1, [1, 2, 3]), Inl [5, 5], Inr (2, [9, 9]), Inr (1, [0, 5])] @ [4, 1]) 1
   = [1, 2, 3, 0, 5]"
proof -
  let ?xs = "[Inr (1, [1, 2, 3]), Inl [5, 5], Inr (2, [9, 9]), Inr (1, [0, 5])] :: (bytes + u8 \<times> bytes) list"
  have "noise_only s" if "Inl s \<in> set ?xs" for s
    using that by (simp add: noise_only_def unframe_opt_def orbflow_unframe_def
        cobs_decode_unblocks Let_def)
  moreover have "noise_only [4, 1]"
    by (simp add: noise_only_def unframe_opt_def orbflow_unframe_def cobs_decode_unblocks Let_def)
  ultimately show ?thesis
    using reconstruct_channel_stream_exact [of ?xs "[4, 1]" 1]
    by (simp add: frames_of_def List.map_filter_def)
qed

text \<open>
  The histogram of a capture, whatever bytes it holds, has one entry for each
  channel that some valid frame carries, with the exact number of such frames, the most
  frequent channel first and equal counts by channel number. So its first entry, the default
  channel of \<open>decode_trace\<close>, is a channel with the most valid frames.
\<close>

lemma channel_histogram_exact:
  "set (channel_histogram capture) = {(c, n). n = count_frames capture c \<and> 0 < n}
   \<and> sorted_wrt more_frequent (channel_histogram capture)"
proof -
  define m where "m = foldl histogram_step [] (split_zero capture)"
  define es where "es = sort (map (\<lambda>(c, n). Hist c n) m)"
  have inj: "inj_on (\<lambda>(c, n). Hist c n) A" for A
    by (auto simp: inj_on_def)
  have "distinct m"
    using histogram_counts(2) [of capture] by (simp add: m_def distinct_map)
  then have "distinct es"
    using inj by (simp add: es_def distinct_map)
  then have "sorted_wrt (<) es"
    by (intro sorted_distinct_less) (simp_all add: es_def)
  then have "sorted_wrt more_frequent (map (\<lambda>e. (entry_channel e, entry_count e)) es)"
    unfolding sorted_wrt_map
    by (rule sorted_wrt_mono_rel [rotated]) (metis fst_conv snd_conv hist_entry.collapse less_hist_entry.simps)
  moreover have "(\<lambda>e. (entry_channel e, entry_count e)) ` set es = set m"
    by (force simp: es_def)
  moreover have "channel_histogram capture = map (\<lambda>e. (entry_channel e, entry_count e)) es"
    by (simp add: channel_histogram_def es_def m_def Let_def)
  ultimately show ?thesis
    using histogram_counts(1) [of capture] by (simp add: m_def)
qed

end
