(* ===== verification/EncoderRtl.thy ===== *)
theory EncoderRtl
  imports Orbflow
begin

text \<open>
  The framing engine in the programmable logic, \<open>applications/orbtrace/rtl/orbtrace_orbflow_encoder.sv\<close>, as a
  clocked step on its registers: non-blocking assignments read the state before the edge, and a
  later assignment to a register wins. Memories are functions of their index; counters are numbers
  reduced to the widths of the declarations.
\<close>

section \<open>The registers\<close>

text \<open>\<open>$clog2\<close>, and the three widths for a payload limit \<open>m\<close>.\<close>

fun clog2 :: "nat \<Rightarrow> nat" where
  "clog2 n = (if n \<le> 1 then 0 else 1 + clog2 ((n + 1) div 2))"

declare clog2.simps [simp del]

definition RW :: "nat \<Rightarrow> nat" where "RW m = clog2 (m + 2 + 1)"
definition GW :: "nat \<Rightarrow> nat" where "GW m = clog2 (m + 2 + 1 + 1)"
definition PW :: "nat \<Rightarrow> nat" where "PW m = clog2 (m + 2)"

datatype load_state = L_ACCEPT | L_FIRST_DATA | L_CHECKSUM | L_FINALIZE
datatype emit_state = E_IDLE | E_CODE | E_DATA | E_DELIMITER

record encoder =
  packet :: "bool \<Rightarrow> nat \<Rightarrow> u8"
  groups :: "bool \<Rightarrow> nat \<Rightarrow> u8"
  bank_group_count :: "bool \<Rightarrow> nat"
  bank_full :: "bool \<Rightarrow> bool"
  load_bank :: bool
  encode_bank :: bool
  next_encode_bank :: bool
  load_st :: load_state
  emit_st :: emit_state
  load_payload_count :: nat
  load_raw_length :: nat
  load_group_index :: nat
  load_group_length :: u8
  chk :: u8
  pending_data :: u8
  pending_last :: bool
  dropping :: bool
  emit_raw_index :: nat
  emit_group_index :: nat
  emit_group_remaining :: u8
  overrun :: bool
  received_bytes :: u64
  dropped_bytes :: u64

record encoder_in =
  reset_n :: bool
  input_channel :: "7 word"
  input_data :: u8
  input_valid :: bool
  input_last :: bool
  output_ready :: bool

section \<open>Combinational outputs\<close>

definition input_ready :: "encoder \<Rightarrow> bool" where
  "input_ready s \<longleftrightarrow> load_st s = L_ACCEPT \<and> \<not> bank_full s (load_bank s)"

definition output_valid :: "encoder \<Rightarrow> bool" where
  "output_valid s \<longleftrightarrow> emit_st s \<noteq> E_IDLE"

definition output_last :: "encoder \<Rightarrow> bool" where
  "output_last s \<longleftrightarrow> emit_st s = E_DELIMITER"

definition emit_group_length :: "encoder \<Rightarrow> u8" where
  "emit_group_length s = groups s (encode_bank s) (emit_group_index s)"

definition output_data :: "encoder \<Rightarrow> u8" where
  "output_data s =
     (case emit_st s of
        E_CODE \<Rightarrow> if emit_group_length s = 0xfe then 0xff else emit_group_length s + 1
      | E_DATA \<Rightarrow> packet s (encode_bank s) (emit_raw_index s)
      | _ \<Rightarrow> 0)"

definition append_value :: "nat \<Rightarrow> encoder_in \<Rightarrow> encoder \<Rightarrow> u8 option" where
  "append_value m i s =
     (case load_st s of
        L_ACCEPT \<Rightarrow>
          if input_valid i \<and> input_ready s then
            if load_payload_count s = 0 then Some (ucast (input_channel i))
            else if \<not> dropping s \<and> load_payload_count s < m then Some (input_data i)
            else None
          else None
      | L_FIRST_DATA \<Rightarrow> Some (pending_data s)
      | L_CHECKSUM \<Rightarrow> Some (chk s)
      | L_FINALIZE \<Rightarrow> None)"

section \<open>The clock edge\<close>

definition encoder_reset :: "encoder \<Rightarrow> encoder" where
  "encoder_reset s =
     s\<lparr>load_st := L_ACCEPT, emit_st := E_IDLE, load_bank := False, encode_bank := False, next_encode_bank := False,
       bank_full := (\<lambda>b. False), bank_group_count := (\<lambda>b. 0),
       load_payload_count := 0, load_raw_length := 0, load_group_index := 0, load_group_length := 0,
       chk := 0, pending_data := 0, pending_last := False, dropping := False,
       emit_raw_index := 0, emit_group_index := 0, emit_group_remaining := 0,
       overrun := False, received_bytes := 0, dropped_bytes := 0\<rparr>"

text \<open>A write to a bank of a memory.\<close>

definition bank_write :: "bool \<Rightarrow> nat \<Rightarrow> u8 \<Rightarrow> (bool \<Rightarrow> nat \<Rightarrow> u8) \<Rightarrow> bool \<Rightarrow> nat \<Rightarrow> u8" where
  "bank_write b k v mem = mem(b := (mem b)(k := v))"

text \<open>Each part takes the state before the edge, \<open>s\<close>, and the registers assigned so far, \<open>t\<close>.\<close>

definition append_ff :: "nat \<Rightarrow> encoder_in \<Rightarrow> encoder \<Rightarrow> encoder \<Rightarrow> encoder" where
  "append_ff m i s t =
     (case append_value m i s of None \<Rightarrow> t
      | Some v \<Rightarrow>
          let t = t\<lparr>packet := bank_write (load_bank s) (load_raw_length s) v (packet t),
                    load_raw_length := (load_raw_length s + 1) mod 2 ^ RW m\<rparr>
          in if v = 0 then
               t\<lparr>groups := bank_write (load_bank s) (load_group_index s) (load_group_length s) (groups t),
                 load_group_index := (load_group_index s + 1) mod 2 ^ GW m, load_group_length := 0\<rparr>
             else if load_group_length s = 0xfd then
               t\<lparr>groups := bank_write (load_bank s) (load_group_index s) 0xfe (groups t),
                 load_group_index := (load_group_index s + 1) mod 2 ^ GW m, load_group_length := 0\<rparr>
             else t\<lparr>load_group_length := load_group_length s + 1\<rparr>)"

definition clear_load :: "encoder \<Rightarrow> encoder" where
  "clear_load t = t\<lparr>load_payload_count := 0, load_raw_length := 0, load_group_index := 0, load_group_length := 0,
     chk := 0\<rparr>"

definition load_ff :: "nat \<Rightarrow> encoder_in \<Rightarrow> encoder \<Rightarrow> encoder \<Rightarrow> encoder" where
  "load_ff m i s t =
     (case load_st s of
        L_ACCEPT \<Rightarrow>
          if input_valid i \<and> input_ready s then
            let t = t\<lparr>received_bytes := received_bytes s + 1\<rparr>
            in if load_payload_count s = 0 then
                 t\<lparr>pending_data := input_data i, pending_last := input_last i,
                   chk := 0 - ucast (input_channel i) - input_data i,
                   load_payload_count := 1, load_st := L_FIRST_DATA\<rparr>
               else if dropping s then
                 let t = t\<lparr>dropped_bytes := dropped_bytes s + 1\<rparr>
                 in if input_last i then clear_load (t\<lparr>dropping := False\<rparr>) else t
               else if load_payload_count s < m then
                 let t = t\<lparr>chk := chk s - input_data i,
                           load_payload_count := (load_payload_count s + 1) mod 2 ^ PW m\<rparr>
                 in if input_last i then t\<lparr>load_st := L_CHECKSUM\<rparr> else t
               else
                 let t = t\<lparr>overrun := True,
                           dropped_bytes := dropped_bytes s + of_nat (load_payload_count s) + 1\<rparr>
                 in if input_last i then clear_load (t\<lparr>dropping := False\<rparr>) else t\<lparr>dropping := True\<rparr>
          else t
      | L_FIRST_DATA \<Rightarrow> t\<lparr>load_st := (if pending_last s then L_CHECKSUM else L_ACCEPT)\<rparr>
      | L_CHECKSUM \<Rightarrow> t\<lparr>load_st := L_FINALIZE\<rparr>
      | L_FINALIZE \<Rightarrow>
          (clear_load t)\<lparr>groups := bank_write (load_bank s) (load_group_index s) (load_group_length s) (groups t),
            bank_group_count := (bank_group_count t)(load_bank s := (load_group_index s + 1) mod 2 ^ GW m),
            bank_full := (bank_full t)(load_bank s := True),
            load_bank := \<not> load_bank s, load_st := L_ACCEPT\<rparr>)"

definition emit_ff :: "nat \<Rightarrow> encoder_in \<Rightarrow> encoder \<Rightarrow> encoder \<Rightarrow> encoder" where
  "emit_ff m i s t =
     (case emit_st s of
        E_IDLE \<Rightarrow>
          if bank_full s (next_encode_bank s) then
            t\<lparr>encode_bank := next_encode_bank s, emit_raw_index := 0, emit_group_index := 0, emit_st := E_CODE\<rparr>
          else t
      | E_CODE \<Rightarrow>
          if \<not> output_ready i then t
          else if emit_group_length s = 0 then
            if (emit_group_index s + 1) mod 2 ^ GW m = bank_group_count s (encode_bank s) then t\<lparr>emit_st := E_DELIMITER\<rparr>
            else t\<lparr>emit_raw_index := (emit_raw_index s + 1) mod 2 ^ RW m,
                   emit_group_index := (emit_group_index s + 1) mod 2 ^ GW m\<rparr>
          else t\<lparr>emit_group_remaining := emit_group_length s, emit_st := E_DATA\<rparr>
      | E_DATA \<Rightarrow>
          if \<not> output_ready i then t
          else if emit_group_remaining s = 1 then
            if (emit_group_index s + 1) mod 2 ^ GW m = bank_group_count s (encode_bank s) then t\<lparr>emit_st := E_DELIMITER\<rparr>
            else t\<lparr>emit_raw_index := (emit_raw_index s + (if emit_group_length s = 0xfe then 1 else 2)) mod 2 ^ RW m,
                   emit_group_index := (emit_group_index s + 1) mod 2 ^ GW m, emit_st := E_CODE\<rparr>
          else t\<lparr>emit_raw_index := (emit_raw_index s + 1) mod 2 ^ RW m,
                 emit_group_remaining := emit_group_remaining s - 1\<rparr>
      | E_DELIMITER \<Rightarrow>
          if \<not> output_ready i then t
          else t\<lparr>bank_full := (bank_full t)(encode_bank s := False), next_encode_bank := \<not> encode_bank s,
                 emit_st := E_IDLE\<rparr>)"

definition encoder_clock :: "nat \<Rightarrow> encoder_in \<Rightarrow> encoder \<Rightarrow> encoder" where
  "encoder_clock m i s =
     (if \<not> reset_n i then encoder_reset s else emit_ff m i s (load_ff m i s (append_ff m i s s)))"

text \<open>What is transferred at an edge, in and out; and a run.\<close>

type_synonym transfer = "7 word \<times> u8 \<times> bool"

definition taken :: "encoder_in \<Rightarrow> encoder \<Rightarrow> transfer list" where
  "taken i s = (if input_valid i \<and> input_ready s then [(input_channel i, input_data i, input_last i)] else [])"

definition given :: "encoder_in \<Rightarrow> encoder \<Rightarrow> bytes" where
  "given i s = (if output_valid s \<and> output_ready i then [output_data s] else [])"

fun encoder_run :: "nat \<Rightarrow> encoder \<Rightarrow> encoder_in list \<Rightarrow> transfer list \<times> bytes \<times> encoder" where
  "encoder_run m s [] = ([], [], s)"
| "encoder_run m s (i # is) =
     (case encoder_run m (encoder_clock m i s) is of
        (ins, outs, s') \<Rightarrow> (taken i s @ ins, given i s @ outs, s'))"

section \<open>Groups\<close>

text \<open>The lengths of the groups of a raw packet, with \<open>c\<close> bytes in the current one; the bytes sent for them.\<close>

fun group_lengths :: "nat \<Rightarrow> bytes \<Rightarrow> nat list" where
  "group_lengths c [] = [c]"
| "group_lengths c (b # bs) =
     (if b = 0 then c # group_lengths 0 bs
      else if c = 253 then 254 # group_lengths 0 bs
      else group_lengths (Suc c) bs)"

definition skip_zero :: "nat \<Rightarrow> nat" where
  "skip_zero k = (if k = 254 then 0 else 1)"

fun emit_groups :: "nat list \<Rightarrow> bytes \<Rightarrow> bytes" where
  "emit_groups [] r = [0]"
| "emit_groups (k # ks) r =
     (if k = 254 then 0xff else of_nat (k + 1)) # take k r @ emit_groups ks (drop (k + skip_zero k) r)"

lemma emit_groups_not_Nil [simp]: "emit_groups ks r \<noteq> []"
  by (cases ks) simp_all

fun groups_fit :: "nat list \<Rightarrow> bytes \<Rightarrow> bool" where
  "groups_fit [] r = True"
| "groups_fit (k # ks) r \<longleftrightarrow> k \<le> 254 \<and> k \<le> length r \<and> (ks \<noteq> [] \<longrightarrow> k + skip_zero k \<le> length r)
     \<and> groups_fit ks (drop (k + skip_zero k) r)"

lemma emit_group_lengths:
  "length blk \<le> 253 \<Longrightarrow> emit_groups (group_lengths (length blk) bs) (blk @ bs) = cobs_blocks blk bs @ [0]"
proof (induction bs arbitrary: blk)
  case (Cons b bs)
  consider "b = 0" | "b \<noteq> 0" "length blk = 253" | "b \<noteq> 0" "length blk < 253" using Cons.prems by linarith
  then show ?case
  proof cases
    case 1
    then show ?thesis using Cons.IH [of "[]"] Cons.prems by (simp add: skip_zero_def)
  next
    case 2
    then show ?thesis using Cons.IH [of "[]"] by (simp add: skip_zero_def)
  next
    case 3
    then show ?thesis using Cons.IH [of "blk @ [b]"] by simp
  qed
qed (simp add: skip_zero_def)

lemma group_lengths_not_Nil [simp]: "group_lengths c bs \<noteq> []"
  by (induction c bs rule: group_lengths.induct) simp_all

lemma group_lengths_fit:
  "length blk \<le> 253 \<Longrightarrow> groups_fit (group_lengths (length blk) bs) (blk @ bs)"
proof (induction bs arbitrary: blk)
  case (Cons b bs)
  consider "b = 0" | "b \<noteq> 0" "length blk = 253" | "b \<noteq> 0" "length blk < 253" using Cons.prems by linarith
  then show ?case
  proof cases
    case 1
    then show ?thesis using Cons.IH [of "[]"] Cons.prems by (simp add: skip_zero_def)
  next
    case 2
    then show ?thesis using Cons.IH [of "[]"] by (simp add: skip_zero_def)
  next
    case 3
    then show ?thesis using Cons.IH [of "blk @ [b]"] by simp
  qed
qed simp

text \<open>The registers build the lengths byte by byte.\<close>

definition group_step :: "nat list \<times> nat \<Rightarrow> u8 \<Rightarrow> nat list \<times> nat" where
  "group_step st b = (case st of (gs, c) \<Rightarrow>
     if b = 0 then (gs @ [c], 0) else if c = 253 then (gs @ [254], 0) else (gs, Suc c))"

lemma group_step_simps [simp]:
  "group_step (gs, c) b = (if b = 0 then (gs @ [c], 0) else if c = 253 then (gs @ [254], 0) else (gs, Suc c))"
  by (simp add: group_step_def)

definition group_state :: "bytes \<Rightarrow> nat list \<times> nat" where
  "group_state r = foldl group_step ([], 0) r"

lemma group_state_simps [simp]:
  "group_state [] = ([], 0)" "group_state (r @ [b]) = group_step (group_state r) b"
  by (simp_all add: group_state_def)

lemma group_fold_lengths:
  "foldl group_step (gs, c) r = (gs', c') \<Longrightarrow> gs @ group_lengths c r = gs' @ [c']"
proof (induction r arbitrary: gs c)
  case (Cons b r)
  show ?case using Cons.prems by (auto split: if_splits dest!: Cons.IH)
qed simp

lemma group_state_lengths: "group_lengths 0 r = fst (group_state r) @ [snd (group_state r)]"
  using group_fold_lengths [of "[]" 0 r] by (cases "group_state r") (simp add: group_state_def)

lemma group_state_bounds: "snd (group_state r) \<le> 253" "length (fst (group_state r)) \<le> length r"
  "\<forall>g \<in> set (fst (group_state r)). g \<le> 254"
proof -
  have "snd (group_state r) \<le> 253 \<and> length (fst (group_state r)) \<le> length r \<and> (\<forall>g \<in> set (fst (group_state r)). g \<le> 254)"
    by (induction r rule: rev_induct) (auto simp: group_step_def split: prod.splits)
  then show "snd (group_state r) \<le> 253" "length (fst (group_state r)) \<le> length r"
    "\<forall>g \<in> set (fst (group_state r)). g \<le> 254" by blast+
qed

lemma clog2_bound: "n \<le> 2 ^ clog2 n"
proof (induction n rule: clog2.induct)
  case (1 n)
  show ?case
  proof (cases "n \<le> 1")
    case False
    with 1 have "(n + 1) div 2 \<le> 2 ^ clog2 ((n + 1) div 2)" by simp
    then have "n \<le> 2 * 2 ^ clog2 ((n + 1) div 2)" by linarith
    with False show ?thesis by (subst clog2.simps) simp
  qed (simp add: clog2.simps)
qed

lemma width_bounds [simp]:
  "k \<le> m + 2 \<Longrightarrow> k mod 2 ^ RW m = k" "k \<le> m + 3 \<Longrightarrow> k mod 2 ^ GW m = k" "k \<le> m + 1 \<Longrightarrow> k mod 2 ^ PW m = k"
  using clog2_bound [of "m + 2 + 1"] clog2_bound [of "m + 2 + 1 + 1"] clog2_bound [of "m + 2"]
  by (simp_all add: RW_def GW_def PW_def)

section \<open>Loading\<close>

text \<open>The packet that is being loaded: its transfers, and the raw bytes of it.\<close>

definition raw_of :: "(7 word \<times> u8) list \<Rightarrow> bytes" where
  "raw_of cur = (case cur of [] \<Rightarrow> [] | (c, d) # rest \<Rightarrow> ucast c # d # map snd rest)"

text \<open>The bank that is loaded holds \<open>r\<close>.\<close>

definition loaded :: "encoder \<Rightarrow> bytes \<Rightarrow> bool" where
  "loaded s r \<longleftrightarrow> load_raw_length s = length r \<and> (\<forall>i < length r. packet s (load_bank s) i = r ! i)
     \<and> load_group_index s = length (fst (group_state r))
     \<and> (\<forall>j < length (fst (group_state r)). groups s (load_bank s) j = of_nat (fst (group_state r) ! j))
     \<and> load_group_length s = of_nat (snd (group_state r))"

definition load_ok :: "nat \<Rightarrow> encoder \<Rightarrow> (7 word \<times> u8) list \<Rightarrow> bool" where
  "load_ok m s cur \<longleftrightarrow>
     (case load_st s of
        L_ACCEPT \<Rightarrow> load_payload_count s = min (length cur) m \<and> dropping s = (m < length cur)
          \<and> (length cur \<le> m \<longrightarrow> loaded s (raw_of cur) \<and> chk s = 0 - byte_sum (raw_of cur))
      | L_FIRST_DATA \<Rightarrow> (\<exists>c d. cur = [(c, d)] \<and> pending_data s = d \<and> loaded s [ucast c])
          \<and> load_payload_count s = 1 \<and> \<not> dropping s \<and> chk s = 0 - byte_sum (raw_of cur)
      | L_CHECKSUM \<Rightarrow> cur \<noteq> [] \<and> length cur \<le> m \<and> \<not> dropping s \<and> loaded s (raw_of cur)
          \<and> chk s = 0 - byte_sum (raw_of cur)
      | L_FINALIZE \<Rightarrow> cur \<noteq> [] \<and> length cur \<le> m \<and> \<not> dropping s \<and> loaded s (append_checksum (raw_of cur)))"

lemma code_of_count: "c \<le> 253 \<Longrightarrow> (of_nat c :: u8) = 0xfd \<longleftrightarrow> c = 253"
proof -
  assume "c \<le> 253"
  then have "unat (of_nat c :: u8) = c" by (intro unat_of_nat_less) simp
  then show ?thesis by (auto simp: word_unat_eq_iff)
qed

text \<open>The registers that the append stage writes, and what it leaves alone.\<close>

lemma append_ff_loaded:
  assumes "loaded s r" "length r \<le> m + 1" "append_value m i s = Some v"
  shows "loaded (append_ff m i s s) (r @ [v])"
proof -
  obtain gs c where g: "group_state r = (gs, c)" by fastforce
  have c: "c \<le> 253" "length gs \<le> m + 1" using group_state_bounds [of r] g assms(2) by simp_all
  have len: "(load_raw_length s + 1) mod 2 ^ RW m = length (r @ [v])"
    "(load_group_index s + 1) mod 2 ^ GW m = length gs + 1"
    using assms(1,2) c by (simp_all add: loaded_def g)
  show ?thesis
    using assms(1) c len
    by (auto simp: append_ff_def assms(3) loaded_def g group_step_def Let_def bank_write_def nth_append
        code_of_count less_Suc_eq add.commute)
qed

lemma append_ff_frame:
  "load_bank (append_ff m i s s) = load_bank s" "bank_full (append_ff m i s s) = bank_full s"
  "bank_group_count (append_ff m i s s) = bank_group_count s" "emit_st (append_ff m i s s) = emit_st s"
  "encode_bank (append_ff m i s s) = encode_bank s" "next_encode_bank (append_ff m i s s) = next_encode_bank s"
  "emit_raw_index (append_ff m i s s) = emit_raw_index s" "emit_group_index (append_ff m i s s) = emit_group_index s"
  "emit_group_remaining (append_ff m i s s) = emit_group_remaining s"
  "load_st (append_ff m i s s) = load_st s" "load_payload_count (append_ff m i s s) = load_payload_count s"
  "chk (append_ff m i s s) = chk s" "dropping (append_ff m i s s) = dropping s"
  "pending_data (append_ff m i s s) = pending_data s" "pending_last (append_ff m i s s) = pending_last s"
  "received_bytes (append_ff m i s s) = received_bytes s" "dropped_bytes (append_ff m i s s) = dropped_bytes s"
  "overrun (append_ff m i s s) = overrun s"
  "b \<noteq> load_bank s \<Longrightarrow> packet (append_ff m i s s) b = packet s b"
  "b \<noteq> load_bank s \<Longrightarrow> groups (append_ff m i s s) b = groups s b"
  by (auto simp: append_ff_def Let_def bank_write_def split: option.split)

text \<open>The transfers, cut into packets at the marked ends, and the one still open.\<close>

type_synonym rtl_packet = "(7 word \<times> u8) list"

definition packet_step :: "rtl_packet list \<times> rtl_packet \<Rightarrow> transfer \<Rightarrow> rtl_packet list \<times> rtl_packet" where
  "packet_step st x = (case (st, x) of ((ps, part), (c, d, ends)) \<Rightarrow>
     if ends then (ps @ [part @ [(c, d)]], []) else (ps, part @ [(c, d)]))"

definition packets :: "transfer list \<Rightarrow> rtl_packet list \<times> rtl_packet" where
  "packets ins = foldl packet_step ([], []) ins"

lemma packets_simps [simp]:
  "packets [] = ([], [])" "packets (ins @ [x]) = packet_step (packets ins) x"
  by (simp_all add: packets_def)

text \<open>The packet being loaded is already complete; the packets behind it, and what one edge adds.\<close>

definition closed :: "encoder \<Rightarrow> bool" where
  "closed s \<longleftrightarrow> load_st s = L_CHECKSUM \<or> load_st s = L_FINALIZE \<or> load_st s = L_FIRST_DATA \<and> pending_last s"

definition accepts :: "encoder_in \<Rightarrow> encoder \<Rightarrow> bool" where
  "accepts i s \<longleftrightarrow> input_valid i \<and> input_ready s"

definition drops :: "nat \<Rightarrow> encoder_in \<Rightarrow> encoder \<Rightarrow> rtl_packet \<Rightarrow> bool" where
  "drops m i s cur \<longleftrightarrow> accepts i s \<and> input_last i \<and> m \<le> length cur"

definition next_cur :: "nat \<Rightarrow> encoder_in \<Rightarrow> encoder \<Rightarrow> rtl_packet \<Rightarrow> rtl_packet" where
  "next_cur m i s cur =
     (if load_st s = L_FINALIZE \<or> drops m i s cur then []
      else if accepts i s then cur @ [(input_channel i, input_data i)] else cur)"

definition finished :: "nat \<Rightarrow> encoder_in \<Rightarrow> encoder \<Rightarrow> rtl_packet \<Rightarrow> rtl_packet list" where
  "finished m i s cur =
     (if load_st s = L_FINALIZE then [cur]
      else if drops m i s cur then [cur @ [(input_channel i, input_data i)]] else [])"

abbreviation load_half :: "nat \<Rightarrow> encoder_in \<Rightarrow> encoder \<Rightarrow> encoder" where
  "load_half m i s \<equiv> load_ff m i s (append_ff m i s s)"

definition history :: "encoder \<Rightarrow> rtl_packet \<Rightarrow> rtl_packet list \<Rightarrow> transfer list \<Rightarrow> bool" where
  "history s cur comm ins \<longleftrightarrow> packets ins = (if closed s then (comm @ [cur], []) else (comm, cur))"

lemma accepts_state: "accepts i s \<Longrightarrow> load_st s = L_ACCEPT"
  by (simp add: accepts_def input_ready_def)

lemma load_half_waits: "load_st s = L_ACCEPT \<Longrightarrow> \<not> accepts i s \<Longrightarrow> load_half m i s = s"
proof -
  assume a: "load_st s = L_ACCEPT" "\<not> accepts i s"
  then have "append_value m i s = None" by (auto simp: append_value_def accepts_def)
  then have "append_ff m i s s = s" by (simp add: append_ff_def)
  with a show ?thesis by (auto simp: load_ff_def accepts_def)
qed

lemma taken_accepts: "taken i s = (if accepts i s then [(input_channel i, input_data i, input_last i)] else [])"
  by (simp add: taken_def accepts_def)

lemma history_step:
  assumes "0 < m" "load_ok m s cur" "history s cur comm ins"
  shows "history (load_half m i s) (next_cur m i s cur) (comm @ finished m i s cur) (ins @ taken i s)"
proof (cases "load_st s")
  case L_ACCEPT
  then have "\<not> closed s" by (simp add: closed_def)
  then have packs: "packets ins = (comm, cur)" using assms(3) by (simp add: history_def)
  have count: "load_payload_count s = min (length cur) m" "dropping s = (m < length cur)"
    using assms(2) L_ACCEPT by (simp_all add: load_ok_def)
  show ?thesis
  proof (cases "accepts i s")
    case False
    then show ?thesis using L_ACCEPT packs
      by (simp add: load_half_waits history_def closed_def taken_accepts finished_def drops_def next_cur_def)
  next
    case True
    then have ready: "input_valid i" "input_ready s" by (simp_all add: accepts_def)
    consider "cur = []" | "cur \<noteq> []" "length cur < m" | "cur \<noteq> []" "m \<le> length cur" by linarith
    then show ?thesis
      using L_ACCEPT packs count ready assms(1)
      by cases (auto simp: history_def closed_def load_ff_def append_ff_frame accepts_def taken_def finished_def drops_def
          next_cur_def Let_def clear_load_def packet_step_def min_def split: if_splits)
  qed
qed (use assms in \<open>auto simp: history_def closed_def load_ff_def append_ff_frame accepts_def input_ready_def taken_def
      finished_def drops_def next_cur_def clear_load_def\<close>)


lemma raw_of_simps [simp]:
  "raw_of [] = []" "raw_of [(c, d)] = [ucast c, d]" "cur \<noteq> [] \<Longrightarrow> raw_of (cur @ [(c, d)]) = raw_of cur @ [d]"
  by (simp_all add: raw_of_def split: list.split)

lemma length_raw_of: "length (raw_of cur) = (if cur = [] then 0 else length cur + 1)"
  by (simp add: raw_of_def split: list.split)

lemma byte_sum_append [simp]: "byte_sum (xs @ [b]) = byte_sum xs + b" "byte_sum [] = 0"
  by (simp_all add: byte_sum_def)

lemma loaded_cong:
  assumes "load_bank t = load_bank s" "load_raw_length t = load_raw_length s" "packet t = packet s"
    "load_group_index t = load_group_index s" "groups t = groups s" "load_group_length t = load_group_length s"
  shows "loaded t r = loaded s r"
  using assms by (simp add: loaded_def)

lemma loaded_Nil: "loaded t [] \<longleftrightarrow> load_raw_length t = 0 \<and> load_group_index t = 0 \<and> load_group_length t = 0"
  by (simp add: loaded_def)

lemma loaded_updates [simp]:
  "loaded (t\<lparr>load_st := x\<rparr>) r = loaded t r" "loaded (t\<lparr>received_bytes := n\<rparr>) r = loaded t r"
  "loaded (t\<lparr>chk := b\<rparr>) r = loaded t r" "loaded (t\<lparr>load_payload_count := k\<rparr>) r = loaded t r"
  "loaded (t\<lparr>pending_data := b\<rparr>) r = loaded t r" "loaded (t\<lparr>pending_last := y\<rparr>) r = loaded t r"
  by (rule loaded_cong; simp)+

lemma load_ok_step:
  assumes "0 < m" "load_ok m s cur"
  shows "load_ok m (load_half m i s) (next_cur m i s cur)"
proof (cases "load_st s")
  case L_ACCEPT
  have count: "load_payload_count s = min (length cur) m" "dropping s = (m < length cur)"
    and raw: "length cur \<le> m \<Longrightarrow> loaded s (raw_of cur) \<and> chk s = 0 - byte_sum (raw_of cur)"
    using assms(2) L_ACCEPT by (simp_all add: load_ok_def)
  show ?thesis
  proof (cases "accepts i s")
    case False
    then show ?thesis using L_ACCEPT assms(2)
      by (simp add: load_half_waits next_cur_def drops_def)
  next
    case True
    then have ready: "input_valid i" "input_ready s" by (simp_all add: accepts_def)
    consider (first) "cur = []" | (more) "cur \<noteq> []" "length cur < m" | (over) "cur \<noteq> []" "m \<le> length cur" by linarith
    then show ?thesis
    proof cases
      case first
      have "append_value m i s = Some (ucast (input_channel i))"
        using first L_ACCEPT ready count by (simp add: append_value_def)
      from append_ff_loaded [OF _ _ this, of "[]"] have "loaded (append_ff m i s s) [ucast (input_channel i)]"
        using raw first assms(1) by simp
      then show ?thesis
        using first L_ACCEPT ready count True assms(1)
        by (simp add: load_ok_def load_ff_def next_cur_def drops_def append_ff_frame byte_sum_def algebra_simps)
    next
      case more
      have "append_value m i s = Some (input_data i)"
        using more L_ACCEPT ready count by (simp add: append_value_def)
      from append_ff_loaded [OF _ _ this, of "raw_of cur"]
      have "loaded (append_ff m i s s) (raw_of cur @ [input_data i])"
        using raw more by (simp add: length_raw_of)
      moreover have "(length cur + 1) mod 2 ^ PW m = length cur + 1" using more by simp
      ultimately show ?thesis
        using more L_ACCEPT ready count True raw
        by (auto simp: load_ok_def load_ff_def next_cur_def drops_def append_ff_frame Let_def)
    next
      case over
      then show ?thesis
        using L_ACCEPT ready count True assms(1)
        by (auto simp: load_ok_def load_ff_def next_cur_def drops_def append_ff_frame Let_def clear_load_def loaded_Nil)
    qed
  qed
next
  case L_FIRST_DATA
  then obtain c d where cur: "cur = [(c, d)]" "pending_data s = d" "loaded s [ucast c]" "load_payload_count s = 1"
    "\<not> dropping s" "chk s = 0 - byte_sum (raw_of cur)" using assms(2) by (auto simp: load_ok_def)
  have "append_value m i s = Some d" using L_FIRST_DATA cur by (simp add: append_value_def)
  from append_ff_loaded [OF _ _ this, of "[ucast c]"] have "loaded (append_ff m i s s) [ucast c, d]" using cur by simp
  then show ?thesis using L_FIRST_DATA cur assms(1)
    by (simp add: load_ok_def load_ff_def next_cur_def drops_def accepts_def input_ready_def append_ff_frame)
next
  case L_CHECKSUM
  then have cur: "cur \<noteq> []" "length cur \<le> m" "\<not> dropping s" "loaded s (raw_of cur)" "chk s = 0 - byte_sum (raw_of cur)"
    using assms(2) by (simp_all add: load_ok_def)
  have "append_value m i s = Some (chk s)" using L_CHECKSUM by (simp add: append_value_def)
  from append_ff_loaded [OF cur(4) _ this] have "loaded (append_ff m i s s) (append_checksum (raw_of cur))"
    using cur by (simp add: append_checksum_def length_raw_of)
  then show ?thesis using L_CHECKSUM cur
    by (simp add: load_ok_def load_ff_def next_cur_def drops_def accepts_def input_ready_def append_ff_frame)
next
  case L_FINALIZE
  then show ?thesis using assms
    by (simp add: load_ok_def load_ff_def next_cur_def clear_load_def append_ff_frame append_ff_def append_value_def loaded_Nil)
qed

text \<open>The counters, as functions of the transfers.\<close>

definition overlong :: "nat \<Rightarrow> rtl_packet list \<times> rtl_packet \<Rightarrow> rtl_packet list" where
  "overlong m st = filter (\<lambda>p. m < length p) (fst st @ [snd st])"

definition counters_ok :: "nat \<Rightarrow> encoder \<Rightarrow> transfer list \<Rightarrow> bool" where
  "counters_ok m s ins \<longleftrightarrow> received_bytes s = of_nat (length ins)
     \<and> dropped_bytes s = of_nat (sum_list (map length (overlong m (packets ins))))
     \<and> overrun s = (overlong m (packets ins) \<noteq> [])"

lemma counters_step:
  assumes "0 < m" "load_ok m s cur" "history s cur comm ins" "counters_ok m s ins"
  shows "counters_ok m (load_half m i s) (ins @ taken i s)"
proof (cases "load_st s = L_ACCEPT \<and> accepts i s")
  case False
  then have "taken i s = []" using accepts_state by (auto simp: taken_accepts)
  moreover have "received_bytes (load_half m i s) = received_bytes s" "dropped_bytes (load_half m i s) = dropped_bytes s"
    "overrun (load_half m i s) = overrun s"
    using False by (cases "load_st s"; simp add: load_half_waits; simp add: load_ff_def append_ff_frame clear_load_def)+
  ultimately show ?thesis using assms(4) by (simp add: counters_ok_def)
next
  case True
  then have "\<not> closed s" by (simp add: closed_def)
  then have packs: "packets ins = (comm, cur)" using assms(3) by (simp add: history_def)
  have count: "load_payload_count s = min (length cur) m" "dropping s = (m < length cur)"
    using assms(2) True by (simp_all add: load_ok_def)
  have ready: "input_valid i" "input_ready s" using True by (simp_all add: accepts_def)
  consider "cur = []" | "cur \<noteq> []" "length cur < m" | "cur \<noteq> []" "length cur = m" | "cur \<noteq> []" "m < length cur" by linarith
  then show ?thesis
    using True packs count ready assms(1,4)
    by cases (auto simp: counters_ok_def overlong_def load_ff_def append_ff_frame taken_accepts Let_def clear_load_def
        packet_step_def ac_simps)
qed

section \<open>Emitting\<close>

definition bank_image :: "nat \<Rightarrow> encoder \<Rightarrow> bool \<Rightarrow> bytes \<Rightarrow> bool" where
  "bank_image m s b r \<longleftrightarrow> length r \<le> m + 2 \<and> (\<forall>i < length r. packet s b i = r ! i)
     \<and> bank_group_count s b = length (group_lengths 0 r)
     \<and> (\<forall>j < length (group_lengths 0 r). groups s b j = of_nat (group_lengths 0 r ! j))"

text \<open>Where the emitter stands in a raw packet, and what it still has to send.\<close>

definition emitting :: "encoder \<Rightarrow> bytes \<Rightarrow> bool" where
  "emitting s r \<longleftrightarrow>
     (let gs = group_lengths 0 r; gi = emit_group_index s; raw = emit_raw_index s; k = unat (emit_group_remaining s)
      in case emit_st s of
           E_IDLE \<Rightarrow> False
         | E_CODE \<Rightarrow> gi < length gs \<and> raw \<le> length r \<and> groups_fit (drop gi gs) (drop raw r)
         | E_DATA \<Rightarrow> gi < length gs \<and> 0 < k \<and> gs ! gi \<le> 254 \<and> raw + k \<le> length r
             \<and> (Suc gi < length gs \<longrightarrow> raw + k + skip_zero (gs ! gi) \<le> length r)
             \<and> groups_fit (drop (Suc gi) gs) (drop (raw + k + skip_zero (gs ! gi)) r)
         | E_DELIMITER \<Rightarrow> True)"

definition emit_rest :: "encoder \<Rightarrow> bytes \<Rightarrow> bytes" where
  "emit_rest s r =
     (let gs = group_lengths 0 r; gi = emit_group_index s; raw = emit_raw_index s; k = unat (emit_group_remaining s)
      in case emit_st s of
           E_IDLE \<Rightarrow> []
         | E_CODE \<Rightarrow> emit_groups (drop gi gs) (drop raw r)
         | E_DATA \<Rightarrow> take k (drop raw r) @ emit_groups (drop (Suc gi) gs) (drop (raw + k + skip_zero (gs ! gi)) r)
         | E_DELIMITER \<Rightarrow> [0])"

lemma length_group_lengths: "length (group_lengths 0 r) \<le> length r + 1"
  using group_state_bounds(2) [of r] by (simp add: group_state_lengths)

lemma code_byte: "k \<le> 254 \<Longrightarrow> (of_nat k :: u8) = 0xfe \<longleftrightarrow> k = 254" "k \<le> 254 \<Longrightarrow> (of_nat k :: u8) = 0 \<longleftrightarrow> k = 0"
  "k \<le> 254 \<Longrightarrow> unat (of_nat k :: u8) = k"
proof -
  assume k: "k \<le> 254"
  then show u: "unat (of_nat k :: u8) = k" by (intro unat_of_nat_less) simp
  then show "(of_nat k :: u8) = 0xfe \<longleftrightarrow> k = 254" "(of_nat k :: u8) = 0 \<longleftrightarrow> k = 0"
    by (auto simp: word_unat_eq_iff)
qed

lemma drop_step: "n < length xs \<Longrightarrow> drop n xs = xs ! n # drop (Suc n) xs"
  by (simp add: Cons_nth_drop_Suc)

lemma emit_code_step:
  assumes "bank_image m s (encode_bank s) r" "emitting s r" "emit_st s = E_CODE" "output_ready i"
    and "t = emit_ff m i s u" "emit_group_index u = emit_group_index s" "emit_raw_index u = emit_raw_index s"
      "emit_st u = emit_st s"
  shows "emitting t r" "emit_rest s r = output_data s # emit_rest t r"
proof -
  let ?gs = "group_lengths 0 r" and ?gi = "emit_group_index s" and ?raw = "emit_raw_index s"
  let ?g = "?gs ! ?gi"
  have gi: "?gi < length ?gs" "?raw \<le> length r" "groups_fit (drop ?gi ?gs) (drop ?raw r)"
    using assms(2,3) by (simp_all add: emitting_def Let_def)
  have fit: "?g \<le> 254" "?g \<le> length r - ?raw" "drop (Suc ?gi) ?gs \<noteq> [] \<longrightarrow> ?g + skip_zero ?g \<le> length r - ?raw"
    "groups_fit (drop (Suc ?gi) ?gs) (drop (?raw + (?g + skip_zero ?g)) r)"
    using gi(3) unfolding drop_step [OF gi(1)] by (simp_all add: add.commute)
  have len: "emit_group_length s = of_nat ?g" using assms(1) gi(1) by (simp add: bank_image_def emit_group_length_def)
  have wrap: "(?gi + 1) mod 2 ^ GW m = Suc ?gi" "bank_group_count s (encode_bank s) = length ?gs" "length r \<le> m + 2"
    using assms(1) gi(1) length_group_lengths [of r] by (simp_all add: bank_image_def)
  have out: "output_data s = (if ?g = 254 then 0xff else of_nat (?g + 1))"
    using assms(3) fit(1) by (simp add: output_data_def len code_byte add.commute)
  have rest: "emit_rest s r = output_data s # take ?g (drop ?raw r) @ emit_groups (drop (Suc ?gi) ?gs) (drop (?raw + (?g + skip_zero ?g)) r)"
    using assms(3) unfolding emit_rest_def Let_def drop_step [OF gi(1)] out by (simp add: add.commute)
  consider (data) "?g \<noteq> 0" | (last) "?g = 0" "Suc ?gi = length ?gs" | (zero) "?g = 0" "Suc ?gi < length ?gs"
    using gi(1) by linarith
  then have "emitting t r \<and> emit_rest t r = take ?g (drop ?raw r) @ emit_groups (drop (Suc ?gi) ?gs) (drop (?raw + (?g + skip_zero ?g)) r)"
  proof cases
    case data
    then show ?thesis using assms(3-8) gi fit
      by (auto simp: emit_ff_def len code_byte emitting_def emit_rest_def Let_def algebra_simps)
  next
    case last
    then show ?thesis using assms(3-8) fit wrap
      by (simp add: emit_ff_def len code_byte emitting_def emit_rest_def Let_def)
  next
    case zero
    then have "(?raw + 1) mod 2 ^ RW m = Suc ?raw" using fit(3) wrap(3) gi by (simp add: skip_zero_def)
    then show ?thesis using zero assms(3-8) fit wrap gi
      by (simp add: emit_ff_def len code_byte emitting_def emit_rest_def Let_def skip_zero_def)
  qed
  then show "emitting t r" "emit_rest s r = output_data s # emit_rest t r" by (simp_all add: rest)
qed

lemma emit_data_step:
  assumes "bank_image m s (encode_bank s) r" "emitting s r" "emit_st s = E_DATA" "output_ready i"
    and "t = emit_ff m i s u" "emit_group_index u = emit_group_index s" "emit_raw_index u = emit_raw_index s"
      "emit_st u = emit_st s"
  shows "emitting t r" "emit_rest s r = output_data s # emit_rest t r"
proof -
  let ?gs = "group_lengths 0 r" and ?gi = "emit_group_index s" and ?raw = "emit_raw_index s"
  let ?g = "?gs ! ?gi" and ?k = "unat (emit_group_remaining s)"
  have gi: "?gi < length ?gs" "0 < ?k" "?g \<le> 254" "?raw + ?k \<le> length r"
    "Suc ?gi < length ?gs \<Longrightarrow> ?raw + ?k + skip_zero ?g \<le> length r"
    "groups_fit (drop (Suc ?gi) ?gs) (drop (?raw + ?k + skip_zero ?g) r)"
    using assms(2,3) by (simp_all add: emitting_def Let_def)
  have len: "emit_group_length s = of_nat ?g" using assms(1) gi(1) by (simp add: bank_image_def emit_group_length_def)
  have wrap: "(?gi + 1) mod 2 ^ GW m = Suc ?gi" "bank_group_count s (encode_bank s) = length ?gs" "length r \<le> m + 2"
    using assms(1) gi(1) length_group_lengths [of r] by (simp_all add: bank_image_def)
  have raw: "?raw < length r" using gi(2,4) by simp
  have out: "output_data s = r ! ?raw" using assms(1,3) raw by (simp add: output_data_def bank_image_def)
  have one: "emit_group_remaining s = 1 \<longleftrightarrow> ?k = 1" by (simp add: word_unat_eq_iff)
  have less: "unat (emit_group_remaining s - 1) = ?k - 1" using gi(2) by (simp add: unat_minus_one unat_gt_0)
  have head: "take ?k (drop ?raw r) = output_data s # take (?k - 1) (drop (Suc ?raw) r)"
    unfolding drop_step [OF raw] out using gi(2) by (cases ?k) simp_all
  have rest: "emit_rest s r = output_data s # take (?k - 1) (drop (Suc ?raw) r)
      @ emit_groups (drop (Suc ?gi) ?gs) (drop (?raw + ?k + skip_zero ?g) r)"
    using assms(3) head by (simp add: emit_rest_def Let_def)
  consider (more) "?k \<noteq> 1" | (last) "?k = 1" "Suc ?gi = length ?gs" | (next_group) "?k = 1" "Suc ?gi < length ?gs"
    using gi(1) by linarith
  then have "emitting t r \<and> emit_rest t r = take (?k - 1) (drop (Suc ?raw) r)
      @ emit_groups (drop (Suc ?gi) ?gs) (drop (?raw + ?k + skip_zero ?g) r)"
  proof cases
    case more
    have "(?raw + 1) mod 2 ^ RW m = Suc ?raw" using raw wrap(3) by simp
    moreover have "Suc ?raw + (?k - 1) = ?raw + ?k" using gi(2) by simp
    ultimately show ?thesis using more assms(3-8) gi one less
      by (simp add: emit_ff_def emitting_def emit_rest_def Let_def)
  next
    case last
    then show ?thesis using assms(3-8) wrap one
      by (simp add: emit_ff_def emitting_def emit_rest_def Let_def)
  next
    case next_group
    have "(if emit_group_length s = 0xfe then 1 else 2) = 1 + skip_zero ?g"
      using gi(3) by (simp add: len code_byte skip_zero_def)
    moreover have "(?raw + (1 + skip_zero ?g)) mod 2 ^ RW m = ?raw + (1 + skip_zero ?g)"
      using gi(5) next_group wrap(3) by simp
    ultimately show ?thesis using next_group assms(3-8) gi wrap one
      by (simp add: emit_ff_def emitting_def emit_rest_def Let_def add.assoc)
  qed
  then show "emitting t r" "emit_rest s r = output_data s # emit_rest t r" by (simp_all add: rest)
qed

section \<open>The two banks\<close>

text \<open>The bank that is sent next or now, and the raw packets of the full banks in their order.\<close>

definition head_bank :: "encoder \<Rightarrow> bool" where
  "head_bank s = (if emit_st s = E_IDLE then next_encode_bank s else encode_bank s)"

definition queue_ok :: "nat \<Rightarrow> encoder \<Rightarrow> bytes list \<Rightarrow> bool" where
  "queue_ok m s q \<longleftrightarrow>
     (let h = head_bank s
      in case q of
           [] \<Rightarrow> \<not> bank_full s h \<and> \<not> bank_full s (\<not> h) \<and> load_bank s = h
         | [r] \<Rightarrow> bank_full s h \<and> \<not> bank_full s (\<not> h) \<and> load_bank s = (\<not> h) \<and> bank_image m s h r
         | [r, r'] \<Rightarrow> bank_full s h \<and> bank_full s (\<not> h) \<and> load_bank s = h \<and> bank_image m s h r \<and> bank_image m s (\<not> h) r'
         | _ \<Rightarrow> False)"

definition raw_frame :: "bytes \<Rightarrow> bytes" where
  "raw_frame r = cobs_encode r @ [0]"

definition pending :: "encoder \<Rightarrow> bytes list \<Rightarrow> bytes" where
  "pending s q = (if emit_st s = E_IDLE then concat (map raw_frame q)
     else emit_rest s (hd q) @ concat (map raw_frame (tl q)))"

lemma bank_image_cong:
  "packet t b = packet s b \<Longrightarrow> groups t b = groups s b \<Longrightarrow> bank_group_count t b = bank_group_count s b \<Longrightarrow>
   bank_image m t b r = bank_image m s b r"
  by (simp add: bank_image_def)

lemma load_half_emit [simp]:
  "emit_st (load_half m i s) = emit_st s" "encode_bank (load_half m i s) = encode_bank s"
  "next_encode_bank (load_half m i s) = next_encode_bank s" "emit_raw_index (load_half m i s) = emit_raw_index s"
  "emit_group_index (load_half m i s) = emit_group_index s"
  "emit_group_remaining (load_half m i s) = emit_group_remaining s"
  by (cases "load_st s"; simp add: load_ff_def append_ff_frame clear_load_def Let_def)+

lemma load_half_other_bank:
  "b \<noteq> load_bank s \<Longrightarrow> packet (load_half m i s) b = packet s b"
  "b \<noteq> load_bank s \<Longrightarrow> groups (load_half m i s) b = groups s b"
  "b \<noteq> load_bank s \<Longrightarrow> bank_group_count (load_half m i s) b = bank_group_count s b"
  by (cases "load_st s"; simp add: load_ff_def append_ff_frame clear_load_def bank_write_def Let_def)+

lemma load_half_banks:
  "load_st s \<noteq> L_FINALIZE \<Longrightarrow> bank_full (load_half m i s) = bank_full s"
  "load_st s \<noteq> L_FINALIZE \<Longrightarrow> load_bank (load_half m i s) = load_bank s"
  "load_st s = L_FINALIZE \<Longrightarrow> bank_full (load_half m i s) = (bank_full s)(load_bank s := True)"
  "load_st s = L_FINALIZE \<Longrightarrow> load_bank (load_half m i s) = (\<not> load_bank s)"
  by (cases "load_st s"; simp add: load_ff_def append_ff_frame clear_load_def Let_def)+

lemma load_half_full_waits:
  assumes "bank_full s (load_bank s)" "load_st s = L_ACCEPT"
  shows "load_half m i s = s"
  using assms by (intro load_half_waits) (auto simp: accepts_def input_ready_def)

lemma finalized_image:
  assumes "load_st s = L_FINALIZE" "load_ok m s cur"
  shows "bank_image m (load_half m i s) (load_bank s) (append_checksum (raw_of cur))"
proof -
  let ?r = "append_checksum (raw_of cur)"
  have l: "loaded s ?r" "length ?r \<le> m + 2"
    using assms by (simp_all add: load_ok_def append_checksum_def length_raw_of)
  have "append_ff m i s s = s" using assms(1) by (simp add: append_ff_def append_value_def)
  then have t: "packet (load_half m i s) = packet s"
    "groups (load_half m i s) (load_bank s) = (groups s (load_bank s))(load_group_index s := load_group_length s)"
    "bank_group_count (load_half m i s) (load_bank s) = (load_group_index s + 1) mod 2 ^ GW m"
    using assms(1) by (simp_all add: load_ff_def clear_load_def bank_write_def)
  have "load_group_index s + 1 \<le> m + 3"
    using l group_state_bounds(2) [of ?r] by (simp add: loaded_def)
  then show ?thesis using l t
    by (auto simp: bank_image_def loaded_def group_state_lengths nth_append less_Suc_eq)
qed

lemma queue_load:
  assumes "queue_ok m s q" "load_ok m s cur" "load_st s \<noteq> L_ACCEPT \<longrightarrow> \<not> bank_full s (load_bank s)"
  shows "queue_ok m (load_half m i s) (q @ (if load_st s = L_FINALIZE then [append_checksum (raw_of cur)] else []))"
proof -
  let ?t = "load_half m i s"
  have h: "head_bank ?t = head_bank s" by (simp add: head_bank_def)
  have keep: "bank_image m ?t b r = bank_image m s b r" if "b \<noteq> load_bank s" for b r
    using load_half_other_bank [OF that] by (rule bank_image_cong)
  consider (none) "q = []" | (one) r where "q = [r]" | (two) r r' where "q = [r, r']"
    using assms(1) by (cases q rule: remdups_adj.cases; cases "tl (tl q)") (auto simp: queue_ok_def Let_def)
  then show ?thesis
  proof cases
    case none
    then show ?thesis using assms(1) h finalized_image [OF _ assms(2), of i]
      by (cases "load_st s = L_FINALIZE") (simp_all add: queue_ok_def Let_def load_half_banks)
  next
    case one
    then show ?thesis using assms(1) h keep finalized_image [OF _ assms(2), of i]
      by (cases "load_st s = L_FINALIZE") (simp_all add: queue_ok_def Let_def load_half_banks)
  next
    case two
    then have full: "bank_full s (load_bank s)" using assms(1) by (simp add: queue_ok_def Let_def)
    then have "load_st s = L_ACCEPT" using assms(3) by blast
    with full two assms(1) show ?thesis by (simp add: load_half_full_waits)
  qed
qed

lemma queue_cases:
  assumes "queue_ok m s q"
  obtains (none) "q = []" | (one) r where "q = [r]" | (two) r r' where "q = [r, r']"
  using assms by (cases q rule: remdups_adj.cases; cases "tl (tl q)") (auto simp: queue_ok_def Let_def)

lemma queue_head: "queue_ok m s q \<Longrightarrow> bank_full s (head_bank s) = (q \<noteq> [])"
  "queue_ok m s q \<Longrightarrow> q \<noteq> [] \<Longrightarrow> bank_image m s (head_bank s) (hd q)"
proof -
  assume q: "queue_ok m s q"
  then show "bank_full s (head_bank s) = (q \<noteq> [])"
    by (cases rule: queue_cases [OF q]) (auto simp: queue_ok_def Let_def)
next
  assume q: "queue_ok m s q" "q \<noteq> []"
  then show "bank_image m s (head_bank s) (hd q)"
    by (cases rule: queue_cases [OF q(1)]) (auto simp: queue_ok_def Let_def)
qed

lemma queue_ok_cong:
  assumes "head_bank t = head_bank s" "bank_full t = bank_full s" "load_bank t = load_bank s"
    "packet t = packet s" "groups t = groups s" "bank_group_count t = bank_group_count s"
  shows "queue_ok m t q = queue_ok m s q"
proof -
  have "bank_image m t b r = bank_image m s b r" for b r by (rule bank_image_cong) (simp_all add: assms)
  then show ?thesis by (simp add: queue_ok_def assms Let_def split: list.split)
qed

lemma emit_ff_banks [simp]:
  "packet (emit_ff m i s u) = packet u" "groups (emit_ff m i s u) = groups u"
  "bank_group_count (emit_ff m i s u) = bank_group_count u" "load_bank (emit_ff m i s u) = load_bank u"
  "load_st (emit_ff m i s u) = load_st u" "load_payload_count (emit_ff m i s u) = load_payload_count u"
  "load_raw_length (emit_ff m i s u) = load_raw_length u" "load_group_index (emit_ff m i s u) = load_group_index u"
  "load_group_length (emit_ff m i s u) = load_group_length u" "chk (emit_ff m i s u) = chk u"
  "pending_data (emit_ff m i s u) = pending_data u" "pending_last (emit_ff m i s u) = pending_last u"
  "dropping (emit_ff m i s u) = dropping u" "overrun (emit_ff m i s u) = overrun u"
  "received_bytes (emit_ff m i s u) = received_bytes u" "dropped_bytes (emit_ff m i s u) = dropped_bytes u"
  by (cases "emit_st s"; simp add: emit_ff_def)+

lemma emit_start: "emit_st t = E_CODE \<Longrightarrow> emit_group_index t = 0 \<Longrightarrow> emit_raw_index t = 0 \<Longrightarrow>
    emitting t r \<and> emit_rest t r = raw_frame r"
  using group_lengths_fit [of "[]" r] emit_group_lengths [of "[]" r]
  by (simp add: emitting_def emit_rest_def raw_frame_def cobs_encode_blocks)

lemma emit_same:
  assumes "emit_st t = emit_st s" "emit_group_index t = emit_group_index s" "emit_raw_index t = emit_raw_index s"
    "emit_group_remaining t = emit_group_remaining s"
  shows "emitting t r = emitting s r" "emit_rest t r = emit_rest s r"
  using assms by (simp_all add: emitting_def emit_rest_def)

lemma emit_ff_waits: "emit_st s \<noteq> E_IDLE \<Longrightarrow> \<not> output_ready i \<Longrightarrow> emit_ff m i s u = u"
  by (cases "emit_st s") (simp_all add: emit_ff_def)

lemma emit_ff_sends:
  assumes "emit_st s = E_CODE \<or> emit_st s = E_DATA"
  shows "emit_st (emit_ff m i s (load_half m i s)) \<noteq> E_IDLE" "bank_full (emit_ff m i s (load_half m i s)) = bank_full (load_half m i s)"
    "encode_bank (emit_ff m i s (load_half m i s)) = encode_bank s"
  using assms by (auto simp: emit_ff_def)

definition next_queue :: "encoder_in \<Rightarrow> encoder \<Rightarrow> bytes list \<Rightarrow> bytes list" where
  "next_queue i s q = (if emit_st s = E_DELIMITER \<and> output_ready i then tl q else q)"

lemma queue_emit:
  assumes s: "queue_ok m s q" "emit_st s \<noteq> E_IDLE \<longrightarrow> q \<noteq> [] \<and> emitting s (hd q)"
    and u: "queue_ok m (load_half m i s) (q @ x)"
  defines "t \<equiv> emit_ff m i s (load_half m i s)"
  shows "queue_ok m t (next_queue i s (q @ x))
    \<and> (emit_st t \<noteq> E_IDLE \<longrightarrow> next_queue i s (q @ x) \<noteq> [] \<and> emitting t (hd (next_queue i s (q @ x))))
    \<and> pending s q @ concat (map raw_frame x) = given i s @ pending t (next_queue i s (q @ x))"
proof -
  let ?u = "load_half m i s"
  have hu: "head_bank ?u = head_bank s" by (simp add: head_bank_def)
  have idle: "emit_st s = E_IDLE \<Longrightarrow> bank_full s (next_encode_bank s) = (q \<noteq> [])"
    using queue_head(1) [OF s(1)] by (simp add: head_bank_def)
  show ?thesis
  proof (cases "emit_st s")
    case E_IDLE
    show ?thesis
    proof (cases "q = []")
      case True
      then have "t = ?u" using E_IDLE idle by (simp add: t_def emit_ff_def)
      then show ?thesis using True E_IDLE u
        by (simp add: next_queue_def given_def output_valid_def pending_def)
    next
      case False
      then have t: "t = ?u\<lparr>encode_bank := next_encode_bank s, emit_raw_index := 0, emit_group_index := 0, emit_st := E_CODE\<rparr>"
        using E_IDLE idle by (simp add: t_def emit_ff_def)
      have "queue_ok m t (q @ x) = queue_ok m ?u (q @ x)"
        using E_IDLE by (intro queue_ok_cong) (simp_all add: t head_bank_def)
      moreover have "emitting t r \<and> emit_rest t r = raw_frame r" for r by (rule emit_start) (simp_all add: t)
      ultimately show ?thesis using False E_IDLE u
        by (cases q) (simp_all add: next_queue_def given_def output_valid_def pending_def t)
    qed
  next
    case E_DELIMITER
    then have q: "q \<noteq> []" using s(2) by simp
    have rest: "emit_rest s r = [0]" "emit_rest ?u r = [0]" "emitting ?u r" for r
      using E_DELIMITER by (simp_all add: emit_rest_def emitting_def)
    show ?thesis
    proof (cases "output_ready i")
      case False
      then have "t = ?u" using E_DELIMITER by (simp add: t_def emit_ff_def)
      then show ?thesis using q E_DELIMITER u rest False
        by (cases q) (simp_all add: next_queue_def given_def pending_def)
    next
      case True
      then have t: "t = ?u\<lparr>bank_full := (bank_full ?u)(encode_bank s := False), next_encode_bank := \<not> encode_bank s, emit_st := E_IDLE\<rparr>"
        using E_DELIMITER by (simp add: t_def emit_ff_def)
      have "bank_image m t b r = bank_image m ?u b r" for b r by (rule bank_image_cong) (simp_all add: t)
      moreover have "head_bank ?u = encode_bank s" "head_bank t = (\<not> encode_bank s)"
        using E_DELIMITER by (simp_all add: head_bank_def t)
      ultimately have "queue_ok m t (tl (q @ x))"
        using u q by (cases rule: queue_cases [OF u]) (auto simp: queue_ok_def Let_def t)
      then show ?thesis using q E_DELIMITER u rest True
        by (cases q) (simp_all add: next_queue_def given_def pending_def t output_valid_def output_data_def)
    qed
  next
    case E_CODE
    then have q: "q \<noteq> []" "emitting s (hd q)" "bank_image m s (encode_bank s) (hd q)"
      using s queue_head(2) [OF s(1)] by (simp_all add: head_bank_def)
    show ?thesis
    proof (cases "output_ready i")
      case False
      then have "t = ?u" using E_CODE by (simp add: t_def emit_ff_def)
      then show ?thesis using q E_CODE u False emit_same [of ?u s]
        by (cases q) (simp_all add: next_queue_def given_def pending_def)
    next
      case True
      have "emitting t (hd q)" "emit_rest s (hd q) = output_data s # emit_rest t (hd q)"
        by (rule emit_code_step [OF q(3,2) E_CODE True, where u = ?u]; simp add: t_def)+
      moreover have "queue_ok m t (q @ x) = queue_ok m ?u (q @ x)"
        using E_CODE emit_ff_sends [of s m i] by (intro queue_ok_cong) (simp_all add: t_def head_bank_def)
      ultimately show ?thesis using q E_CODE True u emit_ff_sends [of s m i]
        by (cases q) (simp_all add: next_queue_def given_def pending_def output_valid_def t_def)
    qed
  next
    case E_DATA
    then have q: "q \<noteq> []" "emitting s (hd q)" "bank_image m s (encode_bank s) (hd q)"
      using s queue_head(2) [OF s(1)] by (simp_all add: head_bank_def)
    show ?thesis
    proof (cases "output_ready i")
      case False
      then have "t = ?u" using E_DATA by (simp add: t_def emit_ff_def)
      then show ?thesis using q E_DATA u False emit_same [of ?u s]
        by (cases q) (simp_all add: next_queue_def given_def pending_def)
    next
      case True
      have "emitting t (hd q)" "emit_rest s (hd q) = output_data s # emit_rest t (hd q)"
        by (rule emit_data_step [OF q(3,2) E_DATA True, where u = ?u]; simp add: t_def)+
      moreover have "queue_ok m t (q @ x) = queue_ok m ?u (q @ x)"
        using E_DATA emit_ff_sends [of s m i] by (intro queue_ok_cong) (simp_all add: t_def head_bank_def)
      ultimately show ?thesis using q E_DATA True u emit_ff_sends [of s m i]
        by (cases q) (simp_all add: next_queue_def given_def pending_def output_valid_def t_def)
    qed
  qed
qed

section \<open>The invariant\<close>

definition packet_frame :: "rtl_packet \<Rightarrow> bytes" where
  "packet_frame p = frame_body (ucast (fst (hd p)), map snd p) @ [0]"

definition frames_for :: "nat \<Rightarrow> rtl_packet list \<Rightarrow> bytes" where
  "frames_for m ps = concat (map packet_frame (filter (\<lambda>p. length p \<le> m) ps))"

lemma packet_frame_raw: "p \<noteq> [] \<Longrightarrow> raw_frame (append_checksum (raw_of p)) = packet_frame p"
  by (cases p) (auto simp: raw_frame_def packet_frame_def frame_body_def raw_of_def)

lemma frames_for_simps [simp]: "frames_for m [] = []" "frames_for m (ps @ qs) = frames_for m ps @ frames_for m qs"
  by (simp_all add: frames_for_def)

record ghost =
  g_queue :: "bytes list"
  g_cur :: rtl_packet
  g_done :: "rtl_packet list"

definition encoder_inv :: "nat \<Rightarrow> encoder \<Rightarrow> ghost \<Rightarrow> transfer list \<Rightarrow> bytes \<Rightarrow> bool" where
  "encoder_inv m s g ins outs \<longleftrightarrow> queue_ok m s (g_queue g)
     \<and> (emit_st s \<noteq> E_IDLE \<longrightarrow> g_queue g \<noteq> [] \<and> emitting s (hd (g_queue g)))
     \<and> load_ok m s (g_cur g) \<and> (load_st s \<noteq> L_ACCEPT \<longrightarrow> \<not> bank_full s (load_bank s))
     \<and> history s (g_cur g) (g_done g) ins \<and> counters_ok m s ins
     \<and> frames_for m (g_done g) = outs @ pending s (g_queue g)"

definition loaded_now :: "encoder \<Rightarrow> rtl_packet \<Rightarrow> bytes list" where
  "loaded_now s cur = (if load_st s = L_FINALIZE then [append_checksum (raw_of cur)] else [])"

definition next_ghost :: "nat \<Rightarrow> encoder_in \<Rightarrow> encoder \<Rightarrow> ghost \<Rightarrow> ghost" where
  "next_ghost m i s g = \<lparr>g_queue = next_queue i s (g_queue g @ loaded_now s (g_cur g)),
     g_cur = next_cur m i s (g_cur g), g_done = g_done g @ finished m i s (g_cur g)\<rparr>"

lemma emit_ff_load [simp]:
  "load_ok m (emit_ff m' i s u) cur = load_ok m u cur" "history (emit_ff m' i s u) cur comm ins = history u cur comm ins"
  "counters_ok m (emit_ff m' i s u) ins = counters_ok m u ins"
proof -
  have "loaded (emit_ff m' i s u) r = loaded u r" for r by (rule loaded_cong) simp_all
  then show "load_ok m (emit_ff m' i s u) cur = load_ok m u cur"
    by (simp add: load_ok_def split: load_state.split)
qed (simp_all add: history_def closed_def counters_ok_def)

lemma emit_ff_full: "bank_full (emit_ff m i s u) b \<Longrightarrow> bank_full u b"
  by (cases "emit_st s") (auto simp: emit_ff_def split: if_splits)

lemma load_half_not_full:
  assumes "load_st s \<noteq> L_ACCEPT \<longrightarrow> \<not> bank_full s (load_bank s)" "load_st (load_half m i s) \<noteq> L_ACCEPT"
  shows "\<not> bank_full (load_half m i s) (load_bank (load_half m i s))"
proof (cases "load_st s = L_FINALIZE")
  case True
  then show ?thesis using assms(2) by (simp add: load_ff_def)
next
  case False
  moreover have "\<not> bank_full s (load_bank s)"
  proof (cases "load_st s = L_ACCEPT")
    case True
    then have "accepts i s" using assms(2) load_half_waits [OF True, of i m] by fastforce
    then show ?thesis by (simp add: accepts_def input_ready_def)
  qed (use assms(1) in simp)
  ultimately show ?thesis by (simp add: load_half_banks)
qed

lemma finished_frames:
  assumes "load_ok m s cur"
  shows "frames_for m (finished m i s cur) = concat (map raw_frame (loaded_now s cur))"
proof (cases "load_st s = L_FINALIZE")
  case True
  then show ?thesis using assms
    by (simp add: finished_def loaded_now_def load_ok_def frames_for_def packet_frame_raw)
qed (simp add: finished_def loaded_now_def frames_for_def drops_def)

lemma encoder_inv_step:
  assumes "0 < m" "reset_n i" "encoder_inv m s g ins outs"
  shows "encoder_inv m (encoder_clock m i s) (next_ghost m i s g) (ins @ taken i s) (outs @ given i s)"
proof -
  let ?u = "load_half m i s" and ?x = "loaded_now s (g_cur g)"
  have inv: "queue_ok m s (g_queue g)" "emit_st s \<noteq> E_IDLE \<longrightarrow> g_queue g \<noteq> [] \<and> emitting s (hd (g_queue g))"
    "load_ok m s (g_cur g)" "load_st s \<noteq> L_ACCEPT \<longrightarrow> \<not> bank_full s (load_bank s)"
    "history s (g_cur g) (g_done g) ins" "counters_ok m s ins" "frames_for m (g_done g) = outs @ pending s (g_queue g)"
    using assms(3) by (simp_all add: encoder_inv_def)
  have clock: "encoder_clock m i s = emit_ff m i s ?u" using assms(2) by (simp add: encoder_clock_def)
  have "queue_ok m ?u (g_queue g @ ?x)"
    unfolding loaded_now_def by (rule queue_load [OF inv(1,3,4)])
  note emit = queue_emit [OF inv(1,2) this]
  have "load_st (emit_ff m i s ?u) \<noteq> L_ACCEPT \<longrightarrow> \<not> bank_full (emit_ff m i s ?u) (load_bank (emit_ff m i s ?u))"
    using load_half_not_full [OF inv(4), of m i] emit_ff_full by auto
  then show ?thesis
    using emit load_ok_step [OF assms(1) inv(3), of i] history_step [OF assms(1) inv(3,5), of i]
      counters_step [OF assms(1) inv(3,5,6), of i] finished_frames [OF inv(3), of i] inv(7)
    by (simp add: encoder_inv_def clock next_ghost_def)
qed

lemma encoder_inv_reset: "0 < m \<Longrightarrow> encoder_inv m (encoder_reset s) \<lparr>g_queue = [], g_cur = [], g_done = []\<rparr> [] []"
  by (simp add: encoder_inv_def encoder_reset_def queue_ok_def head_bank_def load_ok_def loaded_Nil history_def
      closed_def counters_ok_def overlong_def pending_def Let_def)

lemma encoder_inv_run:
  "0 < m \<Longrightarrow> \<forall>i \<in> set is. reset_n i \<Longrightarrow> encoder_inv m s g ins outs \<Longrightarrow> encoder_run m s is = (ins', outs', s') \<Longrightarrow>
   \<exists>g'. encoder_inv m s' g' (ins @ ins') (outs @ outs')"
proof (induction "is" arbitrary: s g ins outs ins' outs')
  case (Cons i "is")
  obtain ins'' outs'' where run: "encoder_run m (encoder_clock m i s) is = (ins'', outs'', s')"
    "ins' = taken i s @ ins''" "outs' = given i s @ outs''"
    using Cons.prems(4) by (auto split: prod.splits)
  show ?case
    using Cons.IH [OF Cons.prems(1) _ encoder_inv_step [OF Cons.prems(1) _ Cons.prems(3)] run(1)] Cons.prems(2) run(2,3)
    by auto
qed auto

section \<open>Draining\<close>

text \<open>What is still to happen when nothing more comes in and the output is always taken.\<close>

definition unstarted :: "encoder \<Rightarrow> bytes list \<Rightarrow> nat" where
  "unstarted s q = length q - (if emit_st s = E_IDLE then 0 else 1)"

definition load_work :: "encoder \<Rightarrow> rtl_packet \<Rightarrow> nat" where
  "load_work s cur =
     (if closed s then (case load_st s of L_FIRST_DATA \<Rightarrow> 4 | L_CHECKSUM \<Rightarrow> 3 | _ \<Rightarrow> 2) + length (packet_frame cur)
      else if load_st s = L_FIRST_DATA then 1 else 0)"

definition work :: "encoder \<Rightarrow> ghost \<Rightarrow> nat" where
  "work s g = length (pending s (g_queue g)) + unstarted s (g_queue g) + load_work s (g_cur g)"

definition idle_in :: "encoder_in \<Rightarrow> bool" where
  "idle_in i \<longleftrightarrow> reset_n i \<and> \<not> input_valid i \<and> output_ready i"

lemma next_queue_unstarted:
  assumes "emit_st s \<noteq> E_IDLE \<longrightarrow> q \<noteq> []" "output_ready i" "bank_full s (head_bank s) = (q \<noteq> [])"
  shows "unstarted (emit_ff m i s (load_half m i s)) (next_queue i s (q @ x)) =
    unstarted s q + length x - (if emit_st s = E_IDLE \<and> q \<noteq> [] then 1 else 0)"
  using assms by (cases "emit_st s"; cases q) (auto simp: unstarted_def next_queue_def emit_ff_def head_bank_def)

lemma load_work_step:
  assumes "\<not> accepts i s" "load_ok m s cur"
  shows "load_work (load_half m i s) (next_cur m i s cur) + length (concat (map raw_frame (loaded_now s cur))) + length (loaded_now s cur) =
    load_work s cur - (if load_work s cur = 0 then 0 else 1)"
proof (cases "load_st s")
  case L_ACCEPT
  then show ?thesis using assms(1)
    by (simp add: load_half_waits next_cur_def drops_def load_work_def closed_def loaded_now_def)
next
  case L_FINALIZE
  then show ?thesis using assms(2)
    by (simp add: load_work_def closed_def loaded_now_def load_ff_def clear_load_def next_cur_def load_ok_def packet_frame_raw)
qed (use assms in \<open>simp_all add: load_work_def closed_def loaded_now_def load_ff_def next_cur_def drops_def\<close>)

lemma work_step:
  assumes "0 < m" "reset_n i" "output_ready i" "\<not> accepts i s" "encoder_inv m s g ins outs"
  shows "work (encoder_clock m i s) (next_ghost m i s g) \<le> work s g - 1"
proof -
  let ?t = "encoder_clock m i s" and ?q = "g_queue g" and ?x = "loaded_now s (g_cur g)"
  note i = assms(2,4,3)
  have inv: "queue_ok m s ?q" "emit_st s \<noteq> E_IDLE \<longrightarrow> ?q \<noteq> [] \<and> emitting s (hd ?q)" "load_ok m s (g_cur g)"
    "load_st s \<noteq> L_ACCEPT \<longrightarrow> \<not> bank_full s (load_bank s)"
    using assms(5) by (simp_all add: encoder_inv_def)
  have clock: "?t = emit_ff m i s (load_half m i s)" using i by (simp add: encoder_clock_def)
  have "queue_ok m (load_half m i s) (?q @ ?x)"
    unfolding loaded_now_def by (rule queue_load [OF inv(1,3,4)])
  from queue_emit [OF inv(1,2) this]
  have sent: "length (pending s ?q) + length (concat (map raw_frame ?x)) =
      length (given i s) + length (pending ?t (next_queue i s (?q @ ?x)))"
    unfolding clock [symmetric] by (metis length_append)
  have open_q: "unstarted ?t (next_queue i s (?q @ ?x)) =
      unstarted s ?q + length ?x - (if emit_st s = E_IDLE \<and> ?q \<noteq> [] then 1 else 0)"
    unfolding clock using inv(2) i(3) queue_head(1) [OF inv(1)] by (intro next_queue_unstarted) auto
  have out: "length (given i s) = (if emit_st s = E_IDLE then 0 else 1)"
    using i(3) by (simp add: given_def output_valid_def)
  have lw: "load_work ?t c = load_work (load_half m i s) c" for c
    by (simp add: clock load_work_def closed_def)
  note lwork = load_work_step [OF i(2) inv(3)]
  have started: "emit_st s \<noteq> E_IDLE \<Longrightarrow> 0 < length (pending s ?q)"
    by (cases "emit_st s") (simp_all add: pending_def emit_rest_def Let_def)
  have idle: "emit_st s = E_IDLE \<Longrightarrow> unstarted s ?q = length ?q" "emit_st s = E_IDLE \<Longrightarrow> ?q = [] \<Longrightarrow> pending s ?q = []"
    by (simp_all add: unstarted_def pending_def)
  have w: "work s g = length (pending s ?q) + unstarted s ?q + load_work s (g_cur g)"
    "work ?t (next_ghost m i s g) = length (pending ?t (next_queue i s (?q @ ?x)))
       + unstarted ?t (next_queue i s (?q @ ?x)) + load_work (load_half m i s) (next_cur m i s (g_cur g))"
    by (simp_all add: work_def next_ghost_def lw)
  consider (load) "load_work s (g_cur g) \<noteq> 0" | (send) "load_work s (g_cur g) = 0" "emit_st s \<noteq> E_IDLE"
    | (start) "load_work s (g_cur g) = 0" "emit_st s = E_IDLE" "?q \<noteq> []"
    | (none) "load_work s (g_cur g) = 0" "emit_st s = E_IDLE" "?q = []" by blast
  then show ?thesis
  proof cases
    case load
    then have "emit_st s = E_IDLE \<and> ?q \<noteq> [] \<Longrightarrow> 0 < unstarted s ?q" using idle(1) by simp
    then show ?thesis using load sent open_q out lwork unfolding w by (auto split: if_splits)
  next
    case send
    then show ?thesis using sent open_q out lwork started unfolding w by simp
  next
    case start
    then show ?thesis using sent open_q out lwork idle unfolding w by (cases ?q) simp_all
  next
    case none
    then show ?thesis using sent open_q out lwork idle unfolding w by simp
  qed
qed

lemma work_zero:
  assumes "encoder_inv m s g ins outs" "work s g = 0"
  shows "frames_for m (fst (packets ins)) = outs"
proof -
  have "pending s (g_queue g) = []" "load_work s (g_cur g) = 0" using assms(2) by (simp_all add: work_def)
  moreover from this(2) have "\<not> closed s" by (auto simp: load_work_def split: if_splits load_state.splits)
  ultimately show ?thesis using assms(1) by (simp add: encoder_inv_def history_def)
qed

text \<open>An engine that refuses a byte has something to do.\<close>

lemma busy_works:
  assumes "encoder_inv m s g ins outs" "\<not> input_ready s"
  shows "0 < work s g"
proof (cases "load_st s = L_ACCEPT")
  case True
  have q: "queue_ok m s (g_queue g)" using assms(1) by (simp add: encoder_inv_def)
  from True assms(2) have "bank_full s (load_bank s)" by (simp add: input_ready_def)
  then have "g_queue g \<noteq> []" using q by (cases rule: queue_cases [OF q]) (auto simp: queue_ok_def Let_def)
  then show ?thesis by (cases "emit_st s") (auto simp: work_def pending_def unstarted_def emit_rest_def Let_def)
next
  case False
  then show ?thesis by (cases "load_st s") (simp_all add: work_def load_work_def closed_def)
qed

lemma taken_idle: "idle_in i \<Longrightarrow> taken i s = []"
  by (simp add: taken_def idle_in_def)

lemma drain_run:
  "0 < m \<Longrightarrow> idle_in i \<Longrightarrow> encoder_inv m s g ins outs \<Longrightarrow> work s g \<le> n \<Longrightarrow>
   \<exists>outs' s'. encoder_run m s (replicate n i) = ([], outs', s') \<and> frames_for m (fst (packets ins)) = outs @ outs'"
proof (induction n arbitrary: s g outs)
  case 0
  then show ?case using work_zero by auto
next
  case (Suc n)
  have inv: "encoder_inv m (encoder_clock m i s) (next_ghost m i s g) ins (outs @ given i s)"
    using encoder_inv_step [OF Suc.prems(1) _ Suc.prems(3), of i] Suc.prems(2) taken_idle [OF Suc.prems(2), of s]
    by (simp add: idle_in_def)
  have "work (encoder_clock m i s) (next_ghost m i s g) \<le> n"
    using work_step [OF Suc.prems(1) _ _ _ Suc.prems(3), of i] Suc.prems(2,4) by (auto simp: idle_in_def accepts_def)
  from Suc.IH [OF Suc.prems(1,2) inv this] obtain outs' s' where
    "encoder_run m (encoder_clock m i s) (replicate n i) = ([], outs', s')"
    "frames_for m (fst (packets ins)) = outs @ given i s @ outs'" by auto
  then show ?case by (simp add: taken_idle [OF Suc.prems(2)])
qed

lemma encoder_run_append:
  "encoder_run m s (is @ js) =
     (case encoder_run m s is of (ins, outs, s') \<Rightarrow>
        case encoder_run m s' js of (ins', outs', s'') \<Rightarrow> (ins @ ins', outs @ outs', s''))"
  by (induction "is" arbitrary: s) (simp_all split: prod.split)

lemma work_bound:
  assumes "encoder_inv m s g ins outs" "0 < m"
  shows "work s g \<le> length (frames_for m (fst (packets ins))) - length outs + 6"
proof -
  have inv: "queue_ok m s (g_queue g)" "load_ok m s (g_cur g)" "history s (g_cur g) (g_done g) ins"
    "frames_for m (g_done g) = outs @ pending s (g_queue g)" "load_st s \<noteq> L_ACCEPT \<longrightarrow> \<not> bank_full s (load_bank s)"
    using assms(1) by (simp_all add: encoder_inv_def)
  have q: "length (g_queue g) \<le> 2" "load_st s \<noteq> L_ACCEPT \<Longrightarrow> length (g_queue g) \<le> 1"
    using inv(1,5) by (cases rule: queue_cases [OF inv(1)]; simp add: queue_ok_def Let_def)+
  show ?thesis
  proof (cases "closed s")
    case True
    then have fits: "length (g_cur g) \<le> m" "load_st s \<noteq> L_ACCEPT"
      using inv(2) assms(2) by (auto simp: closed_def load_ok_def)
    have "frames_for m (fst (packets ins)) = outs @ pending s (g_queue g) @ packet_frame (g_cur g)"
      using True inv(3,4) fits by (simp add: history_def) (simp add: frames_for_def)
    then show ?thesis using True q(2) fits by (auto simp: work_def load_work_def unstarted_def split: load_state.splits)
  next
    case False
    then have "frames_for m (fst (packets ins)) = outs @ pending s (g_queue g)"
      using inv(3,4) by (simp add: history_def)
    then show ?thesis using False q(1) by (auto simp: work_def load_work_def unstarted_def)
  qed
qed

section \<open>Properties\<close>

lemma packet_frame_orbflow: "orbflow_frame (ucast (fst (hd p))) (map snd p) = Inr (packet_frame p)"
proof -
  have "unat (fst (hd p)) < 2 ^ LENGTH(7)" by (rule unsigned_less)
  then have "unat (ucast (fst (hd p)) :: u8) < 128" by (simp add: unsigned_ucast_eq take_bit_nat_eq_self)
  then have "\<not> (ucast (fst (hd p)) :: u8) > 0x7f" by (simp add: word_less_nat_alt)
  then show ?thesis by (simp add: orbflow_frame_eq packet_frame_def)
qed

text \<open>What the host's reader finds in the frames of some packets.\<close>

lemma valid_frames_for:
  "valid_frames (frames_for m ps) = map (\<lambda>p. (ucast (fst (hd p)), map snd p)) (filter (\<lambda>p. length p \<le> m) ps)"
proof -
  have "frames_for m ps = concat (map (\<lambda>f. frame_body f @ [0])
      (map (\<lambda>p. (ucast (fst (hd p)), map snd p)) (filter (\<lambda>p. length p \<le> m) ps)))"
    by (simp add: frames_for_def packet_frame_def [abs_def] o_def)
  then show ?thesis by (simp only: valid_frames_def orb.recover_frames)
qed

text \<open>
  Property C3. The hardware sends the frames of the reference model. After a reset, for every
  payload limit, every input and every pattern of stalls on both sides, what has left the engine is a prefix of
  the frames, in order, of the packets that were taken whole and do not exceed the limit, each exactly
  the frame that \<open>orbflow_frame\<close> builds of its channel and payload; a longer packet leaves nothing behind. The
  counters tell the bytes taken and the bytes of packets found too long, and the overrun flag whether there was one.
\<close>

theorem encoder_frames_packets:
  assumes "0 < m" and "\<forall>i \<in> set is. reset_n i"
    and "encoder_run m (encoder_reset s0) is = (ins, outs, s)"
  shows "(\<exists>rest. frames_for m (fst (packets ins)) = outs @ rest)
    \<and> (\<forall>p. orbflow_frame (ucast (fst (hd p))) (map snd p) = Inr (packet_frame p))
    \<and> received_bytes s = of_nat (length ins)
    \<and> dropped_bytes s = of_nat (sum_list (map length (overlong m (packets ins))))
    \<and> overrun s = (overlong m (packets ins) \<noteq> [])"
proof -
  obtain g where g: "encoder_inv m s g ins outs"
    using encoder_inv_run [OF assms(1,2) encoder_inv_reset [OF assms(1)] assms(3)] by auto
  then have "fst (packets ins) = g_done g @ (if closed s then [g_cur g] else [])"
    by (simp add: encoder_inv_def history_def)
  moreover have "frames_for m (g_done g) = outs @ pending s (g_queue g)" "counters_ok m s ins"
    using g by (simp_all add: encoder_inv_def)
  ultimately show ?thesis by (simp add: counters_ok_def packet_frame_orbflow)
qed

text \<open>
  Property C17. Nothing stays behind. Once no more comes in and the output is taken, all the frames that
  are still owed have left after at most six clocks more than they have bytes; and the host's
  reader finds in the output exactly the channels and payloads of the packets within the limit.
\<close>

theorem encoder_drains:
  assumes "0 < m" and "\<forall>i \<in> set is. reset_n i" and "idle_in i"
    and "encoder_run m (encoder_reset s0) is = (ins, outs, s)"
    and "length (frames_for m (fst (packets ins))) - length outs + 6 \<le> n"
  shows "\<exists>outs' s'. encoder_run m (encoder_reset s0) (is @ replicate n i) = (ins, outs', s')
    \<and> outs' = frames_for m (fst (packets ins))
    \<and> valid_frames outs' =
        map (\<lambda>p. (ucast (fst (hd p)), map snd p)) (filter (\<lambda>p. length p \<le> m) (fst (packets ins)))"
proof -
  obtain g where g: "encoder_inv m s g ins outs"
    using encoder_inv_run [OF assms(1,2) encoder_inv_reset [OF assms(1)] assms(4)] by auto
  then have "work s g \<le> n" using work_bound [OF g assms(1)] assms(5) by simp
  from drain_run [OF assms(1,3) g this] obtain outs' s' where
    d: "encoder_run m s (replicate n i) = ([], outs', s')" "frames_for m (fst (packets ins)) = outs @ outs'" by blast
  with valid_frames_for [of m "fst (packets ins)"] show ?thesis by (simp add: encoder_run_append assms(4))
qed

text \<open>A run of two packets of at most two bytes: the first is within the limit, the second is not.\<close>

definition demo_in :: "u8 \<Rightarrow> bool \<Rightarrow> bool \<Rightarrow> encoder_in" where
  "demo_in d ends valid = \<lparr>reset_n = True, input_channel = 1, input_data = d, input_valid = valid,
     input_last = ends, output_ready = True\<rparr>"

definition demo_inputs :: "encoder_in list" where
  "demo_inputs = [demo_in 7 False True, demo_in 0 False False, demo_in 0 True True] @ replicate 2 (demo_in 0 False False)
     @ [demo_in 1 False True, demo_in 0 False False, demo_in 2 False True, demo_in 3 True True]"

definition dark :: encoder where
  "dark = \<lparr>packet = (\<lambda>b k. 0), groups = (\<lambda>b k. 0), bank_group_count = (\<lambda>b. 0), bank_full = (\<lambda>b. False), load_bank = False,
     encode_bank = False, next_encode_bank = False, load_st = L_ACCEPT, emit_st = E_IDLE, load_payload_count = 0,
     load_raw_length = 0, load_group_index = 0, load_group_length = 0, chk = 0, pending_data = 0, pending_last = False,
     dropping = False, emit_raw_index = 0, emit_group_index = 0, emit_group_remaining = 0, overrun = False,
     received_bytes = 0, dropped_bytes = 0\<rparr>"

lemma demo_run: "fst (encoder_run 2 (encoder_reset dark) demo_inputs) =
    [(1, 7, False), (1, 0, True), (1, 1, False), (1, 2, False), (1, 3, True)]"
  by code_simp


theorem encoder_frames_packets_witness:
  "\<exists>ins outs s. encoder_run 2 (encoder_reset dark) demo_inputs = (ins, outs, s) \<and>
     (\<exists>rest. frames_for 2 [[(1, 7), (1, 0)], [(1, 1), (1, 2), (1, 3)]] = outs @ rest)
     \<and> received_bytes s = 5 \<and> dropped_bytes s = 3 \<and> overrun s"
proof -
  obtain ins outs s where run: "encoder_run 2 (encoder_reset dark) demo_inputs = (ins, outs, s)"
    by (metis prod_cases3)
  have "ins = [(1, 7, False), (1, 0, True), (1, 1, False), (1, 2, False), (1, 3, True)]"
    using demo_run run by simp
  then have p: "packets ins = ([[(1, 7), (1, 0)], [(1, 1), (1, 2), (1, 3)]], [])" "length ins = 5"
    by (simp_all add: packets_def packet_step_def)
  have "\<forall>i \<in> set demo_inputs. reset_n i" by (simp add: demo_inputs_def demo_in_def)
  from encoder_frames_packets [OF _ this run] p show ?thesis using run
    by (auto simp: overlong_def)
qed

theorem encoder_drains_witness:
  "\<exists>ins outs' s'. encoder_run 2 (encoder_reset dark) (demo_inputs @ replicate 20 (demo_in 0 False False)) = (ins, outs', s')
     \<and> outs' = packet_frame [(1, 7), (1, 0)] \<and> valid_frames outs' = [(1, [7, 0])]"
proof -
  obtain ins outs s where run: "encoder_run 2 (encoder_reset dark) demo_inputs = (ins, outs, s)"
    by (metis prod_cases3)
  have "ins = [(1, 7, False), (1, 0, True), (1, 1, False), (1, 2, False), (1, 3, True)]"
    using demo_run run by simp
  then have p: "packets ins = ([[(1, 7), (1, 0)], [(1, 1), (1, 2), (1, 3)]], [])"
    by (simp add: packets_def packet_step_def)
  have f: "frames_for 2 (fst (packets ins)) = packet_frame [(1, 7), (1, 0)]" "length (packet_frame [(1, 7), (1, 0)]) = 6"
    unfolding p by (simp add: frames_for_def, code_simp)
  have "\<forall>i \<in> set demo_inputs. reset_n i" "idle_in (demo_in 0 False False)"
    by (simp_all add: demo_inputs_def demo_in_def idle_in_def)
  moreover have "length (frames_for 2 (fst (packets ins))) - length outs + 6 \<le> 20" using f by simp
  ultimately show ?thesis using encoder_drains [OF _ _ _ run, of "demo_in 0 False False" 20] f p by auto
qed

end
