(* ===== verification/PacketizerRtl.thy ===== *)
theory PacketizerRtl
  imports EncoderRtl
begin

text \<open>
  The stage between the formatter decoder and the framing engine,
  \<open>applications/orbtrace/rtl/orbtrace_channel_packetizer.sv\<close>, as a clocked step: it holds one byte back until it is
  known whether the byte ends a packet, because the source changes, the packet is full, or nothing follows for a while.
\<close>

section \<open>The registers and the outputs\<close>

record packetizer =
  pk_channel :: "7 word"
  pk_held_data :: u8
  pk_count :: nat
  pk_idle :: nat
  pk_held :: bool
  pk_end_pending :: bool

record pk_in =
  pi_reset_n :: bool
  pi_channel :: "7 word"
  pi_data :: u8
  pi_valid :: bool
  pi_ready :: bool

text \<open>\<open>mp\<close> is \<open>MAX_PACKET\<close>, \<open>ic\<close> is \<open>IDLE_CYCLES\<close>.\<close>

definition pk_channel_boundary :: "pk_in \<Rightarrow> packetizer \<Rightarrow> bool" where
  "pk_channel_boundary i s \<longleftrightarrow> pk_held s \<and> pi_valid i \<and> pi_channel i \<noteq> pk_channel s"

definition pk_size_boundary :: "nat \<Rightarrow> packetizer \<Rightarrow> bool" where
  "pk_size_boundary mp s \<longleftrightarrow> pk_held s \<and> pk_count s = mp"

definition pk_output_valid :: "nat \<Rightarrow> pk_in \<Rightarrow> packetizer \<Rightarrow> bool" where
  "pk_output_valid mp i s \<longleftrightarrow> pk_held s \<and> (pi_valid i \<or> pk_end_pending s \<or> pk_size_boundary mp s)"

definition pk_output_last :: "nat \<Rightarrow> pk_in \<Rightarrow> packetizer \<Rightarrow> bool" where
  "pk_output_last mp i s \<longleftrightarrow> pk_end_pending s \<or> pk_channel_boundary i s \<or> pk_size_boundary mp s"

definition pk_input_ready :: "nat \<Rightarrow> pk_in \<Rightarrow> packetizer \<Rightarrow> bool" where
  "pk_input_ready mp i s \<longleftrightarrow> \<not> pk_held s \<or> (pi_ready i \<and> pk_output_valid mp i s)"

section \<open>The clock edge\<close>

definition pk_reset :: "packetizer \<Rightarrow> packetizer" where
  "pk_reset s = s\<lparr>pk_held := False, pk_end_pending := False, pk_count := 0, pk_idle := 0, pk_channel := 0,
     pk_held_data := 0\<rparr>"

definition pk_countdown :: "packetizer \<Rightarrow> packetizer" where
  "pk_countdown s =
     (let t = (if pk_held s \<and> pk_idle s \<noteq> 0 then s\<lparr>pk_idle := pk_idle s - 1\<rparr> else s)
      in if pk_held s \<and> pk_idle s = 1 then t\<lparr>pk_end_pending := True\<rparr> else t)"

definition pk_clock :: "nat \<Rightarrow> nat \<Rightarrow> pk_in \<Rightarrow> packetizer \<Rightarrow> packetizer" where
  "pk_clock mp ic i s =
     (if \<not> pi_reset_n i then pk_reset s
      else let t = pk_countdown s
      in if pk_output_valid mp i s \<and> pi_ready i then
           if pi_valid i then
             t\<lparr>pk_held := True, pk_held_data := pi_data i, pk_channel := pi_channel i,
               pk_count := (if pk_output_last mp i s then 1 else (pk_count s + 1) mod 2 ^ clog2 (mp + 1)),
               pk_idle := ic mod 2 ^ clog2 (ic + 1), pk_end_pending := False\<rparr>
           else t\<lparr>pk_held := False, pk_end_pending := False, pk_count := 0, pk_idle := 0\<rparr>
         else if \<not> pk_held s \<and> pi_valid i then
           t\<lparr>pk_held := True, pk_held_data := pi_data i, pk_channel := pi_channel i, pk_count := 1,
             pk_idle := ic mod 2 ^ clog2 (ic + 1)\<rparr>
         else t)"

definition pk_taken :: "nat \<Rightarrow> pk_in \<Rightarrow> packetizer \<Rightarrow> (7 word \<times> u8) list" where
  "pk_taken mp i s = (if pi_valid i \<and> pk_input_ready mp i s then [(pi_channel i, pi_data i)] else [])"

definition pk_given :: "nat \<Rightarrow> pk_in \<Rightarrow> packetizer \<Rightarrow> transfer list" where
  "pk_given mp i s =
     (if pk_output_valid mp i s \<and> pi_ready i then [(pk_channel s, pk_held_data s, pk_output_last mp i s)] else [])"

fun pk_run :: "nat \<Rightarrow> nat \<Rightarrow> packetizer \<Rightarrow> pk_in list \<Rightarrow> (7 word \<times> u8) list \<times> transfer list \<times> packetizer" where
  "pk_run mp ic s [] = ([], [], s)"
| "pk_run mp ic s (i # is) =
     (case pk_run mp ic (pk_clock mp ic i s) is of
        (ins, outs, s') \<Rightarrow> (pk_taken mp i s @ ins, pk_given mp i s @ outs, s'))"

section \<open>The invariant\<close>

text \<open>What is in the register, and the bytes of a list of packets.\<close>

definition pk_holding :: "packetizer \<Rightarrow> (7 word \<times> u8) list" where
  "pk_holding s = (if pk_held s then [(pk_channel s, pk_held_data s)] else [])"

definition unpacked :: "transfer list \<Rightarrow> (7 word \<times> u8) list" where
  "unpacked outs = map (\<lambda>(c, d, ends). (c, d)) outs"

definition good_packet :: "nat \<Rightarrow> rtl_packet \<Rightarrow> bool" where
  "good_packet mp p \<longleftrightarrow> p \<noteq> [] \<and> length p \<le> mp \<and> (\<forall>x \<in> set p. fst x = fst (hd p))"

definition pk_registers_ok :: "nat \<Rightarrow> nat \<Rightarrow> packetizer \<Rightarrow> rtl_packet \<Rightarrow> bool" where
  "pk_registers_ok mp ic s cur \<longleftrightarrow>
     (if pk_held s then pk_count s = Suc (length cur) \<and> pk_count s \<le> mp \<and> (\<forall>x \<in> set cur. fst x = pk_channel s)
        \<and> (pk_end_pending s \<or> 0 < pk_idle s) \<and> pk_idle s \<le> ic
      else cur = [] \<and> \<not> pk_end_pending s \<and> pk_idle s = 0 \<and> pk_count s = 0)"

definition pk_inv :: "nat \<Rightarrow> nat \<Rightarrow> packetizer \<Rightarrow> (7 word \<times> u8) list \<Rightarrow> transfer list \<Rightarrow> bool" where
  "pk_inv mp ic s ins outs \<longleftrightarrow> ins = unpacked outs @ pk_holding s
     \<and> list_all (good_packet mp) (fst (packets outs)) \<and> pk_registers_ok mp ic s (snd (packets outs))"

lemma unpacked_simps [simp]: "unpacked [] = []" "unpacked (xs @ ys) = unpacked xs @ unpacked ys"
  by (simp_all add: unpacked_def)

lemma packets_unpacked: "concat (fst (packets outs)) @ snd (packets outs) = unpacked outs"
  by (induction outs rule: rev_induct) (auto simp: packet_step_def unpacked_def split: prod.splits)

lemma pk_widths [simp]: "k \<le> mp \<Longrightarrow> k mod 2 ^ clog2 (mp + 1) = k" "k \<le> mp \<Longrightarrow> k mod 2 ^ clog2 (Suc mp) = k"
  using clog2_bound [of "Suc mp"] by (simp_all add: order.strict_trans1)

text \<open>The byte in the register leaves; the packet it belongs to ends with it or grows.\<close>

lemma pk_give:
  assumes "pk_held s" "pk_registers_ok mp ic s cur" "packets outs = (ps, cur)" "list_all (good_packet mp) ps"
  shows "list_all (good_packet mp) (fst (packets (outs @ [(pk_channel s, pk_held_data s, ends)])))"
    "snd (packets (outs @ [(pk_channel s, pk_held_data s, ends)])) =
       (if ends then [] else cur @ [(pk_channel s, pk_held_data s)])"
proof -
  have "good_packet mp (cur @ [(pk_channel s, pk_held_data s)])"
    using assms(1,2) by (cases cur) (auto simp: good_packet_def pk_registers_ok_def)
  then show "list_all (good_packet mp) (fst (packets (outs @ [(pk_channel s, pk_held_data s, ends)])))"
    using assms(3,4) by (simp add: packet_step_def)
qed (simp add: assms(3) packet_step_def)

lemma pk_inv_step:
  assumes "0 < mp" "0 < ic" "pi_reset_n i" "pk_inv mp ic s ins outs"
  shows "pk_inv mp ic (pk_clock mp ic i s) (ins @ pk_taken mp i s) (outs @ pk_given mp i s)"
proof -
  obtain ps cur where packs: "packets outs = (ps, cur)" by fastforce
  have inv: "ins = unpacked outs @ pk_holding s" "list_all (good_packet mp) ps" "pk_registers_ok mp ic s cur"
    using assms(4) packs by (simp_all add: pk_inv_def)
  show ?thesis
  proof (cases "pk_output_valid mp i s \<and> pi_ready i")
    case True
    then have held: "pk_held s" by (simp add: pk_output_valid_def)
    define ends where "ends = pk_output_last mp i s"
    have given: "pk_given mp i s = [(pk_channel s, pk_held_data s, ends)]" using True by (simp add: pk_given_def ends_def)
    have taken: "pk_taken mp i s = (if pi_valid i then [(pi_channel i, pi_data i)] else [])"
      using True by (simp add: pk_taken_def pk_input_ready_def)
    have "pk_registers_ok mp ic (pk_clock mp ic i s) (if ends then [] else cur @ [(pk_channel s, pk_held_data s)])"
    proof (cases "pi_valid i")
      case valid: True
      have "\<not> ends \<Longrightarrow> Suc (pk_count s) \<le> mp \<and> pi_channel i = pk_channel s"
        using inv(3) held valid
        by (auto simp: ends_def pk_output_last_def pk_size_boundary_def pk_channel_boundary_def pk_registers_ok_def)
      then show ?thesis using True valid inv(3) held assms(1-3)
        by (simp add: pk_clock_def Let_def ends_def [symmetric] pk_registers_ok_def)
    next
      case False
      then have "ends" using True by (auto simp: ends_def pk_output_last_def pk_output_valid_def)
      then show ?thesis using True False assms(3) by (simp add: pk_clock_def pk_registers_ok_def Let_def)
    qed
    moreover have "pk_holding (pk_clock mp ic i s) = (if pi_valid i then [(pi_channel i, pi_data i)] else [])"
      using True assms(3) by (simp add: pk_clock_def pk_holding_def Let_def)
    ultimately show ?thesis
      using inv(1) held pk_give [OF held inv(3) packs inv(2), of ends] unfolding given taken
      by (simp add: pk_inv_def pk_holding_def unpacked_def)
  next
    case False
    then have given: "pk_given mp i s = []" by (simp add: pk_given_def)
    show ?thesis
    proof (cases "\<not> pk_held s \<and> pi_valid i")
      case True
      then show ?thesis using inv packs assms(1-3) False given
        by (simp add: pk_clock_def pk_countdown_def Let_def pk_taken_def pk_input_ready_def pk_inv_def pk_holding_def
            pk_registers_ok_def)
    next
      case idle: False
      have "pk_taken mp i s = []" using idle False by (auto simp: pk_taken_def pk_input_ready_def)
      moreover have "pk_clock mp ic i s = pk_countdown s" using False idle assms(3) by (auto simp: pk_clock_def Let_def)
      moreover have "pk_registers_ok mp ic (pk_countdown s) cur" using inv(3)
        by (auto simp: pk_countdown_def pk_registers_ok_def Let_def)
      moreover have "pk_holding (pk_countdown s) = pk_holding s"
        by (simp add: pk_countdown_def pk_holding_def Let_def)
      ultimately show ?thesis using inv packs given by (simp add: pk_inv_def)
    qed
  qed
qed

lemma pk_inv_reset: "pk_inv mp ic (pk_reset s) [] []"
  by (simp add: pk_inv_def pk_reset_def pk_holding_def pk_registers_ok_def)

lemma pk_inv_run:
  "0 < mp \<Longrightarrow> 0 < ic \<Longrightarrow> \<forall>i \<in> set is. pi_reset_n i \<Longrightarrow> pk_inv mp ic s ins outs \<Longrightarrow>
   pk_run mp ic s is = (ins', outs', s') \<Longrightarrow> pk_inv mp ic s' (ins @ ins') (outs @ outs')"
proof (induction "is" arbitrary: s ins outs ins' outs')
  case (Cons i "is")
  obtain ins1 outs1 where run: "pk_run mp ic (pk_clock mp ic i s) is = (ins1, outs1, s')"
    "ins' = pk_taken mp i s @ ins1" "outs' = pk_given mp i s @ outs1"
    using Cons.prems(5) by (auto split: prod.splits)
  have "pk_inv mp ic (pk_clock mp ic i s) (ins @ pk_taken mp i s) (outs @ pk_given mp i s)"
    using pk_inv_step [OF Cons.prems(1,2) _ Cons.prems(4)] Cons.prems(3) by simp
  from Cons.IH [OF Cons.prems(1,2) _ this run(1)] Cons.prems(3) run(2,3) show ?case by simp
qed simp

section \<open>Nothing is kept for ever\<close>

definition pk_quiet :: "pk_in \<Rightarrow> bool" where
  "pk_quiet i \<longleftrightarrow> pi_reset_n i \<and> \<not> pi_valid i \<and> pi_ready i"

definition pk_work :: "packetizer \<Rightarrow> nat" where
  "pk_work s = (if \<not> pk_held s then 0 else if pk_end_pending s then 1 else pk_idle s + 1)"

lemma pk_quiet_step:
  assumes "pk_registers_ok mp ic s cur" "pk_quiet i" "pk_held s"
  shows "pk_work (pk_clock mp ic i s) < pk_work s"
  using assms by (auto simp: pk_registers_ok_def pk_quiet_def pk_work_def pk_clock_def pk_countdown_def Let_def pk_output_valid_def)

lemma pk_quiet_taken: "pk_quiet i \<Longrightarrow> pk_taken mp i s = []"
  by (simp add: pk_taken_def pk_quiet_def)

lemma pk_flush:
  "0 < mp \<Longrightarrow> 0 < ic \<Longrightarrow> pk_quiet i \<Longrightarrow> pk_inv mp ic s ins outs \<Longrightarrow> pk_work s \<le> n \<Longrightarrow>
   \<exists>outs' s'. pk_run mp ic s (replicate n i) = ([], outs', s') \<and> pk_inv mp ic s' ins (outs @ outs') \<and> \<not> pk_held s'"
proof (induction n arbitrary: s outs)
  case 0
  then show ?case by (auto simp: pk_work_def split: if_splits)
next
  case (Suc n)
  let ?t = "pk_clock mp ic i s"
  have inv: "pk_inv mp ic ?t ins (outs @ pk_given mp i s)"
    using pk_inv_step [OF Suc.prems(1,2) _ Suc.prems(4), of i] Suc.prems(3) pk_quiet_taken [OF Suc.prems(3), of mp s]
    by (simp add: pk_quiet_def)
  have "pk_work ?t \<le> n"
  proof (cases "pk_held s")
    case True
    then show ?thesis using pk_quiet_step [of mp ic s _ i] Suc.prems by (fastforce simp: pk_inv_def)
  next
    case False
    then have "?t = s" using Suc.prems(3) by (simp add: pk_quiet_def pk_clock_def pk_output_valid_def pk_countdown_def)
    then show ?thesis using False by (simp add: pk_work_def)
  qed
  from Suc.IH [OF Suc.prems(1-3) inv this] show ?case
    by (auto simp: pk_quiet_taken [OF Suc.prems(3)])
qed

text \<open>
  Property C27. The packetizer neither loses nor reorders a byte. In every run from reset, whatever the stalls, the bytes
  taken are those of the finished packets, those of the packet being given out and at most one byte held back, in that
  order; every finished packet has one source, at least one byte and at most \<open>MAX_PACKET\<close>. When nothing follows and the
  consumer is ready, the byte held back and the end of the packet come out within \<open>IDLE_CYCLES + 1\<close> edges.
\<close>

theorem packetizer_packets:
  assumes "0 < mp" and "0 < ic" and "\<forall>i \<in> set is. pi_reset_n i"
    and "pk_run mp ic (pk_reset s0) is = (ins, outs, s)"
  shows "ins = concat (fst (packets outs)) @ snd (packets outs) @ pk_holding s \<and> length (pk_holding s) \<le> 1
    \<and> list_all (\<lambda>p. p \<noteq> [] \<and> length p \<le> mp \<and> (\<forall>x \<in> set p. fst x = fst (hd p))) (fst (packets outs))
    \<and> (\<forall>q. pk_quiet q \<longrightarrow> (\<exists>outs' s'. pk_run mp ic s (replicate (ic + 1) q) = ([], outs', s')
        \<and> ins = concat (fst (packets (outs @ outs'))) \<and> snd (packets (outs @ outs')) = []))"
proof (intro conjI allI impI)
  have inv: "pk_inv mp ic s ins outs" using pk_inv_run [OF assms(1-3) pk_inv_reset assms(4)] by simp
  then show "ins = concat (fst (packets outs)) @ snd (packets outs) @ pk_holding s"
    using packets_unpacked [of outs] by (simp add: pk_inv_def)
  show "length (pk_holding s) \<le> 1" by (simp add: pk_holding_def)
  show "list_all (\<lambda>p. p \<noteq> [] \<and> length p \<le> mp \<and> (\<forall>x \<in> set p. fst x = fst (hd p))) (fst (packets outs))"
    using inv by (simp add: pk_inv_def good_packet_def [abs_def])
  fix q assume q: "pk_quiet q"
  have "pk_work s \<le> ic + 1" using inv by (auto simp: pk_inv_def pk_registers_ok_def pk_work_def split: if_splits)
  from pk_flush [OF assms(1,2) q inv this] obtain outs' s'
    where "pk_run mp ic s (replicate (ic + 1) q) = ([], outs', s')" "pk_inv mp ic s' ins (outs @ outs')" "\<not> pk_held s'"
    by blast
  then show "\<exists>outs' s'. pk_run mp ic s (replicate (ic + 1) q) = ([], outs', s')
      \<and> ins = concat (fst (packets (outs @ outs'))) \<and> snd (packets (outs @ outs')) = []"
    using packets_unpacked [of "outs @ outs'"]
    by (intro exI [of _ outs'], intro exI [of _ s']) (simp add: pk_inv_def pk_holding_def pk_registers_ok_def)
qed

definition pk_in_of :: "7 word \<Rightarrow> u8 \<Rightarrow> bool \<Rightarrow> pk_in" where
  "pk_in_of c d valid = \<lparr>pi_reset_n = True, pi_channel = c, pi_data = d, pi_valid = valid, pi_ready = True\<rparr>"

definition pk_blank :: packetizer where
  "pk_blank = \<lparr>pk_channel = 0, pk_held_data = 0, pk_count = 0, pk_idle = 0, pk_held = False, pk_end_pending = False\<rparr>"

text \<open>A full packet, a change of source, and a byte that waits for its end.\<close>

definition pk_sample :: "pk_in list" where
  "pk_sample = [pk_in_of 1 10 True, pk_in_of 1 11 True, pk_in_of 1 12 True, pk_in_of 2 13 True]"

theorem packetizer_packets_witness:
  "(case pk_run 2 3 (pk_reset pk_blank) pk_sample of (ins, outs, s) \<Rightarrow>
     packets outs = ([[(1, 10), (1, 11)], [(1, 12)]], []) \<and> ins = concat (fst (packets outs)) @ [(2, 13)])"
proof -
  obtain ins outs s where run: "pk_run 2 3 (pk_reset pk_blank) pk_sample = (ins, outs, s)" by (metis prod_cases3)
  have out: "packets (fst (snd (pk_run 2 3 (pk_reset pk_blank) pk_sample))) = ([[(1, 10), (1, 11)], [(1, 12)]], [])"
    "pk_holding (snd (snd (pk_run 2 3 (pk_reset pk_blank) pk_sample))) = [(2, 13)]"
    by code_simp+
  have "\<forall>i \<in> set pk_sample. pi_reset_n i" by (simp add: pk_sample_def pk_in_of_def)
  from packetizer_packets [OF _ _ this run] out run show ?thesis by simp
qed

end
