(* ===== verification/CoreRtl.thy ===== *)
theory CoreRtl
  imports DemuxRtl PacketizerRtl
begin

text \<open>
  The capture path of the programmable logic, \<open>applications/orbtrace/rtl/orbtrace_core.sv\<close>: a source selected by
  \<open>orbtrace_source_mux.sv\<close>, the formatter decoder, the packetizer and the framing engine on one clock, wired
  together as the module does; and what leaves it, as frames, of what the source gave.
\<close>

section \<open>The modules and their wires\<close>

text \<open>The payload limit of the module; the definitions take it as a parameter \<open>m\<close>, and \<open>PACKET_TIMEOUT\<close> as \<open>ic\<close>.\<close>

definition ORBFLOW_PAYLOAD :: nat where "ORBFLOW_PAYLOAD = 8192"

record core =
  cr_demux :: demux_regs
  cr_packetizer :: packetizer
  cr_encoder :: encoder

record core_in =
  ci_reset_n :: bool
  ci_source_select :: "2 word"
  ci_trace_format :: "3 word"
  ci_reset_sync :: bool
  ci_m3_data :: u8
  ci_m3_valid :: bool
  ci_coresight_data :: u8
  ci_coresight_valid :: bool
  ci_test_data :: u8
  ci_test_valid :: bool
  ci_tready :: bool

text \<open>The multiplexer: the byte, whether there is one, and the three ready signals.\<close>

definition mux_output :: "core_in \<Rightarrow> u8 \<times> bool" where
  "mux_output i =
     (if ci_source_select i = 0 then (ci_m3_data i, ci_m3_valid i)
      else if ci_source_select i = 1 \<or> ci_source_select i = 2 then (ci_coresight_data i, ci_coresight_valid i)
      else (ci_test_data i, ci_test_valid i))"

definition mux_ready :: "core_in \<Rightarrow> bool \<Rightarrow> bool \<times> bool \<times> bool" where
  "mux_ready i ready =
     (if ci_source_select i = 0 then (ready, False, False)
      else if ci_source_select i = 1 \<or> ci_source_select i = 2 then (False, ready, False)
      else (False, False, ready))"

definition bypass_tpiu :: "core_in \<Rightarrow> bool" where
  "bypass_tpiu i \<longleftrightarrow> 3 \<le> ci_trace_format i"

definition packetizer_wires :: "core_in \<Rightarrow> core \<Rightarrow> pk_in" where
  "packetizer_wires i s = \<lparr>pi_reset_n = ci_reset_n i,
     pi_channel = (if bypass_tpiu i then 1 else dx_channel (cr_demux s)),
     pi_data = (if bypass_tpiu i then fst (mux_output i) else dx_unmangled (cr_demux s)),
     pi_valid = (if bypass_tpiu i then snd (mux_output i) else dx_output_valid (cr_demux s)),
     pi_ready = input_ready (cr_encoder s)\<rparr>"

definition demux_ready :: "nat \<Rightarrow> core_in \<Rightarrow> core \<Rightarrow> bool" where
  "demux_ready m i s = pk_input_ready m (packetizer_wires i s) (cr_packetizer s)"

definition demux_wires :: "nat \<Rightarrow> core_in \<Rightarrow> core \<Rightarrow> demux_in" where
  "demux_wires m i s = \<lparr>dx_reset_n = ci_reset_n i, dx_reset_sync = ci_reset_sync i, dx_data = fst (mux_output i),
     dx_valid = (snd (mux_output i) \<and> \<not> bypass_tpiu i), dx_ready = demux_ready m i s,
     dx_m3_source = (ci_source_select i = 0)\<rparr>"

definition encoder_wires :: "nat \<Rightarrow> core_in \<Rightarrow> core \<Rightarrow> encoder_in" where
  "encoder_wires m i s = \<lparr>reset_n = ci_reset_n i, input_channel = pk_channel (cr_packetizer s),
     input_data = pk_held_data (cr_packetizer s),
     input_valid = pk_output_valid m (packetizer_wires i s) (cr_packetizer s),
     input_last = pk_output_last m (packetizer_wires i s) (cr_packetizer s), output_ready = ci_tready i\<rparr>"

definition selected_ready :: "nat \<Rightarrow> core_in \<Rightarrow> core \<Rightarrow> bool" where
  "selected_ready m i s = (if bypass_tpiu i then demux_ready m i s else dx_input_ready (cr_demux s))"

definition core_clock :: "nat \<Rightarrow> nat \<Rightarrow> core_in \<Rightarrow> core \<Rightarrow> core" where
  "core_clock m ic i s =
     \<lparr>cr_demux = demux_clock (demux_wires m i s) (cr_demux s),
      cr_packetizer = pk_clock m ic (packetizer_wires i s) (cr_packetizer s),
      cr_encoder = encoder_clock m (encoder_wires m i s) (cr_encoder s)\<rparr>"

text \<open>
  The byte taken from the source at an edge; and what crosses each boundary in a run: bytes from the source,
  bytes with their channel into the packetizer, transfers to the engine, bytes sent.
\<close>

definition core_taken :: "nat \<Rightarrow> core_in \<Rightarrow> core \<Rightarrow> bytes" where
  "core_taken m i s = (if snd (mux_output i) \<and> selected_ready m i s then [fst (mux_output i)] else [])"

fun core_run :: "nat \<Rightarrow> nat \<Rightarrow> core \<Rightarrow> core_in list \<Rightarrow>
    bytes \<times> (7 word \<times> u8) list \<times> transfer list \<times> bytes \<times> core" where
  "core_run m ic s [] = ([], [], [], [], s)"
| "core_run m ic s (i # is) =
     (case core_run m ic (core_clock m ic i s) is of
        (ins, chan, transfers, outs, s') \<Rightarrow>
          (core_taken m i s @ ins, pk_taken m (packetizer_wires i s) (cr_packetizer s) @ chan,
           taken (encoder_wires m i s) (cr_encoder s) @ transfers,
           given (encoder_wires m i s) (cr_encoder s) @ outs, s'))"

definition core_reset :: "core \<Rightarrow> core" where
  "core_reset s = \<lparr>cr_demux = demux_reset (cr_demux s), cr_packetizer = pk_reset (cr_packetizer s),
     cr_encoder = encoder_reset (cr_encoder s)\<rparr>"

lemma core_reset_edge: "\<not> ci_reset_n i \<Longrightarrow> core_clock m ic i s = core_reset s"
  by (simp add: core_clock_def core_reset_def demux_clock_def pk_clock_def encoder_clock_def demux_wires_def
      packetizer_wires_def encoder_wires_def)

text \<open>Only the selected source is told that its byte is taken.\<close>

lemma mux_ready_selected:
  "mux_ready i True = (ci_source_select i = 0, ci_source_select i \<in> {1, 2}, ci_source_select i \<notin> {0, 1, 2})"
  "mux_ready i False = (False, False, False)"
  by (auto simp: mux_ready_def)

section \<open>A run of the whole is a run of each module\<close>

fun core_wires :: "nat \<Rightarrow> nat \<Rightarrow> (core_in \<Rightarrow> core \<Rightarrow> 'w) \<Rightarrow> core \<Rightarrow> core_in list \<Rightarrow> 'w list" where
  "core_wires m ic f s [] = []"
| "core_wires m ic f s (i # is) = f i s # core_wires m ic f (core_clock m ic i s) is"

lemma core_wires_all: "(\<And>i s. i \<in> set is \<Longrightarrow> P (f i s)) \<Longrightarrow> \<forall>x \<in> set (core_wires m ic f s is). P x"
  by (induction "is" arbitrary: s) simp_all

text \<open>The packetizer hands its bytes to the engine, in every mode.\<close>

lemma handed_on: "pk_given m (packetizer_wires i s) (cr_packetizer s) = taken (encoder_wires m i s) (cr_encoder s)"
proof -
  have "pi_ready (packetizer_wires i s) = input_ready (cr_encoder s)" by (simp add: packetizer_wires_def)
  then show ?thesis by (simp add: pk_given_def taken_def encoder_wires_def)
qed

lemma demux_hands_on:
  assumes "\<not> bypass_tpiu i"
  shows "dx_given (demux_wires m i s) (cr_demux s) = pk_taken m (packetizer_wires i s) (cr_packetizer s)"
    "dx_taken (demux_wires m i s) (cr_demux s) = core_taken m i s"
proof -
  have "pi_valid (packetizer_wires i s) = dx_output_valid (cr_demux s)" "pi_channel (packetizer_wires i s) = dx_channel (cr_demux s)"
    "pi_data (packetizer_wires i s) = dx_unmangled (cr_demux s)" using assms by (simp_all add: packetizer_wires_def)
  then show "dx_given (demux_wires m i s) (cr_demux s) = pk_taken m (packetizer_wires i s) (cr_packetizer s)"
    by (simp add: dx_given_def pk_taken_def demux_wires_def demux_ready_def)
  show "dx_taken (demux_wires m i s) (cr_demux s) = core_taken m i s"
    using assms by (simp add: demux_wires_def dx_taken_def core_taken_def selected_ready_def)
qed

lemma bypass_hands_on:
  assumes "bypass_tpiu i"
  shows "pk_taken m (packetizer_wires i s) (cr_packetizer s) = map (Pair 1) (core_taken m i s)"
proof -
  have "pi_valid (packetizer_wires i s) = snd (mux_output i)" "pi_channel (packetizer_wires i s) = 1"
    "pi_data (packetizer_wires i s) = fst (mux_output i)" using assms by (simp_all add: packetizer_wires_def)
  then show ?thesis using assms by (simp add: pk_taken_def core_taken_def selected_ready_def demux_ready_def)
qed

lemma core_run_demux:
  "core_run m ic s is = (ins, chan, transfers, outs, s') \<Longrightarrow> \<forall>i \<in> set is. \<not> bypass_tpiu i \<Longrightarrow>
   demux_run (cr_demux s) (core_wires m ic (demux_wires m) s is) = (ins, chan, cr_demux s')"
proof (induction "is" arbitrary: s ins chan transfers outs)
  case (Cons i "is")
  have "cr_demux (core_clock m ic i s) = demux_clock (demux_wires m i s) (cr_demux s)" by (simp add: core_clock_def)
  then show ?case using Cons.prems Cons.IH [of "core_clock m ic i s"] demux_hands_on [of i m s]
    by (auto split: prod.splits)
qed simp

lemma core_run_bypass:
  "core_run m ic s is = (ins, chan, transfers, outs, s') \<Longrightarrow> \<forall>i \<in> set is. bypass_tpiu i \<Longrightarrow> chan = map (Pair 1) ins"
proof (induction "is" arbitrary: s ins chan transfers outs)
  case (Cons i "is")
  then show ?case using bypass_hands_on [of i m s] by (auto split: prod.splits)
qed simp

lemma core_run_append: "core_run m ic s (is @ js) =
    (case core_run m ic s is of (ins, chan, transfers, outs, s') \<Rightarrow>
       case core_run m ic s' js of (ins', chan', transfers', outs', s'') \<Rightarrow>
         (ins @ ins', chan @ chan', transfers @ transfers', outs @ outs', s''))"
  by (induction "is" arbitrary: s) (simp_all split: prod.split)

section \<open>The invariant\<close>

definition dx_ok :: "demux_regs \<Rightarrow> bool" where
  "dx_ok s \<longleftrightarrow> (dx_emitting s \<longrightarrow> dx_emit s < 15)"

lemma dx_ok_clock: "dx_ok s \<Longrightarrow> dx_ok (demux_clock i s)"
  by (auto simp: dx_ok_def demux_clock_def demux_reset_def dx_slot_def dx_take_def dx_resync_def dx_input_ready_def Let_def)

definition core_inv :: "nat \<Rightarrow> nat \<Rightarrow> core \<Rightarrow> ghost \<Rightarrow> (7 word \<times> u8) list \<Rightarrow> transfer list \<Rightarrow> bytes \<Rightarrow> bool" where
  "core_inv m ic s g chan transfers outs \<longleftrightarrow> dx_ok (cr_demux s) \<and> pk_inv m ic (cr_packetizer s) chan transfers
     \<and> encoder_inv m (cr_encoder s) g transfers outs"

lemma core_inv_step:
  assumes "0 < m" "0 < ic" "ci_reset_n i" "core_inv m ic s g chan transfers outs"
  shows "core_inv m ic (core_clock m ic i s) (next_ghost m (encoder_wires m i s) (cr_encoder s) g)
    (chan @ pk_taken m (packetizer_wires i s) (cr_packetizer s))
    (transfers @ taken (encoder_wires m i s) (cr_encoder s))
    (outs @ given (encoder_wires m i s) (cr_encoder s))"
proof -
  have "pi_reset_n (packetizer_wires i s)" "reset_n (encoder_wires m i s)"
    using assms(3) by (simp_all add: packetizer_wires_def encoder_wires_def)
  then show ?thesis
    using assms pk_inv_step [of m ic "packetizer_wires i s" "cr_packetizer s" chan transfers]
      encoder_inv_step [of m "encoder_wires m i s" "cr_encoder s" g transfers outs]
    by (simp add: core_inv_def core_clock_def dx_ok_clock handed_on)
qed

lemma core_inv_run:
  "0 < m \<Longrightarrow> 0 < ic \<Longrightarrow> \<forall>i \<in> set is. ci_reset_n i \<Longrightarrow> core_inv m ic s g chan transfers outs \<Longrightarrow>
   core_run m ic s is = (ins, chan', transfers', outs', s') \<Longrightarrow>
   \<exists>g'. core_inv m ic s' g' (chan @ chan') (transfers @ transfers') (outs @ outs')"
proof (induction "is" arbitrary: s g chan transfers outs ins chan' transfers' outs')
  case (Cons i "is")
  show ?case
    using Cons.prems(5) Cons.IH [OF Cons.prems(1,2) _ core_inv_step [OF Cons.prems(1,2) _ Cons.prems(4)]] Cons.prems(3)
    by (fastforce split: prod.splits)
qed auto

lemma core_inv_reset: "0 < m \<Longrightarrow> core_inv m ic (core_reset s) \<lparr>g_queue = [], g_cur = [], g_done = []\<rparr> [] [] []"
  by (simp add: core_inv_def core_reset_def pk_inv_reset encoder_inv_reset) (simp add: dx_ok_def demux_reset_def)

section \<open>Settling\<close>

text \<open>No more comes in, and the consumer takes what is sent.\<close>

definition core_quiet :: "core_in \<Rightarrow> bool" where
  "core_quiet i \<longleftrightarrow> ci_reset_n i \<and> \<not> ci_reset_sync i \<and> \<not> snd (mux_output i) \<and> ci_tready i"

text \<open>The bytes that have to reach the engine yet, and the work that goes on while none does.\<close>

definition dx_slots :: "demux_regs \<Rightarrow> nat" where
  "dx_slots s = (if dx_emitting s then 15 - dx_emit s else 0)"

definition to_pass :: "core_in \<Rightarrow> core \<Rightarrow> nat" where
  "to_pass i s = 2 * (if bypass_tpiu i then 0 else dx_slots (cr_demux s)) + of_bool (pk_held (cr_packetizer s))"

definition core_work :: "core \<Rightarrow> ghost \<Rightarrow> nat" where
  "core_work s g = work (cr_encoder s) g + pk_work (cr_packetizer s)"

lemma dx_quiet_step:
  assumes "dx_ok s" "dx_reset_n i" "\<not> dx_reset_sync i" "\<not> dx_valid i"
  shows "if dx_emitting s \<and> (dx_is_id s \<or> dx_channel s = 0 \<or> dx_ready i)
    then dx_slots (demux_clock i s) < dx_slots s else demux_clock i s = s"
  using assms by (auto simp: dx_ok_def demux_clock_def dx_resync_def dx_take_def dx_slot_def dx_slots_def Let_def)

lemma pk_step_cases:
  assumes "pi_reset_n i"
  obtains (send) "pk_output_valid m i s" "pi_ready i" "pk_held s" "pk_held (pk_clock m ic i s) = pi_valid i"
      "pi_valid i \<Longrightarrow> pk_input_ready m i s"
    | (fill) "\<not> pk_held s" "pi_valid i" "pk_held (pk_clock m ic i s)" "pk_input_ready m i s"
    | (wait) "pk_given m i s = []" "pk_clock m ic i s = pk_countdown s" "pk_held s \<or> \<not> pi_valid i"
proof -
  consider "pk_output_valid m i s \<and> pi_ready i" | "\<not> (pk_output_valid m i s \<and> pi_ready i)" "\<not> pk_held s \<and> pi_valid i"
    | "\<not> (pk_output_valid m i s \<and> pi_ready i)" "\<not> (\<not> pk_held s \<and> pi_valid i)" by blast
  then show ?thesis
  proof cases
    case 1
    then show ?thesis using assms that(1) by (simp add: pk_clock_def Let_def pk_output_valid_def pk_input_ready_def)
  next
    case 2
    then show ?thesis using assms that(2) by (simp add: pk_clock_def Let_def pk_input_ready_def)
  next
    case 3
    then have "pk_clock m ic i s = pk_countdown s" using assms by (auto simp: pk_clock_def Let_def)
    then show ?thesis using 3 that(3) by (auto simp: pk_given_def)
  qed
qed

lemma pk_countdown_work: "pk_held (pk_countdown s) = pk_held s" "pk_work (pk_countdown s) \<le> pk_work s"
  "pk_held s \<Longrightarrow> \<not> pk_end_pending s \<Longrightarrow> 0 < pk_idle s \<Longrightarrow> pk_work (pk_countdown s) < pk_work s"
  by (auto simp: pk_countdown_def pk_work_def Let_def)

lemma settle_step:
  assumes "0 < m" "core_quiet i" "core_inv m ic s g chan transfers outs"
  defines "s' \<equiv> core_clock m ic i s" and "g' \<equiv> next_ghost m (encoder_wires m i s) (cr_encoder s) g"
  shows "to_pass i s' < to_pass i s \<or> to_pass i s' = to_pass i s \<and> core_work s' g' < core_work s g
    \<or> to_pass i s = 0 \<and> core_work s g = 0"
proof -
  let ?pi = "packetizer_wires i s" and ?pk = "cr_packetizer s" and ?dx = "cr_demux s" and ?dxi = "demux_wires m i s"
  have q: "ci_reset_n i" "\<not> ci_reset_sync i" "\<not> snd (mux_output i)" "ci_tready i" using assms(2) by (simp_all add: core_quiet_def)
  have inv: "dx_ok ?dx" "pk_inv m ic ?pk chan transfers" "encoder_inv m (cr_encoder s) g transfers outs"
    using assms(3) by (simp_all add: core_inv_def)
  have parts: "cr_demux s' = demux_clock ?dxi ?dx" "cr_packetizer s' = pk_clock m ic ?pi ?pk"
    "cr_encoder s' = encoder_clock m (encoder_wires m i s) (cr_encoder s)" by (simp_all add: s'_def core_clock_def)
  have valid: "pi_valid ?pi \<longleftrightarrow> \<not> bypass_tpiu i \<and> dx_output_valid ?dx" using q(3) by (simp add: packetizer_wires_def)
  have wires: "dx_reset_n ?dxi" "\<not> dx_reset_sync ?dxi" "\<not> dx_valid ?dxi" "dx_ready ?dxi = demux_ready m i s"
    using q by (simp_all add: demux_wires_def)
  have dx: "if dx_emitting ?dx \<and> (dx_is_id ?dx \<or> dx_channel ?dx = 0 \<or> demux_ready m i s)
      then dx_slots (cr_demux s') < dx_slots ?dx else cr_demux s' = ?dx"
    using dx_quiet_step [OF inv(1) wires(1-3)] unfolding parts wires .
  have slots: "dx_slots (cr_demux s') \<le> dx_slots ?dx" using dx by (auto split: if_splits)
  have moves: "dx_slots (cr_demux s') < dx_slots ?dx" if "pi_valid ?pi" "pk_input_ready m ?pi ?pk"
    using dx that valid by (simp add: demux_ready_def dx_output_valid_def)
  have "pi_reset_n ?pi" using q by (simp add: packetizer_wires_def)
  then show ?thesis
  proof (cases rule: pk_step_cases [where m = m and ic = ic and s = ?pk])
    case send
    then show ?thesis using moves slots valid by (cases "pi_valid ?pi") (auto simp: to_pass_def parts(2))
  next
    case fill
    then show ?thesis using moves valid by (auto simp: to_pass_def parts(2))
  next
    case wait
    have same: "pk_held (cr_packetizer s') = pk_held ?pk" "pk_work (cr_packetizer s') \<le> pk_work ?pk"
      by (simp_all add: parts(2) wait(2) pk_countdown_work)
    show ?thesis
    proof (cases "to_pass i s' = to_pass i s")
      case False
      then show ?thesis using slots same by (auto simp: to_pass_def split: if_splits)
    next
      case True
      have "taken (encoder_wires m i s) (cr_encoder s) = []" using wait(1) handed_on [of m i s] by simp
      then have "\<not> accepts (encoder_wires m i s) (cr_encoder s)" by (simp add: taken_accepts split: if_splits)
      moreover have "reset_n (encoder_wires m i s)" "output_ready (encoder_wires m i s)" using q by (simp_all add: encoder_wires_def)
      ultimately have w: "work (cr_encoder s') g' \<le> work (cr_encoder s) g - 1"
        using work_step [OF assms(1) _ _ _ inv(3)] unfolding parts g'_def by blast
      show ?thesis
      proof (cases "work (cr_encoder s) g = 0")
        case False
        then show ?thesis using w same True by (simp add: core_work_def)
      next
        case idle: True
        then have ready: "input_ready (cr_encoder s)" using busy_works [OF inv(3)] by auto
        then have "pi_ready ?pi" by (simp add: packetizer_wires_def)
        then have "\<not> pk_output_valid m ?pi ?pk" using wait(1) by (simp add: pk_given_def split: if_splits)
        show ?thesis
        proof (cases "pk_held ?pk")
          case held: True
          then have "\<not> pk_end_pending ?pk" using \<open>\<not> pk_output_valid m ?pi ?pk\<close> by (simp add: pk_output_valid_def)
          moreover from this have "0 < pk_idle ?pk" using inv(2) held by (simp add: pk_inv_def pk_registers_ok_def)
          ultimately have "pk_work (cr_packetizer s') < pk_work ?pk"
            using held by (simp add: parts(2) wait(2) pk_countdown_work)
          then show ?thesis using w True by (simp add: core_work_def)
        next
          case False
          then have "demux_ready m i s" by (simp add: demux_ready_def pk_input_ready_def)
          then have "to_pass i s = 0" using dx True False same by (auto simp: to_pass_def dx_slots_def split: if_splits)
          then show ?thesis using idle False by (simp add: core_work_def pk_work_def)
        qed
      qed
    qed
  qed
qed

lemma settle:
  assumes "0 < m" "0 < ic" "core_quiet i" "core_inv m ic s g chan transfers outs"
  shows "\<exists>n chan' transfers' outs' s' g'. core_run m ic s (replicate n i) = ([], chan', transfers', outs', s')
    \<and> core_inv m ic s' g' (chan @ chan') (transfers @ transfers') (outs @ outs')
    \<and> to_pass i s' = 0 \<and> core_work s' g' = 0"
  using assms(4)
proof (induction "(to_pass i s, core_work s g)" arbitrary: s g chan transfers outs
    rule: wf_induct_rule [OF wf_lex_prod [OF wf_less_than wf_less_than]])
  case (1 s g chan transfers outs)
  show ?case
  proof (cases "to_pass i s = 0 \<and> core_work s g = 0")
    case True
    have "core_run m ic s (replicate 0 i) = ([], [], [], [], s)" by simp
    with True 1(2) show ?thesis by (metis append_Nil2)
  next
    case False
    let ?t = "core_clock m ic i s" and ?h = "next_ghost m (encoder_wires m i s) (cr_encoder s) g"
    have "((to_pass i ?t, core_work ?t ?h), (to_pass i s, core_work s g)) \<in> less_than <*lex*> less_than"
      using settle_step [OF assms(1,3) 1(2)] False by auto
    moreover have "ci_reset_n i" using assms(3) by (simp add: core_quiet_def)
    ultimately obtain n chan' transfers' outs' s' g' where
      "core_run m ic ?t (replicate n i) = ([], chan', transfers', outs', s')"
      "core_inv m ic s' g' ((chan @ pk_taken m (packetizer_wires i s) (cr_packetizer s)) @ chan')
         ((transfers @ taken (encoder_wires m i s) (cr_encoder s)) @ transfers')
         ((outs @ given (encoder_wires m i s) (cr_encoder s)) @ outs')"
      "to_pass i s' = 0" "core_work s' g' = 0"
      using 1(1) [OF _ core_inv_step [OF assms(1,2) _ 1(2)]] by blast
    moreover have "core_taken m i s = []" using assms(3) by (simp add: core_taken_def core_quiet_def)
    ultimately show ?thesis by (intro exI [of _ "Suc n"]) auto
  qed
qed

section \<open>What leaves the module\<close>

text \<open>All that has settled has left, in frames of one channel and at most \<open>m\<close> bytes.\<close>

lemma settled_frames:
  assumes "core_inv m ic s g chan transfers outs" "\<not> pk_held (cr_packetizer s)" "core_work s g = 0"
  shows "concat (map (\<lambda>(c, p). map (MuxedByte c) p) (valid_frames outs)) = map mux_of chan"
    "\<forall>f \<in> set (valid_frames outs). 0 < length (snd f) \<and> length (snd f) \<le> m"
    "\<not> overrun (cr_encoder s)" "dropped_bytes (cr_encoder s) = 0"
    "received_bytes (cr_encoder s) = of_nat (length chan)"
proof -
  have pk: "chan = unpacked transfers" "list_all (good_packet m) (fst (packets transfers))" "snd (packets transfers) = []"
    using assms(1,2) by (simp_all add: core_inv_def pk_inv_def pk_holding_def pk_registers_ok_def)
  let ?ps = "fst (packets transfers)"
  have enc: "encoder_inv m (cr_encoder s) g transfers outs" "work (cr_encoder s) g = 0"
    using assms(1,3) by (simp_all add: core_inv_def core_work_def)
  have size: "p \<noteq> [] \<and> length p \<le> m" if "p \<in> set ?ps" for p
    using pk(2) that unfolding list_all_iff good_packet_def by blast
  have short: "filter (\<lambda>p. length p \<le> m) ?ps = ?ps"
    using size by (intro filter_True) blast
  have frames: "valid_frames outs = map (\<lambda>p. (ucast (fst (hd p)), map snd p)) ?ps"
    using work_zero [OF enc] valid_frames_for [of m ?ps] by (simp add: short)
  have one: "map (MuxedByte (ucast (fst (hd p)))) (map snd p) = map mux_of p" if "good_packet m p" for p
    unfolding map_map comp_def mux_of_def using that by (intro map_cong refl) (metis good_packet_def)
  have "map (\<lambda>(c, p). map (MuxedByte c) p) (valid_frames outs) = map (map mux_of) ?ps"
    unfolding frames map_map comp_def prod.case using pk(2) one by (intro map_cong refl) (simp add: list_all_iff)
  then show "concat (map (\<lambda>(c, p). map (MuxedByte c) p) (valid_frames outs)) = map mux_of chan"
    using packets_unpacked [of transfers] pk(1,3) by (simp add: map_concat [symmetric])
  show "\<forall>f \<in> set (valid_frames outs). 0 < length (snd f) \<and> length (snd f) \<le> m"
    unfolding frames using size by auto
  have "overlong m (packets transfers) = []"
    using size pk(3) by (auto simp: overlong_def filter_empty_conv not_less)
  moreover have "length chan = length transfers" by (simp add: pk(1) unpacked_def)
  ultimately show "\<not> overrun (cr_encoder s)" "dropped_bytes (cr_encoder s) = 0"
    "received_bytes (cr_encoder s) = of_nat (length chan)"
    using enc(1) unfolding encoder_inv_def counters_ok_def by simp_all
qed

lemma core_settles:
  assumes "0 < m" "0 < ic" "\<forall>i \<in> set is. ci_reset_n i" "core_quiet q"
    "core_run m ic (core_reset s0) is = (ins, chan, transfers, outs, s)"
  obtains n chan' transfers' outs' s' g where
    "core_run m ic (core_reset s0) (is @ replicate n q) = (ins, chan', transfers', outs', s')"
    "core_inv m ic s' g chan' transfers' outs'" "to_pass q s' = 0" "core_work s' g = 0"
proof -
  obtain g where "core_inv m ic s g chan transfers outs"
    using core_inv_run [OF assms(1-3) core_inv_reset [OF assms(1)] assms(5)] by auto
  from settle [OF assms(1,2,4) this] obtain n chan' transfers' outs' s' g' where
    "core_run m ic s (replicate n q) = ([], chan', transfers', outs', s')"
    "core_inv m ic s' g' (chan @ chan') (transfers @ transfers') (outs @ outs')" "to_pass q s' = 0" "core_work s' g' = 0"
    by blast
  with assms(5) show ?thesis by (intro that [of n]) (simp_all add: core_run_append)
qed

lemma core_delivered:
  assumes "0 < m" and "0 < ic" and "core_quiet q"
    and "\<forall>i \<in> set (q # is). ci_reset_n i \<and> \<not> ci_reset_sync i \<and> \<not> bypass_tpiu i \<and> (ci_source_select i = 0 \<longrightarrow> m3)"
    and "core_run m ic (core_reset s0) is = (pre @ true_sync @ concat (map pack_frame fs), chan, transfers, outs, s)"
    and "\<not> sublist true_sync (pre @ [0xff, 0xff, 0xff])" and "list_all valid_slots fs"
    and "m3 \<longrightarrow> list_all m3_frame fs"
  shows "\<exists>n outs' s'. fst (snd (snd (snd (core_run m ic (core_reset s0) (is @ replicate n q))))) = outs'
    \<and> snd (snd (snd (snd (core_run m ic (core_reset s0) (is @ replicate n q))))) = s'
    \<and> concat (map (\<lambda>(c, p). map (MuxedByte c) p) (valid_frames outs')) = snd (demux_frames (0, None) fs)
    \<and> (\<forall>f \<in> set (valid_frames outs'). 0 < length (snd f) \<and> length (snd f) \<le> m)
    \<and> \<not> overrun (cr_encoder s') \<and> dropped_bytes (cr_encoder s') = 0"
proof -
  have resets: "\<forall>i \<in> set is. ci_reset_n i" and open_mode: "\<not> bypass_tpiu q" using assms(4) by simp_all
  obtain n chan' transfers' outs' s' g where run:
    "core_run m ic (core_reset s0) (is @ replicate n q)
       = (pre @ true_sync @ concat (map pack_frame fs), chan', transfers', outs', s')"
    and rest: "core_inv m ic s' g chan' transfers' outs'" "to_pass q s' = 0" "core_work s' g = 0"
    by (rule core_settles [OF assms(1,2) resets assms(3,5)])
  have still: "\<not> dx_emitting (cr_demux s')" "\<not> pk_held (cr_packetizer s')"
    using rest(1,2) open_mode by (auto simp: to_pass_def dx_slots_def core_inv_def dx_ok_def split: if_splits)
  have all: "\<forall>i \<in> set (is @ replicate n q). ci_reset_n i \<and> \<not> ci_reset_sync i \<and> \<not> bypass_tpiu i \<and> (ci_source_select i = 0 \<longrightarrow> m3)"
    using assms(4) by auto
  have "demux_run (demux_reset (cr_demux s0)) (core_wires m ic (demux_wires m) (core_reset s0) (is @ replicate n q))
      = (pre @ true_sync @ concat (map pack_frame fs), chan', cr_demux s')"
    using core_run_demux [OF run] all by (simp add: core_reset_def)
  moreover have "\<forall>x \<in> set (core_wires m ic (demux_wires m) (core_reset s0) (is @ replicate n q)). dx_plain m3 x"
    by (rule core_wires_all, drule all [THEN bspec], simp add: dx_plain_def demux_wires_def)
  ultimately have "\<exists>pend. snd (demux_frames (0, None) fs) = map mux_of chan' @ pend
      \<and> (\<not> dx_emitting (cr_demux s') \<longrightarrow> pend = [])"
    using demux_recovered [OF _ _ refl assms(6-8)] by blast
  then have "snd (demux_frames (0, None) fs) = map mux_of chan'" using still(1) by auto
  with settled_frames [OF rest(1) still(2) rest(3)] run show ?thesis by (intro exI [of _ n]) simp
qed

text \<open>
  Property C2. From the trace port to the host. Let the capture module, after a reset, take from the selected source
  anything up to the first synchronisation packet and then formatter frames, with every stall on both sides. Once
  nothing more comes and the output is taken, the module comes to rest, and the host's reader finds in what it sent,
  frame after frame, exactly the bytes of the formatter frames with their sources, in order; no frame is empty or
  exceeds the payload limit, and nothing is dropped. For the source of the M3 the frames carry its channel only.
\<close>

theorem core_delivers_trace:
  assumes "0 < m" and "0 < ic" and "core_quiet q"
    and "\<forall>i \<in> set (q # is). ci_reset_n i \<and> \<not> ci_reset_sync i \<and> \<not> bypass_tpiu i \<and> (ci_source_select i = 0 \<longrightarrow> m3)"
    and "core_run m ic (core_reset s0) is = (pre @ true_sync @ concat (map pack_frame fs), chan, transfers, outs, s)"
    and "\<not> sublist true_sync (pre @ [0xff, 0xff, 0xff])" and "list_all valid_slots fs"
    and "m3 \<longrightarrow> list_all m3_frame fs"
  shows "\<exists>n outs' s'. fst (snd (snd (snd (core_run m ic (core_reset s0) (is @ replicate n q))))) = outs'
    \<and> snd (snd (snd (snd (core_run m ic (core_reset s0) (is @ replicate n q))))) = s'
    \<and> concat (map (\<lambda>(c, p). map (MuxedByte c) p) (valid_frames outs')) = snd (demux_frames (0, None) fs)
    \<and> (\<forall>f \<in> set (valid_frames outs'). 0 < length (snd f) \<and> length (snd f) \<le> m)
    \<and> \<not> overrun (cr_encoder s') \<and> dropped_bytes (cr_encoder s') = 0"
  using assms by (rule core_delivered)

text \<open>
  A serial source is passed through. With a serial trace format the same holds without the formatter:
  every byte taken from the source reaches the host, in order, on channel 1.
\<close>

theorem core_delivers_serial:
  assumes "0 < m" and "0 < ic" and "core_quiet q"
    and "\<forall>i \<in> set (q # is). ci_reset_n i \<and> bypass_tpiu i"
    and "core_run m ic (core_reset s0) is = (ins, chan, transfers, outs, s)"
  shows "\<exists>n outs' s'. fst (snd (snd (snd (core_run m ic (core_reset s0) (is @ replicate n q))))) = outs'
    \<and> snd (snd (snd (snd (core_run m ic (core_reset s0) (is @ replicate n q))))) = s'
    \<and> concat (map (\<lambda>(c, p). map (Pair c) p) (valid_frames outs')) = map (Pair 1) ins
    \<and> (\<forall>f \<in> set (valid_frames outs'). 0 < length (snd f) \<and> length (snd f) \<le> m)
    \<and> received_bytes (cr_encoder s') = of_nat (length ins) \<and> dropped_bytes (cr_encoder s') = 0"
proof -
  have resets: "\<forall>i \<in> set is. ci_reset_n i" using assms(4) by simp
  obtain n chan' transfers' outs' s' g where run:
    "core_run m ic (core_reset s0) (is @ replicate n q) = (ins, chan', transfers', outs', s')"
    and rest: "core_inv m ic s' g chan' transfers' outs'" "to_pass q s' = 0" "core_work s' g = 0"
    by (rule core_settles [OF assms(1,2) resets assms(3,5)])
  have "\<not> pk_held (cr_packetizer s')" using rest(2) by (simp add: to_pass_def)
  note frames = settled_frames [OF rest(1) this rest(3)]
  have "\<forall>i \<in> set (is @ replicate n q). bypass_tpiu i" using assms(4) by auto
  then have chan: "chan' = map (Pair 1) ins" by (rule core_run_bypass [OF run])
  have "concat (map (\<lambda>(c, p). map (Pair c) p) (valid_frames outs')) = map (\<lambda>b. (mux_channel b, mux_data b))
      (concat (map (\<lambda>(c, p). map (MuxedByte c) p) (valid_frames outs')))"
    by (simp add: map_concat comp_def case_prod_unfold)
  also have "\<dots> = map (Pair 1) ins" unfolding frames(1) chan by (simp add: mux_of_def)
  finally show ?thesis using frames run chan by (intro exI [of _ n]) simp
qed

text \<open>
  The parameters the module sets: a payload of 8192 bytes, whose frames stay within the 8228 bytes that its
  comment counts on.
\<close>

lemma full_frame_length:
  assumes "length p \<le> ORBFLOW_PAYLOAD"
  shows "length (packet_frame p) \<le> 8228"
proof -
  let ?raw = "append_checksum (ucast (fst (hd p)) # map snd p)"
  have "length ?raw \<le> 8194" using assms by (simp add: append_checksum_def ORBFLOW_PAYLOAD_def)
  moreover from this have "length ?raw div 254 \<le> 32" by linarith
  ultimately show ?thesis
    using length_cobs_encode [of ?raw] by (simp add: packet_frame_def frame_body_def)
qed

text \<open>The test input with one frame of source 2, and two serial bytes, with packets of at most four bytes.\<close>

definition test_edge :: "3 word \<Rightarrow> u8 \<Rightarrow> bool \<Rightarrow> core_in" where
  "test_edge format b valid = \<lparr>ci_reset_n = True, ci_source_select = 3, ci_trace_format = format, ci_reset_sync = False,
     ci_m3_data = 0, ci_m3_valid = False, ci_coresight_data = 0, ci_coresight_valid = False,
     ci_test_data = b, ci_test_valid = valid, ci_tready = True\<rparr>"

definition blank_core :: core where
  "blank_core = \<lparr>cr_demux = blank_regs, cr_packetizer = pk_blank, cr_encoder = dark\<rparr>"

definition core_sample :: "core_in list" where
  "core_sample = map (\<lambda>b. test_edge 0 b True) (true_sync @ pack_frame sample_slots)"

lemma test_edge_quiet: "core_quiet (test_edge format 0 False)"
  by (simp add: core_quiet_def test_edge_def mux_output_def)

lemma core_sample_taken: "fst (core_run 4 2 (core_reset blank_core) core_sample) = true_sync @ pack_frame sample_slots"
  by code_simp

theorem core_delivers_trace_witness:
  "\<exists>n. concat (map (\<lambda>(c, p). map (MuxedByte c) p) (valid_frames (fst (snd (snd (snd
     (core_run 4 2 (core_reset blank_core) (core_sample @ replicate n (test_edge 0 0 False)))))))))
   = snd (demux_frames (0, None) [sample_slots])"
proof -
  obtain ins chan transfers outs s where run: "core_run 4 2 (core_reset blank_core) core_sample = (ins, chan, transfers, outs, s)"
    by (metis prod_cases5)
  have ins: "ins = [] @ true_sync @ concat (map pack_frame [sample_slots])" using core_sample_taken run by simp
  have edges: "\<forall>i \<in> set (test_edge 0 0 False # core_sample). ci_reset_n i \<and> \<not> ci_reset_sync i \<and> \<not> bypass_tpiu i
      \<and> (ci_source_select i = 0 \<longrightarrow> False)"
    by (auto simp: core_sample_def test_edge_def bypass_tpiu_def)
  have "\<not> sublist true_sync ([] @ [0xff, 0xff, 0xff])" "list_all valid_slots [sample_slots]" by code_simp+
  from core_delivers_trace [OF _ _ test_edge_quiet edges run [unfolded ins] this] show ?thesis by auto
qed

theorem core_delivers_serial_witness:
  "\<exists>n ins. concat (map (\<lambda>(c, p). map (Pair c) p) (valid_frames (fst (snd (snd (snd
     (core_run 4 2 (core_reset blank_core) (map (\<lambda>b. test_edge 3 b True) [7, 0] @ replicate n (test_edge 3 0 False)))))))))
   = map (Pair 1) ins \<and> ins = [7, 0]"
proof -
  let ?is = "map (\<lambda>b. test_edge 3 b True) [7, 0]"
  obtain ins chan transfers outs s where run: "core_run 4 2 (core_reset blank_core) ?is = (ins, chan, transfers, outs, s)"
    by (metis prod_cases5)
  have "fst (core_run 4 2 (core_reset blank_core) ?is) = [7, 0]" by code_simp
  then have ins: "ins = [7, 0]" using run by simp
  have edges: "\<forall>i \<in> set (test_edge 3 0 False # ?is). ci_reset_n i \<and> bypass_tpiu i"
    by (simp add: test_edge_def bypass_tpiu_def)
  from core_delivers_serial [OF _ _ test_edge_quiet edges run] show ?thesis unfolding ins by auto
qed

end
