(* ===== verification/Control.thy ===== *)
theory Control
  imports Cobs
begin

text \<open>
  The control protocol of \<open>applications/orbtrace/model/src/lib.rs\<close>: the enumerations
  \<open>Source\<close> and \<open>TraceFormat\<close> with their \<open>TryFrom<u8>\<close>, the commands with
  \<open>Command::encode\<close> and \<open>Command::decode\<close>, the length prefix of the TCP framing
  (\<open>length_frame\<close>, \<open>length_unframe\<close>) and the statistics block (\<open>stats_from_le\<close>).
\<close>

section \<open>Constants\<close>

definition protocol_version :: u16 where "protocol_version = 1"
definition max_control_payload :: nat where "max_control_payload = 4096"
definition max_dap_packet :: nat where "max_dap_packet = 1024"
definition m3_bram_size :: nat where "m3_bram_size = 0x10000"
definition m3_bram_chunk :: nat where "m3_bram_chunk = 2048"

section \<open>Enumerations\<close>

datatype source = CortexM3 | R5 | A53 | Test

fun source_u8 :: "source \<Rightarrow> u8" where
  "source_u8 CortexM3 = 0"
| "source_u8 R5 = 1"
| "source_u8 A53 = 2"
| "source_u8 Test = 3"

definition source_try_from :: "u8 \<Rightarrow> protocol_error + source" where
  "source_try_from value =
     (if value = 0 then Inr CortexM3
      else if value = 1 then Inr R5
      else if value = 2 then Inr A53
      else if value = 3 then Inr Test
      else Inl (InvalidValue ''source''))"

datatype trace_format = Tpiu1 | Tpiu2 | Tpiu4 | SwoNrz | SwoManchester

fun trace_format_u8 :: "trace_format \<Rightarrow> u8" where
  "trace_format_u8 Tpiu1 = 0"
| "trace_format_u8 Tpiu2 = 1"
| "trace_format_u8 Tpiu4 = 2"
| "trace_format_u8 SwoNrz = 3"
| "trace_format_u8 SwoManchester = 4"

definition trace_format_try_from :: "u8 \<Rightarrow> protocol_error + trace_format" where
  "trace_format_try_from value =
     (if value = 0 then Inr Tpiu1
      else if value = 1 then Inr Tpiu2
      else if value = 2 then Inr Tpiu4
      else if value = 3 then Inr SwoNrz
      else if value = 4 then Inr SwoManchester
      else Inl (InvalidValue ''format''))"

lemma source_try_from_u8 [simp, roundtrips]: "source_try_from (source_u8 s) = Inr s"
  by (cases s) (simp_all add: source_try_from_def)

lemma trace_format_try_from_u8 [simp, roundtrips]:
  "trace_format_try_from (trace_format_u8 f) = Inr f"
  by (cases f) (simp_all add: trace_format_try_from_def)

lemma source_try_from_Inr: "source_try_from b = Inr s \<longleftrightarrow> b = source_u8 s"
  by (cases s) (auto simp: source_try_from_def)

lemma trace_format_try_from_Inr: "trace_format_try_from b = Inr f \<longleftrightarrow> b = trace_format_u8 f"
  by (cases f) (auto simp: trace_format_try_from_def)

section \<open>Commands\<close>

datatype command =
    GetInfo
  | Configure source trace_format u32
  | Start
  | Stop
  | Reset
  | GetStats
  | LoadM3Chunk u32 bytes
  | ReadM3Bram u32 u16
  | M3Control u8

definition command_encode :: "command \<Rightarrow> bytes" where
  "command_encode c = u16_le protocol_version @
     (case c of
        GetInfo \<Rightarrow> [1]
      | Configure src format swo_baud \<Rightarrow> [2, source_u8 src, trace_format_u8 format] @ u32_le swo_baud
      | Start \<Rightarrow> [3]
      | Stop \<Rightarrow> [4]
      | Reset \<Rightarrow> [5]
      | GetStats \<Rightarrow> [6]
      | LoadM3Chunk offset data \<Rightarrow> [7] @ u32_le offset @ data
      | ReadM3Bram offset len \<Rightarrow> [8] @ u32_le offset @ u16_le len
      | M3Control bits \<Rightarrow> [9, bits])"

definition command_decode :: "bytes \<Rightarrow> protocol_error + command" where
  "command_decode bs =
     (if length bs < 3 then Inl Short
      else let version = from_le [bs ! 0, bs ! 1] :: u16; opcode = bs ! 2
      in if version \<noteq> protocol_version then Inl (BadVersion version)
      else if opcode = 1 then Inr GetInfo
      else if opcode = 2 \<and> length bs = 9 then
        bind_res (source_try_from (bs ! 3)) (\<lambda>src.
        bind_res (trace_format_try_from (bs ! 4)) (\<lambda>format.
        Inr (Configure src format (from_le (slice_of 5 9 bs)))))
      else if opcode = 2 then Inl Short
      else if opcode = 3 then Inr Start
      else if opcode = 4 then Inr Stop
      else if opcode = 5 then Inr Reset
      else if opcode = 6 then Inr GetStats
      else if opcode = 7 \<and> length bs \<ge> 7 then
        Inr (LoadM3Chunk (from_le (slice_of 3 7 bs)) (drop 7 bs))
      else if opcode = 7 then Inl Short
      else if opcode = 8 \<and> length bs = 9 then
        Inr (ReadM3Bram (from_le (slice_of 3 7 bs)) (from_le (slice_of 7 9 bs)))
      else if opcode = 8 then Inl Short
      else if opcode = 9 \<and> length bs = 4 then Inr (M3Control (bs ! 3))
      else if opcode = 9 then Inl Short
      else Inl (UnknownCommand opcode))"

lemma u16_le_1 [simp]: "u16_le 1 = [1, 0]"
  by (simp add: to_le_def upt_rec)

lemma list_of_length_2: "length xs = 2 \<Longrightarrow> \<exists>a b. xs = [a, b]"
  by (cases xs; cases "tl xs") auto

lemma list_of_length_4: "length xs = 4 \<Longrightarrow> \<exists>a b c d. xs = [a, b, c, d]"
  by (auto simp: length_Suc_conv eval_nat_numeral)

lemma u32_le_cases: obtains a b c d where "u32_le w = [a, b, c, d]"
  using list_of_length_4 [of "u32_le w"] by auto

lemma u16_le_cases: obtains a b where "u16_le w = [a, b]"
  using list_of_length_2 [of "u16_le w"] by auto

lemma from_le_1_0 [simp]: "(from_le [1, 0] :: u16) = 1"
  by (simp add: from_le_Cons)

lemmas command_codec_defs = command_encode_def command_decode_def protocol_version_def Let_def

lemma command_roundtrip: "command_decode (command_encode c) = Inr c"
proof (cases c)
  case (Configure s f w)
  obtain a b c' d where w: "u32_le w = [a, b, c', d]" by (rule u32_le_cases)
  have "from_le [a, b, c', d] = w"
    using w from_le_to_le [where w = w and n = 4] by simp
  then show ?thesis
    using Configure w by (simp add: command_codec_defs slice_of_def)
next
  case (LoadM3Chunk w data)
  obtain a b c' d where w: "u32_le w = [a, b, c', d]" by (rule u32_le_cases)
  have "from_le [a, b, c', d] = w"
    using w from_le_to_le [where w = w and n = 4] by simp
  then show ?thesis
    using LoadM3Chunk w by (simp add: command_codec_defs slice_of_def)
next
  case (ReadM3Bram w l)
  obtain a b c' d where w: "u32_le w = [a, b, c', d]" by (rule u32_le_cases)
  obtain x y where l: "u16_le l = [x, y]" by (rule u16_le_cases)
  have "from_le [a, b, c', d] = w" "from_le [x, y] = l"
    using w l from_le_to_le [where w = w and n = 4] from_le_to_le [where w = l and n = 2]
    by simp_all
  then show ?thesis
    using ReadM3Bram w l by (simp add: command_codec_defs slice_of_def)
qed (simp_all add: command_codec_defs)

text \<open>The decoder accepts, besides encodings, the field-free commands with bytes behind them.\<close>

definition bare_command :: "command \<Rightarrow> bool" where
  "bare_command c \<longleftrightarrow> c \<in> {GetInfo, Start, Stop, Reset, GetStats}"

lemma bare_command_decode: "bare_command c \<Longrightarrow> command_decode (command_encode c @ extra) = Inr c"
  by (auto simp: bare_command_def command_codec_defs)

lemma u32_le_from_le [simp]: "u32_le (from_le [a, b, c, d] :: u32) = [a, b, c, d]"
  using to_le_from_le [where bs = "[a, b, c, d]" and n = 4 and 'a = 32] by simp

lemma u16_le_from_le [simp]: "u16_le (from_le [a, b] :: u16) = [a, b]"
  using to_le_from_le [where bs = "[a, b]" and n = 2 and 'a = 16] by simp

lemma from_le_version_iff: "(from_le [a, b] :: u16) = 1 \<longleftrightarrow> a = 1 \<and> b = 0"
proof
  assume "(from_le [a, b] :: u16) = 1"
  then have "u16_le (from_le [a, b] :: u16) = u16_le 1" by (rule arg_cong)
  then show "a = 1 \<and> b = 0" by simp
qed (simp add: from_le_Cons)

text \<open>
  Property C34. What the decoder accepts: a byte string decodes to a command exactly when it is
  the encoding of that command, or that encoding with further bytes behind it for the five
  commands without fields, whose length the code does not check.
\<close>

theorem command_decode_accepts:
  "command_decode bs = Inr c \<longleftrightarrow>
     (\<exists>extra. bs = command_encode c @ extra \<and> (extra = [] \<or> bare_command c))"
proof
  assume dec: "command_decode bs = Inr c"
  then have "3 \<le> length bs"
    by (auto simp: command_decode_def split: if_splits)
  then obtain a b op rest where bs: "bs = a # b # op # rest"
    by (auto simp: numeral_3_eq_3 Suc_le_length_iff)
  have ver: "a = 1" "b = 0"
    using dec by (auto simp: bs command_codec_defs from_le_version_iff split: if_splits)
  have fields: "length rest = 6 \<Longrightarrow> \<exists>p q r s t u. rest = [p, q, r, s, t, u]"
    by (auto simp: length_Suc_conv eval_nat_numeral)
  have chunk: "4 \<le> length rest \<Longrightarrow> \<exists>p q r s t. rest = p # q # r # s # t"
    by (auto simp: eval_nat_numeral Suc_le_length_iff)
  have one: "length rest = 1 \<Longrightarrow> \<exists>p. rest = [p]"
    by (auto simp: length_Suc_conv)
  show "\<exists>extra. bs = command_encode c @ extra \<and> (extra = [] \<or> bare_command c)"
    using dec ver fields chunk one
    by (auto simp: bs command_codec_defs bare_command_def slice_of_def bind_res_eq_Inr
        source_try_from_Inr trace_format_try_from_Inr split: if_splits)
next
  assume "\<exists>extra. bs = command_encode c @ extra \<and> (extra = [] \<or> bare_command c)"
  then show "command_decode bs = Inr c"
    by (auto simp: command_roundtrip bare_command_decode)
qed

section \<open>Length framing\<close>

text \<open>\<open>payload.len() as u32\<close> truncates, which the limits of the callers make irrelevant.\<close>

definition length_frame :: "bytes \<Rightarrow> nat \<Rightarrow> protocol_error + bytes" where
  "length_frame payload maximum =
     (if length payload > maximum then Inl (TooLarge (length payload))
      else Inr (u32_le (of_nat (length payload)) @ payload))"

definition length_unframe :: "bytes \<Rightarrow> nat \<Rightarrow> protocol_error + bytes \<times> nat" where
  "length_unframe bs maximum =
     (if length bs < 4 then Inl Short
      else let len = unat (from_le (take 4 bs) :: u32)
      in if len > maximum then Inl (TooLarge len)
      else if length bs < len + 4 then Inl Short
      else Inr (slice_of 4 (4 + len) bs, len + 4))"

lemma length_frame_eq:
  "length payload \<le> maximum \<Longrightarrow>
   length_frame payload maximum = Inr (u32_le (of_nat (length payload)) @ payload)"
  by (simp add: length_frame_def)

lemma from_le_len_prefix:
  "n < 2 ^ 32 \<Longrightarrow> unat (from_le (u32_le (of_nat n)) :: u32) = n"
  by simp

text \<open>
  Length framing is a prefix code. For every payload up to a limit below
  \<open>2 ^ 32\<close>: unframing the frame with any bytes behind it gives the payload and the
  number of bytes used, and unframing any proper prefix of the frame answers \<open>Short\<close>, so
  a reader that waits for more bytes never misreads a frame that has not arrived completely.
\<close>

theorem length_frame_prefix_code:
  assumes "length payload \<le> maximum" and "maximum < 2 ^ 32"
  shows "\<exists>frame. length_frame payload maximum = Inr frame
    \<and> (\<forall>rest. length_unframe (frame @ rest) maximum = Inr (payload, length frame))
    \<and> (\<forall>n < length frame. length_unframe (take n frame) maximum = Inl Short)"
proof (intro exI conjI allI impI)
  let ?pre = "u32_le (of_nat (length payload)) :: bytes"
  let ?frame = "?pre @ payload"
  show "length_frame payload maximum = Inr ?frame"
    using assms(1) by (rule length_frame_eq)
  have len: "unat (from_le ?pre :: u32) = length payload"
    using assms by (intro from_le_len_prefix) simp
  have fits: "\<not> maximum < length payload"
    using assms by simp
  show "length_unframe (?frame @ rest) maximum = Inr (payload, length ?frame)" for rest
    using len fits by (simp add: length_unframe_def slice_of_def Let_def del: from_le_to_le)
  show "length_unframe (take n ?frame) maximum = Inl Short" if "n < length ?frame" for n
  proof (cases "n < 4")
    case True
    then show ?thesis by (simp add: length_unframe_def)
  next
    case False
    then have "take 4 (take n ?frame) = ?pre"
      by (simp add: min_def)
    then show ?thesis
      using False that len fits
      by (simp add: length_unframe_def Let_def del: from_le_to_le take_append)
  qed
qed

theorem length_frame_prefix_code_witness:
  "\<exists>frame. length_frame [5, 0, 0] max_dap_packet = Inr frame
    \<and> (\<forall>rest. length_unframe (frame @ rest) max_dap_packet = Inr ([5, 0, 0], length frame))
    \<and> (\<forall>n < length frame. length_unframe (take n frame) max_dap_packet = Inl Short)"
  by (rule length_frame_prefix_code) (simp_all add: max_dap_packet_def)

section \<open>Statistics\<close>

record stats =
  rx_bytes :: u64
  dropped_bytes :: u64
  sync_loss :: u64
  fifo_high_water :: u32
  dma_faults :: u64

definition stats_from_le :: "bytes \<Rightarrow> protocol_error + stats" where
  "stats_from_le bs =
     (if length bs < 36 then Inl Short
      else Inr \<lparr>
        rx_bytes = from_le (slice_of 0 8 bs),
        dropped_bytes = from_le (slice_of 8 16 bs),
        sync_loss = from_le (slice_of 16 24 bs),
        fifo_high_water = from_le (slice_of 24 28 bs),
        dma_faults = from_le (slice_of 28 36 bs)\<rparr>)"

definition stats_image :: "stats \<Rightarrow> bytes" where
  "stats_image s = u64_le (rx_bytes s) @ u64_le (dropped_bytes s) @ u64_le (sync_loss s)
     @ u32_le (fifo_high_water s) @ u64_le (dma_faults s)"

lemma stats_from_le_image [simp, roundtrips]: "stats_from_le (stats_image s @ rest) = Inr s"
  by (simp add: stats_from_le_def stats_image_def slice_of_def)

end
