(* ===== verification/FrameDecoder.thy ===== *)
theory FrameDecoder
  imports Control
begin

text \<open>
  The allocation-free frame decoder of \<open>applications/orbtrace/firmware/common/src/lib.rs\<close>
  (\<open>FrameDecoder::new\<close>, \<open>push\<close>, \<open>frame\<close>, \<open>reset\<close>). The const parameter
  \<open>N\<close> is the length of the payload array, which no operation changes. The specification is
  \<open>length_unframe\<close>, the host's decoder of the same framing: fed byte by byte, in fragments of
  any size, the firmware decoder finds the frames the host's function finds.
\<close>

section \<open>The decoder\<close>

datatype frame_error = FrameTooLarge nat | FramePending

record frame_decoder =
  fd_length :: bytes
  length_used :: nat
  expected :: nat
  payload :: bytes
  payload_used :: nat
  ready :: bool

definition fd_new :: "nat \<Rightarrow> frame_decoder" where
  "fd_new n = \<lparr>fd_length = replicate 4 0, length_used = 0, expected = 0, payload = replicate n 0,
     payload_used = 0, ready = False\<rparr>"

definition fd_reset :: "frame_decoder \<Rightarrow> frame_decoder" where
  "fd_reset d = d\<lparr>fd_length := replicate 4 0, length_used := 0, expected := 0, payload_used := 0,
     ready := False\<rparr>"

definition fd_push :: "frame_decoder \<Rightarrow> u8 \<Rightarrow> frame_decoder \<times> (frame_error + bool)" where
  "fd_push d byte =
     (if ready d then (d, Inl FramePending)
      else if length_used d < 4 then
        let d1 = d\<lparr>fd_length := (fd_length d)[length_used d := byte], length_used := length_used d + 1\<rparr>
        in if length_used d1 = 4 then
             let d2 = d1\<lparr>expected := unat (from_le (fd_length d1) :: u32)\<rparr>
             in if expected d2 > length (payload d2) then
                  (fd_reset d2, Inl (FrameTooLarge (expected d2)))
                else let d3 = d2\<lparr>ready := (expected d2 = 0)\<rparr> in (d3, Inr (ready d3))
           else (d1, Inr (ready d1))
      else
        let d1 = d\<lparr>payload := (payload d)[payload_used d := byte], payload_used := payload_used d + 1\<rparr>;
            d2 = d1\<lparr>ready := (payload_used d1 = expected d1)\<rparr>
        in (d2, Inr (ready d2)))"

definition fd_frame :: "frame_decoder \<Rightarrow> bytes option" where
  "fd_frame d = (if ready d then Some (take (expected d) (payload d)) else None)"

section \<open>The invariant\<close>

text \<open>
  With it, both array writes of \<open>push\<close> are in range: the first because of its guard, the
  second because \<open>payload_used\<close> is below \<open>expected\<close>, which is at most \<open>N\<close>.
\<close>

definition fd_wf :: "frame_decoder \<Rightarrow> bool" where
  "fd_wf d \<longleftrightarrow> length (fd_length d) = 4 \<and> length_used d \<le> 4 \<and>
     (length_used d < 4 \<longrightarrow> payload_used d = 0 \<and> expected d = 0 \<and> \<not> ready d) \<and>
     (length_used d = 4 \<longrightarrow> expected d = unat (from_le (fd_length d) :: u32) \<and>
        expected d \<le> length (payload d) \<and> payload_used d \<le> expected d \<and>
        (ready d \<longleftrightarrow> payload_used d = expected d))"

definition fd_bytes :: "frame_decoder \<Rightarrow> bytes" where
  "fd_bytes d = take (length_used d) (fd_length d) @ take (payload_used d) (payload d)"

lemmas fd_step_defs = fd_push_def fd_reset_def fd_wf_def fd_bytes_def Let_def

lemma fd_wf_new [simp]: "fd_wf (fd_new n)" "\<not> ready (fd_new n)" "fd_bytes (fd_new n) = []"
    "length (payload (fd_new n)) = n"
  by (simp_all add: fd_new_def fd_wf_def fd_bytes_def)

lemma fd_wf_reset: "fd_wf d \<Longrightarrow> fd_wf (fd_reset d)"
  by (simp add: fd_reset_def fd_wf_def)

lemma fd_reset_simps [simp]:
  "ready (fd_reset d) = False" "fd_bytes (fd_reset d) = []" "payload (fd_reset d) = payload d"
  by (simp_all add: fd_reset_def fd_bytes_def)

lemma fd_push_wf: "fd_wf d \<Longrightarrow> fd_wf (fst (fd_push d b))"
  by (auto simp: fd_step_defs)

lemma fd_push_capacity [simp]: "length (payload (fst (fd_push d b))) = length (payload d)"
  by (simp add: fd_push_def fd_reset_def Let_def)

section \<open>The decoder as a specification\<close>

lemma length_unframe_stable:
  "length_unframe bs m = Inr r \<Longrightarrow> length_unframe (bs @ cs) m = Inr r"
  "length_unframe bs m = Inl (TooLarge n) \<Longrightarrow> length_unframe (bs @ cs) m = Inl (TooLarge n)"
  by (auto simp: length_unframe_def Let_def slice_of_def split: if_splits)

lemma length_unframe_cases:
  obtains "length_unframe bs m = Inl Short" | n where "length_unframe bs m = Inl (TooLarge n)"
  | p u where "length_unframe bs m = Inr (p, u)"
proof (cases "length_unframe bs m")
  case (Inl e)
  then show thesis
    using that(1,2) by (auto simp: length_unframe_def Let_def split: if_splits)
next
  case (Inr r)
  then show thesis using that(3) by (cases r) auto
qed

lemma fd_bytes_short:
  assumes "fd_wf d" "\<not> ready d"
  shows "length_unframe (fd_bytes d) (length (payload d)) = Inl Short"
  using assms by (auto simp: fd_wf_def fd_bytes_def length_unframe_def Let_def)

text \<open>One byte, by what the host's function says about the bytes received so far.\<close>

lemma fd_push_spec:
  assumes wf: "fd_wf d" and nr: "\<not> ready d"
  shows "case length_unframe (fd_bytes d @ [b]) (length (payload d)) of
      Inl (TooLarge n) \<Rightarrow> fd_push d b = (fd_reset (fst (fd_push d b)), Inl (FrameTooLarge n))
    | Inl _ \<Rightarrow> snd (fd_push d b) = Inr False \<and> fd_bytes (fst (fd_push d b)) = fd_bytes d @ [b]
        \<and> \<not> ready (fst (fd_push d b))
    | Inr (p, used) \<Rightarrow> snd (fd_push d b) = Inr True \<and> fd_frame (fst (fd_push d b)) = Some p
        \<and> used = length (fd_bytes d) + 1 \<and> ready (fst (fd_push d b))"
proof -
  consider "length_used d < 3" | "length_used d = 3" | "length_used d = 4"
    using wf unfolding fd_wf_def by linarith
  then show ?thesis
  proof cases
    case 1
    with wf nr show ?thesis
      by (simp add: fd_step_defs length_unframe_def take_Suc_conv_app_nth)
  next
    case 2
    have len: "length (fd_length d) = 4" "payload_used d = 0" using wf 2 by (auto simp: fd_wf_def)
    then obtain x y z w where l: "fd_length d = [x, y, z, w]"
      using list_of_length_4 by blast
    show ?thesis
      using 2 nr len by (simp add: fd_step_defs fd_frame_def length_unframe_def slice_of_def l)
  next
    case 3
    then have len: "length (fd_length d) = 4" and room: "payload_used d < expected d" "expected d \<le> length (payload d)"
      and e: "unat (from_le (fd_length d) :: u32) = expected d"
      using wf nr by (auto simp: fd_wf_def)
    have upd: "take (Suc k) (xs[k := b]) = take k xs @ [b]" if "k < length xs" for k and xs :: bytes
      using that by (simp add: take_Suc_conv_app_nth)
    have "expected d = Suc (payload_used d) \<or> Suc (payload_used d) < expected d"
      using room by linarith
    then show ?thesis
      using 3 nr len room
      by (elim disjE) (simp_all add: fd_step_defs fd_frame_def length_unframe_def slice_of_def upd e)
  qed
qed

section \<open>Fragmented input\<close>

text \<open>The receive loop of the two connections: push until a frame is complete or refused.\<close>

fun fd_accept :: "frame_decoder \<Rightarrow> nat \<Rightarrow> bytes \<Rightarrow> frame_decoder \<times> (frame_error + nat option)" where
  "fd_accept d i [] = (d, Inr None)"
| "fd_accept d i (b # bs) =
     (case fd_push d b of
        (d', Inl e) \<Rightarrow> (d', Inl e)
      | (d', Inr complete) \<Rightarrow> if complete then (d', Inr (Some (i + 1))) else fd_accept d' (i + 1) bs)"

definition accept_ok :: "frame_decoder \<Rightarrow> nat \<Rightarrow> bytes \<Rightarrow> bool" where
  "accept_ok d i bs =
     (case fd_accept d i bs of (d', outcome) \<Rightarrow>
        fd_wf d' \<and> length (payload d') = length (payload d) \<and>
        (case length_unframe (fd_bytes d @ bs) (length (payload d)) of
           Inr (p, used) \<Rightarrow>
             outcome = Inr (Some (i + used - length (fd_bytes d))) \<and> fd_frame d' = Some p
             \<and> length (fd_bytes d) < used
         | Inl (TooLarge n) \<Rightarrow>
             outcome = Inl (FrameTooLarge n) \<and> \<not> ready d' \<and> fd_bytes d' = []
         | Inl _ \<Rightarrow> outcome = Inr None \<and> \<not> ready d' \<and> fd_bytes d' = fd_bytes d @ bs))"

lemma fd_accept_ok: "fd_wf d \<Longrightarrow> \<not> ready d \<Longrightarrow> accept_ok d i bs"
proof (induction bs arbitrary: d i)
  case Nil
  then show ?case by (simp add: accept_ok_def fd_bytes_short)
next
  case (Cons b bs)
  obtain d' r where push: "fd_push d b = (d', r)" by (cases "fd_push d b")
  have wf': "fd_wf d'" and cap: "length (payload d') = length (payload d)"
    using fd_push_wf [OF Cons.prems(1), of b] fd_push_capacity [of d b] by (simp_all add: push)
  have split: "fd_bytes d @ b # bs = (fd_bytes d @ [b]) @ bs" by simp
  note spec = fd_push_spec [OF Cons.prems, of b, unfolded push]
  show ?case
  proof (cases rule: length_unframe_cases [of "fd_bytes d @ [b]" "length (payload d)"])
    case 1
    with spec have s: "r = Inr False" "fd_bytes d' = fd_bytes d @ [b]" "\<not> ready d'" by simp_all
    obtain d2 out where rest: "fd_accept d' (i + 1) bs = (d2, out)"
      by (cases "fd_accept d' (i + 1) bs")
    note IH = Cons.IH [OF wf' s(3), of "i + 1"]
    have all: "fd_accept d i (b # bs) = (d2, out)" using rest by (simp add: push s)
    show ?thesis
      by (cases rule: length_unframe_cases [of "fd_bytes d @ b # bs" "length (payload d)"])
        (use IH rest cap s(2) in \<open>auto simp: accept_ok_def all simp del: fd_accept.simps\<close>)
  next
    case (2 n)
    with spec have "d' = fd_reset d'" and r: "r = Inl (FrameTooLarge n)" by simp_all
    then have "\<not> ready d'" "fd_bytes d' = []"
      by (metis fd_reset_simps(1), metis fd_reset_simps(2))
    then show ?thesis
      using 2 length_unframe_stable(2) [OF 2, of bs] wf' cap
      unfolding accept_ok_def by (simp add: push r)
  next
    case (3 p u)
    with spec have "r = Inr True" "fd_frame d' = Some p" "u = length (fd_bytes d) + 1" by simp_all
    then show ?thesis
      using length_unframe_stable(1) [OF 3, of bs] wf' cap
      unfolding accept_ok_def by (simp add: push)
  qed
qed

text \<open>
  Property C10. Firmware framing implements host framing. Fed a byte stream in two fragments cut
  anywhere, a new decoder for payloads of up to \<open>n\<close> bytes behaves as \<open>length_unframe\<close> on
  the whole stream: when the first fragment holds no complete frame, then at the end of the second
  it reports a frame exactly when the host's function finds one, at the same byte and with the
  same payload; it refuses with the declared size, reset for the next frame, exactly when the host's
  function answers \<open>TooLarge\<close>; and it asks for more exactly when that function answers
  \<open>Short\<close>.
\<close>

theorem frame_decoder_refines_unframe:
  "length_unframe frag1 n = Inl Short \<longrightarrow>
     (case fd_accept (fd_new n) 0 frag1 of (d, outcome) \<Rightarrow>
        outcome = Inr None \<and>
        (case fd_accept d 0 frag2 of (d', outcome') \<Rightarrow>
           (case length_unframe (frag1 @ frag2) n of
              Inr (p, used) \<Rightarrow> outcome' = Inr (Some (used - length frag1)) \<and> fd_frame d' = Some p
            | Inl (TooLarge declared) \<Rightarrow>
                outcome' = Inl (FrameTooLarge declared) \<and> fd_bytes d' = [] \<and> fd_wf d'
            | Inl _ \<Rightarrow> outcome' = Inr None \<and> fd_bytes d' = frag1 @ frag2 \<and> fd_wf d')))"
proof
  assume short: "length_unframe frag1 n = Inl Short"
  obtain d out where one: "fd_accept (fd_new n) 0 frag1 = (d, out)" by (cases "fd_accept (fd_new n) 0 frag1")
  from fd_accept_ok [OF fd_wf_new(1,2), of n 0 frag1] short one
  have d: "out = Inr None" "fd_wf d" "\<not> ready d" "fd_bytes d = frag1" "length (payload d) = n"
    by (simp_all add: accept_ok_def)
  from fd_accept_ok [OF d(2,3), of 0 frag2] show
    "case fd_accept (fd_new n) 0 frag1 of (d, outcome) \<Rightarrow>
        outcome = Inr None \<and>
        (case fd_accept d 0 frag2 of (d', outcome') \<Rightarrow>
           (case length_unframe (frag1 @ frag2) n of
              Inr (p, used) \<Rightarrow> outcome' = Inr (Some (used - length frag1)) \<and> fd_frame d' = Some p
            | Inl (TooLarge declared) \<Rightarrow>
                outcome' = Inl (FrameTooLarge declared) \<and> fd_bytes d' = [] \<and> fd_wf d'
            | Inl _ \<Rightarrow> outcome' = Inr None \<and> fd_bytes d' = frag1 @ frag2 \<and> fd_wf d'))"
    using d(1,4,5)
    by (auto simp: one accept_ok_def split: prod.splits sum.splits protocol_error.splits)
qed

theorem frame_decoder_refines_unframe_witness:
  "length_unframe [2, 0] 16 = Inl Short \<and>
   (\<exists>d. fd_accept (fd_new 16) 0 [2, 0] = (d, Inr None) \<and>
        snd (fd_accept d 0 [0, 0, 7, 8]) = Inr (Some 4))"
proof -
  have short: "length_unframe [2, 0] 16 = Inl Short"
    by (simp add: length_unframe_def)
  moreover have "length_unframe ([2, 0] @ [0, 0, 7, 8]) 16 = Inr ([7, 8], 6)"
    by (simp add: length_unframe_def from_le_Cons slice_of_def)
  ultimately show ?thesis
    using frame_decoder_refines_unframe [rule_format, OF short, of "[0, 0, 7, 8]"]
    by (auto split: prod.splits simp del: fd_accept.simps)
qed

end
