(* ===== verification/Controller.thy ===== *)
theory Controller
  imports FrameDecoder
begin

text \<open>
  The service logic of \<open>applications/orbtrace/firmware/a53/src/lib.rs\<close>: the trait
  \<open>RegisterIo\<close>, \<open>Controller::command\<close>, \<open>dap_exchange\<close>, \<open>dap_frame\<close> and
  \<open>configure_dma_ring\<close>, and the two connections that feed it. The hardware behind the trait
  is a state of any type; every access may change it, so a volatile register that answers
  differently each time it is read is covered.
\<close>

section \<open>Constants\<close>

definition reg_control :: nat where "reg_control = 0x08"
definition reg_source_format :: nat where "reg_source_format = 0x0c"
definition reg_swo_baud :: nat where "reg_swo_baud = 0x10"
definition reg_dma_base_lo :: nat where "reg_dma_base_lo = 0x18"
definition reg_dma_base_hi :: nat where "reg_dma_base_hi = 0x1c"
definition reg_dma_ring_size :: nat where "reg_dma_ring_size = 0x20"
definition reg_dap_command :: nat where "reg_dap_command = 0x80"
definition reg_dap_response :: nat where "reg_dap_response = 0x84"
definition reg_dap_status :: nat where "reg_dap_status = 0x88"
definition reg_m3_control :: nat where "reg_m3_control = 0xa0"

lemmas reg_defs = reg_control_def reg_source_format_def reg_swo_baud_def reg_dma_base_lo_def
  reg_dma_base_hi_def reg_dma_ring_size_def reg_dap_command_def reg_dap_response_def
  reg_dap_status_def reg_m3_control_def

section \<open>The register interface\<close>

text \<open>
  The trait as a record of its methods. A method that fills a slice gives the byte at each
  index of the slice.
\<close>

record 'io register_io =
  rio_read :: "nat \<Rightarrow> 'io \<Rightarrow> u32 \<times> 'io"
  rio_write :: "nat \<Rightarrow> u32 \<Rightarrow> 'io \<Rightarrow> 'io"
  rio_write_m3_bram :: "nat \<Rightarrow> bytes \<Rightarrow> 'io \<Rightarrow> 'io"
  rio_read_m3_bram :: "nat \<Rightarrow> nat \<Rightarrow> 'io \<Rightarrow> (nat \<Rightarrow> u8) \<times> 'io"
  rio_select_coresight :: "bool \<Rightarrow> 'io \<Rightarrow> 'io"
  rio_enable_trace :: "bool \<Rightarrow> 'io \<Rightarrow> 'io"

text \<open>An implementation of the two required methods gets the others by default.\<close>

definition with_defaults :: "(nat \<Rightarrow> 'io \<Rightarrow> u32 \<times> 'io) \<Rightarrow> (nat \<Rightarrow> u32 \<Rightarrow> 'io \<Rightarrow> 'io) \<Rightarrow> 'io register_io" where
  "with_defaults rd wr = \<lparr>rio_read = rd, rio_write = wr,
     rio_write_m3_bram = (\<lambda>_ _ io. io), rio_read_m3_bram = (\<lambda>_ _ io. (\<lambda>_. 0, io)),
     rio_select_coresight = (\<lambda>_ io. io), rio_enable_trace = (\<lambda>_ io. io)\<rparr>"

section \<open>The controller\<close>

definition configure_dma_ring :: "'io register_io \<Rightarrow> u64 \<Rightarrow> u32 \<Rightarrow> 'io \<Rightarrow> 'io" where
  "configure_dma_ring R base count io =
     rio_write R reg_dma_ring_size count
       (rio_write R reg_dma_base_hi (ucast (drop_bit 32 base))
         (rio_write R reg_dma_base_lo (ucast base) io))"

definition stats_offsets :: "nat list" where
  "stats_offsets = [0x40, 0x44, 0x48, 0x4c, 0x50, 0x54, 0x58, 0x60, 0x64]"

text \<open>The loop of opcode 6: one register after the other into the response.\<close>

fun read_stats :: "'io register_io \<Rightarrow> nat \<Rightarrow> nat list \<Rightarrow> 'io \<Rightarrow> bytes \<Rightarrow> 'io \<times> bytes" where
  "read_stats R index [] io response = (io, response)"
| "read_stats R index (offset # offsets) io response =
     (case rio_read R offset io of (word, io') \<Rightarrow>
        read_stats R (index + 1) offsets io' (copy_into response (index * 4) (u32_le word)))"

definition info_text :: bytes where
  "info_text = map (\<lambda>c. of_nat (of_char c)) ''ZUBoard-Orbtrace/1''"

type_synonym 'io served = "('io \<times> bytes) \<times> (unit + nat)"

text \<open>\<open>response[0] = 0; Ok(1)\<close>\<close>

definition ack :: "'io \<Rightarrow> bytes \<Rightarrow> 'io served" where
  "ack io response = ((io, response[0 := 0]), Inr 1)"

definition command_op :: "'io register_io \<Rightarrow> 'io \<Rightarrow> bytes \<Rightarrow> bytes \<Rightarrow> 'io served" where
  "command_op R io request response =
     (if length request < 3 \<or> response = [] \<or>
         (from_le [request ! 0, request ! 1] :: u16) \<noteq> protocol_version
      then ((io, response), Inl ())
      else let opcode = request ! 2
      in if opcode = 1 then
           (if length response < length info_text then ((io, response), Inl ())
            else ((io, copy_into response 0 info_text), Inr (length info_text)))
      else if opcode = 2 \<and> length request = 9 then
        let io1 = (if request ! 3 = 1 then rio_enable_trace R False (rio_select_coresight R False io)
                   else if request ! 3 = 2 then rio_enable_trace R True (rio_select_coresight R True io)
                   else io);
            baud = from_le (slice_of 5 9 request) :: u32;
            io2 = rio_write R reg_source_format
              (ucast (request ! 3) OR push_bit 8 (ucast (request ! 4))) io1
        in ack (rio_write R reg_swo_baud baud io2) response
      else if opcode = 3 then ack (rio_write R reg_control 1 io) response
      else if opcode = 4 then ack (rio_write R reg_control 2 io) response
      else if opcode = 5 then ack (rio_write R reg_control 4 io) response
      else if opcode = 6 \<and> length response \<ge> 36 then
        (read_stats R 0 stats_offsets io response, Inr 36)
      else if opcode = 7 \<and> length request \<ge> 7 then
        let offset = unat (from_le (slice_of 3 7 request) :: u32);
            data = drop 7 request
        in (case checked_add_usize offset (length data) of
              None \<Rightarrow> ((io, response), Inl ())
            | Some end \<Rightarrow>
                if end > m3_bram_size then ((io, response), Inl ())
                else ack (rio_write_m3_bram R offset data io) response)
      else if opcode = 8 \<and> length request = 9 then
        let offset = unat (from_le (slice_of 3 7 request) :: u32);
            len = unat (from_le (slice_of 7 9 request) :: u16)
        in (case checked_add_usize offset len of
              None \<Rightarrow> ((io, response), Inl ())
            | Some end \<Rightarrow>
                if end > m3_bram_size \<or> length response < len then ((io, response), Inl ())
                else (case rio_read_m3_bram R offset len io of (f, io') \<Rightarrow>
                  ((io', copy_into response 0 (map f [0..<len])), Inr len)))
      else if opcode = 9 \<and> length request = 4 then
        ack (rio_write R reg_m3_control (ucast (request ! 3)) io) response
      else ((io, response), Inl ()))"

section \<open>The DAP mailbox\<close>

datatype dap_error = EmptyRequest | BadFrame | PacketTooLarge | ResponseTooLarge | DapTimeout

text \<open>Poll the status register until a bit of the mask is set, at most \<open>remaining + 1\<close> times.\<close>

fun dap_wait :: "'io register_io \<Rightarrow> u32 \<Rightarrow> nat \<Rightarrow> 'io \<Rightarrow> 'io \<times> bool" where
  "dap_wait R bits 0 io =
     (case rio_read R reg_dap_status io of (word, io') \<Rightarrow> (io', word AND bits \<noteq> 0))"
| "dap_wait R bits (Suc remaining) io =
     (case rio_read R reg_dap_status io of (word, io') \<Rightarrow>
        if word AND bits \<noteq> 0 then (io', True) else dap_wait R bits remaining io')"

fun dap_send :: "'io register_io \<Rightarrow> nat \<Rightarrow> bytes \<Rightarrow> 'io \<Rightarrow> 'io \<times> (dap_error + unit)" where
  "dap_send R budget [] io = (io, Inr ())"
| "dap_send R budget (byte # rest) io =
     (case dap_wait R 1 budget io of (io1, ok) \<Rightarrow>
        if \<not> ok then (io1, Inl DapTimeout)
        else dap_send R budget rest
          (rio_write R reg_dap_command (ucast byte OR push_bit 8 (of_bool (rest = []))) io1))"

function dap_receive :: "'io register_io \<Rightarrow> nat \<Rightarrow> bytes \<Rightarrow> nat \<Rightarrow> 'io \<Rightarrow> ('io \<times> bytes) \<times> (dap_error + nat)" where
  "dap_receive R budget response len io =
     (case dap_wait R 2 budget io of (io1, ok) \<Rightarrow>
        if \<not> ok then ((io1, response), Inl DapTimeout)
        else (case rio_read R reg_dap_response io1 of (word, io2) \<Rightarrow>
          if len \<ge> length response then ((io2, response), Inl ResponseTooLarge)
          else let response' = response[len := ucast word]
          in if word AND push_bit 9 1 \<noteq> 0 then ((io2, response'), Inr (len + 1))
             else dap_receive R budget response' (len + 1) io2))"
  by pat_completeness auto
termination
  by (relation "measure (\<lambda>(R, budget, response, len, io). length response - len)") auto

declare dap_receive.simps [simp del]

definition dap_exchange :: "'io register_io \<Rightarrow> nat \<Rightarrow> 'io \<Rightarrow> bytes \<Rightarrow> bytes \<Rightarrow>
    ('io \<times> bytes) \<times> (dap_error + nat)" where
  "dap_exchange R poll_budget io request response =
     (if request = [] then ((io, response), Inl EmptyRequest)
      else case dap_send R poll_budget request io of
        (io1, Inl e) \<Rightarrow> ((io1, response), Inl e)
      | (io1, Inr _) \<Rightarrow> dap_receive R poll_budget response 0 io1)"

definition dap_frame :: "'io register_io \<Rightarrow> nat \<Rightarrow> 'io \<Rightarrow> bytes \<Rightarrow> bytes \<Rightarrow>
    ('io \<times> bytes) \<times> (dap_error + nat)" where
  "dap_frame R poll_budget io framed_request framed_response =
     (if length framed_request < 4 \<or> length framed_response < 4 then
        ((io, framed_response), Inl BadFrame)
      else let payload_length = unat (from_le (take 4 framed_request) :: u32)
      in if payload_length > 1024 then ((io, framed_response), Inl PacketTooLarge)
      else if payload_length + 4 \<noteq> length framed_request then ((io, framed_response), Inl BadFrame)
      else (case dap_exchange R poll_budget io (drop 4 framed_request) (drop 4 framed_response) of
          ((io1, tail), Inl e) \<Rightarrow> ((io1, take 4 framed_response @ tail), Inl e)
        | ((io1, tail), Inr len) \<Rightarrow>
            ((io1, copy_into (take 4 framed_response @ tail) 0 (u32_le (of_nat len))), Inr (len + 4))))"

section \<open>Connections\<close>

datatype service_error =
  Frame frame_error | OutputTooSmall | BadControlRequest | Dap dap_error

record service_reply =
  consumed :: nat
  response_length :: "nat option"

text \<open>
  Both \<open>feed\<close> functions are the same loop around a handler; \<open>i\<close> is the loop index. The
  handler gets the payload and the response buffer behind the four bytes of the length.
\<close>

fun connection_feed :: "('io \<Rightarrow> bytes \<Rightarrow> bytes \<Rightarrow> ('io \<times> bytes) \<times> ('e + nat)) \<Rightarrow> ('e \<Rightarrow> service_error) \<Rightarrow>
    frame_decoder \<Rightarrow> 'io \<Rightarrow> bytes \<Rightarrow> nat \<Rightarrow> bytes \<Rightarrow>
    frame_decoder \<times> 'io \<times> bytes \<times> (service_error + service_reply)" where
  "connection_feed serve err d io response i [] =
     (d, io, response, Inr \<lparr>consumed = i, response_length = None\<rparr>)"
| "connection_feed serve err d io response i (byte # bs) =
     (case fd_push d byte of
        (d1, Inl e) \<Rightarrow> (d1, io, response, Inl (Frame e))
      | (d1, Inr complete) \<Rightarrow>
          if \<not> complete then connection_feed serve err d1 io response (i + 1) bs
          else if length response < 4 then (fd_reset d1, io, response, Inl OutputTooSmall)
          else (case serve io (case fd_frame d1 of Some p \<Rightarrow> p | None \<Rightarrow> []) (drop 4 response) of
              ((io1, tail), Inl e) \<Rightarrow> (fd_reset d1, io1, take 4 response @ tail, Inl (err e))
            | ((io1, tail), Inr len) \<Rightarrow>
                (fd_reset d1, io1, copy_into (take 4 response @ tail) 0 (u32_le (of_nat len)),
                 Inr \<lparr>consumed = i + 1, response_length = Some (len + 4)\<rparr>)))"

definition control_connection :: frame_decoder where
  "control_connection = fd_new max_control_payload"

definition control_feed :: "'io register_io \<Rightarrow> frame_decoder \<Rightarrow> 'io \<Rightarrow> bytes \<Rightarrow> bytes \<Rightarrow>
    frame_decoder \<times> 'io \<times> bytes \<times> (service_error + service_reply)" where
  "control_feed R d io response input =
     connection_feed (command_op R) (\<lambda>_. BadControlRequest) d io response 0 input"

definition dap_connection :: frame_decoder where
  "dap_connection = fd_new max_dap_packet"

definition dap_feed :: "'io register_io \<Rightarrow> nat \<Rightarrow> frame_decoder \<Rightarrow> 'io \<Rightarrow> bytes \<Rightarrow> bytes \<Rightarrow>
    frame_decoder \<times> 'io \<times> bytes \<times> (service_error + service_reply)" where
  "dap_feed R poll_budget d io response input =
     connection_feed (dap_exchange R poll_budget) Dap d io response 0 input"

section \<open>What a command may do\<close>

lemma length_read_stats:
  "(index + length offsets) * 4 \<le> length response \<Longrightarrow>
   length (snd (read_stats R index offsets io response)) = length response"
proof (induction offsets arbitrary: index io response)
  case (Cons offset offsets)
  then show ?case by (auto split: prod.splits)
qed simp

lemma length_info_text [simp]: "length info_text = 18"
  by (simp add: info_text_def)

lemma command_op_bounds:
  "case command_op R io request response of ((io', response'), outcome) \<Rightarrow>
     length response' = length response \<and>
     (case outcome of Inl _ \<Rightarrow> io' = io \<and> response' = response
      | Inr n \<Rightarrow> n \<le> length response' \<and> 3 \<le> length request)"
proof (cases "response = []")
  case True
  then show ?thesis by (simp add: command_op_def)
next
  case False
  then have "1 \<le> length response" by (cases response) simp_all
  moreover have "length (snd (read_stats R 0 stats_offsets io response)) = length response"
    if "36 \<le> length response"
    using that by (intro length_read_stats) (simp add: stats_offsets_def)
  ultimately show ?thesis
    unfolding command_op_def
    by (simp add: ack_def Let_def split: prod.splits option.splits) auto
qed

text \<open>
  Refusals and bounds. A command that is refused changes neither the hardware nor the
  response buffer; a command that is accepted keeps the length of the buffer and reports a number
  of response bytes that fits in it.
\<close>

theorem command_op_refusal:
  "case command_op R io request response of ((io', response'), outcome) \<Rightarrow>
     length response' = length response \<and>
     (case outcome of Inl _ \<Rightarrow> io' = io \<and> response' = response
      | Inr n \<Rightarrow> n \<le> length response' \<and> 3 \<le> length request)"
  by (rule command_op_bounds)

text \<open>An implementation whose BRAM methods are replaced outside the window.\<close>

definition outside_window :: "(nat \<Rightarrow> bytes \<Rightarrow> 'io \<Rightarrow> 'io) \<Rightarrow> (nat \<Rightarrow> nat \<Rightarrow> 'io \<Rightarrow> (nat \<Rightarrow> u8) \<times> 'io) \<Rightarrow>
    'io register_io \<Rightarrow> 'io register_io" where
  "outside_window wr rd R = R\<lparr>
     rio_write_m3_bram := (\<lambda>offset data io.
       if offset + length data \<le> m3_bram_size then rio_write_m3_bram R offset data io else wr offset data io),
     rio_read_m3_bram := (\<lambda>offset n io.
       if offset + n \<le> m3_bram_size then rio_read_m3_bram R offset n io else rd offset n io)\<rparr>"

text \<open>
  The BRAM window. Whatever the request, the controller calls the BRAM methods only
  with ranges inside the 64 KiB window: replacing their behaviour on every other range by anything
  at all changes no result. The bound check is made on an offset and a length taken from the
  network, without overflow.
\<close>

theorem command_op_window:
  "command_op (outside_window wr rd R) io request response = command_op R io request response"
proof -
  have stats: "read_stats (outside_window wr rd R) index offsets io response
      = read_stats R index offsets io response" for index offsets io response
    by (induction offsets arbitrary: index io response) (simp_all add: outside_window_def)
  have win: "offset + length data \<le> m3_bram_size \<Longrightarrow>
      rio_write_m3_bram (outside_window wr rd R) offset data io = rio_write_m3_bram R offset data io"
    "offset + n \<le> m3_bram_size \<Longrightarrow>
      rio_read_m3_bram (outside_window wr rd R) offset n io = rio_read_m3_bram R offset n io"
    "rio_write (outside_window wr rd R) = rio_write R"
    "rio_select_coresight (outside_window wr rd R) = rio_select_coresight R"
    "rio_enable_trace (outside_window wr rd R) = rio_enable_trace R" for offset data n io
    by (simp_all add: outside_window_def)
  have load: "(case checked_add_usize offset (length data) of None \<Rightarrow> x | Some end \<Rightarrow>
      if end > m3_bram_size then y
      else ack (rio_write_m3_bram (outside_window wr rd R) offset data io) response) =
     (case checked_add_usize offset (length data) of None \<Rightarrow> x | Some end \<Rightarrow>
      if end > m3_bram_size then y else ack (rio_write_m3_bram R offset data io) response)"
    for offset data x y
    by (simp add: checked_add_usize_def win(1))
  have readback: "(case checked_add_usize offset len of None \<Rightarrow> x | Some end \<Rightarrow>
      if end > m3_bram_size \<or> length response < len then y
      else f (rio_read_m3_bram (outside_window wr rd R) offset len io)) =
     (case checked_add_usize offset len of None \<Rightarrow> x | Some end \<Rightarrow>
      if end > m3_bram_size \<or> length response < len then y else f (rio_read_m3_bram R offset len io))"
    for offset len x y and f :: "(nat \<Rightarrow> u8) \<times> 'a \<Rightarrow> 'a served"
    by (simp add: checked_add_usize_def win(2))
  show ?thesis
    unfolding command_op_def stats win(3-5) Let_def load readback ..
qed

section \<open>Statistics\<close>

text \<open>The words read from some registers one after the other, and the state after them.\<close>

fun read_words :: "'io register_io \<Rightarrow> nat list \<Rightarrow> 'io \<Rightarrow> u32 list \<times> 'io" where
  "read_words R [] io = ([], io)"
| "read_words R (offset # offsets) io =
     (case rio_read R offset io of (word, io1) \<Rightarrow>
        case read_words R offsets io1 of (words, io2) \<Rightarrow> (word # words, io2))"

lemma length_read_words [simp]: "length (fst (read_words R offsets io)) = length offsets"
  by (induction offsets arbitrary: io) (simp_all add: case_prod_unfold)

lemma read_stats_words:
  "length done = index * 4 \<Longrightarrow> length offsets * 4 \<le> length rest \<Longrightarrow>
   read_stats R index offsets io (done @ rest) =
     (snd (read_words R offsets io),
      done @ concat (map u32_le (fst (read_words R offsets io))) @ drop (length offsets * 4) rest)"
proof (induction offsets arbitrary: index io "done" rest)
  case (Cons offset offsets)
  obtain w io1 where rd: "rio_read R offset io = (w, io1)" by (cases "rio_read R offset io")
  have "copy_into (done @ rest) (index * 4) (u32_le w) = (done @ u32_le w) @ drop 4 rest"
    using Cons.prems by (simp add: copy_into_def)
  then show ?case
    using Cons.IH [of "done @ u32_le w" "index + 1" "drop 4 rest" io1] Cons.prems
    by (simp add: rd case_prod_unfold add.commute)
qed simp

definition pair64 :: "u32 \<Rightarrow> u32 \<Rightarrow> u64" where
  "pair64 lo hi = ucast lo OR push_bit 32 (ucast hi)"

lemma from_le_append:
  "(from_le (xs @ ys) :: 'a::len word) = from_le xs OR push_bit (8 * length xs) (from_le ys)"
  by (induction xs) (simp_all add: from_le_Cons push_bit_or or.assoc push_bit_push_bit add.commute)

lemma ucast_from_le: "8 * length xs \<le> 32 \<Longrightarrow> (ucast (from_le xs :: u32) :: u64) = from_le xs"
  by (rule bit_word_eqI) (auto simp: bit_ucast_iff bit_from_le)

lemma from_le_pair: "from_le (u32_le lo @ u32_le hi) = pair64 lo hi"
  using ucast_from_le [of "u32_le lo"] ucast_from_le [of "u32_le hi"]
  by (simp add: pair64_def from_le_append)

lemma u64_le_pair: "u64_le (pair64 lo hi) = u32_le lo @ u32_le hi"
  unfolding from_le_pair [symmetric] by (rule to_le_from_le) simp_all

definition stats_of :: "u32 list \<Rightarrow> stats" where
  "stats_of ws = \<lparr>rx_bytes = pair64 (ws ! 0) (ws ! 1), dropped_bytes = pair64 (ws ! 2) (ws ! 3),
     sync_loss = pair64 (ws ! 4) (ws ! 5), fifo_high_water = ws ! 6,
     dma_faults = pair64 (ws ! 7) (ws ! 8)\<rparr>"

lemma list_of_length_9:
  "length xs = 9 \<Longrightarrow> xs = [xs ! 0, xs ! 1, xs ! 2, xs ! 3, xs ! 4, xs ! 5, xs ! 6, xs ! 7, xs ! 8]"
  by (auto simp: length_Suc_conv eval_nat_numeral)

lemma stats_image_words: "length ws = 9 \<Longrightarrow> concat (map u32_le ws) = stats_image (stats_of ws)"
  by (subst list_of_length_9) (simp_all add: stats_image_def stats_of_def u64_le_pair)

text \<open>
  Statistics end to end. The host's request for statistics makes the controller read
  the nine counter registers once each, in order, and what the host parses from the 36 bytes of the
  response are the counters: each 64-bit one from its low and high word. With a smaller response
  buffer the request is refused.
\<close>

theorem stats_end_to_end:
  "case read_words R stats_offsets io of (ws, io') \<Rightarrow>
     if length response < 36 then
       command_op R io (command_encode GetStats) response = ((io, response), Inl ())
     else \<exists>response'. command_op R io (command_encode GetStats) response = ((io', response'), Inr 36)
       \<and> stats_from_le response' = Inr (stats_of ws)"
proof -
  obtain ws io' where rd: "read_words R stats_offsets io = (ws, io')"
    by (cases "read_words R stats_offsets io")
  have n9: "length stats_offsets = 9" by (simp add: stats_offsets_def)
  have len: "length ws = 9"
    using length_read_words [of R stats_offsets io] by (simp only: rd fst_conv n9)
  have "read_stats R 0 stats_offsets io ([] @ response) =
      (io', [] @ concat (map u32_le ws) @ drop (length stats_offsets * 4) response)" if "36 \<le> length response"
    using that by (subst read_stats_words) (simp_all add: rd n9)
  then have stats: "read_stats R 0 stats_offsets io response = (io', stats_image (stats_of ws) @ drop 36 response)"
    if "36 \<le> length response"
    using that by (simp add: stats_image_words [OF len] n9)
  have req: "command_encode GetStats = [1, 0, 6]"
    by (simp add: command_encode_def protocol_version_def)
  show ?thesis
    using stats by (auto simp: rd req command_op_def protocol_version_def Let_def not_less)
qed

section \<open>Serving a stream\<close>

text \<open>What a connection does once a frame is complete after \<open>j\<close> bytes of the input.\<close>

definition serve_frame :: "('io \<Rightarrow> bytes \<Rightarrow> bytes \<Rightarrow> ('io \<times> bytes) \<times> ('e + nat)) \<Rightarrow> ('e \<Rightarrow> service_error) \<Rightarrow>
    'io \<Rightarrow> bytes \<Rightarrow> bytes \<Rightarrow> nat \<Rightarrow> 'io \<times> bytes \<times> (service_error + service_reply)" where
  "serve_frame serve err io request response j =
     (if length response < 4 then (io, response, Inl OutputTooSmall)
      else case serve io request (drop 4 response) of
          ((io1, tail), Inl e) \<Rightarrow> (io1, take 4 response @ tail, Inl (err e))
        | ((io1, tail), Inr len) \<Rightarrow>
            (io1, u32_le (of_nat len) @ tail, Inr \<lparr>consumed = j, response_length = Some (len + 4)\<rparr>))"

lemma copy_into_head: "length response \<ge> 4 \<Longrightarrow> copy_into (take 4 response @ tail) 0 (u32_le w) = u32_le w @ tail"
  by (simp add: copy_into_def)

lemma connection_feed_accept:
  "connection_feed serve err d io response i bs =
     (case fd_accept d i bs of
        (d', Inl e) \<Rightarrow> (d', io, response, Inl (Frame e))
      | (d', Inr None) \<Rightarrow> (d', io, response, Inr \<lparr>consumed = i + length bs, response_length = None\<rparr>)
      | (d', Inr (Some j)) \<Rightarrow>
          (fd_reset d', serve_frame serve err io (case fd_frame d' of Some p \<Rightarrow> p | None \<Rightarrow> []) response j))"
proof (induction bs arbitrary: d i)
  case (Cons b bs)
  obtain d' r where push: "fd_push d b = (d', r)" by (cases "fd_push d b")
  then show ?case
    using Cons.IH [of d' "i + 1"]
    by (auto simp: serve_frame_def copy_into_head not_less split: sum.splits prod.splits option.splits)
qed simp

definition feed_spec :: "('io \<Rightarrow> bytes \<Rightarrow> bytes \<Rightarrow> ('io \<times> bytes) \<times> ('e + nat)) \<Rightarrow> ('e \<Rightarrow> service_error) \<Rightarrow>
    nat \<Rightarrow> bytes \<Rightarrow> 'io \<Rightarrow> bytes \<Rightarrow> bytes \<Rightarrow>
    frame_decoder \<times> 'io \<times> bytes \<times> (service_error + service_reply) \<Rightarrow> bool" where
  "feed_spec serve err maximum received io response input result =
     (case result of (d', out) \<Rightarrow>
        fd_wf d' \<and> \<not> ready d' \<and> length (payload d') = maximum \<and>
        (case length_unframe (received @ input) maximum of
           Inr (request, used) \<Rightarrow>
             fd_bytes d' = [] \<and> out = serve_frame serve err io request response (used - length received)
         | Inl (TooLarge n) \<Rightarrow> fd_bytes d' = [] \<and> out = (io, response, Inl (Frame (FrameTooLarge n)))
         | Inl _ \<Rightarrow> fd_bytes d' = received @ input \<and>
             out = (io, response, Inr \<lparr>consumed = length input, response_length = None\<rparr>)))"

lemma connection_feed_spec:
  assumes "fd_wf d" "\<not> ready d"
  shows "feed_spec serve err (length (payload d)) (fd_bytes d) io response input
    (connection_feed serve err d io response 0 input)"
proof -
  obtain d' r where acc: "fd_accept d 0 input = (d', r)" by (cases "fd_accept d 0 input")
  from fd_accept_ok [OF assms, of 0 input] show ?thesis
    unfolding feed_spec_def connection_feed_accept accept_ok_def acc
    by (cases rule: length_unframe_cases [of "fd_bytes d @ input" "length (payload d)"])
      (auto simp: fd_wf_reset split: option.splits)
qed

section \<open>A mailbox that answers\<close>

text \<open>
  A command engine as the reference: it becomes ready after some polls, each wait with its own
  number of them, records the words written to it and hands out the bytes of its answer, bit 9
  marking the last.
\<close>

record mailbox =
  mb_polls :: "nat list"
  mb_sent :: "u32 list"
  mb_reply :: bytes

definition mailbox_read :: "nat \<Rightarrow> mailbox \<Rightarrow> u32 \<times> mailbox" where
  "mailbox_read offset m =
     (if offset = reg_dap_status then
        (case mb_polls m of
           [] \<Rightarrow> (3, m)
         | 0 # ps \<Rightarrow> (3, m\<lparr>mb_polls := ps\<rparr>)
         | Suc k # ps \<Rightarrow> (0, m\<lparr>mb_polls := k # ps\<rparr>))
      else if offset = reg_dap_response then
        (case mb_reply m of
           [] \<Rightarrow> (0, m)
         | b # bs \<Rightarrow> (ucast b OR push_bit 9 (of_bool (bs = [])), m\<lparr>mb_reply := bs\<rparr>))
      else (0, m))"

definition mailbox_write :: "nat \<Rightarrow> u32 \<Rightarrow> mailbox \<Rightarrow> mailbox" where
  "mailbox_write offset w m =
     (if offset = reg_dap_command then m\<lparr>mb_sent := mb_sent m @ [w]\<rparr> else m)"

definition mailbox_io :: "mailbox register_io" where
  "mailbox_io = with_defaults mailbox_read mailbox_write"

lemma mailbox_io_simps [simp]:
  "rio_read mailbox_io = mailbox_read" "rio_write mailbox_io = mailbox_write"
  by (simp_all add: mailbox_io_def with_defaults_def)

definition framed_words :: "bytes \<Rightarrow> u32 list" where
  "framed_words bs = map (\<lambda>i. ucast (bs ! i) OR push_bit 8 (of_bool (i + 1 = length bs))) [0..<length bs]"

definition patient :: "nat \<Rightarrow> nat list \<Rightarrow> bool" where
  "patient budget polls \<longleftrightarrow> (\<forall>p \<in> set polls. p \<le> budget)"

lemma framed_words_Cons:
  "framed_words (b # bs) = (ucast b OR push_bit 8 (of_bool (bs = []))) # framed_words bs"
  unfolding framed_words_def length_Cons upt_conv_Cons [OF zero_less_Suc]
  by (simp add: map_Suc_upt [symmetric] del: map_Suc_upt upt_Suc)

lemma dap_wait_mailbox_head:
  "3 AND bits \<noteq> 0 \<Longrightarrow> patient budget (take 1 (mb_polls m)) \<Longrightarrow>
   dap_wait mailbox_io bits budget m = (m\<lparr>mb_polls := tl (mb_polls m)\<rparr>, True)"
proof (induction budget arbitrary: m)
  case 0
  then show ?case
    by (cases "mb_polls m") (auto simp: mailbox_read_def patient_def)
next
  case (Suc budget)
  show ?case
  proof (cases "mb_polls m")
    case Nil
    with Suc.prems show ?thesis by (simp add: mailbox_read_def)
  next
    case (Cons p ps)
    then show ?thesis
      using Suc.IH [of "m\<lparr>mb_polls := (p - 1) # ps\<rparr>"] Suc.prems
      by (cases p) (auto simp: mailbox_read_def patient_def)
  qed
qed

lemma dap_wait_mailbox:
  "3 AND bits \<noteq> 0 \<Longrightarrow> patient budget (mb_polls m) \<Longrightarrow>
   dap_wait mailbox_io bits budget m = (m\<lparr>mb_polls := tl (mb_polls m)\<rparr>, True)"
  by (rule dap_wait_mailbox_head) (auto simp: patient_def dest: in_set_takeD)

lemma patient_tl: "patient budget ps \<Longrightarrow> patient budget (tl ps)"
  by (cases ps) (auto simp: patient_def)

lemma dap_send_mailbox:
  "patient budget (mb_polls m) \<Longrightarrow>
   dap_send mailbox_io budget bs m =
     (m\<lparr>mb_polls := drop (length bs) (mb_polls m), mb_sent := mb_sent m @ framed_words bs\<rparr>, Inr ())"
proof (induction bs arbitrary: m)
  case Nil
  then show ?case by (simp add: framed_words_def)
next
  case (Cons b bs)
  have "3 AND (1 :: u32) \<noteq> 0" by simp
  note wait = dap_wait_mailbox [OF this Cons.prems]
  show ?case
    using Cons.IH [of "mailbox_write reg_dap_command (ucast b OR push_bit 8 (of_bool (bs = [])))
        (m\<lparr>mb_polls := tl (mb_polls m)\<rparr>)"] patient_tl [OF Cons.prems]
    by (simp add: wait mailbox_write_def framed_words_Cons drop_Suc)
qed

lemma reply_word:
  "ucast (ucast (b :: u8) OR push_bit 9 (of_bool x) :: u32) = b"
  "(ucast (b :: u8) OR push_bit 9 (of_bool x) :: u32) AND push_bit 9 1 \<noteq> 0 \<longleftrightarrow> x"
proof -
  show "ucast (ucast b OR push_bit 9 (of_bool x) :: u32) = b"
    by (rule bit_word_eqI) (auto simp: bit_ucast_iff bit_or_iff bit_push_bit_iff)
  have nb: "\<not> bit b 9" using bit_imp_le_length [of b 9] by auto
  have "(ucast b AND push_bit 9 1 :: u32) = 0"
  proof (rule bit_word_eqI)
    show "bit (ucast b AND push_bit 9 1 :: u32) n = bit (0 :: u32) n" for n
      unfolding bit_and_iff bit_push_bit_iff bit_ucast_iff bit_1_iff using nb by auto
  qed
  moreover have "push_bit 9 1 \<noteq> (0 :: u32)" by simp
  ultimately show "(ucast b OR push_bit 9 (of_bool x) :: u32) AND push_bit 9 1 \<noteq> 0 \<longleftrightarrow> x"
    by (cases x) (simp_all add: bit.conj_disj_distrib2)
qed

lemma copy_into_Nil: "copy_into xs at [] = xs"
  by (simp add: copy_into_def)

lemma copy_into_Cons:
  "len < length response \<Longrightarrow> copy_into response len (b # bs) = copy_into (response[len := b]) (len + 1) bs"
  by (simp add: copy_into_def take_Suc_conv_app_nth drop_update_cancel)

lemma dap_receive_mailbox:
  "patient budget (mb_polls m) \<Longrightarrow> mb_reply m \<noteq> [] \<Longrightarrow> len + length (mb_reply m) \<le> length response \<Longrightarrow>
   dap_receive mailbox_io budget response len m =
     ((m\<lparr>mb_polls := drop (length (mb_reply m)) (mb_polls m), mb_reply := []\<rparr>,
       copy_into response len (mb_reply m)), Inr (len + length (mb_reply m)))"
proof (induction "mb_reply m" arbitrary: m len response)
  case (Cons b bs)
  have "3 AND (2 :: u32) \<noteq> 0" by simp
  note wait = dap_wait_mailbox [OF this Cons.prems(1)]
  note reply = Cons.hyps(2) [symmetric]
  have room: "len < length response" using Cons.prems(3) reply by simp
  let ?m = "m\<lparr>mb_polls := tl (mb_polls m), mb_reply := bs\<rparr>"
  have word: "mailbox_read reg_dap_response (m\<lparr>mb_polls := tl (mb_polls m)\<rparr>) =
      (ucast b OR push_bit 9 (of_bool (bs = [])), ?m)"
    by (simp add: mailbox_read_def reply reg_defs)
  have step: "dap_receive mailbox_io budget response len m =
      (if bs = [] then ((?m, response[len := b]), Inr (len + 1))
       else dap_receive mailbox_io budget (response[len := b]) (len + 1) ?m)"
    by (subst dap_receive.simps) (use room in \<open>simp only: wait mailbox_io_simps word prod.case
        Let_def reply_word not_le simp_thms if_True if_False split: if_splits; simp\<close>)
  show ?case
  proof (cases "bs = []")
    case True
    with room show ?thesis
      by (simp add: step reply copy_into_Cons copy_into_Nil drop_Suc)
  next
    case False
    with Cons.hyps(1) [of ?m "len + 1" "response[len := b]"] patient_tl [OF Cons.prems(1)] Cons.prems(3)
    show ?thesis
      by (simp add: step reply copy_into_Cons [OF room] drop_Suc)
  qed
qed simp

text \<open>
  The DAP passthrough. With a command engine that becomes ready within the poll budget
  each time, one exchange hands over exactly the bytes of the request, in order, with bit 8 on the
  last one only, and returns exactly the bytes of the answer, at the start of the buffer, for every
  request and every answer that fits.
\<close>

theorem dap_exchange_transfers:
  assumes "patient budget polls" and "request \<noteq> []" and "reply \<noteq> []"
    and "length reply \<le> length response"
  shows "dap_exchange mailbox_io budget \<lparr>mb_polls = polls, mb_sent = [], mb_reply = reply\<rparr> request response =
     ((\<lparr>mb_polls = drop (length request + length reply) polls, mb_sent = framed_words request, mb_reply = []\<rparr>,
       copy_into response 0 reply), Inr (length reply))"
proof -
  let ?m = "\<lparr>mb_polls = polls, mb_sent = [], mb_reply = reply\<rparr>"
  have "patient budget (drop n polls)" for n
    using assms(1) by (auto simp: patient_def dest: in_set_dropD)
  then show ?thesis
    using dap_send_mailbox [of budget ?m request] assms dap_receive_mailbox
    by (simp add: dap_exchange_def add.commute)
qed

theorem dap_exchange_transfers_witness:
  "dap_exchange mailbox_io 2 \<lparr>mb_polls = [1, 2], mb_sent = [], mb_reply = [5, 0]\<rparr> [5, 7] [0, 0, 0] =
     ((\<lparr>mb_polls = drop (length [5, 7 :: u8] + length [5, 0 :: u8]) [1, 2],
        mb_sent = framed_words [5, 7], mb_reply = []\<rparr>, copy_into [0, 0, 0] 0 [5, 0]), Inr (length [5, 0 :: u8]))"
  by (rule dap_exchange_transfers) (simp_all add: patient_def)

text \<open>A command engine that never becomes ready, with the accesses it has seen.\<close>

definition wedged_io :: "(nat list \<times> nat list) register_io" where
  "wedged_io = with_defaults (\<lambda>offset (rs, ws). (0, (offset # rs, ws))) (\<lambda>offset w (rs, ws). (rs, offset # ws))"

lemma dap_wait_wedged:
  "dap_wait wedged_io bits budget (rs, ws) = ((replicate (Suc budget) reg_dap_status @ rs, ws), False)"
  by (induction budget arbitrary: rs) (simp_all add: wedged_io_def with_defaults_def replicate_app_Cons_same)


text \<open>
  Property C9. The two connections. In any state between frames, with any part of a frame already
  received, feeding further input does what the host's framing says of the bytes received so far
  and the input together: a complete payload is handed to the controller once, exactly as it was
  sent, and its reply is returned with the number of input bytes used; a declared length over the
  limit is refused; anything else is kept for the next call and the hardware is not touched.
  Whatever happens, the connection is again between frames, so no error ends the service.
\<close>

theorem connections_serve_frames:
  assumes "fd_wf d" and "\<not> ready d"
  shows "feed_spec (command_op R) (\<lambda>_. BadControlRequest) (length (payload d)) (fd_bytes d) io response input
      (control_feed R d io response input)
    \<and> feed_spec (dap_exchange R budget) Dap (length (payload d)) (fd_bytes d) io response input
      (dap_feed R budget d io response input)"
  unfolding control_feed_def dap_feed_def by (intro conjI connection_feed_spec assms)

theorem connections_serve_frames_witness:
  "feed_spec (command_op mailbox_io) (\<lambda>_. BadControlRequest) 4096 []
      \<lparr>mb_polls = [], mb_sent = [], mb_reply = []\<rparr> [0, 0, 0, 0, 0] [3, 0]
      (control_feed mailbox_io control_connection \<lparr>mb_polls = [], mb_sent = [], mb_reply = []\<rparr>
        [0, 0, 0, 0, 0] [3, 0])"
  using connections_serve_frames [of control_connection mailbox_io
      "\<lparr>mb_polls = [], mb_sent = [], mb_reply = []\<rparr>" "[0, 0, 0, 0, 0]" "[3, 0]" 0]
  by (simp add: control_connection_def max_control_payload_def)

section \<open>The contract of the M3 memory\<close>

text \<open>
  What the load path needs of an implementation of \<open>RegisterIo\<close>: a memory of the size of the
  window that word-aligned writes and reads access byte for byte, that register writes do not
  touch, and states in which nothing has gone wrong.
\<close>

locale m3_memory =
  fixes R :: "'io register_io"
    and bram :: "'io \<Rightarrow> bytes"
    and good :: "'io \<Rightarrow> bool"
  assumes bram_size: "good io \<Longrightarrow> length (bram io) = m3_bram_size"
    and write_law: "good io \<Longrightarrow> offset mod 4 = 0 \<Longrightarrow> offset + length data \<le> m3_bram_size \<Longrightarrow>
      good (rio_write_m3_bram R offset data io)
      \<and> bram (rio_write_m3_bram R offset data io) = copy_into (bram io) offset data"
    and read_law: "good io \<Longrightarrow> offset mod 4 = 0 \<Longrightarrow> offset + n \<le> m3_bram_size \<Longrightarrow>
      rio_read_m3_bram R offset n io = (f, io') \<Longrightarrow>
      good io' \<and> bram io' = bram io \<and> map f [0..<n] = slice_of offset (offset + n) (bram io)"
    and register_law: "good io \<Longrightarrow> good (rio_write R reg_m3_control v io) \<and> bram (rio_write R reg_m3_control v io) = bram io"
begin

lemma load_chunk:
  assumes "good io" "offset mod 4 = 0" "offset + length data \<le> m3_bram_size" "response \<noteq> []"
  shows "\<exists>io'. command_op R io (command_encode (LoadM3Chunk (of_nat offset) data)) response =
      ((io', response[0 := 0]), Inr 1) \<and> good io' \<and> bram io' = copy_into (bram io) offset data
      \<and> io' = rio_write_m3_bram R offset data io"
proof -
  obtain a b c d where w: "u32_le (of_nat offset) = [a, b, c, d]" by (rule u32_le_cases)
  have small: "offset < 2 ^ 32" using assms(3) by (simp add: m3_bram_size_def)
  have "from_le [a, b, c, d] = (of_nat offset :: u32)"
    using w from_le_to_le [where w = "of_nat offset :: u32" and n = 4] by simp
  then have "unat (from_le [a, b, c, d] :: u32) = offset" using small by simp
  then have "command_op R io (command_encode (LoadM3Chunk (of_nat offset) data)) response =
      ((rio_write_m3_bram R offset data io, response[0 := 0]), Inr 1)"
    using assms(3,4) w
    by (simp add: command_op_def command_encode_def protocol_version_def Let_def slice_of_def
        checked_add_usize_def ack_def usize_max_def m3_bram_size_def)
  with write_law [OF assms(1-3)] show ?thesis by auto
qed

lemma read_back:
  assumes "good io" "offset mod 4 = 0" "offset + n \<le> m3_bram_size" "n \<le> length response" "n < 2 ^ 16"
    "response \<noteq> []"
  shows "\<exists>io'. command_op R io (command_encode (ReadM3Bram (of_nat offset) (of_nat n))) response =
      ((io', copy_into response 0 (slice_of offset (offset + n) (bram io))), Inr n)
      \<and> good io' \<and> bram io' = bram io \<and> io' = snd (rio_read_m3_bram R offset n io)"
proof -
  obtain a b c d where w: "u32_le (of_nat offset) = [a, b, c, d]" by (rule u32_le_cases)
  obtain x y where l: "u16_le (of_nat n) = [x, y]" by (rule u16_le_cases)
  have small: "offset < 2 ^ 32" using assms(3) by (simp add: m3_bram_size_def)
  have "from_le [a, b, c, d] = (of_nat offset :: u32)" "from_le [x, y] = (of_nat n :: u16)"
    using w l from_le_to_le [where w = "of_nat offset :: u32" and n = 4]
      from_le_to_le [where w = "of_nat n :: u16" and n = 2] by simp_all
  then have u: "unat (from_le [a, b, c, d] :: u32) = offset" "unat (from_le [x, y] :: u16) = n"
    using small assms(5) by simp_all
  obtain f io' where rd: "rio_read_m3_bram R offset n io = (f, io')"
    by (cases "rio_read_m3_bram R offset n io")
  have "command_op R io (command_encode (ReadM3Bram (of_nat offset) (of_nat n))) response =
      ((io', copy_into response 0 (map f [0..<n])), Inr n)"
    using assms(3,4,6) w l u rd
    by (simp add: command_op_def command_encode_def protocol_version_def Let_def slice_of_def
        checked_add_usize_def usize_max_def m3_bram_size_def)
  with read_law [OF assms(1-3) rd] rd show ?thesis by auto
qed

lemma m3_control:
  assumes "good io" "response \<noteq> []"
  shows "command_op R io (command_encode (M3Control bits)) response =
      ((rio_write R reg_m3_control (ucast bits) io, response[0 := 0]), Inr 1)"
    and "good (rio_write R reg_m3_control (ucast bits) io)"
    and "bram (rio_write R reg_m3_control (ucast bits) io) = bram io"
  using assms register_law [OF assms(1)]
  by (simp_all add: command_op_def command_encode_def protocol_version_def Let_def ack_def)

end

end
