(* ===== verification/Coresight.thy ===== *)
theory Coresight
  imports Prelude
begin

text \<open>
  The module \<open>coresight\<close> of \<open>applications/orbtrace/firmware/a53/src/lib.rs\<close>: the register
  writes that route a trace unit to the trace port (\<open>select\<close>), start it (\<open>enable_trace\<close>) and
  turn on the formatter (\<open>enable_tpiu_formatter\<close>). The reference is a CoreSight system with the
  rules the comments of the source cite: software locks, the OS lock, no programming of an
  enabled trace unit, and continuous formatting only from a stopped formatter.
\<close>

section \<open>Addresses and values\<close>

definition coresight_unlock :: u32 where "coresight_unlock = 0xc5acce55"
definition coresight_base :: nat where "coresight_base = 0xfe800000"
definition r5_0_etm :: nat where "r5_0_etm = coresight_base + 0x003fc000"
definition a53_1_etm :: nat where "a53_1_etm = coresight_base + 0x00540000"
definition funnel_rpu :: nat where "funnel_rpu = coresight_base + 0x00110000"
definition funnel_apu :: nat where "funnel_apu = coresight_base + 0x00120000"
definition funnel_system :: nat where "funnel_system = coresight_base + 0x00130000"
definition tpiu :: nat where "tpiu = coresight_base + 0x00180000"
definition lar :: nat where "lar = 0xfb0"
definition funnel_control :: nat where "funnel_control = 0x000"
definition tpiu_ffcr :: nat where "tpiu_ffcr = 0x304"
definition ffcr_stop_on_flush :: u32 where "ffcr_stop_on_flush = push_bit 12 1"
definition ffcr_manual_flush :: u32 where "ffcr_manual_flush = push_bit 6 1"
definition ffcr_enfcont :: u32 where "ffcr_enfcont = push_bit 1 1"

definition trcprgctlr :: nat where "trcprgctlr = 0x004"
definition trcconfigr :: nat where "trcconfigr = 0x010"
definition trcauxctlr :: nat where "trcauxctlr = 0x018"
definition trceventctl0r :: nat where "trceventctl0r = 0x020"
definition trceventctl1r :: nat where "trceventctl1r = 0x024"
definition trcstallctlr :: nat where "trcstallctlr = 0x02c"
definition trctsctlr :: nat where "trctsctlr = 0x030"
definition trcsyncpr :: nat where "trcsyncpr = 0x034"
definition trcccctlr :: nat where "trcccctlr = 0x038"
definition trcbbctlr :: nat where "trcbbctlr = 0x03c"
definition trctraceidr :: nat where "trctraceidr = 0x040"
definition trcvictlr :: nat where "trcvictlr = 0x080"
definition trcviiectlr :: nat where "trcviiectlr = 0x084"
definition trcvissctlr :: nat where "trcvissctlr = 0x088"
definition trcoslar :: nat where "trcoslar = 0x300"

definition prgctlr_en :: u32 where "prgctlr_en = 1"
definition victlr_always_trace :: u32 where "victlr_always_trace = 1"
definition trace_id_r5_0 :: u32 where "trace_id_r5_0 = 0x10"
definition trace_id_a53_1 :: u32 where "trace_id_a53_1 = 0x20"
definition syncpr_512_bytes :: u32 where "syncpr_512_bytes = 8"
definition auxctlr_syncdelay :: u32 where "auxctlr_syncdelay = push_bit 3 1"

lemmas coresight_bases = r5_0_etm_def a53_1_etm_def funnel_rpu_def funnel_apu_def funnel_system_def
  tpiu_def coresight_base_def

lemmas coresight_offsets = lar_def funnel_control_def tpiu_ffcr_def trcprgctlr_def trcconfigr_def
  trcauxctlr_def trceventctl0r_def trceventctl1r_def trcstallctlr_def trctsctlr_def trcsyncpr_def
  trcccctlr_def trcbbctlr_def trctraceidr_def trcvictlr_def trcviiectlr_def trcvissctlr_def trcoslar_def

lemmas coresight_values = coresight_unlock_def ffcr_stop_on_flush_def ffcr_manual_flush_def
  ffcr_enfcont_def prgctlr_en_def victlr_always_trace_def trace_id_r5_0_def trace_id_a53_1_def
  syncpr_512_bytes_def auxctlr_syncdelay_def

section \<open>The write sequences\<close>

text \<open>\<open>write32\<close> of the trait \<open>Mmio\<close> is the argument; a sequence of calls is a list of writes.\<close>

type_synonym 'm write32 = "nat \<Rightarrow> u32 \<Rightarrow> 'm \<Rightarrow> 'm"

definition write_all :: "'m write32 \<Rightarrow> (nat \<times> u32) list \<Rightarrow> 'm \<Rightarrow> 'm" where
  "write_all w ws m = foldl (\<lambda>m (address, v). w address v m) m ws"

definition etm_of :: "bool \<Rightarrow> nat" where
  "etm_of a53_1 = (if a53_1 then a53_1_etm else r5_0_etm)"

definition coresight_select :: "'m write32 \<Rightarrow> bool \<Rightarrow> 'm \<Rightarrow> 'm" where
  "coresight_select w a53_1 = write_all w
     [(etm_of a53_1 + lar, coresight_unlock),
      (funnel_rpu + lar, coresight_unlock),
      (funnel_apu + lar, coresight_unlock),
      (funnel_system + lar, coresight_unlock),
      (tpiu + lar, coresight_unlock),
      (funnel_rpu + funnel_control, if a53_1 then 0 else 1),
      (funnel_apu + funnel_control, if a53_1 then 2 else 0),
      (funnel_system + funnel_control, if a53_1 then 2 else 1)]"

definition enable_tpiu_formatter :: "'m write32 \<Rightarrow> 'm \<Rightarrow> 'm" where
  "enable_tpiu_formatter w = write_all w
     [(tpiu + tpiu_ffcr, ffcr_stop_on_flush),
      (tpiu + tpiu_ffcr, ffcr_stop_on_flush OR ffcr_manual_flush),
      (tpiu + tpiu_ffcr, ffcr_enfcont)]"

definition enable_trace :: "'m write32 \<Rightarrow> bool \<Rightarrow> 'm \<Rightarrow> 'm" where
  "enable_trace w a53_1 m =
     (let etm = etm_of a53_1;
          trace_id = (if a53_1 then trace_id_a53_1 else trace_id_r5_0)
      in enable_tpiu_formatter w (write_all w
        [(etm + trcoslar, 0),
         (etm + trcprgctlr, 0),
         (etm + trcconfigr, 0),
         (etm + trcauxctlr, auxctlr_syncdelay),
         (etm + trceventctl0r, 0),
         (etm + trceventctl1r, 0),
         (etm + trcstallctlr, 0),
         (etm + trctsctlr, 0),
         (etm + trcsyncpr, syncpr_512_bytes),
         (etm + trcccctlr, 0),
         (etm + trcbbctlr, 0),
         (etm + trctraceidr, trace_id),
         (etm + trcviiectlr, 0),
         (etm + trcvissctlr, 0),
         (etm + trcvictlr, victlr_always_trace),
         (etm + trcprgctlr, prgctlr_en)] m))"

section \<open>A CoreSight system\<close>

text \<open>
  Registers by address and software locks by component. A write to a locked component is lost;
  so is one to a trace unit whose OS lock is set, or that is enabled, except to the registers
  that lift these conditions. The formatter stops on a manual flush with stop-on-flush set, and
  takes up continuous formatting only when it is stopped.
\<close>

record cs_system =
  cs_regs :: "nat \<Rightarrow> u32"
  cs_unlocked :: "nat \<Rightarrow> bool"
  cs_stopped :: bool

definition is_etm :: "nat \<Rightarrow> bool" where
  "is_etm base \<longleftrightarrow> base = r5_0_etm \<or> base = a53_1_etm"

definition cs_set :: "nat \<Rightarrow> u32 \<Rightarrow> cs_system \<Rightarrow> cs_system" where
  "cs_set address v s = s\<lparr>cs_regs := (cs_regs s)(address := v)\<rparr>"

definition cs_write :: "cs_system write32" where
  "cs_write address v s =
     (let base = address div 0x1000 * 0x1000; offset = address mod 0x1000 in
      if offset = lar then s\<lparr>cs_unlocked := (cs_unlocked s)(base := (v = coresight_unlock))\<rparr>
      else if \<not> cs_unlocked s base then s
      else if is_etm base \<and> offset \<noteq> trcoslar \<and> cs_regs s (base + trcoslar) \<noteq> 0 then s
      else if is_etm base \<and> offset \<noteq> trcoslar \<and> offset \<noteq> trcprgctlr
        \<and> cs_regs s (base + trcprgctlr) \<noteq> 0 then s
      else if base = tpiu \<and> offset = tpiu_ffcr then
        (if v AND ffcr_enfcont \<noteq> 0 \<and> \<not> cs_stopped s then s
         else cs_set address v s\<lparr>cs_stopped :=
           (v AND ffcr_stop_on_flush \<noteq> 0 \<and> v AND ffcr_manual_flush \<noteq> 0)\<rparr>)
      else cs_set address v s)"

text \<open>What a traced configuration is: these registers, and continuous formatting.\<close>

definition tracing :: "bool \<Rightarrow> cs_system \<Rightarrow> bool" where
  "tracing a53_1 s \<longleftrightarrow>
     (let etm = etm_of a53_1; reg = (\<lambda>offset. cs_regs s (etm + offset)) in
      reg trcoslar = 0 \<and> reg trcprgctlr = prgctlr_en \<and> reg trcconfigr = 0
      \<and> reg trcauxctlr = auxctlr_syncdelay \<and> reg trceventctl0r = 0 \<and> reg trceventctl1r = 0
      \<and> reg trcstallctlr = 0 \<and> reg trctsctlr = 0 \<and> reg trcsyncpr = syncpr_512_bytes
      \<and> reg trcccctlr = 0 \<and> reg trcbbctlr = 0 \<and> reg trcviiectlr = 0 \<and> reg trcvissctlr = 0
      \<and> reg trcvictlr = victlr_always_trace
      \<and> reg trctraceidr = (if a53_1 then trace_id_a53_1 else trace_id_r5_0)
      \<and> cs_regs s funnel_rpu = (if a53_1 then 0 else 1)
      \<and> cs_regs s funnel_apu = (if a53_1 then 2 else 0)
      \<and> cs_regs s funnel_system = (if a53_1 then 2 else 1)
      \<and> cs_regs s (tpiu + tpiu_ffcr) = ffcr_enfcont \<and> \<not> cs_stopped s)"

lemma write_all_simps [simp]:
  "write_all w [] m = m"
  "write_all w ((a, v) # ws) m = write_all w ws (w a v m)"
  by (simp_all add: write_all_def)

definition page :: "nat \<Rightarrow> bool" where
  "page base \<longleftrightarrow> base mod 0x1000 = 0"

lemma page_parts:
  assumes "page base" "offset < 0x1000"
  shows "(base + offset) div 0x1000 * 0x1000 = base" "(base + offset) mod 0x1000 = offset"
proof -
  obtain k where "base = 0x1000 * k" using assms(1) by (auto simp: page_def elim: dvdE [OF mod_0_imp_dvd])
  then show "(base + offset) div 0x1000 * 0x1000 = base" "(base + offset) mod 0x1000 = offset"
    using assms(2) by simp_all
qed

lemma pages [simp]: "page r5_0_etm" "page a53_1_etm" "page funnel_rpu" "page funnel_apu"
    "page funnel_system" "page tpiu"
  by (simp_all add: page_def coresight_bases)

lemma page_neq [simp]:
  "r5_0_etm \<noteq> a53_1_etm" "a53_1_etm \<noteq> r5_0_etm" "tpiu \<noteq> r5_0_etm" "tpiu \<noteq> a53_1_etm"
  "r5_0_etm \<noteq> tpiu" "a53_1_etm \<noteq> tpiu"
  "funnel_rpu \<noteq> tpiu" "funnel_apu \<noteq> tpiu" "funnel_system \<noteq> tpiu"
  "tpiu \<noteq> funnel_rpu" "tpiu \<noteq> funnel_apu" "tpiu \<noteq> funnel_system"
  "funnel_rpu \<noteq> funnel_apu" "funnel_rpu \<noteq> funnel_system" "funnel_apu \<noteq> funnel_system"
  "funnel_apu \<noteq> funnel_rpu" "funnel_system \<noteq> funnel_rpu" "funnel_system \<noteq> funnel_apu"
  "funnel_rpu \<noteq> r5_0_etm" "funnel_rpu \<noteq> a53_1_etm" "funnel_apu \<noteq> r5_0_etm"
  "funnel_apu \<noteq> a53_1_etm" "funnel_system \<noteq> r5_0_etm" "funnel_system \<noteq> a53_1_etm"
  "r5_0_etm \<noteq> funnel_rpu" "a53_1_etm \<noteq> funnel_rpu" "r5_0_etm \<noteq> funnel_apu"
  "a53_1_etm \<noteq> funnel_apu" "r5_0_etm \<noteq> funnel_system" "a53_1_etm \<noteq> funnel_system"
  by (simp_all add: coresight_bases)

lemma is_etm_simps [simp]: "is_etm r5_0_etm" "is_etm a53_1_etm" "\<not> is_etm funnel_rpu"
    "\<not> is_etm funnel_apu" "\<not> is_etm funnel_system" "\<not> is_etm tpiu"
  by (simp_all add: is_etm_def)

text \<open>Two registers are the same only in the same component.\<close>

lemma register_eq:
  assumes "page b" "page b'" "o1 < 0x1000" "o2 < 0x1000"
  shows "b + o1 = b' + o2 \<longleftrightarrow> b = b' \<and> o1 = o2"
  using page_parts [OF assms(1,3)] page_parts [OF assms(2,4)] by metis

lemma cs_write_lock:
  assumes "page base"
  shows "cs_write (base + lar) coresight_unlock s = s\<lparr>cs_unlocked := (cs_unlocked s)(base := True)\<rparr>"
proof -
  have "lar < 0x1000" by (simp add: lar_def)
  note p = page_parts [OF assms this]
  show ?thesis unfolding cs_write_def Let_def p by simp
qed

lemma cs_write_funnel:
  assumes "page base" "\<not> is_etm base" "base \<noteq> tpiu" "cs_unlocked s base"
  shows "cs_write (base + funnel_control) v s = cs_set (base + funnel_control) v s"
proof -
  have "funnel_control < 0x1000" "funnel_control \<noteq> lar" by (simp_all add: coresight_offsets)
  note p = page_parts [OF assms(1) this(1)] this(2)
  show ?thesis unfolding cs_write_def Let_def p(1,2) using assms p(3) by simp
qed

lemma cs_write_etm:
  assumes "page base" "is_etm base" "base \<noteq> tpiu" "cs_unlocked s base" "offset < 0x1000" "offset \<noteq> lar"
    "offset = trcoslar \<or> cs_regs s (base + trcoslar) = 0"
    "offset = trcoslar \<or> offset = trcprgctlr \<or> cs_regs s (base + trcprgctlr) = 0"
  shows "cs_write (base + offset) v s = cs_set (base + offset) v s"
  unfolding cs_write_def Let_def page_parts [OF assms(1,5)] using assms by auto

lemma etm_of_simps [simp]: "page (etm_of a)" "is_etm (etm_of a)" "etm_of a \<noteq> tpiu"
    "etm_of a \<noteq> funnel_rpu" "etm_of a \<noteq> funnel_apu" "etm_of a \<noteq> funnel_system" "tpiu \<noteq> etm_of a"
    "etm_of (\<not> a) \<noteq> etm_of a" "funnel_rpu \<noteq> etm_of a" "funnel_apu \<noteq> etm_of a" "funnel_system \<noteq> etm_of a"
  by (simp_all add: etm_of_def)

lemma coresight_select_effect:
  "coresight_select cs_write a s =
     cs_set (funnel_system + funnel_control) (if a then 2 else 1)
      (cs_set (funnel_apu + funnel_control) (if a then 2 else 0)
       (cs_set (funnel_rpu + funnel_control) (if a then 0 else 1)
        (s\<lparr>cs_unlocked := (cs_unlocked s)(etm_of a := True, funnel_rpu := True, funnel_apu := True,
           funnel_system := True, tpiu := True)\<rparr>)))"
  unfolding coresight_select_def write_all_simps
  by (simp add: cs_write_lock cs_write_funnel cs_set_def)

definition program :: "nat \<Rightarrow> (nat \<times> u32) list \<Rightarrow> (nat \<Rightarrow> u32) \<Rightarrow> nat \<Rightarrow> u32" where
  "program base cfg r = foldl (\<lambda>r (offset, v). r(base + offset := v)) r cfg"

lemma program_simps [simp]:
  "program base [] r = r"
  "program base ((offset, v) # cfg) r = program base cfg (r(base + offset := v))"
  by (simp_all add: program_def)

definition programmable :: "nat \<Rightarrow> bool" where
  "programmable offset \<longleftrightarrow> offset < 0x1000 \<and> offset \<noteq> lar \<and> offset \<noteq> trcoslar \<and> offset \<noteq> trcprgctlr"

lemma small_offsets [simp]: "trcoslar < 0x1000" "trcprgctlr < 0x1000" "tpiu_ffcr < 0x1000" "funnel_control < 0x1000"
    "trcoslar \<noteq> lar" "trcprgctlr \<noteq> lar" "trcoslar \<noteq> trcprgctlr" "tpiu_ffcr \<noteq> lar"
  by (simp_all add: coresight_offsets)

lemma write_etm_config:
  assumes "page etm" "is_etm etm" "etm \<noteq> tpiu" "cs_unlocked s etm"
    "cs_regs s (etm + trcoslar) = 0" "cs_regs s (etm + trcprgctlr) = 0" "list_all (programmable \<circ> fst) cfg"
  shows "write_all cs_write (map (apfst ((+) etm)) cfg) s = s\<lparr>cs_regs := program etm cfg (cs_regs s)\<rparr>"
  using assms
proof (induction cfg arbitrary: s)
  case (Cons c cfg)
  obtain offset v where c: "c = (offset, v)" by (cases c)
  have pr: "programmable offset" using Cons.prems(7) by (simp add: c)
  then have "cs_write (etm + offset) v s = cs_set (etm + offset) v s"
    using Cons.prems by (intro cs_write_etm) (simp_all add: programmable_def)
  moreover have "etm + offset \<noteq> etm + trcoslar" "etm + offset \<noteq> etm + trcprgctlr"
    using pr by (simp_all add: programmable_def)
  ultimately show ?case
    using Cons.IH [of "cs_set (etm + offset) v s"] Cons.prems by (simp add: c cs_set_def fun_upd_def)
qed simp

definition etm_config :: "bool \<Rightarrow> (nat \<times> u32) list" where
  "etm_config a =
     [(trcconfigr, 0), (trcauxctlr, auxctlr_syncdelay), (trceventctl0r, 0), (trceventctl1r, 0),
      (trcstallctlr, 0), (trctsctlr, 0), (trcsyncpr, syncpr_512_bytes), (trcccctlr, 0), (trcbbctlr, 0),
      (trctraceidr, if a then trace_id_a53_1 else trace_id_r5_0), (trcviiectlr, 0), (trcvissctlr, 0),
      (trcvictlr, victlr_always_trace)]"

lemma programmable_config [simp]: "list_all (programmable \<circ> fst) (etm_config a)"
  by (simp add: etm_config_def programmable_def coresight_offsets)

lemma write_all_append: "write_all w (xs @ ys) m = write_all w ys (write_all w xs m)"
  by (simp add: write_all_def)

lemma enable_trace_split:
  "enable_trace w a m = enable_tpiu_formatter w (w (etm_of a + trcprgctlr) prgctlr_en
     (write_all w (map (apfst ((+) (etm_of a))) (etm_config a))
       (w (etm_of a + trcprgctlr) 0 (w (etm_of a + trcoslar) 0 m))))"
  by (simp add: enable_trace_def etm_config_def Let_def)

lemma formatter_values:
  "ffcr_stop_on_flush AND ffcr_enfcont = 0" "(ffcr_stop_on_flush OR ffcr_manual_flush) AND ffcr_enfcont = 0"
  "(ffcr_stop_on_flush OR ffcr_manual_flush) AND ffcr_stop_on_flush \<noteq> 0"
  "(ffcr_stop_on_flush OR ffcr_manual_flush) AND ffcr_manual_flush \<noteq> 0"
  "ffcr_enfcont AND ffcr_stop_on_flush = 0" "ffcr_stop_on_flush \<noteq> 0" "ffcr_manual_flush \<noteq> 0" "ffcr_enfcont \<noteq> 0"
  by (simp_all add: coresight_values)

lemma formatter_effect:
  assumes "cs_unlocked s tpiu"
  shows "enable_tpiu_formatter cs_write s =
    s\<lparr>cs_regs := (cs_regs s)(tpiu + tpiu_ffcr := ffcr_enfcont), cs_stopped := False\<rparr>"
proof -
  have w: "cs_write (tpiu + tpiu_ffcr) v s' =
      (if v AND ffcr_enfcont \<noteq> 0 \<and> \<not> cs_stopped s' then s'
       else cs_set (tpiu + tpiu_ffcr) v s'\<lparr>cs_stopped :=
         (v AND ffcr_stop_on_flush \<noteq> 0 \<and> v AND ffcr_manual_flush \<noteq> 0)\<rparr>)"
    if "cs_unlocked s' tpiu" for v s'
    unfolding cs_write_def Let_def page_parts [OF pages(6) small_offsets(3)] using that by simp
  show ?thesis
    using assms by (simp add: enable_tpiu_formatter_def w formatter_values cs_set_def)
qed

lemma program_other:
  "(\<forall>(offset, v) \<in> set cfg. address \<noteq> base + offset) \<Longrightarrow> program base cfg r address = r address"
  by (induction cfg arbitrary: r) auto

lemma enable_trace_effect:
  assumes "cs_unlocked s (etm_of a)" "cs_unlocked s tpiu"
  shows "enable_trace cs_write a s = s\<lparr>cs_regs := (program (etm_of a) (etm_config a)
       ((cs_regs s)(etm_of a + trcoslar := 0, etm_of a + trcprgctlr := 0)))
      (etm_of a + trcprgctlr := prgctlr_en, tpiu + tpiu_ffcr := ffcr_enfcont), cs_stopped := False\<rparr>"
proof -
  let ?e = "etm_of a"
  let ?s2 = "cs_set (?e + trcprgctlr) 0 (cs_set (?e + trcoslar) 0 s)"
  have 1: "cs_write (?e + trcoslar) 0 s = cs_set (?e + trcoslar) 0 s"
    using assms by (intro cs_write_etm) simp_all
  have 2: "cs_write (?e + trcprgctlr) 0 (cs_set (?e + trcoslar) 0 s) = ?s2"
    using assms by (intro cs_write_etm) (simp_all add: cs_set_def)
  let ?s3 = "?s2\<lparr>cs_regs := program ?e (etm_config a) (cs_regs ?s2)\<rparr>"
  have 3: "write_all cs_write (map (apfst ((+) ?e)) (etm_config a)) ?s2 = ?s3"
    using assms by (intro write_etm_config) (simp_all add: cs_set_def)
  have "\<forall>(offset, v) \<in> set (etm_config a). ?e + trcoslar \<noteq> ?e + offset"
    using programmable_config [of a] by (auto simp: list_all_iff programmable_def)
  then have "cs_regs ?s3 (?e + trcoslar) = 0"
    by (simp add: program_other cs_set_def)
  then have 4: "cs_write (?e + trcprgctlr) prgctlr_en ?s3 = cs_set (?e + trcprgctlr) prgctlr_en ?s3"
    using assms by (intro cs_write_etm) (simp_all add: cs_set_def)
  show ?thesis
    unfolding enable_trace_split 1 2 3 4 using assms(2)
    by (subst formatter_effect) (simp_all add: cs_set_def)
qed

lemma etm_register:
  "o1 < 0x1000 \<Longrightarrow> o2 < 0x1000 \<Longrightarrow> etm_of a + o1 \<noteq> tpiu + o2"
  "o1 < 0x1000 \<Longrightarrow> o2 < 0x1000 \<Longrightarrow> etm_of (\<not> a) + o1 \<noteq> etm_of a + o2"
  "o2 < 0x1000 \<Longrightarrow> funnel_rpu \<noteq> etm_of a + o2" "o2 < 0x1000 \<Longrightarrow> funnel_apu \<noteq> etm_of a + o2"
  "o2 < 0x1000 \<Longrightarrow> funnel_system \<noteq> etm_of a + o2"
  using register_eq [of "etm_of a" tpiu o1 o2] register_eq [of "etm_of (\<not> a)" "etm_of a" o1 o2]
    register_eq [of funnel_rpu "etm_of a" 0 o2] register_eq [of funnel_apu "etm_of a" 0 o2]
    register_eq [of funnel_system "etm_of a" 0 o2]
  by simp_all

lemma config_offsets: "(offset, v) \<in> set (etm_config a) \<Longrightarrow> offset < 0x1000"
  using programmable_config [of a] by (auto simp: list_all_iff programmable_def)

text \<open>
  Starting a trace. From every state of the CoreSight system -- all components locked,
  a trace unit already enabled, its OS lock set, the formatter running in bypass -- selecting a
  source and enabling its trace leaves that trace unit enabled with exactly the programmed
  configuration, the funnels routing it and nothing else, and the formatter in continuous mode;
  no register of the other trace unit is touched. Each write takes effect because of the ones
  before it: the order of the sequence satisfies every lock and precondition.
\<close>

theorem enable_trace_traces:
  "tracing a53_1 (enable_trace cs_write a53_1 (coresight_select cs_write a53_1 s))
   \<and> (\<lambda>offset. cs_regs (enable_trace cs_write a53_1 (coresight_select cs_write a53_1 s))
         (etm_of (\<not> a53_1) + offset mod 0x1000))
       = (\<lambda>offset. cs_regs s (etm_of (\<not> a53_1) + offset mod 0x1000))"
proof
  let ?a = a53_1 and ?e = "etm_of a53_1"
  let ?s1 = "coresight_select cs_write ?a s"
  have unl: "cs_unlocked ?s1 ?e" "cs_unlocked ?s1 tpiu"
    unfolding coresight_select_effect by (simp_all add: cs_set_def)
  note eff = enable_trace_effect [OF unl]
  have other: "program ?e (etm_config ?a) r address = r address"
    if "\<And>offset. offset < 0x1000 \<Longrightarrow> address \<noteq> ?e + offset" for r address
    using that config_offsets by (intro program_other) fastforce
  have page0: "funnel_rpu \<noteq> tpiu + tpiu_ffcr" "funnel_apu \<noteq> tpiu + tpiu_ffcr" "funnel_system \<noteq> tpiu + tpiu_ffcr"
    by (simp_all add: coresight_bases tpiu_ffcr_def)
  have funnels: "cs_regs ?s1 funnel_rpu = (if ?a then 0 else 1)" "cs_regs ?s1 funnel_apu = (if ?a then 2 else 0)"
    "cs_regs ?s1 funnel_system = (if ?a then 2 else 1)"
    unfolding coresight_select_effect by (simp_all add: cs_set_def funnel_control_def)
  have cfg: "program ?e (etm_config ?a) r (?e + trcoslar) = r (?e + trcoslar)" for r
    using programmable_config [of ?a]
    by (intro program_other) (auto simp: list_all_iff programmable_def)
  let ?R = "cs_regs (enable_trace cs_write ?a ?s1)"
  have etm: "?R (?e + offset) = (if offset = trcprgctlr then prgctlr_en
      else program ?e (etm_config ?a) ((cs_regs ?s1)(?e + trcoslar := 0, ?e + trcprgctlr := 0)) (?e + offset))"
    if "offset < 0x1000" for offset
    using etm_register(1) [OF that small_offsets(3)] by (simp add: eff)
  have conf: "programmable offset \<Longrightarrow> offset < 0x1000 \<and> offset \<noteq> trcprgctlr" for offset
    by (simp add: programmable_def)
  have fun_regs: "?R funnel_rpu = (if ?a then 0 else 1)" "?R funnel_apu = (if ?a then 2 else 0)"
      "?R funnel_system = (if ?a then 2 else 1)"
    using etm_register(3-5) [of _ ?a] page0 by (simp_all add: eff other funnels)
  have misc: "?R (tpiu + tpiu_ffcr) = ffcr_enfcont" "\<not> cs_stopped (enable_trace cs_write ?a ?s1)"
    by (simp_all add: eff)
  have osl: "?R (?e + trcoslar) = 0" "?R (?e + trcprgctlr) = prgctlr_en"
    by (simp_all add: etm cfg)
  have cfgs: "list_all (\<lambda>(offset, v). ?R (?e + offset) = v) (etm_config ?a)"
    using etm by (simp add: etm_config_def coresight_offsets)
  show "tracing ?a (enable_trace cs_write ?a ?s1)"
    using cfgs unfolding tracing_def Let_def fun_regs misc osl
    by (simp add: etm_config_def misc)
  show "(\<lambda>offset. ?R (etm_of (\<not> ?a) + offset mod 0x1000))
      = (\<lambda>offset. cs_regs s (etm_of (\<not> ?a) + offset mod 0x1000))"
  proof
    fix offset :: nat
    let ?o = "offset mod 0x1000"
    have o: "?o < 0x1000" by simp
    have t: "etm_of (\<not> ?a) + ?o \<noteq> tpiu + tpiu_ffcr"
      using etm_register(1) [OF o small_offsets(3), of "\<not> ?a"] .
    have e: "etm_of (\<not> ?a) + ?o \<noteq> ?e + o2" if "o2 < 0x1000" for o2
      using etm_register(2) [OF o that] .
    have f: "etm_of (\<not> ?a) + ?o \<noteq> base + funnel_control" if "page base" "etm_of (\<not> ?a) \<noteq> base" for base
      using register_eq [OF _ that(1) o small_offsets(4), of "etm_of (\<not> ?a)"] that(2) by simp
    have "?R (etm_of (\<not> ?a) + ?o) = cs_regs ?s1 (etm_of (\<not> ?a) + ?o)"
      using t e by (simp add: eff other)
    also have "\<dots> = cs_regs s (etm_of (\<not> ?a) + ?o)"
      unfolding coresight_select_effect using f by (simp add: cs_set_def)
    finally show "?R (etm_of (\<not> ?a) + ?o) = cs_regs s (etm_of (\<not> ?a) + ?o)" .
  qed
qed

end
