(* ===== verification/Board.thy ===== *)
theory Board
  imports Controller Coresight
begin

text \<open>
  The C boundary of the A53 firmware, \<open>applications/orbtrace/firmware/a53/src/ffi.rs\<close>: the
  implementation \<open>Mmio\<close> of the register interface on physical memory, the spinlock, and the
  two entry points the C service calls. Physical memory is the BRAM window, which is plain
  memory, and the remaining devices, a parameter. A volatile word access to an unaligned
  address is undefined behaviour of the language (and an alignment fault on device memory); it
  sets a flag that stays set.
\<close>

section \<open>Physical memory\<close>

definition orbtrace_axi_base :: nat where "orbtrace_axi_base = 0xa0000000"
definition axi_dma_base :: nat where "axi_dma_base = 0xa0010000"
definition m3_bram_base :: nat where "m3_bram_base = 0xa0020000"

record 'dev device =
  dev_read32 :: "nat \<Rightarrow> 'dev \<Rightarrow> u32 \<times> 'dev"
  dev_write32 :: "nat \<Rightarrow> u32 \<Rightarrow> 'dev \<Rightarrow> 'dev"
  dev_read8 :: "nat \<Rightarrow> 'dev \<Rightarrow> u8 \<times> 'dev"
  dev_write8 :: "nat \<Rightarrow> u8 \<Rightarrow> 'dev \<Rightarrow> 'dev"

record 'dev world =
  w_bram :: bytes
  w_fault :: bool
  w_dev :: 'dev

definition in_bram :: "nat \<Rightarrow> nat \<Rightarrow> bool" where
  "in_bram address n \<longleftrightarrow> m3_bram_base \<le> address \<and> address + n \<le> m3_bram_base + m3_bram_size"

definition read_volatile32 :: "'dev device \<Rightarrow> nat \<Rightarrow> 'dev world \<Rightarrow> u32 \<times> 'dev world" where
  "read_volatile32 D address w =
     (if address mod 4 \<noteq> 0 then (0, w\<lparr>w_fault := True\<rparr>)
      else if in_bram address 4 then
        (from_le (slice_of (address - m3_bram_base) (address - m3_bram_base + 4) (w_bram w)), w)
      else (case dev_read32 D address (w_dev w) of (v, d) \<Rightarrow> (v, w\<lparr>w_dev := d\<rparr>)))"

definition write_volatile32 :: "'dev device \<Rightarrow> nat \<Rightarrow> u32 \<Rightarrow> 'dev world \<Rightarrow> 'dev world" where
  "write_volatile32 D address v w =
     (if address mod 4 \<noteq> 0 then w\<lparr>w_fault := True\<rparr>
      else if in_bram address 4 then
        w\<lparr>w_bram := copy_into (w_bram w) (address - m3_bram_base) (u32_le v)\<rparr>
      else w\<lparr>w_dev := dev_write32 D address v (w_dev w)\<rparr>)"

definition read_volatile8 :: "'dev device \<Rightarrow> nat \<Rightarrow> 'dev world \<Rightarrow> u8 \<times> 'dev world" where
  "read_volatile8 D address w =
     (if in_bram address 1 then (w_bram w ! (address - m3_bram_base), w)
      else (case dev_read8 D address (w_dev w) of (v, d) \<Rightarrow> (v, w\<lparr>w_dev := d\<rparr>)))"

definition write_volatile8 :: "'dev device \<Rightarrow> nat \<Rightarrow> u8 \<Rightarrow> 'dev world \<Rightarrow> 'dev world" where
  "write_volatile8 D address v w =
     (if in_bram address 1 then w\<lparr>w_bram := (w_bram w)[address - m3_bram_base := v]\<rparr>
      else w\<lparr>w_dev := dev_write8 D address v (w_dev w)\<rparr>)"

section \<open>The register interface on physical memory\<close>

fun store_tail :: "'dev device \<Rightarrow> nat \<Rightarrow> bytes \<Rightarrow> 'dev world \<Rightarrow> 'dev world" where
  "store_tail D address [] w = w"
| "store_tail D address (b # bs) w = store_tail D (address + 1) bs (write_volatile8 D address b w)"

fun store_words :: "'dev device \<Rightarrow> nat \<Rightarrow> bytes \<Rightarrow> 'dev world \<Rightarrow> 'dev world" where
  "store_words D address (a # b # c # d # rest) w =
     store_words D (address + 4) rest (write_volatile32 D address (from_le [a, b, c, d]) w)"
| "store_words D address rest w = store_tail D address rest w"

definition mmio_write_m3_bram :: "'dev device \<Rightarrow> nat \<Rightarrow> bytes \<Rightarrow> 'dev world \<Rightarrow> 'dev world" where
  "mmio_write_m3_bram D offset data w = store_words D (m3_bram_base + offset) data w"

fun load_tail :: "'dev device \<Rightarrow> nat \<Rightarrow> nat \<Rightarrow> 'dev world \<Rightarrow> bytes \<times> 'dev world" where
  "load_tail D address 0 w = ([], w)"
| "load_tail D address (Suc n) w =
     (case read_volatile8 D address w of (b, w1) \<Rightarrow>
        case load_tail D (address + 1) n w1 of (bs, w2) \<Rightarrow> (b # bs, w2))"

function load_words :: "'dev device \<Rightarrow> nat \<Rightarrow> nat \<Rightarrow> 'dev world \<Rightarrow> bytes \<times> 'dev world" where
  "load_words D address n w =
     (if n < 4 then load_tail D address n w
      else case read_volatile32 D address w of (v, w1) \<Rightarrow>
        case load_words D (address + 4) (n - 4) w1 of (bs, w2) \<Rightarrow> (u32_le v @ bs, w2))"
  by pat_completeness auto
termination
  by (relation "measure (\<lambda>(D, address, n, w). n)") auto

declare load_words.simps [simp del]

definition mmio_read_m3_bram :: "'dev device \<Rightarrow> nat \<Rightarrow> nat \<Rightarrow> 'dev world \<Rightarrow> (nat \<Rightarrow> u8) \<times> 'dev world" where
  "mmio_read_m3_bram D offset n w =
     (case load_words D (m3_bram_base + offset) n w of (bs, w') \<Rightarrow> (\<lambda>i. bs ! i, w'))"

definition coresight_write32 :: "'dev device \<Rightarrow> 'dev world write32" where
  "coresight_write32 D = write_volatile32 D"

definition mmio :: "'dev device \<Rightarrow> 'dev world register_io" where
  "mmio D = \<lparr>
     rio_read = (\<lambda>offset. read_volatile32 D (orbtrace_axi_base + offset)),
     rio_write = (\<lambda>offset. write_volatile32 D (orbtrace_axi_base + offset)),
     rio_write_m3_bram = mmio_write_m3_bram D,
     rio_read_m3_bram = mmio_read_m3_bram D,
     rio_select_coresight = coresight_select (coresight_write32 D),
     rio_enable_trace = enable_trace (coresight_write32 D)\<rparr>"

definition world_ok :: "'dev world \<Rightarrow> bool" where
  "world_ok w \<longleftrightarrow> length (w_bram w) = m3_bram_size \<and> \<not> w_fault w"

lemma copy_into_append:
  "at + length (xs @ ys) \<le> length dst \<Longrightarrow>
   copy_into (copy_into dst at xs) (at + length xs) ys = copy_into dst at (xs @ ys)"
  by (rule nth_equalityI) (auto simp: nth_copy_into nth_append)

lemma store_tail_eq:
  "offset + length data \<le> m3_bram_size \<Longrightarrow> length (w_bram w) = m3_bram_size \<Longrightarrow>
   store_tail D (m3_bram_base + offset) data w = w\<lparr>w_bram := copy_into (w_bram w) offset data\<rparr>"
proof (induction data arbitrary: offset w)
  case Nil
  then show ?case by (simp add: copy_into_Nil)
next
  case (Cons b bs)
  from Cons.IH [of "offset + 1" "w\<lparr>w_bram := (w_bram w)[offset := b]\<rparr>"] Cons.prems show ?case
    by (simp add: write_volatile8_def in_bram_def copy_into_Cons)
qed

lemma store_words_eq:
  "offset mod 4 = 0 \<Longrightarrow> offset + length data \<le> m3_bram_size \<Longrightarrow> length (w_bram w) = m3_bram_size \<Longrightarrow>
   store_words D (m3_bram_base + offset) data w = w\<lparr>w_bram := copy_into (w_bram w) offset data\<rparr>"
proof (induction D "m3_bram_base + offset" data w arbitrary: offset rule: store_words.induct)
  case (1 D a b c d rest w)
  have al: "(m3_bram_base + offset) mod 4 = 0"
    using 1(2) by (simp add: m3_bram_base_def mod_add_eq [symmetric] flip: mod_add_right_eq)
  have w32: "u32_le (from_le [a, b, c, d]) = [a, b, c, d]" by (rule to_le_from_le) simp_all
  have "write_volatile32 D (m3_bram_base + offset) (from_le [a, b, c, d]) w =
      w\<lparr>w_bram := copy_into (w_bram w) offset [a, b, c, d]\<rparr>"
    using al 1(3) by (simp add: write_volatile32_def in_bram_def w32)
  moreover have "copy_into (copy_into (w_bram w) offset [a, b, c, d]) (offset + 4) rest =
      copy_into (w_bram w) offset (a # b # c # d # rest)"
  proof -
    have four: "offset + length [a, b, c, d] = offset + 4" by simp
    show ?thesis
      using copy_into_append [of offset "[a, b, c, d]" rest "w_bram w"] 1(3,4)
      unfolding four by simp
  qed
  ultimately show ?case
    using 1(1) [of "offset + 4"] 1(2-4) by (simp add: add.assoc)
qed (simp_all del: store_tail.simps add: store_tail_eq)

lemma load_tail_eq:
  "offset + n \<le> m3_bram_size \<Longrightarrow> length (w_bram w) = m3_bram_size \<Longrightarrow>
   load_tail D (m3_bram_base + offset) n w = (slice_of offset (offset + n) (w_bram w), w)"
proof (induction n arbitrary: offset)
  case 0
  then show ?case by (simp add: slice_of_def)
next
  case (Suc n)
  have "slice_of offset (offset + Suc n) (w_bram w) =
      w_bram w ! offset # slice_of (offset + 1) (offset + 1 + n) (w_bram w)"
    using Suc.prems by (simp add: slice_of_def Cons_nth_drop_Suc [symmetric])
  then show ?case
    using Suc.IH [of "offset + 1"] Suc.prems by (simp add: read_volatile8_def in_bram_def)
qed

lemma slice_of_split:
  "a \<le> b \<Longrightarrow> b \<le> c \<Longrightarrow> c \<le> length xs \<Longrightarrow> slice_of a c xs = slice_of a b xs @ slice_of b c xs"
proof -
  assume "a \<le> b" "b \<le> c" "c \<le> length xs"
  then have "c - a = (b - a) + (c - b)" "drop (b - a) (drop a xs) = drop b xs" by simp_all
  then show ?thesis by (simp add: slice_of_def take_add)
qed

lemma load_words_eq:
  "offset mod 4 = 0 \<Longrightarrow> offset + n \<le> m3_bram_size \<Longrightarrow> length (w_bram w) = m3_bram_size \<Longrightarrow>
   load_words D (m3_bram_base + offset) n w = (slice_of offset (offset + n) (w_bram w), w)"
proof (induction n arbitrary: offset rule: less_induct)
  case (less n)
  show ?case
  proof (cases "n < 4")
    case True
    with less.prems show ?thesis by (subst load_words.simps) (simp add: load_tail_eq)
  next
    case False
    have al: "(m3_bram_base + offset) mod 4 = 0"
      using less.prems(1) by (simp add: m3_bram_base_def mod_add_eq [symmetric] flip: mod_add_right_eq)
    have len: "length (slice_of offset (offset + 4) (w_bram w)) = 4"
      using less.prems False by simp
    have rd: "read_volatile32 D (m3_bram_base + offset) w =
        (from_le (slice_of offset (offset + 4) (w_bram w)), w)"
      using al less.prems(2) False by (simp add: read_volatile32_def in_bram_def)
    have step: "m3_bram_base + offset + 4 = m3_bram_base + (offset + 4)" by simp
    have "load_words D (m3_bram_base + (offset + 4)) (n - 4) w =
        (slice_of (offset + 4) (offset + 4 + (n - 4)) (w_bram w), w)"
      using less.prems False by (intro less.IH) auto
    moreover have "slice_of offset (offset + n) (w_bram w) =
        slice_of offset (offset + 4) (w_bram w) @ slice_of (offset + 4) (offset + 4 + (n - 4)) (w_bram w)"
      using less.prems False slice_of_split [of offset "offset + 4" "offset + n" "w_bram w"] by simp
    moreover have "u32_le (from_le (slice_of offset (offset + 4) (w_bram w))) =
        slice_of offset (offset + 4) (w_bram w)"
      using len by (intro to_le_from_le) simp_all
    ultimately show ?thesis
      using False by (subst load_words.simps) (simp add: rd step)
  qed
qed

lemma mmio_simps [simp]:
  "rio_write_m3_bram (mmio D) = mmio_write_m3_bram D"
  "rio_read_m3_bram (mmio D) = mmio_read_m3_bram D"
  "rio_write (mmio D) offset = write_volatile32 D (orbtrace_axi_base + offset)"
  "rio_read (mmio D) offset = read_volatile32 D (orbtrace_axi_base + offset)"
  by (simp_all add: mmio_def)

lemma mmio_write_eq:
  "offset mod 4 = 0 \<Longrightarrow> offset + length data \<le> m3_bram_size \<Longrightarrow> length (w_bram w) = m3_bram_size \<Longrightarrow>
   mmio_write_m3_bram D offset data w = w\<lparr>w_bram := copy_into (w_bram w) offset data\<rparr>"
  by (simp add: mmio_write_m3_bram_def store_words_eq)

lemma mmio_register_write:
  "offset < 0x10000 \<Longrightarrow> offset mod 4 = 0 \<Longrightarrow> write_volatile32 D (orbtrace_axi_base + offset) v w =
     w\<lparr>w_dev := dev_write32 D (orbtrace_axi_base + offset) v (w_dev w)\<rparr>"
  by (simp add: write_volatile32_def in_bram_def orbtrace_axi_base_def m3_bram_base_def
      mod_add_eq [symmetric] flip: mod_add_right_eq)

lemma map_nth_upt: "length bs = n \<Longrightarrow> map (\<lambda>i. bs ! i) [0..<n] = bs"
  by (metis map_nth)

interpretation board: m3_memory "mmio D" w_bram world_ok for D :: "'dev device"
proof unfold_locales
  fix offset n and w :: "'dev world" and f w'
  assume "world_ok w" "offset mod 4 = 0" "offset + n \<le> m3_bram_size"
    "rio_read_m3_bram (mmio D) offset n w = (f, w')"
  then show "world_ok w' \<and> w_bram w' = w_bram w \<and> map f [0..<n] = slice_of offset (offset + n) (w_bram w)"
    by (auto simp: world_ok_def mmio_read_m3_bram_def load_words_eq intro: map_nth_upt)
next
  fix v and w :: "'dev world"
  assume "world_ok w"
  then show "world_ok (rio_write (mmio D) reg_m3_control v w)
      \<and> w_bram (rio_write (mmio D) reg_m3_control v w) = w_bram w"
    by (simp add: world_ok_def mmio_register_write reg_m3_control_def)
qed (auto simp: world_ok_def mmio_write_eq)

text \<open>
  The memory window of the M3. On the board's physical memory, writing bytes through
  the word-wise stores of \<open>Mmio\<close> and reading them back through the word-wise loads, at any
  word-aligned offset and for any length that fits -- a multiple of four or not -- changes exactly
  those bytes of the window and returns exactly what was written; no device register is touched and
  no access is unaligned.
\<close>

theorem mmio_bram_write_read:
  assumes "world_ok w" and "offset mod 4 = 0" and "offset + length data \<le> m3_bram_size"
  shows "case rio_read_m3_bram (mmio D) offset (length data) (rio_write_m3_bram (mmio D) offset data w) of
    (f, w') \<Rightarrow> w' = w\<lparr>w_bram := copy_into (w_bram w) offset data\<rparr> \<and> map f [0..<length data] = data"
proof -
  have len: "length (w_bram w) = m3_bram_size" using assms(1) by (simp add: world_ok_def)
  let ?w = "w\<lparr>w_bram := copy_into (w_bram w) offset data\<rparr>"
  have "slice_of offset (offset + length data) (copy_into (w_bram w) offset data) = data"
    using assms(3) len by (simp add: slice_of_def copy_into_def)
  moreover have "length (w_bram ?w) = m3_bram_size" using assms(3) len by simp
  ultimately have "load_words D (m3_bram_base + offset) (length data) ?w = (data, ?w)"
    using load_words_eq [OF assms(2,3), of ?w D] by simp
  then show ?thesis
    using assms len by (simp add: mmio_write_eq mmio_read_m3_bram_def map_nth_upt)
qed

definition idle_device :: "unit device" where
  "idle_device = \<lparr>dev_read32 = (\<lambda>_ d. (0, d)), dev_write32 = (\<lambda>_ _ d. d),
     dev_read8 = (\<lambda>_ d. (0, d)), dev_write8 = (\<lambda>_ _ d. d)\<rparr>"

definition blank_world :: "unit world" where
  "blank_world = \<lparr>w_bram = replicate m3_bram_size 0, w_fault = False, w_dev = ()\<rparr>"

lemma blank_world_ok [simp]: "world_ok blank_world"
  by (simp add: world_ok_def blank_world_def)

theorem mmio_bram_write_read_witness:
  "case rio_read_m3_bram (mmio idle_device) 8 (length [1, 2, 3, 4, 5 :: u8])
      (rio_write_m3_bram (mmio idle_device) 8 [1, 2, 3, 4, 5] blank_world) of
    (f, w') \<Rightarrow> w' = blank_world\<lparr>w_bram := copy_into (w_bram blank_world) 8 [1, 2, 3, 4, 5]\<rparr>
      \<and> map f [0..<length [1, 2, 3, 4, 5 :: u8]] = [1, 2, 3, 4, 5]"
  by (rule mmio_bram_write_read) (simp_all add: m3_bram_size_def)

text \<open>
  Unaligned requests. The controller bounds the offset of a load but does not ask for a
  word-aligned one: a well-formed request of four bytes at offset 1, which the controller
  acknowledges, makes \<open>Mmio\<close> do a volatile word access at an unaligned address.
\<close>

theorem unaligned_load_faults:
  "case command_op (mmio idle_device) blank_world (command_encode (LoadM3Chunk 1 [1, 2, 3, 4])) [0xff] of
    ((w, response), outcome) \<Rightarrow> outcome = Inr 1 \<and> response = [0] \<and> w_fault w"
proof -
  have le: "u32_le 1 = [1, 0, 0, 0]" by (simp add: to_le_def upt_rec numeral_eq_Suc)
  have "(from_le [1, 0, 0, 0] :: u32) = 1" by (simp add: from_le_Cons)
  then show ?thesis
    by (simp add: command_op_def command_encode_def protocol_version_def le Let_def slice_of_def
        checked_add_usize_def usize_max_def m3_bram_size_def ack_def mmio_write_m3_bram_def
        m3_bram_base_def write_volatile32_def)
qed

section \<open>The entry points\<close>

text \<open>The statics of the file: both connections and the hardware the controller works on.\<close>

record 'dev firmware =
  control_conn :: frame_decoder
  dap_conn :: frame_decoder
  board_state :: "'dev world"

definition firmware_init :: "'dev world \<Rightarrow> 'dev firmware" where
  "firmware_init w = \<lparr>control_conn = control_connection, dap_conn = dap_connection, board_state = w\<rparr>"

text \<open>\<open>*response_len_out\<close> and the return value.\<close>

definition ffi_outcome :: "service_error + service_reply \<Rightarrow> nat \<times> nat" where
  "ffi_outcome outcome =
     (case outcome of
        Inr reply \<Rightarrow> ((case response_length reply of Some n \<Rightarrow> n | None \<Rightarrow> 0), consumed reply)
      | Inl _ \<Rightarrow> (0, 1))"

definition orbtrace_control_feed :: "'dev device \<Rightarrow> 'dev firmware \<Rightarrow> bytes \<Rightarrow> bytes \<Rightarrow>
    'dev firmware \<times> bytes \<times> nat \<times> nat" where
  "orbtrace_control_feed D fw input response =
     (case control_feed (mmio D) (control_conn fw) (board_state fw) response input of
        (d, w, response', outcome) \<Rightarrow>
          (fw\<lparr>control_conn := d, board_state := w\<rparr>, response', ffi_outcome outcome))"

definition orbtrace_dap_feed :: "'dev device \<Rightarrow> 'dev firmware \<Rightarrow> bytes \<Rightarrow> bytes \<Rightarrow> u32 \<Rightarrow>
    'dev firmware \<times> bytes \<times> nat \<times> nat" where
  "orbtrace_dap_feed D fw input response poll_budget =
     (case dap_feed (mmio D) (unat poll_budget) (dap_conn fw) (board_state fw) response input of
        (d, w, response', outcome) \<Rightarrow>
          (fw\<lparr>dap_conn := d, board_state := w\<rparr>, response', ffi_outcome outcome))"

lemma fd_accept_index:
  "fd_accept d i bs = (d', Inr (Some j)) \<Longrightarrow> i < j \<and> j \<le> i + length bs"
  by (induction bs arbitrary: d i) (force split: prod.splits sum.splits if_splits)+

definition served_ok :: "bytes \<Rightarrow> ('io \<times> bytes) \<times> ('e + nat) \<Rightarrow> bool" where
  "served_ok response s \<longleftrightarrow> length (snd (fst s)) = length response \<and>
     (case snd s of Inl _ \<Rightarrow> True | Inr n \<Rightarrow> n \<le> length response)"

lemma served_ok_simps [simp]:
  "served_ok response ((io, response'), Inl e) \<longleftrightarrow> length response' = length response"
  "served_ok response ((io, response'), Inr n) \<longleftrightarrow> length response' = length response \<and> n \<le> length response"
  by (simp_all add: served_ok_def)

lemma served_ok_cong: "length response = length response' \<Longrightarrow> served_ok response s = served_ok response' s"
  by (simp add: served_ok_def split: sum.split)

lemma dap_receive_ok:
  "len \<le> length response \<Longrightarrow> served_ok response (dap_receive R budget response len io)"
proof (induction R budget response len io rule: dap_receive.induct)
  case (1 R budget response len io)
  obtain io1 ok where wait: "dap_wait R 2 budget io = (io1, ok)" by (cases "dap_wait R 2 budget io")
  obtain w io2 where rd: "rio_read R reg_dap_response io1 = (w, io2)"
    by (cases "rio_read R reg_dap_response io1")
  show ?case
  proof (cases "ok \<and> len < length response \<and> w AND push_bit 9 1 = 0")
    case True
    then have "dap_receive R budget response len io =
        dap_receive R budget (response[len := ucast w]) (len + 1) io2"
      by (subst dap_receive.simps) (simp add: wait rd Let_def)
    moreover have "served_ok (response[len := ucast w]) (dap_receive R budget (response[len := ucast w]) (len + 1) io2)"
      using 1 True by (simp add: wait rd)
    ultimately show ?thesis
      by (simp add: served_ok_cong [of response "response[len := ucast w]"])
  next
    case False
    with 1(2) show ?thesis
      by (subst dap_receive.simps) (auto simp: wait rd Let_def not_less)
  qed
qed

lemma dap_exchange_ok: "served_ok response (dap_exchange R budget io request response)"
  using dap_receive_ok [of 0 response R budget]
  by (auto simp: dap_exchange_def split: prod.splits sum.splits)

lemma command_op_ok: "served_ok response (command_op R io request response)"
  using command_op_bounds [where R = R and io = io and request = request and response = response]
  by (auto simp: served_ok_def split: prod.splits sum.splits)

definition feed_ok :: "nat \<Rightarrow> bytes \<Rightarrow> bytes \<times> nat \<times> nat \<Rightarrow> bool" where
  "feed_ok n response r \<longleftrightarrow>
     (case r of (response', response_len, used) \<Rightarrow>
        length response' = length response \<and> response_len \<le> length response \<and> 1 \<le> used \<and> used \<le> n)"

lemma connection_feed_ok:
  assumes serve: "\<And>io request response. served_ok response (serve io request response)"
    and feed: "connection_feed serve err d io response 0 (b # bs) = (d', io', response', outcome)"
  shows "feed_ok (length (b # bs)) response (response', ffi_outcome outcome)"
proof -
  obtain d1 r where acc: "fd_accept d 0 (b # bs) = (d1, r)" by (cases "fd_accept d 0 (b # bs)")
  show ?thesis
  proof (cases r)
    case (Inl e)
    with acc feed show ?thesis
      unfolding connection_feed_accept by (auto simp: feed_ok_def ffi_outcome_def)
  next
    case (Inr o1)
    show ?thesis
    proof (cases o1)
      case None
      with Inr acc feed show ?thesis
        unfolding connection_feed_accept by (auto simp: feed_ok_def ffi_outcome_def)
    next
      case (Some j)
      with Inr acc have j: "0 < j" "j \<le> length (b # bs)"
        using fd_accept_index [of d 0 "b # bs" d1 j] by auto
      obtain io1 tail r1 where s: "serve io (case fd_frame d1 of Some p \<Rightarrow> p | None \<Rightarrow> []) (drop 4 response) =
          ((io1, tail), r1)" by (metis prod.collapse)
      from feed have "(io', response', outcome) = serve_frame serve err io
          (case fd_frame d1 of Some p \<Rightarrow> p | None \<Rightarrow> []) response j"
        unfolding connection_feed_accept acc Inr Some by simp
      with serve [of "drop 4 response" io "case fd_frame d1 of Some p \<Rightarrow> p | None \<Rightarrow> []"] j show ?thesis
        by (auto simp: serve_frame_def s feed_ok_def ffi_outcome_def split: if_splits sum.splits)
    qed
  qed
qed

text \<open>
  Property C7. Progress and bounds at the C boundary. Called with at least one byte, either entry
  point consumes at least one byte and no more than it was given, keeps the length of the response
  buffer and reports a response that lies within it: the pump loops of the C service terminate and
  never send memory behind the buffer, whatever the peer sends.
\<close>

theorem entry_points_progress:
  "(case orbtrace_control_feed D fw (b # bs) response of (_, r) \<Rightarrow> feed_ok (length (b # bs)) response r)
   \<and> (case orbtrace_dap_feed D fw (b # bs) response budget of (_, r) \<Rightarrow> feed_ok (length (b # bs)) response r)"
proof
  obtain d w r out where c: "connection_feed (command_op (mmio D)) (\<lambda>_. BadControlRequest) (control_conn fw)
      (board_state fw) response 0 (b # bs) = (d, w, r, out)" by (metis prod_cases4)
  from connection_feed_ok [OF command_op_ok c]
  show "case orbtrace_control_feed D fw (b # bs) response of (_, r) \<Rightarrow> feed_ok (length (b # bs)) response r"
    by (simp only: orbtrace_control_feed_def control_feed_def c prod.case)
next
  obtain d w r out where c: "connection_feed (dap_exchange (mmio D) (unat budget)) Dap (dap_conn fw)
      (board_state fw) response 0 (b # bs) = (d, w, r, out)" by (metis prod_cases4)
  from connection_feed_ok [OF dap_exchange_ok c]
  show "case orbtrace_dap_feed D fw (b # bs) response budget of (_, r) \<Rightarrow> feed_ok (length (b # bs)) response r"
    by (simp only: orbtrace_dap_feed_def dap_feed_def c prod.case)
qed

section \<open>The pump loop of the C service\<close>

text \<open>\<open>serve_control\<close> of \<open>a53_app/src/main.c\<close> on one received buffer: the replies it sends.\<close>

definition control_response_cap :: nat where "control_response_cap = 4100"

function serve_control :: "'dev device \<Rightarrow> 'dev firmware \<Rightarrow> bytes \<Rightarrow> 'dev firmware \<times> bytes list" where
  "serve_control D fw input =
     (if input = [] then (fw, [])
      else case orbtrace_control_feed D fw input (replicate control_response_cap 0) of
        (fw1, response, response_len, used) \<Rightarrow>
          case serve_control D fw1 (drop (if used = 0 then 1 else used) input) of
            (fw2, replies) \<Rightarrow>
              (fw2, (if response_len > 0 then [take response_len response] else []) @ replies))"
  by pat_completeness auto
termination
  by (relation "measure (\<lambda>(D, fw, input). length input)") auto

declare serve_control.simps [simp del]

definition receiving :: "bytes \<Rightarrow> 'dev firmware \<Rightarrow> bool" where
  "receiving part fw \<longleftrightarrow> fd_wf (control_conn fw) \<and> \<not> ready (control_conn fw)
     \<and> length (payload (control_conn fw)) = max_control_payload \<and> fd_bytes (control_conn fw) = part"

lemma receiving_init: "receiving [] (firmware_init w)"
  by (simp add: receiving_def firmware_init_def control_connection_def)

lemma entry_spec:
  assumes "receiving part fw"
  shows "\<exists>d out. orbtrace_control_feed D fw input response =
      (case out of (w, response', outcome) \<Rightarrow>
        (fw\<lparr>control_conn := d, board_state := w\<rparr>, response', ffi_outcome outcome))
    \<and> feed_spec (command_op (mmio D)) (\<lambda>_. BadControlRequest) max_control_payload part
        (board_state fw) response input (d, out)"
proof -
  have "feed_spec (command_op (mmio D)) (\<lambda>_. BadControlRequest) max_control_payload part (board_state fw)
      response input (control_feed (mmio D) (control_conn fw) (board_state fw) response input)"
    using assms connection_feed_spec [of "control_conn fw" "command_op (mmio D)" "\<lambda>_. BadControlRequest"]
    unfolding receiving_def control_feed_def by metis
  then show ?thesis
    by (cases "control_feed (mmio D) (control_conn fw) (board_state fw) response input")
      (auto simp: orbtrace_control_feed_def)
qed

lemma serve_short:
  assumes "receiving part fw" "length_unframe (part @ input) max_control_payload = Inl Short"
  shows "\<exists>fw'. serve_control D fw input = (fw', []) \<and> receiving (part @ input) fw'"
proof (cases "input = []")
  case True
  with assms show ?thesis by (simp add: serve_control.simps)
next
  case False
  obtain d out where e: "orbtrace_control_feed D fw input (replicate control_response_cap 0) =
      (case out of (w, response', outcome) \<Rightarrow>
        (fw\<lparr>control_conn := d, board_state := w\<rparr>, response', ffi_outcome outcome))"
    and s: "feed_spec (command_op (mmio D)) (\<lambda>_. BadControlRequest) max_control_payload part
        (board_state fw) (replicate control_response_cap 0) input (d, out)"
    using entry_spec [OF assms(1)] by blast
  from s assms(2) have "out = (board_state fw, replicate control_response_cap 0,
      Inr \<lparr>consumed = length input, response_length = None\<rparr>)"
    "receiving (part @ input) (fw\<lparr>control_conn := d, board_state := board_state fw\<rparr>)"
    by (auto simp: feed_spec_def receiving_def)
  with False e show ?thesis
    by (subst serve_control.simps) (auto simp: ffi_outcome_def serve_control.simps [of D _ "[]"])
qed

text \<open>A refusal, of the frame or of the command: one byte further on, and nothing sent.\<close>

lemma serve_refusal:
  assumes "receiving part fw" "input \<noteq> []"
    and "(\<exists>n. length_unframe (part @ input) max_control_payload = Inl (TooLarge n)) \<or>
      (\<exists>request used. length_unframe (part @ input) max_control_payload = Inr (request, used) \<and>
        snd (command_op (mmio D) (board_state fw) request (replicate 4096 0)) = Inl ())"
  shows "\<exists>fw'. serve_control D fw input = serve_control D fw' (drop 1 input) \<and> receiving [] fw'
    \<and> board_state fw' = board_state fw"
proof -
  obtain d out where e: "orbtrace_control_feed D fw input (replicate control_response_cap 0) =
      (case out of (w, response', outcome) \<Rightarrow>
        (fw\<lparr>control_conn := d, board_state := w\<rparr>, response', ffi_outcome outcome))"
    and s: "feed_spec (command_op (mmio D)) (\<lambda>_. BadControlRequest) max_control_payload part
        (board_state fw) (replicate control_response_cap 0) input (d, out)"
    using entry_spec [OF assms(1)] by blast
  have tail: "drop 4 (replicate control_response_cap 0) = (replicate 4096 0 :: bytes)"
    by (simp add: control_response_cap_def)
  have refuse: "fst (fst (command_op (mmio D) (board_state fw) request (replicate 4096 0))) = board_state fw"
    if "snd (command_op (mmio D) (board_state fw) request (replicate 4096 0)) = Inl ()" for request
    using command_op_bounds [where R = "mmio D" and io = "board_state fw" and request = request
        and response = "replicate 4096 0"] that
    by (auto split: prod.splits sum.splits)
  from assms(3) obtain response' e' where "out = (board_state fw, response', Inl e')"
    "receiving [] (fw\<lparr>control_conn := d, board_state := board_state fw\<rparr>)"
  proof (elim disjE exE conjE)
    fix n assume "length_unframe (part @ input) max_control_payload = Inl (TooLarge n)"
    with s that show ?thesis by (auto simp: feed_spec_def receiving_def)
  next
    fix request used assume "length_unframe (part @ input) max_control_payload = Inr (request, used)"
      and r: "snd (command_op (mmio D) (board_state fw) request (replicate 4096 0)) = Inl ()"
    moreover obtain io1 tl1 where "command_op (mmio D) (board_state fw) request (replicate 4096 0) = ((io1, tl1), Inl ())"
      using r by (metis prod.collapse)
    ultimately show ?thesis
      using s that refuse [OF r]
      by (auto simp: feed_spec_def receiving_def serve_frame_def tail control_response_cap_def)
  qed
  with assms(2) e show ?thesis
    by (subst serve_control.simps) (auto simp: ffi_outcome_def split: prod.splits)
qed

lemma serve_reply:
  assumes "receiving [] fw"
    and "length_unframe input max_control_payload = Inr (request, length input)" "input \<noteq> []"
    and "command_op (mmio D) (board_state fw) request (replicate 4096 0) = ((w, tl'), Inr n)" "n \<le> length tl'"
  shows "\<exists>fw'. serve_control D fw input = (fw', [u32_le (of_nat n) @ take n tl'])
    \<and> receiving [] fw' \<and> board_state fw' = w"
proof -
  obtain d out where e: "orbtrace_control_feed D fw input (replicate control_response_cap 0) =
      (case out of (w, response', outcome) \<Rightarrow>
        (fw\<lparr>control_conn := d, board_state := w\<rparr>, response', ffi_outcome outcome))"
    and s: "feed_spec (command_op (mmio D)) (\<lambda>_. BadControlRequest) max_control_payload []
        (board_state fw) (replicate control_response_cap 0) input (d, out)"
    using entry_spec [OF assms(1)] by blast
  have tail: "drop 4 (replicate control_response_cap 0) = (replicate 4096 0 :: bytes)"
    by (simp add: control_response_cap_def)
  from s assms(2,4) have "out = (w, u32_le (of_nat n) @ tl',
      Inr \<lparr>consumed = length input, response_length = Some (n + 4)\<rparr>)"
    "receiving [] (fw\<lparr>control_conn := d, board_state := w\<rparr>)"
    by (auto simp: feed_spec_def receiving_def serve_frame_def tail control_response_cap_def)
  with assms(3,5) e show ?thesis
    by (subst serve_control.simps)
      (auto simp: ffi_outcome_def serve_control.simps [of D _ "[]"] add.commute [of n 4])
qed

lemma unframe_literals:
  "length_unframe [3, 0, 0, 0, 1, 0, 1] max_control_payload = Inr ([1, 0, 1], 7)"
  "length_unframe [3, 0, 0, 0, 1, 0, 0x2a, 3, 0, 0, 0, 1, 0, 1] max_control_payload = Inr ([1, 0, 0x2a], 7)"
  "length_unframe [0, 0, 0, 1, 0, 0x2a, 3, 0, 0, 0, 1, 0, 1] max_control_payload = Inl (TooLarge 0x1000000)"
  "length_unframe [0, 0, 1, 0, 0x2a, 3, 0, 0, 0, 1, 0, 1] max_control_payload = Inl (TooLarge 0x10000)"
  "length_unframe [0, 1, 0, 0x2a, 3, 0, 0, 0, 1, 0, 1] max_control_payload = Inl (TooLarge 0x2a000100)"
  "length_unframe [1, 0, 0x2a, 3, 0, 0, 0, 1, 0, 1] max_control_payload = Inl (TooLarge 0x32a0001)"
  "length_unframe [0, 0x2a, 3, 0, 0, 0, 1, 0, 1] max_control_payload = Inl (TooLarge 0x32a00)"
  "length_unframe [0x2a, 3, 0, 0, 0, 1, 0, 1] max_control_payload = Inl Short"
  by (simp_all add: length_unframe_def from_le_Cons max_control_payload_def slice_of_def Let_def)

lemma command_unknown: "snd (command_op R io [1, 0, 0x2a] response) = Inl ()"
  by (simp add: command_op_def Let_def)

lemma command_get_info:
  "18 \<le> length response \<Longrightarrow>
   command_op R io [1, 0, 1] response = ((io, copy_into response 0 info_text), Inr 18)"
  by (auto simp: command_op_def Let_def protocol_version_def)


section \<open>The spinlock\<close>

text \<open>
  Threads around the static \<open>LOCK\<close>: \<open>lock\<close> spins on a compare-exchange that may also fail
  spuriously, the guard's drop stores \<open>false\<close>. Any number of threads, any interleaving.
\<close>

datatype thread_pc = Outside | Spinning | Inside

record lock_state =
  lk :: bool
  pc :: "nat \<Rightarrow> thread_pc"

definition lock_init :: lock_state where
  "lock_init = \<lparr>lk = False, pc = (\<lambda>_. Outside)\<rparr>"

inductive lock_step :: "lock_state \<Rightarrow> lock_state \<Rightarrow> bool" where
  call: "pc s t = Outside \<Longrightarrow> lock_step s (s\<lparr>pc := (pc s)(t := Spinning)\<rparr>)"
| spin: "pc s t = Spinning \<Longrightarrow> lock_step s s"
| acquire: "pc s t = Spinning \<Longrightarrow> \<not> lk s \<Longrightarrow> lock_step s (s\<lparr>lk := True, pc := (pc s)(t := Inside)\<rparr>)"
| unlock: "pc s t = Inside \<Longrightarrow> lock_step s (s\<lparr>lk := False, pc := (pc s)(t := Outside)\<rparr>)"

inductive_cases lock_stepE: "lock_step s s'"

inductive lock_reachable :: "lock_state \<Rightarrow> bool" where
  start: "lock_reachable lock_init"
| step: "lock_reachable s \<Longrightarrow> lock_step s s' \<Longrightarrow> lock_reachable s'"

definition lock_inv :: "lock_state \<Rightarrow> bool" where
  "lock_inv s \<longleftrightarrow>
     (if lk s then \<exists>h. pc s h = Inside \<and> (\<forall>u. u \<noteq> h \<longrightarrow> pc s u \<noteq> Inside)
      else \<forall>u. pc s u \<noteq> Inside)"

lemma lock_step_inv: "lock_step s s' \<Longrightarrow> lock_inv s \<Longrightarrow> lock_inv s'"
proof (erule lock_stepE)
  fix t assume inv: "lock_inv s" and s': "s' = s\<lparr>pc := (pc s)(t := Spinning)\<rparr>" and t: "pc s t = Outside"
  show "lock_inv s'"
  proof (cases "lk s")
    case True
    then obtain h where "pc s h = Inside" "\<forall>u. u \<noteq> h \<longrightarrow> pc s u \<noteq> Inside"
      using inv by (auto simp: lock_inv_def)
    moreover from this(1) t have "h \<noteq> t" by auto
    ultimately show ?thesis using True s' by (auto simp: lock_inv_def)
  qed (use inv s' in \<open>auto simp: lock_inv_def\<close>)
next
  fix t assume "lock_inv s" "s' = s\<lparr>lk := True, pc := (pc s)(t := Inside)\<rparr>" "\<not> lk s"
  then show "lock_inv s'" by (auto simp: lock_inv_def)
next
  fix t assume inv: "lock_inv s" and s': "s' = s\<lparr>lk := False, pc := (pc s)(t := Outside)\<rparr>" and t: "pc s t = Inside"
  then have "lk s" by (auto simp: lock_inv_def split: if_splits)
  with inv t have "u \<noteq> t \<Longrightarrow> pc s u \<noteq> Inside" for u by (simp add: lock_inv_def) metis
  with s' show "lock_inv s'" by (auto simp: lock_inv_def)
qed simp

lemma lock_reachable_inv: "lock_reachable s \<Longrightarrow> lock_inv s"
proof (induction rule: lock_reachable.induct)
  case start
  show ?case by (simp add: lock_inv_def lock_init_def)
next
  case (step s s')
  then show ?case using lock_step_inv by blast
qed

text \<open>
  Mutual exclusion. In every state the threads can reach, in any interleaving and with
  any spurious failures of the compare-exchange, at most one of them holds the guard, and the flag
  is set exactly while one does.
\<close>

theorem lock_mutual_exclusion:
  "{s. lock_reachable s} \<subseteq>
     {s. (\<exists>h. {t. pc s t = Inside} \<subseteq> {h}) \<and> lk s = ({t. pc s t = Inside} \<noteq> {})}"
proof (intro subsetI CollectI; elim CollectE)
  fix s assume "lock_reachable s"
  then have "lock_inv s" by (rule lock_reachable_inv)
  then show "(\<exists>h. {t. pc s t = Inside} \<subseteq> {h}) \<and> lk s = ({t. pc s t = Inside} \<noteq> {})"
    by (cases "lk s") (auto simp: lock_inv_def)
qed

end
