(* ===== verification/Text.thy ===== *)
theory Text
  imports Prelude
begin

text \<open>
  Numbers as text: the formatting the sources use (\<open>{}\<close>, \<open>{:#x}\<close> and the zero-padded
  forms) and \<open>from_str_radix\<close> of the standard library, with the round trip between them.
  A \<open>str\<close> is a list of characters; the texts the modelled code builds and reads are ASCII.
\<close>

definition digit_char :: "nat \<Rightarrow> char" where
  "digit_char d = (if d < 10 then char_of (48 + d) else char_of (87 + d))"

fun radix_digits :: "nat \<Rightarrow> nat \<Rightarrow> string" where
  "radix_digits base n =
     (if base < 2 \<or> n < base then [digit_char n]
      else radix_digits base (n div base) @ [digit_char (n mod base)])"

declare radix_digits.simps [simp del]

definition pad0 :: "nat \<Rightarrow> string \<Rightarrow> string" where
  "pad0 width s = replicate (width - length s) (CHR ''0'') @ s"

definition fmt_dec :: "nat \<Rightarrow> string" where
  "fmt_dec n = radix_digits 10 n"

text \<open>\<open>{:x}\<close> at a minimum number of digits, and the forms with the prefix.\<close>

definition fmt_hex :: "nat \<Rightarrow> nat \<Rightarrow> string" where
  "fmt_hex width n = pad0 width (radix_digits 16 n)"

definition fmt_0x :: "nat \<Rightarrow> nat \<Rightarrow> string" where
  "fmt_0x width n = ''0x'' @ fmt_hex width n"

section \<open>Reading numbers\<close>

definition char_digit :: "nat \<Rightarrow> char \<Rightarrow> nat option" where
  "char_digit base c =
     (let n = of_char c :: nat;
          d = (if 48 \<le> n \<and> n \<le> 57 then Some (n - 48)
               else if 97 \<le> n \<and> n \<le> 122 then Some (n - 87)
               else if 65 \<le> n \<and> n \<le> 90 then Some (n - 55)
               else None)
      in case d of Some v \<Rightarrow> if v < base then Some v else None | None \<Rightarrow> None)"

fun parse_digits :: "nat \<Rightarrow> nat \<Rightarrow> nat \<Rightarrow> string \<Rightarrow> nat option" where
  "parse_digits base maximum acc [] = Some acc"
| "parse_digits base maximum acc (c # cs) =
     (case char_digit base c of
        None \<Rightarrow> None
      | Some d \<Rightarrow> if acc * base + d \<le> maximum then parse_digits base maximum (acc * base + d) cs
                 else None)"

text \<open>\<open>from_str_radix\<close> of an unsigned type with the given maximum: one optional plus sign.\<close>

definition from_str_radix :: "nat \<Rightarrow> nat \<Rightarrow> string \<Rightarrow> nat option" where
  "from_str_radix maximum base s =
     (let digits = (case s of c # cs \<Rightarrow> if c = CHR ''+'' then cs else s | [] \<Rightarrow> [])
      in if digits = [] then None else parse_digits base maximum 0 digits)"

lemma char_digit_digit_char [simp]:
  "d < base \<Longrightarrow> base \<le> 36 \<Longrightarrow> char_digit base (digit_char d) = Some d"
  by (auto simp: char_digit_def digit_char_def Let_def of_char_of)

lemma radix_digits_not_Nil [simp]: "radix_digits base n \<noteq> []"
  by (subst radix_digits.simps) simp

lemma parse_digits_append:
  "parse_digits base maximum acc (xs @ ys) =
     Option.bind (parse_digits base maximum acc xs) (\<lambda>a. parse_digits base maximum a ys)"
  by (induction xs arbitrary: acc) (auto split: option.splits)

lemma parse_digits_radix_digits:
  "2 \<le> base \<Longrightarrow> base \<le> 36 \<Longrightarrow>
   parse_digits base maximum 0 (radix_digits base n) = (if n \<le> maximum then Some n else None)"
proof (induction base n rule: radix_digits.induct)
  case (1 base n)
  show ?case
  proof (cases "n < base")
    case True
    with 1 show ?thesis by (simp add: radix_digits.simps)
  next
    case False
    have "n div base \<le> n" by simp
    then have "n \<le> maximum \<Longrightarrow> n div base \<le> maximum"
      by (rule le_trans)
    with False 1 show ?thesis
      by (subst radix_digits.simps) (simp add: parse_digits_append)
  qed
qed

lemma parse_digits_zeros:
  "2 \<le> base \<Longrightarrow> base \<le> 36 \<Longrightarrow>
   parse_digits base maximum 0 (replicate k (CHR ''0'') @ s) = parse_digits base maximum 0 s"
  by (induction k) (auto simp: char_digit_def)

lemma hd_radix_digits:
  "2 \<le> base \<Longrightarrow> base \<le> 36 \<Longrightarrow> \<exists>d < base. hd (radix_digits base n) = digit_char d"
proof (induction base n rule: radix_digits.induct)
  case (1 base n)
  then show ?case by (subst radix_digits.simps) auto
qed

lemma digit_char_not_plus: "d < 36 \<Longrightarrow> digit_char d \<noteq> CHR ''+''"
proof
  assume "d < 36" "digit_char d = CHR ''+''"
  moreover have "char_digit 36 (CHR ''+'') = None" by code_simp
  ultimately show False using char_digit_digit_char [of d 36] by simp
qed

lemma from_str_radix_pad0:
  assumes "2 \<le> base" "base \<le> 36"
  shows "from_str_radix maximum base (pad0 width (radix_digits base n)) =
    (if n \<le> maximum then Some n else None)"
proof -
  let ?s = "pad0 width (radix_digits base n)"
  have ne: "?s \<noteq> []" by (simp add: pad0_def)
  obtain d where d: "d < base" "hd (radix_digits base n) = digit_char d"
    using hd_radix_digits [OF assms] by blast
  have "hd ?s = CHR ''0'' \<or> hd ?s = digit_char d"
    using d(2) by (cases "width - length (radix_digits base n)") (simp_all add: pad0_def)
  moreover have "digit_char d \<noteq> CHR ''+''"
    using d(1) assms(2) by (intro digit_char_not_plus) simp
  ultimately have "hd ?s \<noteq> CHR ''+''" by auto
  then have "from_str_radix maximum base ?s = parse_digits base maximum 0 ?s"
    using ne by (cases ?s) (auto simp: from_str_radix_def)
  then show ?thesis
    using assms by (simp add: pad0_def parse_digits_zeros parse_digits_radix_digits)
qed

lemma length_pad0: "length (pad0 w s) = max w (length s)"
  by (simp add: pad0_def)

text \<open>
  Numbers survive text: reading back the decimal digits of a number, or its
  hexadecimal digits zero-padded to any width, gives the number when it is within the maximum
  of the type read and an error when it is not.
\<close>

lemma numbers_survive_text:
  "from_str_radix maximum 10 (fmt_dec n) = (if n \<le> maximum then Some n else None)
   \<and> from_str_radix maximum 16 (fmt_hex width n) = (if n \<le> maximum then Some n else None)"
  using from_str_radix_pad0 [of 10 maximum 0 n] from_str_radix_pad0 [of 16 maximum width n]
  by (simp add: fmt_dec_def fmt_hex_def pad0_def)

end
