(* ===== verification/Itm.thy ===== *)
theory Itm
  imports Orbflow Text
begin

text \<open>
  From a recovered trace channel to a Perfetto trace, the last part of
  \<open>applications/orbtrace/model/src/lib.rs\<close>: ITM packets (\<open>decode_itm_stream\<close>), the
  classification of port-0 writes (\<open>classify_port0\<close>), the track builder
  (\<open>build_perfetto_trace\<close>) and its JSON rendering (\<open>json_escape\<close>, \<open>perfetto_json\<close>).
\<close>

section \<open>ITM packets\<close>

datatype itm_packet = Swit u8 u32 u8 | Unrecognized u8

definition swit_width :: "u8 \<Rightarrow> nat option" where
  "swit_width header =
     (let code = header AND 7
      in if code = 1 then Some 1 else if code = 2 then Some 2 else if code = 3 then Some 4 else None)"

definition le_loop :: "bytes \<Rightarrow> u32" where
  "le_loop data =
     foldl (\<lambda>value index. value OR push_bit (8 * index) (ucast (data ! index))) 0 [0..<length data]"

text \<open>The loop over \<open>pos\<close>, on the bytes from \<open>pos\<close> on.\<close>

function decode_itm_stream :: "bytes \<Rightarrow> itm_packet list" where
  "decode_itm_stream [] = []"
| "decode_itm_stream (header # rest) =
     (case swit_width header of
        None \<Rightarrow> Unrecognized header # decode_itm_stream rest
      | Some width \<Rightarrow>
          if width > length rest then Unrecognized header # decode_itm_stream rest
          else Swit (drop_bit 3 header) (le_loop (take width rest)) (of_nat width)
               # decode_itm_stream (drop width rest))"
  by pat_completeness auto
termination
  by (relation "measure length") auto

text \<open>The bytes a packet was read from.\<close>

definition size_code :: "u8 \<Rightarrow> u8" where
  "size_code width = (if width = 4 then 3 else width)"

fun itm_packet_bytes :: "itm_packet \<Rightarrow> bytes" where
  "itm_packet_bytes (Unrecognized header) = [header]"
| "itm_packet_bytes (Swit port value width) =
     (push_bit 3 port OR size_code width) # to_le (unat width) value"

definition swit_ok :: "itm_packet \<Rightarrow> bool" where
  "swit_ok p = (case p of Unrecognized h \<Rightarrow> True
     | Swit port value width \<Rightarrow> port < 32 \<and> width \<in> {1, 2, 4} \<and> unat value < 2 ^ (8 * unat width))"

lemma le_loop_eq: "length data \<le> 4 \<Longrightarrow> le_loop data = from_le data"
proof (rule bit_word_eqI)
  fix n assume len: "length data \<le> 4" and n: "n < LENGTH(32)"
  have loop: "bit (foldl (\<lambda>v i. v OR push_bit (8 * i) (ucast (data ! i))) v js) n \<longleftrightarrow>
      bit v n \<or> (\<exists>i \<in> set js. bit (push_bit (8 * i) (ucast (data ! i) :: u32)) n)" for v :: u32 and js
    by (induction js arbitrary: v) (auto simp: bit_or_iff)
  have "bit (push_bit (8 * i) (ucast (data ! i) :: u32)) n \<longleftrightarrow>
      n div 8 = i \<and> bit (data ! i) (n mod 8)" for i
  proof -
    have "bit (data ! i) (n - 8 * i) \<Longrightarrow> n - 8 * i < 8"
      using bit_imp_le_length [of "data ! i" "n - 8 * i"] by simp
    moreover have "8 * i \<le> n \<and> n - 8 * i < 8 \<longleftrightarrow> n div 8 = i" by auto
    moreover have "n div 8 = i \<Longrightarrow> n - 8 * i = n mod 8"
      using minus_mult_div_eq_mod [of n 8] by auto
    ultimately show ?thesis
      using n by (auto simp: bit_push_bit_iff bit_ucast_iff)
  qed
  then show "bit (le_loop data) n = bit (from_le data :: u32) n"
    using n by (auto simp: le_loop_def loop bit_from_le)
qed

lemma and_7_take_bit: "h AND 7 = take_bit 3 (h :: u8)"
  by (simp add: take_bit_eq_mask mask_eq_exp_minus_1)

lemma take_bit_small_word: "unat (c :: u8) < 2 ^ n \<Longrightarrow> take_bit n c = c"
  by (simp add: word_unat_eq_iff unsigned_take_bit_eq take_bit_nat_eq_self)

lemma bit_small_word: "unat (c :: u8) < 2 ^ n \<Longrightarrow> bit c k \<Longrightarrow> k < n"
  by (metis take_bit_small_word bit_take_bit_iff)

lemma swit_header: "push_bit 3 (drop_bit 3 h) OR (h AND 7) = (h :: u8)"
  unfolding and_7_take_bit
  by (rule bit_word_eqI) (auto simp: bit_or_iff bit_push_bit_iff bit_drop_bit_eq bit_take_bit_iff not_less)

lemma drop_bit_3_less: "drop_bit 3 (h :: u8) < 32"
proof -
  have "unat (drop_bit 3 h) = unat h div 8"
    unfolding unat_drop_bit_div by simp
  then show ?thesis
    using unat_u8_less [of h] by (simp add: word_less_nat_alt)
qed

lemma swit_header_fields:
  assumes "port < 32" "c < 8"
  shows "drop_bit 3 (push_bit 3 port OR c :: u8) = port" "(push_bit 3 port OR c) AND 7 = c"
proof -
  have p: "unat port < 2 ^ 5" and c: "unat c < 2 ^ 3"
    using assms by (simp_all add: word_less_nat_alt)
  show "drop_bit 3 (push_bit 3 port OR c) = port"
    by (rule bit_word_eqI)
      (use bit_small_word [OF p] bit_small_word [OF c] in
        \<open>force simp: bit_or_iff bit_push_bit_iff bit_drop_bit_eq\<close>)
  show "(push_bit 3 port OR c) AND 7 = c"
    unfolding and_7_take_bit
    by (rule bit_word_eqI)
      (use bit_small_word [OF c] in \<open>force simp: bit_or_iff bit_push_bit_iff bit_take_bit_iff\<close>)
qed

lemma swit_width_size_code:
  assumes "swit_width h = Some w"
  shows "size_code (of_nat w) = h AND 7" "w \<in> {1, 2, 4}"
  using assms by (auto simp: swit_width_def size_code_def Let_def split: if_splits)

lemma decode_itm_lossless: "concat (map itm_packet_bytes (decode_itm_stream bs)) = bs"
proof (induction bs rule: decode_itm_stream.induct)
  case (2 header rest)
  have "to_le w (le_loop (take w rest)) = take w rest"
    if "swit_width header = Some w" "w \<le> length rest" for w
    using that swit_width_size_code(2) [OF that(1)] by (subst le_loop_eq) auto
  then show ?case
    using 2 swit_width_size_code [of header] swit_header [of header]
    by (auto split: option.splits)
qed simp

lemma decode_itm_ok: "list_all swit_ok (decode_itm_stream bs)"
proof (induction bs rule: decode_itm_stream.induct)
  case (2 header rest)
  show ?case
  proof (cases "swit_width header")
    case None
    with 2 show ?thesis by (simp add: swit_ok_def)
  next
    case (Some w)
    have w: "w \<in> {1, 2, 4}" by (rule swit_width_size_code(2) [OF Some])
    show ?thesis
    proof (cases "length rest < w")
      case True
      with 2 Some show ?thesis by (simp add: swit_ok_def)
    next
      case False
      then have "unat (le_loop (take w rest)) < 2 ^ (8 * w)"
        using w unat_from_le_less [of "take w rest"] by (subst le_loop_eq) auto
      moreover have "unat (of_nat w :: u8) = w" "of_nat w \<in> {1, 2, 4 :: u8}" using w by auto
      ultimately have "swit_ok (Swit (drop_bit 3 header) (le_loop (take w rest)) (of_nat w))"
        unfolding swit_ok_def by (simp only: itm_packet.case drop_bit_3_less simp_thms)
      with 2 Some False show ?thesis by simp
    qed
  qed
qed simp

text \<open>
  No byte is lost. Decoding an ITM stream splits it: the bytes of the packets, in
  order, are the stream. Every software packet has a port below 32, a width of 1, 2 or 4 and a
  value of at most that many bytes, whatever noise the stream holds.
\<close>

theorem decode_itm_splits:
  "concat (map itm_packet_bytes (decode_itm_stream bs)) = bs \<and> list_all swit_ok (decode_itm_stream bs)"
  using decode_itm_lossless decode_itm_ok by blast

definition is_swit :: "itm_packet \<Rightarrow> bool" where
  "is_swit p = (case p of Swit _ _ _ \<Rightarrow> True | Unrecognized _ \<Rightarrow> False)"

lemma decode_swit:
  assumes "swit_ok p" "is_swit p"
  shows "decode_itm_stream (itm_packet_bytes p @ rest) = p # decode_itm_stream rest"
proof -
  obtain port v w where p: "p = Swit port v w" using assms(2) by (cases p) (auto simp: is_swit_def)
  have ok: "port < 32" "w \<in> {1, 2, 4}" "unat v < 2 ^ (8 * unat w)"
    using assms(1) by (simp_all add: swit_ok_def p)
  let ?h = "push_bit 3 port OR size_code w"
  have sc: "size_code w < 8" using ok(2) by (auto simp: size_code_def)
  have width: "swit_width ?h = Some (unat w)"
    unfolding swit_width_def swit_header_fields [OF ok(1) sc] using ok(2)
    by (auto simp: size_code_def Let_def)
  have "take_bit (8 * unat w) v = v"
    using ok(3) by (simp add: word_unat_eq_iff unsigned_take_bit_eq take_bit_nat_eq_self)
  moreover have "from_le (to_le (unat w) v) = take_bit (8 * unat w) v"
    by (rule bit_word_eqI)
      (auto simp: bit_from_le nth_to_le bit_ucast_iff bit_drop_bit_eq bit_take_bit_iff)
  ultimately have "le_loop (to_le (unat w) v) = v"
    using ok(2) by (subst le_loop_eq) auto
  moreover have "of_nat (unat w) = w" by simp
  ultimately show ?thesis
    using width swit_header_fields(1) [OF ok(1) sc]
    by (simp add: p)
qed

lemma decode_swits:
  "list_all swit_ok ps \<Longrightarrow> list_all is_swit ps \<Longrightarrow>
   decode_itm_stream (concat (map itm_packet_bytes ps) @ rest) = ps @ decode_itm_stream rest"
  by (induction ps) (simp_all add: decode_swit)

text \<open>
  Clean streams. A stream of software packets, each with a port below 32 and a value
  that fits its width, is decoded to exactly those packets, and whatever follows them is decoded
  on its own.
\<close>

theorem decode_itm_clean:
  assumes "list_all swit_ok ps" and "list_all is_swit ps"
  shows "decode_itm_stream (concat (map itm_packet_bytes ps) @ rest) = ps @ decode_itm_stream rest"
  using assms by (rule decode_swits)

theorem decode_itm_clean_witness:
  "decode_itm_stream (concat (map itm_packet_bytes [Swit 0 16 4, Swit 3 255 1]) @ [0x80]) =
     [Swit 0 16 4, Swit 3 255 1] @ decode_itm_stream [0x80]"
  by (rule decode_itm_clean) (simp_all add: swit_ok_def is_swit_def)

section \<open>Port-0 events\<close>

datatype port0_event =
  Timestamp u32 | Idle u32 | Malformed u8 | Fault u32 | Unknown u32

definition classify_port0 :: "u32 \<Rightarrow> u8 \<Rightarrow> port0_event" where
  "classify_port0 value width =
     (if width = 1 then Malformed (ucast value)
      else if width = 4 \<and> value AND 0xffff0000 = 0xf0010000 then Fault value
      else if width = 4 \<and> value \<noteq> 0 \<and> value mod 16 = 0 then Timestamp value
      else if width = 4 \<and> 1 \<le> value \<and> value \<le> 1024 then Idle value
      else Unknown value)"

definition event_name :: "u8 \<Rightarrow> u32 \<Rightarrow> u8 \<Rightarrow> string" where
  "event_name port value width =
     (if port = 0 then
        (case classify_port0 value width of
           Timestamp v \<Rightarrow> ''Timestamp('' @ fmt_dec (unat v) @ '')''
         | Idle v \<Rightarrow> ''Idle('' @ fmt_dec (unat v) @ '')''
         | Malformed v \<Rightarrow> ''Malformed('' @ fmt_0x 2 (unat v) @ '')''
         | Fault v \<Rightarrow> ''Fault('' @ fmt_0x 8 (unat v) @ '')''
         | Unknown v \<Rightarrow> ''Unknown('' @ fmt_0x 0 (unat v) @ '')'')
      else ''port '' @ fmt_dec (unat port) @ '' = '' @ fmt_0x 0 (unat value))"

section \<open>The track builder\<close>

record perfetto_event =
  ev_port :: u8
  ev_ts :: u64
  ev_name :: string
  ev_value :: u32
  ev_width :: u8

record perfetto_trace =
  events :: "perfetto_event list"
  sequence_gaps :: "(u64 \<times> u64) list"

text \<open>The variables of the loop.\<close>

record trace_state =
  st_trace :: perfetto_trace
  last_timestamp :: "u32 option"
  gap_count :: u64
  next_ts :: u64

definition note_timestamp :: "u32 \<Rightarrow> trace_state \<Rightarrow> trace_state" where
  "note_timestamp v st =
     (let st1 = (case last_timestamp st of
           Some previous \<Rightarrow>
             if v \<noteq> previous + 16 then
               st\<lparr>gap_count := gap_count st + 1,
                  st_trace := (st_trace st)\<lparr>sequence_gaps :=
                    sequence_gaps (st_trace st) @ [(next_ts st, gap_count st + 1)]\<rparr>\<rparr>
             else st
         | None \<Rightarrow> st)
      in st1\<lparr>last_timestamp := Some v\<rparr>)"

definition trace_step :: "trace_state \<Rightarrow> itm_packet \<Rightarrow> trace_state" where
  "trace_step st packet =
     (case packet of
        Unrecognized _ \<Rightarrow> st
      | Swit port value width \<Rightarrow>
          let st1 = (if port = 0 then
                       (case classify_port0 value width of Timestamp v \<Rightarrow> note_timestamp v st | _ \<Rightarrow> st)
                     else st);
              ev = \<lparr>ev_port = port, ev_ts = next_ts st1, ev_name = event_name port value width,
                    ev_value = value, ev_width = width\<rparr>
          in st1\<lparr>st_trace := (st_trace st1)\<lparr>events := events (st_trace st1) @ [ev]\<rparr>,
                 next_ts := next_ts st1 + 1\<rparr>)"

definition build_perfetto_trace :: "itm_packet list \<Rightarrow> perfetto_trace" where
  "build_perfetto_trace packets = st_trace (foldl trace_step
     \<lparr>st_trace = \<lparr>events = [], sequence_gaps = []\<rparr>, last_timestamp = None, gap_count = 0, next_ts = 0\<rparr>
     packets)"

text \<open>
  The reference: packets numbered from zero, the recovered timestamps with their numbers, and
  the numbers at which a timestamp does not follow its predecessor.
\<close>

definition timestamp_shape :: "u32 \<Rightarrow> u8 \<Rightarrow> bool" where
  "timestamp_shape v width \<longleftrightarrow> width = 4 \<and> v AND 0xffff0000 \<noteq> 0xf0010000 \<and> v \<noteq> 0 \<and> v mod 16 = 0"

definition timestamp_of :: "itm_packet \<Rightarrow> u32 option" where
  "timestamp_of p = (case p of
     Swit port value width \<Rightarrow>
       if port = 0 \<and> timestamp_shape value width then Some value else None
   | Unrecognized _ \<Rightarrow> None)"

definition event_of :: "nat \<Rightarrow> itm_packet \<Rightarrow> perfetto_event" where
  "event_of i p = (case p of Swit port value width \<Rightarrow>
     \<lparr>ev_port = port, ev_ts = of_nat i, ev_name = event_name port value width, ev_value = value,
      ev_width = width\<rparr>)"

definition stamps :: "itm_packet list \<Rightarrow> (nat \<times> u32) list" where
  "stamps ps = concat (map (\<lambda>(i, p). case timestamp_of p of Some v \<Rightarrow> [(i, v)] | None \<Rightarrow> [])
     (enumerate 0 ps))"

fun gaps_of :: "(nat \<times> u32) list \<Rightarrow> nat list" where
  "gaps_of (a # b # rest) = (if snd b \<noteq> snd a + 16 then [fst b] else []) @ gaps_of (b # rest)"
| "gaps_of _ = []"

definition counted :: "nat list \<Rightarrow> (u64 \<times> u64) list" where
  "counted is = map (\<lambda>(k, i). (of_nat i, of_nat (Suc k))) (enumerate 0 is)"

lemma gaps_of_snoc:
  "gaps_of (xs @ [b]) = gaps_of xs @
     (if xs \<noteq> [] \<and> snd b \<noteq> snd (last xs) + 16 then [fst b] else [])"
  by (induction xs rule: gaps_of.induct) auto

lemma stamps_snoc:
  "stamps (ps @ [p]) = stamps ps @ (case timestamp_of p of Some v \<Rightarrow> [(length ps, v)] | None \<Rightarrow> [])"
  by (simp add: stamps_def enumerate_append_eq split: option.split)

lemma counted_snoc: "counted (is @ [i]) = counted is @ [(of_nat i, of_nat (Suc (length is)))]"
  by (simp add: counted_def enumerate_append_eq)

definition trace_spec :: "itm_packet list \<Rightarrow> trace_state \<Rightarrow> bool" where
  "trace_spec ps st \<longleftrightarrow>
     events (st_trace st) = map (\<lambda>(i, p). event_of i p) (enumerate 0 (filter is_swit ps)) \<and>
     sequence_gaps (st_trace st) = counted (gaps_of (stamps (filter is_swit ps))) \<and>
     last_timestamp st = (if stamps (filter is_swit ps) = [] then None
                          else Some (snd (last (stamps (filter is_swit ps))))) \<and>
     gap_count st = of_nat (length (gaps_of (stamps (filter is_swit ps)))) \<and>
     next_ts st = of_nat (length (filter is_swit ps))"

lemma classify_timestamp:
  "(case classify_port0 value width of Timestamp v \<Rightarrow> f v | _ \<Rightarrow> d) =
     (if timestamp_shape value width then f value else d)"
  by (simp add: classify_port0_def timestamp_shape_def)

lemma trace_step_spec:
  assumes "trace_spec ps st"
  shows "trace_spec (ps @ [p]) (trace_step st p)"
proof (cases p)
  case (Unrecognized h)
  with assms show ?thesis by (simp add: trace_spec_def trace_step_def is_swit_def)
next
  case (Swit port v0 width)
  have filt: "filter is_swit (ps @ [p]) = filter is_swit ps @ [p]"
    by (simp add: Swit is_swit_def)
  show ?thesis
  proof (cases "timestamp_of p")
    case None
    then have "trace_step st p = st\<lparr>st_trace := (st_trace st)\<lparr>events := events (st_trace st) @
        [\<lparr>ev_port = port, ev_ts = next_ts st, ev_name = event_name port v0 width,
          ev_value = v0, ev_width = width\<rparr>]\<rparr>, next_ts := next_ts st + 1\<rparr>"
      by (auto simp: trace_step_def Swit timestamp_of_def classify_timestamp Let_def
          split: if_splits)
    with assms None show ?thesis
      unfolding trace_spec_def filt
      by (simp add: stamps_snoc enumerate_append_eq event_of_def Swit)
  next
    case (Some v)
    then have "trace_step st p = (let st1 = note_timestamp v st in st1\<lparr>st_trace := (st_trace st1)\<lparr>
        events := events (st_trace st1) @
        [\<lparr>ev_port = port, ev_ts = next_ts st1, ev_name = event_name port v0 width,
          ev_value = v0, ev_width = width\<rparr>]\<rparr>, next_ts := next_ts st1 + 1\<rparr>)"
      by (auto simp: trace_step_def Swit timestamp_of_def classify_timestamp Let_def split: if_splits)
    with assms Some show ?thesis
      unfolding trace_spec_def filt
      by (simp add: stamps_snoc enumerate_append_eq event_of_def Swit note_timestamp_def
          gaps_of_snoc counted_snoc Let_def split: option.splits)
  qed
qed

text \<open>
  The track. The events of a trace are the software packets in their order, each
  with its number as the time; the gap counter rises by one, from one on, exactly at the numbers
  of those port-0 timestamps that differ from the previous one by something else than 16.
\<close>

theorem build_perfetto_trace_exact:
  "build_perfetto_trace ps =
     \<lparr>events = map (\<lambda>(i, p). event_of i p) (enumerate 0 (filter is_swit ps)),
      sequence_gaps = counted (gaps_of (stamps (filter is_swit ps)))\<rparr>"
proof -
  have "trace_spec ps (foldl trace_step
     \<lparr>st_trace = \<lparr>events = [], sequence_gaps = []\<rparr>, last_timestamp = None, gap_count = 0, next_ts = 0\<rparr> ps)"
  proof (induction ps rule: rev_induct)
    case Nil
    then show ?case by (simp add: trace_spec_def stamps_def counted_def)
  next
    case (snoc p ps)
    from trace_step_spec [OF snoc] show ?case by simp
  qed
  then show ?thesis
    by (simp add: build_perfetto_trace_def trace_spec_def)
qed

section \<open>JSON\<close>

abbreviation quote_char :: char where "quote_char \<equiv> CHR 0x22"
abbreviation backslash :: char where "backslash \<equiv> CHR 0x5C"
abbreviation newline :: char where "newline \<equiv> CHR 0x0A"

definition escape_char :: "char \<Rightarrow> string" where
  "escape_char c =
     (if c = quote_char then [backslash, quote_char]
      else if c = backslash then [backslash, backslash]
      else if c = newline then backslash # ''n''
      else if (of_char c :: nat) < 0x20 then backslash # ''u'' @ fmt_hex 4 (of_char c)
      else [c])"

definition json_escape :: "string \<Rightarrow> string \<Rightarrow> string" where
  "json_escape out v = foldl (\<lambda>out c. out @ escape_char c) (out @ [quote_char]) v @ [quote_char]"

text \<open>The closure \<open>item\<close>: the text so far and whether nothing has been written yet.\<close>

definition json_item :: "string \<times> bool \<Rightarrow> string \<Rightarrow> string \<times> bool" where
  "json_item st s = (case st of (out, first) \<Rightarrow>
     ((if first then out else out @ '','' @ [newline]) @ s, False))"

definition thread_entry :: "nat \<Rightarrow> string" where
  "thread_entry port =
     json_escape (''{\"ph\":\"M\",\"name\":\"thread_name\",\"pid\":1,\"tid\":'' @ fmt_dec port @ '',\"args\":{\"name\":'') (''ITM port '' @ fmt_dec port) @ ''}}''"

definition event_entry :: "perfetto_event \<Rightarrow> string" where
  "event_entry ev =
     json_escape (''{\"ph\":\"I\",\"ts\":'' @ fmt_dec (unat (ev_ts ev)) @ '',\"pid\":1,\"tid\":'' @ fmt_dec (unat (ev_port ev)) @ '',\"s\":\"t\",\"name\":'')
       (ev_name ev)
     @ '',\"args\":{\"value\":'' @ fmt_dec (unat (ev_value ev)) @ '',\"width\":'' @ fmt_dec (unat (ev_width ev)) @ ''}}''"

definition counter_entry :: "u64 \<times> u64 \<Rightarrow> string" where
  "counter_entry gap = (case gap of (ts, v) \<Rightarrow>
     ''{\"ph\":\"C\",\"name\":\"dropped_sequence_gap\",\"ts\":'' @ fmt_dec (unat ts) @ '',\"pid\":2,\"tid\":0,\"args\":{\"dropped_sequence_gap\":'' @ fmt_dec (unat v) @ ''}}'')"

definition counter_track :: string where
  "counter_track = ''{\"ph\":\"M\",\"name\":\"thread_name\",\"pid\":2,\"tid\":0,\"args\":{\"name\":\"dropped_sequence_gap\"}}''"

definition perfetto_json :: "perfetto_trace \<Rightarrow> string" where
  "perfetto_json trace =
     (let st0 = (''{\"traceEvents\":['' @ [newline], True);
          st1 = foldl (\<lambda>st port. json_item st (thread_entry port)) st0 [0..<8];
          st2 = foldl (\<lambda>st ev. json_item st (event_entry ev)) st1 (events trace);
          st3 = (if sequence_gaps trace \<noteq> [] then
                   foldl (\<lambda>st gap. json_item st (counter_entry gap)) (json_item st2 counter_track)
                     (sequence_gaps trace)
                 else st2)
      in fst st3 @ [newline] @ '']}'' @ [newline])"

text \<open>A reader for the contents of a JSON string, after the opening quote.\<close>

function json_read :: "string \<Rightarrow> (string \<times> string) option" where
  "json_read [] = None"
| "json_read (c # cs) =
     (if c = quote_char then Some ([], cs)
      else if c = backslash then
        (case cs of
           [] \<Rightarrow> None
         | d # ds \<Rightarrow>
             if d = CHR ''u'' then
               (case from_str_radix 255 16 (take 4 ds) of
                  None \<Rightarrow> None
                | Some n \<Rightarrow> map_option (apfst (Cons (char_of n))) (json_read (drop 4 ds)))
             else if d = CHR ''n'' then map_option (apfst (Cons newline)) (json_read ds)
             else if d = quote_char \<or> d = backslash then map_option (apfst (Cons d)) (json_read ds)
             else None)
      else if (of_char c :: nat) < 0x20 then None
      else map_option (apfst (Cons c)) (json_read cs))"
  by pat_completeness auto
termination
  by (relation "measure length") auto

lemma json_escape_eq: "json_escape out v = out @ [quote_char] @ concat (map escape_char v) @ [quote_char]"
proof -
  have "foldl (\<lambda>out c. out @ escape_char c) acc v = acc @ concat (map escape_char v)" for acc
    by (induction v arbitrary: acc) simp_all
  then show ?thesis by (simp add: json_escape_def)
qed

lemma length_fmt_hex_char: "(of_char c :: nat) < 0x20 \<Longrightarrow> length (fmt_hex 4 (of_char c)) = 4"
  by (simp add: fmt_hex_def length_pad0 radix_digits.simps [of 16])

lemma json_read_escape_char:
  "json_read (escape_char c @ rest) = map_option (apfst (Cons c)) (json_read rest)"
proof -
  have "from_str_radix 255 16 (fmt_hex 4 (of_char c)) = Some (of_char c)"
    using numbers_survive_text [where maximum = 255 and n = "of_char c" and width = 4]
      nat_of_char_less_256 [of c]
    by (simp del: nat_of_char_less_256)
  then show ?thesis
    by (simp add: escape_char_def length_fmt_hex_char)
qed

text \<open>
  JSON strings. Escaping a text and reading it back with the rules of JSON gives the
  text, and the reader stops exactly behind the closing quote, whatever follows: no text can end
  its string early or leave a raw control character in the output.
\<close>

theorem json_escape_roundtrip:
  "\<exists>body. json_escape out v = out @ [quote_char] @ body \<and> json_read (body @ rest) = Some (v, rest)"
proof -
  have "json_read (concat (map escape_char v) @ [quote_char] @ rest) = Some (v, rest)"
    by (induction v) (simp_all add: json_read_escape_char)
  then show ?thesis by (auto simp: json_escape_eq)
qed

end
