(* ===== verification/Workloads.thy ===== *)
theory Workloads
  imports Itm
begin

text \<open>
  The deterministic stimuli, \<open>applications/orbtrace/firmware/m3/src/lib.rs\<close> and
  \<open>applications/orbtrace/firmware/rpu/src/lib.rs\<close>: a 32-bit xorshift generator and a sequence
  number, and the event or action chosen from them.
\<close>

record workload =
  wl_state :: u32
  wl_sequence :: u32

definition workload_new :: "u32 \<Rightarrow> workload" where
  "workload_new seed = \<lparr>wl_state = seed, wl_sequence = 0\<rparr>"

definition xorshift :: "u32 \<Rightarrow> u32" where
  "xorshift s0 =
     (let s1 = s0 XOR push_bit 13 s0;
          s2 = s1 XOR drop_bit 17 s1
      in s2 XOR push_bit 5 s2)"

definition workload_advance :: "workload \<Rightarrow> workload" where
  "workload_advance w = \<lparr>wl_state = xorshift (wl_state w), wl_sequence = wl_sequence w + 1\<rparr>"

datatype m3_event = M3Itm u8 u32 u8 | M3Timestamp u32 | M3Idle u32 | M3Malformed u8 | M3Fault u32

definition m3_next :: "workload \<Rightarrow> workload \<times> m3_event" where
  "m3_next w =
     (let w' = workload_advance w; state = wl_state w'; sequence = wl_sequence w';
          n = unat (sequence AND 15)
      in (w', if n = 0 then M3Timestamp sequence
              else if n = 1 then M3Idle ((state AND 0x3ff) + 1)
              else if n = 2 then M3Malformed (ucast state)
              else if n = 3 then M3Fault (0xf0010000 OR sequence)
              else M3Itm (of_nat (n mod 7) + 1) state ([1, 2, 4] ! (n mod 3))))"

datatype rpu_action = Marker u32 | Spin u32 | Branch bool | RpuFault u32 | Call u8

definition rpu_next :: "workload \<Rightarrow> workload \<times> rpu_action" where
  "rpu_next w =
     (let w' = workload_advance w; state = wl_state w'; sequence = wl_sequence w';
          n = unat (sequence AND 15)
      in (w', if n = 0 then Marker sequence
              else if n = 1 then Spin ((state AND 0x3ff) + 1)
              else if n = 2 then Branch (state AND 1 = 0)
              else if n = 3 then RpuFault (0xf0010000 OR sequence)
              else Call (of_nat (n mod 7))))"

section \<open>The generator\<close>

lemma shift_xor_zero:
  assumes "0 < k" "x XOR push_bit k x = (0 :: u32)"
  shows "x = 0"
proof -
  have eq: "bit x n = (k \<le> n \<and> bit x (n - k))" if "n < 32" for n
    using arg_cong [OF assms(2), of "\<lambda>w. bit w n"] that by (auto simp: bit_xor_iff bit_push_bit_iff)
  have "n < 32 \<Longrightarrow> \<not> bit x n" for n
  proof (induction n rule: less_induct)
    case (less n)
    then show ?case using eq [of n] assms(1) by auto
  qed
  then show ?thesis by (auto intro: bit_word_eqI)
qed

lemma drop_xor_zero:
  assumes "0 < k" "x XOR drop_bit k x = (0 :: u32)"
  shows "x = 0"
proof -
  have eq: "bit x n = bit x (k + n)" for n
    using arg_cong [OF assms(2), of "\<lambda>w. bit w n"] by (auto simp: bit_xor_iff bit_drop_bit_eq)
  have "\<not> bit x n" for n
  proof (induction "32 - n" arbitrary: n rule: less_induct)
    case less
    show ?case
    proof (cases "n < 32")
      case True
      then have "32 - (k + n) < 32 - n" using assms(1) by simp
      with less eq [of n] show ?thesis by blast
    next
      case False
      then show ?thesis using bit_imp_le_length [of x n] by auto
    qed
  qed
  then show ?thesis by (auto intro: bit_word_eqI)
qed

lemma xorshift_linear: "xorshift (a XOR b) = xorshift a XOR xorshift b"
proof -
  have "push_bit k (x XOR y) = push_bit k x XOR push_bit k y"
    and "drop_bit k (x XOR y) = drop_bit k x XOR drop_bit k y" for k and x y :: u32
    by (rule bit_word_eqI; auto simp: bit_xor_iff bit_push_bit_iff bit_drop_bit_eq)+
  then show ?thesis
    by (simp add: xorshift_def Let_def ac_simps)
qed

lemma xorshift_zero: "xorshift x = 0 \<longleftrightarrow> x = 0"
proof
  let ?s1 = "x XOR push_bit 13 x"
  let ?s2 = "?s1 XOR drop_bit 17 ?s1"
  assume "xorshift x = 0"
  then have "?s2 XOR push_bit 5 ?s2 = 0" by (simp only: xorshift_def Let_def)
  then have "?s2 = 0" by (rule shift_xor_zero [rotated]) simp
  then have "?s1 = 0" by (rule drop_xor_zero [rotated]) simp
  then show "x = 0" by (rule shift_xor_zero [rotated]) simp
qed (simp add: xorshift_def Let_def)

lemma xor_zero: "(a XOR b :: u32) = 0 \<longleftrightarrow> a = b"
  by (auto simp: bit_eq_iff bit_xor_iff)

lemma xorshift_inj: "xorshift a = xorshift b \<longleftrightarrow> a = b"
proof -
  have "xorshift a = xorshift b \<longleftrightarrow> xorshift (a XOR b) = 0"
    by (simp add: xorshift_linear xor_zero)
  then show ?thesis by (simp add: xorshift_zero xor_zero)
qed

text \<open>The state after some events.\<close>

primrec workload_run :: "nat \<Rightarrow> workload \<Rightarrow> workload" where
  "workload_run 0 w = w"
| "workload_run (Suc n) w = workload_advance (workload_run n w)"

text \<open>
  The generator does not degenerate. Its step is a permutation of the 32-bit states
  that fixes zero, so from a seed other than zero the state is never zero and two different seeds
  never come together; after \<open>n\<close> events the sequence number is \<open>n\<close>, modulo \<open>2 ^ 32\<close>.
\<close>

theorem workload_never_degenerates:
  "bij xorshift
   \<and> (wl_state (workload_run n (workload_new seed)) = 0) = (seed = 0)
   \<and> (wl_state (workload_run n (workload_new seed)) = wl_state (workload_run n (workload_new seed'))) = (seed = seed')
   \<and> wl_sequence (workload_run n (workload_new seed)) = of_nat n"
proof (intro conjI)
  have "inj xorshift" by (rule injI) (simp add: xorshift_inj)
  then show "bij xorshift"
    by (simp add: bij_def finite_UNIV_inj_surj)
  show "(wl_state (workload_run n (workload_new seed)) = 0) = (seed = 0)"
    by (induction n) (simp_all add: workload_new_def workload_advance_def xorshift_zero)
  show "(wl_state (workload_run n (workload_new seed)) = wl_state (workload_run n (workload_new seed'))) = (seed = seed')"
    by (induction n) (simp_all add: workload_new_def workload_advance_def xorshift_inj)
  show "wl_sequence (workload_run n (workload_new seed)) = of_nat n"
    by (induction n) (simp_all add: workload_new_def workload_advance_def add.commute)
qed

section \<open>What the host makes of the events\<close>

text \<open>The software-trace write of an event: the port, the value and its width in bytes.\<close>

fun event_write :: "m3_event \<Rightarrow> itm_packet" where
  "event_write (M3Itm channel v width) = Swit channel (take_bit (8 * unat width) v) width"
| "event_write (M3Timestamp v) = Swit 0 v 4"
| "event_write (M3Idle v) = Swit 0 v 4"
| "event_write (M3Malformed b) = Swit 0 (ucast b) 1"
| "event_write (M3Fault v) = Swit 0 v 4"

lemma or_eq_self_iff: "(a OR x :: u32) = a \<longleftrightarrow> x AND NOT a = 0"
proof -
  have "(a OR x) = a \<longleftrightarrow> (\<forall>n < 32. bit x n \<longrightarrow> bit a n)"
    by (auto simp: bit_eq_iff bit_or_iff dest: bit_imp_le_length)
  moreover have "x AND NOT a = 0 \<longleftrightarrow> (\<forall>n < 32. bit x n \<longrightarrow> bit a n)"
    by (auto simp: bit_eq_iff bit_and_iff bit_not_iff dest: bit_imp_le_length)
  ultimately show ?thesis by simp
qed

lemma fault_shape: "(0xf0010000 OR n) AND 0xffff0000 = (0xf0010000 :: u32) \<longleftrightarrow> n AND 0x0ffe0000 = 0"
proof -
  have "(0xf0010000 OR n) AND 0xffff0000 = 0xf0010000 OR (n AND 0xffff0000 :: u32)"
    by (simp add: bit.conj_disj_distrib2)
  moreover have "(n AND 0xffff0000) AND NOT 0xf0010000 = (n AND 0x0ffe0000 :: u32)"
    by (simp add: and.assoc)
  ultimately show ?thesis by (simp add: or_eq_self_iff)
qed

text \<open>
  Recovered event kinds, against the comment on \<open>Port0Event\<close> that a fault value
  always has the fixed high half \<open>0xf001\<close>. A fault written at sequence number \<open>n\<close> is recognised
  exactly when bits 17 to 27 of \<open>n\<close> are clear; the one at \<open>0x20003\<close> is not, it is reported as
  unknown. Malformed events are always recognised, idle events except for the multiples of 16,
  which are taken for timestamps.
\<close>

theorem classify_workload_events:
  "(classify_port0 (0xf0010000 OR n) 4 = Fault (0xf0010000 OR n)) = (n AND 0x0ffe0000 = 0)
   \<and> classify_port0 (0xf0010000 OR 0x20003) 4 = Unknown 0xf0030003
   \<and> classify_port0 (ucast b) 1 = Malformed b
   \<and> classify_port0 ((s AND 0x3ff) + 1) 4 =
       (if ((s AND 0x3ff) + 1) mod 16 = 0 then Timestamp ((s AND 0x3ff) + 1) else Idle ((s AND 0x3ff) + 1))"
proof (intro conjI)
  show "(classify_port0 (0xf0010000 OR n) 4 = Fault (0xf0010000 OR n)) = (n AND 0x0ffe0000 = 0)"
    by (auto simp: classify_port0_def fault_shape)
  show "classify_port0 (0xf0010000 OR 0x20003) 4 = Unknown 0xf0030003"
    by (simp add: classify_port0_def)
  have "ucast (ucast b :: u32) = b"
    by (rule bit_word_eqI) (auto simp: bit_ucast_iff)
  then show "classify_port0 (ucast b) 1 = Malformed b"
    by (simp add: classify_port0_def)
  let ?v = "(s AND 0x3ff) + 1"
  have "s AND 0x3ff = take_bit 10 s"
    by (simp add: take_bit_eq_mask mask_eq_exp_minus_1)
  then have "unat (s AND 0x3ff) < 2 ^ 10"
    by (simp only: unsigned_take_bit_eq take_bit_nat_less_exp)
  then have v: "unat ?v = unat (s AND 0x3ff) + 1" "unat ?v \<le> 1024"
    by (simp_all add: unat_word_ariths)
  then have range: "?v \<noteq> 0" "1 \<le> ?v" "?v \<le> 1024"
    by (auto simp: word_le_nat_alt unat_eq_0 [symmetric])
  have "?v AND 0xffff0000 \<le> ?v" by (rule word_and_le2)
  from order_trans [OF this range(3)] have "?v AND 0xffff0000 \<le> 1024" .
  then have "?v AND 0xffff0000 \<noteq> 0xf0010000" by auto
  with range show "classify_port0 ?v 4 = (if ?v mod 16 = 0 then Timestamp ?v else Idle ?v)"
    by (simp add: classify_port0_def)
qed

lemma mod_3_cases: "[1, 2, 4 :: u8] ! (n mod 3) \<in> {1, 2, 4}"
proof -
  have "n mod 3 < 3" by simp
  then consider "n mod 3 = 0" | "n mod 3 = 1" | "n mod 3 = 2" by linarith
  then show ?thesis by cases simp_all
qed

lemma channel_range:
  "(of_nat (n mod 7) + 1 :: u8) < 32" "(of_nat (n mod 7) :: u8) < 7"
proof -
  have m: "n mod 7 < 7" by simp
  then have u: "unat (of_nat (n mod 7) :: u8) = n mod 7" by (intro unat_of_nat_less) simp
  then show "(of_nat (n mod 7) :: u8) < 7" using m by (simp add: word_less_nat_alt)
  have "unat (of_nat (n mod 7) + 1 :: u8) = n mod 7 + 1"
    using u m by (simp add: unat_word_ariths)
  then show "(of_nat (n mod 7) + 1 :: u8) < 32" using m by (simp add: word_less_nat_alt)
qed

lemma event_write_ok: "swit_ok (event_write (snd (m3_next w)))" "is_swit (event_write ev)"
proof -
  have "unat (take_bit m v :: u32) < 2 ^ m" for m v
    by (simp only: unsigned_take_bit_eq take_bit_nat_less_exp)
  moreover have "unat (ucast b :: u32) < 256" for b :: u8
    using unat_u8_less [of b] by (simp add: unsigned_ucast_eq take_bit_nat_eq_self)
  ultimately show "swit_ok (event_write (snd (m3_next w)))"
    using unat_u32_less channel_range(1) mod_3_cases
    by (auto simp: m3_next_def Let_def swit_ok_def simp del: insert_iff)
  show "is_swit (event_write ev)" by (cases ev) (simp_all add: is_swit_def)
qed

text \<open>The first \<open>n\<close> events of a workload.\<close>

primrec m3_events :: "nat \<Rightarrow> workload \<Rightarrow> m3_event list" where
  "m3_events 0 w = []"
| "m3_events (Suc n) w = (case m3_next w of (w', ev) \<Rightarrow> ev # m3_events n w')"

text \<open>
  From stimulus to packets. Whatever the seed and however many events it emits, the
  workload of the M3, written to the instrumentation ports event by event, is decoded by the host
  to exactly one packet for each event, with its port, value and width; the pattern of the R5
  calls only the seven targets the application has.
\<close>

theorem workload_stream_recovered:
  "decode_itm_stream (concat (map itm_packet_bytes (map event_write (m3_events n w)))) =
     map event_write (m3_events n w)
   \<and> (case snd (rpu_next w) of Call target \<Rightarrow> target < 7 | Spin k \<Rightarrow> k \<noteq> 0 | _ \<Rightarrow> True)"
proof
  have "list_all swit_ok (map event_write (m3_events n w)) \<and> list_all is_swit (map event_write (m3_events n w))"
    by (induction n arbitrary: w) (simp_all add: case_prod_unfold event_write_ok)
  then show "decode_itm_stream (concat (map itm_packet_bytes (map event_write (m3_events n w)))) =
     map event_write (m3_events n w)"
    using decode_swits [of "map event_write (m3_events n w)" "[]"] by simp
  have "unat ((s AND 0x3ff) + 1 :: u32) \<noteq> 0" for s
  proof -
    have "s AND 0x3ff = take_bit 10 s" by (simp add: take_bit_eq_mask mask_eq_exp_minus_1)
    then have "unat (s AND 0x3ff) < 2 ^ 10" by (simp only: unsigned_take_bit_eq take_bit_nat_less_exp)
    then show ?thesis by (simp add: unat_word_ariths)
  qed
  then show "case snd (rpu_next w) of Call target \<Rightarrow> target < 7 | Spin k \<Rightarrow> k \<noteq> 0 | _ \<Rightarrow> True"
    using channel_range(2) by (auto simp: rpu_next_def Let_def unat_eq_0)
qed

end
