(* ===== verification/SyntheticDap.thy ===== *)
theory SyntheticDap
  imports Control
begin

text \<open>
  The synthetic debug port of \<open>applications/orbtrace/model/src/lib.rs\<close> (\<open>SyntheticDap\<close>):
  its fault injection flags and \<open>execute\<close> on a CMSIS-DAP request.
\<close>

record synthetic_dap =
  aborts :: u32
  transfers :: u64
  wait_once :: bool
  fault_once :: bool
  parity_error_once :: bool

definition dap_default :: synthetic_dap where
  "dap_default = \<lparr>aborts = 0, transfers = 0, wait_once = False, fault_once = False,
     parity_error_once = False\<rparr>"

definition set_wait_once :: "synthetic_dap \<Rightarrow> synthetic_dap" where
  "set_wait_once d = d\<lparr>wait_once := True\<rparr>"

definition set_fault_once :: "synthetic_dap \<Rightarrow> synthetic_dap" where
  "set_fault_once d = d\<lparr>fault_once := True\<rparr>"

definition set_parity_error_once :: "synthetic_dap \<Rightarrow> synthetic_dap" where
  "set_parity_error_once d = d\<lparr>parity_error_once := True\<rparr>"

text \<open>\<open>request.get(i).copied().unwrap_or(0)\<close>\<close>

definition get_or_0 :: "bytes \<Rightarrow> nat \<Rightarrow> u8" where
  "get_or_0 xs i = (if i < length xs then xs ! i else 0)"

definition ascii :: "string \<Rightarrow> bytes" where
  "ascii s = map (\<lambda>c. of_nat (of_char c)) s"

definition dap_info :: "u8 \<Rightarrow> bytes" where
  "dap_info i = (let v = (if i = 1 then ascii ''Orbcode''
       else if i = 2 then ascii ''ZUBoard Orbtrace'' else [])
     in [0x00, of_nat (length v)] @ v)"

text \<open>
  The loop over the transfers: the number left, the bytes of the request from \<open>request_pos\<close>
  on, the transfers counted so far and the data read. It stops early with the fault status.
\<close>

fun dap_transfers :: "nat \<Rightarrow> bytes \<Rightarrow> u8 \<Rightarrow> bytes \<Rightarrow> synthetic_dap \<Rightarrow> synthetic_dap \<times> u8 \<times> bool \<times> bytes" where
  "dap_transfers 0 rest completed data d = (d, completed, True, data)"
| "dap_transfers (Suc n) [] completed data d = (d, completed, False, data)"
| "dap_transfers (Suc n) (transfer # rest) completed data d =
     (let d1 = d\<lparr>transfers := transfers d + 1\<rparr>
      in if transfer AND 2 \<noteq> 0 then
           dap_transfers n rest (completed + 1)
             (data @ u32_le (0xa5a50000 OR ucast transfer)) d1
         else if 4 \<le> length rest then dap_transfers n (drop 4 rest) (completed + 1) data d1
         else (d1, completed, False, data))"

definition dap_execute :: "synthetic_dap \<Rightarrow> bytes \<Rightarrow> synthetic_dap \<times> (protocol_error + bytes)" where
  "dap_execute d request =
     (if request = [] \<or> length request > max_dap_packet then (d, Inl Short)
      else let command = request ! 0
      in if command = 0x00 then (d, Inr (dap_info (get_or_0 request 1)))
      else if command = 0x02 then (d, Inr [0x02, get_or_0 request 1 AND 3])
      else if command = 0x05 then
        (if length request < 3 then (d, Inl Short)
         else if wait_once d then (d\<lparr>wait_once := False\<rparr>, Inr [0x05, 0, 0x02])
         else if fault_once d then (d\<lparr>fault_once := False\<rparr>, Inr [0x05, 0, 0x04])
         else let status = (if parity_error_once d then 0x09 else 0x01 :: u8);
                  d1 = d\<lparr>parity_error_once := False\<rparr>
         in (case dap_transfers (unat (request ! 2)) (drop 3 request) 0 [] d1 of
               (d2, completed, ok, data) \<Rightarrow>
                 (d2, Inr ([0x05, completed, if ok then status else 0x04] @ data))))
      else if command = 0x07 \<or> command = 0x08 then
        (d\<lparr>aborts := aborts d + 1\<rparr>, Inr [command, 0])
      else if command = 0x10 then (d, Inr [0x10, get_or_0 request 1])
      else if command = 0x14 then (d, Inr [0x14, 0, get_or_0 request 3 XOR 1])
      else (d, Inr [command, 0xff]))"

section \<open>Transfers\<close>

datatype dap_op = ReadOp u8 | WriteOp u8 u32

definition op_ok :: "dap_op \<Rightarrow> bool" where
  "op_ok p = (case p of ReadOp t \<Rightarrow> t AND 2 \<noteq> 0 | WriteOp t _ \<Rightarrow> t AND 2 = 0)"

fun op_bytes :: "dap_op \<Rightarrow> bytes" where
  "op_bytes (ReadOp t) = [t]"
| "op_bytes (WriteOp t w) = t # u32_le w"

fun op_data :: "dap_op \<Rightarrow> bytes" where
  "op_data (ReadOp t) = u32_le (0xa5a50000 OR ucast t)"
| "op_data (WriteOp t w) = []"

lemma dap_transfers_ops:
  "list_all op_ok ops \<Longrightarrow>
   dap_transfers (length ops + n) (concat (map op_bytes ops) @ rest) completed data d =
     dap_transfers n rest (completed + of_nat (length ops)) (data @ concat (map op_data ops))
       (d\<lparr>transfers := transfers d + of_nat (length ops)\<rparr>)"
proof (induction ops arbitrary: completed data d)
  case (Cons p ops)
  then show ?case
    by (cases p) (simp_all add: op_ok_def Let_def add.assoc)
qed simp

lemma dap_transfers_bounds:
  "dap_transfers n rest completed data d = (d', completed', ok, data') \<Longrightarrow>
   length data' \<le> length data + 4 * n"
  by (induction n rest completed data d rule: dap_transfers.induct)
    (force simp: Let_def split: if_splits)+

lemma length_dap_info: "length (dap_info i) \<le> 18"
  by (simp add: dap_info_def ascii_def Let_def)

text \<open>
  Transfers. A transfer request with up to 255 operations, each a read or a write with
  its word, is executed completely: the answer counts all of them, carries the words of the
  reads in order and nothing for the writes, with the status of a pending parity error or success;
  bytes behind the counted operations are ignored. An injected wait comes before an injected fault,
  each answers one request without touching the target, and both come before a parity error.
\<close>

theorem dap_execute_transfers:
  assumes "list_all op_ok ops" and "length ops \<le> 255"
    and "3 + length (concat (map op_bytes ops)) + length rest \<le> max_dap_packet"
  shows "dap_execute d ([0x05, index, of_nat (length ops)] @ concat (map op_bytes ops) @ rest) =
     (if wait_once d then (d\<lparr>wait_once := False\<rparr>, Inr [0x05, 0, 0x02])
      else if fault_once d then (d\<lparr>fault_once := False\<rparr>, Inr [0x05, 0, 0x04])
      else (d\<lparr>parity_error_once := False, transfers := transfers d + of_nat (length ops)\<rparr>,
            Inr ([0x05, of_nat (length ops), if parity_error_once d then 0x09 else 0x01]
                 @ concat (map op_data ops))))"
proof -
  have n: "unat (of_nat (length ops) :: u8) = length ops" using assms(2) by simp
  have "dap_transfers (length ops) (concat (map op_bytes ops) @ rest) 0 [] d' =
      (d'\<lparr>transfers := transfers d' + of_nat (length ops)\<rparr>, of_nat (length ops), True, concat (map op_data ops))" for d'
    using dap_transfers_ops [OF assms(1), of 0 rest 0 "[]" d'] by simp
  then show ?thesis
    using assms(3) n by (simp add: dap_execute_def Let_def)
qed

theorem dap_execute_transfers_witness:
  "dap_execute dap_default ([0x05, 0, of_nat (length [ReadOp 2, WriteOp 1 7])]
      @ concat (map op_bytes [ReadOp 2, WriteOp 1 7]) @ [9]) =
    (if wait_once dap_default then (dap_default\<lparr>wait_once := False\<rparr>, Inr [0x05, 0, 0x02])
      else if fault_once dap_default then (dap_default\<lparr>fault_once := False\<rparr>, Inr [0x05, 0, 0x04])
      else (dap_default\<lparr>parity_error_once := False,
              transfers := transfers dap_default + of_nat (length [ReadOp 2, WriteOp 1 7])\<rparr>,
            Inr ([0x05, of_nat (length [ReadOp 2, WriteOp 1 7]),
                  if parity_error_once dap_default then 0x09 else 0x01]
                 @ concat (map op_data [ReadOp 2, WriteOp 1 7]))))"
  by (rule dap_execute_transfers) (simp_all add: op_ok_def max_dap_packet_def)

text \<open>
  Every answer fits. Whatever the request, an answer starts with the command byte of
  the request and is at most one CMSIS-DAP packet long; a request is refused exactly when it is
  empty, longer than a packet, or a transfer request too short for its header.
\<close>

theorem dap_execute_answers:
  "case snd (dap_execute d request) of
     Inr answer \<Rightarrow> request \<noteq> [] \<and> take 1 answer = take 1 request \<and> length answer \<le> max_dap_packet
   | Inl e \<Rightarrow> e = Short \<and> (request = [] \<or> max_dap_packet < length request
       \<or> request ! 0 = 0x05 \<and> length request < 3)"
proof (cases "request = [] \<or> max_dap_packet < length request")
  case True
  then show ?thesis by (auto simp: dap_execute_def)
next
  case False
  then obtain c cs where req: "request = c # cs" by (cases request) auto
  obtain d2 completed ok data where tr: "dap_transfers (unat (request ! 2)) (drop 3 request) 0 []
      (d\<lparr>parity_error_once := False\<rparr>) = (d2, completed, ok, data)" by (metis prod_cases4)
  have "length data \<le> 4 * unat (request ! 2)"
    using dap_transfers_bounds [OF tr] by simp
  then have data: "3 + length data \<le> max_dap_packet"
    using unat_u8_less [of "request ! 2"] by (simp add: max_dap_packet_def)
  have info: "length (dap_info i) \<le> max_dap_packet" "take 1 (dap_info i) = [0]" for i
    using length_dap_info [of i] by (simp_all add: max_dap_packet_def dap_info_def Let_def)
  show ?thesis
    using False tr data info
    by (auto simp: dap_execute_def Let_def req max_dap_packet_def)
qed

end
