(* ===== verification/HostClient.thy ===== *)
theory HostClient
  imports Board Workloads SyntheticDap
begin

text \<open>
  The command-line client, \<open>applications/orbtrace/model/src/main.rs\<close>: argument parsing, one
  control transaction, the capture loop, the trace pipeline, the OpenOCD bridge, the load of an
  M3 image and the generated register header. The network is a parameter: a server takes the
  bytes of a request and answers with the bytes that will arrive. Console messages are left out.
\<close>

section \<open>Transactions\<close>

datatype io_error =
  InvalidData string | InvalidInput string | InvalidProtocol protocol_error | ReadFailed

text \<open>\<open>read_frame\<close> on the bytes still to arrive; \<open>read_exact\<close> fails when they end too early.\<close>

definition read_frame :: "bytes \<Rightarrow> nat \<Rightarrow> io_error + bytes" where
  "read_frame stream maximum =
     (if length stream < 4 then Inl ReadFailed
      else let size = unat (from_le (take 4 stream) :: u32)
      in if size > maximum then Inl (InvalidData ''frame too large'')
      else if length (drop 4 stream) < size then Inl ReadFailed
      else Inr (take size (drop 4 stream)))"

type_synonym 's server = "'s \<Rightarrow> bytes \<Rightarrow> 's \<times> bytes"

definition exchange :: "'s server \<Rightarrow> 's \<Rightarrow> nat \<Rightarrow> bytes \<Rightarrow> 's \<times> (io_error + bytes)" where
  "exchange net s maximum request =
     (case length_frame request maximum of
        Inl e \<Rightarrow> (s, Inl (InvalidProtocol e))
      | Inr framed \<Rightarrow> (case net s framed of (s', stream) \<Rightarrow> (s', read_frame stream maximum)))"

definition transact :: "'s server \<Rightarrow> 's \<Rightarrow> command \<Rightarrow> 's \<times> (io_error + bytes)" where
  "transact net s command = exchange net s max_control_payload (command_encode command)"

definition dap_transaction :: "'s server \<Rightarrow> 's \<Rightarrow> bytes \<Rightarrow> 's \<times> (io_error + bytes)" where
  "dap_transaction net s packet = exchange net s max_dap_packet packet"

section \<open>Arguments\<close>

definition parse_source :: "string \<Rightarrow> io_error + source" where
  "parse_source v =
     (if v = ''m3'' \<or> v = ''cortex-m3'' then Inr CortexM3
      else if v = ''r5'' then Inr R5
      else if v = ''a53'' then Inr A53
      else if v = ''test'' then Inr Test
      else Inl (InvalidInput ''source must be m3, r5, a53, or test''))"

definition parse_format :: "string \<Rightarrow> io_error + trace_format" where
  "parse_format v =
     (if v = ''tpiu1'' then Inr Tpiu1
      else if v = ''tpiu2'' then Inr Tpiu2
      else if v = ''tpiu4'' then Inr Tpiu4
      else if v = ''swo-nrz'' then Inr SwoNrz
      else if v = ''swo-manchester'' then Inr SwoManchester
      else Inl (InvalidInput ''unknown trace format''))"

text \<open>\<open>from_str_radix(...).map_err(invalid)\<close> at a maximum and a base.\<close>

definition parse_number :: "nat \<Rightarrow> nat \<Rightarrow> string \<Rightarrow> io_error + nat" where
  "parse_number maximum base v =
     (case from_str_radix maximum base v of
        Some n \<Rightarrow> Inr n | None \<Rightarrow> Inl (InvalidInput ''invalid number''))"

definition is_ascii_whitespace :: "char \<Rightarrow> bool" where
  "is_ascii_whitespace c \<longleftrightarrow> of_char c \<in> {32, 9, 10, 12, 13 :: nat}"

fun parse_hex_pairs :: "string \<Rightarrow> io_error + bytes" where
  "parse_hex_pairs (a # b # rest) =
     bind_res (parse_number 255 16 [a, b]) (\<lambda>n.
     bind_res (parse_hex_pairs rest) (\<lambda>bs. Inr (of_nat n # bs)))"
| "parse_hex_pairs _ = Inr []"

definition parse_hex :: "string \<Rightarrow> io_error + bytes" where
  "parse_hex v =
     (let clean = filter (\<lambda>c. \<not> is_ascii_whitespace c \<and> c \<noteq> CHR '':'') v
      in if length clean mod 2 \<noteq> 0 then Inl (InvalidInput ''hex packet has odd length'')
         else parse_hex_pairs clean)"

datatype cli_action =
    GenRegisters
  | Capture string string "nat option"
  | Replay string string
  | DecodeTrace string string "nat option"
  | LoadM3 string string
  | RemoteBitbang string string
  | DapPacket string bytes
  | ControlCommand string command
  | Usage

definition parse_opt :: "nat \<Rightarrow> string list \<Rightarrow> io_error + nat option" where
  "parse_opt maximum rest =
     (case rest of [] \<Rightarrow> Inr None
      | n # _ \<Rightarrow> bind_res (parse_number maximum 10 n) (\<lambda>k. Inr (Some k)))"

definition parse_bits :: "string \<Rightarrow> io_error + nat" where
  "parse_bits v = (if take 2 v = ''0x'' then parse_number 255 16 (drop 2 v) else parse_number 255 10 v)"

definition run_args :: "string list \<Rightarrow> io_error + cli_action" where
  "run_args args =
     (let n = length args; arg = (\<lambda>i. args ! i); verb = args ! 0 in
      if args = [] then Inr Usage
      else if verb = ''gen-registers'' \<and> n = 1 then Inr GenRegisters
      else if verb = ''capture'' \<and> (n = 3 \<or> n = 4) then
        bind_res (parse_opt (2 ^ 64 - 1) (drop 3 args)) (\<lambda>k. Inr (Capture (arg 1) (arg 2) k))
      else if verb = ''replay'' \<and> n = 3 then Inr (Replay (arg 1) (arg 2))
      else if verb = ''decode-trace'' \<and> (n = 3 \<or> n = 4) then
        bind_res (parse_opt 255 (drop 3 args)) (\<lambda>k. Inr (DecodeTrace (arg 1) (arg 2) k))
      else if verb = ''load-m3'' \<and> n = 3 then Inr (LoadM3 (arg 1) (arg 2))
      else if verb = ''m3-control'' \<and> n = 3 then
        bind_res (parse_bits (arg 2)) (\<lambda>bits. Inr (ControlCommand (arg 1) (M3Control (of_nat bits))))
      else if verb = ''remote-bitbang'' \<and> n = 3 then Inr (RemoteBitbang (arg 1) (arg 2))
      else if verb = ''configure'' \<and> n = 5 then
        bind_res (parse_source (arg 2)) (\<lambda>src.
        bind_res (parse_format (arg 3)) (\<lambda>format.
        bind_res (parse_number (2 ^ 32 - 1) 10 (arg 4)) (\<lambda>baud.
        Inr (ControlCommand (arg 1) (Configure src format (of_nat baud))))))
      else if verb = ''dap'' \<and> n = 3 then
        bind_res (parse_hex (arg 2)) (\<lambda>packet. Inr (DapPacket (arg 1) packet))
      else if verb = ''info'' \<and> n = 2 then Inr (ControlCommand (arg 1) GetInfo)
      else if verb = ''stats'' \<and> n = 2 then Inr (ControlCommand (arg 1) GetStats)
      else if verb = ''start'' \<and> n = 2 then Inr (ControlCommand (arg 1) Start)
      else if verb = ''stop'' \<and> n = 2 then Inr (ControlCommand (arg 1) Stop)
      else if verb = ''reset'' \<and> n = 2 then Inr (ControlCommand (arg 1) Reset)
      else Inr Usage)"

section \<open>Capture and the trace pipeline\<close>

text \<open>
  The loop of \<open>capture\<close>. The bytes the server will send are given, and how many of them each
  read returns, at least one and at most what is wanted; a read of none ends the loop.
\<close>

definition wanted_bytes :: "nat option \<Rightarrow> nat \<Rightarrow> nat" where
  "wanted_bytes limit so_far =
     (case limit of Some n \<Rightarrow> min (n - so_far) (64 * 1024) | None \<Rightarrow> 64 * 1024)"

definition read_count :: "nat \<Rightarrow> nat list \<Rightarrow> bytes \<Rightarrow> nat" where
  "read_count wanted sizes stream =
     min (case sizes of [] \<Rightarrow> wanted | s # _ \<Rightarrow> max 1 (min s wanted)) (length stream)"

function capture_loop :: "nat option \<Rightarrow> nat \<Rightarrow> nat list \<Rightarrow> bytes \<Rightarrow> bytes" where
  "capture_loop limit so_far sizes stream =
     (if (case limit of Some n \<Rightarrow> \<not> so_far < n | None \<Rightarrow> False) then []
      else let count = read_count (wanted_bytes limit so_far) sizes stream
      in if count = 0 then []
         else take count stream @ capture_loop limit (so_far + count) (tl sizes) (drop count stream))"
  by pat_completeness auto
termination
  by (relation "measure (\<lambda>(limit, so_far, sizes, stream). length stream)") (auto simp: read_count_def)

declare capture_loop.simps [simp del]

definition decode_trace :: "bytes \<Rightarrow> u8 option \<Rightarrow> io_error + string" where
  "decode_trace capture channel =
     bind_res (case channel of
         Some c \<Rightarrow> Inr c
       | None \<Rightarrow> (case channel_histogram capture of
             [] \<Rightarrow> Inl (InvalidInput ''capture has no valid orbflow frames'')
           | (c, _) # _ \<Rightarrow> Inr c))
       (\<lambda>c. Inr (perfetto_json (build_perfetto_trace (decode_itm_stream
          (reconstruct_channel_stream capture c)))))"

section \<open>The OpenOCD bridge\<close>

text \<open>The bytes the client sends, the bytes it gets back, and how the loop ends.\<close>

fun remote_bitbang :: "'s server \<Rightarrow> 's \<Rightarrow> bool \<Rightarrow> bytes \<Rightarrow> 's \<times> bytes \<times> (io_error + unit)" where
  "remote_bitbang net s last_tdo [] = (s, [], Inr ())"
| "remote_bitbang net s last_tdo (b # input) =
     (if 48 \<le> b \<and> b \<le> 55 then
        let pins = b - 48 in
        if pins AND 4 \<noteq> 0 then
          let tms = (pins AND 2 \<noteq> 0); tdi = pins AND 1 in
          (case dap_transaction net s [0x14, 1, 1 OR push_bit 7 (of_bool tms), tdi] of
             (s1, Inl e) \<Rightarrow> (s1, [], Inl e)
           | (s1, Inr response) \<Rightarrow>
               if \<not> (0 < length response \<and> response ! 0 = 0x14) \<or>
                  \<not> (1 < length response \<and> response ! 1 = 0)
               then (s1, [], Inl (InvalidData ''CMSIS-DAP JTAG sequence failed''))
               else remote_bitbang net s1 (get_or_0 response 2 AND 1 \<noteq> 0) input)
        else remote_bitbang net s last_tdo input
      else if b = 82 then
        (case remote_bitbang net s last_tdo input of (s1, out, r) \<Rightarrow>
           (s1, (if last_tdo then 49 else 48) # out, r))
      else if 114 \<le> b \<and> b \<le> 117 then
        let v = (if b = 114 then 0xa0 else if b = 115 then 0x20 else if b = 116 then 0x80 else 0) in
        (case dap_transaction net s [0x10, v, 0xa0, 0, 0, 0, 0] of
           (s1, Inl e) \<Rightarrow> (s1, [], Inl e)
         | (s1, Inr _) \<Rightarrow> remote_bitbang net s1 last_tdo input)
      else if b = 81 then (s, [], Inr ())
      else if b = 66 \<or> b = 98 then remote_bitbang net s last_tdo input
      else (s, [], Inl (InvalidInput (''unknown remote-bitbang byte 0x'' @ fmt_hex 2 (unat b)))))"

section \<open>Loading an M3 image\<close>

function chunks :: "nat \<Rightarrow> 'a list \<Rightarrow> 'a list list" where
  "chunks n xs = (if n = 0 \<or> xs = [] then [] else take n xs # chunks n (drop n xs))"
  by pat_completeness auto
termination
  by (relation "measure (\<lambda>(n, xs). length xs)") auto

declare chunks.simps [simp del]

fun load_chunks :: "'s server \<Rightarrow> 's \<Rightarrow> nat \<Rightarrow> bytes list \<Rightarrow> 's \<times> (io_error + unit)" where
  "load_chunks net s chunk_index [] = (s, Inr ())"
| "load_chunks net s chunk_index (chunk # rest) =
     (case transact net s (LoadM3Chunk (of_nat (chunk_index * m3_bram_chunk)) chunk) of
        (s1, Inl e) \<Rightarrow> (s1, Inl e)
      | (s1, Inr _) \<Rightarrow> load_chunks net s1 (chunk_index + 1) rest)"

definition load_m3 :: "'s server \<Rightarrow> 's \<Rightarrow> bytes \<Rightarrow> 's \<times> (io_error + unit)" where
  "load_m3 net s img =
     (if length img < 8 then (s, Inl (InvalidInput ''M3 image is too short to hold a reset vector''))
      else if length img > m3_bram_size then
        (s, Inl (InvalidInput (''M3 image is '' @ fmt_dec (length img) @ '' bytes; BRAM holds at most ''
           @ fmt_dec m3_bram_size)))
      else case transact net s (M3Control 0) of
        (s1, Inl e) \<Rightarrow> (s1, Inl e)
      | (s1, Inr _) \<Rightarrow>
         (case load_chunks net s1 0 (chunks m3_bram_chunk img) of
            (s2, Inl e) \<Rightarrow> (s2, Inl e)
          | (s2, Inr _) \<Rightarrow>
             let check_len = of_nat (min (length img) 16) :: u16 in
             (case transact net s2 (ReadM3Bram 0 check_len) of
                (s3, Inl e) \<Rightarrow> (s3, Inl e)
              | (s3, Inr readback) \<Rightarrow>
                  if readback \<noteq> take (unat check_len) img then
                    (s3, Inl (InvalidInput
                       ''readback mismatch: M3 BRAM does not contain the uploaded image''))
                  else (case transact net s3 (M3Control 1) of
                      (s4, Inl e) \<Rightarrow> (s4, Inl e)
                    | (s4, Inr _) \<Rightarrow> (s4, Inr ())))))"

section \<open>Hexadecimal packets\<close>

definition hex_text :: "bytes \<Rightarrow> string" where
  "hex_text bs = concat (map (\<lambda>b. fmt_hex 2 (unat b)) bs)"

definition hex_clean :: "string \<Rightarrow> string" where
  "hex_clean v = filter (\<lambda>c. \<not> is_ascii_whitespace c \<and> c \<noteq> CHR '':'') v"

lemma length_fmt_hex_u8: "length (fmt_hex 2 (unat (b :: u8))) = 2"
proof -
  have "unat b < 256" by (rule unat_u8_less)
  then have "unat b div 16 < 16" by simp
  then show ?thesis by (simp add: fmt_hex_def length_pad0 radix_digits.simps)
qed

lemma parse_hex_pairs_text: "parse_hex_pairs (hex_text bs) = Inr bs"
proof (induction bs)
  case Nil
  show ?case by (simp add: hex_text_def)
next
  case (Cons b bs)
  obtain x y where xy: "fmt_hex 2 (unat b) = [x, y]"
    using length_fmt_hex_u8 [of b] list_of_length_2 by blast
  have "unat b \<le> 255" using unat_u8_less [of b] by simp
  then have "parse_number 255 16 [x, y] = Inr (unat b)"
    using numbers_survive_text [of 255 "unat b" 2] by (simp add: parse_number_def xy)
  with Cons show ?case by (simp add: hex_text_def xy)
qed

lemma length_hex_text [simp]: "length (hex_text bs) = 2 * length bs"
  by (induction bs) (simp_all add: hex_text_def length_fmt_hex_u8)

text \<open>
  Hexadecimal packets. Any arrangement of white space and colons in and around the
  hexadecimal text of a packet, the form in which the client prints one, is parsed to that packet.
\<close>

theorem parse_hex_packet:
  assumes "filter (\<lambda>c. \<not> is_ascii_whitespace c \<and> c \<noteq> CHR '':'') v = hex_text bs"
  shows "parse_hex v = Inr bs"
  using assms by (simp add: parse_hex_def parse_hex_pairs_text)

theorem parse_hex_packet_witness: "parse_hex ''05:00 01:02'' = Inr [5, 0, 1, 2]"
  by (rule parse_hex_packet) code_simp

section \<open>The capture loop\<close>

lemma read_count_bounds:
  "1 \<le> wanted \<Longrightarrow> stream \<noteq> [] \<Longrightarrow> 0 < read_count wanted sizes stream"
  "1 \<le> wanted \<Longrightarrow> read_count wanted sizes stream \<le> wanted"
  "read_count wanted sizes [] = 0"
  by (cases sizes; auto simp: read_count_def)+

lemma capture_loop_take:
  "capture_loop limit so_far sizes stream =
     (case limit of None \<Rightarrow> stream | Some n \<Rightarrow> take (n - so_far) stream)"
proof (induction limit so_far sizes stream rule: capture_loop.induct)
  case (1 limit so_far sizes stream)
  let ?wanted = "wanted_bytes limit so_far"
  let ?count = "read_count ?wanted sizes stream"
  show ?case
  proof (cases "case limit of Some n \<Rightarrow> \<not> so_far < n | None \<Rightarrow> False")
    case True
    then show ?thesis by (subst capture_loop.simps) (auto split: option.splits)
  next
    case False
    then have w: "1 \<le> ?wanted" by (auto simp: wanted_bytes_def split: option.splits)
    show ?thesis
    proof (cases "stream = []")
      case True
      with False show ?thesis
        by (subst capture_loop.simps) (simp add: read_count_bounds Let_def split: option.splits)
    next
      case ne: False
      have pos: "?count \<noteq> 0" using read_count_bounds(1) [OF w ne, of sizes] by simp
      then have step: "capture_loop limit so_far sizes stream = take ?count stream @
          capture_loop limit (so_far + ?count) (tl sizes) (drop ?count stream)"
        using False by (subst capture_loop.simps) (simp add: Let_def)
      note IH = 1 [OF False refl pos]
      show ?thesis
      proof (cases limit)
        case None
        with IH show ?thesis unfolding step by simp
      next
        case (Some n)
        have "?count \<le> ?wanted" by (rule read_count_bounds(2) [OF w])
        then have "?count \<le> n - so_far" using Some by (simp add: wanted_bytes_def)
        then have "take (n - so_far) stream = take ?count stream @ take (n - so_far - ?count) (drop ?count stream)"
          by (metis le_add_diff_inverse take_add)
        with IH Some show ?thesis unfolding step by simp
      qed
    qed
  qed
qed

text \<open>
  What is captured. Whatever sizes the reads return, the capture is the stream itself,
  cut after the limit when one is given.
\<close>

theorem capture_exact:
  "capture_loop limit 0 sizes stream = (case limit of None \<Rightarrow> stream | Some n \<Rightarrow> take n stream)"
  unfolding capture_loop_take by (simp split: option.split)

section \<open>The client and the board\<close>

text \<open>The network between them delivers everything; the board pumps what it receives.\<close>

definition board_net :: "'dev device \<Rightarrow> 'dev firmware server" where
  "board_net D fw request = (case serve_control D fw request of (fw', replies) \<Rightarrow> (fw', concat replies))"

lemma unframe_frame:
  "length_frame p m = Inr frame \<Longrightarrow> m < 2 ^ 32 \<Longrightarrow>
   length_unframe frame m = Inr (p, length frame) \<and> frame \<noteq> []"
  using from_le_len_prefix [of "length p"]
  by (auto simp: length_frame_def length_unframe_def slice_of_def Let_def split: if_splits
      dest: arg_cong [where f = length])

lemma board_transact:
  assumes "receiving [] fw" and "length (command_encode c) \<le> max_control_payload"
    and "command_op (mmio D) (board_state fw) (command_encode c) (replicate 4096 0) = ((w, tl'), Inr n)"
  shows "\<exists>fw'. transact (board_net D) fw c = (fw', Inr (take n tl')) \<and> receiving [] fw' \<and> board_state fw' = w"
proof -
  obtain frame where frame: "length_frame (command_encode c) max_control_payload = Inr frame"
    using length_frame_eq [OF assms(2)] by blast
  have un: "length_unframe frame max_control_payload = Inr (command_encode c, length frame)" "frame \<noteq> []"
    using unframe_frame [OF frame] by (simp_all add: max_control_payload_def)
  have "length tl' = 4096" "n \<le> 4096"
    using command_op_ok [of "replicate 4096 0" "mmio D" "board_state fw" "command_encode c"] assms(3) by simp_all
  then obtain fw' where fw': "serve_control D fw frame = (fw', [u32_le (of_nat n) @ take n tl'])"
      "receiving [] fw'" "board_state fw' = w"
    using serve_reply [OF assms(1) un assms(3)] by auto
  have "unat (of_nat n :: u32) = n" using \<open>n \<le> 4096\<close> by simp
  then have "read_frame (u32_le (of_nat n) @ take n tl') max_control_payload = Inr (take n tl')"
    using \<open>n \<le> 4096\<close> \<open>length tl' = 4096\<close> by (simp add: read_frame_def max_control_payload_def)
  with fw' frame show ?thesis
    by (auto simp: transact_def exchange_def board_net_def)
qed

lemma command_encode_length:
  "length (command_encode (M3Control b)) = 4" "length (command_encode (LoadM3Chunk w data)) = 7 + length data"
  "length (command_encode (ReadM3Bram w k)) = 9"
  by (simp_all add: command_encode_def protocol_version_def)

lemma mmio_write_keeps [simp]: "board_state (fw\<lparr>control_conn := d\<rparr>) = board_state fw"
  by simp

lemma load_chunks_board:
  assumes "receiving [] fw" "world_ok (board_state fw)" "index * m3_bram_chunk + length xs \<le> m3_bram_size"
  shows "\<exists>fw'. load_chunks (board_net D) fw index (chunks m3_bram_chunk xs) = (fw', Inr ()) \<and> receiving [] fw'
    \<and> board_state fw' = (board_state fw)\<lparr>w_bram := copy_into (w_bram (board_state fw)) (index * m3_bram_chunk) xs\<rparr>"
  using assms
proof (induction "length xs" arbitrary: xs fw index rule: less_induct)
  case less
  let ?w = "board_state fw" and ?off = "index * m3_bram_chunk"
  show ?case
  proof (cases "xs = []")
    case True
    with less.prems show ?thesis by (simp add: chunks.simps copy_into_Nil)
  next
    case False
    let ?c = "take m3_bram_chunk xs" and ?r = "drop m3_bram_chunk xs"
    have off: "?off mod 4 = 0" by (simp add: m3_bram_chunk_def mod_mult_eq [symmetric] flip: mod_mult_right_eq)
    have fit: "?off + length ?c \<le> m3_bram_size" using less.prems(3) by simp
    have len: "length (w_bram ?w) = m3_bram_size" using less.prems(2) by (simp add: world_ok_def)
    have four: "replicate 4096 (0 :: u8) \<noteq> []" by (simp add: numeral_eq_Suc)
    let ?w1 = "?w\<lparr>w_bram := copy_into (w_bram ?w) ?off ?c\<rparr>"
    have cmd: "command_op (mmio D) ?w (command_encode (LoadM3Chunk (of_nat ?off) ?c)) (replicate 4096 0) =
        ((?w1, (replicate 4096 0)[0 := 0]), Inr 1)"
      using board.load_chunk [OF less.prems(2) off fit four, where D = D] mmio_write_eq [OF off fit len] by auto
    have small: "length (command_encode (LoadM3Chunk (of_nat ?off) ?c)) \<le> max_control_payload"
      by (simp add: command_encode_length m3_bram_chunk_def max_control_payload_def)
    obtain fw1 where t1: "transact (board_net D) fw (LoadM3Chunk (of_nat ?off) ?c) =
        (fw1, Inr (take 1 ((replicate 4096 0)[0 := 0])))" "receiving [] fw1" "board_state fw1 = ?w1"
      using board_transact [OF less.prems(1) small cmd] by blast
    have ok1: "world_ok (board_state fw1)"
      using less.prems(2) fit len by (simp add: world_ok_def t1(3))
    have shorter: "length ?r < length xs" using False by (simp add: m3_bram_chunk_def)
    have ch: "chunks m3_bram_chunk xs = ?c # chunks m3_bram_chunk ?r"
      using False by (subst chunks.simps) (simp add: m3_bram_chunk_def)
    show ?thesis
    proof (cases "?r = []")
      case True
      then have "?c = xs" by simp
      with t1 ch True show ?thesis by (simp add: chunks.simps [of _ "[]"])
    next
      case more: False
      then have full: "length ?c = m3_bram_chunk" by simp
      have "(index + 1) * m3_bram_chunk + length ?r \<le> m3_bram_size"
        using less.prems(3) more by (simp add: algebra_simps)
      from less.hyps [OF shorter t1(2) ok1 this] obtain fw2 where
        t2: "load_chunks (board_net D) fw1 (index + 1) (chunks m3_bram_chunk ?r) = (fw2, Inr ())" "receiving [] fw2"
        "board_state fw2 = ?w1\<lparr>w_bram := copy_into (w_bram ?w1) ((index + 1) * m3_bram_chunk) ?r\<rparr>"
        unfolding t1(3) by blast
      have "(index + 1) * m3_bram_chunk = ?off + length ?c" using full by (simp add: algebra_simps)
      moreover have "?off + length (?c @ ?r) \<le> length (w_bram ?w)" using less.prems(3) len by simp
      ultimately have "copy_into (copy_into (w_bram ?w) ?off ?c) ((index + 1) * m3_bram_chunk) ?r
          = copy_into (w_bram ?w) ?off xs"
        using copy_into_append [of ?off ?c ?r "w_bram ?w"] by (simp only: append_take_drop_id)
      with t1 t2 ch show ?thesis by simp
    qed
  qed
qed



section \<open>From the command line to the registers\<close>

fun source_name :: "source \<Rightarrow> string" where
  "source_name CortexM3 = ''m3''"
| "source_name R5 = ''r5''"
| "source_name A53 = ''a53''"
| "source_name Test = ''test''"

fun format_name :: "trace_format \<Rightarrow> string" where
  "format_name Tpiu1 = ''tpiu1''"
| "format_name Tpiu2 = ''tpiu2''"
| "format_name Tpiu4 = ''tpiu4''"
| "format_name SwoNrz = ''swo-nrz''"
| "format_name SwoManchester = ''swo-manchester''"

lemma parse_names: "parse_source (source_name s) = Inr s" "parse_format (format_name f) = Inr f"
  by (cases s; simp add: parse_source_def) (cases f; simp add: parse_format_def)

lemma parse_number_dec: "n \<le> m \<Longrightarrow> parse_number m 10 (fmt_dec n) = Inr n"
  using numbers_survive_text [of m n] by (simp add: parse_number_def)

definition route :: "'io register_io \<Rightarrow> source \<Rightarrow> 'io \<Rightarrow> 'io" where
  "route R s io = (case s of
     R5 \<Rightarrow> rio_enable_trace R False (rio_select_coresight R False io)
   | A53 \<Rightarrow> rio_enable_trace R True (rio_select_coresight R True io)
   | _ \<Rightarrow> io)"

lemma command_configure:
  "command_op R io (command_encode (Configure s f baud)) (r # rs) =
     ((rio_write R reg_swo_baud baud (rio_write R reg_source_format
         (ucast (source_u8 s) OR push_bit 8 (ucast (trace_format_u8 f))) (route R s io)), 0 # rs), Inr 1)"
proof -
  obtain a b c d where w: "u32_le baud = [a, b, c, d]" by (rule u32_le_cases)
  have "from_le [a, b, c, d] = baud"
    using w from_le_to_le [where w = baud and n = 4] by simp
  then show ?thesis
    using w by (cases s) (simp_all add: command_op_def command_encode_def protocol_version_def Let_def
        slice_of_def ack_def route_def)
qed

text \<open>
  Configuration end to end. The words of a configure command line, for every source,
  format and baud rate, become a request that the controller turns into exactly this: for the two
  processor sources the trace unit is routed and then started, next the source and format register
  gets the source in its low byte and the format in the byte above, last the baud register gets the
  baud rate.
\<close>

theorem configure_end_to_end:
  "run_args [''configure'', host, source_name s, format_name f, fmt_dec (unat baud)] =
     Inr (ControlCommand host (Configure s f baud))
   \<and> command_op R io (command_encode (Configure s f baud)) (r # rs) =
     ((rio_write R reg_swo_baud baud (rio_write R reg_source_format
         (ucast (source_u8 s) OR push_bit 8 (ucast (trace_format_u8 f))) (route R s io)), 0 # rs), Inr 1)"
proof -
  have "unat baud \<le> 2 ^ 32 - 1" using unat_u32_less [of baud] by simp
  then have "parse_number (2 ^ 32 - 1) 10 (fmt_dec (unat baud)) = Inr (unat baud)"
    by (rule parse_number_dec)
  then have "run_args [''configure'', host, source_name s, format_name f, fmt_dec (unat baud)] =
     Inr (ControlCommand host (Configure s f baud))"
    by (simp add: run_args_def Let_def parse_names)
  then show ?thesis by (simp only: command_configure simp_thms)
qed

section \<open>The bridge on the synthetic debug port\<close>

definition synthetic_net :: "synthetic_dap server" where
  "synthetic_net d framed =
     (case length_unframe framed max_dap_packet of
        Inl _ \<Rightarrow> (d, [])
      | Inr (request, _) \<Rightarrow>
          (case dap_execute d request of
             (d', Inl _) \<Rightarrow> (d', [])
           | (d', Inr answer) \<Rightarrow> (d', case length_frame answer max_dap_packet of Inr f \<Rightarrow> f | Inl _ \<Rightarrow> [])))"

text \<open>
  The protocol of the bridge: a byte with the clock bit shifts one bit, of which the synthetic port
  returns the complement, \<open>R\<close> reads the last one, \<open>Q\<close> or the end of the input ends the session.
\<close>

fun bridge_spec :: "bool \<Rightarrow> bytes \<Rightarrow> bytes \<times> (io_error + unit)" where
  "bridge_spec tdo [] = ([], Inr ())"
| "bridge_spec tdo (b # input) =
     (if 52 \<le> b \<and> b \<le> 55 then bridge_spec (b AND 1 = 0) input
      else if 48 \<le> b \<and> b < 52 \<or> 114 \<le> b \<and> b \<le> 117 \<or> b = 66 \<or> b = 98 then bridge_spec tdo input
      else if b = 82 then apfst (Cons (if tdo then 49 else 48)) (bridge_spec tdo input)
      else if b = 81 then ([], Inr ())
      else ([], Inl (InvalidInput (''unknown remote-bitbang byte 0x'' @ fmt_hex 2 (unat b)))))"

lemma read_frame_frame:
  "length_frame answer m = Inr f \<Longrightarrow> m < 2 ^ 32 \<Longrightarrow> read_frame f m = Inr answer"
  using from_le_len_prefix [of "length answer"]
  by (auto simp: length_frame_def read_frame_def split: if_splits)

lemma synthetic_exchange:
  assumes "length request \<le> max_dap_packet" "dap_execute d request = (d', Inr answer)" "length answer \<le> max_dap_packet"
  shows "dap_transaction synthetic_net d request = (d', Inr answer)"
proof -
  have small: "max_dap_packet < 2 ^ 32" by (simp add: max_dap_packet_def)
  obtain f where f: "length_frame request max_dap_packet = Inr f" using length_frame_eq [OF assms(1)] by blast
  obtain g where g: "length_frame answer max_dap_packet = Inr g" using length_frame_eq [OF assms(3)] by blast
  have "synthetic_net d f = (d', g)"
    using unframe_frame [OF f small] assms(2) g by (simp add: synthetic_net_def)
  then show ?thesis
    using f read_frame_frame [OF g small] by (simp add: dap_transaction_def exchange_def)
qed

lemma dap_sequence:
  "dap_transaction synthetic_net d [0x14, 1, x, y] = (d, Inr [0x14, 0, y XOR 1])"
  "dap_transaction synthetic_net d [0x10, v, 0xa0, 0, 0, 0, 0] = (d, Inr [0x10, v])"
  by (rule synthetic_exchange; simp add: dap_execute_def get_or_0_def max_dap_packet_def Let_def)+

lemma pin_bits:
  assumes "48 \<le> b" "b \<le> (55 :: u8)"
  shows "(b - 48) AND 4 \<noteq> 0 \<longleftrightarrow> 52 \<le> b" "(((b - 48) AND 1) XOR 1) AND 1 \<noteq> 0 \<longleftrightarrow> b AND 1 = 0"
proof -
  have "48 \<le> unat b \<and> unat b \<le> 55" using assms by (simp add: word_le_nat_alt)
  then have "unat b \<in> {48, 49, 50, 51, 52, 53, 54, 55}" by (simp del: One_nat_def) presburger
  then have "of_nat (unat b) \<in> (of_nat ` {48, 49, 50, 51, 52, 53, 54, 55} :: u8 set)" by (rule imageI)
  then have "b \<in> {48, 49, 50, 51, 52, 53, 54, 55}" by (simp only: image_insert image_empty of_nat_unat ucast_id) simp
  then show "(b - 48) AND 4 \<noteq> 0 \<longleftrightarrow> 52 \<le> b" "(((b - 48) AND 1) XOR 1) AND 1 \<noteq> 0 \<longleftrightarrow> b AND 1 = 0"
    by auto
qed

text \<open>
  The bridge implements its protocol. Against the synthetic debug port, for every
  byte sequence a client sends, the bridge writes back exactly the bits of the protocol and ends as
  it says: one transaction for each rising clock edge and for each reset letter, none for the rest,
  an error naming the first unknown byte, and the state of the port is not disturbed.
\<close>

theorem remote_bitbang_protocol:
  "remote_bitbang synthetic_net d tdo input = (case bridge_spec tdo input of (out, r) \<Rightarrow> (d, out, r))"
proof (induction tdo input rule: bridge_spec.induct)
  case (2 tdo b input)
  have order: "52 \<le> b \<Longrightarrow> 48 \<le> b" by (simp add: word_le_nat_alt)
  show ?case
  proof (cases "48 \<le> b \<and> b \<le> 55")
    case True
    then have "b \<noteq> 82" "b \<noteq> 81" "b \<noteq> 66" "b \<noteq> 98" "\<not> 114 \<le> b" by (auto simp: word_le_nat_alt)
    moreover have "48 \<le> b \<and> b < 52 \<longleftrightarrow> \<not> 52 \<le> b" using True by auto
    ultimately show ?thesis
      using True 2 pin_bits [of b]
      by (cases "52 \<le> b") (simp_all add: Let_def dap_sequence get_or_0_def)
  next
    case False
    then have "\<not> (52 \<le> b \<and> b \<le> 55)" "\<not> (48 \<le> b \<and> b < 52)"
      using order by (auto simp: word_le_nat_alt word_less_nat_alt)
    with False 2 show ?thesis
      by (auto simp: Let_def dap_sequence split: prod.splits)
  qed
qed simp

end
