(* ===== verification/Pipeline.thy ===== *)
theory Pipeline
  imports HostClient
begin

text \<open>
  The whole trace path, from the events of the M3 workload to the Perfetto file: the bytes the
  instrumentation unit emits, carried in frames of one channel among frames of other channels and
  line noise, through \<open>decode_trace\<close> of \<open>applications/orbtrace/model/src/main.rs\<close>.
\<close>

lemma m3_writes_ok:
  "list_all swit_ok (map event_write (m3_events n w)) \<and> list_all is_swit (map event_write (m3_events n w))"
  by (induction n arbitrary: w) (simp_all add: case_prod_unfold event_write_ok)

lemma histogram_majority:
  assumes "\<And>d. d \<noteq> c \<Longrightarrow> count_frames capture d < count_frames capture c"
  shows "\<exists>rest. channel_histogram capture = (c, count_frames capture c) # rest"
proof -
  have "c + 1 \<noteq> c" by simp
  then have "0 < count_frames capture c" using assms [of "c + 1"] by linarith
  then have mem: "(c, count_frames capture c) \<in> set (channel_histogram capture)"
    using channel_histogram_exact [of capture] by simp
  then obtain d n rest where h: "channel_histogram capture = (d, n) # rest"
    by (cases "channel_histogram capture") auto
  then have n: "n = count_frames capture d"
    using channel_histogram_exact [of capture] by (auto simp: set_eq_iff)
  have "d = c"
  proof (rule ccontr)
    assume "d \<noteq> c"
    then have "(c, count_frames capture c) \<in> set rest" using mem h by auto
    then have "count_frames capture c \<le> n"
      using channel_histogram_exact [of capture] by (auto simp: h)
    then show False using assms [OF \<open>d \<noteq> c\<close>] n by simp
  qed
  with h n show ?thesis by simp
qed

text \<open>
  Property C20. From the target to the trace file. Let a capture hold frames of any channels, noise
  between them and a cut-off end, and let the payloads of channel \<open>c\<close>, wherever they are split,
  carry the software trace of the first \<open>n\<close> events of an M3 workload. Then decoding channel \<open>c\<close>
  writes the trace of exactly those events, and when \<open>c\<close> has more frames than any other channel,
  so does decoding without a channel.
\<close>

theorem decode_trace_end_to_end:
  assumes "\<And>s. Inl s \<in> set xs \<Longrightarrow> noise_only s" and "noise_only tail"
    and "concat (map snd (filter (\<lambda>f. fst f = c) (frames_of xs))) =
      concat (map itm_packet_bytes (map event_write (m3_events n w)))"
  shows "decode_trace (capture_of xs @ tail) (Some c) =
      Inr (perfetto_json (build_perfetto_trace (map event_write (m3_events n w))))
    \<and> ((\<forall>d. d \<noteq> c \<longrightarrow> length (filter (\<lambda>f. fst f = d) (frames_of xs)) < length (filter (\<lambda>f. fst f = c) (frames_of xs)))
      \<longrightarrow> decode_trace (capture_of xs @ tail) None =
        Inr (perfetto_json (build_perfetto_trace (map event_write (m3_events n w)))))"
proof -
  let ?capture = "capture_of xs @ tail"
  have frames: "valid_frames ?capture = frames_of xs" by (rule valid_frames_capture_of [OF assms(1,2)])
  have "decode_itm_stream (reconstruct_channel_stream ?capture c) = map event_write (m3_events n w)"
    using decode_swits [of "map event_write (m3_events n w)" "[]"] m3_writes_ok [of n w]
    by (simp add: reconstruct_valid_frames frames assms(3))
  then have some: "decode_trace ?capture (Some c) =
      Inr (perfetto_json (build_perfetto_trace (map event_write (m3_events n w))))"
    by (simp add: decode_trace_def)
  show ?thesis
  proof (intro conjI impI some)
    assume "\<forall>d. d \<noteq> c \<longrightarrow> length (filter (\<lambda>f. fst f = d) (frames_of xs)) < length (filter (\<lambda>f. fst f = c) (frames_of xs))"
    then obtain rest where "channel_histogram ?capture = (c, count_frames ?capture c) # rest"
      using histogram_majority [of c ?capture] by (auto simp: count_frames_def frames)
    then have "decode_trace ?capture None = decode_trace ?capture (Some c)"
      by (simp add: decode_trace_def)
    with some show "decode_trace ?capture None =
        Inr (perfetto_json (build_perfetto_trace (map event_write (m3_events n w))))" by simp
  qed
qed

text \<open>Two events, the second cut in the middle, with noise and another channel between.\<close>

theorem decode_trace_end_to_end_witness:
  "let written = map event_write (m3_events 2 (workload_new 7));
       stimulus = concat (map itm_packet_bytes written);
       xs = [Inr (5, take 6 stimulus), Inl [5, 5], Inr (9, [1, 2]), Inr (5, drop 6 stimulus)]
   in decode_trace (capture_of xs @ [4, 1]) None = Inr (perfetto_json (build_perfetto_trace written))"
proof -
  let ?stim = "concat (map itm_packet_bytes (map event_write (m3_events 2 (workload_new 7))))"
  let ?xs = "[Inr (5, take 6 ?stim), Inl [5, 5], Inr (9, [1, 2]), Inr (5, drop 6 ?stim)] :: (bytes + u8 \<times> bytes) list"
  have noise: "noise_only s" if "Inl s \<in> set ?xs" for s
    using that by (simp add: noise_only_def unframe_opt_def orbflow_unframe_def
        cobs_decode_unblocks Let_def)
  have tail: "noise_only [4, 1]"
    by (simp add: noise_only_def unframe_opt_def orbflow_unframe_def cobs_decode_unblocks Let_def)
  have frames: "frames_of ?xs = [(5, take 6 ?stim), (9, [1, 2]), (5, drop 6 ?stim)]"
    by (simp add: frames_of_def List.map_filter_def)
  have "concat (map snd (filter (\<lambda>f. fst f = 5) (frames_of ?xs))) = ?stim"
    unfolding frames by simp
  from decode_trace_end_to_end [OF noise tail this] show ?thesis
    unfolding frames by (simp add: Let_def)
qed

end
