(* ===== verification/CapturePath.thy ===== *)
theory CapturePath
  imports CoreRtl Pipeline
begin

text \<open>
  The trace path from the pins to the trace file: the formatter frames that carry the stimulus of the M3, through the
  capture module in the programmable logic, its frames through the host program's \<open>decode_trace\<close>.
\<close>

text \<open>The payloads of one channel are the bytes that have it as their source.\<close>

lemma channel_payloads:
  "concat (map snd (filter (\<lambda>f. fst f = c) frames)) =
     map mux_data (filter (\<lambda>b. mux_channel b = c) (concat (map (\<lambda>(c, p). map (MuxedByte c) p) frames)))"
proof (induction frames)
  case (Cons f frames)
  have "map mux_data (filter (\<lambda>b. mux_channel b = c) (map (MuxedByte d) p)) = (if d = c then p else [])" for d p
    by (induction p) auto
  with Cons show ?case by (cases f) simp
qed simp

lemma majority_single:
  assumes "\<forall>f \<in> set (valid_frames capture). fst f = c" "valid_frames capture \<noteq> []"
  shows "\<exists>rest. channel_histogram capture = (c, count_frames capture c) # rest"
proof (rule histogram_majority)
  fix d assume "d \<noteq> c"
  then have "filter (\<lambda>f. fst f = d) (valid_frames capture) = []" using assms(1) by (auto simp: filter_empty_conv)
  moreover have "filter (\<lambda>f. fst f = c) (valid_frames capture) = valid_frames capture" using assms(1) by (intro filter_True) blast
  ultimately show "count_frames capture d < count_frames capture c" using assms(2) by (simp add: count_frames_def)
qed

text \<open>
  Property C1. From the pins to the trace file. Let the capture module, with the source of the M3 selected, take
  anything up to the first synchronisation packet and then formatter frames that carry the software trace of the first
  \<open>n\<close> events of an M3 workload, possibly cut anywhere into frames, with source ids repeated in any slot that may hold
  one, and with every stall. Once it has come to rest, decoding what it sent, for channel 1 or, if there
  was an event, for the busiest channel, writes the Perfetto trace of exactly those events.
\<close>

theorem capture_to_trace:
  assumes "0 < m" and "0 < ic" and "core_quiet q"
    and "\<forall>i \<in> set (q # is). ci_reset_n i \<and> \<not> ci_reset_sync i \<and> \<not> bypass_tpiu i"
    and "core_run m ic (core_reset s0) is = (pre @ true_sync @ concat (map pack_frame fs), chan, handed, outs, s)"
    and "\<not> sublist true_sync (pre @ [0xff, 0xff, 0xff])" and "list_all valid_slots fs" and "list_all m3_frame fs"
    and "snd (demux_frames (0, None) fs) =
      map (MuxedByte 1) (concat (map itm_packet_bytes (map event_write (m3_events n w))))"
  shows "\<exists>k. let capture = fst (snd (snd (snd (core_run m ic (core_reset s0) (is @ replicate k q)))));
      trace = perfetto_json (build_perfetto_trace (map event_write (m3_events n w)))
    in decode_trace capture (Some 1) = Inr trace \<and> (n \<noteq> 0 \<longrightarrow> decode_trace capture None = Inr trace)"
proof -
  let ?bytes = "concat (map itm_packet_bytes (map event_write (m3_events n w)))"
  let ?trace = "perfetto_json (build_perfetto_trace (map event_write (m3_events n w)))"
  have edges: "\<forall>i \<in> set (q # is). ci_reset_n i \<and> \<not> ci_reset_sync i \<and> \<not> bypass_tpiu i \<and> (ci_source_select i = 0 \<longrightarrow> True)"
    using assms(4) by simp
  obtain k where k: "concat (map (\<lambda>(c, p). map (MuxedByte c) p)
        (valid_frames (fst (snd (snd (snd (core_run m ic (core_reset s0) (is @ replicate k q)))))))) = map (MuxedByte 1) ?bytes"
    "\<forall>f \<in> set (valid_frames (fst (snd (snd (snd (core_run m ic (core_reset s0) (is @ replicate k q))))))). 0 < length (snd f)"
    using core_delivered [OF assms(1-3) edges assms(5-7)] assms(8) unfolding assms(9) by blast
  define capture where "capture = fst (snd (snd (snd (core_run m ic (core_reset s0) (is @ replicate k q)))))"
  note k = k [folded capture_def]
  have "reconstruct_channel_stream capture 1 = ?bytes"
    by (simp add: reconstruct_valid_frames channel_payloads k(1) filter_map comp_def)
  moreover have events: "decode_itm_stream ?bytes = map event_write (m3_events n w)"
    using decode_swits [of "map event_write (m3_events n w)" "[]"] m3_writes_ok [of n w] by simp
  ultimately have one: "decode_trace capture (Some 1) = Inr ?trace" by (simp add: decode_trace_def)
  have only: "\<forall>f \<in> set (valid_frames capture). fst f = 1"
  proof
    fix f assume f: "f \<in> set (valid_frames capture)"
    then obtain b where "b \<in> set (snd f)" using k(2) by (cases "snd f") force+
    then have "MuxedByte (fst f) b \<in> set (concat (map (\<lambda>(c, p). map (MuxedByte c) p) (valid_frames capture)))"
      using f by force
    then show "fst f = 1" unfolding k(1) by auto
  qed
  have "decode_trace capture None = Inr ?trace" if "n \<noteq> 0"
  proof -
    have "valid_frames capture \<noteq> []"
    proof
      assume "valid_frames capture = []"
      then have "?bytes = []" using k(1) by simp
      then have "map event_write (m3_events n w) = decode_itm_stream []" using events by metis
      moreover have "decode_itm_stream [] = []" by code_simp
      ultimately show False using \<open>n \<noteq> 0\<close> by (cases n) (simp_all add: case_prod_unfold)
    qed
    then show ?thesis using one majority_single [OF only] by (auto simp: decode_trace_def)
  qed
  with one show ?thesis unfolding capture_def Let_def by blast
qed

text \<open>Two events in one frame, with the source id before each of its bytes and after the last.\<close>

definition two_events :: bytes where
  "two_events = concat (map itm_packet_bytes (map event_write (m3_events 2 (workload_new 7))))"

definition two_event_frame :: "slot list" where
  "two_event_frame = concat (map (\<lambda>b. [IdSlot 1 False, DataSlot b]) two_events) @ [IdSlot 1 False]"

definition m3_edge :: "u8 \<Rightarrow> bool \<Rightarrow> core_in" where
  "m3_edge b valid = \<lparr>ci_reset_n = True, ci_source_select = 0, ci_trace_format = 0, ci_reset_sync = False,
     ci_m3_data = b, ci_m3_valid = valid, ci_coresight_data = 0, ci_coresight_valid = False,
     ci_test_data = 0, ci_test_valid = False, ci_tready = True\<rparr>"

definition m3_edges :: "core_in list" where
  "m3_edges = map (\<lambda>b. m3_edge b True) (true_sync @ pack_frame two_event_frame)"

lemma two_event_facts:
  "fst (core_run 4 2 (core_reset blank_core) m3_edges) = true_sync @ pack_frame two_event_frame"
  "list_all valid_slots [two_event_frame]" "list_all m3_frame [two_event_frame]"
  "snd (demux_frames (0, None) [two_event_frame]) = map (MuxedByte 1) two_events"
  by code_simp+

theorem capture_to_trace_witness:
  "\<exists>k. decode_trace (fst (snd (snd (snd (core_run 4 2 (core_reset blank_core) (m3_edges @ replicate k (m3_edge 0 False))))))) None
     = Inr (perfetto_json (build_perfetto_trace (map event_write (m3_events 2 (workload_new 7)))))"
proof -
  obtain ins chan handed outs s where run: "core_run 4 2 (core_reset blank_core) m3_edges = (ins, chan, handed, outs, s)"
    by (metis prod_cases5)
  have ins: "ins = [] @ true_sync @ concat (map pack_frame [two_event_frame])" using two_event_facts(1) run by simp
  have edges: "\<forall>i \<in> set (m3_edge 0 False # m3_edges). ci_reset_n i \<and> \<not> ci_reset_sync i \<and> \<not> bypass_tpiu i"
    by (auto simp: m3_edges_def m3_edge_def bypass_tpiu_def)
  have quiet: "core_quiet (m3_edge 0 False)" by (simp add: core_quiet_def m3_edge_def mux_output_def)
  have "\<not> sublist true_sync ([] @ [0xff, 0xff, 0xff])" by code_simp
  from capture_to_trace [OF _ _ quiet edges run [unfolded ins] this two_event_facts(2-4) [unfolded two_events_def]]
  show ?thesis by (auto simp: Let_def)
qed

end
