(* ===== verification/DmaRing.thy ===== *)
theory DmaRing
  imports Prelude
begin

text \<open>
  The AXI DMA descriptor ring of \<open>applications/orbtrace/firmware/common/src/lib.rs\<close>
  (\<open>AxiDmaRing::new\<close>, \<open>enqueue\<close>, \<open>poll_completed\<close>). The hardware writes the status
  word of any descriptor at any time; with those writes as steps of their own, the ring is shown
  to be a bounded first-in first-out queue of buffers.

  A \<open>u64\<close> sum is the wrapping one: descriptor addresses are near the top of the address
  space in no configuration of the board.
\<close>

section \<open>Descriptors\<close>

definition axi_dma_length_mask :: u32 where "axi_dma_length_mask = 0x03ffffff"
definition axi_dma_status_complete :: u32 where "axi_dma_status_complete = push_bit 31 1"
definition axi_dma_status_error_mask :: u32 where "axi_dma_status_error_mask = 0x70000000"

record axi_dma_descriptor =
  next_descriptor_lo :: u32
  next_descriptor_hi :: u32
  buffer_address_lo :: u32
  buffer_address_hi :: u32
  reserved :: "u32 list"
  control :: u32
  status :: u32
  application :: "u32 list"
  padding :: "u32 list"

definition descriptor_default :: axi_dma_descriptor where
  "descriptor_default = \<lparr>next_descriptor_lo = 0, next_descriptor_hi = 0, buffer_address_lo = 0,
     buffer_address_hi = 0, reserved = replicate 2 0, control = 0, status = 0,
     application = replicate 5 0, padding = replicate 3 0\<rparr>"

datatype dma_ring_error =
  InvalidCount | UnalignedDescriptorBase | InvalidCapacity | Full | Hardware u32

record completed_buffer =
  cb_address :: u64
  cb_capacity :: u32
  cb_transferred :: u32
  cb_descriptor :: u64

record axi_dma_ring =
  descriptors :: "axi_dma_descriptor list"
  descriptor_base :: u64
  producer :: nat
  consumer :: nat

section \<open>Operations\<close>

definition is_power_of_two :: "nat \<Rightarrow> bool" where
  "is_power_of_two n = list_ex (\<lambda>k. n = 2 ^ k) [0..<64]"

definition ring_new :: "axi_dma_descriptor list \<Rightarrow> u64 \<Rightarrow> dma_ring_error + axi_dma_ring" where
  "ring_new descs base =
     (if length descs < 2 \<or> \<not> is_power_of_two (length descs) then Inl InvalidCount
      else if base AND 63 \<noteq> 0 then Inl UnalignedDescriptorBase
      else let count = length descs;
               link = (\<lambda>index.
                 let nxt = base + of_nat (((index + 1) AND (count - 1)) * 64)
                 in descriptor_default\<lparr>next_descriptor_lo := ucast nxt,
                      next_descriptor_hi := ucast (drop_bit 32 nxt)\<rparr>)
      in Inr \<lparr>descriptors = map link [0..<count], descriptor_base = base, producer = 0, consumer = 0\<rparr>)"

definition current_descriptor_address :: "axi_dma_ring \<Rightarrow> u64" where
  "current_descriptor_address r = descriptor_base r + of_nat (consumer r * 64)"

definition ring_enqueue :: "axi_dma_ring \<Rightarrow> u64 \<Rightarrow> u32 \<Rightarrow> axi_dma_ring \<times> (dma_ring_error + u64)" where
  "ring_enqueue r address capacity =
     (if capacity = 0 \<or> capacity > axi_dma_length_mask then (r, Inl InvalidCapacity)
      else let nxt = (producer r + 1) AND (length (descriptors r) - 1)
      in if nxt = consumer r then (r, Inl Full)
      else let index = producer r;
               descriptor = (descriptors r ! index)\<lparr>buffer_address_lo := ucast address,
                 buffer_address_hi := ucast (drop_bit 32 address), control := capacity, status := 0\<rparr>
      in (r\<lparr>descriptors := (descriptors r)[index := descriptor], producer := nxt\<rparr>,
          Inr (descriptor_base r + of_nat (index * 64))))"

definition ring_poll_completed ::
    "axi_dma_ring \<Rightarrow> axi_dma_ring \<times> (dma_ring_error + completed_buffer option)" where
  "ring_poll_completed r =
     (if consumer r = producer r then (r, Inr None)
      else let index = consumer r; descriptor = descriptors r ! index
      in if status descriptor AND axi_dma_status_complete = 0 then (r, Inr None)
      else if status descriptor AND axi_dma_status_error_mask \<noteq> 0 then
        (r, Inl (Hardware (status descriptor)))
      else let completed = \<lparr>
             cb_address = ucast (buffer_address_lo descriptor)
               OR push_bit 32 (ucast (buffer_address_hi descriptor)),
             cb_capacity = control descriptor AND axi_dma_length_mask,
             cb_transferred = status descriptor AND axi_dma_length_mask,
             cb_descriptor = descriptor_base r + of_nat (index * 64)\<rparr>
      in (r\<lparr>descriptors := (descriptors r)[index := descriptor\<lparr>control := 0, status := 0\<rparr>],
            consumer := (consumer r + 1) AND (length (descriptors r) - 1)\<rparr>,
          Inr (Some completed)))"

text \<open>The hardware: it writes a status word and nothing else.\<close>

definition hw_set_status :: "nat \<Rightarrow> u32 \<Rightarrow> axi_dma_ring \<Rightarrow> axi_dma_ring" where
  "hw_set_status index s r = r\<lparr>descriptors :=
     (descriptors r)[index := (descriptors r ! index)\<lparr>status := s\<rparr>]\<rparr>"

section \<open>The queue in the ring\<close>

definition link_ok :: "axi_dma_ring \<Rightarrow> nat \<Rightarrow> bool" where
  "link_ok r i \<longleftrightarrow>
     (let nxt = descriptor_base r + of_nat ((i + 1) mod length (descriptors r) * 64)
      in next_descriptor_lo (descriptors r ! i) = ucast nxt
       \<and> next_descriptor_hi (descriptors r ! i) = ucast (drop_bit 32 nxt))"

definition ring_used :: "axi_dma_ring \<Rightarrow> nat" where
  "ring_used r = (if consumer r \<le> producer r then producer r - consumer r
     else producer r + length (descriptors r) - consumer r)"

definition ring_slot :: "axi_dma_ring \<Rightarrow> nat \<Rightarrow> nat" where
  "ring_slot r k = (consumer r + k) mod length (descriptors r)"

definition buffer_of :: "axi_dma_descriptor \<Rightarrow> u64 \<times> u32" where
  "buffer_of d = (ucast (buffer_address_lo d) OR push_bit 32 (ucast (buffer_address_hi d)), control d)"

definition ring_pending :: "axi_dma_ring \<Rightarrow> (u64 \<times> u32) list" where
  "ring_pending r = map (\<lambda>k. buffer_of (descriptors r ! ring_slot r k)) [0..<ring_used r]"

definition ring_wf :: "axi_dma_ring \<Rightarrow> bool" where
  "ring_wf r \<longleftrightarrow> 2 \<le> length (descriptors r) \<and> is_power_of_two (length (descriptors r))
     \<and> producer r < length (descriptors r) \<and> consumer r < length (descriptors r)
     \<and> (\<forall>i < length (descriptors r). link_ok r i)
     \<and> (\<forall>b \<in> set (ring_pending r). snd b \<le> axi_dma_length_mask)"

lemma and_mask_mod: "is_power_of_two n \<Longrightarrow> x AND (n - 1) = x mod (n :: nat)"
proof -
  assume "is_power_of_two n"
  then obtain k where n: "n = 2 ^ k" by (auto simp: is_power_of_two_def list_ex_iff)
  have "x AND mask k = x mod 2 ^ k"
    using take_bit_eq_mask [of k x] take_bit_eq_mod [of k x] by simp
  then show ?thesis by (simp add: n mask_eq_exp_minus_1)
qed

lemma and_mask_mod': "is_power_of_two n \<Longrightarrow> x AND (n - Suc 0) = x mod n"
  using and_mask_mod [of n x] by simp

lemma address_halves:
  "ucast (ucast a :: u32) OR push_bit 32 (ucast (ucast (drop_bit 32 a) :: u32)) = (a :: u64)"
  by (rule bit_word_eqI)
    (auto simp: bit_or_iff bit_push_bit_iff bit_ucast_iff bit_drop_bit_eq not_less)

lemma ring_used_less: "ring_wf r \<Longrightarrow> ring_used r < length (descriptors r)"
  by (auto simp: ring_wf_def ring_used_def)

lemma ring_slot_used: "ring_wf r \<Longrightarrow> ring_slot r (ring_used r) = producer r"
  by (auto simp: ring_wf_def ring_used_def ring_slot_def)

lemma ring_slot_eq:
  "ring_wf r \<Longrightarrow> k < length (descriptors r) \<Longrightarrow> ring_slot r k =
     (if consumer r + k < length (descriptors r) then consumer r + k
      else consumer r + k - length (descriptors r))"
  by (auto simp: ring_wf_def ring_slot_def mod_if)

lemma ring_slot_neq:
  "ring_wf r \<Longrightarrow> k < ring_used r \<Longrightarrow> ring_slot r k \<noteq> producer r"
  using ring_used_less [of r] ring_slot_eq [of r k]
  by (auto simp: ring_used_def ring_wf_def split: if_splits)

lemma next_consumer_iff:
  "ring_wf r \<Longrightarrow> (producer r + 1) mod length (descriptors r) = consumer r \<longleftrightarrow>
     ring_used r + 1 = length (descriptors r)"
  by (auto simp: ring_wf_def ring_used_def mod_Suc)

lemma and_mask_small: "c \<le> axi_dma_length_mask \<Longrightarrow> c AND axi_dma_length_mask = c"
proof -
  have m: "axi_dma_length_mask = mask 26"
    by (simp add: axi_dma_length_mask_def mask_eq_exp_minus_1)
  assume "c \<le> axi_dma_length_mask"
  then have "unat c < 2 ^ 26"
    by (simp add: axi_dma_length_mask_def word_le_nat_alt)
  then have "take_bit 26 c = c"
    by (simp add: word_unat_eq_iff unsigned_take_bit_eq take_bit_nat_eq_self)
  then show ?thesis by (simp add: m take_bit_eq_mask)
qed

lemma ring_used_next:
  assumes "ring_wf r" "nxt = (producer r + 1) mod length (descriptors r)" "nxt \<noteq> consumer r"
    "length ds = length (descriptors r)"
  shows "ring_used (r\<lparr>descriptors := ds, producer := nxt\<rparr>) = ring_used r + 1"
  using assms by (auto simp: ring_wf_def ring_used_def mod_Suc)

lemma link_ok_update:
  "length ds = length (descriptors r) \<Longrightarrow> descriptor_base r' = descriptor_base r \<Longrightarrow>
   descriptors r' = ds \<Longrightarrow>
   next_descriptor_lo (ds ! i) = next_descriptor_lo (descriptors r ! i) \<Longrightarrow>
   next_descriptor_hi (ds ! i) = next_descriptor_hi (descriptors r ! i) \<Longrightarrow>
   link_ok r' i = link_ok r i"
  by (simp add: link_ok_def Let_def)

lemma nth_update_field: "f y = f (xs ! j) \<Longrightarrow> f (xs[j := y] ! i) = f (xs ! i)"
  by (cases "i = j \<and> j < length xs") (auto simp: nth_list_update list_update_beyond not_less)

lemma ring_enqueue_ok:
  assumes wf: "ring_wf r" and cap: "capacity \<noteq> 0" "capacity \<le> axi_dma_length_mask"
    and room: "ring_used r + 1 \<noteq> length (descriptors r)"
  shows "\<exists>r'. ring_enqueue r address capacity = (r', Inr (descriptor_base r + of_nat (producer r * 64)))
    \<and> ring_wf r' \<and> ring_pending r' = ring_pending r @ [(address, capacity)]
    \<and> length (descriptors r') = length (descriptors r)"
proof -
  let ?n = "length (descriptors r)" and ?nxt = "(producer r + 1) mod length (descriptors r)"
  let ?d = "(descriptors r ! producer r)\<lparr>buffer_address_lo := ucast address,
     buffer_address_hi := ucast (drop_bit 32 address), control := capacity, status := 0\<rparr>"
  let ?r = "r\<lparr>descriptors := (descriptors r)[producer r := ?d], producer := ?nxt\<rparr>"
  have n: "2 \<le> ?n" "is_power_of_two ?n" "producer r < ?n" using wf by (simp_all add: ring_wf_def)
  have free: "?nxt \<noteq> consumer r" using next_consumer_iff [OF wf] room by simp
  have eq: "ring_enqueue r address capacity = (?r, Inr (descriptor_base r + of_nat (producer r * 64)))"
    using cap free and_mask_mod [OF n(2)] by (simp add: ring_enqueue_def Let_def)
  have used: "ring_used ?r = ring_used r + 1"
    by (rule ring_used_next [OF wf refl free]) simp
  have slot: "ring_slot ?r k = ring_slot r k" for k by (simp add: ring_slot_def)
  have old: "descriptors ?r ! ring_slot r k = descriptors r ! ring_slot r k" if "k < ring_used r" for k
    using ring_slot_neq [OF wf that] by simp
  have new: "buffer_of (descriptors ?r ! ring_slot r (ring_used r)) = (address, capacity)"
    unfolding ring_slot_used [OF wf] using n by (simp add: buffer_of_def address_halves)
  have up: "[0..<ring_used r + 1] = [0..<ring_used r] @ [ring_used r]" by simp
  have "ring_pending ?r = map (\<lambda>k. buffer_of (descriptors ?r ! ring_slot r k)) [0..<ring_used r + 1]"
    unfolding ring_pending_def used slot ..
  also have "\<dots> = map (\<lambda>k. buffer_of (descriptors ?r ! ring_slot r k)) [0..<ring_used r] @ [(address, capacity)]"
    unfolding up map_append list.map new ..
  also have "map (\<lambda>k. buffer_of (descriptors ?r ! ring_slot r k)) [0..<ring_used r] = ring_pending r"
    unfolding ring_pending_def by (intro map_cong refl arg_cong [where f = buffer_of]) (simp only: old atLeastLessThan_iff set_upt)
  finally have pend: "ring_pending ?r = ring_pending r @ [(address, capacity)]" .
  have "link_ok ?r i = link_ok r i" for i
    by (rule link_ok_update [where ds = "descriptors ?r"])
      (simp_all add: nth_update_field)
  moreover have "?nxt < ?n" using n(1) by (intro mod_less_divisor) linarith
  ultimately have "ring_wf ?r"
    using wf n cap unfolding ring_wf_def pend by auto
  with eq pend show ?thesis by auto
qed

lemma ring_poll_ok:
  assumes wf: "ring_wf r" and pend: "ring_pending r = b # rest"
    and st: "status (descriptors r ! consumer r) AND axi_dma_status_complete \<noteq> 0"
      "status (descriptors r ! consumer r) AND axi_dma_status_error_mask = 0"
  shows "\<exists>r'. ring_poll_completed r = (r', Inr (Some \<lparr>cb_address = fst b, cb_capacity = snd b,
      cb_transferred = status (descriptors r ! consumer r) AND axi_dma_length_mask,
      cb_descriptor = current_descriptor_address r\<rparr>))
    \<and> ring_wf r' \<and> ring_pending r' = rest"
proof -
  let ?n = "length (descriptors r)" and ?c = "consumer r" and ?nxt = "(consumer r + 1) mod length (descriptors r)"
  let ?d = "descriptors r ! ?c"
  let ?r = "r\<lparr>descriptors := (descriptors r)[?c := ?d\<lparr>control := 0, status := 0\<rparr>], consumer := ?nxt\<rparr>"
  have n: "2 \<le> ?n" "is_power_of_two ?n" "?c < ?n" "producer r < ?n" using wf by (simp_all add: ring_wf_def)
  have nx: "Suc ?c mod ?n < ?n" using n(1) by (intro mod_less_divisor) linarith
  have some: "0 < ring_used r" using arg_cong [OF pend, of length] by (simp add: ring_pending_def)
  then have ne: "?c \<noteq> producer r" by (auto simp: ring_used_def)
  have slot0: "ring_slot r 0 = ?c" using n by (simp add: ring_slot_def)
  have "map (\<lambda>k. buffer_of (descriptors r ! ring_slot r k)) (0 # [1..<ring_used r]) = b # rest"
    using pend some by (simp add: ring_pending_def upt_conv_Cons)
  then have b: "b = buffer_of ?d"
    and rest: "rest = map (\<lambda>k. buffer_of (descriptors r ! ring_slot r k)) [1..<ring_used r]"
    by (simp_all add: slot0)
  have "snd b \<le> axi_dma_length_mask" using wf pend by (auto simp: ring_wf_def)
  then have cap: "control ?d AND axi_dma_length_mask = control ?d"
    using and_mask_small [of "control ?d"] by (simp add: b buffer_of_def)
  have eq: "ring_poll_completed r = (?r, Inr (Some \<lparr>cb_address = fst b, cb_capacity = snd b,
      cb_transferred = status ?d AND axi_dma_length_mask, cb_descriptor = current_descriptor_address r\<rparr>))"
    using ne st and_mask_mod [OF n(2)] cap
    by (simp add: ring_poll_completed_def Let_def b buffer_of_def current_descriptor_address_def)
  have used: "ring_used ?r = ring_used r - 1"
    using n ne by (auto simp: ring_used_def mod_Suc)
  have slot: "ring_slot ?r k = ring_slot r (k + 1)" for k
    by (simp add: ring_slot_def mod_simps)
  have other: "ring_slot r k \<noteq> ?c" if "0 < k" "k < ring_used r" for k
    using that ring_slot_eq [OF wf, of k] ring_used_less [OF wf] n by auto
  have new: "buffer_of (descriptors ?r ! ring_slot r (k + 1)) = buffer_of (descriptors r ! ring_slot r (k + 1))"
    if "k < ring_used r - 1" for k
  proof -
    have "k + 1 < ring_used r" using that by linarith
    then show ?thesis using other [of "k + 1"] by simp
  qed
  have "[1..<ring_used r] = map Suc [0..<ring_used r - 1]"
    unfolding map_Suc_upt using some by simp
  then have "rest = map (\<lambda>k. buffer_of (descriptors r ! ring_slot r (k + 1))) [0..<ring_used r - 1]"
    unfolding rest by simp
  also have "\<dots> = ring_pending ?r"
    unfolding ring_pending_def used slot
    by (intro map_cong refl) (simp only: new atLeastLessThan_iff set_upt)
  finally have pend': "ring_pending ?r = rest" ..
  have "link_ok ?r i = link_ok r i" for i
    by (rule link_ok_update [where ds = "descriptors ?r"])
      (simp_all add: nth_update_field)
  then have "ring_wf ?r"
    using wf n pend nx unfolding ring_wf_def pend' by auto
  with eq pend' show ?thesis by auto
qed

lemma hw_set_status_ok:
  assumes "ring_wf r"
  shows "ring_wf (hw_set_status i s r)" "ring_pending (hw_set_status i s r) = ring_pending r"
proof -
  let ?r = "hw_set_status i s r"
  have same: "buffer_of (descriptors ?r ! j) = buffer_of (descriptors r ! j)"
      "next_descriptor_lo (descriptors ?r ! j) = next_descriptor_lo (descriptors r ! j)"
      "next_descriptor_hi (descriptors ?r ! j) = next_descriptor_hi (descriptors r ! j)" for j
    by (cases "j = i \<and> i < length (descriptors r)";
        auto simp: hw_set_status_def buffer_of_def list_update_beyond not_less)+
  have frame: "descriptor_base ?r = descriptor_base r" "producer ?r = producer r"
      "consumer ?r = consumer r" "length (descriptors ?r) = length (descriptors r)"
    by (simp_all add: hw_set_status_def)
  have slots: "ring_used ?r = ring_used r" "ring_slot ?r k = ring_slot r k" for k
    by (simp_all add: ring_used_def ring_slot_def frame)
  show pend: "ring_pending ?r = ring_pending r"
    unfolding ring_pending_def slots same ..
  have "link_ok ?r i = link_ok r i" for i
    unfolding link_ok_def frame same ..
  then show "ring_wf ?r"
    using assms unfolding ring_wf_def pend frame by simp
qed

section \<open>The contract: a queue with a foreign writer\<close>

text \<open>
  A provider of \<open>put\<close>, \<open>take_next\<close> and a foreign step that may happen at any time; \<open>pending\<close>
  is the queue it stands for.
\<close>

datatype ('i, 'f) queue_event = Put 'i | Foreign 'f | TakeNext

fun queue_run :: "('i \<Rightarrow> 's \<Rightarrow> 's option) \<Rightarrow> ('f \<Rightarrow> 's \<Rightarrow> 's) \<Rightarrow> ('s \<Rightarrow> ('o \<times> 's) option) \<Rightarrow>
    ('i, 'f) queue_event list \<Rightarrow> 's \<Rightarrow> 's \<times> 'i list \<times> 'o list" where
  "queue_run put foreign take_next [] s = (s, [], [])"
| "queue_run put foreign take_next (Put x # es) s = (case put x s of
     None \<Rightarrow> queue_run put foreign take_next es s
   | Some s' \<Rightarrow> (case queue_run put foreign take_next es s' of (s2, ins, outs) \<Rightarrow> (s2, x # ins, outs)))"
| "queue_run put foreign take_next (Foreign f # es) s = queue_run put foreign take_next es (foreign f s)"
| "queue_run put foreign take_next (TakeNext # es) s = (case take_next s of
     None \<Rightarrow> queue_run put foreign take_next es s
   | Some (y, s') \<Rightarrow> (case queue_run put foreign take_next es s' of (s2, ins, outs) \<Rightarrow> (s2, ins, y # outs)))"

locale shared_queue =
  fixes wf :: "'s \<Rightarrow> bool"
    and pending :: "'s \<Rightarrow> 'i list"
    and put :: "'i \<Rightarrow> 's \<Rightarrow> 's option"
    and foreign :: "'f \<Rightarrow> 's \<Rightarrow> 's"
    and take_next :: "'s \<Rightarrow> ('o \<times> 's) option"
    and item :: "'o \<Rightarrow> 'i"
  assumes put_law: "wf s \<Longrightarrow> put x s = Some s' \<Longrightarrow> wf s' \<and> pending s' = pending s @ [x]"
    and foreign_law: "wf s \<Longrightarrow> wf (foreign f s) \<and> pending (foreign f s) = pending s"
    and take_law: "wf s \<Longrightarrow> take_next s = Some (y, s') \<Longrightarrow> wf s' \<and> pending s = item y # pending s'"
begin

abbreviation run :: "('i, 'f) queue_event list \<Rightarrow> 's \<Rightarrow> 's \<times> 'i list \<times> 'o list" where
  "run \<equiv> queue_run put foreign take_next"

lemma run_fifo:
  "wf s \<Longrightarrow> run es s = (s', ins, outs) \<Longrightarrow> wf s' \<and> pending s @ ins = map item outs @ pending s'"
proof (induction es arbitrary: s s' ins outs)
  case (Cons e es)
  show ?case
  proof (cases e)
    case (Put x)
    show ?thesis
    proof (cases "put x s")
      case None
      with Cons Put show ?thesis by simp
    next
      case (Some s1)
      note law = put_law [OF Cons.prems(1) Some]
      obtain s2 i2 o2 where rest: "run es s1 = (s2, i2, o2)" by (cases "run es s1")
      from Cons.IH [OF conjunct1 [OF law] rest] law Cons.prems(2) Put Some rest show ?thesis by auto
    qed
  next
    case (Foreign f)
    with Cons.IH [of "foreign f s"] Cons.prems foreign_law [of s f] show ?thesis by auto
  next
    case TakeNext
    show ?thesis
    proof (cases "take_next s")
      case None
      with Cons TakeNext show ?thesis by simp
    next
      case (Some p)
      obtain y s1 where p: "p = (y, s1)" by (cases p)
      with Some have eq: "take_next s = Some (y, s1)" by simp
      note law = take_law [OF Cons.prems(1) eq]
      obtain s2 i2 o2 where rest: "run es s1 = (s2, i2, o2)" by (cases "run es s1")
      from Cons.IH [OF conjunct1 [OF law] rest] law Cons.prems(2) TakeNext eq rest show ?thesis by auto
    qed
  qed
qed simp

end

definition ring_put :: "u64 \<times> u32 \<Rightarrow> axi_dma_ring \<Rightarrow> axi_dma_ring option" where
  "ring_put b r = (case ring_enqueue r (fst b) (snd b) of (r', Inr _) \<Rightarrow> Some r' | (_, Inl _) \<Rightarrow> None)"

definition ring_take :: "axi_dma_ring \<Rightarrow> (completed_buffer \<times> axi_dma_ring) option" where
  "ring_take r = (case ring_poll_completed r of (r', Inr (Some c)) \<Rightarrow> Some (c, r') | _ \<Rightarrow> None)"

definition ring_hw :: "nat \<times> u32 \<Rightarrow> axi_dma_ring \<Rightarrow> axi_dma_ring" where
  "ring_hw w r = hw_set_status (fst w) (snd w) r"

definition completed_item :: "completed_buffer \<Rightarrow> u64 \<times> u32" where
  "completed_item c = (cb_address c, cb_capacity c)"

lemma ring_put_law:
  assumes "ring_wf r" "ring_put b r = Some r'"
  shows "ring_wf r' \<and> ring_pending r' = ring_pending r @ [b]"
proof -
  have n: "is_power_of_two (length (descriptors r))" using assms(1) by (simp add: ring_wf_def)
  obtain v where enq: "ring_enqueue r (fst b) (snd b) = (r', Inr v)"
    using assms(2) by (auto simp: ring_put_def split: prod.splits sum.splits)
  then have "snd b \<noteq> 0" "snd b \<le> axi_dma_length_mask" "(producer r + 1) AND (length (descriptors r) - 1) \<noteq> consumer r"
    by (auto simp: ring_enqueue_def Let_def not_less split: if_splits)
  moreover from this(3) have "ring_used r + 1 \<noteq> length (descriptors r)"
    using next_consumer_iff [OF assms(1)] by (simp add: and_mask_mod' [OF n])
  ultimately show ?thesis
    using ring_enqueue_ok [OF assms(1), of "snd b" "fst b"] enq by auto
qed

lemma ring_take_law:
  assumes "ring_wf r" "ring_take r = Some (c, r')"
  shows "ring_wf r' \<and> ring_pending r = completed_item c # ring_pending r'"
proof -
  have poll: "ring_poll_completed r = (r', Inr (Some c))"
    using assms(2) by (auto simp: ring_take_def split: prod.splits sum.splits option.splits)
  then have ne: "consumer r \<noteq> producer r"
    and st: "status (descriptors r ! consumer r) AND axi_dma_status_complete \<noteq> 0"
      "status (descriptors r ! consumer r) AND axi_dma_status_error_mask = 0"
    by (auto simp: ring_poll_completed_def Let_def split: if_splits)
  have "ring_used r \<noteq> 0"
    using ne assms(1) by (auto simp: ring_used_def ring_wf_def)
  then obtain b rest where pend: "ring_pending r = b # rest"
    by (cases "ring_pending r") (auto simp: ring_pending_def)
  from ring_poll_ok [OF assms(1) pend st] poll pend show ?thesis
    by (auto simp: completed_item_def)
qed

interpretation dma: shared_queue ring_wf ring_pending ring_put ring_hw ring_take completed_item
  by unfold_locales
    (auto simp: ring_put_law ring_hw_def hw_set_status_ok dest: ring_put_law ring_take_law)

definition dma_run :: "(u64 \<times> u32, nat \<times> u32) queue_event list \<Rightarrow> axi_dma_ring \<Rightarrow>
    axi_dma_ring \<times> (u64 \<times> u32) list \<times> completed_buffer list" where
  "dma_run = queue_run ring_put ring_hw ring_take"

lemma ring_new_wf:
  assumes "ring_new descs base = Inr r"
  shows "ring_wf r" "ring_pending r = []" "length (descriptors r) = length descs" "descriptor_base r = base"
proof -
  have n: "2 \<le> length descs" "is_power_of_two (length descs)"
    using assms by (auto simp: ring_new_def Let_def split: if_splits)
  have r: "r = \<lparr>descriptors = map (\<lambda>index. descriptor_default
      \<lparr>next_descriptor_lo := ucast (base + of_nat (((index + 1) mod length descs) * 64)),
       next_descriptor_hi := ucast (drop_bit 32 (base + of_nat (((index + 1) mod length descs) * 64)))\<rparr>)
      [0..<length descs], descriptor_base = base, producer = 0, consumer = 0\<rparr>"
    using assms by (simp add: ring_new_def Let_def and_mask_mod' [OF n(2)] split: if_splits)
  show pend: "ring_pending r = []" by (simp add: r ring_pending_def ring_used_def)
  have "producer r = 0" "consumer r = 0" by (simp_all add: r)
  moreover show len: "length (descriptors r) = length descs" by (simp add: r)
  moreover have "link_ok r i" if "i < length descs" for i
    using that by (simp add: r link_ok_def Let_def)
  ultimately show "ring_wf r" using n unfolding ring_wf_def pend by auto
  show "descriptor_base r = base" by (simp add: r)
qed

text \<open>
  Property C11. The ring is a queue. Starting from a new ring, after any sequence of enqueues,
  polls and status writes of the hardware to any descriptor, in any order and with any values:
  the buffers accepted so far are, in order, those reported completed followed by those still in
  the ring; every descriptor still points to its successor on the cycle.
\<close>

theorem dma_ring_fifo:
  "case ring_new descs base of
     Inl e \<Rightarrow> e = InvalidCount \<or> e = UnalignedDescriptorBase
   | Inr r \<Rightarrow> (case dma_run events r of (r', accepted, completed) \<Rightarrow>
       accepted = map completed_item completed @ ring_pending r'
       \<and> ring_wf r' \<and> ring_used r' < length (descriptors r'))"
proof (cases "ring_new descs base")
  case (Inl e)
  then show ?thesis by (auto simp: ring_new_def Let_def split: if_splits)
next
  case (Inr r)
  obtain r' ins outs where run: "dma_run events r = (r', ins, outs)" by (cases "dma_run events r")
  from dma.run_fifo [OF ring_new_wf(1) [OF Inr] run [unfolded dma_run_def]]
  show ?thesis using ring_new_wf(2) [OF Inr] ring_used_less by (simp add: Inr run)
qed

definition enqueue_answer :: "axi_dma_ring \<Rightarrow> u64 \<Rightarrow> u32 \<Rightarrow> bool" where
  "enqueue_answer r address capacity \<longleftrightarrow>
     (if capacity = 0 \<or> axi_dma_length_mask < capacity then
        ring_enqueue r address capacity = (r, Inl InvalidCapacity)
      else if length (ring_pending r) + 1 = length (descriptors r) then
        ring_enqueue r address capacity = (r, Inl Full)
      else \<exists>r'. ring_enqueue r address capacity = (r', Inr (descriptor_base r + of_nat (producer r * 64)))
        \<and> ring_pending r' = ring_pending r @ [(address, capacity)])"

definition poll_answer :: "axi_dma_ring \<Rightarrow> bool" where
  "poll_answer r \<longleftrightarrow>
     (let st = status (descriptors r ! consumer r) in
      case ring_pending r of
        [] \<Rightarrow> ring_poll_completed r = (r, Inr None)
      | b # rest \<Rightarrow>
          if st AND axi_dma_status_complete = 0 then ring_poll_completed r = (r, Inr None)
          else if st AND axi_dma_status_error_mask \<noteq> 0 then ring_poll_completed r = (r, Inl (Hardware st))
          else \<exists>r'. ring_poll_completed r = (r', Inr (Some \<lparr>cb_address = fst b, cb_capacity = snd b,
                 cb_transferred = st AND axi_dma_length_mask,
                 cb_descriptor = current_descriptor_address r\<rparr>)) \<and> ring_pending r' = rest)"

lemma enqueue_answer: "ring_wf r \<Longrightarrow> enqueue_answer r address capacity"
proof -
  assume wf: "ring_wf r"
  have n: "is_power_of_two (length (descriptors r))" using wf by (simp add: ring_wf_def)
  have len: "length (ring_pending r) = ring_used r" by (simp add: ring_pending_def)
  consider "capacity = 0 \<or> axi_dma_length_mask < capacity"
    | "capacity \<noteq> 0" "capacity \<le> axi_dma_length_mask" "ring_used r + 1 = length (descriptors r)"
    | "capacity \<noteq> 0" "capacity \<le> axi_dma_length_mask" "ring_used r + 1 \<noteq> length (descriptors r)"
    by fastforce
  then show ?thesis
  proof cases
    case 1
    then show ?thesis by (simp add: enqueue_answer_def ring_enqueue_def)
  next
    case 2
    then have "(producer r + 1) AND (length (descriptors r) - 1) = consumer r"
      using next_consumer_iff [OF wf] by (simp add: and_mask_mod' [OF n])
    with 2 show ?thesis
      unfolding enqueue_answer_def len by (simp add: ring_enqueue_def Let_def)
  next
    case 3
    from ring_enqueue_ok [OF wf 3] 3 show ?thesis
      unfolding enqueue_answer_def len by (auto simp: not_less)
  qed
qed

lemma poll_answer: "ring_wf r \<Longrightarrow> poll_answer r"
proof (cases "ring_pending r")
  case Nil
  assume "ring_wf r"
  with Nil have "consumer r = producer r"
    by (auto simp: ring_pending_def ring_used_def ring_wf_def split: if_splits)
  with Nil show ?thesis by (simp add: poll_answer_def ring_poll_completed_def)
next
  case (Cons b rest)
  assume wf: "ring_wf r"
  have "consumer r \<noteq> producer r" using Cons by (auto simp: ring_pending_def ring_used_def)
  then show ?thesis
    using ring_poll_ok [OF wf Cons] Cons
    by (cases "status (descriptors r ! consumer r) AND axi_dma_status_complete = 0";
        cases "status (descriptors r ! consumer r) AND axi_dma_status_error_mask = 0")
      (auto simp: poll_answer_def Let_def ring_poll_completed_def)
qed

text \<open>
  What the operations answer, in every state the driver can reach from a new ring,
  whatever the hardware wrote. Enqueue: a capacity of zero or above the 26-bit length field is
  refused; a ring holding one buffer less than it has descriptors is full; otherwise the buffer is
  appended and the address of its own descriptor, the tail pointer for the hardware, is returned.
  Poll: nothing while the oldest buffer is not complete, the status word when it has failed,
  otherwise that buffer with the address and capacity it was enqueued with, removed from the ring.
  A refusal changes nothing.
\<close>

theorem dma_ring_answers:
  "case ring_new descs base of
     Inl e \<Rightarrow> e = (if 2 \<le> length descs \<and> is_power_of_two (length descs)
                   then UnalignedDescriptorBase else InvalidCount)
   | Inr r0 \<Rightarrow> (case dma_run events r0 of (r, _, _) \<Rightarrow>
       enqueue_answer r address capacity \<and> poll_answer r)"
proof (cases "ring_new descs base")
  case (Inl e)
  then show ?thesis by (auto simp: ring_new_def Let_def split: if_splits)
next
  case (Inr r)
  obtain r' ins outs where run: "dma_run events r = (r', ins, outs)" by (cases "dma_run events r")
  from dma.run_fifo [OF ring_new_wf(1) [OF Inr] run [unfolded dma_run_def]]
  show ?thesis using enqueue_answer poll_answer by (simp add: Inr run)
qed

end
