(* ===== verification/S2mmDma.thy ===== *)
theory S2mmDma
  imports DmaRing
begin

text \<open>
  Programming of the S2MM channel, \<open>S2mmDma\<close> of
  \<open>applications/orbtrace/firmware/a53/src/lib.rs\<close>, over an abstract register interface, and a
  reference engine that fetches descriptors from the memory of the ring. The property is that the
  two drivers fit together: what the engine fetches is the queue of the ring.
\<close>

section \<open>The driver\<close>

definition s2mm_dmacr :: nat where "s2mm_dmacr = 0x30"
definition s2mm_dmasr :: nat where "s2mm_dmasr = 0x34"
definition s2mm_curdesc_lo :: nat where "s2mm_curdesc_lo = 0x38"
definition s2mm_curdesc_hi :: nat where "s2mm_curdesc_hi = 0x3c"
definition s2mm_taildesc_lo :: nat where "s2mm_taildesc_lo = 0x40"
definition s2mm_taildesc_hi :: nat where "s2mm_taildesc_hi = 0x44"
definition dma_cr_run_stop :: u32 where "dma_cr_run_stop = push_bit 0 1"
definition dma_cr_reset :: u32 where "dma_cr_reset = push_bit 2 1"
definition dma_cr_ioc_irq_enable :: u32 where "dma_cr_ioc_irq_enable = push_bit 12 1"
definition dma_cr_error_irq_enable :: u32 where "dma_cr_error_irq_enable = push_bit 14 1"
definition dma_sr_irq_mask :: u32 where "dma_sr_irq_mask = 0x7000"

record 'io dma_register_io =
  read_dma :: "nat \<Rightarrow> 'io \<Rightarrow> u32 \<times> 'io"
  write_dma :: "nat \<Rightarrow> u32 \<Rightarrow> 'io \<Rightarrow> 'io"

datatype dma_error = ResetTimeout

fun s2mm_reset_wait :: "'io dma_register_io \<Rightarrow> nat \<Rightarrow> 'io \<Rightarrow> 'io \<times> (dma_error + unit)" where
  "s2mm_reset_wait R remaining io =
     (case read_dma R s2mm_dmacr io of (v, io1) \<Rightarrow>
        if v AND dma_cr_reset = 0 then (io1, Inr ())
        else case remaining of 0 \<Rightarrow> (io1, Inl ResetTimeout) | Suc n \<Rightarrow> s2mm_reset_wait R n io1)"

declare s2mm_reset_wait.simps [simp del]

definition s2mm_initialize :: "'io dma_register_io \<Rightarrow> u64 \<Rightarrow> u32 \<Rightarrow> 'io \<Rightarrow> 'io \<times> (dma_error + unit)" where
  "s2mm_initialize R current_descriptor poll_budget io =
     (case s2mm_reset_wait R (unat poll_budget) (write_dma R s2mm_dmacr dma_cr_reset io) of
        (io1, Inl e) \<Rightarrow> (io1, Inl e)
      | (io1, Inr _) \<Rightarrow>
          (write_dma R s2mm_dmacr
             ((dma_cr_run_stop OR dma_cr_ioc_irq_enable) OR dma_cr_error_irq_enable)
             (write_dma R s2mm_curdesc_hi (ucast (drop_bit 32 current_descriptor))
               (write_dma R s2mm_curdesc_lo (ucast current_descriptor) io1)), Inr ()))"

definition s2mm_submit_tail :: "'io dma_register_io \<Rightarrow> u64 \<Rightarrow> 'io \<Rightarrow> 'io" where
  "s2mm_submit_tail R descriptor io =
     write_dma R s2mm_taildesc_lo (ucast descriptor)
       (write_dma R s2mm_taildesc_hi (ucast (drop_bit 32 descriptor)) io)"

definition s2mm_acknowledge_interrupts :: "'io dma_register_io \<Rightarrow> 'io \<Rightarrow> 'io \<times> u32" where
  "s2mm_acknowledge_interrupts R io =
     (case read_dma R s2mm_dmasr io of (irqs, io1) \<Rightarrow>
        (write_dma R s2mm_dmasr (irqs AND dma_sr_irq_mask) io1, irqs))"

section \<open>A reference engine\<close>

text \<open>
  The documented behaviour of the register block: the reset bit reads one for a number of reads and
  then clears; meanwhile, no write has an effect. The current descriptor can be written only while
  the channel is stopped, and its low six bits are reserved. A write of the low half of the tail
  starts the fetch when the channel runs. Interrupt bits are cleared by writing ones; some may be
  raised between two register accesses.
\<close>

record s2mm_engine =
  eg_reset_time :: nat
  eg_reset_left :: nat
  eg_cr :: u32
  eg_cur :: u64
  eg_tail_hi :: u32
  eg_tail :: "u64 option"
  eg_irq :: u32
  eg_raised :: "u32 list"

definition engine_read :: "nat \<Rightarrow> s2mm_engine \<Rightarrow> u32 \<times> s2mm_engine" where
  "engine_read offset s =
     (if offset = s2mm_dmacr then
        (if eg_reset_left s = 0 then (eg_cr s, s)
         else (eg_cr s OR dma_cr_reset, s\<lparr>eg_reset_left := eg_reset_left s - 1\<rparr>))
      else if offset = s2mm_dmasr then
        (eg_irq s, (case eg_raised s of [] \<Rightarrow> s | r # rs \<Rightarrow> s\<lparr>eg_irq := eg_irq s OR r, eg_raised := rs\<rparr>))
      else (0, s))"

definition aligned64 :: "u64 \<Rightarrow> u64" where
  "aligned64 v = v AND NOT (mask 6)"

definition engine_write :: "nat \<Rightarrow> u32 \<Rightarrow> s2mm_engine \<Rightarrow> s2mm_engine" where
  "engine_write offset v s =
     (if offset = s2mm_dmacr \<and> v AND dma_cr_reset \<noteq> 0 then
        s\<lparr>eg_reset_left := eg_reset_time s, eg_cr := 0, eg_cur := 0, eg_tail := None\<rparr>
      else if eg_reset_left s \<noteq> 0 then s
      else if offset = s2mm_dmacr then s\<lparr>eg_cr := v\<rparr>
      else if offset = s2mm_dmasr then s\<lparr>eg_irq := eg_irq s AND NOT (v AND dma_sr_irq_mask)\<rparr>
      else if offset = s2mm_curdesc_lo \<and> eg_cr s AND dma_cr_run_stop = 0 then
        s\<lparr>eg_cur := (eg_cur s AND NOT (mask 32)) OR aligned64 (ucast v)\<rparr>
      else if offset = s2mm_curdesc_hi \<and> eg_cr s AND dma_cr_run_stop = 0 then
        s\<lparr>eg_cur := (eg_cur s AND mask 32) OR push_bit 32 (ucast v)\<rparr>
      else if offset = s2mm_taildesc_hi then s\<lparr>eg_tail_hi := v\<rparr>
      else if offset = s2mm_taildesc_lo \<and> eg_cr s AND dma_cr_run_stop \<noteq> 0 then
        s\<lparr>eg_tail := Some (push_bit 32 (ucast (eg_tail_hi s)) OR aligned64 (ucast v))\<rparr>
      else s)"

definition engine_io :: "s2mm_engine dma_register_io" where
  "engine_io = \<lparr>read_dma = engine_read, write_dma = engine_write\<rparr>"

text \<open>Fetching: from the current descriptor along the links, up to and including the tail.\<close>

definition descriptor_at :: "axi_dma_ring \<Rightarrow> u64 \<Rightarrow> axi_dma_descriptor option" where
  "descriptor_at r address =
     map_option (\<lambda>i. descriptors r ! i)
       (find (\<lambda>i. descriptor_base r + of_nat (i * 64) = address) [0..<length (descriptors r)])"

fun engine_fetch :: "nat \<Rightarrow> axi_dma_ring \<Rightarrow> u64 \<Rightarrow> u64 \<Rightarrow> (u64 \<times> u32) list" where
  "engine_fetch 0 r address tail = []"
| "engine_fetch (Suc n) r address tail =
     (case descriptor_at r address of
        None \<Rightarrow> []
      | Some d \<Rightarrow> buffer_of d # (if address = tail then []
          else engine_fetch n r
            (ucast (next_descriptor_lo d) OR push_bit 32 (ucast (next_descriptor_hi d))) tail))"

lemma reset_bits:
  "dma_cr_reset \<noteq> 0" "(v OR dma_cr_reset) AND dma_cr_reset \<noteq> 0"
  "((dma_cr_run_stop OR dma_cr_ioc_irq_enable) OR dma_cr_error_irq_enable) AND dma_cr_reset = 0"
  "((dma_cr_run_stop OR dma_cr_ioc_irq_enable) OR dma_cr_error_irq_enable) AND dma_cr_run_stop \<noteq> 0"
proof -
  show "(v OR dma_cr_reset) AND dma_cr_reset \<noteq> 0"
  proof
    assume "(v OR dma_cr_reset) AND dma_cr_reset = 0"
    then have "bit ((v OR dma_cr_reset) AND dma_cr_reset) 2 = bit (0 :: u32) 2" by (rule arg_cong)
    then show False by (simp add: bit_and_iff bit_or_iff dma_cr_reset_def bit_push_bit_iff)
  qed
qed (simp_all add: dma_cr_reset_def dma_cr_run_stop_def dma_cr_ioc_irq_enable_def dma_cr_error_irq_enable_def)

lemma reset_wait_engine:
  "eg_cr s AND dma_cr_reset = 0 \<Longrightarrow>
   s2mm_reset_wait engine_io budget s =
     (if eg_reset_left s \<le> budget then (s\<lparr>eg_reset_left := 0\<rparr>, Inr ())
      else (s\<lparr>eg_reset_left := eg_reset_left s - Suc budget\<rparr>, Inl ResetTimeout))"
proof (induction budget arbitrary: s)
  case 0
  then show ?case
    by (subst s2mm_reset_wait.simps) (auto simp: engine_io_def engine_read_def reset_bits)
next
  case (Suc budget)
  show ?case
  proof (cases "eg_reset_left s")
    case 0
    then show ?thesis using Suc.prems
      by (subst s2mm_reset_wait.simps) (simp add: engine_io_def engine_read_def)
  next
    case (Suc k)
    then have "s2mm_reset_wait engine_io (Suc budget) s = s2mm_reset_wait engine_io budget (s\<lparr>eg_reset_left := k\<rparr>)"
      by (subst s2mm_reset_wait.simps) (simp add: engine_io_def engine_read_def reset_bits)
    then show ?thesis using Suc Suc.IH [of "s\<lparr>eg_reset_left := k\<rparr>"] Suc.prems by auto
  qed
qed

lemma halves_aligned:
  "address AND 63 = 0 \<Longrightarrow>
   aligned64 (ucast (ucast address :: u32)) OR push_bit 32 (ucast (ucast (drop_bit 32 address) :: u32)) = (address :: u64)"
proof -
  assume "address AND 63 = 0"
  have low: "6 \<le> i" if "bit address i" for i
  proof (rule ccontr)
    assume "\<not> 6 \<le> i"
    have m: "(63 :: u64) = mask 6" by (simp add: mask_eq_exp_minus_1)
    have "bit (address AND 63) i = bit (0 :: u64) i" using \<open>address AND 63 = 0\<close> by simp
    then show False using that \<open>\<not> 6 \<le> i\<close> by (simp add: m bit_and_iff bit_mask_iff)
  qed
  show ?thesis
    by (rule bit_word_eqI)
      (auto simp: aligned64_def bit_or_iff bit_push_bit_iff bit_ucast_iff bit_drop_bit_eq bit_and_iff
        bit_not_iff bit_mask_iff not_less dest: low)
qed

lemma low_half: "aligned64 (ucast (v :: u32)) AND mask 32 = aligned64 (ucast v)"
  by (rule bit_word_eqI) (auto simp: aligned64_def bit_and_iff bit_mask_iff bit_ucast_iff dest: bit_imp_le_length)

lemmas s2mm_offsets = s2mm_dmacr_def s2mm_dmasr_def s2mm_curdesc_lo_def s2mm_curdesc_hi_def
  s2mm_taildesc_lo_def s2mm_taildesc_hi_def

lemma initialize_engine:
  assumes "current AND 63 = 0"
  shows "s2mm_initialize engine_io current budget s =
    (if eg_reset_time s \<le> unat budget then
       (s\<lparr>eg_reset_left := 0, eg_cr := (dma_cr_run_stop OR dma_cr_ioc_irq_enable) OR dma_cr_error_irq_enable,
          eg_cur := current, eg_tail := None\<rparr>, Inr ())
     else (s\<lparr>eg_reset_left := eg_reset_time s - Suc (unat budget), eg_cr := 0, eg_cur := 0, eg_tail := None\<rparr>,
       Inl ResetTimeout))"
proof -
  let ?s = "s\<lparr>eg_reset_left := eg_reset_time s, eg_cr := 0, eg_cur := 0, eg_tail := None\<rparr>"
  have w: "write_dma engine_io = engine_write" by (simp add: engine_io_def)
  have r: "engine_write s2mm_dmacr dma_cr_reset s = ?s"
    by (simp add: engine_write_def reset_bits)
  show ?thesis
    using reset_wait_engine [of ?s "unat budget"] assms
    by (simp add: s2mm_initialize_def w r)
      (simp add: engine_write_def s2mm_offsets reset_bits low_half halves_aligned)
qed

lemma submit_engine:
  assumes "descriptor AND 63 = 0" "eg_reset_left s = 0" "eg_cr s AND dma_cr_run_stop \<noteq> 0"
  shows "s2mm_submit_tail engine_io descriptor s =
    s\<lparr>eg_tail_hi := ucast (drop_bit 32 descriptor), eg_tail := Some descriptor\<rparr>"
  using assms halves_aligned [OF assms(1)]
  by (simp add: s2mm_submit_tail_def engine_io_def engine_write_def s2mm_offsets or.commute)

section \<open>What the engine fetches\<close>

definition slot_address :: "axi_dma_ring \<Rightarrow> nat \<Rightarrow> u64" where
  "slot_address r i = descriptor_base r + of_nat (i * 64)"

lemma slot_address_aligned:
  assumes "descriptor_base r AND 63 = 0"
  shows "slot_address r i AND 63 = 0"
proof -
  have m: "(63 :: u64) = mask 6" by (simp add: mask_eq_exp_minus_1)
  have "take_bit 6 (descriptor_base r) = 0"
    using assms by (simp add: m take_bit_eq_mask)
  then have "descriptor_base r = push_bit 6 (drop_bit 6 (descriptor_base r))"
    using bits_ident [of 6 "descriptor_base r"] by simp
  then have "slot_address r i = push_bit 6 (drop_bit 6 (descriptor_base r) + of_nat i)"
    unfolding slot_address_def by (simp add: push_bit_eq_mult algebra_simps)
  then have "take_bit 6 (slot_address r i) = 0" by (simp add: take_bit_push_bit)
  then show ?thesis by (simp add: m take_bit_eq_mask)
qed

lemma slot_address_inj:
  assumes "n * 64 < 2 ^ 64" "i < n" "j < n" "slot_address r i = slot_address r j"
  shows "i = j"
proof -
  have "(of_nat (i * 64) :: u64) = of_nat (j * 64)"
    using assms(4) by (simp add: slot_address_def)
  moreover have "i * 64 < 2 ^ LENGTH(64)" "j * 64 < 2 ^ LENGTH(64)"
    using assms(1-3) by auto
  ultimately have "i * 64 = j * 64" by (metis unat_of_nat_less)
  then show ?thesis by simp
qed

lemma descriptor_at_slot:
  assumes "length (descriptors r) * 64 < 2 ^ 64" "i < length (descriptors r)"
  shows "descriptor_at r (slot_address r i) = Some (descriptors r ! i)"
proof -
  have other: "slot_address r j \<noteq> slot_address r i" if "j < i" for j
    using slot_address_inj [OF assms(1), of j i r] that assms(2) by auto
  have "find (\<lambda>k. descriptor_base r + of_nat (k * 64) = slot_address r i) [0..<length (descriptors r)] = Some i"
    using assms(2) other unfolding find_Some_iff slot_address_def by (intro exI [of _ i]) auto
  then show ?thesis unfolding descriptor_at_def by simp
qed

lemma next_slot:
  assumes "ring_wf r" "i < length (descriptors r)"
  shows "ucast (next_descriptor_lo (descriptors r ! i)) OR push_bit 32 (ucast (next_descriptor_hi (descriptors r ! i)))
    = slot_address r ((i + 1) mod length (descriptors r))"
  using assms by (simp add: ring_wf_def link_ok_def slot_address_def Let_def address_halves)

lemma engine_fetch_slots:
  assumes wf: "ring_wf r" and fit: "length (descriptors r) * 64 < 2 ^ 64"
  shows "k \<le> m \<Longrightarrow> m < ring_used r \<Longrightarrow> m - k < n \<Longrightarrow>
    engine_fetch n r (slot_address r (ring_slot r k)) (slot_address r (ring_slot r m)) =
      map (\<lambda>j. buffer_of (descriptors r ! ring_slot r j)) [k..<Suc m]"
proof (induction n arbitrary: k)
  case (Suc n)
  let ?len = "length (descriptors r)"
  have used: "ring_used r < ?len" by (rule ring_used_less [OF wf])
  have slot: "ring_slot r j < ?len" for j
    unfolding ring_slot_def using used by (intro mod_less_divisor) linarith
  have step: "Suc (ring_slot r k) mod ?len = ring_slot r (Suc k)"
    by (simp add: ring_slot_def mod_simps)
  have here: "descriptor_at r (slot_address r (ring_slot r k)) = Some (descriptors r ! ring_slot r k)"
    by (rule descriptor_at_slot [OF fit slot])
  show ?case
  proof (cases "k = m")
    case True
    with here show ?thesis by simp
  next
    case False
    then have km: "k < m" using Suc.prems by simp
    have "ring_slot r k \<noteq> ring_slot r m"
      using ring_slot_eq [OF wf, of k] ring_slot_eq [OF wf, of m] km Suc.prems used wf
      by (auto simp: ring_wf_def split: if_splits)
    then have "slot_address r (ring_slot r k) \<noteq> slot_address r (ring_slot r m)"
      using slot_address_inj [OF fit slot slot] by blast
    moreover have "engine_fetch n r (slot_address r (ring_slot r (Suc k))) (slot_address r (ring_slot r m)) =
        map (\<lambda>j. buffer_of (descriptors r ! ring_slot r j)) [Suc k..<Suc m]"
      using km Suc.prems by (intro Suc.IH) auto
    moreover have "[k..<Suc m] = k # [Suc k..<Suc m]" using km by (simp add: upt_conv_Cons del: upt_Suc)
    ultimately show ?thesis
      using here next_slot [OF wf slot, of k] by (simp add: step del: upt_Suc)
  qed
qed simp

lemma engine_fetch_pending:
  assumes "ring_wf r" "length (descriptors r) * 64 < 2 ^ 64" "0 < ring_used r"
  shows "engine_fetch (length (descriptors r)) r (current_descriptor_address r)
    (slot_address r (ring_slot r (ring_used r - 1))) = ring_pending r"
proof -
  have "current_descriptor_address r = slot_address r (ring_slot r 0)"
    using assms(1) by (simp add: current_descriptor_address_def slot_address_def ring_slot_def ring_wf_def)
  then show ?thesis
    using engine_fetch_slots [OF assms(1,2), of 0 "ring_used r - 1" "length (descriptors r)"]
      assms(3) ring_used_less [OF assms(1)] by (simp add: ring_pending_def)
qed

text \<open>A queue operations of which leave some part of the state alone.\<close>

locale framed_queue = shared_queue wf pending put foreign take_next item
  for wf :: "'s \<Rightarrow> bool"
    and pending :: "'s \<Rightarrow> 'i list"
    and put :: "'i \<Rightarrow> 's \<Rightarrow> 's option"
    and foreign :: "'f \<Rightarrow> 's \<Rightarrow> 's"
    and take_next :: "'s \<Rightarrow> ('o \<times> 's) option"
    and item :: "'o \<Rightarrow> 'i" +
  fixes frame :: "'s \<Rightarrow> 'g"
  assumes put_frame: "put x s = Some s' \<Longrightarrow> frame s' = frame s"
    and foreign_frame: "frame (foreign f s) = frame s"
    and take_frame: "take_next s = Some (y, s') \<Longrightarrow> frame s' = frame s"
begin

lemma run_frame: "run es s = (s', ins, outs) \<Longrightarrow> frame s' = frame s"
proof (induction es arbitrary: s s' ins outs)
  case (Cons e es)
  then show ?case
    by (cases e) (auto simp: foreign_frame split: option.splits prod.splits dest!: put_frame take_frame)
qed simp

end

lemma ring_put_frame:
  "ring_put b r = Some r' \<Longrightarrow> descriptor_base r' = descriptor_base r \<and> length (descriptors r') = length (descriptors r)"
  by (auto simp: ring_put_def ring_enqueue_def Let_def split: if_splits)

lemma ring_take_frame:
  "ring_take r = Some (c, r') \<Longrightarrow> descriptor_base r' = descriptor_base r \<and> length (descriptors r') = length (descriptors r)"
  by (auto simp: ring_take_def ring_poll_completed_def Let_def split: if_splits)

interpretation dma_frame: framed_queue ring_wf ring_pending ring_put ring_hw ring_take completed_item
  "\<lambda>r. (descriptor_base r, length (descriptors r))"
  by unfold_locales (auto simp: ring_hw_def hw_set_status_def dest: ring_put_frame ring_take_frame)

lemma enqueue_last_slot:
  assumes "ring_wf r" "ring_enqueue r address capacity = (r', Inr tail)"
  shows "ring_wf r'" "0 < ring_used r'" "length (descriptors r') = length (descriptors r)"
    "descriptor_base r' = descriptor_base r" "consumer r' = consumer r"
    "tail = slot_address r' (ring_slot r' (ring_used r' - 1))"
proof -
  have ok: "capacity \<noteq> 0" "capacity \<le> axi_dma_length_mask" "ring_used r + 1 \<noteq> length (descriptors r)"
    using assms and_mask_mod [of "length (descriptors r)" "producer r + 1"] next_consumer_iff [OF assms(1)]
    by (auto simp: ring_enqueue_def Let_def ring_wf_def split: if_splits)
  from ring_enqueue_ok [OF assms(1) ok, of address] assms(2)
  have wf: "ring_wf r'" and pend: "ring_pending r' = ring_pending r @ [(address, capacity)]"
    and tail: "tail = slot_address r (producer r)" and len: "length (descriptors r') = length (descriptors r)"
    by (auto simp: slot_address_def)
  show base: "descriptor_base r' = descriptor_base r" and cons: "consumer r' = consumer r"
    using assms(2) by (auto simp: ring_enqueue_def Let_def split: if_splits)
  have used: "ring_used r' = ring_used r + 1"
    using arg_cong [OF pend, of length] by (simp add: ring_pending_def)
  show "tail = slot_address r' (ring_slot r' (ring_used r' - 1))"
    using ring_slot_used [OF assms(1)] by (simp add: tail used ring_slot_def slot_address_def base cons len)
  show "ring_wf r'" "0 < ring_used r'" "length (descriptors r') = length (descriptors r)"
    using wf used len by simp_all
qed


definition idle_engine :: s2mm_engine where
  "idle_engine = \<lparr>eg_reset_time = 3, eg_reset_left = 0, eg_cr = 0, eg_cur = 0, eg_tail_hi = 0,
     eg_tail = None, eg_irq = 0, eg_raised = []\<rparr>"


text \<open>
  No interrupt is lost: what \<open>acknowledge_interrupts\<close> clears is among the bits it returns, so a
  bit that is raised after the status was read stays pending.
\<close>

lemma acknowledge_keeps_new:
  assumes "eg_reset_left s = 0"
  shows "case s2mm_acknowledge_interrupts engine_io s of (s', irqs) \<Rightarrow>
    irqs = eg_irq s
    \<and> eg_irq s' = (eg_irq s OR (case eg_raised s of [] \<Rightarrow> 0 | r # _ \<Rightarrow> r)) AND NOT (irqs AND dma_sr_irq_mask)"
  using assms
  by (cases "eg_raised s")
    (simp_all add: s2mm_acknowledge_interrupts_def engine_io_def engine_read_def engine_write_def s2mm_offsets
      bit.conj_disj_distrib2)

end
