(* ===== verification/Registers.thy ===== *)
theory Registers
  imports Controller Text
begin

text \<open>
  The register map, written three times in the sources: the module \<open>registers\<close> of
  \<open>applications/orbtrace/model/src/lib.rs\<close>, the table of \<open>registers_sv\<close> in
  \<open>model/src/main.rs\<close> that generates the header of the hardware, and the constants of the
  firmware. The property is that the three agree and that the generated text says so.
\<close>

definition registers_module :: "(string \<times> nat) list" where
  "registers_module =
    [(''ID'', 0x0000), (''VERSION'', 0x0004), (''CONTROL'', 0x0008),
     (''SOURCE_FORMAT'', 0x000c), (''SWO_BAUD'', 0x0010), (''DMA_BASE_LO'', 0x0018),
     (''DMA_BASE_HI'', 0x001c), (''DMA_RING_SIZE'', 0x0020), (''IRQ_STATUS'', 0x0024),
     (''IRQ_ENABLE'', 0x0028), (''RX_BYTES_LO'', 0x0040), (''RX_BYTES_HI'', 0x0044),
     (''DROP_BYTES_LO'', 0x0048), (''DROP_BYTES_HI'', 0x004c), (''SYNC_LOSS_LO'', 0x0050),
     (''SYNC_LOSS_HI'', 0x0054), (''FIFO_HIGH_WATER'', 0x0058), (''DMA_FAULTS_LO'', 0x0060),
     (''DMA_FAULTS_HI'', 0x0064), (''DAP_COMMAND'', 0x0080), (''DAP_RESPONSE'', 0x0084),
     (''DAP_STATUS'', 0x0088), (''DAP_CONTROL'', 0x008c), (''DAP_TRANSFERS_LO'', 0x0090),
     (''DAP_TRANSFERS_HI'', 0x0094), (''DAP_ABORTS'', 0x0098), (''M3_CONTROL'', 0x00a0),
     (''ID_VALUE'', 0x4f524254), (''M3_CONTROL_RELEASE'', 2 ^ 0), (''M3_CONTROL_DAP_REAL'', 2 ^ 1),
     (''CONTROL_START'', 2 ^ 0), (''CONTROL_STOP'', 2 ^ 1), (''CONTROL_RESET'', 2 ^ 2),
     (''IRQ_DMA_COMPLETE'', 2 ^ 0), (''IRQ_OVERRUN'', 2 ^ 1), (''IRQ_DEBUG_COMPLETE'', 2 ^ 2)]"

definition register_entries :: "(string \<times> nat) list" where
  "register_entries =
    [(''ID'', 0x0000), (''VERSION'', 0x0004), (''CONTROL'', 0x0008),
     (''SOURCE_FORMAT'', 0x000c), (''SWO_BAUD'', 0x0010), (''DMA_BASE_LO'', 0x0018),
     (''DMA_BASE_HI'', 0x001c), (''DMA_RING_SIZE'', 0x0020), (''IRQ_STATUS'', 0x0024),
     (''IRQ_ENABLE'', 0x0028), (''RX_BYTES_LO'', 0x0040), (''RX_BYTES_HI'', 0x0044),
     (''DROP_BYTES_LO'', 0x0048), (''DROP_BYTES_HI'', 0x004c), (''SYNC_LOSS_LO'', 0x0050),
     (''SYNC_LOSS_HI'', 0x0054), (''FIFO_HIGH_WATER'', 0x0058), (''DMA_FAULTS_LO'', 0x0060),
     (''DMA_FAULTS_HI'', 0x0064), (''DAP_COMMAND'', 0x0080), (''DAP_RESPONSE'', 0x0084),
     (''DAP_STATUS'', 0x0088), (''DAP_CONTROL'', 0x008c), (''DAP_TRANSFERS_LO'', 0x0090),
     (''DAP_TRANSFERS_HI'', 0x0094), (''DAP_ABORTS'', 0x0098), (''M3_CONTROL'', 0x00a0)]"

definition sv_line :: "string \<times> nat \<Rightarrow> string" where
  "sv_line e = ''localparam logic [15:0] ORBTRACE_REG_'' @ fst e @ '' = 16'h'' @ fmt_hex 4 (snd e) @ '';''"

definition registers_sv :: "string list" where
  "registers_sv =
    [''// Generated by //applications/orbtrace/model:orbtrace gen-registers; do not edit.'',
     ''`ifndef ORBTRACE_REGS_SVH'', ''`define ORBTRACE_REGS_SVH'']
    @ map sv_line register_entries @ [''`endif'']"

section \<open>Reading the generated header\<close>

text \<open>What a hardware tool reads from a line: the name up to the blank and the digits before the semicolon.\<close>

definition read_sv_line :: "string \<Rightarrow> (string \<times> nat) option" where
  "read_sv_line l =
     (if take 37 l = ''localparam logic [15:0] ORBTRACE_REG_'' then
        (let name = takeWhile (\<lambda>c. c \<noteq> CHR '' '') (drop 37 l);
             rest = dropWhile (\<lambda>c. c \<noteq> CHR '' '') (drop 37 l)
         in if take 7 rest = '' = 16'h'' \<and> drop 11 rest = '';'' then
              map_option (Pair name) (from_str_radix 65535 16 (slice_of 7 11 rest))
            else None)
      else None)"

lemma length_radix_digits: "2 \<le> base \<Longrightarrow> n < base ^ k \<Longrightarrow> 0 < k \<Longrightarrow> length (radix_digits base n) \<le> k"
proof (induction k arbitrary: n)
  case (Suc k)
  show ?case
  proof (cases "n < base")
    case True
    then show ?thesis by (simp add: radix_digits.simps)
  next
    case False
    with Suc.prems have k: "0 < k" by (cases k) auto
    have "n div base < base ^ k"
      using Suc.prems by (intro less_mult_imp_div_less) (simp add: mult.commute)
    from Suc.IH [OF Suc.prems(1) this k] Suc.prems(1) False show ?thesis
      by (subst radix_digits.simps) simp
  qed
qed simp

lemma length_fmt_hex_4: "n < 65536 \<Longrightarrow> length (fmt_hex 4 n) = 4"
  using length_radix_digits [of 16 n 4] by (simp add: fmt_hex_def length_pad0)

definition sv_prefix :: string where "sv_prefix = ''localparam logic [15:0] ORBTRACE_REG_''"

lemma take_drop_prefix [simp]: "take 37 (sv_prefix @ r) = sv_prefix" "drop 37 (sv_prefix @ r) = r"
  by (simp_all add: sv_prefix_def)

lemma read_sv_line_prefix:
  "read_sv_line (sv_prefix @ r) =
     (let name = takeWhile (\<lambda>c. c \<noteq> CHR '' '') r; rest = dropWhile (\<lambda>c. c \<noteq> CHR '' '') r
      in if take 7 rest = '' = 16'h'' \<and> drop 11 rest = '';'' then
           map_option (Pair name) (from_str_radix 65535 16 (slice_of 7 11 rest))
         else None)"
  unfolding read_sv_line_def take_drop_prefix by (simp only: sv_prefix_def [symmetric] if_True simp_thms)

lemma read_sv_line_sv_line:
  assumes "CHR '' '' \<notin> set (fst e)" "snd e < 65536"
  shows "read_sv_line (sv_line e) = Some e"
proof -
  let ?h = "fmt_hex 4 (snd e)"
  let ?r = "'' = 16'h'' @ ?h @ '';''"
  have len: "length ?h = 4" using assms(2) by (rule length_fmt_hex_4)
  have blank: "c \<noteq> CHR '' ''" if "c \<in> set (fst e)" for c using assms(1) that by auto
  have w: "takeWhile (\<lambda>c. c \<noteq> CHR '' '') (fst e @ ?r) = fst e" "dropWhile (\<lambda>c. c \<noteq> CHR '' '') (fst e @ ?r) = ?r"
    using blank by (simp_all add: takeWhile_append2 dropWhile_append2)
  have n: "from_str_radix 65535 16 ?h = Some (snd e)"
    using numbers_survive_text [of 65535 "snd e" 4] assms(2) by simp
  have "sv_line e = sv_prefix @ fst e @ ?r" by (simp add: sv_line_def sv_prefix_def)
  moreover have "take 7 ?r = '' = 16'h''" "drop 11 ?r = '';''" "slice_of 7 11 ?r = ?h"
    using len by (simp_all add: slice_of_def)
  ultimately show ?thesis
    unfolding read_sv_line_prefix [of "fst e @ ?r", folded \<open>sv_line e = sv_prefix @ fst e @ ?r\<close>] Let_def w
    by (simp only: n if_True simp_thms option.map prod.collapse)
qed

lemma register_entries_readable:
  "list_all (\<lambda>e. CHR '' '' \<notin> set (fst e) \<and> snd e < 65536) register_entries"
  by (simp add: register_entries_def)

text \<open>
  One register map. The lines of the generated header that define a register are read
  back as the table, name by name; the table is the address part of the module \<open>registers\<close>; every
  address the firmware uses and the nine counters it reads for the statistics are those of the
  table under the same name; and the addresses are different words of the window.
\<close>

theorem registers_agree:
  "List.map_filter read_sv_line registers_sv = register_entries
   \<and> take (length register_entries) registers_module = register_entries
   \<and> map (map_of register_entries) [''CONTROL'', ''SOURCE_FORMAT'', ''SWO_BAUD'', ''DMA_BASE_LO'',
       ''DMA_BASE_HI'', ''DMA_RING_SIZE'', ''DAP_COMMAND'', ''DAP_RESPONSE'', ''DAP_STATUS'', ''M3_CONTROL'']
     = map Some [reg_control, reg_source_format, reg_swo_baud, reg_dma_base_lo,
       reg_dma_base_hi, reg_dma_ring_size, reg_dap_command, reg_dap_response, reg_dap_status, reg_m3_control]
   \<and> map (map_of register_entries) [''RX_BYTES_LO'', ''RX_BYTES_HI'', ''DROP_BYTES_LO'', ''DROP_BYTES_HI'',
       ''SYNC_LOSS_LO'', ''SYNC_LOSS_HI'', ''FIFO_HIGH_WATER'', ''DMA_FAULTS_LO'', ''DMA_FAULTS_HI'']
     = map Some stats_offsets
   \<and> distinct (map snd register_entries)
   \<and> list_all (\<lambda>a. a mod 4 = 0 \<and> a < 0x10000) (map snd register_entries)"
proof (intro conjI)
  have "list_all (\<lambda>e. CHR '' '' \<notin> set (fst e) \<and> snd e < 65536) es \<Longrightarrow>
      List.map_filter read_sv_line (map sv_line es) = es" for es
    by (induction es) (auto simp: List.map_filter_def read_sv_line_sv_line)
  note mapped = this [OF register_entries_readable]
  have "read_sv_line ''`endif'' = None"
    "read_sv_line ''`ifndef ORBTRACE_REGS_SVH'' = None" "read_sv_line ''`define ORBTRACE_REGS_SVH'' = None"
    "read_sv_line ''// Generated by //applications/orbtrace/model:orbtrace gen-registers; do not edit.'' = None"
    by (simp_all add: read_sv_line_def)
  with mapped show "List.map_filter read_sv_line registers_sv = register_entries"
    by (simp add: registers_sv_def List.map_filter_def)
  show "take (length register_entries) registers_module = register_entries"
    by (simp add: register_entries_def registers_module_def)
qed (simp_all add: register_entries_def stats_offsets_def reg_control_def reg_source_format_def reg_swo_baud_def
    reg_dma_base_lo_def reg_dma_base_hi_def reg_dma_ring_size_def reg_dap_command_def reg_dap_response_def
    reg_dap_status_def reg_m3_control_def)

end
