(* ===== verification/PmDecode.thy ===== *)
theory PmDecode
  imports Text
begin

text \<open>
  The postmortem decoder, \<open>tooling/pm_decode/src/main.rs\<close>: the checksum, the record and its
  report, and the scan of a memory dump. The external program that names addresses is a parameter;
  what is printed is a list of lines for each of the two output streams.
\<close>

section \<open>The program\<close>

definition pm_magic :: u32 where "pm_magic = 0x504D0001"
definition pm_version :: u32 where "pm_version = 1"
definition off_magic :: nat where "off_magic = 0"
definition off_version :: nat where "off_version = 4"
definition off_exc_type :: nat where "off_exc_type = 8"
definition off_cpsr :: nat where "off_cpsr = 12"
definition off_pc :: nat where "off_pc = 16"
definition off_lr_raw :: nat where "off_lr_raw = 20"
definition off_r :: nat where "off_r = 24"
definition off_dfsr :: nat where "off_dfsr = 76"
definition off_dfar :: nat where "off_dfar = 80"
definition off_ifsr :: nat where "off_ifsr = 84"
definition off_crc32 :: nat where "off_crc32 = 88"
definition record_size :: nat where "record_size = 92"

text \<open>The inner loop of \<open>crc32\<close> shifts the sum and the byte together.\<close>

definition crc_bit :: "u32 \<times> u8 \<Rightarrow> u32 \<times> u8" where
  "crc_bit st = (case st of (crc, b) \<Rightarrow>
     (if (crc XOR ucast b) AND 1 \<noteq> 0 then drop_bit 1 crc XOR 0xEDB88320 else drop_bit 1 crc,
      drop_bit 1 b))"

definition crc_byte :: "u32 \<Rightarrow> u8 \<Rightarrow> u32" where
  "crc_byte crc byte = fst ((crc_bit ^^ 8) (crc, byte))"

definition crc32 :: "bytes \<Rightarrow> u32" where
  "crc32 data = foldl crc_byte 0xFFFFFFFF data XOR 0xFFFFFFFF"

definition le32 :: "bytes \<Rightarrow> nat \<Rightarrow> u32" where
  "le32 buf offset = from_le (slice_of offset (offset + 4) buf)"

definition exc_name :: "u32 \<Rightarrow> string" where
  "exc_name exc_type =
     (if exc_type = 1 then ''undefined-instruction''
      else if exc_type = 2 then ''prefetch-abort''
      else if exc_type = 3 then ''data-abort''
      else ''unknown'')"

definition cpsr_mode :: "u32 \<Rightarrow> string" where
  "cpsr_mode cpsr =
     (let m = cpsr AND 0x1F
      in if m = 0x10 then ''USR'' else if m = 0x11 then ''FIQ'' else if m = 0x12 then ''IRQ''
         else if m = 0x13 then ''SVC'' else if m = 0x17 then ''ABT'' else if m = 0x1B then ''UND''
         else if m = 0x1F then ''SYS'' else ''???'')"

definition fmt_addr :: "u32 \<Rightarrow> string" where
  "fmt_addr v = fmt_0x 8 (unat v)"

definition symbol_note :: "(string \<Rightarrow> u32 \<Rightarrow> string option) \<Rightarrow> string option \<Rightarrow> u32 \<Rightarrow> string" where
  "symbol_note addr2line elf v =
     (case elf of None \<Rightarrow> ''''
      | Some path \<Rightarrow> (case addr2line path v of None \<Rightarrow> '''' | Some name \<Rightarrow> ''  <- '' @ name))"

definition register_line :: "nat \<times> u32 \<Rightarrow> string" where
  "register_line e = (case e of (i, v) \<Rightarrow>
     ''  r'' @ fmt_dec i @ replicate (2 - length (fmt_dec i)) (CHR '' '') @ ''       : '' @ fmt_addr v)"

definition report :: "(string \<Rightarrow> u32 \<Rightarrow> string option) \<Rightarrow> string option \<Rightarrow> u32 \<Rightarrow> u32 \<Rightarrow> u32 \<Rightarrow> u32 \<Rightarrow>
    u32 list \<Rightarrow> u32 \<Rightarrow> u32 \<Rightarrow> u32 \<Rightarrow> u32 \<Rightarrow> bool \<Rightarrow> string list" where
  "report addr2line elf exc_type cpsr pc lr_raw r dfsr dfar ifsr stored_crc crc_ok =
     [''[POSTMORTEM DECODED]'',
      ''  exception : '' @ exc_name exc_type @ '' ('' @ fmt_dec (unat exc_type) @ '')'',
      ''  cpsr      : '' @ fmt_addr cpsr @ ''  mode='' @ cpsr_mode cpsr,
      ''  pc        : '' @ fmt_addr pc @ symbol_note addr2line elf pc,
      ''  lr        : '' @ fmt_addr lr_raw @ symbol_note addr2line elf lr_raw]
     @ map register_line (enumerate 0 r)
     @ [''  dfsr      : '' @ fmt_addr dfsr,
        ''  dfar      : '' @ fmt_addr dfar,
        ''  ifsr      : '' @ fmt_addr ifsr,
        ''  crc32     : '' @ fmt_addr stored_crc @ ''  ''
          @ (if crc_ok then ''OK'' else ''BAD (record may be corrupt)'')]"

text \<open>The lines on standard output, those on standard error, and the result.\<close>

definition try_parse_and_print :: "(string \<Rightarrow> u32 \<Rightarrow> string option) \<Rightarrow> string option \<Rightarrow> bytes \<Rightarrow>
    string list \<times> string list \<times> bool" where
  "try_parse_and_print addr2line elf buf =
     (if length buf < record_size then ([], [], False)
      else if le32 buf off_magic \<noteq> pm_magic then ([], [], False)
      else if le32 buf off_version \<noteq> pm_version then
        ([], [''pm_decode: unsupported record version '' @ fmt_dec (unat (le32 buf off_version))], False)
      else let stored_crc = le32 buf off_crc32;
               crc_ok = (crc32 (take off_crc32 buf) = stored_crc)
      in (report addr2line elf (le32 buf off_exc_type) (le32 buf off_cpsr) (le32 buf off_pc)
            (le32 buf off_lr_raw) (map (\<lambda>i. le32 buf (off_r + i * 4)) [0..<13]) (le32 buf off_dfsr)
            (le32 buf off_dfar) (le32 buf off_ifsr) stored_crc crc_ok, [], crc_ok))"

function pm_scan :: "(string \<Rightarrow> u32 \<Rightarrow> string option) \<Rightarrow> string option \<Rightarrow> bytes \<Rightarrow> nat \<Rightarrow>
    string list \<times> string list \<times> bool" where
  "pm_scan addr2line elf buf offset =
     (if offset + record_size \<le> length buf then
        let (out, err, ok) = (if le32 buf offset = pm_magic
              then try_parse_and_print addr2line elf (drop offset buf) else ([], [], False))
        in if ok then (out, err, True)
           else case pm_scan addr2line elf buf (offset + 4) of
             (out', err', found) \<Rightarrow> (out @ out', err @ err', found)
      else ([], [], False))"
  by pat_completeness auto
termination
  by (relation "measure (\<lambda>(a, e, buf, offset). length buf - offset)") (auto simp: record_size_def)

declare pm_scan.simps [simp del]

text \<open>\<open>main\<close>: the exit code behind the output.\<close>

definition pm_main :: "(string \<Rightarrow> u32 \<Rightarrow> string option) \<Rightarrow> string option \<Rightarrow> bytes \<Rightarrow>
    string list \<times> string list \<times> nat" where
  "pm_main addr2line elf buf =
     (case pm_scan addr2line elf buf 0 of
        (out, err, True) \<Rightarrow> (out, err, 0)
      | (out, err, False) \<Rightarrow> (out, err @ [''pm_decode: no valid postmortem record found in input''], 1))"

text \<open>The arguments: the input path and the path behind \<open>--elf\<close>, or the unknown option.\<close>

fun pm_args :: "string option \<Rightarrow> string option \<Rightarrow> string list \<Rightarrow> string + string option \<times> string option" where
  "pm_args input elf [] = Inr (input, elf)"
| "pm_args input elf (a # rest) =
     (if a = ''--elf'' then
        (case rest of [] \<Rightarrow> Inr (input, elf) | path # rest' \<Rightarrow> pm_args input (Some path) rest')
      else if \<not> (a \<noteq> [] \<and> hd a = CHR ''-'') then pm_args (Some a) elf rest
      else Inl a)"

section \<open>The checksum\<close>

text \<open>
  The loop is a shift register on the sum with the byte added at once; four bytes are one word added
  at once; and the shift register is injective. So no change of one word goes unnoticed.
\<close>

definition crc_shift :: "u32 \<Rightarrow> u32" where
  "crc_shift x = (if x AND 1 \<noteq> 0 then drop_bit 1 x XOR 0xEDB88320 else drop_bit 1 x)"

lemma crc_bit_shift:
  "fst (crc_bit st) XOR ucast (snd (crc_bit st)) = crc_shift (fst st XOR ucast (snd st))"
proof -
  have d: "(ucast (drop_bit n b) :: u32) = drop_bit n (ucast b)" for b :: u8 and n
    by (rule bit_word_eqI) (auto simp: bit_ucast_iff bit_drop_bit_eq dest: bit_imp_le_length)
  show ?thesis
    by (cases st) (simp add: crc_bit_def crc_shift_def d drop_bit_xor ac_simps)
qed

lemma crc_bits_shift:
  "fst ((crc_bit ^^ n) st) XOR ucast (snd ((crc_bit ^^ n) st)) = (crc_shift ^^ n) (fst st XOR ucast (snd st))"
  by (induction n) (simp_all add: crc_bit_shift)

lemma snd_crc_bits: "snd ((crc_bit ^^ n) st) = drop_bit n (snd st)"
  by (induction n) (simp_all add: crc_bit_def case_prod_unfold)

lemma crc_byte_shift: "crc_byte crc b = (crc_shift ^^ 8) (crc XOR ucast b)"
proof -
  have "drop_bit 8 b = 0"
    by (rule bit_word_eqI) (auto simp: bit_drop_bit_eq dest: bit_imp_le_length)
  then show ?thesis
    using crc_bits_shift [of 8 "(crc, b)"] by (simp add: crc_byte_def snd_crc_bits)
qed

lemma crc_shift_push:
  assumes "\<not> bit z 31"
  shows "crc_shift (x XOR push_bit 1 z) = crc_shift x XOR z"
proof -
  have "(x XOR push_bit 1 z) AND 1 = x AND 1"
    by (rule bit_word_eqI)
      (auto simp: bit_and_iff bit_xor_iff bit_push_bit_iff bit_1_iff simp del: push_bit_Suc One_nat_def)
  moreover have "drop_bit 1 (push_bit 1 z) = z"
  proof (rule bit_word_eqI)
    fix n assume "n < LENGTH(32)"
    then show "bit (drop_bit 1 (push_bit 1 z)) n = bit z n"
      using assms by (cases "n = 31") (auto simp: bit_drop_bit_eq bit_push_bit_iff simp del: push_bit_Suc)
  qed
  ultimately show ?thesis by (simp only: crc_shift_def drop_bit_xor) (simp add: ac_simps)
qed

lemma crc_shifts_push:
  "k \<le> 8 \<Longrightarrow> (\<And>i. 24 \<le> i \<Longrightarrow> \<not> bit z i) \<Longrightarrow>
   (crc_shift ^^ k) (x XOR push_bit k z) = (crc_shift ^^ k) x XOR z"
proof (induction k arbitrary: x)
  case (Suc k)
  let ?z = "push_bit k z"
  have "push_bit (Suc k) z = push_bit 1 ?z" by simp
  moreover have "\<not> bit ?z 31" using Suc.prems by (simp add: bit_push_bit_iff)
  ultimately have "crc_shift (x XOR push_bit (Suc k) z) = crc_shift x XOR ?z"
    using crc_shift_push [of ?z x] by argo
  then show ?case
    using Suc.IH [of "crc_shift x"] Suc.prems by (simp only: funpow_Suc_right o_apply) simp
qed simp

lemma crc_shift_inj: "crc_shift x = crc_shift y \<Longrightarrow> x = y"
proof -
  assume eq: "crc_shift x = crc_shift y"
  have beyond: "\<not> bit v 32" for v :: u32 by (auto dest: bit_imp_le_length)
  have top: "bit (crc_shift v) 31 = bit v 0" for v
    using beyond [of v] by (simp add: crc_shift_def bit_xor_iff bit_drop_bit_eq and_one_eq odd_iff_mod_2_eq_one bit_0)
  have rest: "bit (crc_shift v) i = (bit v (Suc i) \<noteq> (bit v 0 \<and> bit (0xEDB88320 :: u32) i))" if "i < 31" for v i
    using that by (auto simp: crc_shift_def bit_xor_iff bit_drop_bit_eq and_one_eq odd_iff_mod_2_eq_one bit_0)
  show "x = y"
  proof (rule bit_word_eqI)
    fix n assume n: "n < LENGTH(32)"
    have zero: "bit x 0 = bit y 0" using top [of x] top [of y] eq by simp
    show "bit x n = bit y n"
    proof (cases n)
      case 0
      then show ?thesis using zero by simp
    next
      case (Suc i)
      then show ?thesis using n zero rest [of i x] rest [of i y] eq by auto
    qed
  qed
qed

lemma crc_shifts_inj: "(crc_shift ^^ n) x = (crc_shift ^^ n) y \<Longrightarrow> x = y"
  by (induction n) (auto dest: crc_shift_inj)

lemma xor_cancel: "(a XOR c = b XOR c) = (a = b)" "(c XOR a = c XOR b) = (a = b)" for a :: u32
  by (auto simp: bit_eq_iff bit_xor_iff)

lemma crc_bytes_shift:
  "length bs \<le> 4 \<Longrightarrow> foldl crc_byte s bs = (crc_shift ^^ (8 * length bs)) (s XOR from_le bs)"
proof (induction bs arbitrary: s)
  case (Cons b bs)
  let ?x = "s XOR ucast b" and ?l = "from_le bs :: u32"
  have "unat ?l < 2 ^ 24"
    using unat_from_le_less [of bs, where 'a = 32] Cons.prems
      power_increasing [of "8 * length bs" 24 "2 :: nat"] by simp
  then have "take_bit 24 ?l = ?l"
    by (simp add: word_unat_eq_iff unsigned_take_bit_eq take_bit_nat_eq_self)
  then have high: "\<not> bit ?l i" if "24 \<le> i" for i
    using that by (metis bit_take_bit_iff not_less)
  have "foldl crc_byte s (b # bs) = (crc_shift ^^ (8 * length bs)) ((crc_shift ^^ 8) ?x XOR ?l)"
    using Cons.IH [of "(crc_shift ^^ 8) ?x"] Cons.prems by (simp add: crc_byte_shift [of s])
  also have "(crc_shift ^^ 8) ?x XOR ?l = (crc_shift ^^ 8) (?x XOR push_bit 8 ?l)"
    using crc_shifts_push [of 8 ?l ?x] high by simp
  also have "?x XOR push_bit 8 ?l = s XOR from_le (b # bs)"
  proof -
    have "from_le (b # bs) = ucast b XOR push_bit 8 ?l"
      by (rule bit_word_eqI)
        (auto simp: from_le_Cons bit_or_iff bit_xor_iff bit_push_bit_iff bit_ucast_iff dest: bit_imp_le_length)
    then show ?thesis by (simp add: ac_simps)
  qed
  finally show ?case
    by (simp only: foldl_Cons [symmetric] list.size add_Suc_right add_0_right mult_Suc_right add.commute [of 8] funpow_add o_apply)
qed simp

lemma crc_state_inj: "foldl crc_byte s bs = foldl crc_byte s' bs \<Longrightarrow> s = s'"
proof (induction bs arbitrary: s s')
  case (Cons b bs)
  then have "crc_byte s b = crc_byte s' b" by simp
  then have "s XOR ucast b = s' XOR ucast b"
    unfolding crc_byte_shift by (rule crc_shifts_inj)
  then show ?case by (simp only: xor_cancel)
qed simp

lemma crc32_word_change:
  assumes "crc32 (pre @ u32_le v @ post) = crc32 (pre @ u32_le w @ post)"
  shows "v = w"
proof -
  let ?s = "foldl crc_byte 0xFFFFFFFF pre"
  have "foldl crc_byte 0xFFFFFFFF (pre @ u32_le v @ post) = foldl crc_byte 0xFFFFFFFF (pre @ u32_le w @ post)"
    using assms unfolding crc32_def by (simp only: xor_cancel)
  then have "foldl crc_byte ?s (u32_le v) = foldl crc_byte ?s (u32_le w)"
    unfolding foldl_append by (rule crc_state_inj)
  then have "?s XOR from_le (u32_le v) = ?s XOR from_le (u32_le w)"
    by (simp only: crc_bytes_shift length_to_le order_refl) (rule crc_shifts_inj)
  then show ?thesis by (simp add: xor_cancel)
qed

section \<open>Records\<close>

definition words_bytes :: "u32 list \<Rightarrow> bytes" where
  "words_bytes ws = concat (map u32_le ws)"

lemma length_words_bytes [simp]: "length (words_bytes ws) = 4 * length ws"
  by (induction ws) (simp_all add: words_bytes_def)

lemma words_bytes_append: "words_bytes (vs @ ws) = words_bytes vs @ words_bytes ws"
  by (simp add: words_bytes_def)

lemma words_bytes_split:
  "i < length ws \<Longrightarrow> words_bytes ws = words_bytes (take i ws) @ u32_le (ws ! i) @ words_bytes (drop (Suc i) ws)"
  by (subst id_take_nth_drop [of i ws]) (simp_all add: words_bytes_append words_bytes_def)

lemma le32_at: "length pre = offset \<Longrightarrow> le32 (pre @ u32_le w @ post) offset = w"
  by (simp add: le32_def)

lemma le32_words: "i < length ws \<Longrightarrow> le32 (words_bytes ws @ rest) (4 * i) = ws ! i"
proof -
  assume i: "i < length ws"
  have "words_bytes ws @ rest =
      words_bytes (take i ws) @ u32_le (ws ! i) @ (words_bytes (drop (Suc i) ws) @ rest)"
    using words_bytes_split [OF i] by simp
  moreover have "length (words_bytes (take i ws)) = 4 * i" using i by simp
  ultimately show ?thesis by (simp only: le32_at)
qed

lemma bytes_as_words:
  "length bs = 4 * n \<Longrightarrow> \<exists>ws. length ws = n \<and> bs = words_bytes ws"
proof (induction n arbitrary: bs)
  case (Suc n)
  from Suc.IH [of "drop 4 bs"] Suc.prems obtain ws where "length ws = n" "drop 4 bs = words_bytes ws" by auto
  moreover have "u32_le (from_le (take 4 bs)) = take 4 bs" using Suc.prems by simp
  ultimately have "bs = words_bytes (from_le (take 4 bs) # ws)"
    by (metis append_take_drop_id concat.simps(2) list.map(2) words_bytes_def)
  with \<open>length ws = n\<close> show ?case by (intro exI [of _ "from_le (take 4 bs) # ws"]) simp
qed (simp add: words_bytes_def)

text \<open>A record is valid: what \<open>try_parse_and_print\<close> answers.\<close>

definition record_ok :: "bytes \<Rightarrow> bool" where
  "record_ok buf \<longleftrightarrow> record_size \<le> length buf \<and> le32 buf off_magic = pm_magic
     \<and> le32 buf off_version = pm_version \<and> crc32 (take off_crc32 buf) = le32 buf off_crc32"

lemma try_parse_ok: "snd (snd (try_parse_and_print a e buf)) = record_ok buf"
  by (simp add: try_parse_and_print_def record_ok_def Let_def)

lemma record_ok_words:
  assumes "length ws = 23"
  shows "record_ok (words_bytes ws @ rest) \<longleftrightarrow>
    ws ! 0 = pm_magic \<and> ws ! 1 = pm_version \<and> crc32 (words_bytes (take 22 ws)) = ws ! 22"
proof -
  have "take 88 (words_bytes ws @ rest) = words_bytes (take 22 ws)"
    using words_bytes_append [of "take 22 ws" "drop 22 ws"] assms by (simp only: append_take_drop_id) simp
  then show ?thesis
    using le32_words [of 0 ws rest] le32_words [of 1 ws rest] le32_words [of 22 ws rest] assms
    by (simp add: record_ok_def record_size_def off_magic_def off_version_def off_crc32_def)
qed

text \<open>
  A corrupt word is always noticed. When any one of the 23 words of a valid record is
  replaced by another value, wherever it lies -- in the header, the registers or the checksum itself
  -- the result is not a valid record.
\<close>

theorem corrupt_record_rejected:
  assumes "length buf = record_size" and "snd (snd (try_parse_and_print a e buf))"
    and "k < 23" and "w \<noteq> le32 buf (4 * k)"
  shows "\<not> snd (snd (try_parse_and_print a' e' (copy_into buf (4 * k) (u32_le w))))"
proof -
  obtain ws where ws: "length ws = 23" "buf = words_bytes ws"
    using bytes_as_words [of buf 23] assms(1) by (auto simp: record_size_def)
  have old: "ws ! 0 = pm_magic" "ws ! 1 = pm_version" "crc32 (words_bytes (take 22 ws)) = ws ! 22"
    using assms(2) record_ok_words [OF ws(1), of "[]"] by (simp_all add: try_parse_ok ws(2))
  have neq: "w \<noteq> ws ! k" using assms(3,4) le32_words [of k ws "[]"] ws by simp
  have buf': "copy_into buf (4 * k) (u32_le w) = words_bytes (ws[k := w])"
  proof -
    have "buf = words_bytes (take k ws) @ u32_le (ws ! k) @ words_bytes (drop (Suc k) ws)"
      "words_bytes (ws[k := w]) = words_bytes (take k ws) @ u32_le w @ words_bytes (drop (Suc k) ws)"
      using words_bytes_split [of k ws] words_bytes_split [of k "ws[k := w]"] assms(3) ws by simp_all
    moreover have "length (words_bytes (take k ws)) = 4 * k" using assms(3) ws by simp
    ultimately show ?thesis by (simp add: copy_into_def)
  qed
  have "\<not> (ws[k := w] ! 0 = pm_magic \<and> ws[k := w] ! 1 = pm_version
      \<and> crc32 (words_bytes (take 22 (ws[k := w]))) = ws[k := w] ! 22)"
  proof (cases "k = 22")
    case True
    then show ?thesis using old ws neq by simp
  next
    case False
    then have k: "k < 22" using assms(3) by simp
    let ?v = "take 22 ws"
    have "words_bytes (?v[k := w]) = words_bytes (take k ?v) @ u32_le w @ words_bytes (drop (Suc k) ?v)"
      using words_bytes_split [of k "?v[k := w]"] k ws by simp
    moreover have "words_bytes ?v = words_bytes (take k ?v) @ u32_le (ws ! k) @ words_bytes (drop (Suc k) ?v)"
      using words_bytes_split [of k ?v] k ws by simp
    ultimately have "crc32 (words_bytes (?v[k := w])) \<noteq> crc32 (words_bytes ?v)"
      using crc32_word_change neq by metis
    then show ?thesis using old k ws by (simp add: take_update_swap)
  qed
  then show ?thesis
    using record_ok_words [of "ws[k := w]" "[]"] ws(1) unfolding try_parse_ok buf' by simp
qed

definition record_image :: "u32 list \<Rightarrow> bytes" where
  "record_image ws = words_bytes ws @ u32_le (crc32 (words_bytes ws))"

definition record_words :: "u32 \<Rightarrow> u32 \<Rightarrow> u32 \<Rightarrow> u32 \<Rightarrow> u32 list \<Rightarrow> u32 \<Rightarrow> u32 \<Rightarrow> u32 \<Rightarrow> u32 list" where
  "record_words exc_type cpsr pc lr_raw r dfsr dfar ifsr =
     [pm_magic, pm_version, exc_type, cpsr, pc, lr_raw] @ r @ [dfsr, dfar, ifsr]"

lemma record_image_words: "record_image ws = words_bytes (ws @ [crc32 (words_bytes ws)])"
  by (simp add: record_image_def words_bytes_append) (simp add: words_bytes_def)

lemma try_parse_record:
  assumes "length r = 13"
  shows "try_parse_and_print a e (record_image (record_words x c p l r ds da i) @ rest) =
    (report a e x c p l r ds da i (crc32 (words_bytes (record_words x c p l r ds da i))) True, [], True)"
proof -
  define ws where "ws = record_words x c p l r ds da i"
  define buf where "buf = record_image ws @ rest"
  have len: "length ws = 22" using assms by (simp add: ws_def record_words_def)
  have at: "le32 buf (4 * k) = (ws @ [crc32 (words_bytes ws)]) ! k" if "k < 23" for k
    unfolding buf_def record_image_words using that len by (intro le32_words) simp
  have head: "le32 buf 0 = pm_magic" "le32 buf 4 = pm_version" "le32 buf 8 = x" "le32 buf 12 = c"
    "le32 buf 16 = p" "le32 buf 20 = l"
    using at [of 0] at [of 1] at [of 2] at [of 3] at [of 4] at [of 5] by (simp_all add: ws_def record_words_def)
  have tail: "le32 buf 76 = ds" "le32 buf 80 = da" "le32 buf 84 = i" "le32 buf 88 = crc32 (words_bytes ws)"
    using at [of 19] at [of 20] at [of 21] at [of 22] assms len
    by (simp_all add: ws_def record_words_def nth_append)
  have "le32 buf (24 + j * 4) = r ! j" if "j < 13" for j
    using at [of "6 + j"] that assms by (simp add: ws_def record_words_def nth_append algebra_simps)
  then have regs: "map (\<lambda>j. le32 buf (24 + j * 4)) [0..<13] = r"
    using assms by (intro nth_equalityI) simp_all
  have crc: "take 88 buf = words_bytes ws" using len by (simp add: buf_def record_image_def)
  have size: "record_size \<le> length buf" using len by (simp add: buf_def record_image_def record_size_def)
  show ?thesis
    unfolding ws_def [symmetric] buf_def [symmetric] try_parse_and_print_def
    using size head tail regs crc
    by (simp add: Let_def off_magic_def off_version_def off_exc_type_def off_cpsr_def off_pc_def
        off_lr_raw_def off_r_def off_dfsr_def off_dfar_def off_ifsr_def off_crc32_def del: upt_rec)
qed

lemma pm_scan_skip:
  assumes "offset + record_size \<le> length buf" "le32 buf offset \<noteq> pm_magic"
  shows "pm_scan a e buf offset = pm_scan a e buf (offset + 4)"
  using assms by (subst pm_scan.simps) (simp split: prod.splits)

lemma pm_scan_padding:
  assumes "list_all (\<lambda>w. w \<noteq> pm_magic) ws" "record_size \<le> length buf"
  shows "pm_scan a e (words_bytes (pre @ ws) @ buf) (4 * length pre) =
    pm_scan a e (words_bytes (pre @ ws) @ buf) (4 * length (pre @ ws))"
  using assms(1)
proof (induction ws arbitrary: pre)
  case (Cons w ws)
  let ?buf = "words_bytes (pre @ w # ws) @ buf"
  have "le32 ?buf (4 * length pre) = w"
    using le32_words [of "length pre" "pre @ w # ws" buf] by simp
  then have "pm_scan a e ?buf (4 * length pre) = pm_scan a e ?buf (4 * length pre + 4)"
    using Cons.prems assms(2) by (intro pm_scan_skip) simp_all
  then show ?case using Cons.IH [of "pre @ [w]"] Cons.prems by (simp add: algebra_simps)
qed simp

text \<open>
  A record is found and reported. In a dump, a valid record behind any aligned padding
  that does not contain the magic word, with anything behind it, is found, and the report has
  exactly its fields: the exception and its name, the mode, the addresses, the thirteen registers
  in order and the fault status words; the exit code is zero.
\<close>

lemma pm_main_reports_record:
  assumes "length r = 13" and "list_all (\<lambda>w. w \<noteq> pm_magic) padding"
  shows "pm_main addr2line elf
      (words_bytes padding @ record_image (record_words exc_type cpsr pc lr_raw r dfsr dfar ifsr) @ rest) =
    (report addr2line elf exc_type cpsr pc lr_raw r dfsr dfar ifsr
       (crc32 (words_bytes (record_words exc_type cpsr pc lr_raw r dfsr dfar ifsr))) True, [], 0)"
proof -
  let ?rec = "record_image (record_words exc_type cpsr pc lr_raw r dfsr dfar ifsr) @ rest"
  let ?buf = "words_bytes padding @ ?rec"
  have size: "record_size \<le> length ?rec"
    using assms(1) by (simp add: record_image_def record_words_def record_size_def)
  have "pm_scan addr2line elf ?buf 0 = pm_scan addr2line elf ?buf (4 * length padding)"
    using pm_scan_padding [OF assms(2) size, of addr2line elf "[]"] by simp
  moreover have "le32 ?buf (4 * length padding) = pm_magic"
    using le32_words [of "length padding" "padding @ record_words exc_type cpsr pc lr_raw r dfsr dfar ifsr" _]
    by (simp add: record_image_def words_bytes_append) (simp add: nth_append record_words_def)
  moreover have "drop (4 * length padding) ?buf = ?rec" by simp
  ultimately have "pm_scan addr2line elf ?buf 0 = (report addr2line elf exc_type cpsr pc lr_raw r dfsr dfar ifsr
       (crc32 (words_bytes (record_words exc_type cpsr pc lr_raw r dfsr dfar ifsr))) True, [], True)"
    using size try_parse_record [OF assms(1)]
    by (subst (asm) (2) pm_scan.simps) simp
  then show ?thesis by (simp add: pm_main_def)
qed

theorem corrupt_record_rejected_witness:
  "\<not> snd (snd (try_parse_and_print (\<lambda>_ _. None) None
      (copy_into (record_image (record_words 2 0x13 0x140 0x144 (replicate 13 0x11) 0 0 7)) (4 * 4) (u32_le 0x141))))"
proof -
  let ?buf = "record_image (record_words 2 0x13 0x140 0x144 (replicate 13 0x11) 0 0 7)"
  have "length ?buf = record_size"
    by (simp add: record_image_def record_words_def record_size_def)
  moreover have "snd (snd (try_parse_and_print (\<lambda>_ _. None) None ?buf))"
    using try_parse_record [of "replicate 13 0x11" "\<lambda>_ _. None" None 2 "0x13" "0x140" "0x144" 0 0 7 "[]"] by simp
  moreover have "0x141 \<noteq> le32 ?buf (4 * 4)"
    using le32_words [of 4 "record_words 2 0x13 0x140 0x144 (replicate 13 0x11) 0 0 7"]
    by (simp add: record_image_def record_words_def)
  ultimately show ?thesis
    using corrupt_record_rejected [of ?buf "\<lambda>_ _. None" None 4 "0x141" "\<lambda>_ _. None" None] by simp
qed

text \<open>The test vector of the sources.\<close>

lemma crc32_known: "crc32 (map (\<lambda>c. of_char c) ''123456789'') = 0xCBF43926"
  by code_simp

end
