(* ===== verification/Postmortem.thy ===== *)
theory Postmortem
  imports PmDecode
begin

text \<open>
  The on-target half of the postmortem path: the exception stub of \<open>sdk/bsp/rpu/startup_pm.S\<close>, the
  record and its seal, and the printer of \<open>sdk/bsp/rpu/postmortem.c\<close>. What the stub stores is what the
  host decoder of \<open>PmDecode\<close> reports.
\<close>

section \<open>The record and its checksum\<close>

definition PM_EXC_UNDEF :: u32 where "PM_EXC_UNDEF = 1"
definition PM_EXC_PREFETCH :: u32 where "PM_EXC_PREFETCH = 2"
definition PM_EXC_DABT :: u32 where "PM_EXC_DABT = 3"
definition PM_MAGIC :: u32 where "PM_MAGIC = 0x504D0001"
definition PM_VERSION :: u32 where "PM_VERSION = 1"

record pm_record =
  rec_magic :: u32
  rec_version :: u32
  rec_exc_type :: u32
  rec_cpsr :: u32
  rec_pc :: u32
  rec_lr_raw :: u32
  rec_r :: "u32 list"
  rec_dfsr :: u32
  rec_dfar :: u32
  rec_ifsr :: u32
  rec_crc32 :: u32

text \<open>The structure in memory, and \<open>offsetof(pm_record_t, crc32)\<close>.\<close>

definition pm_record_memory :: "pm_record \<Rightarrow> bytes" where
  "pm_record_memory r = concat (map u32_le
     ([rec_magic r, rec_version r, rec_exc_type r, rec_cpsr r, rec_pc r, rec_lr_raw r] @ rec_r r
      @ [rec_dfsr r, rec_dfar r, rec_ifsr r, rec_crc32 r]))"

definition offsetof_crc32 :: nat where
  "offsetof_crc32 = 4 * (6 + 13 + 3)"

fun crc32_bits :: "nat \<Rightarrow> u32 \<Rightarrow> u8 \<Rightarrow> u32" where
  "crc32_bits 0 crc b = crc"
| "crc32_bits (Suc i) crc b =
     crc32_bits i (if (crc XOR ucast b) AND 1 \<noteq> 0 then drop_bit 1 crc XOR 0xEDB88320 else drop_bit 1 crc)
       (drop_bit 1 b)"

fun crc32_bytes :: "bytes \<Rightarrow> nat \<Rightarrow> nat \<Rightarrow> u32 \<Rightarrow> u32" where
  "crc32_bytes buf p 0 crc = crc"
| "crc32_bytes buf p (Suc len) crc = crc32_bytes buf (p + 1) len (crc32_bits 8 crc (buf ! p))"

definition crc32_compute :: "bytes \<Rightarrow> nat \<Rightarrow> u32" where
  "crc32_compute buf len = crc32_bytes buf 0 len 0xFFFFFFFF XOR 0xFFFFFFFF"

section \<open>Saving\<close>

definition lr_to_pc_offset :: "u32 \<Rightarrow> u32" where
  "lr_to_pc_offset exc_type = (if exc_type = PM_EXC_DABT then 8 else 4)"

text \<open>The processor when the stub starts: the registers that are not banked, and those of the exception mode.\<close>

record cpu =
  cpu_r :: "u32 list"
  cpu_lr :: u32
  cpu_spsr :: u32
  cp15_dfsr :: u32
  cp15_dfar :: u32
  cp15_ifsr :: u32

definition pm_save_from_exc :: "cpu \<Rightarrow> u32 \<Rightarrow> u32 \<Rightarrow> u32 \<Rightarrow> u32 list \<Rightarrow> pm_record \<Rightarrow> pm_record" where
  "pm_save_from_exc c exc_type spsr lr_exc frame old =
     (let r = old\<lparr>rec_magic := PM_MAGIC, rec_version := PM_VERSION, rec_exc_type := exc_type,
                  rec_cpsr := spsr, rec_lr_raw := lr_exc,
                  rec_pc := lr_exc - lr_to_pc_offset exc_type,
                  rec_r := map (\<lambda>i. frame ! i) [0..<13],
                  rec_dfsr := cp15_dfsr c, rec_dfar := cp15_dfar c, rec_ifsr := cp15_ifsr c\<rparr>
      in r\<lparr>rec_crc32 := crc32_compute (pm_record_memory r) offsetof_crc32\<rparr>)"

text \<open>The three vectors that the stub serves, and the stub up to the call of \<open>pm_on_exception\<close>.\<close>

datatype pm_vector = UndefVector | PrefetchVector | DabtVector

definition vector_exc_type :: "pm_vector \<Rightarrow> u32" where
  "vector_exc_type v = (case v of UndefVector \<Rightarrow> PM_EXC_UNDEF | PrefetchVector \<Rightarrow> PM_EXC_PREFETCH
     | DabtVector \<Rightarrow> PM_EXC_DABT)"

definition pm_exc_handler :: "pm_vector \<Rightarrow> cpu \<Rightarrow> pm_record \<Rightarrow> pm_record" where
  "pm_exc_handler v c old =
     (let frame = cpu_r c in pm_save_from_exc c (vector_exc_type v) (cpu_spsr c) (cpu_lr c) frame old)"

section \<open>Printing\<close>

definition pm_hex :: string where "pm_hex = ''0123456789abcdef''"

fun hex_fill :: "nat \<Rightarrow> string \<Rightarrow> u32 \<Rightarrow> string" where
  "hex_fill 0 buf v = buf"
| "hex_fill (Suc k) buf v = hex_fill k (buf[k + 2 := pm_hex ! unat (v AND 0xF)]) (drop_bit 4 v)"

text \<open>The buffer up to its terminating zero is what \<open>uart_print\<close> sends.\<close>

definition c_str :: "string \<Rightarrow> string" where
  "c_str buf = takeWhile (\<lambda>c. c \<noteq> char_of (0 :: nat)) buf"

definition print_hex32 :: "u32 \<Rightarrow> string" where
  "print_hex32 v =
     (let buf = (replicate 11 (char_of (0 :: nat)))[0 := CHR ''0'', 1 := CHR ''x''];
          buf = hex_fill 8 buf v
      in c_str (buf[10 := char_of (0 :: nat)]))"

definition pm_exc_name :: "u32 \<Rightarrow> string" where
  "pm_exc_name t =
     (if t = PM_EXC_UNDEF then ''undef'' else if t = PM_EXC_PREFETCH then ''prefetch''
      else if t = PM_EXC_DABT then ''data-abort'' else ''reserved'')"

definition crlf :: string where "crlf = [char_of (13 :: nat), char_of (10 :: nat)]"

text \<open>What goes to the UART, and the record afterwards.\<close>

definition pm_print :: "pm_record \<Rightarrow> string \<times> pm_record" where
  "pm_print r =
     (if rec_magic r \<noteq> PM_MAGIC then ([], r)
      else
        let crc = crc32_compute (pm_record_memory r) offsetof_crc32;
            crc_tag = (if crc = rec_crc32 r then ''OK'' else ''BAD'')
        in (''[POSTMORTEM] exc='' @ pm_exc_name (rec_exc_type r) @ '' pc='' @ print_hex32 (rec_pc r)
              @ '' lr='' @ print_hex32 (rec_lr_raw r) @ '' cpsr='' @ print_hex32 (rec_cpsr r)
              @ '' crc='' @ crc_tag @ crlf
            @ ''[POSTMORTEM] r0='' @ print_hex32 (rec_r r ! 0) @ '' r1='' @ print_hex32 (rec_r r ! 1)
              @ '' r2='' @ print_hex32 (rec_r r ! 2) @ '' r3='' @ print_hex32 (rec_r r ! 3) @ crlf
            @ ''[POSTMORTEM] r4='' @ print_hex32 (rec_r r ! 4) @ '' r5='' @ print_hex32 (rec_r r ! 5)
              @ '' r6='' @ print_hex32 (rec_r r ! 6) @ '' r7='' @ print_hex32 (rec_r r ! 7) @ crlf
            @ ''[POSTMORTEM] r8='' @ print_hex32 (rec_r r ! 8) @ '' r9='' @ print_hex32 (rec_r r ! 9)
              @ '' r10='' @ print_hex32 (rec_r r ! 10) @ '' r11='' @ print_hex32 (rec_r r ! 11)
              @ '' r12='' @ print_hex32 (rec_r r ! 12) @ crlf
            @ ''[POSTMORTEM] dfsr='' @ print_hex32 (rec_dfsr r) @ '' dfar='' @ print_hex32 (rec_dfar r)
              @ '' ifsr='' @ print_hex32 (rec_ifsr r) @ crlf,
            r\<lparr>rec_magic := 0\<rparr>))"

text \<open>The default \<open>pm_on_exception\<close> prints and stays in its loop; the record is what a dump then finds.\<close>

definition pm_on_exception :: "pm_record \<Rightarrow> string \<times> pm_record" where
  "pm_on_exception r = pm_print r"

section \<open>Target and host agree\<close>

lemma crc32_bits_crc_bit: "crc32_bits n crc b = fst ((crc_bit ^^ n) (crc, b))"
  by (induction n arbitrary: crc b) (simp_all add: crc_bit_def funpow_swap1 del: funpow.simps(2) add: funpow_Suc_right)

lemma crc32_bytes_fold:
  "p + len \<le> length buf \<Longrightarrow> crc32_bytes buf p len crc = foldl crc_byte crc (slice_of p (p + len) buf)"
proof (induction len arbitrary: p crc)
  case (Suc len)
  then have "slice_of p (p + Suc len) buf = buf ! p # slice_of (p + 1) (p + 1 + len) buf"
    by (simp add: slice_of_def Cons_nth_drop_Suc [symmetric])
  with Suc show ?case by (simp add: crc32_bits_crc_bit crc_byte_def)
qed (simp add: slice_of_def)

lemma crc32_compute_crc32: "len \<le> length buf \<Longrightarrow> crc32_compute buf len = crc32 (take len buf)"
  using crc32_bytes_fold [of 0 len buf] by (simp add: crc32_compute_def crc32_def slice_of_def)

definition pm_words :: "pm_record \<Rightarrow> u32 list" where
  "pm_words r = [rec_magic r, rec_version r, rec_exc_type r, rec_cpsr r, rec_pc r, rec_lr_raw r] @ rec_r r
     @ [rec_dfsr r, rec_dfar r, rec_ifsr r]"

lemma pm_record_memory_words: "pm_record_memory r = words_bytes (pm_words r @ [rec_crc32 r])"
  by (simp add: pm_record_memory_def pm_words_def words_bytes_def)

lemma pm_record_crc:
  assumes "length (rec_r r) = 13"
  shows "crc32_compute (pm_record_memory r) offsetof_crc32 = crc32 (words_bytes (pm_words r))"
proof -
  have len: "length (words_bytes (pm_words r)) = offsetof_crc32"
    using assms by (simp add: pm_words_def offsetof_crc32_def)
  then show ?thesis
    by (simp add: crc32_compute_crc32 pm_record_memory_words words_bytes_append)
qed

lemma pm_words_crc [simp]: "pm_words (r\<lparr>rec_crc32 := c\<rparr>) = pm_words r"
  by (simp add: pm_words_def)

lemma pm_exc_handler_image:
  assumes "length (cpu_r c) = 13"
  shows "pm_record_memory (pm_exc_handler v c old) =
    record_image (record_words (vector_exc_type v) (cpu_spsr c) (cpu_lr c - lr_to_pc_offset (vector_exc_type v))
      (cpu_lr c) (cpu_r c) (cp15_dfsr c) (cp15_dfar c) (cp15_ifsr c))"
    (is "_ = record_image ?ws")
proof -
  have frame: "map (\<lambda>i. cpu_r c ! i) [0..<13] = cpu_r c"
    using assms map_nth [of "cpu_r c"] by simp
  have words: "pm_words (pm_exc_handler v c old) = ?ws"
    by (simp add: pm_words_def pm_exc_handler_def pm_save_from_exc_def Let_def record_words_def frame
        PM_MAGIC_def PM_VERSION_def pm_magic_def pm_version_def del: upt_rec_numeral)
  moreover have "rec_crc32 (pm_exc_handler v c old) = crc32 (words_bytes (pm_words (pm_exc_handler v c old)))"
    by (simp add: pm_exc_handler_def pm_save_from_exc_def Let_def pm_record_crc)
  ultimately show ?thesis by (simp add: pm_record_memory_words record_image_words)
qed


text \<open>Eight digits by shifting are the host's eight padded digits.\<close>

lemma digit_char_0: "digit_char 0 = CHR ''0''"
  by code_simp

lemma pad0_radix_16:
  assumes "n < 16 ^ Suc (Suc w)"
  shows "pad0 (Suc (Suc w)) (radix_digits 16 n) = pad0 (Suc w) (radix_digits 16 (n div 16)) @ [digit_char (n mod 16)]"
proof (cases "n < 16")
  case True
  then show ?thesis by (simp add: radix_digits.simps [of 16] pad0_def digit_char_0 replicate_append_same [symmetric])
next
  case False
  then show ?thesis by (subst radix_digits.simps) (simp add: pad0_def)
qed

lemma pm_hex_digit: "d < 16 \<Longrightarrow> pm_hex ! d = digit_char d"
proof -
  have "\<forall>d < 16. pm_hex ! d = digit_char d" by code_simp
  then show "d < 16 \<Longrightarrow> ?thesis" by blast
qed

lemma unat_low_digit: "unat (v AND 0xF) = unat (v :: u32) mod 16"
proof -
  have "v AND 0xF = take_bit 4 v" by (simp add: take_bit_eq_mask mask_eq_exp_minus_1)
  then have "unat (v AND 0xF) = take_bit 4 (unat v)" by (simp only: unsigned_take_bit_eq)
  then show ?thesis by (simp add: take_bit_eq_mod)
qed

lemma fmt_hex_step:
  "n < 16 ^ Suc (Suc k) \<Longrightarrow> fmt_hex (Suc (Suc k)) n = fmt_hex (Suc k) (n div 16) @ [digit_char (n mod 16)]"
  unfolding fmt_hex_def by (rule pad0_radix_16)

lemma fmt_hex_digit: "n < 16 \<Longrightarrow> fmt_hex (Suc 0) n = [digit_char n]"
  by (simp add: fmt_hex_def pad0_def radix_digits.simps [of 16])

lemma drop_updated: "m < length xs \<Longrightarrow> drop m (xs[m := c]) = c # drop (Suc m) xs"
  by (simp add: upd_conv_take_nth_drop)

lemma hex_fill_fmt:
  "unat v < 16 ^ Suc k \<Longrightarrow> k + 3 \<le> length buf \<Longrightarrow>
   hex_fill (Suc k) buf v = take 2 buf @ fmt_hex (Suc k) (unat v) @ drop (k + 3) buf"
proof (induction k arbitrary: v buf)
  case 0
  have "buf[Suc (Suc 0) := c] = take 2 buf @ c # drop 3 buf" for c
    using 0 by (simp add: upd_conv_take_nth_drop numeral_2_eq_2 numeral_3_eq_3)
  with 0 show ?case by (simp add: unat_low_digit pm_hex_digit fmt_hex_digit)
next
  case (Suc k)
  let ?buf = "buf[Suc k + 2 := digit_char (unat v mod 16)]"
  have div: "unat (drop_bit 4 v) = unat v div 16" by (simp add: unat_drop_bit_div)
  have three: "Suc k + 2 = k + 3" by simp
  have "hex_fill (Suc (Suc k)) buf v = hex_fill (Suc k) ?buf (drop_bit 4 v)"
    by (subst hex_fill.simps(2)) (simp only: unat_low_digit pm_hex_digit mod_less_divisor zero_less_numeral)
  also have "\<dots> = take 2 ?buf @ fmt_hex (Suc k) (unat v div 16) @ drop (k + 3) ?buf"
    using Suc.prems by (subst Suc.IH) (simp_all add: div)
  also have "take 2 ?buf = take 2 buf" by simp
  also have "drop (k + 3) ?buf = digit_char (unat v mod 16) # drop (Suc k + 3) buf"
    unfolding three using Suc.prems drop_updated [of "k + 3" buf] by simp
  finally show ?case using Suc.prems by (simp add: fmt_hex_step del: hex_fill.simps)
qed

text \<open>A word has eight digits, none of which ends the string.\<close>

lemma set_fmt_hex: "c \<in> set (fmt_hex w n) \<Longrightarrow> \<exists>d < 16. c = digit_char d"
proof -
  have "c \<in> set (radix_digits 16 n) \<Longrightarrow> \<exists>d < 16. c = digit_char d"
  proof (induction "16 :: nat" n rule: radix_digits.induct)
    case (1 n)
    then show ?case by (subst (asm) radix_digits.simps) (auto split: if_splits intro: exI [of _ "n mod 16"])
  qed
  then show "c \<in> set (fmt_hex w n) \<Longrightarrow> ?thesis"
    by (auto simp: fmt_hex_def pad0_def digit_char_0 [symmetric] intro: exI [of _ 0])
qed

lemma length_fmt_hex: "n < 16 ^ Suc w \<Longrightarrow> length (fmt_hex (Suc w) n) = Suc w"
  by (induction w arbitrary: n) (simp_all add: fmt_hex_digit fmt_hex_step)

lemma digit_char_not_nul: "d < 16 \<Longrightarrow> digit_char d \<noteq> char_of (0 :: nat)"
proof
  assume "d < 16" "digit_char d = char_of (0 :: nat)"
  then have "of_char (digit_char d) = (of_char (char_of (0 :: nat)) :: nat)" by simp
  with \<open>d < 16\<close> show False
    by (simp only: digit_char_def split: if_splits) (simp_all add: of_char_of)
qed

lemma print_hex32_fmt_addr: "print_hex32 v = fmt_addr v"
proof -
  let ?nul = "char_of (0 :: nat)" and ?h = "fmt_hex 8 (unat v)"
  have eight: "Suc 7 = 8" by simp
  have bound: "unat v < 16 ^ Suc 7" using unat_u32_less [of v] by simp
  have "hex_fill 8 ((replicate 11 ?nul)[0 := CHR ''0'', 1 := CHR ''x'']) v = ''0x'' @ ?h @ [?nul]"
    using hex_fill_fmt [OF bound, of "(replicate 11 ?nul)[0 := CHR ''0'', 1 := CHR ''x'']"]
    unfolding eight by (simp add: numeral_eq_Suc)
  moreover have "(''0x'' @ ?h @ [?nul])[10 := ?nul] = ''0x'' @ ?h @ [?nul]"
    using length_fmt_hex [OF bound] unfolding eight by (simp add: list_update_append numeral_eq_Suc)
  moreover have "takeWhile (\<lambda>c. c \<noteq> ?nul) (?h @ [?nul]) = ?h"
    by (subst takeWhile_append2) (auto dest!: set_fmt_hex simp: digit_char_not_nul)
  moreover have "CHR ''0'' \<noteq> ?nul" "CHR ''x'' \<noteq> ?nul" by code_simp+
  ultimately show ?thesis
    by (simp add: print_hex32_def c_str_def fmt_addr_def fmt_0x_def)
qed

section \<open>Properties\<close>

text \<open>The lines of the printer, for a record that carries the magic word.\<close>

definition pm_lines :: "u32 \<Rightarrow> u32 \<Rightarrow> u32 \<Rightarrow> u32 \<Rightarrow> u32 list \<Rightarrow> u32 \<Rightarrow> u32 \<Rightarrow> u32 \<Rightarrow> bool \<Rightarrow> string list" where
  "pm_lines exc_type cpsr pc lr_raw r dfsr dfar ifsr crc_ok =
     [''[POSTMORTEM]'' @ '' exc='' @ pm_exc_name exc_type @ '' pc='' @ fmt_addr pc @ '' lr='' @ fmt_addr lr_raw
        @ '' cpsr='' @ fmt_addr cpsr @ '' crc='' @ (if crc_ok then ''OK'' else ''BAD''),
      ''[POSTMORTEM]'' @ '' r0='' @ fmt_addr (r ! 0) @ '' r1='' @ fmt_addr (r ! 1) @ '' r2='' @ fmt_addr (r ! 2)
        @ '' r3='' @ fmt_addr (r ! 3),
      ''[POSTMORTEM]'' @ '' r4='' @ fmt_addr (r ! 4) @ '' r5='' @ fmt_addr (r ! 5) @ '' r6='' @ fmt_addr (r ! 6)
        @ '' r7='' @ fmt_addr (r ! 7),
      ''[POSTMORTEM]'' @ '' r8='' @ fmt_addr (r ! 8) @ '' r9='' @ fmt_addr (r ! 9) @ '' r10='' @ fmt_addr (r ! 10)
        @ '' r11='' @ fmt_addr (r ! 11) @ '' r12='' @ fmt_addr (r ! 12),
      ''[POSTMORTEM]'' @ '' dfsr='' @ fmt_addr dfsr @ '' dfar='' @ fmt_addr dfar @ '' ifsr='' @ fmt_addr ifsr]"

lemma pm_print_lines:
  assumes "length (rec_r r) = 13" "rec_magic r = PM_MAGIC"
  shows "pm_print r = (concat (map (\<lambda>l. l @ crlf)
      (pm_lines (rec_exc_type r) (rec_cpsr r) (rec_pc r) (rec_lr_raw r) (rec_r r) (rec_dfsr r) (rec_dfar r)
         (rec_ifsr r) (crc32 (words_bytes (pm_words r)) = rec_crc32 r))), r\<lparr>rec_magic := 0\<rparr>)"
  using assms by (simp add: pm_print_def pm_lines_def print_hex32_fmt_addr pm_record_crc)

lemma pm_exc_handler_fields:
  assumes "length (cpu_r c) = 13"
  shows "rec_magic (pm_exc_handler v c old) = PM_MAGIC" "rec_r (pm_exc_handler v c old) = cpu_r c"
    "pm_words (pm_exc_handler v c old) = record_words (vector_exc_type v) (cpu_spsr c)
      (cpu_lr c - lr_to_pc_offset (vector_exc_type v)) (cpu_lr c) (cpu_r c) (cp15_dfsr c) (cp15_dfar c) (cp15_ifsr c)"
    "rec_crc32 (pm_exc_handler v c old) = crc32 (words_bytes (pm_words (pm_exc_handler v c old)))"
proof -
  show r: "rec_r (pm_exc_handler v c old) = cpu_r c"
    using assms map_nth [of "cpu_r c"] by (simp add: pm_exc_handler_def pm_save_from_exc_def Let_def)
  show "pm_words (pm_exc_handler v c old) = record_words (vector_exc_type v) (cpu_spsr c)
      (cpu_lr c - lr_to_pc_offset (vector_exc_type v)) (cpu_lr c) (cpu_r c) (cp15_dfsr c) (cp15_dfar c) (cp15_ifsr c)"
    using r by (simp add: pm_words_def pm_exc_handler_def pm_save_from_exc_def Let_def record_words_def
        PM_MAGIC_def PM_VERSION_def pm_magic_def pm_version_def)
  show "rec_crc32 (pm_exc_handler v c old) = crc32 (words_bytes (pm_words (pm_exc_handler v c old)))"
    by (simp add: pm_exc_handler_def pm_save_from_exc_def Let_def pm_record_crc)
qed (simp add: pm_exc_handler_def pm_save_from_exc_def Let_def)

text \<open>A dump without the magic word at a word boundary holds no record.\<close>

lemma pm_scan_nothing:
  assumes "list_all (\<lambda>w. w \<noteq> pm_magic) ws"
  shows "pm_scan a e (words_bytes ws) (4 * k) = ([], [], False)"
proof (induction "length ws - k" arbitrary: k rule: less_induct)
  case less
  show ?case
  proof (cases "4 * k + record_size \<le> length (words_bytes ws)")
    case True
    then have k: "k < length ws" by (simp add: record_size_def)
    then have "le32 (words_bytes ws) (4 * k) \<noteq> pm_magic"
      using le32_words [OF k, of "[]"] assms by (simp add: list_all_length)
    moreover have "pm_scan a e (words_bytes ws) (4 * Suc k) = ([], [], False)"
      using less.hyps [of "Suc k"] k by simp
    ultimately show ?thesis using True pm_scan_skip [of "4 * k" "words_bytes ws" a e] by (simp add: add.commute)
  qed (simp add: pm_scan.simps)
qed


definition blank_record :: pm_record where
  "blank_record = \<lparr>rec_magic = 0, rec_version = 0, rec_exc_type = 0, rec_cpsr = 0, rec_pc = 0, rec_lr_raw = 0,
     rec_r = replicate 13 0, rec_dfsr = 0, rec_dfar = 0, rec_ifsr = 0, rec_crc32 = 0\<rparr>"

definition udf_cpu :: cpu where
  "udf_cpu = \<lparr>cpu_r = replicate 13 0x11, cpu_lr = 0xFFFF0068, cpu_spsr = 0x13,
     cp15_dfsr = 0, cp15_dfar = 0, cp15_ifsr = 0\<rparr>"


text \<open>
  A printed record is gone. The printer, and with it the default hook behind every
  fault, clears the magic word: a dump that holds that word nowhere else is one in which the host
  decoder no longer finds a record, and a second call of the printer prints nothing.
\<close>

theorem printed_record_lost:
  assumes "length (rec_r r) = 13"
    and "list_all (\<lambda>w. w \<noteq> pm_magic) (padding @ tl (pm_words r) @ [rec_crc32 r] @ rest)"
  shows "pm_main addr2line elf (words_bytes padding @ pm_record_memory (snd (pm_on_exception r)) @ words_bytes rest) =
      ([], [''pm_decode: no valid postmortem record found in input''], 1)
    \<and> pm_print (snd (pm_print r)) = ([], snd (pm_print r))"
proof -
  have cleared: "snd (pm_print r) = r\<lparr>rec_magic := rec_magic (snd (pm_print r))\<rparr>" "rec_magic (snd (pm_print r)) \<noteq> pm_magic"
    by (simp_all add: pm_print_def Let_def PM_MAGIC_def pm_magic_def)
  let ?m = "rec_magic (snd (pm_print r))"
  have "pm_words (r\<lparr>rec_magic := m\<rparr>) = m # tl (pm_words r)" for m by (simp add: pm_words_def)
  then have "words_bytes padding @ pm_record_memory (snd (pm_on_exception r)) @ words_bytes rest =
      words_bytes (padding @ (?m # tl (pm_words r)) @ [rec_crc32 r] @ rest)"
    by (subst pm_on_exception_def, subst cleared(1)) (simp add: pm_record_memory_words words_bytes_append [symmetric])
  moreover have "list_all (\<lambda>w. w \<noteq> pm_magic) (padding @ (?m # tl (pm_words r)) @ [rec_crc32 r] @ rest)"
    using assms(2) cleared(2) by simp
  ultimately have "pm_scan addr2line elf (words_bytes padding @ pm_record_memory (snd (pm_on_exception r)) @ words_bytes rest) 0
      = ([], [], False)"
    using pm_scan_nothing [of _ addr2line elf 0] by simp
  moreover have "pm_print (snd (pm_print r)) = ([], snd (pm_print r))"
    using cleared(2) by (subst pm_print_def) (simp add: PM_MAGIC_def pm_magic_def)
  ultimately show ?thesis by (simp add: pm_main_def)
qed

theorem printed_record_lost_witness:
  "pm_main (\<lambda>_ _. None) None (words_bytes [0, 5] @ pm_record_memory (snd (pm_on_exception (blank_record\<lparr>rec_magic := PM_MAGIC\<rparr>))) @ words_bytes [7]) =
      ([], [''pm_decode: no valid postmortem record found in input''], 1)
    \<and> pm_print (snd (pm_print (blank_record\<lparr>rec_magic := PM_MAGIC\<rparr>))) = ([], snd (pm_print (blank_record\<lparr>rec_magic := PM_MAGIC\<rparr>)))"
  by (rule printed_record_lost) (simp_all add: blank_record_def pm_words_def pm_magic_def list_all_iff)

end
