(* ===== verification/Uart.thy ===== *)
theory Uart
  imports Prelude
begin

text \<open>
  The polled UART driver of the R5 board support package, \<open>sdk/bsp/rpu/uart.c\<close>: the choice of the
  divisors, the register writes of the set-up, and the transmission of a string over a FIFO whose status
  the hardware answers.
\<close>

section \<open>The program\<close>

definition UART_REF_CLK_HZ :: u32 where "UART_REF_CLK_HZ = 100000000"

record baud_choice =
  best_cd :: u32
  best_bdiv :: u32
  best_err :: u32

text \<open>One turn of the search; a division by zero has no defined result.\<close>

definition baud_step :: "u32 \<Rightarrow> u32 \<Rightarrow> baud_choice \<Rightarrow> baud_choice option" where
  "baud_step baud b best =
     (if baud * (b + 1) = 0 then None
      else let c = UART_REF_CLK_HZ div (baud * (b + 1))
      in if c = 0 \<or> 65535 < c then Some best
         else if c * (b + 1) = 0 then None
         else let actual = UART_REF_CLK_HZ div (c * (b + 1));
                  err = (if baud < actual then actual - baud else baud - actual)
         in if err < best_err best then Some \<lparr>best_cd = c, best_bdiv = b, best_err = err\<rparr> else Some best)"

fun baud_loop :: "u32 \<Rightarrow> nat list \<Rightarrow> baud_choice \<Rightarrow> baud_choice option" where
  "baud_loop baud [] best = Some best"
| "baud_loop baud (b # bs) best =
     (case baud_step baud (of_nat b) best of None \<Rightarrow> None | Some best' \<Rightarrow> baud_loop baud bs best')"

definition compute_baud :: "u32 \<Rightarrow> (u32 \<times> u32) option" where
  "compute_baud baud =
     map_option (\<lambda>best. (best_cd best, best_bdiv best))
       (baud_loop baud [4..<256] \<lparr>best_cd = 62, best_bdiv = 13, best_err = NOT 0\<rparr>)"

datatype uart_register = UART_CR | UART_MR | UART_IDR | UART_BAUDGEN | UART_BAUDDIV | UART_FIFO

text \<open>The wait for the end of the reset reads the control register at most \<open>n\<close> times.\<close>

fun reset_polls :: "(nat \<Rightarrow> u32) \<Rightarrow> nat \<Rightarrow> nat \<Rightarrow> nat" where
  "reset_polls cr i 0 = i"
| "reset_polls cr i (Suc n) = (if cr i AND (2 OR 1) = 0 then i + 1 else reset_polls cr (i + 1) n)"

definition uart_init :: "u32 \<Rightarrow> (uart_register \<times> u32) list option" where
  "uart_init baud_rate =
     (case compute_baud baud_rate of None \<Rightarrow> None
      | Some (cd, bdiv) \<Rightarrow>
          Some [(UART_IDR, 0xFFFFFFFF), (UART_CR, 2 OR 1), (UART_MR, 0x20), (UART_BAUDGEN, cd), (UART_BAUDDIV, bdiv),
            (UART_CR, 0x10 OR 4)])"

text \<open>\<open>sr\<close> is what the status register answers, read after read; without an answer the driver still waits.\<close>

fun uart_putc :: "u32 list \<Rightarrow> char \<Rightarrow> (u32 \<times> u32 list) option" where
  "uart_putc [] c = None"
| "uart_putc (s # sr) c = (if s AND 0x10 \<noteq> 0 then uart_putc sr c else Some (of_nat (of_char c), sr))"

fun uart_print :: "u32 list \<Rightarrow> string \<Rightarrow> u32 list \<times> u32 list option" where
  "uart_print sr [] = ([], Some sr)"
| "uart_print sr (c # cs) =
     (case uart_putc sr c of None \<Rightarrow> ([], None)
      | Some (w, sr') \<Rightarrow> map_prod (Cons w) id (uart_print sr' cs))"

section \<open>The divisors\<close>

text \<open>The two divisors that the search accepts for a factor \<open>b + 1\<close>, and their error.\<close>

definition baud_divisor :: "nat \<Rightarrow> nat \<Rightarrow> nat" where
  "baud_divisor baud b = 100000000 div (baud * (b + 1))"

definition baud_ok :: "nat \<Rightarrow> nat \<Rightarrow> bool" where
  "baud_ok baud b \<longleftrightarrow> 0 < baud_divisor baud b \<and> baud_divisor baud b \<le> 65535"

definition baud_error :: "nat \<Rightarrow> nat \<Rightarrow> nat" where
  "baud_error baud b =
     nat \<bar>int (100000000 div (baud_divisor baud b * (b + 1))) - int baud\<bar>"

lemma of_nat_word_div:
  "m < 4294967296 \<Longrightarrow> n < 4294967296 \<Longrightarrow> (of_nat m :: u32) div of_nat n = of_nat (m div n)"
proof -
  assume small: "m < 4294967296" "n < 4294967296"
  then have "m div n < 4294967296" using div_le_dividend [of m n] by linarith
  with small show ?thesis by (simp add: word_unat_eq_iff unat_div)
qed

lemma of_nat_word_less: "m < 4294967296 \<Longrightarrow> n < 4294967296 \<Longrightarrow> (of_nat m :: u32) < of_nat n \<longleftrightarrow> m < n"
  by (simp add: word_less_nat_alt)

lemma of_nat_word_zero: "n < 4294967296 \<Longrightarrow> (of_nat n :: u32) = 0 \<longleftrightarrow> n = 0"
  by (simp add: of_nat_eq_0_iff_less)

lemma of_nat_distance:
  "(if (of_nat m :: u32) < of_nat n then of_nat n - of_nat m else of_nat m - of_nat n) = (of_nat (nat \<bar>int n - int m\<bar>) :: u32)"
  if "m < 4294967296" "n < 4294967296"
proof (cases "m < n")
  case True
  then have "nat \<bar>int n - int m\<bar> = n - m" by simp
  with True show ?thesis using that by (simp add: of_nat_word_less of_nat_diff)
next
  case False
  then have "nat \<bar>int n - int m\<bar> = m - n" by simp
  with False show ?thesis using that by (simp add: of_nat_word_less of_nat_diff)
qed

lemma nat_distance_less: "m \<le> k \<Longrightarrow> n \<le> k \<Longrightarrow> nat \<bar>int m - int n\<bar> \<le> k"
  by simp

lemma baud_error_less: "baud < 16777216 \<Longrightarrow> baud_error baud b < 4294967295"
proof -
  assume "baud < 16777216"
  then have "baud_error baud b \<le> 100000000"
    unfolding baud_error_def by (intro nat_distance_less div_le_dividend) simp
  then show ?thesis by simp
qed

lemma baud_step_spec:
  assumes "0 < baud" "baud < 16777216" "b < 256"
  shows "baud_step (of_nat baud) (of_nat b) best =
    Some (if baud_ok baud b \<and> baud_error baud b < unat (best_err best)
          then \<lparr>best_cd = of_nat (baud_divisor baud b), best_bdiv = of_nat b, best_err = of_nat (baud_error baud b)\<rparr>
          else best)"
proof -
  let ?n = "baud * (b + 1)" and ?c = "baud_divisor baud b"
  let ?m = "?c * (b + 1)" and ?actual = "100000000 div (?c * (b + 1))"
  have n: "0 < ?n" "?n < 4294967296"
    using assms mult_le_mono [of baud 16777215 "b + 1" 256] by simp_all
  have clk: "UART_REF_CLK_HZ = of_nat 100000000" by (simp add: UART_REF_CLK_HZ_def)
  have prod: "of_nat baud * (of_nat b + 1) = (of_nat ?n :: u32)" "of_nat ?c * (of_nat b + 1) = (of_nat ?m :: u32)"
    by (simp_all add: algebra_simps)
  have c: "UART_REF_CLK_HZ div of_nat ?n = of_nat ?c" "?c \<le> 100000000"
    unfolding clk using n by (subst of_nat_word_div) (simp_all add: baud_divisor_def)
  have "b + 1 \<le> ?n" using assms(1) by (cases baud) simp_all
  then have "?m \<le> ?c * ?n" by (rule mult_le_mono2)
  also have "\<dots> \<le> 100000000" unfolding baud_divisor_def by (rule div_times_less_eq_dividend)
  finally have m: "?m \<le> 100000000" .
  have a: "UART_REF_CLK_HZ div of_nat ?m = of_nat ?actual" "?actual \<le> 100000000"
    unfolding clk using m by (subst of_nat_word_div) simp_all
  have err: "(if of_nat baud < (of_nat ?actual :: u32) then of_nat ?actual - of_nat baud else of_nat baud - of_nat ?actual)
      = (of_nat (baud_error baud b) :: u32)"
    unfolding baud_error_def using assms a(2) by (intro of_nat_distance) linarith+
  have small: "baud_error baud b < 4294967296"
    using baud_error_less [OF assms(2), of b] by simp
  have "65535 < (of_nat ?c :: u32) \<longleftrightarrow> 65535 < ?c"
    using of_nat_word_less [of 65535 ?c] c(2) by simp
  moreover have "(of_nat (baud_error baud b) :: u32) < best_err best \<longleftrightarrow> baud_error baud b < unat (best_err best)"
    using small by (simp add: word_less_nat_alt)
  moreover have "(of_nat ?n :: u32) \<noteq> 0" "(of_nat ?c :: u32) = 0 \<longleftrightarrow> ?c = 0" "?c \<noteq> 0 \<Longrightarrow> (of_nat ?m :: u32) \<noteq> 0"
    using n m c(2) by (simp_all only: of_nat_word_zero) simp_all
  ultimately show ?thesis
    unfolding baud_step_def prod c(1) a(1) err Let_def baud_ok_def by (cases "?c = 0") (simp_all add: not_less)
qed


text \<open>The search keeps the best choice that it has met.\<close>

definition chosen :: "nat \<Rightarrow> nat list \<Rightarrow> baud_choice \<Rightarrow> bool" where
  "chosen baud bs best \<longleftrightarrow>
     (\<exists>b \<in> set bs. baud_ok baud b \<and> best = \<lparr>best_cd = of_nat (baud_divisor baud b), best_bdiv = of_nat b,
        best_err = of_nat (baud_error baud b)\<rparr> \<and> baud_error baud b < 4294967295
        \<and> (\<forall>b' \<in> set bs. baud_ok baud b' \<longrightarrow> baud_error baud b \<le> baud_error baud b'))"

definition fallback :: baud_choice where
  "fallback = \<lparr>best_cd = 62, best_bdiv = 13, best_err = NOT 0\<rparr>"

lemma unat_max [simp]: "unat (- 1 :: u32) = 4294967295"
  by (simp add: unsigned_minus_1_eq_mask mask_eq_exp_minus_1)

lemma baud_loop_spec:
  assumes "0 < baud" "baud < 16777216"
  shows "\<forall>b \<in> set (ys). b < 256 \<Longrightarrow>
    (chosen baud xs best \<or> best = fallback \<and> (\<forall>b \<in> set xs. \<not> baud_ok baud b)) \<Longrightarrow>
    \<exists>best'. baud_loop (of_nat baud) ys best = Some best' \<and>
      (chosen baud (xs @ ys) best' \<or> best' = fallback \<and> (\<forall>b \<in> set (xs @ ys). \<not> baud_ok baud b))"
proof (induction ys arbitrary: xs best)
  case (Cons y ys)
  let ?best = "if baud_ok baud y \<and> baud_error baud y < unat (best_err best)
    then \<lparr>best_cd = of_nat (baud_divisor baud y), best_bdiv = of_nat y, best_err = of_nat (baud_error baud y)\<rparr>
    else best"
  have small: "unat (of_nat (baud_error baud b) :: u32) = baud_error baud b" for b
    using baud_error_less [OF assms(2), of b] by simp
  have step: "baud_step (of_nat baud) (of_nat y) best = Some ?best"
    using assms Cons.prems by (intro baud_step_spec) simp_all
  have "chosen baud (xs @ [y]) ?best \<or> ?best = fallback \<and> (\<forall>b \<in> set (xs @ [y]). \<not> baud_ok baud b)"
    using Cons.prems(2)
  proof
    assume "chosen baud xs best"
    then show ?thesis by (auto simp: chosen_def small not_less intro: order_trans less_imp_le)
  next
    assume "best = fallback \<and> (\<forall>b \<in> set xs. \<not> baud_ok baud b)"
    then show ?thesis using baud_error_less [OF assms(2), of y] by (auto simp: chosen_def fallback_def)
  qed
  from Cons.IH [OF _ this] Cons.prems(1) step show ?case by simp
qed auto

lemma compute_baud_result:
  assumes "0 < baud" "baud < 16777216"
  obtains best where "baud_loop (of_nat baud) [4..<256] fallback = Some best"
    "chosen baud [4..<256] best \<or> best = fallback \<and> (\<forall>b \<in> {4..<256}. \<not> baud_ok baud b)"
proof -
  note spec = baud_loop_spec [OF assms, of "[4..<256]" "[]" fallback, unfolded append_Nil set_upt list.set]
  have "\<forall>b \<in> {4..<256 :: nat}. b < 256" "\<forall>b \<in> {}. \<not> baud_ok baud b" by simp_all
  with spec show ?thesis using that by blast
qed

section \<open>Properties\<close>

text \<open>
  The divisors are the best there are. For every rate whose product with 256 fits the
  32 bits of the arithmetic, no division by zero happens, and the search ends with a divider from 4 to 255
  and a divisor of 16 bits whose rate is at least as close as that of every other admissible
  pair; without any admissible pair it falls back to 62 and 13.
\<close>

theorem uart_baud_best:
  assumes "0 < baud" and "baud < 16777216"
  shows "\<exists>cd bdiv. compute_baud (of_nat baud) = Some (of_nat cd, of_nat bdiv) \<and>
    (if \<exists>b \<in> {4..255}. baud_ok baud b
     then bdiv \<in> {4..255} \<and> cd = baud_divisor baud bdiv \<and> 0 < cd \<and> cd \<le> 65535 \<and>
       (\<forall>b \<in> {4..255}. baud_ok baud b \<longrightarrow> baud_error baud bdiv \<le> baud_error baud b)
     else cd = 62 \<and> bdiv = 13)"
proof -
  from compute_baud_result [OF assms] obtain best where best: "baud_loop (of_nat baud) [4..<256] fallback = Some best"
    and cases: "chosen baud [4..<256] best \<or> best = fallback \<and> (\<forall>b \<in> {4..<256}. \<not> baud_ok baud b)" .
  have range: "{4..<256} = {4..255 :: nat}" by auto
  have result: "compute_baud (of_nat baud) = Some (best_cd best, best_bdiv best)"
    using best by (simp only: compute_baud_def fallback_def) simp
  from cases show ?thesis
  proof
    assume "chosen baud [4..<256] best"
    then obtain b where "b \<in> {4..255}" "baud_ok baud b" "best_cd best = of_nat (baud_divisor baud b)" "best_bdiv best = of_nat b"
      "\<forall>b' \<in> {4..255}. baud_ok baud b' \<longrightarrow> baud_error baud b \<le> baud_error baud b'"
      unfolding chosen_def set_upt range by auto
    moreover from this have "0 < baud_divisor baud b" "baud_divisor baud b \<le> 65535" by (simp_all add: baud_ok_def)
    ultimately show ?thesis using result
      by - (rule exI [of _ "baud_divisor baud b"], rule exI [of _ b], auto)
  next
    assume "best = fallback \<and> (\<forall>b \<in> {4..<256}. \<not> baud_ok baud b)"
    then show ?thesis using result unfolding range
      by - (rule exI [of _ 62], rule exI [of _ 13], simp add: fallback_def)
  qed
qed

theorem uart_baud_best_witness:
  "\<exists>cd bdiv. compute_baud (of_nat 115200) = Some (of_nat cd, of_nat bdiv) \<and>
    (if \<exists>b \<in> {4..255}. baud_ok 115200 b
     then bdiv \<in> {4..255} \<and> cd = baud_divisor 115200 bdiv \<and> 0 < cd \<and> cd \<le> 65535 \<and>
       (\<forall>b \<in> {4..255}. baud_ok 115200 b \<longrightarrow> baud_error 115200 bdiv \<le> baud_error 115200 b)
     else cd = 62 \<and> bdiv = 13)"
  by (rule uart_baud_best) simp_all

text \<open>At the rate of the test programs the search stops improving at the divider 6.\<close>

lemma baud_loop_no_better:
  "list_all (\<lambda>b. b < 256 \<and> unat (best_err best) \<le> baud_error baud b) bs \<Longrightarrow> 0 < baud \<Longrightarrow> baud < 16777216 \<Longrightarrow>
   baud_loop (of_nat baud) bs best = Some best"
  by (induction bs) (simp_all add: baud_step_spec)

lemma compute_baud_115200: "compute_baud 115200 = Some (124, 6)"
proof -
  have rest: "list_all (\<lambda>b. b < 256 \<and> unat (7 :: u32) \<le> baud_error 115200 b) [7..<256]"
    by (simp add: baud_error_def baud_divisor_def)
  have range: "[4..<256] = [4, 5, 6 :: nat] @ [7..<256]" by simp
  have "baud_loop 115200 [4, 5, 6] \<lparr>best_cd = 62, best_bdiv = 13, best_err = NOT 0\<rparr> =
      Some \<lparr>best_cd = 124, best_bdiv = 6, best_err = 7\<rparr>" by code_simp
  moreover have "baud_loop baud (xs @ ys) best = Option.bind (baud_loop baud xs best) (baud_loop baud ys)" for baud xs ys best
    by (induction xs arbitrary: best) (simp_all split: option.split)
  moreover have "baud_loop 115200 [7..<256] \<lparr>best_cd = 124, best_bdiv = 6, best_err = 7\<rparr> =
      Some \<lparr>best_cd = 124, best_bdiv = 6, best_err = 7\<rparr>"
    using baud_loop_no_better [of "\<lparr>best_cd = 124, best_bdiv = 6, best_err = 7\<rparr>" 115200 "[7..<256]"] rest
    by (simp only: baud_choice.select_convs) simp
  ultimately show ?thesis by (simp only: compute_baud_def range) simp
qed

text \<open>The set-up waits a bounded time, and what is printed is what is transmitted.\<close>

lemma reset_polls_bound: "reset_polls cr i n \<le> i + n"
proof (induction n arbitrary: i)
  case (Suc n)
  then show ?case using Suc.IH [of "i + 1"] by simp
qed simp

lemma uart_putc_waits:
  "uart_putc sr c = (case dropWhile (\<lambda>s. s AND 0x10 \<noteq> 0) sr of [] \<Rightarrow> None | s # sr' \<Rightarrow> Some (of_nat (of_char c), sr'))"
  by (induction sr) auto

lemma uart_print_prefix:
  "\<exists>k. fst (uart_print sr cs) = map (\<lambda>c. of_nat (of_char c)) (take k cs)
     \<and> (snd (uart_print sr cs) \<noteq> None \<longrightarrow> length cs \<le> k)"
proof (induction cs arbitrary: sr)
  case (Cons c cs)
  show ?case
  proof (cases "uart_putc sr c")
    case (Some p)
    then obtain w sr' where p: "uart_putc sr c = Some (w, sr')" by (cases p) simp
    moreover from p have "w = of_nat (of_char c)" by (auto simp: uart_putc_waits split: list.splits)
    moreover obtain k where "fst (uart_print sr' cs) = map (\<lambda>c. of_nat (of_char c)) (take k cs)"
      "snd (uart_print sr' cs) \<noteq> None \<longrightarrow> length cs \<le> k" using Cons.IH by blast
    ultimately show ?thesis by (intro exI [of _ "Suc k"]) simp
  qed (intro exI [of _ 0], simp)
qed simp

lemma uart_print_completes:
  "length cs \<le> length (filter (\<lambda>s. s AND 0x10 = 0) sr) \<Longrightarrow>
   \<exists>sr'. uart_print sr cs = (map (\<lambda>c. of_nat (of_char c)) cs, Some sr')"
proof (induction sr arbitrary: cs)
  case (Cons s sr)
  show ?case
  proof (cases cs)
    case cs: (Cons c cs')
    show ?thesis
    proof (cases "s AND 0x10 = 0")
      case True
      with Cons.IH [of cs'] Cons.prems cs show ?thesis by auto
    next
      case False
      then have "uart_print (s # sr) cs = uart_print sr cs" by (simp add: cs)
      with Cons.IH [of cs] Cons.prems False show ?thesis by simp
    qed
  qed simp
qed simp

end
