(* ===== verification/Unicode.thy ===== *)
theory Unicode
  imports Prelude
begin

text \<open>
  Unicode text of the standard library as the tools use it: a \<open>String\<close> as the list of its scalar
  values, its UTF-8 bytes, \<open>String::from_utf8_lossy\<close>, \<open>str::len\<close>, and the white space that
  \<open>str::trim\<close> removes.
\<close>

type_synonym scalars = "nat list"

section \<open>\<open>String::from_utf8_lossy\<close>\<close>

definition replacement :: nat where "replacement = 0xFFFD"

definition continuation :: "8 word \<Rightarrow> bool" where
  "continuation b \<longleftrightarrow> 0x80 \<le> b \<and> b \<le> 0xBF"

text \<open>The second bytes that may follow a first byte of a sequence of three and of four.\<close>

definition second_of_three :: "8 word \<Rightarrow> 8 word \<Rightarrow> bool" where
  "second_of_three b c \<longleftrightarrow>
     (if b = 0xE0 then 0xA0 \<le> c \<and> c \<le> 0xBF else if b = 0xED then 0x80 \<le> c \<and> c \<le> 0x9F
      else continuation c)"

definition second_of_four :: "8 word \<Rightarrow> 8 word \<Rightarrow> bool" where
  "second_of_four b c \<longleftrightarrow>
     (if b = 0xF0 then 0x90 \<le> c \<and> c \<le> 0xBF else if b = 0xF4 then 0x80 \<le> c \<and> c \<le> 0x8F
      else continuation c)"

text \<open>The scalar that starts with a byte, and the bytes left; a malformed sequence is cut at the
  first byte that cannot continue it.\<close>

definition utf8_step :: "8 word \<Rightarrow> 8 word list \<Rightarrow> nat \<times> 8 word list" where
  "utf8_step b bs =
     (if b < 0x80 then (unat b, bs)
      else if 0xC2 \<le> b \<and> b \<le> 0xDF then
        (case bs of
           c # cs \<Rightarrow> if continuation c then ((unat b - 192) * 64 + (unat c - 128), cs)
                     else (replacement, bs)
         | [] \<Rightarrow> (replacement, bs))
      else if 0xE0 \<le> b \<and> b \<le> 0xEF then
        (case bs of
           c # d # ds \<Rightarrow>
             if \<not> second_of_three b c then (replacement, bs)
             else if \<not> continuation d then (replacement, d # ds)
             else ((unat b - 224) * 4096 + (unat c - 128) * 64 + (unat d - 128), ds)
         | [c] \<Rightarrow> (replacement, if second_of_three b c then [] else bs)
         | [] \<Rightarrow> (replacement, bs))
      else if 0xF0 \<le> b \<and> b \<le> 0xF4 then
        (case bs of
           c # d # e # es \<Rightarrow>
             if \<not> second_of_four b c then (replacement, bs)
             else if \<not> continuation d then (replacement, d # e # es)
             else if \<not> continuation e then (replacement, e # es)
             else ((unat b - 240) * 262144 + (unat c - 128) * 4096 + (unat d - 128) * 64 + (unat e - 128), es)
         | [c, d] \<Rightarrow>
             (replacement, if \<not> second_of_four b c then bs else if \<not> continuation d then [d] else [])
         | [c] \<Rightarrow> (replacement, if second_of_four b c then [] else bs)
         | [] \<Rightarrow> (replacement, bs))
      else (replacement, bs))"

lemma utf8_step_length: "length (snd (utf8_step b bs)) \<le> length bs"
  by (auto simp: utf8_step_def split: list.splits)

function from_utf8_lossy :: "8 word list \<Rightarrow> scalars" where
  "from_utf8_lossy [] = []"
| "from_utf8_lossy (b # bs) =
     (case utf8_step b bs of (c, rest) \<Rightarrow> c # from_utf8_lossy rest)"
  by pat_completeness auto
termination
  by (relation "measure length") (use utf8_step_length in \<open>auto simp: less_Suc_eq_le, metis snd_conv\<close>)

text \<open>The encoding of the standard.\<close>

definition scalar :: "nat \<Rightarrow> bool" where
  "scalar c \<longleftrightarrow> c < 0x110000 \<and> \<not> (0xD800 \<le> c \<and> c < 0xE000)"

definition byte_of :: "nat \<Rightarrow> 8 word" where
  "byte_of n = of_nat n"

definition utf8_encode :: "nat \<Rightarrow> 8 word list" where
  "utf8_encode c =
     (if c < 0x80 then [byte_of c]
      else if c < 0x800 then [byte_of (192 + c div 64), byte_of (128 + c mod 64)]
      else if c < 0x10000 then
        [byte_of (224 + c div 4096), byte_of (128 + c div 64 mod 64), byte_of (128 + c mod 64)]
      else [byte_of (240 + c div 262144), byte_of (128 + c div 4096 mod 64),
            byte_of (128 + c div 64 mod 64), byte_of (128 + c mod 64)])"

lemma unat_byte_of [simp]: "n < 256 \<Longrightarrow> unat (byte_of n) = n"
  by (simp add: byte_of_def unat_of_nat_less)

lemma byte_le [simp]:
  "n < 256 \<Longrightarrow> numeral k \<le> byte_of n \<longleftrightarrow> unat (numeral k :: 8 word) \<le> n"
  "n < 256 \<Longrightarrow> byte_of n \<le> numeral k \<longleftrightarrow> n \<le> unat (numeral k :: 8 word)"
  "n < 256 \<Longrightarrow> byte_of n < numeral k \<longleftrightarrow> n < unat (numeral k :: 8 word)"
  "n < 256 \<Longrightarrow> byte_of n = numeral k \<longleftrightarrow> n = unat (numeral k :: 8 word)"
  by (simp_all add: word_le_nat_alt word_less_nat_alt word_unat_eq_iff)

lemma continuation_byte [simp]: "n < 64 \<Longrightarrow> continuation (byte_of (128 + n))"
  by (simp add: continuation_def)

lemma utf8_step_two:
  assumes "0x80 \<le> c" "c < 0x800"
  shows "utf8_step (byte_of (192 + c div 64)) (byte_of (128 + c mod 64) # rest) = (c, rest)"
proof -
  have "2 \<le> c div 64" "c div 64 < 32" using assms by (simp_all add: less_eq_div_iff_mult_less_eq div_less_iff_less_mult)
  then show ?thesis by (simp add: utf8_step_def)
qed

lemma div_parts:
  fixes c :: nat
  shows "c div 4096 * 4096 + c div 64 mod 64 * 64 + c mod 64 = c"
    "c div 262144 * 262144 + c div 4096 mod 64 * 4096 + c div 64 mod 64 * 64 + c mod 64 = c"
proof -
  have parts: "c div 64 * 64 + c mod 64 = c" "c div 4096 * 64 + c div 64 mod 64 = c div 64"
    "c div 262144 * 64 + c div 4096 mod 64 = c div 4096"
    using div_mult_mod_eq [of c 64] div_mult_mod_eq [of "c div 64" 64] div_mult_mod_eq [of "c div 4096" 64]
    by (simp_all add: div_mult2_eq [symmetric])
  show "c div 4096 * 4096 + c div 64 mod 64 * 64 + c mod 64 = c"
    using parts(1,2) by linarith
  show "c div 262144 * 262144 + c div 4096 mod 64 * 4096 + c div 64 mod 64 * 64 + c mod 64 = c"
    using parts by linarith
qed

lemma utf8_step_three:
  assumes "0x800 \<le> c" "c < 0x10000" "scalar c"
  shows "utf8_step (byte_of (224 + c div 4096))
    (byte_of (128 + c div 64 mod 64) # byte_of (128 + c mod 64) # rest) = (c, rest)"
proof -
  let ?x = "c div 4096" and ?y = "c div 64 mod 64"
  have x: "?x < 16" using assms by (simp add: div_less_iff_less_mult)
  have c: "?x * 4096 + ?y * 64 + c mod 64 = c" by (rule div_parts(1))
  have z: "c mod 64 < 64" "?y < 64" by simp_all
  have "second_of_three (byte_of (224 + ?x)) (byte_of (128 + ?y))"
    using assms(1,3) c z x by (auto simp: second_of_three_def scalar_def)
  then show ?thesis using c x z by (simp add: utf8_step_def)
qed

lemma utf8_step_four:
  assumes "0x10000 \<le> c" "c < 0x110000"
  shows "utf8_step (byte_of (240 + c div 262144))
    (byte_of (128 + c div 4096 mod 64) # byte_of (128 + c div 64 mod 64) # byte_of (128 + c mod 64) # rest) =
    (c, rest)"
proof -
  let ?x = "c div 262144" and ?y = "c div 4096 mod 64"
  have x: "?x \<le> 4" using assms by (simp add: div_le_dividend less_mult_imp_div_less [THEN less_Suc_eq_le [THEN iffD1]])
  have c: "?x * 262144 + ?y * 4096 + c div 64 mod 64 * 64 + c mod 64 = c" by (rule div_parts(2))
  have z: "c mod 64 < 64" "?y < 64" "c div 64 mod 64 < 64" by simp_all
  have "second_of_four (byte_of (240 + ?x)) (byte_of (128 + ?y))"
    using assms c z x by (auto simp: second_of_four_def)
  then show ?thesis using c x z by (simp add: utf8_step_def)
qed

text \<open>A text is read back from its encoding, however the bytes behind it go on.\<close>

lemma lossy_encode:
  assumes "scalar c"
  shows "from_utf8_lossy (utf8_encode c @ rest) = c # from_utf8_lossy rest"
proof -
  consider "c < 0x80" | "0x80 \<le> c" "c < 0x800" | "0x800 \<le> c" "c < 0x10000" | "0x10000 \<le> c" by linarith
  then show ?thesis
  proof cases
    case 1
    then show ?thesis by (simp add: utf8_encode_def utf8_step_def)
  next
    case 4
    then show ?thesis using assms by (simp add: utf8_encode_def utf8_step_four scalar_def)
  qed (simp_all add: assms utf8_encode_def utf8_step_two utf8_step_three)
qed

lemma lossy_encode_all:
  "\<forall>c \<in> set s. scalar c \<Longrightarrow> from_utf8_lossy (concat (map utf8_encode s) @ rest) = s @ from_utf8_lossy rest"
  by (induction s) (simp_all add: lossy_encode)

section \<open>Length and white space\<close>

text \<open>\<open>str::len\<close> counts bytes.\<close>

definition utf8_bytes :: "scalars \<Rightarrow> 8 word list" where
  "utf8_bytes s = concat (map utf8_encode s)"

definition str_len :: "scalars \<Rightarrow> nat" where
  "str_len s = length (utf8_bytes s)"

definition white_space :: "nat \<Rightarrow> bool" where
  "white_space c \<longleftrightarrow>
     c \<in> {9, 10, 11, 12, 13, 32, 0x85, 0xA0, 0x1680, 0x2028, 0x2029, 0x202F, 0x205F, 0x3000} \<or>
     (0x2000 \<le> c \<and> c \<le> 0x200A)"

definition trim_start :: "scalars \<Rightarrow> scalars" where
  "trim_start s = dropWhile white_space s"

definition trim_end :: "scalars \<Rightarrow> scalars" where
  "trim_end s = rev (dropWhile white_space (rev s))"

definition trim :: "scalars \<Rightarrow> scalars" where
  "trim s = trim_end (trim_start s)"

text \<open>\<open>String::from_utf8\<close>: the bytes are those of a text exactly if they are its encoding.\<close>

definition from_utf8 :: "8 word list \<Rightarrow> scalars option" where
  "from_utf8 bytes =
     (let s = from_utf8_lossy bytes in if utf8_bytes s = bytes then Some s else None)"

lemma from_utf8_bytes: "\<forall>c \<in> set s. scalar c \<Longrightarrow> from_utf8 (utf8_bytes s) = Some s"
  using lossy_encode_all [of s "[]"] by (simp add: from_utf8_def utf8_bytes_def)

text \<open>A text of ASCII characters.\<close>

definition ascii :: "string \<Rightarrow> scalars" where
  "ascii s = map of_char s"

end
