(* ===== verification/SerialWatch.thy ===== *)
theory SerialWatch
  imports Unicode "HOL-Library.Sublist"
begin

text \<open>
  The serial watch of \<open>tooling/zub_ctl\<close>: the line accumulator and the pattern matcher of
  \<open>src/lib.rs\<close> and the reader thread of \<open>spawn_serial_watch\<close> in \<open>src/main.rs\<close>. A
  \<open>String\<close> is the list of its scalar values; the library \<open>regex\<close> is the parameter
  \<open>is_match\<close>, and what the thread meets in each turn of its loop is an \<open>iteration\<close>.
\<close>

section \<open>Lines\<close>

definition newline :: nat where "newline = 10"
definition carriage_return :: nat where "carriage_return = 13"

text \<open>\<open>raw.trim_end_matches(['\r', '\n'])\<close>.\<close>

definition trim_line_end :: "scalars \<Rightarrow> scalars" where
  "trim_line_end raw = rev (dropWhile (\<lambda>c. c \<in> {carriage_return, newline}) (rev raw))"

function drain_lines :: "scalars \<Rightarrow> scalars list \<times> scalars" where
  "drain_lines buf =
     (if newline \<notin> set buf then ([], buf)
      else let nl = length (takeWhile (\<lambda>c. c \<noteq> newline) buf);
               raw = take (nl + 1) buf;
               line = trim_line_end raw;
               (lines, rest) = drain_lines (drop (nl + 1) buf)
           in (if line = [] then lines else line # lines, rest))"
  by pat_completeness auto
termination
  by (relation "measure length") (auto intro!: diff_less simp: in_set_conv_decomp)

declare drain_lines.simps [simp del]

definition push_bytes_to_lines :: "scalars \<Rightarrow> 8 word list \<Rightarrow> scalars list \<times> scalars" where
  "push_bytes_to_lines buf bytes = drain_lines (buf @ from_utf8_lossy bytes)"

section \<open>Patterns\<close>

text \<open>A compiled \<open>Regex\<close> is known by its pattern; whether a pattern is valid and which lines it
  matches are parameters.\<close>

datatype line_result = FailOnHit string | AllMatched | Continue

fun compile_regexes :: "(string \<Rightarrow> bool) \<Rightarrow> string list \<Rightarrow> string + string list" where
  "compile_regexes valid [] = Inr []"
| "compile_regexes valid (p # ps) =
     (if valid p then map_sum id (Cons p) (compile_regexes valid ps) else Inl (''bad regex: '' @ p))"

definition match_line ::
  "(string \<Rightarrow> scalars \<Rightarrow> bool) \<Rightarrow> scalars \<Rightarrow> string list \<Rightarrow> string list \<Rightarrow> line_result \<times> string list" where
  "match_line is_match line remaining fail_on =
     (case List.find (\<lambda>pat. is_match pat line) fail_on of
        Some pat \<Rightarrow> (FailOnHit pat, remaining)
      | None \<Rightarrow>
          (case remaining of
             pat # rest \<Rightarrow>
               if is_match pat line then (if rest = [] then AllMatched else Continue, rest)
               else (Continue, remaining)
           | [] \<Rightarrow> (Continue, remaining)))"

section \<open>The reader thread\<close>

datatype read_result = Data "8 word list" | ReadTimedOut | ReadError string

text \<open>A turn of the loop: the stop flag, the time since the start in nanoseconds, and the read.\<close>

record iteration =
  stop_requested :: bool
  elapsed :: nat
  read_result :: read_result

datatype watch_message =
    StopRequested
  | TimeoutAfter nat "string list"
  | SerialLine scalars
  | FailOnRegexHit string
  | AllPatternsMatched
  | PatternMatched string

text \<open>The lines of one read: the messages, the verdict if one is reached, the patterns left.\<close>

fun watch_lines ::
  "(string \<Rightarrow> scalars \<Rightarrow> bool) \<Rightarrow> bool \<Rightarrow> string list \<Rightarrow> string list \<Rightarrow> scalars list \<Rightarrow>
   watch_message list \<times> bool option \<times> string list" where
  "watch_lines is_match print_only fail_on remaining [] = ([], None, remaining)"
| "watch_lines is_match print_only fail_on remaining (line # lines) =
     (if print_only then
        (case watch_lines is_match print_only fail_on remaining lines of
           (log, r) \<Rightarrow> (SerialLine line # log, r))
      else
        (case match_line is_match line remaining fail_on of
           (FailOnHit pat, remaining') \<Rightarrow> ([SerialLine line, FailOnRegexHit pat], Some False, remaining')
         | (AllMatched, remaining') \<Rightarrow> ([SerialLine line, AllPatternsMatched], Some True, remaining')
         | (Continue, remaining') \<Rightarrow>
             (case watch_lines is_match print_only fail_on remaining' lines of
                (log, r) \<Rightarrow>
                  (SerialLine line #
                   (if length remaining' < length remaining then [PatternMatched (hd remaining)] else []) @ log,
                   r))))"

fun watch_loop ::
  "(string \<Rightarrow> scalars \<Rightarrow> bool) \<Rightarrow> nat \<Rightarrow> bool \<Rightarrow> string list \<Rightarrow> string list \<Rightarrow> scalars \<Rightarrow> iteration list \<Rightarrow>
   watch_message list \<times> (string + bool) option" where
  "watch_loop is_match timeout print_only fail_on remaining line_buf [] = ([], None)"
| "watch_loop is_match timeout print_only fail_on remaining line_buf (it # its) =
     (if stop_requested it then ([StopRequested], Some (Inr (print_only \<or> remaining = [])))
      else if timeout * 1000000000 \<le> elapsed it then
        (if remaining \<noteq> [] \<and> \<not> print_only then ([TimeoutAfter timeout remaining], Some (Inr False))
         else ([], Some (Inr (print_only \<or> remaining = []))))
      else
        (case read_result it of
           Data bytes \<Rightarrow>
             if bytes = [] then watch_loop is_match timeout print_only fail_on remaining line_buf its
             else
               (case push_bytes_to_lines line_buf bytes of
                  (lines, line_buf') \<Rightarrow>
                    (case watch_lines is_match print_only fail_on remaining lines of
                       (log, Some verdict, remaining') \<Rightarrow> (log, Some (Inr verdict))
                     | (log, None, remaining') \<Rightarrow>
                         (case watch_loop is_match timeout print_only fail_on remaining' line_buf' its of
                            (log', r) \<Rightarrow> (log @ log', r))))
         | ReadTimedOut \<Rightarrow> watch_loop is_match timeout print_only fail_on remaining line_buf its
         | ReadError e \<Rightarrow> ([], Some (Inl (''serial read error: '' @ e)))))"

section \<open>Lines do not depend on the chunks\<close>

text \<open>The lines of a sequence of reads, and the unfinished line that is kept.\<close>

abbreviation feed_chunks :: "scalars \<Rightarrow> 8 word list list \<Rightarrow> scalars list \<times> scalars" where
  "feed_chunks \<equiv> feed_all push_bytes_to_lines"

lemma drain_lines_none: "newline \<notin> set buf \<Longrightarrow> drain_lines buf = ([], buf)"
  by (subst drain_lines.simps) simp

lemma drain_lines_line:
  assumes "newline \<notin> set l"
  shows "drain_lines (l @ newline # s) =
    map_prod ((@) (if trim_line_end l = [] then [] else [trim_line_end l])) id (drain_lines s)"
proof -
  have "takeWhile (\<lambda>c. c \<noteq> newline) (l @ newline # s) = l" using assms
    by (subst takeWhile_append2) auto
  moreover have "trim_line_end (l @ [newline]) = trim_line_end l" by (simp add: trim_line_end_def)
  ultimately show ?thesis
    by (subst drain_lines.simps) (simp add: Let_def split: prod.split)
qed

lemma split_line: "newline \<in> set s \<Longrightarrow> \<exists>l r. s = l @ newline # r \<and> newline \<notin> set l"
  by (rule split_list_first)

lemma drain_lines_partial: "newline \<notin> set (snd (drain_lines s))"
proof (induction "length s" arbitrary: s rule: less_induct)
  case less
  show ?case
  proof (cases "newline \<in> set s")
    case True
    then obtain l r where s: "s = l @ newline # r" "newline \<notin> set l" using split_line by blast
    with less [of r] show ?thesis by (simp add: drain_lines_line)
  qed (simp add: drain_lines_none)
qed

lemma drain_lines_append:
  "drain_lines (s @ t) =
     map_prod ((@) (fst (drain_lines s))) id (drain_lines (snd (drain_lines s) @ t))"
proof (induction "length s" arbitrary: s rule: less_induct)
  case less
  show ?case
  proof (cases "newline \<in> set s")
    case True
    then obtain l r where s: "s = l @ newline # r" "newline \<notin> set l" using split_line by blast
    with less [of r] show ?thesis
      by (cases "drain_lines r") (simp add: drain_lines_line map_prod_def split: prod.split)
  qed (simp add: drain_lines_none map_prod_def split: prod.split)
qed

text \<open>On texts the accumulator takes its input in chunks.\<close>

interpretation lines: chunked "\<lambda>buf s. drain_lines (buf @ s)" "\<lambda>buf. newline \<notin> set buf"
proof unfold_locales
  fix buf :: scalars and xs ys
  show "newline \<notin> set (snd (drain_lines (buf @ xs)))" by (rule drain_lines_partial)
  show "drain_lines (buf @ (xs @ ys)) = map_prod ((@) (fst (drain_lines (buf @ xs)))) id
      (drain_lines (snd (drain_lines (buf @ xs)) @ ys))"
    using drain_lines_append [of "buf @ xs" ys] by simp
qed (simp add: drain_lines_none)

lemma feed_chunks_lossy:
  "feed_chunks buf bytes = feed_all (\<lambda>buf s. drain_lines (buf @ s)) buf (map from_utf8_lossy bytes)"
  by (induction bytes arbitrary: buf) (simp_all add: push_bytes_to_lines_def split: prod.split)

lemma feed_chunks_texts:
  assumes "\<forall>s \<in> set texts. \<forall>c \<in> set s. scalar c" "newline \<notin> set buf"
  shows "feed_chunks buf (map (\<lambda>s. concat (map utf8_encode s)) texts) = drain_lines (buf @ concat texts)"
proof -
  have "map from_utf8_lossy (map (\<lambda>s. concat (map utf8_encode s)) texts) = texts"
    using assms(1) by (induction texts) (simp_all add: lossy_encode_all [of _ "[]", simplified])
  then show ?thesis using lines.all_chunks [OF assms(2)] by (simp add: feed_chunks_lossy)
qed

lemma drain_lines_exact:
  "\<forall>l \<in> set ls. newline \<notin> set l \<Longrightarrow> newline \<notin> set rest \<Longrightarrow>
   drain_lines (concat (map (\<lambda>l. l @ [newline]) ls) @ rest) =
     (filter (\<lambda>l. l \<noteq> []) (map trim_line_end ls), rest)"
  by (induction ls) (simp_all add: drain_lines_none drain_lines_line)

section \<open>The verdict\<close>

text \<open>The contract: the expected patterns match lines in their order, and no earlier line fails.\<close>

definition embeds :: "(string \<Rightarrow> scalars \<Rightarrow> bool) \<Rightarrow> string list \<Rightarrow> scalars list \<Rightarrow> bool" where
  "embeds is_match pats ls \<longleftrightarrow> (\<exists>ls'. subseq ls' ls \<and> list_all2 is_match pats ls')"

definition unhurt :: "(string \<Rightarrow> scalars \<Rightarrow> bool) \<Rightarrow> string list \<Rightarrow> scalars list \<Rightarrow> bool" where
  "unhurt is_match fail_on ls \<longleftrightarrow> (\<forall>l \<in> set ls. \<forall>pat \<in> set fail_on. \<not> is_match pat l)"

definition passes ::
  "(string \<Rightarrow> scalars \<Rightarrow> bool) \<Rightarrow> string list \<Rightarrow> string list \<Rightarrow> scalars list \<Rightarrow> bool" where
  "passes is_match fail_on expect ls \<longleftrightarrow>
     (\<exists>k. embeds is_match expect (take k ls) \<and> unhurt is_match fail_on (take k ls) \<and>
          (expect = [] \<longrightarrow> length ls \<le> k))"

lemma embeds_Nil [simp]: "embeds is_match [] ls"
  by (auto simp: embeds_def)

lemma embeds_Cons_Nil [simp]: "\<not> embeds is_match (p # ps) []"
  by (auto simp: embeds_def list_all2_Cons1)

lemma embeds_Cons [simp]:
  "embeds is_match (p # ps) (l # ls) \<longleftrightarrow>
     (if is_match p l then embeds is_match ps ls else embeds is_match (p # ps) ls)"
proof (cases "is_match p l")
  case True
  have "embeds is_match ps ls" if "subseq ls' (l # ls)" "list_all2 is_match (p # ps) ls'" for ls'
  proof -
    from that(2) obtain l' ls'' where ls': "ls' = l' # ls''" "list_all2 is_match ps ls''"
      by (auto simp: list_all2_Cons1)
    with that(1) have "subseq ls'' ls" by (metis subseq_Cons' subseq_Cons2_iff)
    with ls' show ?thesis by (auto simp: embeds_def)
  qed
  with True show ?thesis
    by (auto simp: embeds_def intro: exI [of _ "l # _"])
next
  case False
  have "subseq ls' ls" if "subseq ls' (l # ls)" "list_all2 is_match (p # ps) ls'" for ls'
    using that False by (auto simp: list_all2_Cons1 split: if_splits)
  with False show ?thesis by (auto simp: embeds_def)
qed

text \<open>The verdict line by line, with a time-out behind the last line.\<close>

fun line_verdict ::
  "(string \<Rightarrow> scalars \<Rightarrow> bool) \<Rightarrow> string list \<Rightarrow> string list \<Rightarrow> scalars list \<Rightarrow> bool" where
  "line_verdict is_match fail_on pats [] = (pats = [])"
| "line_verdict is_match fail_on pats (l # ls) =
     (if \<exists>pat \<in> set fail_on. is_match pat l then False
      else case pats of
        [] \<Rightarrow> line_verdict is_match fail_on [] ls
      | pat # rest \<Rightarrow>
          if is_match pat l then rest = [] \<or> line_verdict is_match fail_on rest ls
          else line_verdict is_match fail_on pats ls)"

lemma unhurt_simps [simp]:
  "unhurt is_match fail_on []"
  "unhurt is_match fail_on (l # ls) \<longleftrightarrow>
     (\<forall>pat \<in> set fail_on. \<not> is_match pat l) \<and> unhurt is_match fail_on ls"
  by (auto simp: unhurt_def)

lemma passes_simps:
  "passes is_match fail_on expect [] \<longleftrightarrow> expect = []"
  "passes is_match fail_on [] (l # ls) \<longleftrightarrow>
     (\<forall>pat \<in> set fail_on. \<not> is_match pat l) \<and> passes is_match fail_on [] ls"
  "passes is_match fail_on (p # ps) (l # ls) \<longleftrightarrow>
     (\<forall>pat \<in> set fail_on. \<not> is_match pat l) \<and>
     (if is_match p l then ps = [] \<or> passes is_match fail_on ps ls
      else passes is_match fail_on (p # ps) ls)"
proof -
  show "passes is_match fail_on expect [] \<longleftrightarrow> expect = []"
    by (cases expect) (auto simp: passes_def)
  have split: "(\<exists>k. P k) \<longleftrightarrow> P 0 \<or> (\<exists>k. P (Suc k))" for P :: "nat \<Rightarrow> bool"
    by (metis not0_implies_Suc)
  show "passes is_match fail_on [] (l # ls) \<longleftrightarrow>
     (\<forall>pat \<in> set fail_on. \<not> is_match pat l) \<and> passes is_match fail_on [] ls"
    unfolding passes_def by (subst split) auto
  have none: "(\<exists>k. unhurt is_match fail_on (take k ls))" by (rule exI [of _ 0]) simp
  show "passes is_match fail_on (p # ps) (l # ls) \<longleftrightarrow>
     (\<forall>pat \<in> set fail_on. \<not> is_match pat l) \<and>
     (if is_match p l then ps = [] \<or> passes is_match fail_on ps ls
      else passes is_match fail_on (p # ps) ls)"
    unfolding passes_def by (subst split) (use none in auto)
qed

lemma line_verdict_passes: "line_verdict is_match fail_on expect ls \<longleftrightarrow> passes is_match fail_on expect ls"
  by (induction ls arbitrary: expect) (auto simp: passes_simps split: list.splits)

lemma watch_lines_verdict:
  "watch_lines is_match False fail_on remaining lines = (log, verdict, remaining') \<Longrightarrow>
   line_verdict is_match fail_on remaining (lines @ later) =
     (case verdict of Some v \<Rightarrow> v | None \<Rightarrow> line_verdict is_match fail_on remaining' later)"
proof (induction lines arbitrary: remaining log)
  case (Cons l lines)
  then show ?case
    by (cases remaining)
      (auto simp: match_line_def find_None_iff find_Some_iff split: option.splits prod.splits if_splits)
qed simp

text \<open>The bytes of a read that returned, and a turn in which the loop goes on.\<close>

definition read_bytes :: "iteration \<Rightarrow> 8 word list" where
  "read_bytes it = (case read_result it of Data bytes \<Rightarrow> bytes | _ \<Rightarrow> [])"

definition goes_on :: "nat \<Rightarrow> iteration \<Rightarrow> bool" where
  "goes_on timeout it \<longleftrightarrow> \<not> stop_requested it \<and> elapsed it < timeout * 1000000000 \<and>
     (case read_result it of ReadError e \<Rightarrow> False | _ \<Rightarrow> True)"

lemma feed_empty [simp]: "newline \<notin> set buf \<Longrightarrow> push_bytes_to_lines buf [] = ([], buf)"
  by (simp add: push_bytes_to_lines_def drain_lines_none)

lemma push_bytes_partial: "push_bytes_to_lines buf bytes = (ls, buf') \<Longrightarrow> newline \<notin> set buf'"
  using drain_lines_partial [of "buf @ from_utf8_lossy bytes"] by (simp add: push_bytes_to_lines_def)

lemma watch_loop_verdict:
  assumes "\<forall>it \<in> set its. goes_on timeout it" "newline \<notin> set buf"
    and "\<not> stop_requested deadline" "timeout * 1000000000 \<le> elapsed deadline"
  shows "snd (watch_loop is_match timeout False fail_on expect buf (its @ [deadline])) =
    Some (Inr (line_verdict is_match fail_on expect (fst (feed_chunks buf (map read_bytes its)))))"
  using assms(1,2)
proof (induction its arbitrary: expect buf)
  case Nil
  then show ?case using assms(3,4) by simp
next
  case (Cons it its)
  obtain ls buf' where push: "push_bytes_to_lines buf (read_bytes it) = (ls, buf')" by fastforce
  obtain log verdict expect' where
    w: "watch_lines is_match False fail_on expect ls = (log, verdict, expect')" by (cases "watch_lines is_match False fail_on expect ls")
  obtain later rest where f: "feed_chunks buf' (map read_bytes its) = (later, rest)" by fastforce
  have IH: "snd (watch_loop is_match timeout False fail_on expect' buf' (its @ [deadline])) =
      Some (Inr (line_verdict is_match fail_on expect' later))"
    using Cons.IH [of buf' expect'] Cons.prems push_bytes_partial [OF push] f by simp
  show ?case
  proof (cases "read_bytes it = []")
    case True
    then show ?thesis
      using Cons by (cases "read_result it")
        (auto simp: goes_on_def read_bytes_def split: prod.split)
  next
    case False
    then obtain bytes where "read_result it = Data bytes" "bytes \<noteq> []" "read_bytes it = bytes"
      by (cases "read_result it") (auto simp: read_bytes_def)
    moreover have "\<not> stop_requested it" "elapsed it < timeout * 1000000000"
      using Cons.prems by (simp_all add: goes_on_def)
    ultimately show ?thesis
      using push w f IH watch_lines_verdict [OF w, of later]
      by (cases verdict) (simp_all add: case_prod_beta)
  qed
qed

section \<open>Properties\<close>

text \<open>
  However the bytes of a text are cut into reads, as long as no character is cut, the
  accumulator hands out exactly the lines of the text, without their line ends and without the
  empty ones, and keeps the unfinished last line.
\<close>

theorem serial_lines_exact:
  assumes "\<forall>s \<in> set texts. \<forall>c \<in> set s. scalar c"
    and "concat texts = concat (map (\<lambda>l. l @ [newline]) ls) @ rest"
    and "\<forall>l \<in> set ls. newline \<notin> set l" and "newline \<notin> set rest"
  shows "feed_chunks [] (map (\<lambda>s. concat (map utf8_encode s)) texts) =
    (filter (\<lambda>l. l \<noteq> []) (map trim_line_end ls), rest)"
  using assms by (simp add: feed_chunks_texts drain_lines_exact)

theorem serial_lines_exact_witness:
  "feed_chunks [] (map (\<lambda>s. concat (map utf8_encode s)) [[79, 75, 13], [10, 10, 233], [10, 33]]) =
    ([[79, 75], [233]], [33])"
  using serial_lines_exact [of "[[79, 75, 13], [10, 10, 233], [10, 33]]" "[[79, 75, 13], [], [233]]" "[33]"]
  by (simp add: scalar_def newline_def carriage_return_def trim_line_end_def)

text \<open>
  Property C22. A watch that meets neither a stop request nor a read error before its time-out
  returns, and passes exactly if the expected patterns match lines in their order and no line up
  to the last of these matches a fail-on pattern; without expected patterns, if no line does.
\<close>

theorem serial_watch_verdict:
  assumes "\<forall>it \<in> set its. goes_on timeout it"
    and "\<not> stop_requested deadline" and "timeout * 1000000000 \<le> elapsed deadline"
  shows "snd (watch_loop is_match timeout False fail_on expect [] (its @ [deadline])) =
    Some (Inr (passes is_match fail_on expect (fst (feed_chunks [] (map read_bytes its)))))"
  using watch_loop_verdict [OF assms(1) _ assms(2,3), of "[]"] by (simp add: line_verdict_passes)

definition contains_text :: "string \<Rightarrow> scalars \<Rightarrow> bool" where
  "contains_text pat line \<longleftrightarrow> sublist (map of_char pat) line"

theorem serial_watch_verdict_witness:
  "snd (watch_loop contains_text 1 False [''no''] [''OK''] []
     [\<lparr>stop_requested = False, elapsed = 0, read_result = Data [79, 75, 10]\<rparr>,
      \<lparr>stop_requested = False, elapsed = 1000000000, read_result = ReadTimedOut\<rparr>]) =
   Some (Inr (passes contains_text [''no''] [''OK''] (fst (feed_chunks [] [[79, 75, 10]]))))"
  using serial_watch_verdict [of "[\<lparr>stop_requested = False, elapsed = 0, read_result = Data [79, 75, 10]\<rparr>]" 1
      "\<lparr>stop_requested = False, elapsed = 1000000000, read_result = ReadTimedOut\<rparr>"]
  by (simp add: goes_on_def read_bytes_def)

text \<open>
  The watch ends: a turn that sees the stop flag, the time-out or a read error ends it
  at the latest, with a verdict or the error.
\<close>

theorem serial_watch_ends:
  assumes "it \<in> set its" and "\<not> goes_on timeout it"
  shows "snd (watch_loop is_match timeout print_only fail_on expect buf its) \<noteq> None"
  using assms(1)
proof (induction its arbitrary: expect buf)
  case (Cons it' its)
  show ?case
  proof (cases "goes_on timeout it'")
    case True
    with Cons assms(2) have "snd (watch_loop is_match timeout print_only fail_on expect buf its) \<noteq> None"
      for expect buf by auto
    with True show ?thesis
      by (simp add: goes_on_def case_prod_beta split: read_result.splits option.split)
  qed (simp add: goes_on_def split: read_result.splits)
qed simp

theorem serial_watch_ends_witness:
  "snd (watch_loop (\<lambda>p l. False) 0 False [] [''OK''] []
     [\<lparr>stop_requested = False, elapsed = 0, read_result = ReadTimedOut\<rparr>]) \<noteq> None"
  by (rule serial_watch_ends [of "\<lparr>stop_requested = False, elapsed = 0, read_result = ReadTimedOut\<rparr>"])
    (simp_all add: goes_on_def)

text \<open>
  A character that two reads share is lost: both halves are replaced, and neither line
  nor pattern sees it again.
\<close>

theorem split_character_lost:
  assumes "0x80 \<le> c" and "c < 0x800"
  shows "feed_chunks [] [utf8_encode c] = ([], [c]) \<and>
    feed_chunks [] [take 1 (utf8_encode c), drop 1 (utf8_encode c)] = ([], [replacement, replacement])"
proof -
  have parts: "2 \<le> c div 64" "c div 64 < 32"
    using assms by (simp_all add: less_eq_div_iff_mult_less_eq div_less_iff_less_mult)
  have whole: "from_utf8_lossy (utf8_encode c) = [c]"
    using lossy_encode [of c "[]"] assms by (simp add: scalar_def)
  have halves: "from_utf8_lossy (take 1 (utf8_encode c)) = [replacement]"
    "from_utf8_lossy (drop 1 (utf8_encode c)) = [replacement]"
    using assms parts by (simp_all add: utf8_encode_def utf8_step_def)
  show ?thesis
    using assms by (simp only: feed_all.simps push_bytes_to_lines_def whole halves)
      (simp add: drain_lines_none newline_def replacement_def)
qed

theorem split_character_lost_witness:
  "feed_chunks [] [utf8_encode 0xE9] = ([], [0xE9]) \<and>
    feed_chunks [] [take 1 (utf8_encode 0xE9), drop 1 (utf8_encode 0xE9)] = ([], [replacement, replacement])"
  by (rule split_character_lost) simp_all

end
