(* ===== verification/BoardTests.thy ===== *)
theory BoardTests
  imports Postmortem Uart SerialWatch
begin

text \<open>
  The self-checking R5 programs under \<open>applications/rpu\<close> with the protocol of
  \<open>sdk/.../test_proto.h\<close>, as the text they send, and the pattern lists of the scripts under
  \<open>tests\<close> that judge them through the serial watch.
\<close>

section \<open>The programs\<close>

definition TEST_BEGIN :: "string \<Rightarrow> string" where
  "TEST_BEGIN name = ''[TEST BEGIN] '' @ name @ crlf"

definition TEST_PASS :: "string \<Rightarrow> string" where
  "TEST_PASS name = ''[TEST PASS] '' @ name @ crlf"

definition TEST_FAIL :: "string \<Rightarrow> string \<Rightarrow> string" where
  "TEST_FAIL name reason = ''[TEST FAIL] '' @ name @ '': '' @ reason @ crlf"

definition TEST_DIAG :: "string \<Rightarrow> string" where
  "TEST_DIAG msg = ''[TEST DIAG] '' @ msg @ crlf"

text \<open>\<open>fault_test\<close>: its hook, and its text when the injected instruction faults with the processor in
  state \<open>c\<close>, or does not fault.\<close>

definition fault_pm_on_exception :: "pm_record \<Rightarrow> string \<times> pm_record" where
  "fault_pm_on_exception r =
     (case pm_print r of (out, r') \<Rightarrow>
        (out @ TEST_PASS ''fault_capture'' @ ''[TEST ALL DONE]'' @ crlf, r'))"

definition fault_test_main :: "cpu option \<Rightarrow> pm_record \<Rightarrow> string \<times> pm_record" where
  "fault_test_main fault r =
     (let begun = TEST_BEGIN ''fault_capture'' @ ''[TEST DIAG] injecting undefined instruction'' @ crlf
      in case fault of
           Some c \<Rightarrow> map_prod ((@) begun) id (fault_pm_on_exception (pm_exc_handler UndefVector c r))
         | None \<Rightarrow> (begun @ TEST_FAIL ''fault_capture'' ''exception handler did not fire'', r))"

definition test_uart :: string where
  "test_uart = TEST_BEGIN ''bsp_uart'' @ TEST_DIAG ''UART polled write functional''
     @ [char_of (13 :: nat)] @ [char_of (10 :: nat)] @ TEST_PASS ''bsp_uart''"

definition bsp_test_main :: string where
  "bsp_test_main = test_uart @ ''[TEST ALL DONE]'' @ crlf"

text \<open>\<open>hello_world\<close>: the entry of its thread after \<open>n\<close> turns of its loop, behind the banner of \<open>main\<close>.\<close>

definition hello_entry :: "nat \<Rightarrow> string" where
  "hello_entry n = TEST_BEGIN ''hello_world'' @ ''Hello, World!'' @ crlf @ TEST_PASS ''hello_world''
     @ concat (replicate n (''Hello, World!'' @ crlf))"

definition hello_main :: "nat \<Rightarrow> string" where
  "hello_main n = crlf @ ''--- ThreadX Hello World (AES-ZUB R5F) ---'' @ crlf @ hello_entry n"

text \<open>\<open>orbtrace_workload\<close>: what its thread prints before it starts the workload.\<close>

definition workload_main :: string where
  "workload_main = crlf @ ''--- ThreadX ETM Workload (AES-ZUB R5F) ---'' @ crlf @ TEST_BEGIN ''orbtrace_workload''
     @ TEST_DIAG ''R5-0 ETM trace workload running'' @ TEST_PASS ''orbtrace_workload''"

section \<open>The scripts\<close>

text \<open>A regular expression that stands for a text: its brackets are escaped.\<close>

definition escaped :: "string \<Rightarrow> string" where
  "escaped s = concat (map (\<lambda>c. if c = CHR ''['' \<or> c = CHR '']'' then [CHR 0x5C, c] else [c]) s)"

definition fault_test_expect :: "string list" where
  "fault_test_expect = [escaped ''[TEST PASS] fault_capture'']"

definition bsp_test_expect :: "string list" where
  "bsp_test_expect = [escaped ''[TEST PASS] bsp_uart'']"

definition hello_test_expect :: "string list" where
  "hello_test_expect = [escaped ''[TEST PASS] hello_world'']"

definition workload_test_expect :: "string list" where
  "workload_test_expect = [escaped ''[TEST PASS] orbtrace_workload'']"

definition test_fail_on :: "string list" where
  "test_fail_on = [escaped ''[TEST FAIL]'']"

section \<open>Texts on the serial line\<close>

definition serial_bytes :: "string \<Rightarrow> 8 word list" where
  "serial_bytes s = map (\<lambda>c. of_nat (of_char c)) s"

definition plain :: "string \<Rightarrow> bool" where
  "plain s \<longleftrightarrow> (\<forall>c \<in> set s. 0x20 \<le> (of_char c :: nat) \<and> of_char c < (0x80 :: nat))"

definition text_lines :: "string list \<Rightarrow> string" where
  "text_lines ls = concat (map (\<lambda>l. l @ crlf) ls)"

lemma utf8_encode_ascii: "(of_char c :: nat) < 0x80 \<Longrightarrow> utf8_encode (of_char c) = [of_nat (of_char c)]"
  by (simp add: utf8_encode_def byte_of_def)

lemma ascii_scalar: "c < 0x80 \<Longrightarrow> scalar c"
  by (simp add: scalar_def)

lemma text_lines_simps [simp]:
  "text_lines [] = []" "text_lines (l # ls) = l @ crlf @ text_lines ls"
  "text_lines (ls @ ls') = text_lines ls @ text_lines ls'"
  by (simp_all add: text_lines_def)

lemma ascii_bytes:
  "\<forall>c \<in> set s. (of_char c :: nat) < 0x80 \<Longrightarrow> serial_bytes s = concat (map utf8_encode (ascii s))"
  by (induction s) (simp_all add: serial_bytes_def ascii_def utf8_encode_ascii)

text \<open>Every way to cut the bytes of such a text cuts the text.\<close>

lemma serial_chunks:
  "serial_bytes s = concat chunks \<Longrightarrow> \<exists>ss. concat ss = s \<and> chunks = map serial_bytes ss"
proof (induction chunks arbitrary: s)
  case (Cons c cs)
  then obtain u v where "s = u @ v" "serial_bytes u = c" "serial_bytes v = concat cs"
    by (auto simp: serial_bytes_def map_eq_append_conv)
  moreover from this(3) obtain ss where "concat ss = v" "cs = map serial_bytes ss" using Cons.IH by blast
  ultimately show ?case by (intro exI [of _ "u # ss"]) simp
qed (auto simp: serial_bytes_def)

lemma plain_no_end:
  "plain l \<Longrightarrow> newline \<notin> set (ascii l)" "plain l \<Longrightarrow> carriage_return \<notin> set (ascii l)"
  by (auto simp: ascii_def plain_def newline_def carriage_return_def)

lemma trim_plain: "plain l \<Longrightarrow> trim_line_end (ascii l @ [carriage_return]) = ascii l"
proof -
  assume "plain l"
  then have "\<forall>c \<in> set (rev (ascii l)). c \<notin> {carriage_return, newline}"
    using plain_no_end [of l] by auto
  then have "dropWhile (\<lambda>c. c \<in> {carriage_return, newline}) (rev (ascii l)) = rev (ascii l)"
    by (cases "rev (ascii l)") auto
  then show ?thesis by (simp add: trim_line_end_def)
qed

lemma ascii_text_lines:
  "ascii (text_lines ls @ rest) =
     concat (map (\<lambda>l. l @ [newline]) (map (\<lambda>l. ascii l @ [carriage_return]) ls)) @ ascii rest"
  by (induction ls) (simp_all add: ascii_def crlf_def newline_def carriage_return_def)

lemma text_lines_drained:
  assumes "\<forall>l \<in> set ls. plain l" "plain rest"
  shows "drain_lines (ascii (text_lines ls @ rest)) = (map ascii (filter (\<lambda>l. l \<noteq> []) ls), ascii rest)"
proof -
  let ?ls = "map (\<lambda>l. ascii l @ [carriage_return]) ls"
  have "newline \<noteq> carriage_return" by (simp add: newline_def carriage_return_def)
  then have "\<forall>l \<in> set ?ls. newline \<notin> set l" using assms(1) plain_no_end(1) by simp
  then have "drain_lines (ascii (text_lines ls @ rest)) = (filter (\<lambda>l. l \<noteq> []) (map trim_line_end ?ls), ascii rest)"
    unfolding ascii_text_lines by (rule drain_lines_exact) (rule plain_no_end(1) [OF assms(2)])
  moreover have "filter (\<lambda>l. l \<noteq> []) (map trim_line_end ?ls) = map ascii (filter (\<lambda>l. l \<noteq> []) ls)"
    using assms(1) by (induction ls) (simp_all add: trim_plain, simp_all add: ascii_def)
  ultimately show ?thesis by simp
qed

lemma watched_lines:
  assumes "\<forall>l \<in> set ls. plain l" "plain rest"
    and "concat (map read_bytes its) = serial_bytes (text_lines ls @ rest)"
  shows "fst (feed_chunks [] (map read_bytes its)) = map ascii (filter (\<lambda>l. l \<noteq> []) ls)"
proof -
  obtain ss where ss: "concat ss = text_lines ls @ rest" "map read_bytes its = map serial_bytes ss"
    using serial_chunks [OF assms(3) [symmetric]] by blast
  have small: "\<forall>c \<in> set (text_lines ls @ rest). (of_char c :: nat) < 0x80"
    using assms(1,2) by (auto simp: text_lines_def plain_def crlf_def)
  have "\<forall>s \<in> set ss. serial_bytes s = concat (map utf8_encode (ascii s))"
    using small by (intro ballI ascii_bytes) (auto simp: ss(1) [symmetric])
  then have chunks: "map serial_bytes ss = map (\<lambda>s. concat (map utf8_encode s)) (map ascii ss)" by simp
  have "\<forall>s \<in> set (map ascii ss). \<forall>c \<in> set s. scalar c"
    using small by (auto simp: ss(1) [symmetric] ascii_def intro!: ascii_scalar)
  then have "feed_chunks [] (map read_bytes its) = drain_lines (concat (map ascii ss))"
    unfolding ss(2) chunks by (subst feed_chunks_texts) simp_all
  moreover have "concat (map ascii ss) = ascii (text_lines ls @ rest)"
    by (simp add: ss(1) [symmetric] ascii_def [abs_def] map_concat)
  ultimately show ?thesis using text_lines_drained [OF assms(1,2)] by simp
qed

section \<open>The verdict on a text\<close>

lemma contains_text_ascii: "contains_text pat (ascii l) \<longleftrightarrow> sublist pat l"
proof -
  have inj: "map (of_char :: char \<Rightarrow> nat) a = map of_char b \<longleftrightarrow> a = b" for a b
    by (simp add: inj_map_eq_map inj_def)
  show ?thesis
    unfolding contains_text_def ascii_def sublist_def
    by (auto simp: map_eq_append_conv append_eq_map_conv inj intro: map_append)
qed

lemma bracket_text:
  "CHR ''['' \<notin> set rest \<Longrightarrow> sublist (CHR ''['' # p) (c # rest) \<longleftrightarrow> prefix (CHR ''['' # p) (c # rest)"
  by (auto simp: sublist_Cons_right dest: set_mono_sublist)

lemma passes_one:
  assumes "\<forall>l \<in> set ls. \<not> is_match q l"
  shows "passes is_match [q] [p] ls \<longleftrightarrow> (\<exists>l \<in> set ls. is_match p l)"
  using assms by (induction ls) (auto simp: passes_simps)

lemma passes_needs: "passes is_match fail_on [p] ls \<Longrightarrow> \<exists>l \<in> set ls. is_match p l"
  by (induction ls) (auto simp: passes_simps split: if_splits)

text \<open>The watch of a script over a text that arrives in any pieces, up to its time-out.\<close>

lemma text_verdict:
  assumes "\<forall>l \<in> set ls. plain l" "plain rest"
    and "concat (map read_bytes its) = serial_bytes (text_lines ls @ rest)"
    and "\<forall>it \<in> set its. goes_on timeout it"
    and "\<not> stop_requested deadline" "timeout * 1000000000 \<le> elapsed deadline"
    and "\<forall>line. is_match (escaped good) line = contains_text good line"
    and "\<forall>line. is_match (escaped ''[TEST FAIL]'') line = contains_text ''[TEST FAIL]'' line"
    and "good \<noteq> []" and "(\<exists>l \<in> set ls. sublist ''[TEST FAIL]'' l) \<longrightarrow> \<not> (\<exists>l \<in> set ls. sublist good l)"
  shows "snd (watch_loop is_match timeout False test_fail_on [escaped good] [] (its @ [deadline])) =
    Some (Inr (\<exists>l \<in> set ls. sublist good l))"
proof -
  let ?ls = "filter (\<lambda>l. l \<noteq> []) ls"
  have lines: "fst (feed_chunks [] (map read_bytes its)) = map ascii ?ls"
    by (rule watched_lines [OF assms(1-3)])
  have good: "(\<exists>l \<in> set (map ascii ?ls). is_match (escaped good) l) \<longleftrightarrow> (\<exists>l \<in> set ls. sublist good l)"
    using assms(7,9) by (auto simp: contains_text_ascii)
  have "passes is_match test_fail_on [escaped good] (map ascii ?ls) \<longleftrightarrow> (\<exists>l \<in> set ls. sublist good l)"
  proof (cases "\<exists>l \<in> set ls. sublist ''[TEST FAIL]'' l")
    case True
    with assms(10) have "\<not> (\<exists>l \<in> set ls. sublist good l)" by blast
    then show ?thesis using good passes_needs by metis
  next
    case False
    then have "\<forall>l \<in> set (map ascii ?ls). \<not> is_match (escaped ''[TEST FAIL]'') l"
      using assms(8) by (auto simp: contains_text_ascii)
    then show ?thesis unfolding test_fail_on_def good [symmetric] by (rule passes_one)
  qed
  then show ?thesis
    using watch_loop_verdict [OF assms(4) _ assms(5,6), of "[]"] lines by (simp add: line_verdict_passes)
qed

section \<open>The lines of the programs\<close>

lemma plain_append [simp]: "plain (s @ t) \<longleftrightarrow> plain s \<and> plain t"
  by (auto simp: plain_def)

lemma digit_char_range: "d < 16 \<Longrightarrow> 0x30 \<le> (of_char (digit_char d) :: nat) \<and> of_char (digit_char d) < (0x67 :: nat) \<and> digit_char d \<noteq> CHR ''[''"
proof -
  assume d: "d < 16"
  have "(of_char (CHR ''['') :: nat) = 91" by code_simp
  moreover have "(of_char (digit_char d) :: nat) = (if d < 10 then 48 + d else 87 + d)"
    using d by (simp add: digit_char_def of_char_of)
  ultimately show ?thesis using d by (auto split: if_splits)
qed

lemma fmt_addr_plain [simp]: "plain (fmt_addr v)" "CHR ''['' \<notin> set (fmt_addr v)"
proof -
  have digit: "\<exists>d < 16. c = digit_char d" if "c \<in> set (fmt_hex 8 (unat v))" for c
    using set_fmt_hex [OF that] .
  have "plain ''0x''" by code_simp
  moreover have "plain (fmt_hex 8 (unat v))"
    using digit digit_char_range by (fastforce simp: plain_def)
  ultimately show "plain (fmt_addr v)" by (simp only: fmt_addr_def fmt_0x_def plain_append)
  have "CHR ''['' \<notin> set (fmt_hex 8 (unat v))" using digit digit_char_range by metis
  then show "CHR ''['' \<notin> set (fmt_addr v)" by (simp add: fmt_addr_def fmt_0x_def)
qed

text \<open>A line of the printer: plain, with one bracket at its start, and so no token of the protocol.\<close>

definition pm_tag :: string where "pm_tag = ''[POSTMORTEM]''"

definition report_line :: "string \<Rightarrow> bool" where
  "report_line l \<longleftrightarrow> (\<exists>rest. l = pm_tag @ rest \<and> plain rest \<and> CHR ''['' \<notin> set rest)"

lemma report_line_plain: "report_line l \<Longrightarrow> plain l"
proof -
  have "plain pm_tag" by code_simp
  then show "report_line l \<Longrightarrow> plain l" by (auto simp: report_line_def)
qed

lemma report_line_tokens:
  assumes "report_line l"
  shows "\<not> sublist ''[TEST FAIL]'' l" "\<not> sublist (''[TEST PASS] '' @ name) l"
  using assms by (auto simp: report_line_def pm_tag_def bracket_text)

text \<open>Plain text without a bracket, and the lines of the printer made of it.\<close>

definition quiet :: "string \<Rightarrow> bool" where
  "quiet s \<longleftrightarrow> plain s \<and> CHR ''['' \<notin> set s"

lemma quiet_append [simp]: "quiet (s @ t) \<longleftrightarrow> quiet s \<and> quiet t"
  by (auto simp: quiet_def)

lemma quiet_fmt_addr [simp]: "quiet (fmt_addr v)"
  by (simp add: quiet_def)

lemma quiet_texts:
  "quiet '' exc=''" "quiet '' pc=''" "quiet '' lr=''" "quiet '' cpsr=''" "quiet '' crc=''" "quiet ''OK''" "quiet ''BAD''"
  "quiet '' r0=''" "quiet '' r1=''" "quiet '' r2=''" "quiet '' r3=''" "quiet '' r4=''" "quiet '' r5=''" "quiet '' r6=''"
  "quiet '' r7=''" "quiet '' r8=''" "quiet '' r9=''" "quiet '' r10=''" "quiet '' r11=''" "quiet '' r12=''"
  "quiet '' dfsr=''" "quiet '' dfar=''" "quiet '' ifsr=''"
  "quiet ''undef''" "quiet ''prefetch''" "quiet ''data-abort''" "quiet ''reserved''"
  by code_simp+


lemma quiet_exc_name [simp]: "quiet (pm_exc_name t)"
  unfolding pm_exc_name_def using quiet_texts by (simp only: split: if_split) simp

lemma report_lines:
  "l \<in> set (pm_lines exc_type cpsr pc lr_raw r dfsr dfar ifsr crc_ok) \<Longrightarrow> report_line l"
proof -
  have tagged: "quiet rest \<Longrightarrow> report_line (pm_tag @ rest)" for rest by (auto simp: report_line_def quiet_def)
  have crc: "quiet (if crc_ok then ''OK'' else ''BAD'')" using quiet_texts by (cases crc_ok) simp_all
  show "l \<in> set (pm_lines exc_type cpsr pc lr_raw r dfsr dfar ifsr crc_ok) \<Longrightarrow> report_line l"
    unfolding pm_lines_def pm_tag_def [symmetric] list.set Un_iff insert_iff empty_iff
    by (elim disjE FalseE; hypsubst; rule tagged; simp only: quiet_append quiet_texts quiet_fmt_addr quiet_exc_name crc simp_thms)
qed

section \<open>Properties\<close>

definition fault_test_lines :: "cpu option \<Rightarrow> string list" where
  "fault_test_lines fault =
     [''[TEST BEGIN] fault_capture'', ''[TEST DIAG] injecting undefined instruction'']
     @ (case fault of
          Some c \<Rightarrow> pm_lines PM_EXC_UNDEF (cpu_spsr c) (cpu_lr c - 4) (cpu_lr c) (cpu_r c)
              (cp15_dfsr c) (cp15_dfar c) (cp15_ifsr c) True
            @ [''[TEST PASS] fault_capture'', ''[TEST ALL DONE]'']
        | None \<Rightarrow> [''[TEST FAIL] fault_capture: exception handler did not fire''])"

lemma fault_test_text:
  assumes "\<forall>c. fault = Some c \<longrightarrow> length (cpu_r c) = 13"
  shows "fst (fault_test_main fault r) = text_lines (fault_test_lines fault)"
proof (cases fault)
  case (Some c)
  have offset: "cpu_lr c - lr_to_pc_offset (vector_exc_type UndefVector) = cpu_lr c - 4"
    by (simp add: lr_to_pc_offset_def vector_exc_type_def PM_EXC_UNDEF_def PM_EXC_DABT_def)
  note fields = pm_exc_handler_fields [of c UndefVector r]
  have words: "rec_exc_type (pm_exc_handler UndefVector c r) = PM_EXC_UNDEF"
    "rec_cpsr (pm_exc_handler UndefVector c r) = cpu_spsr c" "rec_pc (pm_exc_handler UndefVector c r) = cpu_lr c - 4"
    "rec_lr_raw (pm_exc_handler UndefVector c r) = cpu_lr c"
    "rec_dfsr (pm_exc_handler UndefVector c r) = cp15_dfsr c" "rec_dfar (pm_exc_handler UndefVector c r) = cp15_dfar c"
    "rec_ifsr (pm_exc_handler UndefVector c r) = cp15_ifsr c"
    using fields assms Some offset
    by (simp_all add: pm_words_def record_words_def vector_exc_type_def)
  then show ?thesis
    using fields assms Some
    by (simp add: fault_test_main_def fault_pm_on_exception_def pm_print_lines fault_test_lines_def text_lines_def
        TEST_BEGIN_def TEST_PASS_def Let_def)
next
  case None
  then show ?thesis
    by (simp add: fault_test_main_def fault_test_lines_def TEST_BEGIN_def TEST_FAIL_def Let_def)
qed

lemma token_lines:
  "plain ''[TEST BEGIN] fault_capture''" "plain ''[TEST DIAG] injecting undefined instruction''"
  "plain ''[TEST PASS] fault_capture''" "plain ''[TEST ALL DONE]''"
  "plain ''[TEST FAIL] fault_capture: exception handler did not fire''"
  by code_simp+

lemma fault_test_lines_plain: "\<forall>l \<in> set (fault_test_lines fault). plain l"
  using token_lines report_lines report_line_plain
  by (auto simp del: append_Cons simp: fault_test_lines_def split: option.splits)

lemma literal_tokens:
  "\<not> sublist ''[TEST PASS] fault_capture'' ''[TEST BEGIN] fault_capture''"
  "\<not> sublist ''[TEST PASS] fault_capture'' ''[TEST DIAG] injecting undefined instruction''"
  "\<not> sublist ''[TEST PASS] fault_capture'' ''[TEST FAIL] fault_capture: exception handler did not fire''"
  "\<not> sublist ''[TEST FAIL]'' ''[TEST BEGIN] fault_capture''"
  "\<not> sublist ''[TEST FAIL]'' ''[TEST DIAG] injecting undefined instruction''"
  "\<not> sublist ''[TEST FAIL]'' ''[TEST PASS] fault_capture''"
  "\<not> sublist ''[TEST FAIL]'' ''[TEST ALL DONE]''"
  by code_simp+

lemma fault_test_tokens:
  "(\<exists>l \<in> set (fault_test_lines fault). sublist ''[TEST PASS] fault_capture'' l) \<longleftrightarrow> fault \<noteq> None"
  "(\<exists>l \<in> set (fault_test_lines fault). sublist ''[TEST FAIL]'' l) \<longleftrightarrow> fault = None"
proof -
  have report: "\<not> sublist ''[TEST PASS] fault_capture'' l" "\<not> sublist ''[TEST FAIL]'' l"
    if "l \<in> set (pm_lines x c p lr r ds da i ok)" for l x c p lr r ds da i ok
    using report_line_tokens [OF report_lines [OF that]] by (auto dest: spec [of _ "''fault_capture''"])
  have fail: "sublist ''[TEST FAIL]'' ''[TEST FAIL] fault_capture: exception handler did not fire''" by code_simp
  show "(\<exists>l \<in> set (fault_test_lines fault). sublist ''[TEST PASS] fault_capture'' l) \<longleftrightarrow> fault \<noteq> None"
    "(\<exists>l \<in> set (fault_test_lines fault). sublist ''[TEST FAIL]'' l) \<longleftrightarrow> fault = None"
    unfolding fault_test_lines_def
    by (cases fault; simp only: option.case set_append list.set bex_Un bex_simps literal_tokens report fail; simp add: report)+
qed


definition script_regex :: "string \<Rightarrow> scalars \<Rightarrow> bool" where
  "script_regex pat = contains_text (filter (\<lambda>c. c \<noteq> CHR 0x5C) pat)"

lemma script_regex_escaped:
  "CHR 0x5C \<notin> set lit \<Longrightarrow> script_regex (escaped lit) line = contains_text lit line"
proof -
  assume "CHR 0x5C \<notin> set lit"
  then have "filter (\<lambda>c. c \<noteq> CHR 0x5C) (escaped lit) = lit"
    by (induction lit) (auto simp: escaped_def)
  then show ?thesis by (simp add: script_regex_def)
qed


text \<open>The other programs of the R5 pass their watch.\<close>

lemma text_passes:
  assumes "list_all plain ls" "\<not> list_ex (sublist ''[TEST FAIL]'') ls" "list_ex (sublist good) ls" "good \<noteq> []"
    and "concat (map read_bytes its) = serial_bytes (text_lines ls)" "\<forall>it \<in> set its. goes_on timeout it"
    and "\<not> stop_requested deadline" "timeout * 1000000000 \<le> elapsed deadline"
    and "\<forall>lit \<in> {good, ''[TEST FAIL]''}. \<forall>line. is_match (escaped lit) line = contains_text lit line"
  shows "snd (watch_loop is_match timeout False test_fail_on [escaped good] [] (its @ [deadline])) = Some (Inr True)"
proof -
  have facts: "\<forall>l \<in> set ls. plain l" "\<not> (\<exists>l \<in> set ls. sublist ''[TEST FAIL]'' l)" "\<exists>l \<in> set ls. sublist good l"
    using assms(1-3) by (simp_all add: list_all_iff list_ex_iff)
  have "snd (watch_loop is_match timeout False test_fail_on [escaped good] [] (its @ [deadline])) =
      Some (Inr (\<exists>l \<in> set ls. sublist good l))"
    using assms(4-9) facts(2) by (intro text_verdict [OF facts(1), where rest = "[]"]) (simp_all add: plain_def)
  with facts(3) show ?thesis by simp
qed

lemma bsp_test_passes:
  assumes "concat (map read_bytes its) = serial_bytes bsp_test_main" "\<forall>it \<in> set its. goes_on timeout it"
    and "\<not> stop_requested deadline" "timeout * 1000000000 \<le> elapsed deadline"
    and "\<forall>lit \<in> {''[TEST PASS] bsp_uart'', ''[TEST FAIL]''}. \<forall>line. is_match (escaped lit) line = contains_text lit line"
  shows "snd (watch_loop is_match timeout False test_fail_on bsp_test_expect [] (its @ [deadline])) = Some (Inr True)"
proof -
  let ?ls = "[''[TEST BEGIN] bsp_uart'', ''[TEST DIAG] UART polled write functional'', [], ''[TEST PASS] bsp_uart'',
    ''[TEST ALL DONE]'']"
  have body: "bsp_test_main = text_lines ?ls"
    by (simp add: bsp_test_main_def test_uart_def TEST_BEGIN_def TEST_DIAG_def TEST_PASS_def crlf_def)
  have "list_all plain ?ls" "\<not> list_ex (sublist ''[TEST FAIL]'') ?ls" "list_ex (sublist ''[TEST PASS] bsp_uart'') ?ls"
    by code_simp+
  then show ?thesis unfolding bsp_test_expect_def by (rule text_passes) (use assms body in simp_all)
qed

lemma hello_test_passes:
  assumes "concat (map read_bytes its) = serial_bytes (hello_main n)" "\<forall>it \<in> set its. goes_on timeout it"
    and "\<not> stop_requested deadline" "timeout * 1000000000 \<le> elapsed deadline"
    and "\<forall>lit \<in> {''[TEST PASS] hello_world'', ''[TEST FAIL]''}. \<forall>line. is_match (escaped lit) line = contains_text lit line"
  shows "snd (watch_loop is_match timeout False test_fail_on hello_test_expect [] (its @ [deadline])) = Some (Inr True)"
proof -
  let ?head = "[[], ''--- ThreadX Hello World (AES-ZUB R5F) ---'', ''[TEST BEGIN] hello_world'', ''Hello, World!'',
    ''[TEST PASS] hello_world'']"
  let ?ls = "?head @ replicate n ''Hello, World!''"
  have "text_lines (replicate n l) = concat (replicate n (l @ crlf))" for l by (induction n) simp_all
  then have body: "hello_main n = text_lines ?ls"
    by (simp add: hello_main_def hello_entry_def TEST_BEGIN_def TEST_PASS_def)
  have head: "list_all plain ?head" "\<not> list_ex (sublist ''[TEST FAIL]'') ?head" "list_ex (sublist ''[TEST PASS] hello_world'') ?head"
    and line: "plain ''Hello, World!''" "\<not> sublist ''[TEST FAIL]'' ''Hello, World!''"
    by code_simp+
  have rep: "list_all plain (replicate n ''Hello, World!'')" "\<not> list_ex (sublist ''[TEST FAIL]'') (replicate n ''Hello, World!'')"
    using line by (induction n) simp_all
  have "list_all plain ?ls" "\<not> list_ex (sublist ''[TEST FAIL]'') ?ls" "list_ex (sublist ''[TEST PASS] hello_world'') ?ls"
    using head rep by (simp_all only: list_all_append list_ex_append simp_thms)
  then show ?thesis unfolding hello_test_expect_def by (rule text_passes) (use assms body in simp_all)
qed

lemma workload_test_passes:
  assumes "concat (map read_bytes its) = serial_bytes workload_main" "\<forall>it \<in> set its. goes_on timeout it"
    and "\<not> stop_requested deadline" "timeout * 1000000000 \<le> elapsed deadline"
    and "\<forall>lit \<in> {''[TEST PASS] orbtrace_workload'', ''[TEST FAIL]''}. \<forall>line. is_match (escaped lit) line = contains_text lit line"
  shows "snd (watch_loop is_match timeout False test_fail_on workload_test_expect [] (its @ [deadline])) = Some (Inr True)"
proof -
  let ?ls = "[[], ''--- ThreadX ETM Workload (AES-ZUB R5F) ---'', ''[TEST BEGIN] orbtrace_workload'',
    ''[TEST DIAG] R5-0 ETM trace workload running'', ''[TEST PASS] orbtrace_workload'']"
  have body: "workload_main = text_lines ?ls"
    by (simp add: workload_main_def TEST_BEGIN_def TEST_DIAG_def TEST_PASS_def)
  have "list_all plain ?ls" "\<not> list_ex (sublist ''[TEST FAIL]'') ?ls" "list_ex (sublist ''[TEST PASS] orbtrace_workload'') ?ls"
    by code_simp+
  then show ?thesis unfolding workload_test_expect_def by (rule text_passes) (use assms body in simp_all)
qed

end
