(* ===== verification/CWorkloads.thy ===== *)
theory CWorkloads
  imports Workloads
begin

text \<open>
  The C programs that emit the stimuli on the board: \<open>applications/orbtrace/firmware/m3_app/src/main.c\<close> with
  \<open>sdk/bsp/m3/itm.h\<close> on the M3, and \<open>applications/rpu/orbtrace_workload/main.c\<close> on the R5, both ported
  by hand from the Rust crates of \<open>Workloads\<close>. Here they are tied to these.
\<close>

section \<open>The M3\<close>

text \<open>A store to a stimulus port, by its width.\<close>

datatype stim_store = STIM u32 u32 | STIM16 u32 u16 | STIM8 u32 u8

text \<open>\<open>polls\<close> is what the reads of the port answer; the loop leaves at the first that is ready.\<close>

fun m3_itm_wait :: "u32 list \<Rightarrow> u32 list option" where
  "m3_itm_wait [] = None"
| "m3_itm_wait (p # polls) = (if p AND 1 = 0 then m3_itm_wait polls else Some polls)"

definition m3_itm_write :: "u32 list \<Rightarrow> u32 \<Rightarrow> u32 \<Rightarrow> (stim_store \<times> u32 list) option" where
  "m3_itm_write polls port v = map_option (Pair (STIM port v)) (m3_itm_wait polls)"

definition m3_itm_write_width :: "u32 list \<Rightarrow> u32 \<Rightarrow> u32 \<Rightarrow> u8 \<Rightarrow> (stim_store \<times> u32 list) option" where
  "m3_itm_write_width polls port v width =
     map_option (Pair (if width = 1 then STIM8 port (ucast v) else if width = 2 then STIM16 port (ucast v)
       else STIM port v)) (m3_itm_wait polls)"

record c_workload =
  c_state :: u32
  c_sequence :: u32

definition c_workload_init :: c_workload where
  "c_workload_init = \<lparr>c_state = 7, c_sequence = 0\<rparr>"

text \<open>The three steps of the generator and the count, which both programs start with.\<close>

definition c_advance :: "c_workload \<Rightarrow> c_workload" where
  "c_advance w =
     (let w = w\<lparr>c_state := c_state w XOR push_bit 13 (c_state w)\<rparr>;
          w = w\<lparr>c_state := c_state w XOR drop_bit 17 (c_state w)\<rparr>;
          w = w\<lparr>c_state := c_state w XOR push_bit 5 (c_state w)\<rparr>
      in w\<lparr>c_sequence := c_sequence w + 1\<rparr>)"

definition m3_emit_next :: "u32 list \<Rightarrow> c_workload \<Rightarrow> c_workload \<times> (stim_store \<times> u32 list) option" where
  "m3_emit_next polls w =
     (let w = c_advance w; n = c_sequence w AND 15
      in (w, if n = 0 then m3_itm_write polls 0 (c_sequence w)
             else if n = 1 then m3_itm_write polls 0 ((c_state w AND 0x3ff) + 1)
             else if n = 2 then m3_itm_write_width polls 0 (c_state w AND 0xff) 1
             else if n = 3 then m3_itm_write polls 0 (0xf0010000 OR c_sequence w)
             else let channel = n mod 7 + 1; widths = [1, 2, 4]
                  in m3_itm_write_width polls channel (c_state w) (widths ! unat (n mod 3))))"

text \<open>The loop of \<open>main\<close> for \<open>n\<close> turns: the stores, the heartbeat, and whether the program still runs.\<close>

fun m3_main_loop :: "nat \<Rightarrow> u32 list \<Rightarrow> c_workload \<Rightarrow> u32 \<Rightarrow> stim_store list \<times> u32 \<times> bool" where
  "m3_main_loop 0 polls w heartbeat = ([], heartbeat, True)"
| "m3_main_loop (Suc n) polls w heartbeat =
     (case m3_emit_next polls w of
        (w', None) \<Rightarrow> ([], heartbeat, False)
      | (w', Some (store, polls')) \<Rightarrow> map_prod (Cons store) id (m3_main_loop n polls' w' (heartbeat + 1)))"

text \<open>The set-up of the trace unit: the value of \<open>DEMCR\<close> before, and the stores in their order.\<close>

datatype m3_register = M3_DEMCR | M3_ITM_LAR | M3_TPIU_SPPR | M3_TPIU_CSPSR | M3_ITM_TER | M3_DWT_CTRL | M3_ITM_TCR
  | M3_TPIU_ACPR

definition m3_itm_init :: "u32 \<Rightarrow> u32 \<Rightarrow> (m3_register \<times> u32) list" where
  "m3_itm_init demcr port_width_select =
     (let cspsr_bit = (if port_width_select = 2 then 3 else port_width_select)
      in [(M3_DEMCR, demcr OR push_bit 24 1), (M3_ITM_LAR, 0xC5ACCE55), (M3_TPIU_SPPR, 0),
          (M3_TPIU_CSPSR, push_bit (unat cspsr_bit) 1), (M3_ITM_TER, 0xff),
          (M3_DWT_CTRL, push_bit 0 1 OR push_bit 10 1),
          (M3_ITM_TCR, push_bit 0 1 OR push_bit 2 1 OR push_bit 3 1 OR push_bit 16 1)])"

definition m3_itm_init_swo_nrz :: "u32 \<Rightarrow> u32 \<Rightarrow> (m3_register \<times> u32) list" where
  "m3_itm_init_swo_nrz demcr acpr =
     [(M3_DEMCR, demcr OR push_bit 24 1), (M3_ITM_LAR, 0xC5ACCE55), (M3_TPIU_ACPR, acpr), (M3_TPIU_SPPR, 2),
      (M3_ITM_TER, 0xff), (M3_ITM_TCR, push_bit 0 1 OR push_bit 3 1 OR push_bit 16 1)]"

section \<open>The R5\<close>

text \<open>A turn either calls one of the functions that the compiler must keep apart, or spins.\<close>

datatype r5_call = ActionCall nat u32 | ActionBranch bool | ActionFault u32 | ActionMarker u32 | SpinLoop u32

definition r5_emit_next :: "c_workload \<Rightarrow> c_workload \<times> r5_call" where
  "r5_emit_next w =
     (let w = c_advance w; n = c_sequence w AND 15
      in (w, if n = 0 then ActionMarker (c_sequence w)
             else if n = 1 then SpinLoop ((c_state w AND 0x3ff) + 1)
             else if n = 2 then ActionBranch (c_state w AND 1 = 0)
             else if n = 3 then ActionFault (0xf0010000 OR c_sequence w)
             else let target = n mod 7
                  in if target = 0 then ActionCall 0 (c_state w)
                     else if target = 1 then ActionCall 1 (c_state w)
                     else if target = 2 then ActionCall 2 (c_state w)
                     else if target = 3 then ActionCall 3 (c_state w)
                     else if target = 4 then ActionCall 4 (c_state w)
                     else if target = 5 then ActionCall 5 (c_state w)
                     else ActionCall 6 (c_state w)))"

text \<open>What the functions do to \<open>g_heartbeat\<close>.\<close>

fun r5_heartbeat :: "r5_call \<Rightarrow> u32 \<Rightarrow> u32" where
  "r5_heartbeat (ActionCall k v) h = h + ((v AND 0xff) + (of_nat k + 1))"
| "r5_heartbeat (ActionBranch taken) h = h + (if taken then 101 else 103)"
| "r5_heartbeat (ActionFault code) h = h + (code AND 0xff)"
| "r5_heartbeat (ActionMarker seq) h = h + (seq AND 0xff)"
| "r5_heartbeat (SpinLoop spins) h = h"

section \<open>Agreement\<close>

definition as_workload :: "c_workload \<Rightarrow> workload" where
  "as_workload w = \<lparr>wl_state = c_state w, wl_sequence = c_sequence w\<rparr>"

lemma as_workload_advance [simp]: "as_workload (c_advance w) = workload_advance (as_workload w)"
  by (simp add: as_workload_def c_advance_def workload_advance_def xorshift_def Let_def)

lemma as_workload_init: "as_workload c_workload_init = workload_new 7"
  by (simp add: as_workload_def c_workload_init_def workload_new_def)

text \<open>The packet that the trace unit makes of a store.\<close>

fun store_packet :: "stim_store \<Rightarrow> itm_packet" where
  "store_packet (STIM port v) = Swit (ucast port) v 4"
| "store_packet (STIM16 port v) = Swit (ucast port) (ucast v) 2"
| "store_packet (STIM8 port v) = Swit (ucast port) (ucast v) 1"

lemma low_four: "unat (s AND 15 :: u32) < 16"
proof -
  have "s AND 15 = take_bit 4 s" by (simp add: take_bit_eq_mask mask_eq_exp_minus_1)
  then show ?thesis by (simp only: unsigned_take_bit_eq) (simp add: take_bit_nat_less_exp [of 4, simplified])
qed

lemma low_four_cases:
  assumes "\<And>k. k < 16 \<Longrightarrow> P (of_nat k)"
  shows "P (s AND 15 :: u32)"
  using assms [OF low_four [of s]] by simp

lemma ucast_ucast_mask:
  "(ucast (ucast (v :: u32) :: u8) :: u32) = take_bit 8 v" "(ucast (ucast (v :: u32) :: u16) :: u32) = take_bit 16 v"
  by (rule bit_word_eqI; auto simp: bit_ucast_iff bit_take_bit_iff)+

lemma take_bit_u32: "take_bit 8 v AND 255 = take_bit 8 v" "take_bit 32 v = v" for v :: u32
proof -
  have "(255 :: u32) = mask 8" by (simp add: mask_eq_exp_minus_1)
  then show "take_bit 8 v AND 255 = take_bit 8 v" by (simp add: take_bit_eq_mask and.assoc)
  show "take_bit 32 v = v" by (rule bit_word_eqI) (auto simp: bit_take_bit_iff)
qed

text \<open>One turn: the port is written once, when it is ready, with the packet of the reference event.\<close>

definition chosen_store :: "c_workload \<Rightarrow> stim_store" where
  "chosen_store w =
     (let n = c_sequence w AND 15
      in if n = 0 then STIM 0 (c_sequence w)
         else if n = 1 then STIM 0 ((c_state w AND 0x3ff) + 1)
         else if n = 2 then STIM8 0 (ucast (c_state w AND 0xff))
         else if n = 3 then STIM 0 (0xf0010000 OR c_sequence w)
         else let width = [1, 2, 4 :: u8] ! unat (n mod 3); channel = n mod 7 + 1
              in if width = 1 then STIM8 channel (ucast (c_state w))
                 else if width = 2 then STIM16 channel (ucast (c_state w))
                 else STIM channel (c_state w))"

lemma m3_emit_next_store:
  "m3_emit_next polls w = (c_advance w, map_option (Pair (chosen_store (c_advance w))) (m3_itm_wait polls))"
  by (simp add: m3_emit_next_def m3_itm_write_def m3_itm_write_width_def chosen_store_def Let_def)

lemma less_16_cases:
  "k < 16 \<Longrightarrow> k \<in> {0, 1, 2, 3, 4, 5, 6, 7, 8, 9, 10, 11, 12, 13, 14, 15 :: nat}"
  by (simp add: less_Suc_eq eval_nat_numeral)

lemma chosen_store_packet:
  "store_packet (chosen_store (c_advance w)) = event_write (snd (m3_next (as_workload w)))"
proof -
  obtain k where k: "k < 16" "c_sequence (c_advance w) AND 15 = of_nat k"
    using low_four [of "c_sequence (c_advance w)"] by (metis of_nat_unat ucast_id)
  have w': "wl_state (workload_advance (as_workload w)) = c_state (c_advance w)"
    "wl_sequence (workload_advance (as_workload w)) = c_sequence (c_advance w)"
    unfolding as_workload_advance [symmetric] by (simp_all add: as_workload_def)
  show ?thesis
    using less_16_cases [OF k(1)] k(2)
    by (elim insertE emptyE)
      (simp_all add: chosen_store_def m3_next_def Let_def w' ucast_ucast_mask take_bit_u32)
qed

text \<open>The R5 program calls what the reference names.\<close>

definition r5_action :: "r5_call \<Rightarrow> rpu_action" where
  "r5_action c = (case c of ActionCall k v \<Rightarrow> Call (of_nat k) | ActionBranch taken \<Rightarrow> Branch taken
     | ActionFault code \<Rightarrow> RpuFault code | ActionMarker seq \<Rightarrow> Marker seq | SpinLoop spins \<Rightarrow> Spin spins)"

lemma r5_emit_next_action:
  "as_workload (fst (r5_emit_next w)) = fst (rpu_next (as_workload w))"
  "r5_action (snd (r5_emit_next w)) = snd (rpu_next (as_workload w))"
proof -
  have w': "wl_state (workload_advance (as_workload w)) = c_state (c_advance w)"
    "wl_sequence (workload_advance (as_workload w)) = c_sequence (c_advance w)"
    unfolding as_workload_advance [symmetric] by (simp_all add: as_workload_def)
  show "as_workload (fst (r5_emit_next w)) = fst (rpu_next (as_workload w))"
    by (simp add: r5_emit_next_def rpu_next_def Let_def)
  obtain k where k: "k < 16" "c_sequence (c_advance w) AND 15 = of_nat k"
    using low_four [of "c_sequence (c_advance w)"] by (metis of_nat_unat ucast_id)
  show "r5_action (snd (r5_emit_next w)) = snd (rpu_next (as_workload w))"
    using less_16_cases [OF k(1)] k(2)
    by (elim insertE emptyE) (simp_all add: r5_emit_next_def rpu_next_def r5_action_def Let_def w')
qed

section \<open>Properties\<close>

text \<open>The reference actions of the R5 from a state, and those the C program performs.\<close>

primrec rpu_actions :: "nat \<Rightarrow> workload \<Rightarrow> rpu_action list" where
  "rpu_actions 0 w = []"
| "rpu_actions (Suc n) w = (case rpu_next w of (w', a) \<Rightarrow> a # rpu_actions n w')"

primrec r5_calls :: "nat \<Rightarrow> c_workload \<Rightarrow> r5_call list" where
  "r5_calls 0 w = []"
| "r5_calls (Suc n) w = (case r5_emit_next w of (w', c) \<Rightarrow> c # r5_calls n w')"

lemma m3_emit_next_agrees:
  "as_workload (fst (m3_emit_next polls w)) = fst (m3_next (as_workload w))"
  by (simp add: m3_emit_next_store m3_next_def Let_def)

lemma m3_main_loop_events:
  "\<exists>k \<le> n. map store_packet (fst (m3_main_loop n polls w h)) = map event_write (m3_events k (as_workload w))
     \<and> (snd (snd (m3_main_loop n polls w h)) \<longrightarrow> k = n) \<and> fst (snd (m3_main_loop n polls w h)) = h + of_nat k"
proof (induction n arbitrary: polls w h)
  case (Suc n)
  show ?case
  proof (cases "m3_itm_wait polls")
    case None
    then show ?thesis by (intro exI [of _ 0]) (simp add: m3_emit_next_store)
  next
    case (Some polls')
    let ?w = "c_advance w"
    have next_ev: "m3_next (as_workload w) = (as_workload ?w, snd (m3_next (as_workload w)))"
      by (simp add: m3_next_def Let_def)
    obtain k where "k \<le> n"
      "map store_packet (fst (m3_main_loop n polls' ?w (h + 1))) = map event_write (m3_events k (as_workload ?w))"
      "snd (snd (m3_main_loop n polls' ?w (h + 1))) \<longrightarrow> k = n"
      "fst (snd (m3_main_loop n polls' ?w (h + 1))) = h + 1 + of_nat k"
      using Suc.IH [of polls' ?w "h + 1"] by blast
    moreover have "m3_events (Suc k) (as_workload w) = snd (m3_next (as_workload w)) # m3_events k (as_workload ?w)" for k
      by (subst m3_events.simps(2), subst next_ev) simp
    ultimately show ?thesis using Some
      by (intro exI [of _ "Suc k"]) (simp add: m3_emit_next_store chosen_store_packet del: m3_events.simps)
  qed
qed simp

lemma m3_main_loop_runs:
  "n \<le> length (filter (\<lambda>p. p AND 1 \<noteq> 0) polls) \<Longrightarrow> snd (snd (m3_main_loop n polls w h))"
proof (induction n arbitrary: polls w h)
  case (Suc n)
  have wait: "k < length (filter (\<lambda>p. p AND 1 \<noteq> 0) ps) \<Longrightarrow>
      \<exists>ps'. m3_itm_wait ps = Some ps' \<and> k \<le> length (filter (\<lambda>p. p AND 1 \<noteq> 0) ps')" for k ps
    by (induction ps) (auto split: if_splits)
  from wait [of n polls] Suc.prems obtain polls' where
    "m3_itm_wait polls = Some polls'" "n \<le> length (filter (\<lambda>p. p AND 1 \<noteq> 0) polls')" by auto
  with Suc.IH show ?case by (simp add: m3_emit_next_store)
qed simp

text \<open>
  Property C31. The C programs are the reference models. Whatever the stimulus ports answer, after
  any number of turns the M3 program has made the stores of a prefix of the reference events from seed 7,
  and of all of them if the ports were ready that often; the host decodes the packets of these stores to
  exactly these events. The R5 program performs the reference actions, in their order.
\<close>

theorem c_stimuli_match_reference:
  "(\<exists>k \<le> n. map store_packet (fst (m3_main_loop n polls c_workload_init 0)) = map event_write (m3_events k (workload_new 7))
      \<and> (n \<le> length (filter (\<lambda>p. p AND 1 \<noteq> 0) polls) \<longrightarrow> k = n)
      \<and> decode_itm_stream (concat (map itm_packet_bytes (map store_packet (fst (m3_main_loop n polls c_workload_init 0)))))
          = map event_write (m3_events k (workload_new 7)))
    \<and> map r5_action (r5_calls n c_workload_init) = rpu_actions n (workload_new 7)"
proof
  obtain k where k: "k \<le> n"
    "map store_packet (fst (m3_main_loop n polls c_workload_init 0)) = map event_write (m3_events k (workload_new 7))"
    "snd (snd (m3_main_loop n polls c_workload_init 0)) \<longrightarrow> k = n"
    using m3_main_loop_events [of n polls c_workload_init 0] unfolding as_workload_init by blast
  have "decode_itm_stream (concat (map itm_packet_bytes (map event_write (m3_events k (workload_new 7))))) =
      map event_write (m3_events k (workload_new 7))"
    using workload_stream_recovered by blast
  with k m3_main_loop_runs [of n polls c_workload_init 0]
  show "\<exists>k \<le> n. map store_packet (fst (m3_main_loop n polls c_workload_init 0)) = map event_write (m3_events k (workload_new 7))
      \<and> (n \<le> length (filter (\<lambda>p. p AND 1 \<noteq> 0) polls) \<longrightarrow> k = n)
      \<and> decode_itm_stream (concat (map itm_packet_bytes (map store_packet (fst (m3_main_loop n polls c_workload_init 0)))))
          = map event_write (m3_events k (workload_new 7))"
    by (intro exI [of _ k]) simp
  have "map r5_action (r5_calls n w) = rpu_actions n (as_workload w)" for w
  proof (induction n arbitrary: w)
    case (Suc n)
    then show ?case
      using r5_emit_next_action [of w] by (cases "r5_emit_next w"; cases "rpu_next (as_workload w)") simp
  qed simp
  then show "map r5_action (r5_calls n c_workload_init) = rpu_actions n (workload_new 7)"
    by (simp add: as_workload_init)
qed

theorem c_stimuli_match_reference_witness:
  "map store_packet (fst (m3_main_loop 2 [0, 1, 1] c_workload_init 0)) = map event_write (m3_events 2 (workload_new 7))"
  using c_stimuli_match_reference [of 2 "[0, 1, 1]"] by auto

text \<open>The port size is one-hot at the width less one, for the three legal selections.\<close>

lemma m3_itm_init_port_size:
  "map (\<lambda>s. the (map_of (m3_itm_init d s) M3_TPIU_CSPSR)) [0, 1, 2] = [push_bit (1 - 1) 1, push_bit (2 - 1) 1, push_bit (4 - 1) 1]"
  by (simp add: m3_itm_init_def)

end
