(* ===== verification/Elf.thy ===== *)
theory Elf
  imports Text
begin

text \<open>
  The firmware image checker, \<open>tooling/elf_check/src/lib.rs\<close>: reading of the ELF header, the
  program headers and the symbol tables, the validation functions, and the checks that
  \<open>tooling/elf_check/src/main.rs\<close> makes of them. The host is a 64-bit machine: \<open>usize\<close> has 64
  bits, and conversions of \<open>u64\<close> to it do not fail.
\<close>

section \<open>Data\<close>

definition elf_magic :: bytes where "elf_magic = [0x7f, 69, 76, 70]"
definition pt_load :: u32 where "pt_load = 1"
definition sht_symtab :: u32 where "sht_symtab = 2"
definition sht_dynsym :: u32 where "sht_dynsym = 11"
definition pf_x :: u32 where "pf_x = 1"
definition pf_w :: u32 where "pf_w = 2"
definition pf_r :: u32 where "pf_r = 4"
definition em_arm :: u16 where "em_arm = 40"
definition em_aarch64 :: u16 where "em_aarch64 = 183"

datatype elf_class = Elf32 | Elf64

record load_segment =
  seg_flags :: u32
  virtual_address :: u64
  memory_size :: u64
  alignment :: u64

definition is_read_execute :: "load_segment \<Rightarrow> bool" where
  "is_read_execute s \<longleftrightarrow> seg_flags s AND (pf_r OR pf_x OR pf_w) = (pf_r OR pf_x)"

definition is_read_write :: "load_segment \<Rightarrow> bool" where
  "is_read_write s \<longleftrightarrow> seg_flags s AND (pf_r OR pf_x OR pf_w) = (pf_r OR pf_w)"

definition is_writable_and_executable :: "load_segment \<Rightarrow> bool" where
  "is_writable_and_executable s \<longleftrightarrow> seg_flags s AND (pf_w OR pf_x) = (pf_w OR pf_x)"

text \<open>A name is the UTF-8 bytes of the string.\<close>

record symbol =
  symbol_name :: bytes
  symbol_value :: u64

record elf_file =
  elf_class :: elf_class
  elf_machine :: u16
  elf_entry :: u64
  load_segments :: "load_segment list"
  elf_symbols :: "symbol list"

section \<open>Reading\<close>

definition hex_of :: "nat \<Rightarrow> string" where "hex_of n = fmt_0x 0 n"

definition saturating_add :: "nat \<Rightarrow> nat \<Rightarrow> nat" where
  "saturating_add a b = min (a + b) usize_max"

definition byte_range :: "bytes \<Rightarrow> nat \<Rightarrow> nat \<Rightarrow> string + bytes" where
  "byte_range bs offset n =
     (if offset \<le> saturating_add offset n \<and> saturating_add offset n \<le> length bs
      then Inr (slice_of offset (saturating_add offset n) bs)
      else Inl (''truncated ELF at offset '' @ hex_of offset))"

definition u16_at :: "bytes \<Rightarrow> nat \<Rightarrow> string + u16" where
  "u16_at bs offset = bind_res (byte_range bs offset 2) (\<lambda>v. Inr (from_le v))"

definition u32_at :: "bytes \<Rightarrow> nat \<Rightarrow> string + u32" where
  "u32_at bs offset = bind_res (byte_range bs offset 4) (\<lambda>v. Inr (from_le v))"

definition u64_at :: "bytes \<Rightarrow> nat \<Rightarrow> string + u64" where
  "u64_at bs offset = bind_res (byte_range bs offset 8) (\<lambda>v. Inr (from_le v))"

text \<open>A word of the class: \<open>u32_at(..)? as u64\<close> or \<open>u64_at(..)?\<close>.\<close>

definition addr_at :: "elf_class \<Rightarrow> bytes \<Rightarrow> nat \<Rightarrow> nat \<Rightarrow> string + u64" where
  "addr_at cl bs off32 off64 =
     (case cl of Elf32 \<Rightarrow> bind_res (u32_at bs off32) (\<lambda>v. Inr (ucast v)) | Elf64 \<Rightarrow> u64_at bs off64)"

definition half_at :: "elf_class \<Rightarrow> bytes \<Rightarrow> nat \<Rightarrow> nat \<Rightarrow> string + nat" where
  "half_at cl bs off32 off64 =
     bind_res (u16_at bs (case cl of Elf32 \<Rightarrow> off32 | Elf64 \<Rightarrow> off64)) (\<lambda>v. Inr (unat v))"

definition ok_or :: "string \<Rightarrow> 'a option \<Rightarrow> string + 'a" where
  "ok_or e v = (case v of Some x \<Rightarrow> Inr x | None \<Rightarrow> Inl e)"

definition checked_mul_usize :: "nat \<Rightarrow> nat \<Rightarrow> nat option" where
  "checked_mul_usize a b = (if a * b \<le> usize_max then Some (a * b) else None)"

section \<open>Program headers\<close>

text \<open>The body of the loop for one header of type load.\<close>

definition parse_load_segment :: "elf_class \<Rightarrow> bytes \<Rightarrow> nat \<Rightarrow> string + load_segment" where
  "parse_load_segment cl bs offset =
     bind_res (u32_at bs (offset + (case cl of Elf32 \<Rightarrow> 24 | Elf64 \<Rightarrow> 4))) (\<lambda>flags.
     bind_res (addr_at cl bs (offset + 8) (offset + 16)) (\<lambda>va.
     bind_res (addr_at cl bs (offset + 20) (offset + 40)) (\<lambda>msize.
     bind_res (addr_at cl bs (offset + 28) (offset + 48)) (\<lambda>align.
     Inr \<lparr>seg_flags = flags, virtual_address = va, memory_size = msize, alignment = align\<rparr>))))"

fun parse_program_headers :: "elf_class \<Rightarrow> bytes \<Rightarrow> nat \<Rightarrow> nat \<Rightarrow> nat list \<Rightarrow> string + load_segment list" where
  "parse_program_headers cl bs phoff phsize [] = Inr []"
| "parse_program_headers cl bs phoff phsize (index # rest) =
     bind_res (ok_or ''program header offset overflow'' (checked_add_usize phoff (index * phsize))) (\<lambda>offset.
     bind_res (byte_range bs offset phsize) (\<lambda>_.
     bind_res (u32_at bs offset) (\<lambda>ptype.
     bind_res (if ptype = pt_load
               then bind_res (parse_load_segment cl bs offset) (\<lambda>s. Inr [s]) else Inr []) (\<lambda>here.
     bind_res (parse_program_headers cl bs phoff phsize rest) (\<lambda>later. Inr (here @ later))))))"

section \<open>Symbols\<close>

text \<open>\<open>std::str::from_utf8\<close>: well-formed UTF-8 by the table of the Unicode standard.\<close>

definition cont :: "u8 \<Rightarrow> bool" where "cont b \<longleftrightarrow> 0x80 \<le> b \<and> b \<le> 0xbf"

fun valid_utf8 :: "bytes \<Rightarrow> bool" where
  "valid_utf8 [] = True"
| "valid_utf8 (a # r) =
     (if a \<le> 0x7f then valid_utf8 r
      else if 0xc2 \<le> a \<and> a \<le> 0xdf then
        (case r of b # r1 \<Rightarrow> cont b \<and> valid_utf8 r1 | _ \<Rightarrow> False)
      else if 0xe0 \<le> a \<and> a \<le> 0xef then
        (case r of b # c # r2 \<Rightarrow> cont b \<and> cont c \<and> (a = 0xe0 \<longrightarrow> 0xa0 \<le> b) \<and> (a = 0xed \<longrightarrow> b \<le> 0x9f)
            \<and> valid_utf8 r2
         | _ \<Rightarrow> False)
      else if 0xf0 \<le> a \<and> a \<le> 0xf4 then
        (case r of b # c # d # r3 \<Rightarrow> cont b \<and> cont c \<and> cont d \<and> (a = 0xf0 \<longrightarrow> 0x90 \<le> b)
            \<and> (a = 0xf4 \<longrightarrow> b \<le> 0x8f) \<and> valid_utf8 r3
         | _ \<Rightarrow> False)
      else False)"

text \<open>One symbol of a table: skipped when undefined, out of the string table or not a string.\<close>

definition parse_symbol :: "elf_class \<Rightarrow> bytes \<Rightarrow> bytes \<Rightarrow> string + symbol option" where
  "parse_symbol cl strings entry =
     bind_res (u32_at entry 0) (\<lambda>n. let name_offset = unat n in
     bind_res (addr_at cl entry 4 8) (\<lambda>v.
     bind_res (half_at cl entry 14 6) (\<lambda>section_index.
     if section_index = 0 \<or> name_offset \<ge> length strings then Inr None
     else let name = takeWhile (\<lambda>b. b \<noteq> 0) (drop name_offset strings)
       in Inr (if valid_utf8 name then Some \<lparr>symbol_name = name, symbol_value = v\<rparr> else None))))"

text \<open>
  \<open>(start..end).step_by(entry_size)\<close>; the entry size is at least 16 here, so the second half of the
  condition always holds.
\<close>

function symbol_loop :: "elf_class \<Rightarrow> bytes \<Rightarrow> bytes \<Rightarrow> nat \<Rightarrow> nat \<Rightarrow> nat \<Rightarrow> string + symbol list" where
  "symbol_loop cl bs strings entry_size off stop =
     (if off < stop \<and> 0 < entry_size then
        bind_res (byte_range bs off entry_size) (\<lambda>entry.
        bind_res (parse_symbol cl strings entry) (\<lambda>found.
        bind_res (symbol_loop cl bs strings entry_size (off + entry_size) stop) (\<lambda>rest.
        Inr ((case found of Some s \<Rightarrow> [s] | None \<Rightarrow> []) @ rest))))
      else Inr [])"
  by pat_completeness auto
termination
  by (relation "measure (\<lambda>(cl, bs, strings, entry_size, off, stop). stop - off)") auto

declare symbol_loop.simps [simp del]

text \<open>The table of one section: its entries and the string table its link names.\<close>

definition parse_symbol_section :: "elf_class \<Rightarrow> bytes \<Rightarrow> nat \<Rightarrow> nat \<Rightarrow> nat \<Rightarrow> string + symbol list" where
  "parse_symbol_section cl bs shoff shsize offset =
     bind_res (addr_at cl bs (offset + 16) (offset + 24)) (\<lambda>section_offset.
     bind_res (addr_at cl bs (offset + 20) (offset + 32)) (\<lambda>section_size.
     bind_res (u32_at bs (offset + (case cl of Elf32 \<Rightarrow> 24 | Elf64 \<Rightarrow> 40))) (\<lambda>link.
     bind_res (addr_at cl bs (offset + 36) (offset + 56)) (\<lambda>entry_size.
     if unat entry_size < (case cl of Elf32 \<Rightarrow> 16 | Elf64 \<Rightarrow> 24) then
       Inl (''symbol entry is too small: '' @ fmt_dec (unat entry_size) @ '' bytes'')
     else bind_res (ok_or ''string table header offset overflow'' (checked_mul_usize (unat link) shsize)) (\<lambda>p.
       bind_res (ok_or ''string table header offset overflow'' (checked_add_usize shoff p)) (\<lambda>stroff.
       bind_res (byte_range bs stroff shsize) (\<lambda>_.
       bind_res (addr_at cl bs (stroff + 16) (stroff + 24)) (\<lambda>strings_offset.
       bind_res (addr_at cl bs (stroff + 20) (stroff + 32)) (\<lambda>strings_size.
       bind_res (byte_range bs (unat strings_offset) (unat strings_size)) (\<lambda>strings.
       if unat section_size mod unat entry_size \<noteq> 0 then
         Inl ''symbol table size is not a multiple of its entry size''
       else symbol_loop cl bs strings (unat entry_size) (unat section_offset)
         (saturating_add (unat section_offset) (unat section_size))))))))))))"

fun parse_sections :: "elf_class \<Rightarrow> bytes \<Rightarrow> nat \<Rightarrow> nat \<Rightarrow> nat list \<Rightarrow> string + symbol list" where
  "parse_sections cl bs shoff shsize [] = Inr []"
| "parse_sections cl bs shoff shsize (index # rest) =
     bind_res (ok_or ''section header offset overflow'' (checked_mul_usize index shsize)) (\<lambda>p.
     bind_res (ok_or ''section header offset overflow'' (checked_add_usize shoff p)) (\<lambda>offset.
     bind_res (byte_range bs offset shsize) (\<lambda>_.
     bind_res (u32_at bs (offset + 4)) (\<lambda>section_type.
     bind_res (if section_type \<noteq> sht_symtab \<and> section_type \<noteq> sht_dynsym then Inr []
               else parse_symbol_section cl bs shoff shsize offset) (\<lambda>here.
     bind_res (parse_sections cl bs shoff shsize rest) (\<lambda>later. Inr (here @ later)))))))"

definition parse_symbols :: "bytes \<Rightarrow> elf_class \<Rightarrow> string + symbol list" where
  "parse_symbols bs cl =
     bind_res (addr_at cl bs 32 40) (\<lambda>shoff.
     bind_res (half_at cl bs 46 58) (\<lambda>shsize.
     bind_res (half_at cl bs 48 60) (\<lambda>shnum.
     if shnum = 0 then Inr []
     else if shsize < (case cl of Elf32 \<Rightarrow> 40 | Elf64 \<Rightarrow> 64) then
       Inl (''section header entry is too small: '' @ fmt_dec shsize @ '' bytes'')
     else parse_sections cl bs (unat shoff) shsize [0..<shnum])))"

definition elf_parse :: "bytes \<Rightarrow> string + elf_file" where
  "elf_parse bs =
     bind_res (byte_range bs 0 16) (\<lambda>ident.
     if take 4 ident \<noteq> elf_magic then Inl ''not an ELF file''
     else if bs ! 5 \<noteq> 1 then Inl ''only little-endian ELF is supported''
     else bind_res (if bs ! 4 = 1 then Inr Elf32 else if bs ! 4 = 2 then Inr Elf64
                    else Inl (''unsupported ELF class '' @ fmt_dec (unat (bs ! 4)))) (\<lambda>cl.
     bind_res (u16_at bs 18) (\<lambda>machine.
     bind_res (addr_at cl bs 24 24) (\<lambda>entry.
     bind_res (addr_at cl bs 28 32) (\<lambda>phoff.
     bind_res (half_at cl bs 42 54) (\<lambda>phsize.
     bind_res (half_at cl bs 44 56) (\<lambda>phnum.
     if phsize < (case cl of Elf32 \<Rightarrow> 32 | Elf64 \<Rightarrow> 56) then
       Inl (''program header entry is too small: '' @ fmt_dec phsize @ '' bytes'')
     else bind_res (parse_program_headers cl bs (unat phoff) phsize [0..<phnum]) (\<lambda>segments.
     bind_res (parse_symbols bs cl) (\<lambda>symbols.
     Inr \<lparr>elf_class = cl, elf_machine = machine, elf_entry = entry, load_segments = segments,
       elf_symbols = symbols\<rparr>)))))))))"

section \<open>Validation\<close>

definition elf_validate :: "elf_file \<Rightarrow> string + unit" where
  "elf_validate elf =
     (let non_empty = filter (\<lambda>s. memory_size s > 0) (load_segments elf)
      in if non_empty = [] then Inl ''ELF has no PT_LOAD segments with non-zero size''
         else if list_ex is_writable_and_executable non_empty then
           Inl ''ELF has a writable-and-executable PT_LOAD segment''
         else if \<not> list_ex is_read_execute non_empty then
           Inl ''ELF has no read-execute PT_LOAD segment''
         else Inr ())"

definition validate_identity :: "elf_file \<Rightarrow> u16 \<Rightarrow> u64 \<Rightarrow> string + unit" where
  "validate_identity elf machine entry =
     (if elf_machine elf \<noteq> machine then
        Inl (''ELF machine is '' @ fmt_dec (unat (elf_machine elf)) @ '', expected '' @ fmt_dec (unat machine))
      else if elf_entry elf \<noteq> entry then
        Inl (''ELF entry point is '' @ hex_of (unat (elf_entry elf)) @ '', expected '' @ hex_of (unat entry))
      else Inr ())"

definition checked_add_u64 :: "u64 \<Rightarrow> u64 \<Rightarrow> u64 option" where
  "checked_add_u64 a b = (if a + b < a then None else Some (a + b))"

definition is_power_of_two_u64 :: "u64 \<Rightarrow> bool" where
  "is_power_of_two_u64 v = list_ex (\<lambda>k. v = push_bit k 1) [0..<64]"

fun validate_segments :: "u64 \<Rightarrow> u64 \<Rightarrow> load_segment list \<Rightarrow> string + unit" where
  "validate_segments start stop [] = Inr ()"
| "validate_segments start stop (s # rest) =
     (if memory_size s = 0 then validate_segments start stop rest
      else bind_res (ok_or ''PT_LOAD segment address overflows''
             (checked_add_u64 (virtual_address s) (memory_size s))) (\<lambda>segment_end.
        if virtual_address s < start \<or> segment_end > stop then
          Inl (''PT_LOAD segment '' @ hex_of (unat (virtual_address s)) @ ''..'' @ hex_of (unat segment_end)
            @ '' is outside '' @ hex_of (unat start) @ ''..'' @ hex_of (unat stop))
        else if alignment s \<noteq> 0 \<and> \<not> is_power_of_two_u64 (alignment s) then
          Inl (''PT_LOAD segment at '' @ hex_of (unat (virtual_address s))
            @ '' has non-power-of-two alignment '' @ hex_of (unat (alignment s)))
        else validate_segments start stop rest))"

definition validate_memory :: "elf_file \<Rightarrow> u64 \<Rightarrow> u64 \<Rightarrow> string + unit" where
  "validate_memory elf start stop =
     (if start \<ge> stop then Inl ''memory range must have a non-zero size''
      else validate_segments start stop (load_segments elf))"

definition validate_required_symbol :: "elf_file \<Rightarrow> bytes \<Rightarrow> string + unit" where
  "validate_required_symbol elf required =
     (if list_ex (\<lambda>s. symbol_name s = required) (elf_symbols elf) then Inr ()
      else Inl (''ELF is missing required symbol '' @ map (\<lambda>b. char_of (unat b)) required))"

end
