(* ===== verification/ElfCheck.thy ===== *)
theory ElfCheck
  imports Elf
begin

text \<open>
  The command line of the image checker, \<open>tooling/elf_check/src/main.rs\<close>, and what its checks
  together mean for an image, in terms of permission bits and of addresses as natural numbers.
\<close>

section \<open>The command line\<close>

record elf_options =
  expected_machine :: "u16 option"
  expected_entry :: "u64 option"
  memory_range :: "(u64 \<times> u64) option"
  required_symbols :: "bytes list"
  firmware_path :: "string option"

datatype elf_outcome = UsageError string | Help | Failed string | Passed string

definition no_options :: elf_options where
  "no_options = \<lparr>expected_machine = None, expected_entry = None, memory_range = None,
     required_symbols = [], firmware_path = None\<rparr>"

definition parse_address :: "string \<Rightarrow> string \<Rightarrow> string + u64" where
  "parse_address v e =
     (let digits = (if take 2 v = ''0x'' then drop 2 v else v)
      in case from_str_radix (2 ^ 64 - 1) 16 digits of Some n \<Rightarrow> Inr (of_nat n) | None \<Rightarrow> Inl e)"

definition parse_range :: "string \<Rightarrow> string + u64 \<times> u64" where
  "parse_range v =
     (if CHR '':'' \<notin> set v then Inl ''--range must be START:END''
      else bind_res (parse_address (takeWhile (\<lambda>c. c \<noteq> CHR '':'') v) ''--range addresses must be hexadecimal'') (\<lambda>a.
           bind_res (parse_address (tl (dropWhile (\<lambda>c. c \<noteq> CHR '':'') v)) ''--range addresses must be hexadecimal'') (\<lambda>b.
           Inr (a, b))))"

definition parse_machine :: "string \<Rightarrow> string + u16" where
  "parse_machine v =
     (if v = ''arm'' then Inr em_arm else if v = ''aarch64'' then Inr em_aarch64
      else Inl ''--machine must be arm or aarch64'')"

text \<open>\<open>next_value\<close> and the parser of an option's value.\<close>

definition with_value :: "string \<Rightarrow> string list \<Rightarrow> (string \<Rightarrow> string + 'a) \<Rightarrow> string + 'a" where
  "with_value option args f = (case args of [] \<Rightarrow> Inl (option @ '' requires a value'') | v # _ \<Rightarrow> f v)"

text \<open>The left side of the result is what the program does at once: a usage error or the help.\<close>

function elf_args :: "elf_options \<Rightarrow> string list \<Rightarrow> elf_outcome + elf_options" where
  "elf_args opts args =
     (case args of
        [] \<Rightarrow> Inr opts
      | arg # rest \<Rightarrow>
          if arg = ''--machine'' then
            (case with_value arg rest parse_machine of
               Inl e \<Rightarrow> Inl (UsageError e) | Inr m \<Rightarrow> elf_args (opts\<lparr>expected_machine := Some m\<rparr>) (tl rest))
          else if arg = ''--entry'' then
            (case with_value arg rest (\<lambda>v. parse_address v ''--entry must be hexadecimal'') of
               Inl e \<Rightarrow> Inl (UsageError e) | Inr a \<Rightarrow> elf_args (opts\<lparr>expected_entry := Some a\<rparr>) (tl rest))
          else if arg = ''--range'' then
            (case with_value arg rest parse_range of
               Inl e \<Rightarrow> Inl (UsageError e) | Inr r \<Rightarrow> elf_args (opts\<lparr>memory_range := Some r\<rparr>) (tl rest))
          else if arg = ''--require-symbol'' then
            (case with_value arg rest Inr of
               Inl e \<Rightarrow> Inl (UsageError e)
             | Inr v \<Rightarrow> elf_args (opts\<lparr>required_symbols := required_symbols opts @ [map of_char v]\<rparr>) (tl rest))
          else if arg = ''-h'' \<or> arg = ''--help'' then Inl Help
          else if firmware_path opts = None then elf_args (opts\<lparr>firmware_path := Some arg\<rparr>) rest
          else Inl (UsageError ''expected one firmware path''))"
  by pat_completeness auto
termination
  by (relation "measure (\<lambda>(opts, args). length args)") auto

declare elf_args.simps [simp del]

section \<open>The checks\<close>

fun check_symbols :: "elf_file \<Rightarrow> bytes list \<Rightarrow> string + unit" where
  "check_symbols elf [] = Inr ()"
| "check_symbols elf (s # rest) = bind_res (validate_required_symbol elf s) (\<lambda>_. check_symbols elf rest)"

definition class_name :: "elf_class \<Rightarrow> string" where
  "class_name cl = (case cl of Elf32 \<Rightarrow> ''ELF32'' | Elf64 \<Rightarrow> ''ELF64'')"

definition fail_or :: "string \<Rightarrow> string + 'a \<Rightarrow> ('a \<Rightarrow> elf_outcome) \<Rightarrow> elf_outcome" where
  "fail_or path r f = (case r of Inl e \<Rightarrow> Failed (''elf_check: '' @ path @ '': '' @ e) | Inr x \<Rightarrow> f x)"

definition check_image :: "string \<Rightarrow> elf_options \<Rightarrow> bytes \<Rightarrow> elf_outcome" where
  "check_image path opts bs =
     fail_or path (elf_parse bs) (\<lambda>elf.
     fail_or path (elf_validate elf) (\<lambda>_.
     let rest =
       fail_or path (case memory_range opts of
           Some (start, stop) \<Rightarrow> validate_memory elf start stop | None \<Rightarrow> Inr ()) (\<lambda>_.
       fail_or path (check_symbols elf (required_symbols opts)) (\<lambda>_.
       Passed (path @ '': '' @ class_name (elf_class elf) @ '' machine='' @ fmt_dec (unat (elf_machine elf))
         @ '' entry='' @ hex_of (unat (elf_entry elf)) @ '', '' @ fmt_dec (length (load_segments elf))
         @ '' PT_LOAD segment(s) validated'')))
     in (case (expected_machine opts, expected_entry opts) of
           (Some m, Some a) \<Rightarrow> fail_or path (validate_identity elf m a) (\<lambda>_. rest)
         | (None, None) \<Rightarrow> rest
         | _ \<Rightarrow> UsageError ''--machine and --entry must be used together'')))"

text \<open>\<open>main\<close>, with the files of the host as a function.\<close>

definition elf_main :: "(string \<Rightarrow> string + bytes) \<Rightarrow> string list \<Rightarrow> elf_outcome" where
  "elf_main read_file args =
     (case elf_args no_options args of
        Inl outcome \<Rightarrow> outcome
      | Inr opts \<Rightarrow> (case firmware_path opts of
          None \<Rightarrow> UsageError ''missing firmware path''
        | Some path \<Rightarrow> fail_or path (read_file path) (check_image path opts)))"

section \<open>What acceptance means\<close>

text \<open>Permissions of a segment: bits 0, 1 and 2 are execute, write and read.\<close>

definition executable_bit :: "load_segment \<Rightarrow> bool" where "executable_bit s = bit (seg_flags s) 0"
definition writable_bit :: "load_segment \<Rightarrow> bool" where "writable_bit s = bit (seg_flags s) 1"
definition readable_bit :: "load_segment \<Rightarrow> bool" where "readable_bit s = bit (seg_flags s) 2"

definition occupied :: "elf_file \<Rightarrow> load_segment list" where
  "occupied elf = filter (\<lambda>s. unat (memory_size s) \<noteq> 0) (load_segments elf)"

definition hardened :: "elf_file \<Rightarrow> bool" where
  "hardened elf \<longleftrightarrow>
     (\<forall>s \<in> set (occupied elf). \<not> (writable_bit s \<and> executable_bit s))
     \<and> (\<exists>s \<in> set (occupied elf). readable_bit s \<and> executable_bit s)"

definition inside :: "nat \<Rightarrow> nat \<Rightarrow> load_segment \<Rightarrow> bool" where
  "inside start stop s \<longleftrightarrow> start \<le> unat (virtual_address s)
     \<and> unat (virtual_address s) + unat (memory_size s) \<le> stop
     \<and> (alignment s = 0 \<or> (\<exists>k. unat (alignment s) = 2 ^ k))"

definition meets :: "elf_options \<Rightarrow> elf_file \<Rightarrow> bool" where
  "meets opts elf \<longleftrightarrow>
     (expected_machine opts = None \<longleftrightarrow> expected_entry opts = None)
     \<and> (\<forall>m. expected_machine opts = Some m \<longrightarrow> elf_machine elf = m)
     \<and> (\<forall>a. expected_entry opts = Some a \<longrightarrow> elf_entry elf = a)
     \<and> (\<forall>start stop. memory_range opts = Some (start, stop) \<longrightarrow>
          start < stop \<and> (\<forall>s \<in> set (occupied elf). inside (unat start) (unat stop) s))
     \<and> set (required_symbols opts) \<subseteq> set (map symbol_name (elf_symbols elf))"

lemma flag_bits:
  "is_writable_and_executable s \<longleftrightarrow> writable_bit s \<and> executable_bit s"
  "is_read_execute s \<longleftrightarrow> readable_bit s \<and> executable_bit s \<and> \<not> writable_bit s"
  "is_read_write s \<longleftrightarrow> readable_bit s \<and> writable_bit s \<and> \<not> executable_bit s"
proof -
  let ?f = "seg_flags s"
  have seven: "?f AND 7 = horner_sum of_bool 2 [bit ?f 0, bit ?f 1, bit ?f 2]"
    and three: "?f AND 3 = horner_sum of_bool 2 [bit ?f 0, bit ?f 1]"
    using horner_sum_bit_eq_take_bit [of ?f 3] horner_sum_bit_eq_take_bit [of ?f 2]
    by (simp_all add: take_bit_eq_mask mask_eq_exp_minus_1 upt_rec numeral_2_eq_2 [symmetric])
  show "is_writable_and_executable s \<longleftrightarrow> writable_bit s \<and> executable_bit s"
    by (simp add: is_writable_and_executable_def pf_w_def pf_x_def writable_bit_def executable_bit_def three)
  show "is_read_execute s \<longleftrightarrow> readable_bit s \<and> executable_bit s \<and> \<not> writable_bit s"
    "is_read_write s \<longleftrightarrow> readable_bit s \<and> writable_bit s \<and> \<not> executable_bit s"
    by (simp_all add: is_read_execute_def is_read_write_def pf_r_def pf_w_def pf_x_def writable_bit_def
        executable_bit_def readable_bit_def seven)
qed

lemma validate_hardened: "elf_validate elf = Inr () \<longleftrightarrow> hardened elf"
proof -
  have "filter (\<lambda>s. memory_size s > 0) (load_segments elf) = occupied elf"
    unfolding occupied_def by (intro filter_cong refl) (auto simp: word_less_nat_alt)
  then show ?thesis
    by (auto simp: elf_validate_def Let_def hardened_def flag_bits list_ex_iff)
qed

lemma checked_add_u64_eq:
  "checked_add_u64 a b = (if unat a + unat b < 2 ^ 64 then Some (a + b) else None)"
proof -
  have "a + b < a \<longleftrightarrow> \<not> unat a + unat b < 2 ^ 64"
    using no_olen_add_nat [of a b] by (simp add: not_le [symmetric])
  then show ?thesis by (simp add: checked_add_u64_def)
qed

lemma power_of_two_u64: "is_power_of_two_u64 v \<longleftrightarrow> (\<exists>k. unat v = 2 ^ k)"
proof -
  have pw: "unat (push_bit k 1 :: u64) = 2 ^ k" if "k < 64" for k
  proof -
    have "(push_bit k 1 :: u64) = of_nat (2 ^ k)" by (simp add: push_bit_eq_mult)
    moreover have "(2 :: nat) ^ k < 2 ^ LENGTH(64)"
      using that by (simp only: power_strict_increasing_iff) simp
    ultimately show ?thesis by (simp only: unat_of_nat_less)
  qed
  show ?thesis
  proof
    assume "is_power_of_two_u64 v"
    then show "\<exists>k. unat v = 2 ^ k" using pw by (auto simp: is_power_of_two_u64_def list_ex_iff)
  next
    assume "\<exists>k. unat v = 2 ^ k"
    then obtain k where k: "unat v = 2 ^ k" ..
    then have "(2 :: nat) ^ k < 2 ^ 64" using unsigned_less [of v, where 'a = nat] by simp
    then have "k < 64" by (simp only: power_strict_increasing_iff)
    with k pw have "v = push_bit k 1" by (simp add: word_unat_eq_iff)
    with \<open>k < 64\<close> show "is_power_of_two_u64 v" by (auto simp: is_power_of_two_u64_def list_ex_iff)
  qed
qed

lemma validate_segments_inside:
  "validate_segments start stop segs = Inr () \<longleftrightarrow>
     (\<forall>s \<in> set (filter (\<lambda>s. unat (memory_size s) \<noteq> 0) segs). inside (unat start) (unat stop) s)"
proof (induction segs)
  case (Cons s segs)
  have nz: "0 < unat (memory_size s) \<longleftrightarrow> memory_size s \<noteq> 0" "unat (memory_size s) = 0 \<longleftrightarrow> memory_size s = 0"
    by (simp_all add: unat_eq_0 unat_gt_0)
  show ?case
  proof (cases "memory_size s \<noteq> 0 \<and> unat (virtual_address s) + unat (memory_size s) < 2 ^ 64")
    case True
    then have "unat (virtual_address s + memory_size s) = unat (virtual_address s) + unat (memory_size s)"
      by (simp add: unat_word_ariths)
    with True Cons show ?thesis
      by (auto simp: checked_add_u64_eq ok_or_def inside_def power_of_two_u64 word_le_nat_alt word_less_nat_alt nz)
  next
    case False
    have "unat stop < 2 ^ 64" using unsigned_less [of stop, where 'a = nat] by simp
    with False Cons show ?thesis
      by (auto simp: checked_add_u64_eq ok_or_def inside_def nz)
  qed
qed simp

lemma validate_memory_inside:
  "validate_memory elf start stop = Inr () \<longleftrightarrow>
     start < stop \<and> (\<forall>s \<in> set (occupied elf). inside (unat start) (unat stop) s)"
  unfolding occupied_def validate_segments_inside [symmetric] by (auto simp: validate_memory_def)

lemma check_symbols_subset:
  "check_symbols elf names = Inr () \<longleftrightarrow> set names \<subseteq> set (map symbol_name (elf_symbols elf))"
  by (induction names) (auto simp: validate_required_symbol_def list_ex_iff)

lemma validate_identity_eq:
  "validate_identity elf m a = Inr () \<longleftrightarrow> elf_machine elf = m \<and> elf_entry elf = a"
  by (simp add: validate_identity_def)

lemma fail_or_passed: "fail_or path r f = Passed line \<longleftrightarrow> (\<exists>x. r = Inr x \<and> f x = Passed line)"
  by (cases r) (simp_all add: fail_or_def)

text \<open>
  Property C21. What the checker guarantees. An image passes exactly when it can be read, no segment
  that occupies memory is both writable and executable, one of them can be read and executed, and
  everything asked for on the command line holds: machine and entry point, given together, are the
  expected ones; every such segment lies in the address range, as natural numbers, without
  wrap-around, with an alignment of zero or a power of two; and every required symbol is there.
\<close>

theorem image_accepted_iff:
  "(\<exists>line. check_image path opts bs = Passed line) \<longleftrightarrow>
     (\<exists>elf. elf_parse bs = Inr elf \<and> hardened elf \<and> meets opts elf)"
proof -
  have range: "(case memory_range opts of Some (a, b) \<Rightarrow> validate_memory elf a b | None \<Rightarrow> Inr ()) = Inr () \<longleftrightarrow>
      (\<forall>a b. memory_range opts = Some (a, b) \<longrightarrow>
          a < b \<and> (\<forall>s \<in> set (occupied elf). inside (unat a) (unat b) s))" for elf
    by (auto simp: validate_memory_inside split: option.split)
  show ?thesis
    by (cases "expected_machine opts"; cases "expected_entry opts")
      (auto simp: check_image_def fail_or_passed Let_def validate_hardened range check_symbols_subset
        validate_identity_eq meets_def)
qed

end
