(* ===== verification/ElfImage.thy ===== *)
theory ElfImage
  imports ElfCheck
begin

text \<open>
  What an ELF file says, as a relation between the bytes of the file, in any layout, and its
  contents; and the property that \<open>parse\<close> of \<open>tooling/elf_check/src/lib.rs\<close> reads exactly that.
  The format is that of the System V ABI: fixed fields of the header, a table of program headers
  and a table of section headers of any entry size that is large enough, symbol tables with a
  linked string table.
\<close>

section \<open>Fields of a file\<close>

text \<open>The bytes \<open>v\<close> stand at an offset of the file.\<close>

definition holds :: "bytes \<Rightarrow> nat \<Rightarrow> bytes \<Rightarrow> bool" where
  "holds bs off v \<longleftrightarrow> off + length v \<le> length bs \<and> take (length v) (drop off bs) = v"

definition sel :: "elf_class \<Rightarrow> nat \<Rightarrow> nat \<Rightarrow> nat" where
  "sel cl a b = (case cl of Elf32 \<Rightarrow> a | Elf64 \<Rightarrow> b)"

lemma sel_simps [simp]: "sel Elf32 a b = a" "sel Elf64 a b = b"
  by (simp_all add: sel_def)

text \<open>An address or size of the class; in a 32-bit file it has 32 bits.\<close>

definition holds_addr :: "elf_class \<Rightarrow> bytes \<Rightarrow> nat \<Rightarrow> nat \<Rightarrow> u64 \<Rightarrow> bool" where
  "holds_addr cl bs off32 off64 v \<longleftrightarrow>
     (case cl of Elf32 \<Rightarrow> (\<exists>h :: u32. holds bs off32 (u32_le h) \<and> v = ucast h)
      | Elf64 \<Rightarrow> holds bs off64 (u64_le v))"

definition holds_half :: "elf_class \<Rightarrow> bytes \<Rightarrow> nat \<Rightarrow> nat \<Rightarrow> nat \<Rightarrow> bool" where
  "holds_half cl bs off32 off64 n \<longleftrightarrow> n < 2 ^ 16 \<and> holds bs (sel cl off32 off64) (u16_le (of_nat n))"

section \<open>Contents\<close>

definition header_at :: "elf_class \<Rightarrow> bytes \<Rightarrow> nat \<Rightarrow> load_segment option \<Rightarrow> bool" where
  "header_at cl bs off h \<longleftrightarrow>
     (case h of
        None \<Rightarrow> (\<exists>t. t \<noteq> pt_load \<and> holds bs off (u32_le t))
      | Some s \<Rightarrow> holds bs off (u32_le pt_load)
          \<and> holds bs (off + sel cl 24 4) (u32_le (seg_flags s))
          \<and> holds_addr cl bs (off + 8) (off + 16) (virtual_address s)
          \<and> holds_addr cl bs (off + 20) (off + 40) (memory_size s)
          \<and> holds_addr cl bs (off + 28) (off + 48) (alignment s))"

definition table_at :: "(nat \<Rightarrow> 'a \<Rightarrow> bool) \<Rightarrow> bytes \<Rightarrow> nat \<Rightarrow> nat \<Rightarrow> 'a list \<Rightarrow> bool" where
  "table_at entry_ok bs off esz xs \<longleftrightarrow>
     (\<forall>i < length xs. off + i * esz + esz \<le> length bs \<and> entry_ok (off + i * esz) (xs ! i))"

text \<open>A name starts at an offset of the string table and goes to the next zero or to the end.\<close>

definition name_at :: "bytes \<Rightarrow> nat \<Rightarrow> bytes \<Rightarrow> bool" where
  "name_at strings n name \<longleftrightarrow> 0 \<notin> set name \<and> n < length strings
     \<and> (drop n strings = name \<or> (\<exists>rest. drop n strings = name @ 0 # rest))"

definition symbol_at :: "elf_class \<Rightarrow> bytes \<Rightarrow> bytes \<Rightarrow> nat \<Rightarrow> symbol option \<Rightarrow> bool" where
  "symbol_at cl bs strings off s \<longleftrightarrow>
     (\<exists>n section_index v. holds bs off (u32_le n)
        \<and> holds_addr cl bs (off + 4) (off + 8) v
        \<and> holds_half cl bs (off + 14) (off + 6) section_index
        \<and> (case s of
             Some y \<Rightarrow> section_index \<noteq> 0 \<and> v = symbol_value y \<and> valid_utf8 (symbol_name y)
               \<and> name_at strings (unat n) (symbol_name y)
           | None \<Rightarrow> section_index = 0 \<or> length strings \<le> unat n
               \<or> (\<exists>name. name_at strings (unat n) name \<and> \<not> valid_utf8 name)))"

text \<open>A section: no symbol table, or one with the given entries.\<close>

definition section_at :: "elf_class \<Rightarrow> bytes \<Rightarrow> nat \<Rightarrow> nat \<Rightarrow> nat \<Rightarrow> symbol option list option \<Rightarrow> bool" where
  "section_at cl bs shoff shsize off sec \<longleftrightarrow>
     (case sec of
        None \<Rightarrow> (\<exists>t. t \<noteq> sht_symtab \<and> t \<noteq> sht_dynsym \<and> holds bs (off + 4) (u32_le t))
      | Some entries \<Rightarrow>
          (\<exists>t link esize soff stroff strings.
             (t = sht_symtab \<or> t = sht_dynsym) \<and> holds bs (off + 4) (u32_le t)
             \<and> holds_addr cl bs (off + 16) (off + 24) soff
             \<and> holds_addr cl bs (off + 20) (off + 32) (of_nat (length entries * unat esize))
             \<and> length entries * unat esize < 2 ^ 64
             \<and> holds bs (off + sel cl 24 40) (u32_le link)
             \<and> holds_addr cl bs (off + 36) (off + 56) esize \<and> sel cl 16 24 \<le> unat esize
             \<and> shoff + unat link * shsize + shsize \<le> length bs
             \<and> holds_addr cl bs (shoff + unat link * shsize + 16) (shoff + unat link * shsize + 24) stroff
             \<and> holds_addr cl bs (shoff + unat link * shsize + 20) (shoff + unat link * shsize + 32)
                 (of_nat (length strings))
             \<and> holds bs (unat stroff) strings
             \<and> table_at (symbol_at cl bs strings) bs (unat soff) (unat esize) entries))"

definition somes :: "'a option list \<Rightarrow> 'a list" where
  "somes = List.map_filter (\<lambda>x. x)"

lemma somes_simps [simp]:
  "somes [] = []" "somes (None # xs) = somes xs" "somes (Some x # xs) = x # somes xs"
  by (simp_all add: somes_def List.map_filter_def)

definition describes :: "bytes \<Rightarrow> elf_file \<Rightarrow> bool" where
  "describes bs elf \<longleftrightarrow> length bs \<le> usize_max \<and> 16 \<le> length bs
     \<and> (let cl = elf_class elf in
        holds bs 0 (elf_magic @ [of_nat (sel cl 1 2), 1])
      \<and> holds bs 18 (u16_le (elf_machine elf))
      \<and> holds_addr cl bs 24 24 (elf_entry elf)
      \<and> (\<exists>phoff phsize headers. holds_addr cl bs 28 32 phoff
          \<and> holds_half cl bs 42 54 phsize \<and> sel cl 32 56 \<le> phsize
          \<and> holds_half cl bs 44 56 (length headers)
          \<and> table_at (header_at cl bs) bs (unat phoff) phsize headers
          \<and> load_segments elf = somes headers)
      \<and> (\<exists>shoff shsize sections. holds_addr cl bs 32 40 shoff
          \<and> holds_half cl bs 46 58 shsize
          \<and> holds_half cl bs 48 60 (length sections)
          \<and> (sections = [] \<or> sel cl 40 64 \<le> shsize)
          \<and> table_at (section_at cl bs (unat shoff) shsize) bs (unat shoff) shsize sections
          \<and> elf_symbols elf = concat (map somes (somes sections))))"

section \<open>Reading what is there\<close>

lemma byte_range_fits:
  "off + n \<le> length bs \<Longrightarrow> length bs \<le> usize_max \<Longrightarrow> byte_range bs off n = Inr (take n (drop off bs))"
  by (simp add: byte_range_def saturating_add_def slice_of_def)

lemma byte_range_holds:
  "holds bs off v \<Longrightarrow> length bs \<le> usize_max \<Longrightarrow> length v = n \<Longrightarrow> byte_range bs off n = Inr v"
  by (simp add: holds_def byte_range_fits)

lemma u16_at_holds: "holds bs off (u16_le v) \<Longrightarrow> length bs \<le> usize_max \<Longrightarrow> u16_at bs off = Inr v"
  by (simp add: u16_at_def byte_range_holds [where v = "u16_le v"])

lemma u32_at_holds: "holds bs off (u32_le v) \<Longrightarrow> length bs \<le> usize_max \<Longrightarrow> u32_at bs off = Inr v"
  by (simp add: u32_at_def byte_range_holds [where v = "u32_le v"])

lemma u64_at_holds: "holds bs off (u64_le v) \<Longrightarrow> length bs \<le> usize_max \<Longrightarrow> u64_at bs off = Inr v"
  by (simp add: u64_at_def byte_range_holds [where v = "u64_le v"])

lemma addr_at_holds:
  "holds_addr cl bs a b v \<Longrightarrow> length bs \<le> usize_max \<Longrightarrow> addr_at cl bs a b = Inr v"
  by (cases cl) (auto simp: holds_addr_def addr_at_def u32_at_holds u64_at_holds)

lemma half_at_holds:
  "holds_half cl bs a b n \<Longrightarrow> length bs \<le> usize_max \<Longrightarrow> half_at cl bs a b = Inr n"
  by (cases cl) (auto simp: holds_half_def half_at_def sel_def u16_at_holds unat_of_nat_less)

lemmas reads = byte_range_fits byte_range_holds u32_at_holds u16_at_holds addr_at_holds half_at_holds

lemma class_case_sel: "(case cl of Elf32 \<Rightarrow> a | Elf64 \<Rightarrow> b) = sel cl a b"
  by (simp add: sel_def)

lemma parse_load_segment_at:
  assumes "header_at cl bs off (Some s)" "length bs \<le> usize_max"
  shows "parse_load_segment cl bs off = Inr s"
  using assms(1) unfolding header_at_def parse_load_segment_def class_case_sel
  by (auto dest!: u32_at_holds [OF _ assms(2)] addr_at_holds [OF _ assms(2)])

lemma table_Cons:
  "table_at ok bs off n (x # xs) \<longleftrightarrow> off + n \<le> length bs \<and> ok off x \<and> table_at ok bs (off + n) n xs"
  by (auto simp: table_at_def All_less_Suc2 add.assoc)

lemma parse_program_headers_at:
  assumes fit: "length bs \<le> usize_max" and sz: "sel cl 32 56 \<le> phsize"
  shows "table_at (header_at cl bs) bs (phoff + k * phsize) phsize hs \<Longrightarrow>
    parse_program_headers cl bs phoff phsize [k..<k + length hs] = Inr (somes hs)"
proof (induction hs arbitrary: k)
  case (Cons h hs)
  let ?off = "phoff + k * phsize"
  have room: "?off + phsize \<le> length bs" and h: "header_at cl bs ?off h"
    and rest: "table_at (header_at cl bs) bs (phoff + Suc k * phsize) phsize hs"
    using Cons.prems by (simp_all add: table_Cons algebra_simps)
  have add: "?off \<le> usize_max" using room fit by linarith
  have head: "(u32_at bs ?off = Inr pt_load) = (h \<noteq> None) \<and> (\<exists>t. u32_at bs ?off = Inr t)"
    using h fit by (cases h) (auto simp: header_at_def u32_at_holds)
  have up: "[k..<k + length (h # hs)] = k # [Suc k..<Suc k + length hs]"
    by (simp add: upt_conv_Cons del: upt_Suc)
  show ?case
    unfolding up using Cons.IH [OF rest] head add room fit h
    by (cases h) (auto simp: ok_or_def checked_add_usize_def byte_range_fits parse_load_segment_at simp del: upt_Suc)
qed simp

lemma takeWhile_name:
  assumes "name_at strings n name"
  shows "takeWhile (\<lambda>b. b \<noteq> 0) (drop n strings) = name \<and> n < length strings"
proof -
  have "takeWhile (\<lambda>b. b \<noteq> 0) name = name"
    using assms by (auto simp: takeWhile_eq_all_conv name_at_def)
  then show ?thesis
    using assms by (auto simp: name_at_def takeWhile_tail takeWhile_append)
qed

text \<open>A symbol is read from its own entry; fields of the file inside the entry are fields of it.\<close>

lemma holds_within:
  "holds bs (off + k) v \<Longrightarrow> k + length v \<le> n \<Longrightarrow> off + n \<le> length bs \<Longrightarrow> holds (take n (drop off bs)) k v"
  by (simp add: holds_def drop_take min_absorb1 add.commute)

lemma holds_addr_within:
  "holds_addr cl bs (off + a) (off + b) v \<Longrightarrow> sel cl (a + 4) (b + 8) \<le> n \<Longrightarrow> off + n \<le> length bs \<Longrightarrow>
   holds_addr cl (take n (drop off bs)) a b v"
proof (cases cl)
  case Elf32
  moreover assume "holds_addr cl bs (off + a) (off + b) v" "sel cl (a + 4) (b + 8) \<le> n" "off + n \<le> length bs"
  ultimately obtain h :: u32 where "holds bs (off + a) (u32_le h)" "v = ucast h" "a + length (u32_le h) \<le> n"
    by (auto simp: holds_addr_def sel_def)
  with Elf32 \<open>off + n \<le> length bs\<close> show ?thesis unfolding holds_addr_def by (auto dest: holds_within)
next
  case Elf64
  moreover assume "holds_addr cl bs (off + a) (off + b) v" "sel cl (a + 4) (b + 8) \<le> n" "off + n \<le> length bs"
  ultimately show ?thesis by (auto simp: holds_addr_def sel_def intro: holds_within)
qed

lemma holds_half_within:
  "holds_half cl bs (off + a) (off + b) v \<Longrightarrow> sel cl (a + 2) (b + 2) \<le> n \<Longrightarrow> off + n \<le> length bs \<Longrightarrow>
   holds_half cl (take n (drop off bs)) a b v"
  by (cases cl) (auto simp: holds_half_def sel_def intro: holds_within)

lemma parse_symbol_at:
  assumes "symbol_at cl bs strings off s" "sel cl 16 24 \<le> n" "off + n \<le> length bs" "length bs \<le> usize_max"
  shows "parse_symbol cl strings (take n (drop off bs)) = Inr s"
proof -
  let ?e = "take n (drop off bs)"
  from assms(1) obtain m idx v where f: "holds bs off (u32_le m)" "holds_addr cl bs (off + 4) (off + 8) v"
      "holds_half cl bs (off + 14) (off + 6) idx"
    and s: "case s of
             Some y \<Rightarrow> idx \<noteq> 0 \<and> v = symbol_value y \<and> valid_utf8 (symbol_name y)
               \<and> name_at strings (unat m) (symbol_name y)
           | None \<Rightarrow> idx = 0 \<or> length strings \<le> unat m
               \<or> (\<exists>name. name_at strings (unat m) name \<and> \<not> valid_utf8 name)"
    unfolding symbol_at_def by blast
  have len: "length ?e \<le> usize_max" using assms(4) by simp
  have n: "16 \<le> n" "sel cl 8 16 \<le> n" "sel cl 16 8 \<le> n" using assms(2) by (cases cl; simp add: sel_def)+
  have "u32_at ?e 0 = Inr m"
    using holds_within [of bs off 0 "u32_le m" n] f(1) n assms(3) len by (simp add: u32_at_holds)
  moreover have "addr_at cl ?e 4 8 = Inr v"
    using holds_addr_within [of cl bs off 4 8 v n] f(2) n assms(3) len by (simp add: addr_at_holds)
  moreover have "half_at cl ?e 14 6 = Inr idx"
    using holds_half_within [of cl bs off 14 6 idx n] f(3) n assms(3) len by (simp add: half_at_holds)
  ultimately show ?thesis
    using s by (cases s) (auto simp: parse_symbol_def Let_def dest!: takeWhile_name)
qed

lemma symbol_loop_at:
  assumes fit: "length bs \<le> usize_max" and esz: "sel cl 16 24 \<le> esz"
  shows "table_at (symbol_at cl bs strings) bs off esz entries \<Longrightarrow>
    symbol_loop cl bs strings esz off (off + length entries * esz) = Inr (somes entries)"
proof (induction entries arbitrary: off)
  case Nil
  then show ?case by (simp add: symbol_loop.simps )
next
  case (Cons s entries)
  have pos: "0 < esz" using esz by (cases cl) (simp_all add: sel_def)
  have room: "off + esz \<le> length bs" and s: "symbol_at cl bs strings off s"
    and rest: "table_at (symbol_at cl bs strings) bs (off + esz) esz entries"
    using Cons.prems by (simp_all add: table_Cons)
  have "symbol_loop cl bs strings esz (off + esz) (off + length (s # entries) * esz) = Inr (somes entries)"
    using Cons.IH [OF rest] by (simp add: algebra_simps)
  then show ?case
    using pos parse_symbol_at [OF s esz room fit]
    by (subst symbol_loop.simps)
      (simp add: byte_range_fits [OF room fit] split: option.split)
qed

lemma parse_symbol_section_at:
  assumes "section_at cl bs shoff shsize off (Some entries)" "length bs \<le> usize_max"
  shows "parse_symbol_section cl bs shoff shsize off = Inr (somes entries)"
proof -
  note u32 = u32_at_holds [OF _ assms(2)] and addr = addr_at_holds [OF _ assms(2)]
  from assms(1) obtain link esize soff stroff strings where
    f: "addr_at cl bs (off + 16) (off + 24) = Inr soff"
      "addr_at cl bs (off + 20) (off + 32) = Inr (of_nat (length entries * unat esize))"
      "u32_at bs (off + sel cl 24 40) = Inr link" "addr_at cl bs (off + 36) (off + 56) = Inr esize"
      "addr_at cl bs (shoff + unat link * shsize + 16) (shoff + unat link * shsize + 24) = Inr stroff"
      "addr_at cl bs (shoff + unat link * shsize + 20) (shoff + unat link * shsize + 32) = Inr (of_nat (length strings))"
    and sz: "length entries * unat esize < 2 ^ 64" "sel cl 16 24 \<le> unat esize"
    and room: "shoff + unat link * shsize + shsize \<le> length bs"
    and str: "holds bs (unat stroff) strings"
    and tab: "table_at (symbol_at cl bs strings) bs (unat soff) (unat esize) entries"
    unfolding section_at_def option.case by (auto dest!: u32 addr)
  have "length strings \<le> usize_max" using str assms(2) by (simp add: holds_def)
  then have un1: "unat (of_nat (length strings) :: u64) = length strings"
    by (intro unat_of_nat_less) (simp add: usize_max_def)
  have un2: "unat (of_nat (length entries * unat esize) :: u64) = length entries * unat esize"
    using sz(1) by (intro unat_of_nat_less) simp
  have strings: "byte_range bs (unat stroff) (length strings) = Inr strings"
    by (rule byte_range_holds [OF str assms(2) refl])
  have mul: "unat link * shsize \<le> usize_max" "shoff + unat link * shsize \<le> usize_max"
    using room assms(2) by linarith+
  have stop: "saturating_add (unat soff) (length entries * unat esize) = unat soff + length entries * unat esize
      \<or> entries = []"
  proof (cases entries rule: rev_cases)
    case (snoc es e)
    then have "unat soff + length es * unat esize + unat esize \<le> length bs"
      using tab by (auto simp: table_at_def dest: spec [of _ "length es"])
    then show ?thesis using snoc assms(2) by (simp add: saturating_add_def algebra_simps)
  qed simp
  have "symbol_loop cl bs strings (unat esize) (unat soff)
      (saturating_add (unat soff) (length entries * unat esize)) = Inr (somes entries)"
  proof (cases "entries = []")
    case True
    then show ?thesis by (subst symbol_loop.simps) (simp add: saturating_add_def)
  next
    case False
    with stop symbol_loop_at [OF assms(2) sz(2) tab] show ?thesis by simp
  qed
  then show ?thesis
    using sz(2) mul strings
    by (simp add: parse_symbol_section_def class_case_sel f un1 un2 [simplified] ok_or_def checked_mul_usize_def
        checked_add_usize_def byte_range_fits [OF room assms(2)])
qed

lemma parse_sections_at:
  assumes fit: "length bs \<le> usize_max" and sz: "sel cl 40 64 \<le> shsize"
  shows "table_at (section_at cl bs shoff shsize) bs (shoff + k * shsize) shsize secs \<Longrightarrow>
    parse_sections cl bs shoff shsize [k..<k + length secs] = Inr (concat (map somes (somes secs)))"
proof (induction secs arbitrary: k)
  case (Cons s secs)
  let ?off = "shoff + k * shsize"
  have room: "?off + shsize \<le> length bs" and s: "section_at cl bs shoff shsize ?off s"
    and rest: "table_at (section_at cl bs shoff shsize) bs (shoff + Suc k * shsize) shsize secs"
    using Cons.prems by (simp_all add: table_Cons algebra_simps)
  have le: "k * shsize \<le> usize_max" "?off \<le> usize_max" using room fit by linarith+
  have head: "\<exists>t. u32_at bs (?off + 4) = Inr t \<and> (t \<noteq> sht_symtab \<and> t \<noteq> sht_dynsym \<longleftrightarrow> s = None)"
    using s by (cases s) (auto simp: section_at_def dest!: u32_at_holds [OF _ fit])
  have up: "[k..<k + length (s # secs)] = k # [Suc k..<Suc k + length secs]"
    by (simp add: upt_conv_Cons del: upt_Suc)
  show ?case
    unfolding up using Cons.IH [OF rest] head le room fit s
    by (cases s) (auto simp: ok_or_def checked_add_usize_def checked_mul_usize_def byte_range_fits
        parse_symbol_section_at simp del: upt_Suc)
qed simp

lemma parse_symbols_at:
  assumes "describes bs elf"
  shows "parse_symbols bs (elf_class elf) = Inr (elf_symbols elf)"
proof -
  let ?cl = "elf_class elf"
  have fit: "length bs \<le> usize_max" using assms by (simp add: describes_def Let_def)
  from assms obtain shoff shsize secs where
    f: "addr_at ?cl bs 32 40 = Inr shoff" "half_at ?cl bs 46 58 = Inr shsize"
      "half_at ?cl bs 48 60 = Inr (length secs)"
    and sz: "secs = [] \<or> sel ?cl 40 64 \<le> shsize"
    and tab: "table_at (section_at ?cl bs (unat shoff) shsize) bs (unat shoff) shsize secs"
    and syms: "elf_symbols elf = concat (map somes (somes secs))"
    unfolding describes_def Let_def by (auto dest!: addr_at_holds [OF _ fit] half_at_holds [OF _ fit])
  have "secs \<noteq> [] \<Longrightarrow> parse_sections ?cl bs (unat shoff) shsize [0..<length secs] = Inr (elf_symbols elf)"
    using parse_sections_at [OF fit, of ?cl shsize "unat shoff" 0 secs] sz tab syms by simp
  then show ?thesis
    using sz syms by (auto simp: parse_symbols_def f class_case_sel)
qed

text \<open>
  Property C29. The reader reads what the file says. Whatever the layout of a file of either class --
  header tables anywhere, entries of any sufficient size, any number of symbol tables -- its class,
  machine and entry point, exactly its load segments, in the order of the table, and exactly its
  defined symbols with a valid name, are what \<open>parse\<close> returns.
\<close>

theorem elf_parse_reads:
  assumes "describes bs elf"
  shows "elf_parse bs = Inr elf"
proof -
  let ?cl = "elf_class elf"
  have fit: "length bs \<le> usize_max" and len: "16 \<le> length bs" using assms by (simp_all add: describes_def Let_def)
  from assms obtain phoff phsize hs where
    f: "holds bs 0 (elf_magic @ [of_nat (sel ?cl 1 2), 1])" "u16_at bs 18 = Inr (elf_machine elf)"
      "addr_at ?cl bs 24 24 = Inr (elf_entry elf)" "addr_at ?cl bs 28 32 = Inr phoff"
      "half_at ?cl bs 42 54 = Inr phsize" "half_at ?cl bs 44 56 = Inr (length hs)"
    and sz: "sel ?cl 32 56 \<le> phsize" and tab: "table_at (header_at ?cl bs) bs (unat phoff) phsize hs"
    and segs: "load_segments elf = somes hs"
    unfolding describes_def Let_def
    by (auto dest!: addr_at_holds [OF _ fit] half_at_holds [OF _ fit] u16_at_holds [OF _ fit])
  have ident: "take 6 bs = elf_magic @ [of_nat (sel ?cl 1 2), 1]"
    using f(1) by (simp add: holds_def elf_magic_def numeral_eq_Suc)
  have "take 4 bs = elf_magic" "bs ! 4 = of_nat (sel ?cl 1 2)" "bs ! 5 = 1"
    using arg_cong [OF ident, of "take 4"] arg_cong [OF ident, of "\<lambda>x. x ! 4"]
      arg_cong [OF ident, of "\<lambda>x. x ! 5"] by (simp_all add: elf_magic_def)
  moreover have "parse_program_headers ?cl bs (unat phoff) phsize [0..<length hs] = Inr (load_segments elf)"
    using parse_program_headers_at [OF fit sz, of "unat phoff" 0 hs] tab segs by simp
  ultimately show ?thesis
    using sz parse_symbols_at [OF assms] f
    unfolding elf_parse_def class_case_sel
    by (cases ?cl) (simp_all add: byte_range_fits [of 0 16, OF _ fit] len)
qed

section \<open>A small image\<close>

text \<open>
  A 32-bit Arm image of 236 bytes: one load segment to be read and executed, a symbol table of one
  undefined and one defined symbol named \<open>f\<close>, and its string table.
\<close>

definition small_segment :: load_segment where
  "small_segment = \<lparr>seg_flags = 5, virtual_address = 0x8000, memory_size = 16, alignment = 4\<rparr>"

definition small_elf :: elf_file where
  "small_elf = \<lparr>elf_class = Elf32, elf_machine = em_arm, elf_entry = 0x8000, load_segments = [small_segment],
     elf_symbols = [\<lparr>symbol_name = [102], symbol_value = 0x8004\<rparr>]\<rparr>"

definition small_image :: bytes where
  "small_image =
     elf_magic @ [1, 1, 1] @ replicate 9 0
     @ u16_le 2 @ u16_le em_arm @ u32_le 1 @ u32_le 0x8000 @ u32_le 52 @ u32_le 84 @ u32_le 0
     @ u16_le 52 @ u16_le 32 @ u16_le 1 @ u16_le 40 @ u16_le 3 @ u16_le 2
     @ u32_le pt_load @ u32_le 0 @ u32_le 0x8000 @ u32_le 0x8000 @ u32_le 0 @ u32_le 16 @ u32_le 5 @ u32_le 4
     @ replicate 40 0
     @ u32_le 0 @ u32_le sht_symtab @ u32_le 0 @ u32_le 0 @ u32_le 204 @ u32_le 32 @ u32_le 2 @ u32_le 0
     @ u32_le 4 @ u32_le 16
     @ u32_le 0 @ u32_le 3 @ u32_le 0 @ u32_le 0 @ u32_le 236 @ u32_le 3 @ u32_le 0 @ u32_le 0 @ u32_le 1 @ u32_le 0
     @ replicate 16 0
     @ u32_le 1 @ u32_le 0x8004 @ u32_le 0 @ u16_le 0 @ u16_le 1
     @ [0, 102, 0]"

lemma small_words:
  "holds small_image 24 (u32_le 0x8000)" "holds small_image 28 (u32_le 52)"
  "holds small_image 32 (u32_le 84)" "holds small_image 52 (u32_le pt_load)"
  "holds small_image 60 (u32_le 0x8000)" "holds small_image 72 (u32_le 16)"
  "holds small_image 76 (u32_le 5)" "holds small_image 80 (u32_le 4)"
  "holds small_image 88 (u32_le 0)" "holds small_image 128 (u32_le sht_symtab)"
  "holds small_image 140 (u32_le 204)" "holds small_image 144 (u32_le 32)"
  "holds small_image 148 (u32_le 2)" "holds small_image 160 (u32_le 16)"
  "holds small_image 168 (u32_le 3)" "holds small_image 180 (u32_le 236)"
  "holds small_image 184 (u32_le 3)" "holds small_image 204 (u32_le 0)"
  "holds small_image 208 (u32_le 0)" "holds small_image 220 (u32_le 1)"
  "holds small_image 224 (u32_le 0x8004)"
  by code_simp+

lemma small_others:
  "holds small_image 0 (elf_magic @ [1, 1])" "holds small_image 18 (u16_le em_arm)"
  "holds small_image 42 (u16_le 32)" "holds small_image 44 (u16_le 1)"
  "holds small_image 46 (u16_le 40)" "holds small_image 48 (u16_le 3)"
  "holds small_image 218 (u16_le 0)" "holds small_image 234 (u16_le 1)"
  "holds small_image 236 [0, 102, 0]" "length small_image = 239"
  by code_simp+

lemmas holds_small = small_words small_others

lemma small_addr:
  "holds small_image off (u32_le h) \<Longrightarrow> holds_addr Elf32 small_image off off64 (ucast h)"
  by (auto simp: holds_addr_def)

lemma small_addrs:
  "holds_addr Elf32 small_image 24 k 0x8000" "holds_addr Elf32 small_image 28 k 52"
  "holds_addr Elf32 small_image 32 k 84" "holds_addr Elf32 small_image 60 k 0x8000"
  "holds_addr Elf32 small_image 72 k 16" "holds_addr Elf32 small_image 80 k 4"
  "holds_addr Elf32 small_image 140 k 204" "holds_addr Elf32 small_image 144 k 32"
  "holds_addr Elf32 small_image 160 k 16" "holds_addr Elf32 small_image 180 k 236"
  "holds_addr Elf32 small_image 184 k 3" "holds_addr Elf32 small_image 208 k 0"
  "holds_addr Elf32 small_image 224 k 0x8004"
  using small_words [THEN small_addr, of k] by simp_all

lemma small_halves:
  "holds_half Elf32 small_image 42 k 32" "holds_half Elf32 small_image 44 k (Suc 0)"
  "holds_half Elf32 small_image 46 k 40" "holds_half Elf32 small_image 48 k 3"
  "holds_half Elf32 small_image 218 k 0" "holds_half Elf32 small_image 234 k (Suc 0)"
  by (simp_all add: holds_half_def holds_small)

lemmas small_fields = holds_small small_addrs small_halves

lemma small_symbols:
  "table_at (symbol_at Elf32 small_image [0, 102, 0]) small_image 204 16
     [None, Some \<lparr>symbol_name = [102], symbol_value = 0x8004\<rparr>]"
proof -
  have "symbol_at Elf32 small_image [0, 102, 0] 204 None"
    unfolding symbol_at_def by (intro exI [of _ 0] conjI) (simp_all add: small_fields)
  moreover have "symbol_at Elf32 small_image [0, 102, 0] 220 (Some \<lparr>symbol_name = [102], symbol_value = 0x8004\<rparr>)"
    unfolding symbol_at_def
    by (rule exI [of _ 1], rule exI [of _ 1], rule exI [of _ "0x8004"]) (simp add: small_fields name_at_def)
  ultimately show ?thesis
    by (simp add: table_Cons holds_small) (simp add: table_at_def)
qed

lemma small_sections:
  "table_at (section_at Elf32 small_image 84 40) small_image 84 40
     [None, Some [None, Some \<lparr>symbol_name = [102], symbol_value = 0x8004\<rparr>], None]"
proof -
  have "section_at Elf32 small_image 84 40 84 None" "section_at Elf32 small_image 84 40 164 None"
    unfolding section_at_def option.case
    by (rule exI [of _ 0], simp add: small_fields sht_symtab_def sht_dynsym_def)
      (rule exI [of _ 3], simp add: small_fields sht_symtab_def sht_dynsym_def)
  moreover have "section_at Elf32 small_image 84 40 124
      (Some [None, Some \<lparr>symbol_name = [102], symbol_value = 0x8004\<rparr>])"
    unfolding section_at_def option.case
    by (rule exI [of _ sht_symtab], rule exI [of _ 2], rule exI [of _ 16], rule exI [of _ 204],
        rule exI [of _ 236], rule exI [of _ "[0, 102, 0]"]) (simp add: small_fields small_symbols)
  ultimately show ?thesis
    by (simp add: table_Cons holds_small) (simp add: table_at_def)
qed

theorem elf_parse_reads_witness: "elf_parse small_image = Inr small_elf"
proof (rule elf_parse_reads)
  have "header_at Elf32 small_image 52 (Some small_segment)"
    by (simp add: header_at_def small_fields small_segment_def)
  then have headers: "table_at (header_at Elf32 small_image) small_image 52 32 [Some small_segment]"
    by (simp add: table_at_def holds_small)
  have "\<exists>phoff phsize headers. holds_addr Elf32 small_image 28 32 phoff
      \<and> holds_half Elf32 small_image 42 54 phsize \<and> sel Elf32 32 56 \<le> phsize
      \<and> holds_half Elf32 small_image 44 56 (length headers)
      \<and> table_at (header_at Elf32 small_image) small_image (unat phoff) phsize headers
      \<and> [small_segment] = somes headers"
    by (rule exI [of _ 52], rule exI [of _ 32], rule exI [of _ "[Some small_segment]"])
      (simp add: small_fields headers)
  moreover have "\<exists>shoff shsize sections. holds_addr Elf32 small_image 32 40 shoff
      \<and> holds_half Elf32 small_image 46 58 shsize \<and> holds_half Elf32 small_image 48 60 (length sections)
      \<and> (sections = [] \<or> sel Elf32 40 64 \<le> shsize)
      \<and> table_at (section_at Elf32 small_image (unat shoff) shsize) small_image (unat shoff) shsize sections
      \<and> [\<lparr>symbol_name = [102], symbol_value = 0x8004\<rparr>] = concat (map somes (somes sections))"
    by (rule exI [of _ 84], rule exI [of _ 40],
        rule exI [of _ "[None, Some [None, Some \<lparr>symbol_name = [102], symbol_value = 0x8004\<rparr>], None]"])
      (simp add: small_fields small_sections small_halves(4) [unfolded numeral_3_eq_3])
  ultimately show "describes small_image small_elf"
    by (simp add: describes_def small_elf_def small_fields usize_max_def)
qed

end
