(* ===== verification/Artifacts.thy ===== *)
theory Artifacts
  imports Text
begin

text \<open>
  The scan of a board's artifact manifest, \<open>parse_artifact_hashes\<close> of
  \<open>tooling/elf_check/src/lib.rs\<close>. A text is the list of its characters; a slice that starts behind
  the end of the text panics, which is the result \<open>None\<close>.
\<close>

section \<open>The program\<close>

definition q :: char where "q = CHR 0x22"
definition backslash :: char where "backslash = CHR 0x5C"

definition is_whitespace :: "char \<Rightarrow> bool" where
  "is_whitespace c \<longleftrightarrow> of_char c \<in> {9, 10, 11, 12, 13, 32, 133, 160 :: nat}"

text \<open>\<open>str::find\<close> with a character and with a text.\<close>

fun find_char :: "char \<Rightarrow> string \<Rightarrow> nat option" where
  "find_char c [] = None"
| "find_char c (d # s) = (if d = c then Some 0 else map_option Suc (find_char c s))"

fun find_str :: "string \<Rightarrow> string \<Rightarrow> nat option" where
  "find_str key [] = (if key = [] then Some 0 else None)"
| "find_str key (c # s) =
     (if take (length key) (c # s) = key then Some 0 else map_option Suc (find_str key s))"

fun object_end_loop :: "nat \<Rightarrow> bool \<Rightarrow> bool \<Rightarrow> nat \<Rightarrow> string \<Rightarrow> nat" where
  "object_end_loop depth in_string escaped i [] = i"
| "object_end_loop depth in_string escaped i (c # s) =
     (if escaped then object_end_loop depth in_string False (i + 1) s
      else if c = backslash \<and> in_string then object_end_loop depth in_string True (i + 1) s
      else if c = q then object_end_loop depth (\<not> in_string) False (i + 1) s
      else if in_string then object_end_loop depth in_string False (i + 1) s
      else if c = CHR ''{'' then object_end_loop (depth + 1) in_string False (i + 1) s
      else if c = CHR ''}'' then
        (if depth - 1 = 0 then i else object_end_loop (depth - 1) in_string False (i + 1) s)
      else object_end_loop depth in_string False (i + 1) s)"

definition object_end :: "string \<Rightarrow> nat" where
  "object_end s = object_end_loop 1 False False 0 s"

text \<open>\<open>&s[n..]\<close>.\<close>

definition slice_from :: "nat \<Rightarrow> string \<Rightarrow> string option" where
  "slice_from n s = (if n \<le> length s then Some (drop n s) else None)"

lemma find_char_less: "find_char c s = Some n \<Longrightarrow> n < length s"
  by (induction s arbitrary: n) (auto split: if_splits)

lemma slice_from_less: "slice_from n s = Some t \<Longrightarrow> length t \<le> length s - n"
  by (auto simp: slice_from_def split: if_splits)

function flatten_nested_objects :: "string \<Rightarrow> string option" where
  "flatten_nested_objects s =
     (case find_char (CHR ''{'') s of
        None \<Rightarrow> Some s
      | Some start \<Rightarrow>
          let remaining = drop (start + 1) s in
          (case slice_from (object_end remaining + 1) remaining of
             None \<Rightarrow> None
           | Some remaining' \<Rightarrow>
               map_option (\<lambda>t. take start s @ ''{}'' @ t) (flatten_nested_objects remaining')))"
  by pat_completeness auto
termination
  by (relation "measure length") (auto dest!: find_char_less slice_from_less)

declare flatten_nested_objects.simps [simp del]

fun json_string_loop :: "bool \<Rightarrow> string \<Rightarrow> string option" where
  "json_string_loop escaped [] = None"
| "json_string_loop escaped (c # s) =
     (if escaped then map_option (Cons c) (json_string_loop False s)
      else if c = backslash then json_string_loop True s
      else if c = q then Some []
      else map_option (Cons c) (json_string_loop False s))"

definition extract_json_string :: "string \<Rightarrow> string \<Rightarrow> string option" where
  "extract_json_string obj key =
     (case find_str key obj of
        None \<Rightarrow> None
      | Some key_pos \<Rightarrow>
          let after_key = drop (key_pos + length key) obj in
          (case find_char (CHR '':'') after_key of
             None \<Rightarrow> None
           | Some colon \<Rightarrow>
               let after_colon = dropWhile is_whitespace (drop (colon + 1) after_key)
               in if after_colon \<noteq> [] \<and> hd after_colon = q then json_string_loop False (tl after_colon)
                  else None))"

function collect_artifact_objects :: "string \<Rightarrow> (string \<times> string) list option" where
  "collect_artifact_objects s =
     (case find_char (CHR ''{'') s of
        None \<Rightarrow> Some []
      | Some obj_start \<Rightarrow>
          let remaining = drop (obj_start + 1) s;
              depth_end = object_end remaining;
              obj = take depth_end remaining
          in (case slice_from (depth_end + 1) remaining of
                None \<Rightarrow> None
              | Some remaining' \<Rightarrow>
                  (case (collect_artifact_objects obj, flatten_nested_objects obj,
                         collect_artifact_objects remaining') of
                     (Some inner, Some flat, Some later) \<Rightarrow>
                       Some (inner @ (case (extract_json_string flat (q # ''path'' @ [q]),
                                            extract_json_string flat (q # ''sha256'' @ [q])) of
                                        (Some path, Some hash) \<Rightarrow> [(path, hash)] | _ \<Rightarrow> []) @ later)
                   | _ \<Rightarrow> None)))"
  by pat_completeness auto
termination
  by (relation "measure length") (auto dest!: find_char_less slice_from_less)

declare collect_artifact_objects.simps [simp del]

definition parse_artifact_hashes :: "string \<Rightarrow> (string \<times> string) list option" where
  "parse_artifact_hashes json = collect_artifact_objects json"


section \<open>Texts of a JSON document\<close>

text \<open>The documents, and what is a text of one: white space may stand between any two tokens; the
  strings hold no quotes, escapes or braces.\<close>

datatype json = JStr string | JLit string | JArr "json list" | JObj "(string \<times> json) list"

definition plain :: "string \<Rightarrow> bool" where
  "plain s \<longleftrightarrow> (\<forall>c \<in> set s. c \<notin> {q, backslash, CHR ''{'', CHR ''}''})"

definition blank :: "string \<Rightarrow> bool" where
  "blank s \<longleftrightarrow> (\<forall>c \<in> set s. is_whitespace c)"

definition literal :: "string \<Rightarrow> bool" where
  "literal s \<longleftrightarrow> s \<noteq> [] \<and> plain s \<and> (\<forall>c \<in> set s. \<not> is_whitespace c)"

inductive text_of :: "json \<Rightarrow> string \<Rightarrow> bool"
  and items :: "json list \<Rightarrow> string \<Rightarrow> bool"
  and members :: "(string \<times> json) list \<Rightarrow> string \<Rightarrow> bool" where
  text_str: "plain x \<Longrightarrow> text_of (JStr x) (q # x @ [q])"
| text_lit: "literal x \<Longrightarrow> text_of (JLit x) x"
| text_arr: "items vs s \<Longrightarrow> text_of (JArr vs) (CHR ''['' # s @ '']'')"
| text_obj: "members fs s \<Longrightarrow> text_of (JObj fs) (CHR ''{'' # s @ ''}'')"
| text_blank: "text_of v s \<Longrightarrow> blank w \<Longrightarrow> blank w' \<Longrightarrow> text_of v (w @ s @ w')"
| items_none: "blank w \<Longrightarrow> items [] w"
| items_one: "text_of v s \<Longrightarrow> items [v] s"
| items_more: "text_of v s \<Longrightarrow> items vs t \<Longrightarrow> vs \<noteq> [] \<Longrightarrow> items (v # vs) (s @ CHR '','' # t)"
| members_none: "blank w \<Longrightarrow> members [] w"
| members_one: "plain k \<Longrightarrow> blank w \<Longrightarrow> blank w' \<Longrightarrow> text_of v s \<Longrightarrow>
    members [(k, v)] (w @ q # k @ q # w' @ CHR '':'' # s)"
| members_more: "plain k \<Longrightarrow> blank w \<Longrightarrow> blank w' \<Longrightarrow> text_of v s \<Longrightarrow> members fs t \<Longrightarrow> fs \<noteq> [] \<Longrightarrow>
    members ((k, v) # fs) (w @ q # k @ q # w' @ CHR '':'' # s @ CHR '','' # t)"

text \<open>The strings that stand in a value outside of its nested objects, the value with its nested
  objects emptied, and the artifact records of a document, innermost first.\<close>

fun shallow :: "json \<Rightarrow> json" where
  "shallow (JStr x) = JStr x"
| "shallow (JLit x) = JLit x"
| "shallow (JArr vs) = JArr (map shallow vs)"
| "shallow (JObj fs) = JObj []"

fun strings_of :: "json \<Rightarrow> string set" where
  "strings_of (JStr x) = {x}"
| "strings_of (JLit x) = {}"
| "strings_of (JArr vs) = (\<Union>v \<in> set vs. strings_of v)"
| "strings_of (JObj fs) = (\<Union>f \<in> set fs. strings_of (snd f))"

definition string_field :: "(string \<times> json) list \<Rightarrow> string \<Rightarrow> string option" where
  "string_field fs k = (case map_of fs k of Some (JStr x) \<Rightarrow> Some x | _ \<Rightarrow> None)"

fun artifact_records :: "json \<Rightarrow> (string \<times> string) list" where
  "artifact_records (JStr x) = []"
| "artifact_records (JLit x) = []"
| "artifact_records (JArr vs) = concat (map artifact_records vs)"
| "artifact_records (JObj fs) =
     concat (map (\<lambda>f. artifact_records (snd f)) fs) @
     (case (string_field fs ''path'', string_field fs ''sha256'') of
        (Some path, Some hash) \<Rightarrow> [(path, hash)] | _ \<Rightarrow> [])"

section \<open>The scanners on a text\<close>

lemma special_chars [simp]:
  "q \<noteq> CHR ''{''" "q \<noteq> CHR ''}''" "q \<noteq> backslash" "q \<noteq> CHR '':''" "q \<noteq> CHR ''[''" "q \<noteq> CHR '']''"
  "q \<noteq> CHR '',''" "backslash \<noteq> CHR ''{''" "backslash \<noteq> CHR ''}''"
  "CHR ''{'' \<noteq> q" "CHR ''}'' \<noteq> q" "backslash \<noteq> q" "CHR '':'' \<noteq> q" "CHR ''['' \<noteq> q" "CHR '']'' \<noteq> q"
  "CHR '','' \<noteq> q" "CHR ''{'' \<noteq> backslash" "CHR ''}'' \<noteq> backslash"
  by (simp_all add: q_def backslash_def)

lemma not_whitespace [simp]:
  "\<not> is_whitespace q" "\<not> is_whitespace (CHR ''{'')" "\<not> is_whitespace (CHR ''}'')"
  "\<not> is_whitespace (CHR '':'')" "\<not> is_whitespace (CHR ''['')" "\<not> is_whitespace (CHR '']'')"
  "\<not> is_whitespace (CHR '','')" "\<not> is_whitespace (CHR ''p'')" "\<not> is_whitespace (CHR ''s'')"
  by (simp_all add: is_whitespace_def q_def)

text \<open>Characters without a meaning to the scan outside of strings.\<close>

definition inert :: "string \<Rightarrow> bool" where
  "inert s \<longleftrightarrow> (\<forall>c \<in> set s. c \<notin> {q, CHR ''{'', CHR ''}''})"

lemma inert_simps [simp]: "inert []"
  "inert (c # s) \<longleftrightarrow> c \<noteq> q \<and> c \<noteq> CHR ''{'' \<and> c \<noteq> CHR ''}'' \<and> inert s"
  by (auto simp: inert_def)

lemma blank_inert: "blank w \<Longrightarrow> inert w"
  by (auto simp: blank_def inert_def)

lemma plain_inert: "plain w \<Longrightarrow> inert w"
  by (auto simp: plain_def inert_def)

lemma literal_inert: "literal w \<Longrightarrow> inert w"
  by (simp add: literal_def plain_inert)

lemmas inert_intros = blank_inert plain_inert literal_inert

lemma object_end_inert:
  "inert s \<Longrightarrow> object_end_loop d False False i (s @ t) = object_end_loop d False False (i + length s) t"
  by (induction s arbitrary: i) auto

lemma object_end_in_string:
  "plain x \<Longrightarrow> object_end_loop d True False i (x @ q # t) =
     object_end_loop d False False (i + length x + 1) t"
  by (induction x arbitrary: i) (auto simp: plain_def)

lemma object_end_text:
  "text_of v s \<Longrightarrow> object_end_loop (Suc d) False False i (s @ t) =
     object_end_loop (Suc d) False False (i + length s) t"
  "items vs s \<Longrightarrow> object_end_loop (Suc d) False False i (s @ t) =
     object_end_loop (Suc d) False False (i + length s) t"
  "members fs s \<Longrightarrow> object_end_loop (Suc d) False False i (s @ t) =
     object_end_loop (Suc d) False False (i + length s) t"
  by (induction arbitrary: d i t and d i t and d i t rule: text_of_items_members.inducts)
    (simp_all add: object_end_inert object_end_in_string inert_intros ac_simps)


lemma object_end_members:
  assumes "members fs s"
  shows "object_end (s @ CHR ''}'' # t) = length s"
  using object_end_text(3) [OF assms, of 0 0 "CHR ''}'' # t"] by (simp add: object_end_def)

lemma find_char_inert: "inert s \<Longrightarrow>
    find_char (CHR ''{'') (s @ t) = map_option ((+) (length s)) (find_char (CHR ''{'') t)"
  by (induction s; cases "find_char (CHR ''{'') t") auto

lemma flatten_inert: "inert s \<Longrightarrow>
    flatten_nested_objects (s @ t) = map_option ((@) s) (flatten_nested_objects t)"
  by (subst (1 2) flatten_nested_objects.simps)
    (auto simp: find_char_inert Let_def option.map_comp o_def split: option.splits)

lemma flatten_object:
  assumes "members fs s"
  shows "flatten_nested_objects (CHR ''{'' # s @ CHR ''}'' # t) =
    map_option (\<lambda>u. CHR ''{'' # CHR ''}'' # u) (flatten_nested_objects t)"
  by (subst flatten_nested_objects.simps) (simp add: object_end_members [OF assms] slice_from_def)

lemma flatten_Cons: "c \<noteq> q \<Longrightarrow> c \<noteq> CHR ''{'' \<Longrightarrow> c \<noteq> CHR ''}'' \<Longrightarrow>
    flatten_nested_objects (c # t) = map_option (Cons c) (flatten_nested_objects t)"
  using flatten_inert [of "[c]" t] by (cases "flatten_nested_objects t") auto

lemma flatten_quote:
    "flatten_nested_objects (q # t) = map_option (Cons q) (flatten_nested_objects t)"
  by (subst (1 2) flatten_nested_objects.simps)
    (auto simp: Let_def option.map_comp o_def split: option.splits)

lemma flatten_Nil [simp]: "flatten_nested_objects [] = Some []"
  by (subst flatten_nested_objects.simps) simp

lemmas flatten_simps = flatten_inert flatten_object flatten_Cons flatten_quote inert_intros

lemma flatten_text:
  "text_of v s \<Longrightarrow> \<exists>s'. text_of (shallow v) s' \<and>
     (\<forall>t. flatten_nested_objects (s @ t) = map_option ((@) s') (flatten_nested_objects t))"
  "items vs s \<Longrightarrow> \<exists>s'. items (map shallow vs) s' \<and>
     (\<forall>t. flatten_nested_objects (s @ t) = map_option ((@) s') (flatten_nested_objects t))"
  "members fs s \<Longrightarrow> \<exists>s'. members (map (\<lambda>f. (fst f, shallow (snd f))) fs) s' \<and>
     (\<forall>t. flatten_nested_objects (s @ t) = map_option ((@) s') (flatten_nested_objects t))"
proof (induction rule: text_of_items_members.inducts)
  case (text_str x)
  have "text_of (shallow (JStr x)) (q # x @ [q])"
    using text_str by (simp add: text_of_items_members.text_str)
  with text_str show ?case
    by (intro exI [of _ "q # x @ [q]"]) (simp add: flatten_simps option.map_comp o_def)
next
  case (text_lit x)
  then show ?case
    by (intro exI [of _ x]) (simp add: flatten_simps text_of_items_members.text_lit)
next
  case (text_arr vs s)
  then obtain s' where "items (map shallow vs) s'"
    "\<And>t. flatten_nested_objects (s @ t) = map_option ((@) s') (flatten_nested_objects t)" by blast
  then show ?case
    by (intro exI [of _ "CHR ''['' # s' @ '']''"])
      (simp add: flatten_simps option.map_comp o_def text_of_items_members.text_arr)
next
  case (text_obj fs s)
  have "text_of (shallow (JObj fs)) ''{}''"
    using text_of_items_members.text_obj [OF members_none [of "[]"]] by (simp add: blank_def)
  with text_obj show ?case
    by (intro exI [of _ "''{}''"]) (auto simp: flatten_object intro: option.map_cong)
next
  case (text_blank v s w w')
  then obtain s' where "text_of (shallow v) s'"
    "\<And>t. flatten_nested_objects (s @ t) = map_option ((@) s') (flatten_nested_objects t)" by blast
  with text_blank show ?case
    by (intro exI [of _ "w @ s' @ w'"])
      (simp add: flatten_simps option.map_comp o_def text_of_items_members.text_blank)
next
  case (items_none w)
  then show ?case
    by (intro exI [of _ w]) (simp add: flatten_simps text_of_items_members.items_none)
next
  case (items_one v s)
  then show ?case by (auto intro: text_of_items_members.items_one)
next
  case (items_more v s vs t)
  then obtain s' t' where "text_of (shallow v) s'" "items (map shallow vs) t'"
    "\<And>t. flatten_nested_objects (s @ t) = map_option ((@) s') (flatten_nested_objects t)"
    "\<And>u. flatten_nested_objects (t @ u) = map_option ((@) t') (flatten_nested_objects u)" by blast
  with items_more.hyps(3) show ?case
    by (intro exI [of _ "s' @ CHR '','' # t'"])
      (simp add: flatten_simps option.map_comp o_def text_of_items_members.items_more)
next
  case (members_none w)
  then show ?case
    by (intro exI [of _ w]) (simp add: flatten_simps text_of_items_members.members_none)
next
  case (members_one k w w' v s)
  then obtain s' where "text_of (shallow v) s'"
    "\<And>t. flatten_nested_objects (s @ t) = map_option ((@) s') (flatten_nested_objects t)" by blast
  with members_one.hyps(1-3) show ?case
    by (intro exI [of _ "w @ q # k @ q # w' @ CHR '':'' # s'"])
      (simp add: flatten_simps option.map_comp o_def text_of_items_members.members_one)
next
  case (members_more k w w' v s fs t)
  then obtain s' t' where "text_of (shallow v) s'" "members (map (\<lambda>f. (fst f, shallow (snd f))) fs) t'"
    "\<And>t. flatten_nested_objects (s @ t) = map_option ((@) s') (flatten_nested_objects t)"
    "\<And>u. flatten_nested_objects (t @ u) = map_option ((@) t') (flatten_nested_objects u)" by blast
  with members_more.hyps(1-3,6) show ?case
    by (intro exI [of _ "w @ q # k @ q # w' @ CHR '':'' # s' @ CHR '','' # t'"])
      (simp add: flatten_simps option.map_comp o_def text_of_items_members.members_more)
qed


section \<open>The fields of a record\<close>

text \<open>A text that cannot continue the name of a key.\<close>

definition stops :: "string \<Rightarrow> bool" where
  "stops t \<longleftrightarrow> t = [] \<or> is_whitespace (hd t) \<or> hd t \<in> {CHR '':'', CHR '','', CHR '']'', CHR ''}''}"

definition key_name :: "string \<Rightarrow> bool" where
  "key_name k \<longleftrightarrow> k \<noteq> [] \<and> plain k \<and> hd k \<notin> {CHR '':'', CHR '','', CHR '']''} \<and> \<not> is_whitespace (hd k)"

lemma stops_simps [simp]:
  "stops []" "stops (c # t) \<longleftrightarrow> is_whitespace c \<or> c \<in> {CHR '':'', CHR '','', CHR '']'', CHR ''}''}"
  by (simp_all add: stops_def)

lemma stops_blank: "blank w \<Longrightarrow> stops t \<Longrightarrow> stops (w @ t)"
  by (cases w) (auto simp: blank_def)

lemma find_inert:
  "inert s \<Longrightarrow> find_str (q # k @ [q]) (s @ t) = map_option ((+) (length s)) (find_str (q # k @ [q]) t)"
  by (induction s; cases "find_str (q # k @ [q]) t") auto

lemma quoted_prefix:
  "plain x \<Longrightarrow> plain k \<Longrightarrow> take (Suc (length k)) (x @ q # t) = k @ [q] \<longleftrightarrow> x = k"
proof (induction x arbitrary: k)
  case Nil
  then show ?case by (cases k) (auto simp: plain_def)
next
  case (Cons c x)
  then show ?case by (cases k) (auto simp: plain_def)
qed

lemma find_closing:
  assumes "key_name k" "stops t"
  shows "find_str (q # k @ [q]) (q # t) = map_option Suc (find_str (q # k @ [q]) t)"
  using assms by (cases t; cases k) (auto simp: key_name_def plain_def stops_def)

lemma find_string:
  assumes "key_name k" "plain x" "stops t" "x \<noteq> k"
  shows "find_str (q # k @ [q]) (q # x @ q # t) =
    map_option ((+) (length x + 2)) (find_str (q # k @ [q]) t)"
proof -
  have "take (Suc (length k)) (x @ q # t) \<noteq> k @ [q]"
    using assms quoted_prefix [of x k t] by (simp add: key_name_def)
  then have "find_str (q # k @ [q]) (q # x @ q # t) = map_option Suc (find_str (q # k @ [q]) (x @ q # t))"
    by (subst find_str.simps) (simp del: find_str.simps take_append)
  also have "find_str (q # k @ [q]) (x @ q # t) =
      map_option ((+) (length x)) (map_option Suc (find_str (q # k @ [q]) t))"
    using assms by (simp add: find_inert plain_inert find_closing del: find_str.simps)
  finally show ?thesis by (cases "find_str (q # k @ [q]) t") simp_all
qed

lemma map_fixed: "map f xs = xs \<Longrightarrow> x \<in> set xs \<Longrightarrow> f x = x"
  by (induction xs) auto

lemma find_text:
  "text_of v s \<Longrightarrow> k \<notin> strings_of v \<Longrightarrow> shallow v = v \<Longrightarrow> key_name k \<Longrightarrow> stops t \<Longrightarrow>
     find_str (q # k @ [q]) (s @ t) = map_option ((+) (length s)) (find_str (q # k @ [q]) t)"
  "items vs s \<Longrightarrow> \<forall>v \<in> set vs. k \<notin> strings_of v \<and> shallow v = v \<Longrightarrow> key_name k \<Longrightarrow> stops t \<Longrightarrow>
     find_str (q # k @ [q]) (s @ t) = map_option ((+) (length s)) (find_str (q # k @ [q]) t)"
  "members fs s \<Longrightarrow> fs = [] \<Longrightarrow> key_name k \<Longrightarrow> stops t \<Longrightarrow>
     find_str (q # k @ [q]) (s @ t) = map_option ((+) (length s)) (find_str (q # k @ [q]) t)"
proof (induction arbitrary: t and t and t rule: text_of_items_members.inducts)
  case (text_str x)
  then show ?case
    using find_string [of k x t] by (cases "find_str (q # k @ [q]) t") (simp_all del: find_str.simps)
next
  case (text_arr vs s)
  have "find_str (q # k @ [q]) (s @ '']'' @ t) =
      map_option ((+) (length s)) (find_str (q # k @ [q]) ('']'' @ t))"
    using text_arr.prems by (intro text_arr.IH) (auto dest: map_fixed)
  then show ?case by (cases "find_str (q # k @ [q]) t") simp_all
next
  case (text_obj fs s)
  then have "find_str (q # k @ [q]) (s @ ''}'' @ t) =
      map_option ((+) (length s)) (find_str (q # k @ [q]) (''}'' @ t))"
    by (intro text_obj.IH) auto
  then show ?case by (cases "find_str (q # k @ [q]) t") simp_all
next
  case (text_blank v s w w')
  then have "find_str (q # k @ [q]) (s @ w' @ t) =
      map_option ((+) (length s)) (find_str (q # k @ [q]) (w' @ t))"
    by (intro text_blank.IH) (auto simp: stops_blank)
  with text_blank.hyps show ?case
    by (cases "find_str (q # k @ [q]) t") (simp_all add: find_inert inert_intros)
next
  case (items_more v s vs u)
  have "find_str (q # k @ [q]) (s @ '','' @ u @ t) =
      map_option ((+) (length s)) (find_str (q # k @ [q]) ('','' @ u @ t))"
    using items_more.prems by (intro items_more.IH) auto
  moreover have "find_str (q # k @ [q]) (u @ t) =
      map_option ((+) (length u)) (find_str (q # k @ [q]) t)"
    using items_more.prems by (intro items_more.IH) auto
  ultimately show ?case by (cases "find_str (q # k @ [q]) t") simp_all
qed (simp_all add: find_inert inert_intros stops_blank)

text \<open>What stands behind the colon of a key.\<close>

lemma value_start:
  "text_of v s \<Longrightarrow> (case v of JStr x \<Rightarrow> plain x \<and> (\<exists>u. dropWhile is_whitespace (s @ t) = q # x @ q # u)
     | _ \<Rightarrow> \<exists>c u. dropWhile is_whitespace (s @ t) = c # u \<and> c \<noteq> q)"
  "items vs s \<Longrightarrow> True" "members fs s \<Longrightarrow> True"
proof (induction arbitrary: t rule: text_of_items_members.inducts)
  case (text_lit x)
  then show ?case by (cases x) (auto simp: literal_def plain_def)
next
  case (text_blank v s w w')
  have "dropWhile is_whitespace ((w @ s @ w') @ t) = dropWhile is_whitespace (s @ w' @ t)"
    using text_blank.hyps(2) by (simp add: blank_def dropWhile_append2)
  with text_blank.IH [of "w' @ t"] show ?case by (cases v) simp_all
qed simp_all

lemma json_string_plain: "plain x \<Longrightarrow> json_string_loop False (x @ q # t) = Some x"
  by (induction x) (auto simp: plain_def)

lemma find_colon: "blank w \<Longrightarrow> find_char (CHR '':'') (w @ CHR '':'' # t) = Some (length w)"
  by (induction w) (auto simp: blank_def)

lemma extract_at_key:
  assumes "key_name k" "blank w" "blank w'" "text_of v s"
  shows "extract_json_string (w @ q # k @ q # w' @ CHR '':'' # s @ t) (q # k @ [q]) =
    (case v of JStr x \<Rightarrow> Some x | _ \<Rightarrow> None)"
proof -
  have "find_str (q # k @ [q]) (w @ q # k @ q # w' @ CHR '':'' # s @ t) = Some (length w)"
    using assms by (simp add: find_inert inert_intros)
  then show ?thesis
    using value_start(1) [OF assms(4), of t] assms
    by (auto simp: extract_json_string_def find_colon json_string_plain
        simp del: dropWhile_eq_Nil_conv split: json.splits)
qed

lemma extract_skip:
  assumes "find_str key (s @ t) = map_option ((+) (length s)) (find_str key t)"
  shows "extract_json_string (s @ t) key = extract_json_string t key"
  using assms by (cases "find_str key t") (simp_all add: extract_json_string_def)

lemma extract_member:
  assumes "key_name k" "plain k'" "blank w" "blank w'" "text_of v s" "k' \<noteq> k" "stops t"
    and "k \<notin> strings_of v" "shallow v = v"
  shows "extract_json_string (w @ q # k' @ q # w' @ CHR '':'' # s @ t) (q # k @ [q]) =
    extract_json_string t (q # k @ [q])"
proof -
  have "find_str (q # k @ [q]) (q # k' @ q # w' @ CHR '':'' # s @ t) =
      map_option ((+) (length k' + 2)) (find_str (q # k @ [q]) (w' @ CHR '':'' # s @ t))"
    using assms by (intro find_string) (auto simp: stops_blank)
  moreover have "find_str (q # k @ [q]) (s @ t) = map_option ((+) (length s)) (find_str (q # k @ [q]) t)"
    using assms by (intro find_text) auto
  ultimately have "find_str (q # k @ [q]) ((w @ q # k' @ q # w' @ CHR '':'' # s) @ t) =
      map_option ((+) (length (w @ q # k' @ q # w' @ CHR '':'' # s))) (find_str (q # k @ [q]) t)"
    using assms by (cases "find_str (q # k @ [q]) t") (simp_all add: find_inert inert_intros)
  from extract_skip [OF this] show ?thesis by simp
qed

lemma extract_field:
  "text_of v s \<Longrightarrow> True" "items vs s \<Longrightarrow> True"
  "members fs s \<Longrightarrow> key_name k \<Longrightarrow> \<forall>f \<in> set fs. k \<notin> strings_of (snd f) \<and> shallow (snd f) = snd f \<Longrightarrow>
     extract_json_string s (q # k @ [q]) = string_field fs k"
proof (induction rule: text_of_items_members.inducts)
  case (members_none w)
  then have "find_str (q # k @ [q]) w = None"
    using find_inert [of w k "[]"] by (simp add: inert_intros)
  then show ?case by (simp add: extract_json_string_def string_field_def)
next
  case (members_one k' w w' v s)
  have empty: "extract_json_string [] (q # k @ [q]) = None"
    by (simp add: extract_json_string_def)
  show ?case
  proof (cases "k' = k")
    case True
    then show ?thesis
      using members_one extract_at_key [of k w w' v s "[]"] by (simp add: string_field_def)
  next
    case False
    then show ?thesis
      using members_one extract_member [of k k' w w' v s "[]"] empty by (simp add: string_field_def)
  qed
next
  case (members_more k' w w' v s fs t)
  show ?case
  proof (cases "k' = k")
    case True
    then show ?thesis
      using members_more extract_at_key [of k w w' v s "CHR '','' # t"] by (simp add: string_field_def)
  next
    case False
    have "extract_json_string ('','' @ t) (q # k @ [q]) = extract_json_string t (q # k @ [q])"
      by (rule extract_skip) (cases "find_str (q # k @ [q]) t"; simp)
    then show ?thesis
      using False members_more extract_member [of k k' w w' v s "CHR '','' # t"]
      by (simp add: string_field_def)
  qed
qed simp_all

section \<open>The records of a document\<close>

lemma shallow_shallow [simp]: "shallow (shallow v) = shallow v"
  by (induction v) (auto)

lemma strings_of_shallow: "strings_of (shallow v) \<subseteq> strings_of v"
  by (induction v rule: strings_of.induct) auto

lemma map_of_shallow:
  "map_of (map (\<lambda>f. (fst f, shallow (snd f))) fs) k = map_option shallow (map_of fs k)"
  by (induction fs) auto

lemma string_field_shallow:
  "string_field (map (\<lambda>f. (fst f, shallow (snd f))) fs) k = string_field fs k"
  by (auto simp: string_field_def map_of_shallow split: option.splits json.splits elim: shallow.elims)

lemma collect_inert: "inert s \<Longrightarrow> collect_artifact_objects (s @ t) = collect_artifact_objects t"
  by (subst (1 2) collect_artifact_objects.simps) (auto simp: find_char_inert Let_def split: option.splits)

lemma collect_Cons: "c \<noteq> CHR ''{'' \<Longrightarrow> collect_artifact_objects (c # t) = collect_artifact_objects t"
  by (subst (1 2) collect_artifact_objects.simps) (auto simp: Let_def split: option.splits)

lemma collect_Nil [simp]: "collect_artifact_objects [] = Some []"
  by (subst collect_artifact_objects.simps) simp

lemma flatten_members:
  assumes "members fs s"
  obtains flat where "flatten_nested_objects s = Some flat"
    "\<And>k. key_name k \<Longrightarrow> \<forall>f \<in> set fs. k \<notin> strings_of (snd f) \<Longrightarrow>
       extract_json_string flat (q # k @ [q]) = string_field fs k"
proof -
  obtain s' where s': "members (map (\<lambda>f. (fst f, shallow (snd f))) fs) s'"
    "flatten_nested_objects (s @ []) = map_option ((@) s') (flatten_nested_objects [])"
    using flatten_text(3) [OF assms] by blast
  show thesis
  proof (rule that)
    show "flatten_nested_objects s = Some s'" using s'(2) by simp
    show "extract_json_string s' (q # k @ [q]) = string_field fs k"
      if "key_name k" "\<forall>f \<in> set fs. k \<notin> strings_of (snd f)" for k
      using extract_field(3) [OF s'(1) that(1)] that(2) strings_of_shallow
      by (fastforce simp: string_field_shallow)
  qed
qed

lemma key_names: "key_name ''path''" "key_name ''sha256''"
  by (simp_all add: key_name_def plain_def q_def backslash_def)

definition clean :: "json \<Rightarrow> bool" where
  "clean v \<longleftrightarrow> ''path'' \<notin> strings_of v \<and> ''sha256'' \<notin> strings_of v"

lemma clean_simps [simp]:
  "clean (JArr vs) \<longleftrightarrow> (\<forall>v \<in> set vs. clean v)" "clean (JObj fs) \<longleftrightarrow> (\<forall>f \<in> set fs. clean (snd f))"
  by (auto simp: clean_def)

lemma collect_object:
  assumes "members fs s" "\<forall>f \<in> set fs. clean (snd f)"
    and "collect_artifact_objects s = Some (concat (map (\<lambda>f. artifact_records (snd f)) fs))"
  shows "collect_artifact_objects (CHR ''{'' # s @ CHR ''}'' # t) =
    map_option ((@) (artifact_records (JObj fs))) (collect_artifact_objects t)"
proof -
  obtain flat where "flatten_nested_objects s = Some flat"
    "extract_json_string flat (q # ''path'' @ [q]) = string_field fs ''path''"
    "extract_json_string flat (q # ''sha256'' @ [q]) = string_field fs ''sha256''"
    using flatten_members [OF assms(1)] key_names assms(2) by (metis clean_def)
  then show ?thesis
    by (subst collect_artifact_objects.simps)
      (simp add: object_end_members [OF assms(1)] slice_from_def assms(3)
        split: option.splits)
qed

lemma map_option_append:
  "map_option ((@) []) r = r"
  "map_option ((@) xs) (map_option ((@) ys) r) = map_option ((@) (xs @ ys)) r"
  by (cases r; simp)+

lemma collect_text:
  "text_of v s \<Longrightarrow> clean v \<Longrightarrow> collect_artifact_objects (s @ t) =
     map_option ((@) (artifact_records v)) (collect_artifact_objects t)"
  "items vs s \<Longrightarrow> \<forall>v \<in> set vs. clean v \<Longrightarrow> collect_artifact_objects (s @ t) =
     map_option ((@) (concat (map artifact_records vs))) (collect_artifact_objects t)"
  "members fs s \<Longrightarrow> \<forall>f \<in> set fs. clean (snd f) \<Longrightarrow> collect_artifact_objects (s @ t) =
     map_option ((@) (concat (map (\<lambda>f. artifact_records (snd f)) fs))) (collect_artifact_objects t)"
proof (induction arbitrary: t and t and t rule: text_of_items_members.inducts)
  case (text_obj fs s)
  from text_obj.IH [of "[]"] text_obj.prems
  have "collect_artifact_objects s = Some (concat (map (\<lambda>f. artifact_records (snd f)) fs))" by simp
  from collect_object [OF text_obj.hyps _ this] text_obj.prems show ?case
    by (simp del: artifact_records.simps(4))
qed (simp_all add: collect_inert collect_Cons inert_intros map_option_append
    del: artifact_records.simps(4))

section \<open>Properties\<close>


lemma collect_panics:
  "object_end (s @ ''}'') = length s \<Longrightarrow> collect_artifact_objects s = None \<Longrightarrow>
   collect_artifact_objects (CHR ''{'' # s @ ''}'') = None"
  by (subst collect_artifact_objects.simps) (simp add: slice_from_def split: option.splits)

definition small_manifest :: json where
  "small_manifest =
     JObj [(''board'', JObj [(''model'', JStr ''X'')]),
           (''artifacts'', JArr [JObj [(''path'', JStr ''a''), (''sha256'', JStr ''12'')]])]"

definition small_manifest_text :: string where
  "small_manifest_text =
     ''{'' @ [q] @ ''board'' @ [q] @ '':{'' @ [q] @ ''model'' @ [q] @ '':'' @ [q] @ ''X'' @ [q] @ ''}, '' @
     [q] @ ''artifacts'' @ [q] @ '':[{'' @ [q] @ ''path'' @ [q] @ '':'' @ [q] @ ''a'' @ [q] @ '','' @
     [q] @ ''sha256'' @ [q] @ '':'' @ [q] @ ''12'' @ [q] @ ''}]}''"

lemma small_manifest_text_of: "text_of small_manifest small_manifest_text"
proof -
  have p: "plain x" if "x \<in> {''board'', ''model'', ''X'', ''artifacts'', ''path'', ''a'', ''sha256'', ''12''}" for x
    using that by (auto simp: plain_def q_def backslash_def)
  have b: "blank []" "blank '' ''" by (simp_all add: blank_def is_whitespace_def)
  have s: "text_of (JStr x) (q # x @ [q])" if "plain x" for x using that by (rule text_str)
  have board: "text_of (JObj [(''model'', JStr ''X'')]) (CHR ''{'' # ([] @ q # ''model'' @ q # [] @ CHR '':'' # q # ''X'' @ [q]) @ ''}'')"
    by (intro text_obj members_one s b p) simp_all
  have leaf: "text_of (JObj [(''path'', JStr ''a''), (''sha256'', JStr ''12'')])
      (CHR ''{'' # ([] @ q # ''path'' @ q # [] @ CHR '':'' # (q # ''a'' @ [q]) @ CHR '','' #
        [] @ q # ''sha256'' @ q # [] @ CHR '':'' # q # ''12'' @ [q]) @ ''}'')"
    by (intro text_obj members_one members_more s b p) simp_all
  from text_obj [OF members_more [OF p [of "''board''"] b(1) b(1) board
      members_one [OF p [of "''artifacts''"] b(2) b(1) text_arr [OF items_one [OF leaf]]]]]
  show ?thesis by (simp add: small_manifest_def small_manifest_text_def)
qed


text \<open>
  An opening brace inside a string is taken for an object: the manifest
  \<open>{"k":"x{y"}\<close>, a JSON document, makes the scan slice behind the end of its text and panic.
\<close>

theorem brace_in_string_panics:
  assumes "plain k" "plain x" "plain y"
  shows "parse_artifact_hashes
    (CHR ''{'' # (q # k @ q # CHR '':'' # q # x @ CHR ''{'' # y @ [q]) @ ''}'') = None"
proof -
  let ?inner = "q # k @ q # CHR '':'' # q # x @ CHR ''{'' # y @ [q]"
  have in_string: "object_end_loop d True False i (x' @ CHR ''{'' # y @ q # t) =
      object_end_loop d False False (i + length x' + length y + 2) t" if "plain x'" for d i x' t
    using object_end_in_string [of "y" d _ t] that assms(3)
    by (induction x' arbitrary: i) (auto simp: plain_def ac_simps)
  have "collect_artifact_objects ?inner = None"
  proof -
    have "collect_artifact_objects (CHR ''{'' # y @ [q]) = None"
      using assms(3) object_end_inert [of y 1 0 "[q]"]
      by (subst collect_artifact_objects.simps)
        (simp add: object_end_def slice_from_def plain_inert)
    then show ?thesis using assms by (simp add: collect_Cons collect_inert plain_inert)
  qed
  moreover have "object_end (?inner @ ''}'') = length ?inner"
    using assms by (simp add: object_end_def in_string object_end_in_string)
  ultimately show ?thesis
    by (simp only: parse_artifact_hashes_def collect_panics)
qed

theorem brace_in_string_panics_witness:
  "parse_artifact_hashes (CHR ''{'' # (q # ''path'' @ q # CHR '':'' # q # [] @ CHR ''{'' # [] @ [q]) @ ''}'') = None"
  by (rule brace_in_string_panics) (simp_all add: plain_def q_def backslash_def)

end
