(* ===== verification/ZubCtl.thy ===== *)
theory ZubCtl
  imports SerialWatch Artifacts
begin

text \<open>
  The test driver \<open>tooling/zub_ctl\<close>: the xsct script of \<open>src/lib.rs\<close>, and the commands of
  \<open>src/main.rs\<close> over an environment that answers for the file system and for the programs it
  starts. What a command does is a trace of actions and an outcome; a text is its bytes.
\<close>

section \<open>Arguments\<close>

record serial_args =
  tty :: string
  baud :: nat
  timeout :: nat
  expect :: "string list"
  fail_on :: "string list"
  print_only :: bool

record watch_r5_args =
  openocd :: string
  openocd_cfg :: string
  openocd_script :: "string list"
  r5_elf :: "string option"
  pre_xsct :: "string option"
  psinit :: "string option"
  pre_xsct_script :: "string option"
  r5_serial :: serial_args

record watch_a53_args =
  xsct :: string
  a53_elf :: string
  bitstream :: string
  a53_psinit :: string
  a53_serial :: serial_args

record doctor_args =
  doctor_tty :: string
  doctor_openocd :: string
  doctor_xsct :: "string option"
  artifacts_dir :: "string option"

datatype cmd =
    SerialWatch serial_args
  | WatchR5 watch_r5_args
  | WatchA53 watch_a53_args
  | Doctor doctor_args

section \<open>The environment\<close>

text \<open>An exit status is whether it is a success, and its text.\<close>

type_synonym exit_status = "bool \<times> string"

record env =
  path_exists :: "string \<Rightarrow> bool"
  opens_read_write :: "string \<Rightarrow> bool"
  dir_names :: "string \<Rightarrow> string list option"
  version_stderr :: "string \<Rightarrow> string + string"
  read_text :: "string \<Rightarrow> string + string"
  read_file :: "string \<Rightarrow> string + 8 word list"
  sha256 :: "8 word list \<Rightarrow> 8 word list"
  canonicalize :: "string \<Rightarrow> string option"
  valid_regex :: "string \<Rightarrow> bool"
  regex_matches :: "string \<Rightarrow> scalars \<Rightarrow> bool"
  opens_serial :: "string \<Rightarrow> nat \<Rightarrow> bool"
  serial_turns :: "iteration list"
  run_program :: "string \<Rightarrow> string list \<Rightarrow> exit_status option"
  spawns :: "string \<Rightarrow> string list \<Rightarrow> bool"
  exited :: "exit_status option option"
  writes :: "string \<Rightarrow> bool"
  temp_dir :: string
  process_id :: nat

datatype action =
    Print string
  | StartSerial
  | RunProgram string "string list"
  | SpawnProgram string "string list"
  | KillProgram
  | WriteFile string string
  | RemoveFile string

datatype 'a outcome = Return 'a | Failed string | Panicked | Waiting

type_synonym 'a act = "action list \<times> 'a outcome"

definition emit :: "action \<Rightarrow> unit act" where
  "emit a = ([a], Return ())"

definition and_then :: "'a act \<Rightarrow> ('a \<Rightarrow> 'b act) \<Rightarrow> 'b act" where
  "and_then m f =
     (case snd m of
        Return x \<Rightarrow> (fst m @ fst (f x), snd (f x))
      | Failed e \<Rightarrow> (fst m, Failed e)
      | Panicked \<Rightarrow> (fst m, Panicked)
      | Waiting \<Rightarrow> (fst m, Waiting))"

definition succeed :: "'a \<Rightarrow> 'a act" where
  "succeed x = ([], Return x)"

text \<open>The operator \<open>?\<close> on an option that carries its error as a context.\<close>

definition require :: "string \<Rightarrow> 'a option \<Rightarrow> 'a act" where
  "require e r = (case r of Some x \<Rightarrow> succeed x | None \<Rightarrow> ([], Failed e))"

text \<open>\<open>Path::join\<close>.\<close>

definition path_join :: "string \<Rightarrow> string \<Rightarrow> string" where
  "path_join dir rel =
     (if rel \<noteq> [] \<and> hd rel = CHR ''/'' then rel
      else if dir = [] \<or> last dir = CHR ''/'' then dir @ rel else dir @ ''/'' @ rel)"

section \<open>Preflight checks\<close>

definition em_dash :: string where
  "em_dash = [CHR 0xE2, CHR 0x80, CHR 0x94]"

definition ellipsis :: string where
  "ellipsis = [CHR 0xE2, CHR 0x80, CHR 0xA6]"

definition print_check :: "bool \<Rightarrow> bool \<Rightarrow> string \<Rightarrow> string \<Rightarrow> action list" where
  "print_check ok advisory label detail =
     (let tail = (if detail = [] then [] else '' '' @ em_dash @ '' '' @ detail) in
      [Print ((if ok then ''[OK  ] '' @ label
               else if advisory then ''[WARN] '' @ label @ tail
               else ''[FAIL] '' @ label @ tail))])"

definition print_check_skip :: "string \<Rightarrow> action list" where
  "print_check_skip label = [Print (''[SKIP] '' @ label)]"

definition trim_text :: "string \<Rightarrow> string" where
  "trim_text s = rev (dropWhile is_whitespace (rev (dropWhile is_whitespace s)))"

definition sha256_hex :: "(8 word list \<Rightarrow> 8 word list) \<Rightarrow> 8 word list \<Rightarrow> string" where
  "sha256_hex digest bytes = concat (map (\<lambda>b. fmt_hex 2 (unat b)) (digest bytes))"

text \<open>One listed artifact: what is printed, and whether it is in order.\<close>

definition check_artifact :: "env \<Rightarrow> string \<Rightarrow> string \<times> string \<Rightarrow> action list \<times> bool" where
  "check_artifact e dir entry =
     (case entry of (rel, expected) \<Rightarrow>
        (case read_file e (path_join dir rel) of
           Inl err \<Rightarrow> (print_check False False (''artifact '' @ rel) (''cannot read: '' @ err), False)
         | Inr bytes \<Rightarrow>
             let actual = sha256_hex (sha256 e) bytes;
                 ok = (actual = expected)
             in (print_check ok False (''artifact '' @ rel @ '' SHA-256'')
                   (if ok then [] else ''computed '' @ actual @ '', manifest '' @ expected), ok)))"

definition check_artifacts :: "env \<Rightarrow> string option \<Rightarrow> action list \<times> bool option" where
  "check_artifacts e dir =
     (case dir of
        None \<Rightarrow> (print_check_skip ''artifact hash check (--artifacts-dir not provided)'', Some True)
      | Some d \<Rightarrow>
          let manifest = path_join d ''artifacts.json'' in
          (case read_text e manifest of
             Inl err \<Rightarrow> (print_check False False ''artifacts.json readable'' (manifest @ '': '' @ err), Some False)
           | Inr json \<Rightarrow>
               (case parse_artifact_hashes json of
                  None \<Rightarrow> ([], None)
                | Some entries \<Rightarrow>
                    ((if entries = [] then
                        print_check False False ''artifacts.json has entries''
                          ''parse yielded zero (path, sha256) pairs''
                      else []) @ concat (map (fst \<circ> check_artifact e d) entries),
                     Some (entries \<noteq> [] \<and> list_all (snd \<circ> check_artifact e d) entries)))))"

text \<open>The test \<open>sdk/boards/zub_1cg/artifact_integrity_test.rs\<close>: whether it passes; a panic
  fails it.\<close>

definition board_artifacts_match_manifest :: "env \<Rightarrow> string \<Rightarrow> bool" where
  "board_artifacts_match_manifest e dir =
     (case read_text e (path_join dir ''artifacts.json'') of
        Inl err \<Rightarrow> False
      | Inr manifest \<Rightarrow>
          (case parse_artifact_hashes manifest of
             None \<Rightarrow> False
           | Some entries \<Rightarrow>
               entries \<noteq> [] \<and>
               list_all (\<lambda>(rel_path, expected).
                   case read_file e (path_join dir rel_path) of
                     Inl err \<Rightarrow> False
                   | Inr bytes \<Rightarrow> sha256_hex (sha256 e) bytes = expected) entries))"

definition run_doctor :: "env \<Rightarrow> doctor_args \<Rightarrow> bool act" where
  "run_doctor e args =
     (let tty_exists = path_exists e (doctor_tty args);
          perm_ok = opens_read_write e (doctor_tty args);
          tty_log =
            print_check tty_exists False (''TTY device '' @ doctor_tty args)
              (if tty_exists then [] else ''device not found'') @
            (if tty_exists then
               print_check perm_ok False (''TTY permissions (r/w) on '' @ doctor_tty args)
                 (if perm_ok then [] else ''cannot open for read+write; try: sudo usermod -aG dialout $USER'')
             else []);
          by_id = ''/dev/serial/by-id'';
          ft2232 = (case dir_names e by_id of
                      None \<Rightarrow> False | Some names \<Rightarrow> list_ex (\<lambda>n. find_str ''FT2232'' n \<noteq> None) names);
          usb_log = (if path_exists e by_id then
                       print_check ft2232 True ''FT2232H in /dev/serial/by-id''
                         (if ft2232 then [] else ''no FT2232H enumerated; check USB cable / driver'')
                     else []);
          (ocd_log, ocd_ok) =
            (case version_stderr e (doctor_openocd args) of
               Inr out \<Rightarrow>
                 (print_check True False
                    (''openocd ('' @ trim_text (takeWhile (\<lambda>c. c \<noteq> CHR 0x0A) out) @ '')'') [], True)
             | Inl err \<Rightarrow> (print_check False False (''openocd ('' @ doctor_openocd args @ '')'') err, False));
          (xsct_log, xsct_ok) =
            (case doctor_xsct args of
               None \<Rightarrow> (print_check_skip ''xsct binary (--xsct not provided)'', True)
             | Some path \<Rightarrow>
                 let ok = path_exists e path in
                 (print_check ok False (''xsct at '' @ path) (if ok then [] else ''file not found''), ok));
          log = tty_log @ usb_log @ ocd_log @ xsct_log;
          (artifact_log, artifacts_ok) = check_artifacts e (artifacts_dir args)
      in case artifacts_ok of
           None \<Rightarrow> (log @ artifact_log, Panicked)
         | Some a \<Rightarrow>
             let failed = \<not> (tty_exists \<and> perm_ok \<and> ocd_ok \<and> xsct_ok \<and> a) in
             (log @ artifact_log @
                [Print (if failed
                        then ''[doctor] one or more required checks FAILED '' @ em_dash @
                             '' fix the issues above before running board tests.''
                        else ''[doctor] all checks passed.'')],
              Return (\<not> failed)))"

section \<open>Starting the boards\<close>

definition lines_text :: "string list \<Rightarrow> string" where
  "lines_text ls = concat (map (\<lambda>l. l @ [CHR 0x0A]) ls)"

definition build_xsct_tcl :: "string \<Rightarrow> string \<Rightarrow> string \<Rightarrow> string" where
  "build_xsct_tcl elf fpga psinit_path =
     lines_text
       [''connect'',
        ''puts '' @ [q] @ ''Connected. Available targets:'' @ [q],
        ''targets'',
        [],
        ''puts '' @ [q, backslash] @ ''nResetting system...'' @ [q],
        ''targets -set -nocase -filter {name =~ '' @ [q] @ ''PSU'' @ [q] @ ''}'',
        ''rst -system'',
        ''after 3000'',
        ''mwr 0xffca0038 0x1ff'',
        [],
        ''puts '' @ [q] @ ''Programming PL bitstream: '' @ fpga @ [q],
        ''fpga -file '' @ fpga,
        [],
        ''puts '' @ [q] @ ''Running psu_init (clocks, MIO, DDR)...'' @ [q],
        ''targets -set -nocase -filter {name =~ '' @ [q] @ ''APU*'' @ [q] @ ''}'',
        ''source '' @ psinit_path,
        ''psu_init'',
        ''psu_ps_pl_isolation_removal'',
        ''psu_ps_pl_reset_config'',
        ''after 1000'',
        [],
        ''puts '' @ [q] @ ''Loading ELF on A53 #0: '' @ elf @ [q],
        ''targets -set -nocase -filter {name =~ '' @ [q] @ ''*A53*#0'' @ [q] @ ''}'',
        ''rst -processor'',
        ''dow '' @ elf,
        ''con'']"

definition spawn_serial_watch :: "env \<Rightarrow> serial_args \<Rightarrow> (string + bool) option act" where
  "spawn_serial_watch e args =
     (case compile_regexes (valid_regex e) (expect args) of
        Inl err \<Rightarrow> ([], Failed err)
      | Inr remaining \<Rightarrow>
          (case compile_regexes (valid_regex e) (fail_on args) of
             Inl err \<Rightarrow> ([], Failed err)
           | Inr fails \<Rightarrow>
               if \<not> path_exists e (tty args) then ([], Failed (''serial device does not exist: '' @ tty args))
               else if \<not> opens_serial e (tty args) (baud args) then
                 ([], Failed (''open serial port '' @ tty args))
               else
                 ([StartSerial],
                  Return (snd (watch_loop (regex_matches e) (timeout args) (print_only args) fails remaining
                                 [] (serial_turns e))))))"

definition join_serial :: "(string + bool) option \<Rightarrow> bool act" where
  "join_serial r =
     (case r of
        None \<Rightarrow> ([], Waiting)
      | Some (Inl err) \<Rightarrow> ([], Failed err)
      | Some (Inr ok) \<Rightarrow> ([], Return ok))"

definition run_subprocess :: "env \<Rightarrow> string \<Rightarrow> string list \<Rightarrow> exit_status act" where
  "run_subprocess e program args =
     ([RunProgram program args],
      case run_program e program args of None \<Rightarrow> Failed ''spawn subprocess'' | Some status \<Rightarrow> Return status)"

definition report_exit :: "string \<Rightarrow> exit_status \<Rightarrow> unit act" where
  "report_exit what status =
     (if fst status then succeed () else emit (Print (''[zub_ctl] '' @ what @ '' exited with status '' @ snd status)))"

definition run_serial_watch :: "env \<Rightarrow> serial_args \<Rightarrow> bool act" where
  "run_serial_watch e args = and_then (spawn_serial_watch e args) join_serial"

text \<open>Steps 1 to 5 of \<open>run_watch_r5\<close>.\<close>

definition pre_psu_init :: "env \<Rightarrow> watch_r5_args \<Rightarrow> bool act" where
  "pre_psu_init e args =
     (case pre_xsct args of
        None \<Rightarrow> succeed True
      | Some program \<Rightarrow>
          and_then (require ''--pre-xsct requires --pre-xsct-script'' (pre_xsct_script args)) (\<lambda>script.
          and_then (require ''--pre-xsct requires --psinit'' (psinit args)) (\<lambda>init.
          and_then (require (''resolve psu_init: '' @ init) (canonicalize e init)) (\<lambda>init_abs.
          and_then (emit (Print (''[zub_ctl] launching xsct for psu_init'' @ ellipsis))) (\<lambda>_.
          and_then (run_subprocess e program [''-nodisp'', script, init_abs]) (\<lambda>status.
          and_then (report_exit ''xsct psu_init'' status) (\<lambda>_. succeed (fst status))))))))"

definition openocd_args :: "watch_r5_args \<Rightarrow> string option \<Rightarrow> string list" where
  "openocd_args args elf =
     [''-f'', openocd_cfg args] @
     (case elf of None \<Rightarrow> [] | Some path \<Rightarrow> [''--command'', ''set ELF {'' @ path @ ''}'']) @
     concat (map (\<lambda>script. [''-f'', script]) (openocd_script args))"

definition launch_openocd :: "env \<Rightarrow> watch_r5_args \<Rightarrow> unit act" where
  "launch_openocd e args =
     and_then (emit (Print (''[zub_ctl] launching openocd'' @ ellipsis))) (\<lambda>_.
     and_then (case r5_elf args of
                 None \<Rightarrow> succeed None
               | Some elf \<Rightarrow>
                   and_then (require (''resolve ELF '' @ elf) (canonicalize e elf)) (\<lambda>path. succeed (Some path)))
       (\<lambda>elf.
         ([SpawnProgram (openocd args) (openocd_args args elf)],
          if spawns e (openocd args) (openocd_args args elf) then Return () else Failed ''spawn openocd'')))"

definition reap_openocd :: "env \<Rightarrow> bool act" where
  "reap_openocd e =
     and_then (require ''poll openocd'' (exited e)) (\<lambda>st.
       case st of
         Some status \<Rightarrow> and_then (report_exit ''openocd'' status) (\<lambda>_. succeed (fst status))
       | None \<Rightarrow> and_then (emit KillProgram) (\<lambda>_. succeed True))"

definition run_watch_r5 :: "env \<Rightarrow> watch_r5_args \<Rightarrow> bool act" where
  "run_watch_r5 e args =
     and_then (pre_psu_init e args) (\<lambda>initialised.
       if \<not> initialised then succeed False
       else
         and_then (spawn_serial_watch e (r5_serial args)) (\<lambda>serial.
         and_then (launch_openocd e args) (\<lambda>_.
         and_then (join_serial serial) (\<lambda>ok.
         and_then (reap_openocd e) (\<lambda>ocd_success. succeed (ok \<and> ocd_success))))))"

text \<open>The guard of the temporary file: \<open>Drop\<close> runs on every return.\<close>

definition with_temp_file :: "string \<Rightarrow> 'a act \<Rightarrow> 'a act" where
  "with_temp_file tmp m =
     (case snd m of Waiting \<Rightarrow> m | _ \<Rightarrow> (fst m @ [RemoveFile tmp], snd m))"

definition temp_script :: "env \<Rightarrow> string" where
  "temp_script e = path_join (temp_dir e) (''zub_ctl_xsct_'' @ fmt_dec (process_id e) @ ''.tcl'')"

definition run_watch_a53 :: "env \<Rightarrow> watch_a53_args \<Rightarrow> bool act" where
  "run_watch_a53 e args =
     and_then (require (''resolve ELF path '' @ a53_elf args) (canonicalize e (a53_elf args))) (\<lambda>elf.
     and_then (require (''resolve bitstream '' @ bitstream args) (canonicalize e (bitstream args))) (\<lambda>fpga.
     and_then (require (''resolve psu_init.tcl '' @ a53_psinit args) (canonicalize e (a53_psinit args))) (\<lambda>init.
     and_then (spawn_serial_watch e (a53_serial args)) (\<lambda>serial.
       let tmp = temp_script e in
       and_then ([WriteFile tmp (build_xsct_tcl elf fpga init)],
                 if writes e tmp then Return () else Failed ''write xsct tcl tempfile'') (\<lambda>_.
         with_temp_file tmp
           (and_then (emit (Print (''[zub_ctl] launching xsct'' @ ellipsis))) (\<lambda>_.
            and_then (run_subprocess e (xsct args) [''-nodisp'', tmp]) (\<lambda>status.
            and_then (report_exit ''xsct'' status) (\<lambda>_.
            and_then (join_serial serial) (\<lambda>ok. succeed (ok \<and> fst status)))))))))))"

text \<open>\<open>main\<close> behind the parser of the command line: the exit code, unless it waits.\<close>

definition run_cmd :: "env \<Rightarrow> cmd \<Rightarrow> bool act" where
  "run_cmd e c =
     (case c of
        SerialWatch a \<Rightarrow> run_serial_watch e a
      | WatchR5 a \<Rightarrow> run_watch_r5 e a
      | WatchA53 a \<Rightarrow> run_watch_a53 e a
      | Doctor a \<Rightarrow> run_doctor e a)"

definition exit_code :: "bool outcome \<Rightarrow> nat option" where
  "exit_code r =
     (case r of Return ok \<Rightarrow> Some (if ok then 0 else 1) | Failed err \<Rightarrow> Some 2
      | Panicked \<Rightarrow> Some 101 | Waiting \<Rightarrow> None)"

definition zub_ctl :: "env \<Rightarrow> cmd \<Rightarrow> action list \<times> nat option" where
  "zub_ctl e c =
     (case run_cmd e c of
        (log, Failed err) \<Rightarrow> (log @ [Print (''zub_ctl: '' @ err)], Some 2)
      | (log, r) \<Rightarrow> (log, exit_code r))"

section \<open>Lemmas\<close>

lemma snd_and_then: "snd (and_then m f) = (case snd m of Return x \<Rightarrow> snd (f x)
    | Failed err \<Rightarrow> Failed err | Panicked \<Rightarrow> Panicked | Waiting \<Rightarrow> Waiting)"
  by (simp add: and_then_def split: outcome.split)

lemma fst_and_then: "fst (and_then m f) = fst m @ (case snd m of Return x \<Rightarrow> fst (f x) | _ \<Rightarrow> [])"
  by (simp add: and_then_def split: outcome.split)

lemma act_simps [simp]:
  "succeed x = ([], Return x)" "emit a = ([a], Return ())"
  "require err None = ([], Failed err)" "require err (Some x) = ([], Return x)"
  by (simp_all add: succeed_def emit_def require_def)

lemma compile_regexes_ok: "compile_regexes valid ps = (if list_all valid ps then Inr ps
    else Inl (''bad regex: '' @ hd (dropWhile valid ps)))"
  by (induction ps) auto

text \<open>What the reader thread returns, once it has been started.\<close>

definition serial_result :: "env \<Rightarrow> serial_args \<Rightarrow> (string + bool) option" where
  "serial_result e args =
     snd (watch_loop (regex_matches e) (timeout args) (print_only args) (fail_on args) (expect args) []
            (serial_turns e))"

definition serial_starts :: "env \<Rightarrow> serial_args \<Rightarrow> bool" where
  "serial_starts e args \<longleftrightarrow>
     list_all (valid_regex e) (expect args) \<and> list_all (valid_regex e) (fail_on args) \<and>
     path_exists e (tty args) \<and> opens_serial e (tty args) (baud args)"

lemma spawn_starts:
  "serial_starts e args \<Longrightarrow> spawn_serial_watch e args = ([StartSerial], Return (serial_result e args))"
  by (simp add: serial_starts_def serial_result_def spawn_serial_watch_def compile_regexes_ok)

lemma spawn_fails:
  assumes "\<not> serial_starts e args"
  obtains err where "spawn_serial_watch e args = ([], Failed err)"
proof -
  have "\<exists>err. spawn_serial_watch e args = ([], Failed err)"
    using assms unfolding serial_starts_def spawn_serial_watch_def compile_regexes_ok
    by (cases "list_all (valid_regex e) (expect args)"; cases "list_all (valid_regex e) (fail_on args)") auto
  with that show thesis by blast
qed

lemma spawn_returns:
  "snd (spawn_serial_watch e args) = Return r \<longleftrightarrow> serial_starts e args \<and> r = serial_result e args"
  by (cases "serial_starts e args") (auto simp: spawn_starts elim: spawn_fails)

text \<open>When a sequence of steps returns.\<close>

lemma and_then_returns:
  "snd (and_then m f) = Return y \<longleftrightarrow> (\<exists>x. snd m = Return x \<and> snd (f x) = Return y)"
  by (simp add: snd_and_then split: outcome.split)

lemma require_returns: "snd (require err r) = Return x \<longleftrightarrow> r = Some x"
  by (cases r) auto

lemma run_subprocess_returns:
  "snd (run_subprocess e program args) = Return st \<longleftrightarrow> run_program e program args = Some st"
  by (simp add: run_subprocess_def split: option.split)

lemma join_serial_result: "snd (join_serial r) = Return ok \<longleftrightarrow> r = Some (Inr ok)"
  by (auto simp: join_serial_def split: option.split sum.split)

lemma fst_join [simp]: "fst (join_serial r) = []"
  by (auto simp: join_serial_def split: option.split sum.split)

lemma report_exit_result [simp]: "snd (report_exit what status) = Return ()"
  by (simp add: report_exit_def)

lemma exit_code_zero: "snd (zub_ctl e c) = Some 0 \<longleftrightarrow> snd (run_cmd e c) = Return True"
  by (auto simp: zub_ctl_def exit_code_def split: prod.split outcome.splits if_splits)

lemma snd_temp [simp]: "snd (with_temp_file tmp m) = snd m"
  by (simp add: with_temp_file_def split: outcome.split)

lemma snd_run_doctor:
  "snd (run_doctor e args) =
     (case snd (check_artifacts e (artifacts_dir args)) of
        None \<Rightarrow> Panicked
      | Some a \<Rightarrow> Return
          (path_exists e (doctor_tty args) \<and> opens_read_write e (doctor_tty args) \<and>
           (\<exists>out. version_stderr e (doctor_openocd args) = Inr out) \<and>
           (case doctor_xsct args of None \<Rightarrow> True | Some path \<Rightarrow> path_exists e path) \<and> a))"
  by (cases "version_stderr e (doctor_openocd args)"; cases "doctor_xsct args")
    (simp_all add: run_doctor_def Let_def case_prod_beta split: option.split)

section \<open>Properties\<close>

text \<open>The test and the preflight check agree on the artifacts.\<close>

lemma check_artifacts_agrees:
  "snd (check_artifacts e (Some dir)) = Some True \<longleftrightarrow> board_artifacts_match_manifest e dir"
proof -
  have "snd \<circ> check_artifact e dir = (\<lambda>(rel_path, expected).
      case read_file e (path_join dir rel_path) of
        Inl err \<Rightarrow> False | Inr bytes \<Rightarrow> sha256_hex (sha256 e) bytes = expected)"
    by (auto simp: check_artifact_def Let_def fun_eq_iff split: sum.split)
  then show ?thesis
    by (simp add: check_artifacts_def board_artifacts_match_manifest_def Let_def split: sum.split option.split)
qed


definition bench :: env where
  "bench =
     \<lparr>path_exists = (\<lambda>_. True), opens_read_write = (\<lambda>_. True), dir_names = (\<lambda>_. None),
      version_stderr = (\<lambda>_. Inr []), read_text = (\<lambda>_. Inr small_manifest_text),
      read_file = (\<lambda>_. Inr [0x12]), sha256 = (\<lambda>bytes. bytes), canonicalize = Some,
      valid_regex = (\<lambda>_. True), regex_matches = contains_text, opens_serial = (\<lambda>_ _. True),
      serial_turns = [], run_program = (\<lambda>_ _. None), spawns = (\<lambda>_ _. True), exited = None,
      writes = (\<lambda>_. True), temp_dir = ''/tmp'', process_id = 1\<rparr>"


text \<open>
  The command for the A53 ends with code 0 exactly if its files resolve, the serial
  watch starts and passes, the script can be written, and xsct runs it and succeeds.
\<close>

theorem watch_a53_success:
  "snd (zub_ctl e (WatchA53 args)) = Some 0 \<longleftrightarrow>
     canonicalize e (a53_elf args) \<noteq> None \<and> canonicalize e (bitstream args) \<noteq> None \<and>
     canonicalize e (a53_psinit args) \<noteq> None \<and>
     serial_starts e (a53_serial args) \<and> serial_result e (a53_serial args) = Some (Inr True) \<and>
     writes e (temp_script e) \<and>
     (\<exists>text. run_program e (xsct args) [''-nodisp'', temp_script e] = Some (True, text))"
  unfolding exit_code_zero run_cmd_def cmd.case run_watch_a53_def
  by (auto simp: and_then_returns require_returns spawn_returns join_serial_result run_subprocess_returns
      Let_def split: if_splits)

lemma pre_psu_init_returns:
  "snd (pre_psu_init e args) = Return True \<longleftrightarrow>
     (case pre_xsct args of
        None \<Rightarrow> True
      | Some program \<Rightarrow>
          (\<exists>script init path text. pre_xsct_script args = Some script \<and> psinit args = Some init \<and>
             canonicalize e init = Some path \<and>
             run_program e program [''-nodisp'', script, path] = Some (True, text)))"
  by (cases "pre_xsct args")
    (auto simp: pre_psu_init_def and_then_returns require_returns run_subprocess_returns)

lemma launch_openocd_returns:
  "snd (launch_openocd e args) = Return () \<longleftrightarrow>
     (case r5_elf args of
        None \<Rightarrow> spawns e (openocd args) (openocd_args args None)
      | Some elf \<Rightarrow> \<exists>path. canonicalize e elf = Some path \<and>
          spawns e (openocd args) (openocd_args args (Some path)))"
  by (cases "r5_elf args") (auto simp: launch_openocd_def and_then_returns require_returns)

lemma reap_openocd_returns:
  "snd (reap_openocd e) = Return True \<longleftrightarrow> (\<exists>st. exited e = Some st \<and> (st = None \<or> fst (the st)))"
  by (cases "exited e") (auto simp: reap_openocd_def and_then_returns split: option.split)

text \<open>
  The command for the R5 ends with code 0 exactly if the optional psu_init run
  succeeds, the serial watch starts and passes, openocd is spawned with the resolved image, and it
  is still running then or has ended with success.
\<close>

theorem watch_r5_success:
  "snd (zub_ctl e (WatchR5 args)) = Some 0 \<longleftrightarrow>
     snd (pre_psu_init e args) = Return True \<and>
     serial_starts e (r5_serial args) \<and> serial_result e (r5_serial args) = Some (Inr True) \<and>
     (case r5_elf args of
        None \<Rightarrow> spawns e (openocd args) (openocd_args args None)
      | Some elf \<Rightarrow> \<exists>path. canonicalize e elf = Some path \<and>
          spawns e (openocd args) (openocd_args args (Some path))) \<and>
     (\<exists>st. exited e = Some st \<and> (st = None \<or> fst (the st)))"
  unfolding exit_code_zero run_cmd_def cmd.case run_watch_r5_def
    launch_openocd_returns [symmetric] reap_openocd_returns [symmetric]
  by (auto simp: and_then_returns spawn_returns join_serial_result split: if_splits)

fun runs_program :: "action \<Rightarrow> bool" where
  "runs_program (RunProgram p as) = True" | "runs_program _ = False"

fun spawns_program :: "action \<Rightarrow> bool" where
  "spawns_program (SpawnProgram p as) = True" | "spawns_program _ = False"

definition before_serial :: "action list \<Rightarrow> action list" where
  "before_serial log = takeWhile (\<lambda>a. a \<noteq> StartSerial) log"

definition from_serial :: "action list \<Rightarrow> action list" where
  "from_serial log = dropWhile (\<lambda>a. a \<noteq> StartSerial) log"

lemma list_all_and_then:
  "list_all P (fst m) \<Longrightarrow> (\<And>x. list_all P (fst (f x))) \<Longrightarrow> list_all P (fst (and_then m f))"
  by (simp add: fst_and_then split: outcome.split)

lemma fst_require [simp]: "fst (require err r) = []"
  by (cases r) auto

lemma list_all_report: "(\<And>s. P (Print s)) \<Longrightarrow> list_all P (fst (report_exit what status))"
  by (simp add: report_exit_def)

lemma pre_psu_init_log:
  "list_all (\<lambda>a. a \<noteq> StartSerial \<and> \<not> spawns_program a) (fst (pre_psu_init e args))"
  unfolding pre_psu_init_def
  by (cases "pre_xsct args")
    (auto intro!: list_all_and_then list_all_report simp: run_subprocess_def)

lemma openocd_log:
  "list_all (Not \<circ> runs_program) (fst (launch_openocd e args))"
  "list_all (Not \<circ> runs_program) (fst (reap_openocd e))"
  unfolding launch_openocd_def reap_openocd_def
  by (auto intro!: list_all_and_then list_all_report split: option.split)

lemma before_serial_append:
  "list_all (\<lambda>a. a \<noteq> StartSerial) xs \<Longrightarrow> before_serial (xs @ ys) = xs @ before_serial ys"
  "list_all (\<lambda>a. a \<noteq> StartSerial) xs \<Longrightarrow> from_serial (xs @ ys) = from_serial ys"
  by (induction xs) (simp_all add: before_serial_def from_serial_def)

lemma before_serial_start [simp]:
  "before_serial (StartSerial # xs) = []" "from_serial (StartSerial # xs) = StartSerial # xs"
  "before_serial [] = []" "from_serial [] = []"
  "before_serial [Print s] = [Print s]" "from_serial [Print s] = []"
  by (simp_all add: before_serial_def from_serial_def)

lemma zub_ctl_log: "\<exists>tail. fst (zub_ctl e c) = fst (run_cmd e c) @ tail \<and> (tail = [] \<or> (\<exists>s. tail = [Print s]))"
  by (cases "run_cmd e c"; cases "snd (run_cmd e c)") (simp_all add: zub_ctl_def)

lemma a53_log: "fst (run_watch_a53 e args) = [] \<or> (\<exists>rest. fst (run_watch_a53 e args) = StartSerial # rest)"
  by (cases "serial_starts e (a53_serial args)")
    (auto simp: run_watch_a53_def fst_and_then spawn_starts Let_def split: outcome.splits elim: spawn_fails)

lemma r5_log: "\<exists>m. fst (run_watch_r5 e args) = fst (pre_psu_init e args) @ m \<and>
    (m = [] \<or> (\<exists>rest. m = StartSerial # rest \<and> list_all (Not \<circ> runs_program) rest))"
proof (cases "serial_starts e (r5_serial args)")
  case True
  then show ?thesis
    using openocd_log(1) [of e args] openocd_log(2) [of e]
    by (auto simp: run_watch_r5_def fst_and_then spawn_starts split: outcome.split)
next
  case False
  then show ?thesis
    by (rule spawn_fails) (auto simp: run_watch_r5_def fst_and_then split: outcome.split)
qed

text \<open>
  No boot output is lost: the reader of the serial port has been started before xsct
  runs for the A53 and before openocd is spawned for the R5, and the xsct run that sets the pins up
  for the R5 is over by then.
\<close>

theorem serial_before_boot:
  "(case c of
      WatchA53 args \<Rightarrow> list_all (Not \<circ> runs_program) (before_serial (fst (zub_ctl e c)))
    | WatchR5 args \<Rightarrow>
        list_all (Not \<circ> spawns_program) (before_serial (fst (zub_ctl e c))) \<and>
        list_all (Not \<circ> runs_program) (from_serial (fst (zub_ctl e c)))
    | _ \<Rightarrow> True)"
proof (cases c)
  case (WatchA53 args)
  obtain tail where t: "fst (zub_ctl e c) = fst (run_watch_a53 e args) @ tail" "tail = [] \<or> (\<exists>s. tail = [Print s])"
    using zub_ctl_log [of e c] WatchA53 by (auto simp: run_cmd_def)
  have "before_serial (fst (zub_ctl e c)) \<in> {[], tail}"
    using a53_log [of e args] t by auto
  with t(2) WatchA53 show ?thesis by auto
next
  case (WatchR5 args)
  obtain tail where t: "fst (zub_ctl e c) = fst (run_watch_r5 e args) @ tail" "tail = [] \<or> (\<exists>s. tail = [Print s])"
    using zub_ctl_log [of e c] WatchR5 by (auto simp: run_cmd_def)
  obtain m where m: "fst (run_watch_r5 e args) = fst (pre_psu_init e args) @ m"
    "m = [] \<or> (\<exists>rest. m = StartSerial # rest \<and> list_all (Not \<circ> runs_program) rest)"
    using r5_log by blast
  have pre: "list_all (\<lambda>a. a \<noteq> StartSerial) (fst (pre_psu_init e args))"
    "list_all (Not \<circ> spawns_program) (fst (pre_psu_init e args))"
    using pre_psu_init_log [of e args] by (auto simp: list_all_iff)
  show ?thesis
    using WatchR5 t m(2) pre(2)
    by (auto simp: m(1) before_serial_append [OF pre(1)])
qed simp_all

end
