(* ===== verification/DocsTables.thy ===== *)
theory DocsTables
  imports Unicode "HOL-Library.Sublist" "HOL-Library.Multiset"
begin

text \<open>
  The table extraction of \<open>internal/docs_tool/src/lib.rs\<close>: columns, rows, titles, categories and
  the Markdown form of a table. The patterns of the library \<open>regex\<close> other than runs of white
  space, and the case folding of Unicode, are parameters (\<open>text_rules\<close>); a panic is \<open>None\<close>.
\<close>

section \<open>Rows of a page\<close>

type_synonym row = "scalars list"

record text_rules =
  page_number :: "scalars \<Rightarrow> bool"
  heading :: "scalars \<Rightarrow> bool"
  compact_cell :: "scalars \<Rightarrow> bool"
  all_digits :: "scalars \<Rightarrow> bool"
  designator :: "scalars \<Rightarrow> bool"
  lowercase :: "scalars \<Rightarrow> scalars"

record table =
  page :: nat
  title :: scalars
  category :: scalars
  rows :: "row list"

text \<open>\<open>multi_space().split\<close>: the pieces between runs of at least two white space characters.\<close>

function split_runs :: "scalars \<Rightarrow> scalars \<Rightarrow> scalars list" where
  "split_runs piece [] = [piece]"
| "split_runs piece (c # s) =
     (if white_space c \<and> s \<noteq> [] \<and> white_space (hd s) then piece # split_runs [] (dropWhile white_space s)
      else split_runs (piece @ [c]) s)"
  by pat_completeness auto
termination
  by (relation "measure (\<lambda>(piece, s). length s)") (auto simp: length_dropWhile_le less_Suc_eq_le)

definition split_columns :: "scalars \<Rightarrow> row" where
  "split_columns line = map trim (filter (\<lambda>part. trim part \<noteq> []) (split_runs [] (trim line)))"

definition is_table_row :: "text_rules \<Rightarrow> scalars \<Rightarrow> bool" where
  "is_table_row rx line =
     (let cells = split_columns line
      in 2 \<le> length cells \<and> 5 \<le> str_len (trim line) \<and> list_ex (compact_cell rx) cells)"

definition untitled :: scalars where "untitled = ascii ''Untitled table''"

fun first_title :: "text_rules \<Rightarrow> scalars list \<Rightarrow> scalars" where
  "first_title rx [] = untitled"
| "first_title rx (line # lines) =
     (let candidate = trim line in
      if candidate = [] \<or> page_number rx candidate then first_title rx lines
      else if heading rx candidate \<or> str_len candidate < 100 then candidate
      else first_title rx lines)"

definition closest_title :: "text_rules \<Rightarrow> scalars list \<Rightarrow> nat \<Rightarrow> scalars" where
  "closest_title rx lines start = first_title rx (rev (drop (start - 12) (take start lines)))"

fun join :: "scalars \<Rightarrow> scalars list \<Rightarrow> scalars" where
  "join sep [] = []"
| "join sep [x] = x"
| "join sep (x # xs) = x @ sep @ join sep xs"

definition space :: nat where "space = 32"

definition categories :: "(string \<times> string list) list" where
  "categories =
     [(''bill-of-materials'', [''bill of materials'', ''designator'', ''manufacturer'', ''mpn'']),
      (''registers'', [''register'', ''bit field'', ''offset'', ''bit(s)'']),
      (''pinout-and-io'', [''pin'', ''connector'', ''mio'', ''bank'', ''i/o'', ''io standard'']),
      (''memory-map'', [''memory map'', ''address map'', ''base address'', ''address range'']),
      (''electrical-and-timing'',
        [''voltage'', ''current'', ''power'', ''timing'', ''temperature'', ''parameter'']),
      (''configuration'', [''boot'', ''switch'', ''jumper'', ''configuration'', ''mode setting'']),
      (''revision-history'', [''revision'', ''version'', ''document control'', ''change history''])]"

definition classify_table :: "text_rules \<Rightarrow> scalars \<Rightarrow> row list \<Rightarrow> scalars" where
  "classify_table rx name table_rows =
     (let contents = lowercase rx name @
            concat (map (\<lambda>r. space # lowercase rx (join [space] r)) (take 3 table_rows))
      in case List.find (\<lambda>(c, words). list_ex (\<lambda>w. sublist (ascii w) contents) words) categories of
           Some (c, words) \<Rightarrow> ascii c
         | None \<Rightarrow> ascii ''general'')"

section \<open>Rows of one width\<close>

fun bump_count :: "nat \<Rightarrow> (nat \<times> nat) list \<Rightarrow> (nat \<times> nat) list" where
  "bump_count n [] = [(n, 1)]"
| "bump_count n ((m, k) # counts) = (if m = n then (m, k + 1) # counts else (m, k) # bump_count n counts)"

definition row_counts :: "row list \<Rightarrow> (nat \<times> nat) list" where
  "row_counts rs = fold (\<lambda>r counts. if 3 \<le> length r then bump_count (length r) counts else counts) rs []"

definition most_common :: "(nat \<times> nat) list \<Rightarrow> nat" where
  "most_common counts =
     fst (fold (\<lambda>(n, count) (width, highest). if highest < count then (n, count) else (width, highest))
            counts (0, 0))"

definition table_width :: "row list \<Rightarrow> nat" where
  "table_width rs =
     (let width = most_common (row_counts rs)
      in if width = 0 then fold (\<lambda>r w. max w (length r)) rs 0 else width)"

definition fill_missing :: "text_rules \<Rightarrow> nat \<Rightarrow> row \<Rightarrow> row" where
  "fill_missing rx width r =
     (if length r = width - 1 \<and> 2 \<le> length r \<and> all_digits rx (r ! 0) \<and> all_digits rx (r ! 1)
      then take 2 r @ [[]] @ drop 2 r else r)"

text \<open>Adding a row to the rows so far; \<open>None\<close> is an index out of bounds.\<close>

definition add_row :: "text_rules \<Rightarrow> nat \<Rightarrow> row list \<Rightarrow> row \<Rightarrow> row list option" where
  "add_row rx width normalized r0 =
     (let r = fill_missing rx width r0 in
      if length r < width \<and> normalized \<noteq> [] then
        (let target = (if length r = 1 \<and> designator rx (r ! 0) \<and> 3 \<le> width then 2 else width - 1);
             latest = last normalized
         in if target < length latest
            then Some (butlast normalized @ [latest[target := latest ! target @ [space] @ join [space] r]])
            else None)
      else if width < length r then
        (if width = 0 then None
         else Some (normalized @ [take (width - 1) r @ [join [space] (drop (width - 1) r)]]))
      else Some (normalized @ [r @ replicate (width - length r) []]))"

fun add_rows :: "text_rules \<Rightarrow> nat \<Rightarrow> row list \<Rightarrow> row list \<Rightarrow> row list option" where
  "add_rows rx width normalized [] = Some normalized"
| "add_rows rx width normalized (r # rs) =
     (case add_row rx width normalized r of
        None \<Rightarrow> None | Some normalized' \<Rightarrow> add_rows rx width normalized' rs)"

definition normalize_rows :: "text_rules \<Rightarrow> row list \<Rightarrow> row list option" where
  "normalize_rows rx rs = add_rows rx (table_width rs) [] rs"

section \<open>Tables of a page\<close>

text \<open>The inner loop: the rows of the table that starts at a line, and the line behind it.\<close>

function collect_rows :: "text_rules \<Rightarrow> scalars list \<Rightarrow> nat \<Rightarrow> row list \<Rightarrow> row list \<times> nat" where
  "collect_rows rx lines index rs =
     (if index < length lines then
        (if is_table_row rx (lines ! index) then
           collect_rows rx lines (index + 1) (rs @ [split_columns (lines ! index)])
         else if rs \<noteq> [] \<and>
                 list_ex (is_table_row rx) (drop (index + 1) (take (min (index + 5) (length lines)) lines)) then
           collect_rows rx lines (index + 1)
             (if trim (lines ! index) \<noteq> [] then rs @ [split_columns (lines ! index)] else rs)
         else (rs, index))
      else (rs, index))"
  by pat_completeness auto
termination
  by (relation "measure (\<lambda>(rx, lines, index, rs). length lines - index)") auto

declare collect_rows.simps [simp del]

lemma collect_rows_index: "index \<le> snd (collect_rows rx lines index rs)"
proof (induction rx lines index rs rule: collect_rows.induct)
  case (1 rx lines index rs)
  then show ?case
    by (cases "is_table_row rx (lines ! index)") (subst collect_rows.simps, auto dest: Suc_leD)+
qed

function extract_loop :: "text_rules \<Rightarrow> scalars list \<Rightarrow> nat \<Rightarrow> nat \<Rightarrow> table list option" where
  "extract_loop rx lines page_no index =
     (if index < length lines then
        (if \<not> is_table_row rx (lines ! index) then extract_loop rx lines page_no (index + 1)
         else
           (case collect_rows rx lines index [] of
              (rs, next) \<Rightarrow>
                if 2 \<le> length rs then
                  (case normalize_rows rx rs of
                     None \<Rightarrow> None
                   | Some rs' \<Rightarrow>
                       (let name = closest_title rx lines index in
                        map_option (Cons \<lparr>page = page_no, title = name,
                            category = classify_table rx name rs', rows = rs'\<rparr>)
                          (extract_loop rx lines page_no next)))
                else extract_loop rx lines page_no (max next (index + 1))))
      else Some [])"
  by pat_completeness auto
termination
proof (relation "measure (\<lambda>(rx, lines, page_no, index). length lines - index)", simp_all)
  fix rx lines index rs "next"
  assume a: "index < length lines" "is_table_row rx (lines ! index)"
    "(rs, next) = collect_rows rx lines index []"
  have "index + 1 \<le> snd (collect_rows rx lines index [])"
    using a(1,2) collect_rows_index [of "index + 1"] by (subst collect_rows.simps) simp
  with a show "length lines - next < length lines - index" by (metis add.commute diff_less_mono2 less_eq_Suc_le plus_1_eq_Suc snd_conv)
qed

declare extract_loop.simps [simp del]

definition extract_tables :: "text_rules \<Rightarrow> scalars list \<Rightarrow> nat \<Rightarrow> table list option" where
  "extract_tables rx lines page_no = extract_loop rx lines page_no 0"

section \<open>Markdown\<close>

definition pipe :: nat where "pipe = 124"
definition escape :: nat where "escape = 92"
definition line_feed :: nat where "line_feed = 10"

definition markdown_cell :: "scalars \<Rightarrow> scalars" where
  "markdown_cell v =
     trim (map (\<lambda>c. if c = line_feed then space else c)
             (concat (map (\<lambda>c. if c = pipe then [escape, pipe] else [c]) v)))"

definition markdown_line :: "scalars list \<Rightarrow> scalars" where
  "markdown_line cells = [pipe, space] @ join [space, pipe, space] cells @ [space, pipe]"

definition markdown_table :: "row list \<Rightarrow> scalars option" where
  "markdown_table rs =
     (case rs of
        [] \<Rightarrow> None
      | r # rest \<Rightarrow> Some (join [line_feed]
          (markdown_line (map markdown_cell r) # markdown_line (map (\<lambda>_. ascii ''---'') r) #
           map (\<lambda>r. markdown_line (map markdown_cell r)) rest)))"

section \<open>Lemmas on rows\<close>

lemma split_columns_cells: "c \<in> set (split_columns line) \<Longrightarrow> c \<noteq> []"
  by (auto simp: split_columns_def)

text \<open>The text of rows: their characters other than the blanks that joining puts in.\<close>

definition ink :: "row list \<Rightarrow> nat multiset" where
  "ink rs = mset (filter (\<lambda>c. c \<noteq> space) (concat (concat rs)))"

lemma ink_simps [simp]: "ink [] = {#}" "ink (rs @ rs') = ink rs + ink rs'"
  by (simp_all add: ink_def)

lemma ink_single: "ink [r] = mset (filter (\<lambda>c. c \<noteq> space) (concat r))"
  by (simp add: ink_def)

lemma filter_join: "filter (\<lambda>c. c \<noteq> space) (join [space] xs) = filter (\<lambda>c. c \<noteq> space) (concat xs)"
  by (induction "[space]" xs rule: join.induct) simp_all

lemma concat_split: "concat xs @ concat ys = concat (xs @ ys)"
  by simp

lemma ink_update:
  assumes "i < length r"
  shows "ink [r[i := r ! i @ [space] @ x]] = ink [r] + mset (filter (\<lambda>c. c \<noteq> space) x)"
proof -
  have u: "r[i := v] = take i r @ [v] @ drop (Suc i) r" for v
    using assms by (simp add: upd_conv_take_nth_drop)
  have r: "r = take i r @ [r ! i] @ drop (Suc i) r"
    using assms by (simp add: id_take_nth_drop)
  have "ink [r] = ink [take i r @ [r ! i] @ drop (Suc i) r]" using r by simp
  then show ?thesis by (simp add: u ink_single)
qed

lemma ink_fill [simp]: "ink [fill_missing rx width r] = ink [r]"
proof -
  have "concat (take 2 r) @ concat (drop 2 r) = concat r" by (simp add: concat_split del: concat_append)
  then show ?thesis by (simp add: fill_missing_def ink_single)
qed

lemma ink_cut: "ink [take n r @ [join [space] (drop n r)]] = ink [r]"
proof -
  have "filter (\<lambda>c. c \<noteq> space) (concat (take n r)) @ filter (\<lambda>c. c \<noteq> space) (concat (drop n r)) =
      filter (\<lambda>c. c \<noteq> space) (concat r)"
    by (simp flip: filter_append concat_append)
  then show ?thesis by (simp add: ink_single filter_join del: mset_filter)
qed

text \<open>Rows of a width, and how the next row is added to them.\<close>

definition of_width :: "nat \<Rightarrow> row list \<Rightarrow> bool" where
  "of_width width rs \<longleftrightarrow> (\<forall>r \<in> set rs. length r = width)"

lemma of_width_simps [simp]: "of_width width []" "of_width width (rs @ rs') \<longleftrightarrow> of_width width rs \<and> of_width width rs'"
  "of_width width [r] \<longleftrightarrow> length r = width"
  by (auto simp: of_width_def)

lemma last_row: "normalized \<noteq> [] \<Longrightarrow> \<exists>front latest. normalized = front @ [latest]"
  by (metis append_butlast_last_id)

lemma add_row_keeps:
  assumes "of_width width normalized" "width = 0 \<longrightarrow> r = []"
  shows "\<exists>normalized'. add_row rx width normalized r = Some normalized' \<and> normalized' \<noteq> [] \<and>
    of_width width normalized' \<and> ink normalized' = ink normalized + ink [r]"
proof -
  let ?r = "fill_missing rx width r"
  consider (append) "length ?r < width" "normalized \<noteq> []" | (cut) "width < length ?r"
    | (pad) "length ?r \<le> width" "length ?r < width \<longrightarrow> normalized = []" by linarith
  then show ?thesis
  proof cases
    case append
    then obtain front latest where n: "normalized = front @ [latest]" using last_row by blast
    define target where
      "target = (if length ?r = 1 \<and> designator rx (?r ! 0) \<and> 3 \<le> width then 2 else width - 1)"
    have "target < length latest" using append(1) assms(1) n by (auto simp: target_def)
    moreover have "ink [r] = mset (filter (\<lambda>c. c \<noteq> space) (join [space] ?r))"
      by (simp add: filter_join del: ink_fill) (metis ink_fill ink_single mset_filter)
    ultimately show ?thesis
      using append n assms(1)
      by (simp add: add_row_def Let_def target_def [symmetric] ink_update add.assoc del: append_Cons)
  next
    case cut
    have "width \<noteq> 0" using cut assms(2) by (auto simp: fill_missing_def)
    then show ?thesis using cut assms(1) by (simp add: add_row_def Let_def ink_cut)
  next
    case pad
    have "ink [?r @ replicate (width - length ?r) []] = ink [?r]" by (simp add: ink_single)
    moreover have "\<not> (length ?r < width \<and> normalized \<noteq> [])" "\<not> width < length ?r" using pad by auto
    ultimately show ?thesis using pad(1) assms(1) by (simp only: add_row_def Let_def if_False) simp
  qed
qed

lemma add_rows_keeps:
  assumes "of_width width normalized" "\<forall>r \<in> set rs. width = 0 \<longrightarrow> r = []"
  shows "\<exists>out. add_rows rx width normalized rs = Some out \<and> (rs \<noteq> [] \<longrightarrow> out \<noteq> []) \<and>
    of_width width out \<and> ink out = ink normalized + ink rs \<and> (normalized \<noteq> [] \<longrightarrow> out \<noteq> [])"
  using assms
proof (induction rs arbitrary: normalized)
  case (Cons r rs)
  obtain n' where n': "add_row rx width normalized r = Some n'" "n' \<noteq> []" "of_width width n'"
    "ink n' = ink normalized + ink [r]"
    using add_row_keeps [of width normalized r rx] Cons.prems by auto
  have "ink (r # rs) = ink [r] + ink rs" using ink_simps(2) [of "[r]" rs] by simp
  then show ?case using Cons.IH [OF n'(3)] Cons.prems(2) n' by (auto simp: add.assoc)
qed simp

lemma fold_max: "fold (\<lambda>r w. max w (length r)) rs w = max w (fold (\<lambda>r w. max w (length r)) rs 0)"
proof (induction rs arbitrary: w)
  case (Cons r rs)
  show ?case using Cons.IH [of "max w (length r)"] Cons.IH [of "length r"] by simp
qed simp

lemma fold_max_ge: "r \<in> set rs \<Longrightarrow> length r \<le> fold (\<lambda>r w. max w (length r)) rs 0"
proof (induction rs)
  case (Cons r' rs)
  then show ?case by (subst fold_simps, subst fold_max) (auto simp: le_max_iff_disj)
qed simp

lemma table_width_zero: "table_width rs = 0 \<Longrightarrow> r \<in> set rs \<Longrightarrow> r = []"
  using fold_max_ge [of r rs] by (simp add: table_width_def Let_def split: if_splits)

text \<open>The width of a table with a row of two cells.\<close>

lemma row_counts_wide: "\<forall>(n, k) \<in> set (row_counts rs). 3 \<le> n"
proof -
  define wide :: "(nat \<times> nat) list \<Rightarrow> bool" where "wide counts \<longleftrightarrow> (\<forall>nk \<in> set counts. 3 \<le> fst nk)" for counts
  have bump: "wide counts \<Longrightarrow> 3 \<le> m \<Longrightarrow> wide (bump_count m counts)" for m counts
    by (induction m counts rule: bump_count.induct) (simp_all add: wide_def)
  have "wide counts \<Longrightarrow>
      wide (fold (\<lambda>r counts. if 3 \<le> length r then bump_count (length r) counts else counts) rs counts)" for counts
    by (induction rs arbitrary: counts) (simp_all add: bump)
  from this [of "[]"] have "wide (row_counts rs)" by (simp add: wide_def row_counts_def)
  then show ?thesis by (auto simp: wide_def)
qed

lemma most_common_member: "most_common counts \<noteq> 0 \<Longrightarrow> most_common counts \<in> fst ` set counts"
proof -
  have "fst (fold (\<lambda>(n, count) (width, highest). if highest < count then (n, count) else (width, highest))
            counts acc) \<in> insert (fst acc) (fst ` set counts)" for acc
  proof (induction counts arbitrary: acc)
    case (Cons nk counts)
    obtain n k width highest where "nk = (n, k)" "acc = (width, highest)" by fastforce
    then show ?case using Cons.IH [of "(n, k)"] Cons.IH [of "(width, highest)"] by simp blast
  qed simp
  from this [of "(0, 0)"] show "most_common counts \<noteq> 0 \<Longrightarrow> ?thesis" by (simp add: most_common_def)
qed

lemma table_width_two: "r \<in> set rs \<Longrightarrow> 2 \<le> length r \<Longrightarrow> 2 \<le> table_width rs"
proof (cases "most_common (row_counts rs) = 0")
  case False
  then obtain k where "(most_common (row_counts rs), k) \<in> set (row_counts rs)"
    using most_common_member [of "row_counts rs"] by force
  then have "3 \<le> most_common (row_counts rs)" using row_counts_wide [of rs] by fast
  then show ?thesis by (simp add: table_width_def)
next
  case True
  assume "r \<in> set rs" "2 \<le> length r"
  then show ?thesis using True fold_max_ge [of r rs] by (simp add: table_width_def)
qed

lemma normalize_rows_keeps:
  "\<exists>out. normalize_rows rx rs = Some out \<and> (rs \<noteq> [] \<longrightarrow> out \<noteq> []) \<and> of_width (table_width rs) out \<and> ink out = ink rs"
  using add_rows_keeps [of "table_width rs" "[]" rs rx] table_width_zero [of rs]
  by (auto simp: normalize_rows_def)

section \<open>Lemmas on tables\<close>

lemma collect_rows_bound: "index \<le> length lines \<Longrightarrow> snd (collect_rows rx lines index rs) \<le> length lines"
proof (induction rx lines index rs rule: collect_rows.induct)
  case (1 rx lines index rs)
  then show ?case
    by (cases "is_table_row rx (lines ! index)") (subst collect_rows.simps, simp)+
qed

lemma segment_step:
  "index < n \<Longrightarrow> n \<le> length lines \<Longrightarrow> drop index (take n lines) = lines ! index # drop (Suc index) (take n lines)"
  by (metis Cons_nth_drop_Suc length_take min.absorb2 nth_take)

lemma table_row_inked: "is_table_row rx line \<Longrightarrow> trim line \<noteq> []"
  by (auto simp: is_table_row_def Let_def str_len_def utf8_bytes_def)

lemma collect_rows_lines:
  "index \<le> length lines \<Longrightarrow> fst (collect_rows rx lines index rs) =
     rs @ map split_columns (filter (\<lambda>l. trim l \<noteq> []) (drop index (take (snd (collect_rows rx lines index rs)) lines)))"
proof (induction rx lines index rs rule: collect_rows.induct)
  case (1 rx lines index rs)
  let ?line = "lines ! index"
  have step: "?case"
    if c: "collect_rows rx lines index rs = collect_rows rx lines (index + 1) rs'"
      and rs': "rs' = rs @ map split_columns (filter (\<lambda>l. trim l \<noteq> []) [?line])"
      and "index < length lines"
      and IH: "fst (collect_rows rx lines (index + 1) rs') =
        rs' @ map split_columns (filter (\<lambda>l. trim l \<noteq> []) (drop (index + 1) (take (snd (collect_rows rx lines (index + 1) rs')) lines)))"
    for rs'
  proof -
    define n where "n = snd (collect_rows rx lines (index + 1) rs')"
    have "drop index (take n lines) = ?line # drop (Suc index) (take n lines)"
      using that(3) collect_rows_index [of "index + 1" rx lines rs'] collect_rows_bound [of "index + 1" lines rx rs']
      by (intro segment_step) (simp_all add: n_def)
    then show ?thesis
      using IH unfolding c n_def [symmetric] by (simp add: rs')
  qed
  show ?case
  proof (cases "index < length lines")
    case True
    show ?thesis
    proof (cases "is_table_row rx ?line")
      case t: True
      show ?thesis
        by (rule step [OF _ _ True "1.IH"(1)])
          (use True t table_row_inked [OF t] in \<open>simp_all, subst collect_rows.simps, simp\<close>)
    next
      case f: False
      show ?thesis
      proof (cases "rs \<noteq> [] \<and> list_ex (is_table_row rx) (drop (index + 1) (take (min (index + 5) (length lines)) lines))")
        case c: True
        have "collect_rows rx lines index rs = collect_rows rx lines (index + 1)
            (if trim ?line \<noteq> [] then rs @ [split_columns ?line] else rs)"
          using True f c by (subst collect_rows.simps) simp
        then show ?thesis
          by (rule step [OF _ _ True "1.IH"(2)]) (use True f c in simp_all)
      next
        case False
        with True f have "collect_rows rx lines index rs = (rs, index)"
          by (subst collect_rows.simps) auto
        then show ?thesis by simp
      qed
    qed
  next
    case False
    then have "collect_rows rx lines index rs = (rs, index)" by (subst collect_rows.simps) simp
    then show ?thesis by simp
  qed
qed

text \<open>What a table has to do with the page: it stands on the lines from the first to the one before
  the second of a segment.\<close>

definition table_of :: "text_rules \<Rightarrow> scalars list \<Rightarrow> nat \<Rightarrow> table \<Rightarrow> nat \<times> nat \<Rightarrow> bool" where
  "table_of rx lines page_no t seg \<longleftrightarrow>
     fst seg < snd seg \<and> snd seg \<le> length lines \<and> is_table_row rx (lines ! fst seg) \<and>
     page t = page_no \<and> title t = closest_title rx lines (fst seg) \<and>
     category t = classify_table rx (title t) (rows t) \<and>
     rows t \<noteq> [] \<and> (\<exists>width \<ge> 2. of_width width (rows t)) \<and>
     ink (rows t) = ink (map split_columns (drop (fst seg) (take (snd seg) lines)))"

definition apart :: "(nat \<times> nat) list \<Rightarrow> bool" where
  "apart segs \<longleftrightarrow> sorted_wrt (\<lambda>s s'. snd s \<le> fst s') segs"

lemma split_columns_blank: "trim l = [] \<Longrightarrow> split_columns l = []"
proof -
  have "trim [] = []" by (simp add: trim_def trim_start_def trim_end_def)
  then show "trim l = [] \<Longrightarrow> split_columns l = []" by (simp only: split_columns_def split_runs.simps) simp
qed

lemma ink_blank: "ink (map split_columns (filter (\<lambda>l. trim l \<noteq> []) ls)) = ink (map split_columns ls)"
proof (induction ls)
  case (Cons l ls)
  have "ink [split_columns l] = {#}" if "trim l = []"
    using that by (simp add: ink_single split_columns_blank)
  then show ?case
    using Cons ink_simps(2) [of "[split_columns l]" "map split_columns ls"]
      ink_simps(2) [of "[split_columns l]" "map split_columns (filter (\<lambda>l. trim l \<noteq> []) ls)"] by auto
qed simp

text \<open>The rows collected from a table row on, and the table made of them.\<close>

lemma collected_rows:
  assumes "index < length lines" "is_table_row rx (lines ! index)" "collect_rows rx lines index [] = (rs, stop)"
  shows "index < stop" "stop \<le> length lines"
    "rs = map split_columns (filter (\<lambda>l. trim l \<noteq> []) (drop index (take stop lines)))"
proof -
  have "collect_rows rx lines index [] = collect_rows rx lines (index + 1) [split_columns (lines ! index)]"
    using assms(1,2) by (subst collect_rows.simps) simp
  then show "index < stop"
    using collect_rows_index [of "index + 1" rx lines "[split_columns (lines ! index)]"] assms(3)
    by (metis Suc_eq_plus1 Suc_le_eq snd_conv)
  show "stop \<le> length lines"
    using collect_rows_bound [of index lines rx "[]"] assms by simp
  show "rs = map split_columns (filter (\<lambda>l. trim l \<noteq> []) (drop index (take stop lines)))"
    using collect_rows_lines [of index lines rx "[]"] assms by simp
qed

lemma collected_table:
  assumes "index < length lines" "is_table_row rx (lines ! index)" "collect_rows rx lines index [] = (rs, stop)"
  obtains out where "normalize_rows rx rs = Some out"
    "table_of rx lines page_no \<lparr>page = page_no, title = closest_title rx lines index,
       category = classify_table rx (closest_title rx lines index) out, rows = out\<rparr> (index, stop)"
proof -
  note c = collected_rows [OF assms]
  have first: "split_columns (lines ! index) \<in> set rs"
    using c(3) segment_step [OF c(1,2)] table_row_inked [OF assms(2)] by simp
  then obtain out where out: "normalize_rows rx rs = Some out" "out \<noteq> []" "of_width (table_width rs) out"
    "ink out = ink rs"
    using normalize_rows_keeps [of rx rs] by fastforce
  have "2 \<le> table_width rs"
    using assms(2) by (intro table_width_two [OF first]) (simp add: is_table_row_def Let_def)
  with out c assms(2) show thesis
    by (intro that [OF out(1)]) (auto simp: table_of_def ink_blank)
qed

lemma extract_loop_tables:
  "\<exists>ts segs. extract_loop rx lines page_no index = Some ts \<and> list_all2 (table_of rx lines page_no) ts segs \<and>
     apart segs \<and> (\<forall>seg \<in> set segs. index \<le> fst seg)"
proof (induction "length lines - index" arbitrary: index rule: less_induct)
  case less
  consider (over) "length lines \<le> index" | (skip) "index < length lines" "\<not> is_table_row rx (lines ! index)"
    | (row) "index < length lines" "is_table_row rx (lines ! index)" by linarith
  then show ?case
  proof cases
    case over
    then show ?thesis by (subst extract_loop.simps) (simp add: apart_def)
  next
    case skip
    then have "length lines - (index + 1) < length lines - index" by simp
    from less [OF this] obtain ts segs where
      "extract_loop rx lines page_no (index + 1) = Some ts" "list_all2 (table_of rx lines page_no) ts segs"
      "apart segs" "\<forall>seg \<in> set segs. index + 1 \<le> fst seg" by blast
    with skip show ?thesis by (subst extract_loop.simps) (auto intro!: exI [of _ segs])
  next
    case row
    obtain rs stop where c: "collect_rows rx lines index [] = (rs, stop)" by fastforce
    note stop = collected_rows(1) [OF row c]
    have max_stop: "max stop (Suc index) = stop" using stop by simp
    obtain ts segs where rest: "extract_loop rx lines page_no stop = Some ts"
      "list_all2 (table_of rx lines page_no) ts segs" "apart segs" "\<forall>seg \<in> set segs. stop \<le> fst seg"
      using less [of stop] row stop by (auto dest: diff_less_mono2)
    have later: "\<forall>seg \<in> set segs. index \<le> fst seg" using rest(4) stop by auto
    obtain out where out: "normalize_rows rx rs = Some out"
      "table_of rx lines page_no \<lparr>page = page_no, title = closest_title rx lines index,
         category = classify_table rx (closest_title rx lines index) out, rows = out\<rparr> (index, stop)"
      using collected_table [OF row c] by blast
    have apart: "apart ((index, stop) # segs)" using rest(3,4) by (simp add: apart_def)
    show ?thesis
    proof (cases "2 \<le> length rs")
      case True
      then show ?thesis
        using row c out rest(1-3) later apart
        by (subst extract_loop.simps) (auto simp: Let_def intro!: exI [of _ "(index, stop) # segs"])
    next
      case False
      then show ?thesis
        using row c rest(1-3) later
        by (subst extract_loop.simps) (auto simp: max_stop intro!: exI [of _ segs])
    qed
  qed
qed

section \<open>Reading Markdown\<close>

text \<open>A reader of table lines: cells stand between the pipes that no backslash escapes, and the
  blanks around them do not count.\<close>

fun split_cells :: "scalars \<Rightarrow> scalars \<Rightarrow> scalars list" where
  "split_cells cell [] = [cell]"
| "split_cells cell (c # s) =
     (if c = escape \<and> s \<noteq> [] \<and> hd s = pipe then split_cells (cell @ [pipe]) (tl s)
      else if c = pipe then cell # split_cells [] s
      else split_cells (cell @ [c]) s)"

definition read_line :: "scalars \<Rightarrow> scalars list" where
  "read_line line = map trim (butlast (tl (split_cells [] line)))"

fun split_lines :: "scalars \<Rightarrow> scalars \<Rightarrow> scalars list" where
  "split_lines line [] = [line]"
| "split_lines line (c # s) =
     (if c = line_feed then line # split_lines [] s else split_lines (line @ [c]) s)"

definition one_line :: "scalars \<Rightarrow> scalars" where
  "one_line v = trim (map (\<lambda>c. if c = line_feed then space else c) v)"

definition escape_pipes :: "scalars \<Rightarrow> scalars" where
  "escape_pipes v = concat (map (\<lambda>c. if c = pipe then [escape, pipe] else [c]) v)"

lemma markdown_chars [simp]:
  "\<not> white_space pipe" "\<not> white_space escape" "white_space space" "white_space line_feed"
  "pipe \<noteq> escape" "escape \<noteq> pipe" "space \<noteq> pipe" "space \<noteq> escape" "pipe \<noteq> line_feed"
  "escape \<noteq> line_feed" "space \<noteq> line_feed" "line_feed \<noteq> pipe" "line_feed \<noteq> escape" "pipe \<noteq> space"
  "line_feed \<noteq> space" "escape \<noteq> space"
  by (simp_all add: white_space_def pipe_def escape_def space_def line_feed_def)

lemma escape_simps [simp]:
  "escape_pipes [] = []" "escape_pipes (c # v) = (if c = pipe then [escape, pipe] else [c]) @ escape_pipes v"
  "escape_pipes (v @ v') = escape_pipes v @ escape_pipes v'"
  by (simp_all add: escape_pipes_def)

lemma dropWhile_escape: "dropWhile white_space (escape_pipes v) = escape_pipes (dropWhile white_space v)"
  by (induction v) auto

lemma rev_escape: "dropWhile white_space (rev (escape_pipes v)) = rev (escape_pipes (rev (dropWhile white_space (rev v))))"
  by (induction v rule: rev_induct) auto

lemma trim_escape: "trim (escape_pipes v) = escape_pipes (trim v)"
  by (simp add: trim_def trim_start_def trim_end_def dropWhile_escape rev_escape)

lemma line_escape: "map (\<lambda>c. if c = line_feed then space else c) (escape_pipes v) =
    escape_pipes (map (\<lambda>c. if c = line_feed then space else c) v)"
  by (induction v) auto

lemma markdown_cell_one_line: "markdown_cell v = escape_pipes (one_line v)"
  by (simp add: markdown_cell_def escape_pipes_def [symmetric] line_escape trim_escape one_line_def)

text \<open>A cell is read up to the blank behind it.\<close>

lemma split_escaped:
  "split_cells cell (escape_pipes v @ [space, pipe] @ s) = (cell @ v @ [space]) # split_cells [] s"
proof (induction v arbitrary: cell)
  case (Cons c v)
  show ?case
  proof (cases "c = pipe")
    case True
    then show ?thesis using Cons [of "cell @ [pipe]"] by simp
  next
    case False
    have "hd (escape_pipes v @ [space, pipe] @ s) \<noteq> pipe" by (cases v) auto
    then show ?thesis using False Cons [of "cell @ [c]"] by simp
  qed
qed simp

lemma split_row:
  "vs \<noteq> [] \<Longrightarrow> split_cells cell (join [space, pipe, space] (map escape_pipes vs) @ [space, pipe]) =
     (cell @ hd vs @ [space]) # map (\<lambda>v. space # v @ [space]) (tl vs) @ [[]]"
proof (induction vs arbitrary: cell)
  case (Cons v vs)
  show ?case
  proof (cases vs)
    case Nil
    then show ?thesis using split_escaped [of cell v "[]"] by simp
  next
    case (Cons v' vs')
    then show ?thesis
      using split_escaped [of cell v "space # join [space, pipe, space] (map escape_pipes vs) @ [space, pipe]"]
        Cons.IH [of "[space]"] by simp
  qed
qed simp

lemma trim_blanks [simp]: "trim (space # v @ [space]) = trim v" "trim (trim v) = trim v"
proof -
  show "trim (space # v @ [space]) = trim v"
    by (cases "\<forall>c \<in> set v. white_space c")
      (auto simp: trim_def trim_start_def trim_end_def dropWhile_append dest: set_dropWhileD)
  let ?x = "trim_start v"
  have "?x = trim_end ?x @ rev (takeWhile white_space (rev ?x))"
    unfolding trim_end_def by (metis rev_append rev_rev_ident takeWhile_dropWhile_id)
  then have "dropWhile white_space (trim_end ?x) = trim_end ?x"
    by (cases "trim_end ?x") (auto simp: trim_start_def dropWhile_eq_Cons_conv)
  then show "trim (trim v) = trim v"
    by (simp add: trim_def trim_start_def) (simp add: trim_end_def)
qed

lemma read_markdown_line:
  assumes "vs \<noteq> []" "\<forall>v \<in> set vs. trim v = v"
  shows "read_line (markdown_line (map escape_pipes vs)) = vs"
proof -
  have "split_cells [] (markdown_line (map escape_pipes vs)) =
      [] # map (\<lambda>v. space # v @ [space]) vs @ [[]]"
    using split_row [OF assms(1), of "[space]"] assms(1)
    by (cases vs) (simp_all add: markdown_line_def)
  then show ?thesis using assms(2) by (simp add: read_line_def map_idI)
qed

text \<open>The lines of a table hold no line feed.\<close>

lemma split_lines_append:
  "line_feed \<notin> set l \<Longrightarrow> split_lines acc (l @ s) = split_lines (acc @ l) s"
  by (induction l arbitrary: acc) auto

lemma split_lines_join:
  "\<forall>l \<in> set ls. line_feed \<notin> set l \<Longrightarrow> ls \<noteq> [] \<Longrightarrow> split_lines [] (join [line_feed] ls) = ls"
proof (induction "[line_feed]" ls rule: join.induct)
  case (2 x)
  then show ?case using split_lines_append [of x "[]" "[]"] by simp
next
  case (3 x y xs)
  then show ?case by (simp add: split_lines_append)
qed simp

lemma trim_set: "set (trim v) \<subseteq> set v"
  unfolding trim_def trim_start_def trim_end_def
  by (metis (no_types, lifting) set_dropWhileD set_rev subsetI)

lemma one_line_set: "line_feed \<notin> set (one_line v)"
  using trim_set [of "map (\<lambda>c. if c = line_feed then space else c) v"] by (auto simp: one_line_def)

lemma join_set: "set (join sep xs) \<subseteq> set sep \<union> (\<Union>x \<in> set xs. set x)"
  by (induction sep xs rule: join.induct) auto

lemma markdown_line_set:
  assumes "\<forall>v \<in> set vs. line_feed \<notin> set v"
  shows "line_feed \<notin> set (markdown_line (map escape_pipes vs))"
proof -
  have "line_feed \<notin> set (escape_pipes v)" if "line_feed \<notin> set v" for v
    using that by (induction v) auto
  then show ?thesis
    using assms join_set [of "[space, pipe, space]" "map escape_pipes vs"] by (auto simp: markdown_line_def)
qed

lemma dashes: "escape_pipes (ascii ''---'') = ascii ''---''" "trim (ascii ''---'') = ascii ''---''"
  "line_feed \<notin> set (ascii ''---'')"
  by (simp_all add: ascii_def pipe_def line_feed_def trim_def trim_start_def trim_end_def white_space_def)

section \<open>Properties\<close>

text \<open>
  Bringing rows to one width never goes out of bounds, gives rows of one and the same
  number of cells, and keeps every character of the cells but for blanks.
\<close>

theorem normalize_rows_exact:
  "\<exists>out. normalize_rows rx rs = Some out \<and> of_width (table_width rs) out \<and> ink out = ink rs"
  using normalize_rows_keeps by blast


text \<open>
  The Markdown form of a table reads back as the table: a heading row, a row of dashes
  and the other rows, each cell trimmed and with its line feeds turned into blanks; pipes inside
  cells are not taken for borders.
\<close>

theorem markdown_table_roundtrip:
  assumes "\<forall>r \<in> set (r0 # rs). r \<noteq> []"
  shows "map_option (\<lambda>s. map read_line (split_lines [] s)) (markdown_table (r0 # rs)) =
    Some (map one_line r0 # map (\<lambda>_. ascii ''---'') r0 # map (map one_line) rs)"
proof -
  define cells where "cells = map one_line r0 # map (\<lambda>_. ascii ''---'') r0 # map (map one_line) rs"
  have cell: "markdown_line (map markdown_cell r) = markdown_line (map escape_pipes (map one_line r))" for r
    by (simp add: markdown_cell_one_line o_def cong: map_cong)
  have lines: "markdown_table (r0 # rs) = Some (join [line_feed] (map (\<lambda>vs. markdown_line (map escape_pipes vs)) cells))"
    by (simp add: markdown_table_def cells_def cell o_def dashes)
  have "\<forall>vs \<in> set cells. \<forall>v \<in> set vs. line_feed \<notin> set v"
    by (auto simp: cells_def one_line_set dashes)
  moreover have "\<forall>vs \<in> set cells. vs \<noteq> [] \<and> (\<forall>v \<in> set vs. trim v = v)"
    using assms by (auto simp: cells_def one_line_def dashes)
  moreover have "cells \<noteq> []" by (simp add: cells_def)
  ultimately have "map read_line (split_lines [] (join [line_feed] (map (\<lambda>vs. markdown_line (map escape_pipes vs)) cells))) = cells"
    by (subst split_lines_join) (auto simp: markdown_line_set read_markdown_line o_def intro!: map_idI)
  then show ?thesis by (simp add: lines cells_def)
qed

theorem markdown_table_roundtrip_witness:
  "map_option (\<lambda>s. map read_line (split_lines [] s)) (markdown_table [[ascii ''a|b'', []], [ascii '' c'', [10]]]) =
    Some [[ascii ''a|b'', []], [ascii ''---'', ascii ''---''], [ascii ''c'', []]]"
  using markdown_table_roundtrip [of "[ascii ''a|b'', []]" "[[ascii '' c'', [10]]]"]
  by (simp add: ascii_def one_line_def line_feed_def space_def trim_def trim_start_def trim_end_def white_space_def)

end
