(* ===== verification/AsciiJson.thy ===== *)
theory AsciiJson
  imports Unicode Text
begin

text \<open>
  \<open>ensure_ascii_json\<close> of \<open>internal/docs_tool/src/lib.rs\<close>, which makes the manifest
  reproducible, against a reader of JSON strings.
\<close>

definition hex_escape :: "nat \<Rightarrow> scalars" where
  "hex_escape n = ascii [CHR 0x5C, CHR ''u''] @ ascii (fmt_hex 4 n)"

definition ascii_char :: "nat \<Rightarrow> scalars" where
  "ascii_char c =
     (if c \<le> 0x7F then [c]
      else if c \<le> 0xFFFF then hex_escape c
      else hex_escape (0xD800 + (c - 0x10000) div 0x400) @ hex_escape (0xDC00 + (c - 0x10000) mod 0x400))"

definition ensure_ascii_json :: "scalars \<Rightarrow> scalars" where
  "ensure_ascii_json json = concat (map ascii_char json)"

section \<open>Reading the contents of a JSON string\<close>

text \<open>Four hexadecimal digits, and the text behind them.\<close>

definition hex4 :: "scalars \<Rightarrow> (nat \<times> scalars) option" where
  "hex4 s =
     (if 4 \<le> length s \<and> (\<forall>c \<in> set (take 4 s). c < 0x80) then
        map_option (\<lambda>n. (n, drop 4 s)) (parse_digits 16 0xFFFF 0 (map char_of (take 4 s)))
      else None)"

definition simple_escape :: "nat \<Rightarrow> nat option" where
  "simple_escape c =
     map_of [(34, 34), (92, 92), (47, 47), (98, 8), (102, 12), (110, 10), (114, 13), (116, 9)] c"

text \<open>The second half of a surrogate pair; what an escape sequence stands for, where the text is that
  behind the backslash.\<close>

fun read_low :: "nat \<Rightarrow> scalars \<Rightarrow> (nat \<times> scalars) option" where
  "read_low high (b # u # s) =
     (if b = 92 \<and> u = 117 then
        (case hex4 s of
           None \<Rightarrow> None
         | Some (low, t) \<Rightarrow>
             if 0xDC00 \<le> low \<and> low < 0xE000
             then Some (0x10000 + (high - 0xD800) * 0x400 + (low - 0xDC00), t) else None)
      else None)"
| "read_low high s = None"

fun read_escape :: "scalars \<Rightarrow> (nat \<times> scalars) option" where
  "read_escape [] = None"
| "read_escape (c # s) =
     (if c = 117 then
        (case hex4 s of
           None \<Rightarrow> None
         | Some (high, t) \<Rightarrow>
             if high < 0xD800 \<or> 0xE000 \<le> high then Some (high, t)
             else if 0xDC00 \<le> high then None
             else read_low high t)
      else map_option (\<lambda>n. (n, s)) (simple_escape c))"

lemma hex4_length: "hex4 s = Some (n, t) \<Longrightarrow> length t < length s"
  by (auto simp: hex4_def split: if_splits)

lemma read_low_length: "read_low high s = Some (n, t) \<Longrightarrow> length t < length s"
  by (cases "(high, s)" rule: read_low.cases) (auto split: if_splits option.splits dest!: hex4_length)

lemma read_escape_length: "read_escape s = Some (n, t) \<Longrightarrow> length t < length s"
  by (cases s) (auto split: if_splits option.splits dest!: hex4_length read_low_length)

function read_string :: "scalars \<Rightarrow> scalars option" where
  "read_string [] = Some []"
| "read_string (c # s) =
     (if c = 92 then
        (case read_escape s of None \<Rightarrow> None | Some (n, t) \<Rightarrow> map_option (Cons n) (read_string t))
      else if c < 0x20 \<or> c = 34 then None
      else map_option (Cons c) (read_string s))"
  by pat_completeness auto
termination
  by (relation "measure length") (auto dest!: read_escape_length)

section \<open>Lemmas\<close>

lemma ensure_simps [simp]:
  "ensure_ascii_json [] = []" "ensure_ascii_json (c # s) = ascii_char c @ ensure_ascii_json s"
  "ensure_ascii_json (s @ t) = ensure_ascii_json s @ ensure_ascii_json t"
  by (simp_all add: ensure_ascii_json_def)

lemma ensure_ascii: "\<forall>c \<in> set s. c < 0x80 \<Longrightarrow> ensure_ascii_json s = s"
  by (induction s) (auto simp: ascii_char_def)

lemma radix_digits_length: "n < 16 ^ k \<Longrightarrow> 0 < k \<Longrightarrow> length (radix_digits 16 n) \<le> k"
proof (induction k arbitrary: n)
  case (Suc k)
  show ?case
  proof (cases "n < 16")
    case False
    then have "n div 16 < 16 ^ k" "0 < k" using Suc.prems
      by (auto simp: div_less_iff_less_mult mult.commute intro!: gr0I)
    then show ?thesis using Suc.IH [of "n div 16"] False by (subst radix_digits.simps) simp
  qed (simp add: radix_digits.simps)
qed simp

lemma radix_digits_ascii: "c \<in> set (radix_digits 16 n) \<Longrightarrow> of_char c < (0x80 :: nat)"
proof (induction "16 :: nat" n rule: radix_digits.induct)
  case (1 n)
  then show ?case
    by (subst (asm) radix_digits.simps) (auto simp: digit_char_def of_char_of split: if_splits)
qed

lemma fmt_hex_ascii: "c \<in> set (fmt_hex w n) \<Longrightarrow> of_char c < (0x80 :: nat)"
  by (auto simp: fmt_hex_def pad0_def dest: radix_digits_ascii)

lemma hex4_fmt:
  assumes "n < 0x10000"
  shows "hex4 (ascii (fmt_hex 4 n) @ s) = Some (n, s)"
proof -
  have "length (fmt_hex 4 n) = 4"
    using radix_digits_length [of n 4] assms by (simp add: fmt_hex_def length_pad0)
  moreover have "parse_digits 16 0xFFFF 0 (fmt_hex 4 n) = Some n"
    using assms by (simp add: fmt_hex_def pad0_def parse_digits_zeros parse_digits_radix_digits)
  ultimately show ?thesis
    by (simp add: hex4_def ascii_def fmt_hex_ascii o_def)
qed

lemma read_hex_escape:
  assumes "n < 0x10000" "n < 0xD800 \<or> 0xE000 \<le> n"
  shows "read_string (hex_escape n @ s) = map_option (Cons n) (read_string s)"
  using assms by (simp add: hex_escape_def ascii_def [of "[_, _]"] hex4_fmt)

lemma read_pair:
  assumes "0x10000 \<le> c" "c < 0x110000"
  shows "read_string (ascii_char c @ s) = map_option (Cons c) (read_string s)"
proof -
  let ?high = "0xD800 + (c - 0x10000) div 0x400" and ?low = "0xDC00 + (c - 0x10000) mod 0x400"
  have high: "0xD800 \<le> ?high" "?high < 0xDC00" using assms by (simp_all add: div_less_iff_less_mult)
  have low: "0xDC00 \<le> ?low" "?low < 0xE000" by simp_all
  have sum_parts: "0x10000 + (?high - 0xD800) * 0x400 + (?low - 0xDC00) = c"
    using assms(1) div_mult_mod_eq [of "c - 0x10000" "0x400"] by simp
  have "read_escape (117 # ascii (fmt_hex 4 ?high) @ 92 # 117 # ascii (fmt_hex 4 ?low) @ s) = Some (c, s)"
    using high low sum_parts hex4_fmt [of ?high] hex4_fmt [of ?low] by simp
  then show ?thesis
    using assms by (simp add: ascii_char_def hex_escape_def ascii_def [of "[_, _]"])
qed

lemma read_ascii_char:
  "0x80 \<le> c \<Longrightarrow> scalar c \<Longrightarrow> read_string (ascii_char c @ s) = map_option (Cons c) (read_string s)"
  by (cases "c \<le> 0xFFFF") (auto simp: scalar_def read_pair, auto simp: ascii_char_def read_hex_escape)

lemma hex4_ensure: "hex4 s = Some (n, t) \<Longrightarrow> hex4 (ensure_ascii_json s) = Some (n, ensure_ascii_json t)"
proof -
  assume a: "hex4 s = Some (n, t)"
  then have d: "4 \<le> length s" "\<forall>c \<in> set (take 4 s). c < 0x80" "t = drop 4 s"
    by (auto simp: hex4_def split: if_splits)
  have "ensure_ascii_json s = ensure_ascii_json (take 4 s) @ ensure_ascii_json (drop 4 s)"
    by (simp flip: ensure_simps(3))
  then have "ensure_ascii_json s = take 4 s @ ensure_ascii_json t"
    using d(2,3) by (simp only: ensure_ascii)
  then show ?thesis using a d by (auto simp: hex4_def split: if_splits)
qed

lemma simple_escape_ascii: "simple_escape c = Some n \<Longrightarrow> c < 0x80"
  by (auto simp: simple_escape_def split: if_splits)

lemma ensure_ascii_Cons [simp]: "c < 0x80 \<Longrightarrow> ensure_ascii_json (c # s) = c # ensure_ascii_json s"
  by (simp add: ascii_char_def)

lemma hex4_ensure_map:
  "hex4 s \<noteq> None \<Longrightarrow> hex4 (ensure_ascii_json s) = map_option (apsnd ensure_ascii_json) (hex4 s)"
  by (auto simp: hex4_ensure)

lemma read_low_ensure:
  "read_low high s \<noteq> None \<Longrightarrow>
   read_low high (ensure_ascii_json s) = map_option (apsnd ensure_ascii_json) (read_low high s)"
  by (cases "(high, s)" rule: read_low.cases)
    (auto simp: hex4_ensure_map split: if_splits option.splits simp del: ensure_simps(2))

lemma read_escape_ensure:
  "read_escape s \<noteq> None \<Longrightarrow>
   read_escape (ensure_ascii_json s) = map_option (apsnd ensure_ascii_json) (read_escape s)"
  by (cases s) (auto simp: hex4_ensure_map read_low_ensure simple_escape_ascii
      split: if_splits option.splits simp del: ensure_simps(2))

lemma hex4_suffix: "hex4 s = Some (n, t) \<Longrightarrow> set t \<subseteq> set s"
  using set_drop_subset [of 4 s] by (auto simp: hex4_def split: if_splits)

lemma read_low_suffix: "read_low high s = Some (n, t) \<Longrightarrow> set t \<subseteq> set s"
  by (cases "(high, s)" rule: read_low.cases) (auto split: if_splits option.splits dest!: hex4_suffix)

lemma read_escape_suffix: "read_escape s = Some (n, t) \<Longrightarrow> set t \<subseteq> set s"
  by (cases s) (fastforce split: if_splits option.splits dest!: hex4_suffix read_low_suffix)+

section \<open>Property\<close>

text \<open>
  The escaped text is ASCII, and reads as the same JSON string: what a reader of the
  string makes of the original, escapes and surrogate pairs included, it makes of the escaped text.
\<close>

theorem ensure_ascii_json_exact:
  assumes "\<forall>c \<in> set s. scalar c" and "read_string s = Some v"
  shows "list_all (\<lambda>c. c < 0x80) (ensure_ascii_json s) \<and> read_string (ensure_ascii_json s) = Some v"
proof
  have "c < 0x80" if "c \<in> set (ascii_char d)" for c d
    using that by (auto simp: ascii_char_def hex_escape_def ascii_def fmt_hex_ascii split: if_splits)
  then show "list_all (\<lambda>c. c < 0x80) (ensure_ascii_json s)"
    by (auto simp: list_all_iff ensure_ascii_json_def)
  show "read_string (ensure_ascii_json s) = Some v"
    using assms
  proof (induction s arbitrary: v rule: read_string.induct)
    case (2 c s)
    show ?case
    proof (cases "c = 92")
      case True
      then obtain n t w where e: "read_escape s = Some (n, t)" "read_string t = Some w" "v = n # w"
        using "2.prems" by (auto split: option.splits)
      moreover have "\<forall>d \<in> set t. scalar d" using read_escape_suffix [OF e(1)] "2.prems" by auto
      ultimately show ?thesis
        using "2.IH"(1) [OF True e(1) refl] True read_escape_ensure [of s] e(1) by (simp add: ascii_char_def)
    next
      case False
      then obtain w where w: "\<not> (c < 0x20 \<or> c = 34)" "read_string s = Some w" "v = c # w"
        using "2.prems" by (auto split: if_splits)
      have "read_string (ensure_ascii_json s) = Some w"
        using "2.IH"(2) [OF False w(1) _ w(2)] "2.prems"(1) by simp
      then show ?thesis
        using False w(1,3) "2.prems"(1) read_ascii_char [of c]
        by (cases "c < 0x80") (simp_all add: ascii_char_def)
    qed
  qed simp
qed

theorem ensure_ascii_json_exact_witness:
  "list_all (\<lambda>c. c < 0x80) (ensure_ascii_json [0xB5, 92, 110, 0x1F600]) \<and>
   read_string (ensure_ascii_json [0xB5, 92, 110, 0x1F600]) = Some [0xB5, 10, 0x1F600]"
  by (rule ensure_ascii_json_exact) (simp_all add: scalar_def simple_escape_def)

end
