(* ===== verification/DocsConvert.thy ===== *)
theory DocsConvert
  imports DocsTables AsciiJson "HOL-Library.List_Lexorder"
begin

text \<open>
  The rest of \<open>internal/docs_tool\<close>: documents as Markdown, the manifest, the incremental
  conversion of a directory of PDFs (\<open>src/lib.rs\<close>), and the command line (\<open>src/main.rs\<close>).
  Paths are lists of components; the files written so far and the messages are the state. The
  program pdftotext, the digest, serde and the errors of the file system are parameters
  (\<open>docs_env\<close>).
\<close>

section \<open>Paths\<close>

type_synonym path = "scalars list"

definition dot :: nat where "dot = 46"
definition slash :: nat where "slash = 47"

definition path_text :: "path \<Rightarrow> scalars" where
  "path_text p =
     (case p of
        c # rest \<Rightarrow> if c = [slash] then slash # join [slash] rest else join [slash] p
      | [] \<Rightarrow> [])"

text \<open>\<open>to_string_lossy().replace('\', "/")\<close>.\<close>

definition slash_text :: "path \<Rightarrow> scalars" where
  "slash_text p = map (\<lambda>c. if c = escape then slash else c) (path_text p)"

text \<open>The extension of a file name: what stands behind its last dot, unless that is its first
  character; and the name without it.\<close>

definition has_extension :: "scalars \<Rightarrow> bool" where
  "has_extension n \<longleftrightarrow> dot \<in> set (tl n) \<and> n \<noteq> [dot, dot]"

definition name_extension :: "scalars \<Rightarrow> scalars option" where
  "name_extension n = (if has_extension n then Some (rev (takeWhile (\<lambda>c. c \<noteq> dot) (rev n))) else None)"

definition name_stem :: "scalars \<Rightarrow> scalars" where
  "name_stem n = (if has_extension n then rev (tl (dropWhile (\<lambda>c. c \<noteq> dot) (rev n))) else n)"

definition without_extension :: "path \<Rightarrow> path" where
  "without_extension p = (if p = [] then [] else butlast p @ [name_stem (last p)])"

definition strip_prefix :: "path \<Rightarrow> path \<Rightarrow> path option" where
  "strip_prefix root p = (if take (length root) p = root then Some (drop (length root) p) else None)"

definition relative_path :: "path \<Rightarrow> path \<Rightarrow> scalars + path" where
  "relative_path p root =
     (case strip_prefix root p of
        Some r \<Rightarrow> Inr r
      | None \<Rightarrow> Inl (path_text p @ ascii '' is outside '' @ path_text root))"

section \<open>Texts\<close>

text \<open>\<open>str::lines\<close>: the parts that line feeds end, without a carriage return in front of one.\<close>

definition strip_return :: "scalars \<Rightarrow> scalars" where
  "strip_return l = (if l \<noteq> [] \<and> last l = 13 then butlast l else l)"

definition str_lines :: "scalars \<Rightarrow> scalars list" where
  "str_lines s =
     (let parts = split_lines [] s
      in map strip_return (butlast parts) @ (if last parts = [] then [] else [last parts]))"

fun split_on :: "nat \<Rightarrow> scalars \<Rightarrow> scalars \<Rightarrow> scalars list" where
  "split_on sep piece [] = [piece]"
| "split_on sep piece (c # s) =
     (if c = sep then piece # split_on sep [] s else split_on sep (piece @ [c]) s)"

definition form_feed :: nat where "form_feed = 12"

text \<open>The pages of a text: a last page of blank lines is dropped.\<close>

definition text_pages :: "scalars \<Rightarrow> scalars list list" where
  "text_pages s =
     (let pages = map str_lines (split_on form_feed [] s)
      in if list_all (\<lambda>line. trim line = []) (last pages) then butlast pages else pages)"

definition number_text :: "nat \<Rightarrow> scalars" where
  "number_text n = ascii (fmt_dec n)"

definition page_markdown :: "text_rules \<Rightarrow> table list \<Rightarrow> nat \<Rightarrow> scalars list \<Rightarrow> scalars list" where
  "page_markdown rx tables number lines =
     (let content = filter (\<lambda>line. trim line \<noteq> [] \<and> \<not> page_number rx line) lines;
          on_page = length (filter (\<lambda>t. page t = number + 1) tables)
      in if content = [] then []
         else [[], ascii ''## Source page '' @ number_text (number + 1), [],
               join [line_feed] (map trim_end content)] @
              (if on_page = 0 then []
               else [[], ascii ''_Structured tables extracted from this page: '' @ number_text on_page @
                         ascii ''. See `tables/index.md`._'']))"

definition document_markdown :: "text_rules \<Rightarrow> path \<Rightarrow> scalars list list \<Rightarrow> table list \<Rightarrow> scalars" where
  "document_markdown rx source pages tables =
     trim_end (join [line_feed]
       ([ascii ''---'', ascii ''source_pdf: '' @ path_text source, ascii ''conversion: pdftotext -layout'',
         ascii ''table_index: tables/index.md'', ascii ''---'', [], ascii ''# '' @ name_stem (last source), [],
         ascii ''This is extracted text. Use the table index for structured table data; page numbers refer to the source PDF.''] @
        concat (map (\<lambda>(number, lines). page_markdown rx tables number lines) (enumerate 0 pages)))) @
     [line_feed]"

section \<open>The manifest\<close>

record manifest_table =
  mt_category :: scalars
  mt_page :: nat
  mt_context :: scalars
  mt_file :: scalars
  mt_ordinal :: nat

record document_manifest =
  source_pdf :: scalars
  out_dir :: scalars
  sha256 :: scalars
  page_count :: nat
  text_characters :: nat
  doc_tables :: "manifest_table list"
  warning :: "scalars option"

record manifest =
  format :: nat
  source_dir :: scalars
  documents :: "document_manifest list"

text \<open>What serde reads of a JSON text for \<open>parse_manifest_hashes\<close>.\<close>

datatype value_json = VString scalars | VArray "value_json list" | VObject "(scalars \<times> value_json) list" | VOther

definition value_get :: "value_json \<Rightarrow> string \<Rightarrow> value_json option" where
  "value_get v key = (case v of VObject fs \<Rightarrow> map_of (rev fs) (ascii key) | _ \<Rightarrow> None)"

definition value_str :: "value_json option \<Rightarrow> scalars option" where
  "value_str v = (case v of Some (VString s) \<Rightarrow> Some s | _ \<Rightarrow> None)"

definition parse_manifest_hashes ::
  "(scalars \<Rightarrow> value_json option) \<Rightarrow> scalars \<Rightarrow> scalars \<Rightarrow> scalars option" where
  "parse_manifest_hashes from_str json =
     (let docs = (case Option.bind (from_str json) (\<lambda>v. value_get v ''documents'') of
                    Some (VArray vs) \<Rightarrow> vs | _ \<Rightarrow> [])
      in map_of (rev (List.map_filter
           (\<lambda>doc. case (value_str (value_get doc ''source_pdf''), value_str (value_get doc ''sha256'')) of
              (Some pdf, Some sha) \<Rightarrow> Some (pdf, sha) | _ \<Rightarrow> None) docs)))"

section \<open>The environment and the state\<close>

text \<open>The source directory: files with what reading them gives, and directories, in the order in
  which they are listed.\<close>

datatype entry = FileEntry scalars "scalars + 8 word list" | DirEntry scalars "entry list"

record pdf_output =
  exit_ok :: bool
  out_bytes :: "8 word list"
  err_bytes :: "8 word list"

record docs_env =
  rules :: text_rules
  uppercase :: "nat \<Rightarrow> scalars"
  source_entries :: "entry list option"
  pdftotext :: "path \<Rightarrow> scalars + pdf_output"
  utf8_error :: "8 word list \<Rightarrow> scalars"
  digest :: "8 word list \<Rightarrow> 8 word list"
  to_string_pretty :: "manifest \<Rightarrow> scalars + scalars"
  from_str :: "scalars \<Rightarrow> manifest option"
  dir_error :: "path \<Rightarrow> scalars option"
  write_error :: "path \<Rightarrow> scalars option"
  remove_error :: "path \<Rightarrow> scalars option"

record docs_state =
  files :: "path \<rightharpoonup> scalars"
  directories :: "path \<Rightarrow> bool"
  messages :: "scalars list"

datatype 'a result = Ok 'a | Err scalars | Panic

type_synonym 'a step = "docs_state \<Rightarrow> 'a result \<times> docs_state"

definition done_with :: "'a \<Rightarrow> 'a step" where
  "done_with x s = (Ok x, s)"

definition fail_with :: "scalars \<Rightarrow> 'a step" where
  "fail_with e s = (Err e, s)"

definition bind_step :: "'a step \<Rightarrow> ('a \<Rightarrow> 'b step) \<Rightarrow> 'b step" where
  "bind_step m f s =
     (case m s of (Ok x, s') \<Rightarrow> f x s' | (Err e, s') \<Rightarrow> (Err e, s') | (Panic, s') \<Rightarrow> (Panic, s'))"

definition of_sum :: "scalars + 'a \<Rightarrow> 'a step" where
  "of_sum r = (case r of Inl e \<Rightarrow> fail_with e | Inr x \<Rightarrow> done_with x)"

definition say :: "scalars \<Rightarrow> unit step" where
  "say m s = (Ok (), s\<lparr>messages := messages s @ [m]\<rparr>)"

text \<open>\<open>create_dir_all\<close> and \<open>write\<close>; the parameters say where they fail.\<close>

definition create_dir :: "docs_env \<Rightarrow> path \<Rightarrow> unit step" where
  "create_dir e p s =
     (case dir_error e p of
        Some err \<Rightarrow> (Err err, s)
      | None \<Rightarrow> (Ok (), s\<lparr>directories := (\<lambda>d. directories s d \<or> take (length d) p = d)\<rparr>))"

definition write_file :: "docs_env \<Rightarrow> path \<Rightarrow> scalars \<Rightarrow> unit step" where
  "write_file e p contents =
     bind_step (create_dir e (butlast p)) (\<lambda>_ s.
       if files s p = Some contents then (Ok (), s)
       else case write_error e p of
              Some err \<Rightarrow> (Err err, s)
            | None \<Rightarrow> (Ok (), s\<lparr>files := (files s)(p \<mapsto> contents)\<rparr>))"

section \<open>Converting a document\<close>

definition run_pdftotext :: "docs_env \<Rightarrow> path \<Rightarrow> scalars + scalars" where
  "run_pdftotext e pdf =
     (case pdftotext e pdf of
        Inl err \<Rightarrow> Inl (ascii ''pdftotext is required: '' @ err)
      | Inr out \<Rightarrow>
          if \<not> exit_ok out then Inl (ascii ''pdftotext failed: '' @ trim (from_utf8_lossy (err_bytes out)))
          else case from_utf8 (out_bytes out) of
                 Some s \<Rightarrow> Inr s | None \<Rightarrow> Inl (utf8_error e (out_bytes out)))"

text \<open>The tables of all pages; \<open>None\<close> is a panic.\<close>

fun page_tables :: "text_rules \<Rightarrow> nat \<Rightarrow> scalars list list \<Rightarrow> table list option" where
  "page_tables rx number [] = Some []"
| "page_tables rx number (lines # pages) =
     (case (extract_tables rx lines (number + 1), page_tables rx (number + 1) pages) of
        (Some ts, Some ts') \<Rightarrow> Some (ts @ ts') | _ \<Rightarrow> None)"

fun words_of :: "scalars \<Rightarrow> scalars \<Rightarrow> scalars list" where
  "words_of word [] = (if word = [] then [] else [word])"
| "words_of word (c # s) =
     (if white_space c then (if word = [] then words_of [] s else word # words_of [] s)
      else words_of (word @ [c]) s)"

definition dashes_to_spaces :: "scalars \<Rightarrow> scalars" where
  "dashes_to_spaces = map (\<lambda>c. if c = 45 then space else c)"

definition category_title :: "docs_env \<Rightarrow> scalars \<Rightarrow> scalars" where
  "category_title e c =
     join [space] (map (\<lambda>w. case w of [] \<Rightarrow> [] | f # rest \<Rightarrow> uppercase e f @ rest)
                     (words_of [] (dashes_to_spaces c)))"

text \<open>The lines of a category, and the entries of the manifest.\<close>

fun category_lines :: "nat \<Rightarrow> table list \<Rightarrow> scalars list option" where
  "category_lines ordinal [] = Some []"
| "category_lines ordinal (t # ts) =
     (case (markdown_table (rows t), category_lines (ordinal + 1) ts) of
        (Some md, Some ls) \<Rightarrow>
          Some ([ascii ''## Table '' @ number_text (ordinal + 1) @ [space, 0x2014, space] @
                 ascii ''source page '' @ number_text (page t), [],
                 ascii ''Context: '' @ title t, [], md, []] @ ls)
      | _ \<Rightarrow> None)"

definition manifest_entries :: "path \<Rightarrow> path \<Rightarrow> table list \<Rightarrow> scalars \<Rightarrow> manifest_table list" where
  "manifest_entries output_root target ts c =
     map (\<lambda>(ordinal, t). \<lparr>mt_category = c, mt_page = page t, mt_context = title t,
            mt_file = slash_text (drop (length output_root) target), mt_ordinal = ordinal + 1\<rparr>)
       (enumerate 0 ts)"

fun write_categories ::
  "docs_env \<Rightarrow> path \<Rightarrow> path \<Rightarrow> table list \<Rightarrow> scalars list \<Rightarrow> (scalars list \<times> manifest_table list) step" where
  "write_categories e output_root doc_root tables [] = done_with ([], [])"
| "write_categories e output_root doc_root tables (c # cs) =
     (let ts = filter (\<lambda>t. category t = c) tables;
          target = doc_root @ [ascii ''tables'', c @ ascii ''.md'']
      in case category_lines 0 ts of
           None \<Rightarrow> (\<lambda>s. (Panic, s))
         | Some ls \<Rightarrow>
             bind_step (write_file e target
                 (trim_end (join [line_feed] ([ascii ''# '' @ category_title e c, []] @ ls)) @ [line_feed])) (\<lambda>_.
             bind_step (write_categories e output_root doc_root tables cs) (\<lambda>(index, entries).
               done_with
                 ((ascii ''- ['' @ dashes_to_spaces c @ ascii ''](tables/'' @ c @ ascii ''.md): '' @
                   number_text (length ts) @ ascii '' table(s)'') # index,
                  manifest_entries output_root target ts c @ entries))))"

definition table_categories :: "table list \<Rightarrow> scalars list" where
  "table_categories tables = sort (remdups (map category tables))"

definition write_document ::
  "docs_env \<Rightarrow> path \<Rightarrow> path \<Rightarrow> path \<Rightarrow> scalars \<Rightarrow> document_manifest step" where
  "write_document e pdf source_root output_root sha =
     bind_step (of_sum (relative_path pdf source_root)) (\<lambda>relative.
     let doc_root = output_root @ without_extension relative in
     bind_step (of_sum (run_pdftotext e pdf)) (\<lambda>text_out.
     let pages = text_pages text_out in
     case page_tables (rules e) 0 pages of
       None \<Rightarrow> (\<lambda>s. (Panic, s))
     | Some tables \<Rightarrow>
         if relative = [] then (\<lambda>s. (Panic, s))
         else
           bind_step (write_file e (doc_root @ [ascii ''document.md''])
               (document_markdown (rules e) relative pages tables)) (\<lambda>_.
           bind_step (write_categories e output_root doc_root tables (table_categories tables)) (\<lambda>(index, entries).
           bind_step (write_file e (doc_root @ [ascii ''tables'', ascii ''index.md''])
               (join [line_feed]
                  ([ascii ''# Tables: '' @ last pdf, [],
                    ascii ''Tables are grouped by inferred subject. Confirm critical values against the source PDF.'',
                    []] @ index) @ [line_feed])) (\<lambda>_.
             done_with
               \<lparr>source_pdf = slash_text relative,
                out_dir = slash_text (without_extension relative),
                sha256 = sha, page_count = length pages, text_characters = length (trim text_out),
                doc_tables = entries,
                warning = (if trim text_out = [] then Some (ascii ''No text layer found; OCR the PDF and rerun.'')
                           else None)\<rparr>)))))"

section \<open>Converting a directory\<close>

text \<open>\<open>walk\<close>: the files below a directory with their paths.\<close>

fun walk :: "path \<Rightarrow> entry list \<Rightarrow> (path \<times> (scalars + 8 word list)) list"
  and walk_entry :: "path \<Rightarrow> entry \<Rightarrow> (path \<times> (scalars + 8 word list)) list" where
  "walk root [] = []"
| "walk root (entry # es) = walk_entry root entry @ walk root es"
| "walk_entry root (FileEntry n bytes) = [(root @ [n], bytes)]"
| "walk_entry root (DirEntry n es) = walk (root @ [n]) es"

definition find_pdfs :: "path \<Rightarrow> entry list \<Rightarrow> (path \<times> (scalars + 8 word list)) list" where
  "find_pdfs source es =
     (let found = walk source es;
          with_ext = (\<lambda>ext. sort_key fst (filter (\<lambda>f. name_extension (last (fst f)) = Some (ascii ext)) found))
      in with_ext ''pdf'' @ with_ext ''PDF'')"

definition hex_digest :: "docs_env \<Rightarrow> 8 word list \<Rightarrow> scalars" where
  "hex_digest e bytes = ascii (concat (map (\<lambda>b. fmt_hex 2 (unat b)) (digest e bytes)))"

definition manifest_path :: "path \<Rightarrow> path" where
  "manifest_path output = output @ [ascii ''manifest.json'']"

definition readme_path :: "path \<Rightarrow> path" where
  "readme_path output = output @ [ascii ''README.md'']"

definition cached_documents :: "docs_env \<Rightarrow> path \<Rightarrow> docs_state \<Rightarrow> scalars \<Rightarrow> document_manifest option" where
  "cached_documents e output s =
     (case Option.bind (files s (manifest_path output)) (from_str e) of
        None \<Rightarrow> (\<lambda>_. None)
      | Some m \<Rightarrow> map_of (rev (map (\<lambda>d. (source_pdf d, d)) (documents m))))"

fun convert_pdfs ::
  "docs_env \<Rightarrow> path \<Rightarrow> path \<Rightarrow> (scalars \<Rightarrow> document_manifest option) \<Rightarrow>
   (path \<times> (scalars + 8 word list)) list \<Rightarrow> document_manifest list step" where
  "convert_pdfs e source output cached [] = done_with []"
| "convert_pdfs e source output cached ((pdf, contents) # pdfs) =
     bind_step (of_sum contents) (\<lambda>bytes.
     let sha = hex_digest e bytes in
     bind_step (of_sum (relative_path pdf source)) (\<lambda>relative.
     bind_step
       (case cached (slash_text relative) of
          Some entry \<Rightarrow>
            if sha256 entry = sha then
              bind_step (say (ascii ''Skipping '' @ path_text pdf @ ascii '' (unchanged)'')) (\<lambda>_. done_with entry)
            else bind_step (say (ascii ''Converting '' @ path_text pdf)) (\<lambda>_.
                   write_document e pdf source output sha)
        | None \<Rightarrow> bind_step (say (ascii ''Converting '' @ path_text pdf)) (\<lambda>_.
                   write_document e pdf source output sha)) (\<lambda>d.
     bind_step (convert_pdfs e source output cached pdfs) (\<lambda>ds. done_with (d # ds)))))"

definition readme_text :: scalars where
  "readme_text =
     ascii (''# Generated PDF documentation'' @ [CHR 0x0A, CHR 0x0A] @
       ''Each directory contains extracted source text (`document.md`) and categorized structured tables (`tables/`). '' @
       ''`manifest.json` lets agents locate a table by source document, page, category, and table file. '' @
       ''Rebuild with `bazel run //internal/docs_tool:pdf_to_markdown -- --clean`.'' @ [CHR 0x0A])"

definition below :: "path \<Rightarrow> path \<Rightarrow> bool" where
  "below root p \<longleftrightarrow> take (length root) p = root"

definition remove_dir :: "docs_env \<Rightarrow> path \<Rightarrow> unit step" where
  "remove_dir e p s =
     (case remove_error e p of
        Some err \<Rightarrow> (Err err, s)
      | None \<Rightarrow>
          (Ok (), s\<lparr>files := (\<lambda>f. if below p f then None else files s f),
                    directories := (\<lambda>d. directories s d \<and> \<not> below p d)\<rparr>))"

definition finish :: "docs_env \<Rightarrow> path \<Rightarrow> path \<Rightarrow> document_manifest list \<Rightarrow> unit step" where
  "finish e source output docs =
     bind_step (create_dir e output) (\<lambda>_.
     bind_step (of_sum (to_string_pretty e \<lparr>format = 1, source_dir = slash_text source, documents = docs\<rparr>)) (\<lambda>json.
     bind_step (write_file e (manifest_path output) (ensure_ascii_json json @ [line_feed])) (\<lambda>_.
     write_file e (readme_path output) readme_text)))"

definition convert :: "docs_env \<Rightarrow> path \<Rightarrow> path \<Rightarrow> bool \<Rightarrow> nat step" where
  "convert e source output clean =
     (case source_entries e of
        None \<Rightarrow> fail_with (ascii ''source directory does not exist: '' @ path_text source)
      | Some es \<Rightarrow>
          bind_step (\<lambda>s. if clean \<and> directories s output then remove_dir e output s else (Ok (), s)) (\<lambda>_ s.
            let cached = (if clean then (\<lambda>_. None) else cached_documents e output s);
                pdfs = find_pdfs source es
            in if pdfs = [] then (Err (ascii ''no PDFs found under '' @ path_text source), s)
               else bind_step (convert_pdfs e source output cached pdfs) (\<lambda>docs.
                    bind_step (finish e source output docs) (\<lambda>_. done_with (length pdfs))) s))"

section \<open>The command line\<close>

definition path_of :: "string \<Rightarrow> path" where
  "path_of arg =
     (let s = ascii arg
      in (if s \<noteq> [] \<and> hd s = slash then [[slash]] else []) @ filter (\<lambda>c. c \<noteq> []) (split_on slash [] s))"

definition usage :: string where
  "usage = ''Usage: pdf_to_markdown [--source DIR] [--output DIR] [--clean]''"

text \<open>The left side of the result is an exit code and its message.\<close>

fun docs_args :: "path \<Rightarrow> path \<Rightarrow> bool \<Rightarrow> string list \<Rightarrow> nat \<times> string + path \<times> path \<times> bool" where
  "docs_args source output clean [] = Inr (source, output, clean)"
| "docs_args source output clean (arg # args) =
     (if arg = ''--source'' then
        (case args of
           [] \<Rightarrow> Inl (2, ''--source requires a directory'' @ [CHR 0x0A] @ usage)
         | dir # rest \<Rightarrow> docs_args (path_of dir) output clean rest)
      else if arg = ''--output'' then
        (case args of
           [] \<Rightarrow> Inl (2, ''--output requires a directory'' @ [CHR 0x0A] @ usage)
         | dir # rest \<Rightarrow> docs_args source (path_of dir) clean rest)
      else if arg = ''--clean'' then docs_args source output True args
      else if arg = ''-h'' \<or> arg = ''--help'' then Inl (0, usage)
      else Inl (2, ''unknown option: '' @ arg @ [CHR 0x0A] @ usage))"

definition docs_main :: "docs_env \<Rightarrow> string list \<Rightarrow> docs_state \<Rightarrow> nat \<times> docs_state" where
  "docs_main e args s =
     (case docs_args (path_of ''docs'') (path_of ''documentation/pdf'') False args of
        Inl (code, message) \<Rightarrow> (code, snd (say (ascii message) s))
      | Inr (source, output, clean) \<Rightarrow>
          (case convert e source output clean s of
             (Ok n, s') \<Rightarrow>
               (0, snd (say (ascii ''Converted '' @ number_text n @ ascii '' PDF(s) into '' @ path_text output) s'))
           | (Err err, s') \<Rightarrow> (1, snd (say (ascii ''pdf_to_markdown: '' @ err) s'))
           | (Panic, s') \<Rightarrow> (101, s')))"

section \<open>Lemmas\<close>

lemma bind_step_Ok [simp]:
  "bind_step m f s = (Ok y, s') \<longleftrightarrow> (\<exists>x s1. m s = (Ok x, s1) \<and> f x s1 = (Ok y, s'))"
  by (auto simp: bind_step_def split: prod.splits result.splits)

lemma step_simps [simp]:
  "done_with x s = (Ok x, s)" "fail_with err s = (Err err, s)"
  "of_sum (Inr x) = done_with x" "of_sum (Inl err) = fail_with err"
  "of_sum r s = (Ok x, s') \<longleftrightarrow> r = Inr x \<and> s' = s"
  by (auto simp: of_sum_def done_with_def fail_with_def split: sum.split)

lemma bind_step_run: "m s = (Ok x, s1) \<Longrightarrow> bind_step m f s = f x s1"
  by (simp add: bind_step_def)

text \<open>Every listed document belongs to its PDF.\<close>

definition describes_pdf :: "docs_env \<Rightarrow> path \<Rightarrow> path \<times> (scalars + 8 word list) \<Rightarrow> document_manifest \<Rightarrow> bool" where
  "describes_pdf e source f d \<longleftrightarrow>
     (\<exists>bytes relative. snd f = Inr bytes \<and> relative_path (fst f) source = Inr relative \<and>
        source_pdf d = slash_text relative \<and> sha256 d = hex_digest e bytes)"

lemma write_document_describes:
  "write_document e pdf source output sha s = (Ok d, s') \<Longrightarrow>
     \<exists>relative. relative_path pdf source = Inr relative \<and> source_pdf d = slash_text relative \<and> sha256 d = sha"
  by (auto simp: write_document_def Let_def split: option.splits if_splits)

lemma convert_pdfs_describes:
  assumes "convert_pdfs e source output cached pdfs s = (Ok docs, s')"
    and "\<And>k d. cached k = Some d \<Longrightarrow> source_pdf d = k"
  shows "list_all2 (describes_pdf e source) pdfs docs"
  using assms(1)
proof (induction pdfs arbitrary: s docs)
  case (Cons f pdfs)
  obtain pdf contents where f: "f = (pdf, contents)" by fastforce
  from Cons.prems show ?case
    using Cons.IH assms(2)
    by (auto simp: f describes_pdf_def Let_def split: option.splits if_splits
        dest!: write_document_describes)
qed simp

lemma convert_pdfs_cached:
  assumes "list_all2 (describes_pdf e source) pdfs docs"
    and "\<And>f d. (f, d) \<in> set (zip pdfs docs) \<Longrightarrow> cached (source_pdf d) = Some d"
  shows "convert_pdfs e source output cached pdfs s =
    (Ok docs, s\<lparr>messages := messages s @
       map (\<lambda>f. ascii ''Skipping '' @ path_text (fst f) @ ascii '' (unchanged)'') pdfs\<rparr>)"
  using assms
proof (induction pdfs docs arbitrary: s rule: list_all2_induct)
  case (Cons f pdfs d docs)
  obtain pdf contents where f: "f = (pdf, contents)" by fastforce
  obtain bytes relative where d: "contents = Inr bytes" "relative_path pdf source = Inr relative"
    "source_pdf d = slash_text relative" "sha256 d = hex_digest e bytes"
    using Cons.hyps(1) by (auto simp: f describes_pdf_def)
  have "cached (slash_text relative) = Some d" using Cons.prems [of f d] d(3) by simp
  moreover have "cached (source_pdf d') = Some d'" if "(f', d') \<in> set (zip pdfs docs)" for f' d'
    using Cons.prems [of f' d'] that by simp
  note IH = Cons.IH [OF this]
  ultimately show ?case by (simp add: f d bind_step_def say_def done_with_def IH Let_def)
qed simp

lemma paths_apart [simp]: "manifest_path output \<noteq> readme_path output" "readme_path output \<noteq> manifest_path output"
  "butlast (manifest_path output) = output" "butlast (readme_path output) = output"
  by (simp_all add: manifest_path_def readme_path_def ascii_def)

definition manifest_of :: "path \<Rightarrow> document_manifest list \<Rightarrow> manifest" where
  "manifest_of source docs = \<lparr>format = 1, source_dir = slash_text source, documents = docs\<rparr>"

text \<open>The state behind a successful run: manifest and readme are in place, and so are the directories.\<close>

definition published :: "docs_env \<Rightarrow> path \<Rightarrow> path \<Rightarrow> document_manifest list \<Rightarrow> docs_state \<Rightarrow> bool" where
  "published e source output docs s \<longleftrightarrow>
     dir_error e output = None \<and> (\<forall>d. take (length d) output = d \<longrightarrow> directories s d) \<and>
     (\<exists>json. to_string_pretty e (manifest_of source docs) = Inr json \<and>
        files s (manifest_path output) = Some (ensure_ascii_json json @ [line_feed])) \<and>
     files s (readme_path output) = Some readme_text"

lemma create_dir_Ok: "create_dir e p s = (Ok x, s') \<longleftrightarrow>
    dir_error e p = None \<and> s' = s\<lparr>directories := (\<lambda>d. directories s d \<or> take (length d) p = d)\<rparr>"
  by (auto simp: create_dir_def split: option.splits)

lemma write_file_Ok: "write_file e p contents s = (Ok x, s') \<Longrightarrow>
    dir_error e (butlast p) = None \<and> files s' = (files s)(p \<mapsto> contents) \<and>
    directories s' = (\<lambda>d. directories s d \<or> take (length d) (butlast p) = d)"
  by (auto simp: write_file_def create_dir_Ok fun_upd_idem split: if_splits option.splits)

lemma finish_published: "finish e source output docs s = (Ok x, s') \<Longrightarrow> published e source output docs s'"
  by (auto simp: finish_def published_def manifest_of_def create_dir_Ok dest!: write_file_Ok)

lemma create_dir_again:
  "dir_error e p = None \<Longrightarrow> \<forall>d. take (length d) p = d \<longrightarrow> directories s d \<Longrightarrow> create_dir e p s = (Ok (), s)"
proof -
  assume a: "dir_error e p = None" "\<forall>d. take (length d) p = d \<longrightarrow> directories s d"
  have "(\<lambda>d. directories s d \<or> take (length d) p = d) = directories s" using a(2) by auto
  with a(1) show ?thesis by (simp add: create_dir_def)
qed

lemma write_file_again:
  "files s p = Some contents \<Longrightarrow> dir_error e (butlast p) = None \<Longrightarrow>
   \<forall>d. take (length d) (butlast p) = d \<longrightarrow> directories s d \<Longrightarrow> write_file e p contents s = (Ok (), s)"
  by (simp add: write_file_def bind_step_run [OF create_dir_again])

lemma finish_again:
  "published e source output docs s \<Longrightarrow> finish e source output docs s = (Ok (), s)"
  by (auto simp: published_def finish_def manifest_of_def bind_step_run create_dir_again write_file_again)

lemma source_pdfs:
  "list_all2 (describes_pdf e source) pdfs docs \<Longrightarrow>
   map source_pdf docs = map (\<lambda>f. slash_text (drop (length source) (fst f))) pdfs"
  by (induction rule: list_all2_induct)
    (auto simp: describes_pdf_def relative_path_def strip_prefix_def split: option.splits if_splits)

lemma cached_source_pdf: "cached_documents e output s k = Some d \<Longrightarrow> source_pdf d = k"
  by (auto simp: cached_documents_def split: option.splits dest!: map_of_SomeD)

lemma cached_published:
  assumes "published e source output docs s" "distinct (map source_pdf docs)" "d \<in> set docs"
    and "\<And>json. to_string_pretty e (manifest_of source docs) = Inr json \<Longrightarrow>
      from_str e (ensure_ascii_json json @ [line_feed]) = Some (manifest_of source docs)"
  shows "cached_documents e output s (source_pdf d) = Some d"
proof -
  have "distinct (map fst (rev (map (\<lambda>d. (source_pdf d, d)) docs)))"
    using assms(2) by (simp add: rev_map [symmetric] o_def)
  then have "map_of (rev (map (\<lambda>d. (source_pdf d, d)) docs)) (source_pdf d) = Some d"
    using assms(3) by (intro map_of_is_SomeI) auto
  then show ?thesis
    using assms(1,4) by (auto simp: cached_documents_def published_def manifest_of_def)
qed

text \<open>A run over a published manifest converts nothing.\<close>

lemma convert_published:
  assumes "published e source output docs s" "source_entries e = Some es" "find_pdfs source es \<noteq> []"
    and "list_all2 (describes_pdf e source) (find_pdfs source es) docs" "distinct (map source_pdf docs)"
    and "\<And>json. to_string_pretty e (manifest_of source docs) = Inr json \<Longrightarrow>
      from_str e (ensure_ascii_json json @ [line_feed]) = Some (manifest_of source docs)"
  shows "convert e source output False s =
    (Ok (length (find_pdfs source es)), s\<lparr>messages := messages s @
       map (\<lambda>f. ascii ''Skipping '' @ path_text (fst f) @ ascii '' (unchanged)'') (find_pdfs source es)\<rparr>)"
proof -
  define s1 where "s1 = s\<lparr>messages := messages s @
       map (\<lambda>f. ascii ''Skipping '' @ path_text (fst f) @ ascii '' (unchanged)'') (find_pdfs source es)\<rparr>"
  have "convert_pdfs e source output (cached_documents e output s) (find_pdfs source es) s = (Ok docs, s1)"
    unfolding s1_def
    using cached_published [OF assms(1,5) _ assms(6)]
    by (intro convert_pdfs_cached [OF assms(4)]) (meson set_zip_rightD)
  moreover have "finish e source output docs s1 = (Ok (), s1)"
    using assms(1) by (intro finish_again) (simp add: published_def s1_def)
  ultimately show ?thesis
    using assms(2,3) by (simp add: convert_def bind_step_run Let_def s1_def [symmetric])
qed

lemma converted:
  assumes "convert e source output clean s = (Ok n, s')" "source_entries e = Some es"
  shows "\<exists>docs. published e source output docs s' \<and> find_pdfs source es \<noteq> [] \<and>
    list_all2 (describes_pdf e source) (find_pdfs source es) docs \<and> n = length (find_pdfs source es)"
proof -
  obtain docs s1 s2 cached where run:
    "convert_pdfs e source output cached (find_pdfs source es) s1 = (Ok docs, s2)"
    "finish e source output docs s2 = (Ok (), s')" "find_pdfs source es \<noteq> []"
    "n = length (find_pdfs source es)" "\<And>k d. cached k = Some d \<Longrightarrow> source_pdf d = k"
    using assms cached_source_pdf by (fastforce simp: convert_def Let_def split: if_splits)
  then show ?thesis using convert_pdfs_describes [OF run(1,5)] finish_published [OF run(2)] by blast
qed

section \<open>Property\<close>

text \<open>
  Property C24. Conversion is incremental: after a successful run, a second run over the same source
  directory converts nothing, reports every PDF as unchanged, and leaves all files as they are. It is
  assumed that serde reads back the manifest it wrote.
\<close>

theorem convert_again_unchanged:
  assumes "convert e source output clean s = (Ok n, s')" and "source_entries e = Some es"
    and "distinct (map (\<lambda>f. slash_text (drop (length source) (fst f))) (find_pdfs source es))"
    and "\<And>docs json. to_string_pretty e (manifest_of source docs) = Inr json \<Longrightarrow>
      from_str e (ensure_ascii_json json @ [line_feed]) = Some (manifest_of source docs)"
  shows "convert e source output False s' =
    (Ok n, s'\<lparr>messages := messages s' @
       map (\<lambda>f. ascii ''Skipping '' @ path_text (fst f) @ ascii '' (unchanged)'') (find_pdfs source es)\<rparr>)"
proof -
  obtain docs where docs: "published e source output docs s'" "find_pdfs source es \<noteq> []"
    "list_all2 (describes_pdf e source) (find_pdfs source es) docs" "n = length (find_pdfs source es)"
    using converted [OF assms(1,2)] by blast
  show ?thesis
    using convert_published [OF docs(1) assms(2) docs(2,3) _ assms(4)]
      source_pdfs [OF docs(3)] assms(3) docs(4) by simp
qed

text \<open>
  The other side of it: an output file that was deleted since is not written again, because only
  the hash of the PDF is compared.
\<close>

lemma deleted_output_stays_deleted:
  assumes "convert e source output clean s = (Ok n, s')" and "source_entries e = Some es"
    and "distinct (map (\<lambda>f. slash_text (drop (length source) (fst f))) (find_pdfs source es))"
    and "\<And>docs json. to_string_pretty e (manifest_of source docs) = Inr json \<Longrightarrow>
      from_str e (ensure_ascii_json json @ [line_feed]) = Some (manifest_of source docs)"
    and "p \<noteq> manifest_path output" "p \<noteq> readme_path output"
  shows "\<exists>s''. convert e source output False (s'\<lparr>files := (files s')(p := None)\<rparr>) = (Ok n, s'') \<and> files s'' p = None"
proof -
  obtain docs where docs: "published e source output docs s'" "find_pdfs source es \<noteq> []"
    "list_all2 (describes_pdf e source) (find_pdfs source es) docs" "n = length (find_pdfs source es)"
    using converted [OF assms(1,2)] by blast
  have "published e source output docs (s'\<lparr>files := (files s')(p := None)\<rparr>)"
    using docs(1) assms(5,6) by (auto simp: published_def)
  from convert_published [OF this assms(2) docs(2,3) _ assms(4)] show ?thesis
    using source_pdfs [OF docs(3)] assms(3) docs(4) by simp
qed

text \<open>A directory with one empty PDF.\<close>

definition small_docs :: document_manifest where
  "small_docs =
     \<lparr>source_pdf = ascii ''a.pdf'', out_dir = ascii ''a'', sha256 = ascii ''07'', page_count = 0,
      text_characters = 0, doc_tables = [],
      warning = Some (ascii ''No text layer found; OCR the PDF and rerun.'')\<rparr>"

definition small_env :: docs_env where
  "small_env =
     \<lparr>rules = \<lparr>page_number = (\<lambda>_. False), heading = (\<lambda>_. False), compact_cell = (\<lambda>_. False),
         all_digits = (\<lambda>_. False), designator = (\<lambda>_. False), lowercase = (\<lambda>s. s)\<rparr>,
      uppercase = (\<lambda>c. [c]), source_entries = Some [FileEntry (ascii ''a.pdf'') (Inr [7])],
      pdftotext = (\<lambda>_. Inr \<lparr>exit_ok = True, out_bytes = [], err_bytes = []\<rparr>), utf8_error = (\<lambda>_. []),
      digest = (\<lambda>bytes. bytes),
      to_string_pretty = (\<lambda>m. if m = manifest_of [ascii ''docs''] [small_docs] then Inr (ascii ''m'') else Inl []),
      from_str = (\<lambda>_. Some (manifest_of [ascii ''docs''] [small_docs])),
      dir_error = (\<lambda>_. None), write_error = (\<lambda>_. None), remove_error = (\<lambda>_. None)\<rparr>"

definition empty_state :: docs_state where
  "empty_state = \<lparr>files = Map.empty, directories = (\<lambda>_. False), messages = []\<rparr>"

lemma small_writes: "\<exists>s'. write_file small_env p contents s = (Ok (), s')"
  by (auto simp: write_file_def bind_step_def create_dir_def small_env_def)

lemma small_pdfs:
  "find_pdfs [ascii ''docs''] [FileEntry (ascii ''a.pdf'') (Inr [7])] = [([ascii ''docs'', ascii ''a.pdf''], Inr [7])]"
  by code_simp

lemma small_parts:
  "relative_path [ascii ''docs'', ascii ''a.pdf''] [ascii ''docs''] = Inr [ascii ''a.pdf'']"
  "slash_text [ascii ''a.pdf''] = ascii ''a.pdf''" "without_extension [ascii ''a.pdf''] = [ascii ''a'']"
  "slash_text [ascii ''a''] = ascii ''a''" "text_pages [] = []" "trim [] = []" "from_utf8 [] = Some []"
  "hex_digest small_env [7] = ascii ''07''"
  by code_simp+

lemma small_text: "run_pdftotext small_env p = Inr []"
  by (simp add: run_pdftotext_def small_env_def small_parts)

lemma small_document:
  "\<exists>s'. write_document small_env [ascii ''docs'', ascii ''a.pdf''] [ascii ''docs''] [ascii ''out''] (ascii ''07'') s =
     (Ok small_docs, s')"
proof -
  let ?doc = "[ascii ''out'', ascii ''a'', ascii ''document.md'']"
  let ?index = "[ascii ''out'', ascii ''a'', ascii ''tables'', ascii ''index.md'']"
  obtain s1 where s1: "write_file small_env ?doc
      (document_markdown (rules small_env) [ascii ''a.pdf''] [] []) s = (Ok (), s1)"
    using small_writes by blast
  obtain s2 where s2: "write_file small_env ?index
      (join [line_feed]
         ([ascii ''# Tables: '' @ ascii ''a.pdf'', [],
           ascii ''Tables are grouped by inferred subject. Confirm critical values against the source PDF.'', []] @ []) @
       [line_feed]) s1 = (Ok (), s2)"
    using small_writes by blast
  show ?thesis
    by (intro exI [of _ s2])
      (simp add: write_document_def small_parts small_text table_categories_def s1 s2 [simplified]
        small_docs_def Let_def)
qed

lemma small_run: "fst (convert small_env [ascii ''docs''] [ascii ''out''] False empty_state) = Ok 1"
proof -
  obtain s1 where s1: "write_document small_env [ascii ''docs'', ascii ''a.pdf''] [ascii ''docs''] [ascii ''out''] (ascii ''07'')
      (snd (say (ascii ''Converting '' @ path_text [ascii ''docs'', ascii ''a.pdf'']) empty_state)) = (Ok small_docs, s1)"
    using small_document by blast
  obtain s2 where s2: "create_dir small_env [ascii ''out''] s1 = (Ok (), s2)"
    by (simp add: create_dir_def small_env_def)
  obtain s3 where s3: "write_file small_env (manifest_path [ascii ''out'']) (ensure_ascii_json (ascii ''m'') @ [line_feed]) s2 = (Ok (), s3)"
    using small_writes by blast
  obtain s4 where s4: "write_file small_env (readme_path [ascii ''out'']) readme_text s3 = (Ok (), s4)"
    using small_writes by blast
  have none: "cached_documents small_env [ascii ''out''] empty_state k = None" for k
    by (simp add: cached_documents_def empty_state_def)
  have json: "to_string_pretty small_env \<lparr>format = 1, source_dir = slash_text [ascii ''docs''], documents = [small_docs]\<rparr> =
      Inr (ascii ''m'')"
    by (simp add: small_env_def manifest_of_def)
  have entries: "source_entries small_env = Some [FileEntry (ascii ''a.pdf'') (Inr [7])]"
    by (simp add: small_env_def)
  have "convert_pdfs small_env [ascii ''docs''] [ascii ''out''] (cached_documents small_env [ascii ''out''] empty_state)
      [([ascii ''docs'', ascii ''a.pdf''], Inr [7])] empty_state = (Ok [small_docs], s1)"
    using s1 by (simp add: Let_def small_parts none say_def)
  moreover have "finish small_env [ascii ''docs''] [ascii ''out''] [small_docs] s1 = (Ok (), s4)"
    using s2 s3 s4 json by (simp add: finish_def)
  ultimately have "convert small_env [ascii ''docs''] [ascii ''out''] False empty_state = (Ok 1, s4)"
    by (simp add: convert_def entries small_pdfs Let_def del: convert_pdfs.simps)
  then show ?thesis by simp
qed

theorem convert_again_unchanged_witness:
  "\<exists>s'. convert small_env [ascii ''docs''] [ascii ''out''] False empty_state = (Ok 1, s') \<and>
     files (snd (convert small_env [ascii ''docs''] [ascii ''out''] False s')) = files s'"
proof -
  obtain s' where s': "convert small_env [ascii ''docs''] [ascii ''out''] False empty_state = (Ok 1, s')"
    using small_run by (metis prod.collapse)
  have "convert small_env [ascii ''docs''] [ascii ''out''] False s' =
    (Ok 1, s'\<lparr>messages := messages s' @ map (\<lambda>f. ascii ''Skipping '' @ path_text (fst f) @ ascii '' (unchanged)'')
       (find_pdfs [ascii ''docs''] [FileEntry (ascii ''a.pdf'') (Inr [7])])\<rparr>)"
    by (rule convert_again_unchanged [OF s'])
      (auto simp: small_env_def find_pdfs_def Let_def split: if_splits, code_simp)
  with s' show ?thesis by simp
qed

end
