(* ===== verification/Swo.thy ===== *)
theory Swo
  imports Control
begin

text \<open>
  The trace-pin decoders of \<open>applications/orbtrace/model/src/lib.rs\<close>: the parallel DDR
  port (\<open>decode_parallel_ddr\<close>), the oversampled UART word (\<open>decode_swo_nrz\<close>) and the
  Manchester word (\<open>decode_swo_manchester\<close>). For each of them the wave form of a byte is
  defined as the reference, and the decoder is shown to accept exactly the wave forms.
\<close>

datatype swo_error = BadStart | BadStop | BadManchester

section \<open>The parallel port\<close>

text \<open>\<open>chunks_exact\<close>: the remainder that does not fill a chunk is left out.\<close>

function chunks_exact :: "nat \<Rightarrow> 'a list \<Rightarrow> 'a list list" where
  "chunks_exact n xs =
     (if n = 0 \<or> length xs < n then [] else take n xs # chunks_exact n (drop n xs))"
  by pat_completeness auto
termination
  by (relation "measure (\<lambda>(n, xs). length xs)") auto

declare chunks_exact.simps [simp del]

definition ddr_byte :: "u8 \<Rightarrow> nat \<Rightarrow> u8 list \<Rightarrow> u8" where
  "ddr_byte lanes width edges =
     foldl (\<lambda>byte index. byte OR push_bit (index * width) (edges ! index AND lanes)) 0 [0..<length edges]"

definition decode_parallel_ddr :: "bytes \<Rightarrow> u8 \<Rightarrow> protocol_error + bytes" where
  "decode_parallel_ddr samples width =
     (if width \<notin> {1, 2, 4} then Inl (InvalidValue ''trace width'')
      else let edges_per_byte = 8 div unat width;
               lanes = push_bit (unat width) 1 - 1
      in Inr (map (ddr_byte lanes (unat width)) (chunks_exact edges_per_byte samples)))"

text \<open>The reference: the edge samples of a byte, lowest bits first.\<close>

definition ddr_edges :: "nat \<Rightarrow> u8 \<Rightarrow> u8 list" where
  "ddr_edges width b = map (\<lambda>i. take_bit width (drop_bit (i * width) b)) [0..<8 div width]"

lemma chunks_exact_concat:
  "0 < n \<Longrightarrow> \<exists>tail. xs = concat (chunks_exact n xs) @ tail \<and> length tail < n"
proof (induction n xs rule: chunks_exact.induct)
  case (1 n xs)
  then show ?case
    by (cases "length xs < n")
      (auto simp: chunks_exact.simps [of n xs] intro: append_take_drop_id [symmetric],
        metis append_take_drop_id)
qed

lemma chunks_exact_unique:
  "0 < n \<Longrightarrow> list_all (\<lambda>c. length c = n) cs \<Longrightarrow> length tail < n \<Longrightarrow>
   chunks_exact n (concat cs @ tail) = cs"
  by (induction cs) (simp_all add: chunks_exact.simps)

lemma chunks_exact_lengths: "c \<in> set (chunks_exact n xs) \<Longrightarrow> length c = n"
  by (induction n xs rule: chunks_exact.induct)
    (subst (asm) (2) chunks_exact.simps, auto split: if_splits)

lemma chunks_exact_map: "chunks_exact n (map f xs) = map (map f) (chunks_exact n xs)"
  by (induction n xs rule: chunks_exact.induct)
    (subst chunks_exact.simps, subst (2) chunks_exact.simps, auto simp: take_map drop_map)

lemma bit_or_loop:
  "bit (foldl (\<lambda>byte i. byte OR push_bit (f i) (g i)) (v :: u8) is) k \<longleftrightarrow>
     bit v k \<or> (\<exists>i \<in> set is. bit (push_bit (f i) (g i)) k)"
  by (induction "is" arbitrary: v) (auto simp: bit_or_iff)

lemma ddr_lanes: "2 ^ w - 1 = (mask w :: u8)"
  by (simp add: mask_eq_exp_minus_1)

lemma div_eq_iff_window:
  assumes "0 < (w :: nat)"
  shows "(i * w \<le> k \<and> k - i * w < w) \<longleftrightarrow> k div w = i"
proof
  assume "i * w \<le> k \<and> k - i * w < w"
  then show "k div w = i" by (intro div_nat_eqI) (auto simp: algebra_simps)
next
  assume "k div w = i"
  then show "i * w \<le> k \<and> k - i * w < w"
    using assms by (auto simp: minus_div_mult_eq_mod)
qed

lemma all_less_mult:
  assumes w: "0 < (w :: nat)"
  shows "(\<forall>k < m * w. P (k div w) (k mod w) k) \<longleftrightarrow> (\<forall>i < m. \<forall>n < w. P i n (i * w + n))"
proof (intro iffI allI impI)
  fix i n assume all: "\<forall>k < m * w. P (k div w) (k mod w) k" and "i < m" "n < w"
  then have "i * w + n < Suc i * w" "Suc i * w \<le> m * w"
    by (simp_all only: mult_le_mono1 Suc_leI) simp
  then have "i * w + n < m * w" by simp
  moreover have "(i * w + n) div w = i" "(i * w + n) mod w = n"
    using \<open>n < w\<close> by simp_all
  ultimately show "P i n (i * w + n)" using all by metis
next
  fix k assume all: "\<forall>i < m. \<forall>n < w. P i n (i * w + n)" and "k < m * w"
  then have "k div w < m" "k mod w < w"
    using w by (simp_all add: less_mult_imp_div_less)
  with all have "P (k div w) (k mod w) (k div w * w + k mod w)" by blast
  then show "P (k div w) (k mod w) k" by simp
qed

lemma bit_word_eq_iff8: "(a :: u8) = b \<longleftrightarrow> (\<forall>k < 8. bit a k = bit b k)"
  by (auto intro: bit_word_eqI)

lemma bit_ddr_byte:
  assumes "0 < w" and "k < 8"
  shows "bit (ddr_byte (mask w) w edges) k \<longleftrightarrow>
     k div w < length edges \<and> bit (edges ! (k div w)) (k mod w)"
proof -
  have edge: "bit (x AND mask w) n \<longleftrightarrow> n < w \<and> bit x n" for x :: u8 and n
    using bit_imp_le_length [of x n] by (auto simp: bit_and_iff bit_mask_iff)
  have place: "bit (push_bit (i * w) (edges ! i AND mask w)) k \<longleftrightarrow>
      k div w = i \<and> bit (edges ! i) (k mod w)" for i
  proof -
    have "bit (push_bit (i * w) (edges ! i AND mask w)) k \<longleftrightarrow>
        (i * w \<le> k \<and> k - i * w < w) \<and> bit (edges ! i) (k - i * w)"
      unfolding bit_push_bit_iff edge using assms(2) by simp
    also have "\<dots> \<longleftrightarrow> k div w = i \<and> bit (edges ! i) (k - i * w)"
      unfolding div_eq_iff_window [OF assms(1)] by (rule refl)
    also have "\<dots> \<longleftrightarrow> k div w = i \<and> bit (edges ! i) (k mod w)"
      using minus_div_mult_eq_mod [of k w] by (rule_tac conj_cong) auto
    finally show ?thesis .
  qed
  show ?thesis
    unfolding ddr_byte_def bit_or_loop place by auto
qed

lemma length_ddr_edges [simp, len_simps]: "length (ddr_edges w b) = 8 div w"
  by (simp add: ddr_edges_def)

lemma ddr_byte_edges:
  assumes w: "w \<in> {1, 2, 4}" and e: "length edges = 8 div w"
  shows "ddr_byte (mask w) w edges = b \<longleftrightarrow> map (\<lambda>s. s AND mask w) edges = ddr_edges w b"
proof -
  have edge: "bit (edges ! i AND mask w) n \<longleftrightarrow> n < w \<and> bit (edges ! i) n"
    and spec: "i < 8 div w \<Longrightarrow> bit (ddr_edges w b ! i) n \<longleftrightarrow> n < w \<and> bit b (i * w + n)" for i n
    using bit_imp_le_length [of "edges ! i" n] w
    by (auto simp: bit_and_iff bit_mask_iff ddr_edges_def bit_take_bit_iff bit_drop_bit_eq)
  have w0: "0 < w" and m: "8 div w * w = 8" using w by auto
  have "k div w < length edges" if "k < 8" for k
    using that e m by (simp add: less_mult_imp_div_less)
  then have "ddr_byte (mask w) w edges = b \<longleftrightarrow>
      (\<forall>k < 8 div w * w. bit (edges ! (k div w)) (k mod w) = bit b k)"
    by (simp add: bit_word_eq_iff8 bit_ddr_byte [OF w0] m)
  also have "\<dots> \<longleftrightarrow> (\<forall>i < 8 div w. \<forall>n < w. bit (edges ! i) n = bit b (i * w + n))"
    by (rule all_less_mult [OF w0])
  also have "\<dots> \<longleftrightarrow> (\<forall>i < 8 div w. edges ! i AND mask w = ddr_edges w b ! i)"
  proof -
    have "edges ! i AND mask w = ddr_edges w b ! i \<longleftrightarrow> (\<forall>n < w. bit (edges ! i) n = bit b (i * w + n))"
      if "i < 8 div w" for i
    proof -
      have "w < 8" using w by auto
      then show ?thesis
        unfolding bit_word_eq_iff8 edge spec [OF that] by (metis less_trans)
    qed
    then show ?thesis by simp
  qed
  also have "\<dots> \<longleftrightarrow> map (\<lambda>s. s AND mask w) edges = ddr_edges w b"
    using e by (auto simp: list_eq_iff_nth_eq)
  finally show ?thesis .
qed

lemma map_eq_map_pointwise:
  "(\<And>c b. c \<in> set cs \<Longrightarrow> f c = b \<longleftrightarrow> h c = g b) \<Longrightarrow> map f cs = bs \<longleftrightarrow> map h cs = map g bs"
proof (induction cs arbitrary: bs)
  case (Cons c cs)
  then show ?case by (cases bs) auto
qed auto

lemma map_mask_chunks:
  assumes w: "w \<in> {1, 2, 4}"
  shows "map (ddr_byte (mask w) w) (chunks_exact (8 div w) samples) = bs \<longleftrightarrow>
    (\<exists>tail. map (\<lambda>s. s AND mask w) samples = concat (map (ddr_edges w) bs) @ tail \<and> length tail < 8 div w)"
    (is "?L \<longleftrightarrow> ?R")
proof -
  let ?m = "map (\<lambda>s. s AND mask w) samples" and ?n = "8 div w"
  have n: "0 < ?n" using w by auto
  have "?L \<longleftrightarrow> chunks_exact ?n ?m = map (ddr_edges w) bs"
    unfolding chunks_exact_map
    by (rule map_eq_map_pointwise) (rule ddr_byte_edges [OF w chunks_exact_lengths])
  also have "\<dots> \<longleftrightarrow> ?R"
  proof
    assume "chunks_exact ?n ?m = map (ddr_edges w) bs"
    then show ?R using chunks_exact_concat [OF n, of ?m] by auto
  next
    assume ?R
    then show "chunks_exact ?n ?m = map (ddr_edges w) bs"
      using chunks_exact_unique [OF n, of "map (ddr_edges w) bs"] by (auto simp: list_all_iff)
  qed
  finally show ?thesis .
qed

text \<open>
  The parallel trace port. Decoding succeeds exactly for the widths 1, 2 and 4; the
  bytes it gives are the ones whose edges, lowest bits first, are the samples with the bits of
  unused lanes masked off, up to a remainder too short for a byte.
\<close>

theorem decode_parallel_ddr_exact:
  "decode_parallel_ddr samples width = Inr bs \<longleftrightarrow>
     width \<in> {1, 2, 4} \<and>
     (\<exists>tail. map (take_bit (unat width)) samples = concat (map (ddr_edges (unat width)) bs) @ tail
        \<and> length tail < 8 div unat width)"
proof -
  have w: "unat width \<in> {1, 2, 4}" if "width \<in> {1, 2, 4}" using that by auto
  have "take_bit (unat width) = (\<lambda>s :: u8. s AND mask (unat width))"
    by (simp add: fun_eq_iff take_bit_eq_mask)
  moreover have "decode_parallel_ddr samples width = Inr bs \<longleftrightarrow> width \<in> {1, 2, 4} \<and>
      map (ddr_byte (mask (unat width)) (unat width)) (chunks_exact (8 div unat width) samples) = bs"
    by (simp add: decode_parallel_ddr_def ddr_lanes Let_def del: insert_iff)
  ultimately show ?thesis
    using map_mask_chunks [OF w] by (simp del: insert_iff cong: conj_cong)
qed

section \<open>The UART word\<close>

definition or_bit :: "u8 \<Rightarrow> nat \<Rightarrow> bool \<Rightarrow> u8" where
  "or_bit value i b = value OR push_bit i (of_bool b)"

definition decode_swo_nrz :: "bool list \<Rightarrow> nat \<Rightarrow> swo_error + u8" where
  "decode_swo_nrz samples samples_per_bit =
     (if samples_per_bit = 0 \<or> length samples < samples_per_bit * 10 then Inl BadStop
      else let sample = (\<lambda>bit. samples ! (bit * samples_per_bit + samples_per_bit div 2))
      in if sample 0 then Inl BadStart
      else if \<not> sample 9 then Inl BadStop
      else Inr (foldl (\<lambda>value bit. or_bit value bit (sample (bit + 1))) 0 [0..<8]))"

text \<open>The reference: start bit, eight data bits from the lowest, stop bit.\<close>

definition word_bits :: "u8 \<Rightarrow> bool list" where
  "word_bits b = [False] @ map (bit b) [0..<8] @ [True]"

definition nrz_wave :: "nat \<Rightarrow> u8 \<Rightarrow> bool list" where
  "nrz_wave k b = concat (map (replicate k) (word_bits b))"

lemma length_word_bits [simp, len_simps]: "length (word_bits b) = 10"
  by (simp add: word_bits_def)

lemma bit_push_of_bool:
  "bit (push_bit i (of_bool c) :: u8) k \<longleftrightarrow> k < 8 \<and> i = k \<and> c"
  by (auto simp: bit_push_bit_iff bit_of_bool_iff possible_bit_word)

lemma or_bits_eq: "foldl (\<lambda>v i. or_bit v i (f i)) 0 [0..<8] = b \<longleftrightarrow> (\<forall>i < 8. f i = bit b i)"
  unfolding or_bit_def bit_word_eq_iff8 bit_or_loop bit_push_of_bool by auto

lemma nth_word_bits:
  "word_bits b ! 0 = False" "i < 8 \<Longrightarrow> word_bits b ! (i + 1) = bit b i" "word_bits b ! 9 = True"
  by (simp_all add: word_bits_def nth_append)

lemma below_ten: "(i :: nat) < 10 \<Longrightarrow> (\<And>j. i = j + 1 \<Longrightarrow> j < 8 \<Longrightarrow> P) \<Longrightarrow> (i = 0 \<Longrightarrow> P) \<Longrightarrow> (i = 9 \<Longrightarrow> P) \<Longrightarrow> P"
proof (cases i)
  case (Suc j)
  moreover assume "i < 10"
  ultimately have "j < 8 \<or> j = 8" by linarith
  moreover assume "\<And>j. i = j + 1 \<Longrightarrow> j < 8 \<Longrightarrow> P" and "i = 9 \<Longrightarrow> P"
  ultimately show P using Suc by auto
qed

lemma word_bits_iff:
  assumes "length xs = 10"
  shows "xs = word_bits b \<longleftrightarrow> \<not> xs ! 0 \<and> xs ! 9 \<and> (\<forall>i < 8. xs ! (i + 1) = bit b i)"
proof
  assume "xs = word_bits b"
  then show "\<not> xs ! 0 \<and> xs ! 9 \<and> (\<forall>i < 8. xs ! (i + 1) = bit b i)"
    using nth_word_bits [where b = b] by simp
next
  assume r: "\<not> xs ! 0 \<and> xs ! 9 \<and> (\<forall>i < 8. xs ! (i + 1) = bit b i)"
  have "xs ! i = word_bits b ! i" if "i < 10" for i
    using that by (rule below_ten) (use r nth_word_bits [where b = b] in \<open>simp_all only: simp_thms\<close>)
  with assms show "xs = word_bits b" by (auto intro: nth_equalityI)
qed

lemma div_half_less: "0 < (k :: nat) \<Longrightarrow> i < 10 \<Longrightarrow> i * k + k div 2 < k * 10"
proof -
  assume "0 < k" "i < 10"
  then have "i * k \<le> 9 * k" by (intro mult_le_mono1) simp
  moreover have "k div 2 < k" using \<open>0 < k\<close> by simp
  ultimately show ?thesis by linarith
qed

text \<open>
  The UART word. A byte is decoded exactly when there are samples for ten bit times
  and the ten centre samples are a low start bit, the bits of the byte from the lowest and a high
  stop bit.
\<close>

theorem decode_swo_nrz_exact:
  "decode_swo_nrz samples k = Inr b \<longleftrightarrow>
     0 < k \<and> 10 * k \<le> length samples \<and>
     map (\<lambda>i. samples ! (i * k + k div 2)) [0..<10] = word_bits b"
proof -
  let ?s = "\<lambda>i. samples ! (i * k + k div 2)"
  have "map ?s [0..<10] = word_bits b \<longleftrightarrow> \<not> ?s 0 \<and> ?s 9 \<and> (\<forall>i < 8. ?s (i + 1) = bit b i)"
    by (subst word_bits_iff) auto
  moreover have "decode_swo_nrz samples k = Inr b \<longleftrightarrow> 0 < k \<and> 10 * k \<le> length samples \<and>
      \<not> ?s 0 \<and> ?s 9 \<and> foldl (\<lambda>v i. or_bit v i (?s (i + 1))) 0 [0..<8] = b"
    by (auto simp: decode_swo_nrz_def Let_def)
  ultimately show ?thesis
    by (simp only: or_bits_eq)
qed

lemma nth_concat_replicate:
  "i < length xs \<Longrightarrow> j < k \<Longrightarrow> (concat (map (replicate k) xs) @ rest) ! (i * k + j) = xs ! i"
proof (induction xs arbitrary: i)
  case (Cons x xs)
  then show ?case by (cases i) (simp_all add: nth_append add.assoc)
qed simp

lemma length_nrz_wave [simp, len_simps]: "length (nrz_wave k b) = 10 * k"
  by (simp add: nrz_wave_def word_bits_def length_concat comp_def sum_list_triv)

text \<open>
  Clean wave forms. The oversampled wave of any byte is decoded to that byte, at
  every positive number of samples per bit and whatever follows the word.
\<close>

theorem decode_nrz_wave:
  "decode_swo_nrz (nrz_wave (Suc k) b @ rest) (Suc k) = Inr b"
proof -
  let ?w = "nrz_wave (Suc k) b @ rest"
  have s: "?w ! (i * Suc k + Suc k div 2) = word_bits b ! i" if "i < 10" for i
    unfolding nrz_wave_def using that by (intro nth_concat_replicate) simp_all
  have "?w ! ((i + 1) * Suc k + Suc k div 2) = bit b i" if "i < 8" for i
    using s [of "i + 1"] nth_word_bits(2) [OF that] that by simp
  then have "foldl (\<lambda>v i. or_bit v i (?w ! ((i + 1) * Suc k + Suc k div 2))) 0 [0..<8] = b"
    unfolding or_bits_eq by blast
  moreover have "\<not> ?w ! (0 * Suc k + Suc k div 2)" "?w ! (9 * Suc k + Suc k div 2)"
    using s [of 0] s [of 9] nth_word_bits [where b = b] by simp_all
  ultimately show ?thesis
    unfolding decode_swo_nrz_def Let_def
    by (simp only: length_append length_nrz_wave) simp
qed

section \<open>The Manchester word\<close>

definition manchester_bit :: "bool list \<Rightarrow> nat \<Rightarrow> swo_error + bool" where
  "manchester_bit half_bits index =
     (let one = half_bits ! (index * 2); two = half_bits ! (index * 2 + 1)
      in if one = two then Inl BadManchester else Inr one)"

fun manchester_loop :: "bool list \<Rightarrow> u8 \<Rightarrow> nat list \<Rightarrow> swo_error + u8" where
  "manchester_loop half_bits value [] = Inr value"
| "manchester_loop half_bits value (index # indices) =
     bind_res (manchester_bit half_bits (index + 1)) (\<lambda>b.
     manchester_loop half_bits (or_bit value index b) indices)"

definition decode_swo_manchester :: "bool list \<Rightarrow> swo_error + u8" where
  "decode_swo_manchester half_bits =
     (if length half_bits < 20 then Inl BadStop
      else bind_res (manchester_bit half_bits 0) (\<lambda>start.
        if start then Inl BadStart
        else bind_res (manchester_bit half_bits 9) (\<lambda>stop.
          if \<not> stop then Inl BadStop
          else manchester_loop half_bits 0 [0..<8])))"

definition manchester_wave :: "u8 \<Rightarrow> bool list" where
  "manchester_wave b = concat (map (\<lambda>x. [x, \<not> x]) (word_bits b))"

lemma manchester_loop_iff:
  "manchester_loop hb v is = Inr r \<longleftrightarrow>
     (\<forall>i \<in> set is. hb ! (2 * i + 2) \<noteq> hb ! (2 * i + 3)) \<and>
     r = foldl (\<lambda>v i. or_bit v i (hb ! (2 * i + 2))) v is"
  by (induction "is" arbitrary: v)
    (auto simp: bind_res_eq_Inr manchester_bit_def Let_def algebra_simps numeral_eq_Suc split: if_splits)

lemma manchester_pairs:
  "length xs = 2 * length ys \<Longrightarrow> xs = concat (map (\<lambda>x. [x, \<not> x]) ys) \<longleftrightarrow>
     (\<forall>i < length ys. xs ! (2 * i) = ys ! i \<and> xs ! (2 * i + 1) = (\<not> ys ! i))"
proof (induction ys arbitrary: xs)
  case (Cons y ys)
  then obtain p q xs' where "xs = p # q # xs'" "length xs' = 2 * length ys"
    by (auto simp: length_Suc_conv)
  then show ?case
    using Cons.IH [of xs'] by (auto simp: All_less_Suc2)
qed simp

lemma all_below_ten: "(\<forall>i < 10. P i) \<longleftrightarrow> P (0 :: nat) \<and> P 9 \<and> (\<forall>i < 8. P (i + 1))"
  by (auto elim: below_ten)

text \<open>
  The Manchester word. A byte is decoded exactly when the first twenty half bits are
  its wave form: start bit, data bits from the lowest and stop bit, each a level and its
  complement.
\<close>

theorem decode_swo_manchester_exact:
  "decode_swo_manchester half_bits = Inr b \<longleftrightarrow>
     20 \<le> length half_bits \<and> take 20 half_bits = manchester_wave b"
proof (cases "20 \<le> length half_bits")
  case True
  let ?hb = half_bits
  have "take 20 ?hb = manchester_wave b \<longleftrightarrow> (\<forall>i < 10. take 20 ?hb ! (2 * i) = word_bits b ! i
      \<and> take 20 ?hb ! (2 * i + 1) = (\<not> word_bits b ! i))"
    unfolding manchester_wave_def using True by (subst manchester_pairs) simp_all
  also have "\<dots> \<longleftrightarrow> (\<forall>i < 10. ?hb ! (2 * i) = word_bits b ! i \<and> ?hb ! (2 * i + 1) = (\<not> word_bits b ! i))"
    by simp
  also have "\<dots> \<longleftrightarrow> (\<not> ?hb ! 0 \<and> ?hb ! 1) \<and> (?hb ! 18 \<and> \<not> ?hb ! 19) \<and>
      (\<forall>i < 8. ?hb ! (2 * i + 2) = bit b i \<and> ?hb ! (2 * i + 3) = (\<not> bit b i))"
    unfolding all_below_ten using nth_word_bits [where b = b]
    by (simp add: numeral_eq_Suc)
  also have "\<dots> \<longleftrightarrow> decode_swo_manchester ?hb = Inr b"
  proof -
    have "decode_swo_manchester ?hb = Inr b \<longleftrightarrow> (\<not> ?hb ! 0 \<and> ?hb ! 1) \<and> (?hb ! 18 \<and> \<not> ?hb ! 19) \<and>
        (\<forall>i < 8. ?hb ! (2 * i + 2) \<noteq> ?hb ! (2 * i + 3)) \<and>
        foldl (\<lambda>v i. or_bit v i (?hb ! (2 * i + 2))) 0 [0..<8] = b"
      using True
      by (auto simp: decode_swo_manchester_def bind_res_eq_Inr manchester_loop_iff
          manchester_bit_def Let_def split: if_splits)
    then show ?thesis unfolding or_bits_eq by auto
  qed
  finally show ?thesis using True by simp
next
  case False
  then show ?thesis by (simp add: decode_swo_manchester_def)
qed

end
