(* ===== verification/FifoRtl.thy ===== *)
theory FifoRtl
  imports Prelude "HOL-Library.Sublist"
begin

text \<open>
  The clock crossing of the capture front end, \<open>applications/orbtrace/rtl/orbtrace_async_fifo.sv\<close>. The pointers have
  \<open>DEPTH_LOG2 + 1\<close> bits, which is the length of their type; the two sides have clocks of their own, so an
  edge is one of the write side, one of the read side, or both at once. A register that
  samples the other side's pointer has the value it had before the edge.
\<close>

section \<open>Gray codes\<close>

definition gray :: "'a::len word \<Rightarrow> 'a word" where
  "gray w = drop_bit 1 w XOR w"

lemma bit_gray: "bit (gray w) i = (bit w (Suc i) \<noteq> bit w i)"
  by (auto simp: gray_def bit_simps)

lemma gray_inj:
  fixes x y :: "'a::len word"
  assumes "gray x = gray y"
  shows "x = y"
proof (rule bit_word_eqI)
  fix n
  assume "n < LENGTH('a)"
  then have "n \<le> LENGTH('a)" by simp
  then show "bit x n = bit y n"
  proof (induction rule: inc_induct)
    case base
    show ?case by (simp add: bit_simps)
  next
    case (step n)
    have "bit (gray x) n = bit (gray y) n" by (simp add: assms)
    with step.IH show ?case by (auto simp: bit_gray)
  qed
qed

lemma gray_eq_iff [simp]: "gray x = gray y \<longleftrightarrow> x = y"
  using gray_inj by blast

lemma gray_0 [simp]: "gray 0 = 0"
  by (simp add: gray_def)

text \<open>Adding half the range flips the top bit, and the top two bits of the Gray code.\<close>

lemma add_top_bit:
  fixes x :: "'a::len word"
  assumes n: "LENGTH('a) = Suc n"
  shows "x + 2 ^ n = x XOR 2 ^ n"
proof (cases "bit x n")
  case True
  have m: "mask n = (NOT (2 ^ n) :: 'a word)"
    by (rule bit_word_eqI) (auto simp: bit_simps n)
  have "x = (x AND mask n) + 2 ^ n"
  proof -
    have "x = (x AND mask n) OR 2 ^ n"
      by (rule bit_word_eqI) (use True in \<open>auto simp: bit_simps n m\<close>)
    also have "\<dots> = (x AND mask n) + 2 ^ n"
      by (rule disjunctive_add [symmetric]) (auto simp: bit_simps n)
    finally show ?thesis .
  qed
  then have "x + 2 ^ n = (x AND mask n) + 2 ^ Suc n" by (simp add: algebra_simps)
  also have "(2 :: 'a word) ^ Suc n = 0" by (simp add: n [symmetric])
  also have "(x AND mask n) + 0 = x XOR 2 ^ n"
    by simp (rule bit_word_eqI, use True in \<open>auto simp: bit_simps n m\<close>)
  finally show ?thesis .
next
  case False
  have "x + 2 ^ n = x OR 2 ^ n"
    by (rule disjunctive_add) (use False in \<open>auto simp: bit_simps\<close>)
  also have "\<dots> = x XOR 2 ^ n"
    by (rule bit_word_eqI) (use False in \<open>auto simp: bit_simps n\<close>)
  finally show ?thesis .
qed

lemma gray_xor: "gray (x XOR y) = gray x XOR gray y"
  by (rule bit_word_eqI) (auto simp: bit_gray bit_xor_iff)

lemma gray_top:
  assumes n: "LENGTH('a::len) = Suc (Suc n)"
  shows "gray (2 ^ Suc n :: 'a word) = push_bit n 3"
proof -
  have "drop_bit 1 (2 ^ Suc n) = (2 ^ n :: 'a word)"
    by (rule bit_word_eqI) (auto simp: bit_simps n)
  then have "gray (2 ^ Suc n :: 'a word) = 2 ^ n XOR 2 ^ Suc n" by (simp only: gray_def)
  also have "\<dots> = 2 ^ n OR 2 ^ Suc n"
    by (rule bit_word_eqI) (auto simp: bit_exp_iff bit_xor_iff bit_or_iff simp del: power_Suc)
  also have "\<dots> = 2 ^ n + 2 ^ Suc n"
    by (rule disjunctive_add [symmetric]) (auto simp: bit_exp_iff simp del: power_Suc)
  finally show ?thesis by (simp add: push_bit_eq_mult)
qed

lemma gray_add_top:
  fixes x :: "'a::len word"
  assumes n: "LENGTH('a) = Suc (Suc n)"
  shows "gray (x + 2 ^ Suc n) = gray x XOR push_bit n 3"
  by (simp only: add_top_bit [OF n] gray_xor gray_top [OF n])

section \<open>The registers\<close>

record 'p fifo =
  mem :: "nat \<Rightarrow> u8"
  wr_bin :: 'p
  rd_bin :: 'p
  wr_gray :: 'p
  rd_gray :: 'p
  rd_gray_w1 :: 'p
  rd_gray_w2 :: 'p
  wr_gray_r1 :: 'p
  wr_gray_r2 :: 'p

record fifo_write =
  write_reset_n :: bool
  write_data :: u8
  write_valid :: bool

record fifo_read =
  read_reset_n :: bool
  read_ready :: bool

text \<open>\<open>bin[DEPTH_LOG2-1:0]\<close>, the index into the memory.\<close>

definition mem_index :: "'p::len word \<Rightarrow> nat" where
  "mem_index w = unat (take_bit (LENGTH('p) - 1) w)"

definition write_ready :: "'p::len word fifo \<Rightarrow> bool" where
  "write_ready s \<longleftrightarrow> gray (wr_bin s + 1) \<noteq> rd_gray_w2 s XOR push_bit (LENGTH('p) - 2) 3"

definition read_valid :: "'p::len word fifo \<Rightarrow> bool" where
  "read_valid s \<longleftrightarrow> rd_gray s \<noteq> wr_gray_r2 s"

definition read_data :: "'p::len word fifo \<Rightarrow> u8" where
  "read_data s = mem s (mem_index (rd_bin s))"

definition write_level :: "'p::len word fifo \<Rightarrow> 'p word" where
  "write_level s = wr_bin s - (drop_bit 1 (rd_gray_w2 s) XOR rd_gray_w2 s)"

definition wr_next :: "fifo_write \<Rightarrow> 'p::len word fifo \<Rightarrow> 'p word" where
  "wr_next i s = wr_bin s + (if write_valid i \<and> write_ready s then 1 else 0)"

text \<open>The two clocked blocks: from the state \<open>s\<close> before the edge, and what is assigned so far, \<open>t\<close>.\<close>

definition write_ff :: "fifo_write \<Rightarrow> 'p::len word fifo \<Rightarrow> 'p word fifo \<Rightarrow> 'p word fifo" where
  "write_ff i s t =
     (if \<not> write_reset_n i then t\<lparr>wr_bin := 0, wr_gray := 0, rd_gray_w1 := 0, rd_gray_w2 := 0\<rparr>
      else let t = t\<lparr>rd_gray_w1 := rd_gray s, rd_gray_w2 := rd_gray_w1 s\<rparr>
        in if write_valid i \<and> write_ready s then
             t\<lparr>mem := (mem t)(mem_index (wr_bin s) := write_data i),
               wr_bin := wr_next i s, wr_gray := gray (wr_next i s)\<rparr>
           else t)"

definition read_ff :: "fifo_read \<Rightarrow> 'p::len word fifo \<Rightarrow> 'p word fifo \<Rightarrow> 'p word fifo" where
  "read_ff i s t =
     (if \<not> read_reset_n i then t\<lparr>rd_bin := 0, rd_gray := 0, wr_gray_r1 := 0, wr_gray_r2 := 0\<rparr>
      else let t = t\<lparr>wr_gray_r1 := wr_gray s, wr_gray_r2 := wr_gray_r1 s\<rparr>
        in if read_valid s \<and> read_ready i then t\<lparr>rd_bin := rd_bin s + 1, rd_gray := gray (rd_bin s + 1)\<rparr> else t)"

text \<open>An edge: what each side sees of it, if it is an edge of its clock.\<close>

type_synonym fifo_edges = "fifo_write option \<times> fifo_read option"

definition fifo_clock :: "fifo_edges \<Rightarrow> 'p::len word fifo \<Rightarrow> 'p word fifo" where
  "fifo_clock e s =
     (let t = (case fst e of None \<Rightarrow> s | Some i \<Rightarrow> write_ff i s s)
      in case snd e of None \<Rightarrow> t | Some i \<Rightarrow> read_ff i s t)"

definition fifo_written :: "fifo_edges \<Rightarrow> 'p::len word fifo \<Rightarrow> bytes" where
  "fifo_written e s =
     (case fst e of Some i \<Rightarrow> if write_reset_n i \<and> write_valid i \<and> write_ready s then [write_data i] else []
      | None \<Rightarrow> [])"

definition fifo_read_out :: "fifo_edges \<Rightarrow> 'p::len word fifo \<Rightarrow> bytes" where
  "fifo_read_out e s =
     (case snd e of Some i \<Rightarrow> if read_reset_n i \<and> read_valid s \<and> read_ready i then [read_data s] else []
      | None \<Rightarrow> [])"

fun fifo_run :: "fifo_edges list \<Rightarrow> 'p::len word fifo \<Rightarrow> 'p word fifo \<times> bytes \<times> bytes" where
  "fifo_run [] s = (s, [], [])"
| "fifo_run (e # es) s =
     (case fifo_run es (fifo_clock e s) of (t, w, r) \<Rightarrow> (t, fifo_written e s @ w, fifo_read_out e s @ r))"

definition fifo_reset :: "'p::len word fifo \<Rightarrow> 'p word fifo" where
  "fifo_reset s = fifo_clock (Some \<lparr>write_reset_n = False, write_data = 0, write_valid = False\<rparr>,
     Some \<lparr>read_reset_n = False, read_ready = False\<rparr>) s"

definition out_of_reset :: "fifo_edges \<Rightarrow> bool" where
  "out_of_reset e \<longleftrightarrow> (case fst e of Some i \<Rightarrow> write_reset_n i | None \<Rightarrow> True)
     \<and> (case snd e of Some i \<Rightarrow> read_reset_n i | None \<Rightarrow> True)"

section \<open>The invariant\<close>

text \<open>
  Ghost state: everything written, \<open>w\<close>, and everything read, \<open>r\<close>. Each pointer is the number of bytes that
  passed its side; each synchroniser stage is an earlier value of it.
\<close>

definition fifo_inv :: "'p::len word fifo \<Rightarrow> bytes \<Rightarrow> bytes \<Rightarrow> nat \<Rightarrow> nat \<Rightarrow> nat \<Rightarrow> nat \<Rightarrow> bool" where
  "fifo_inv s w r a1 a2 b1 b2 \<longleftrightarrow>
     wr_bin s = of_nat (length w) \<and> wr_gray s = gray (of_nat (length w))
     \<and> rd_bin s = of_nat (length r) \<and> rd_gray s = gray (of_nat (length r))
     \<and> wr_gray_r1 s = gray (of_nat a1) \<and> wr_gray_r2 s = gray (of_nat a2)
     \<and> rd_gray_w1 s = gray (of_nat b1) \<and> rd_gray_w2 s = gray (of_nat b2)
     \<and> b2 \<le> b1 \<and> b1 \<le> length r \<and> length r \<le> a2 \<and> a2 \<le> a1 \<and> a1 \<le> length w
     \<and> length w - b2 < 2 ^ (LENGTH('p) - 1)
     \<and> r = take (length r) w
     \<and> (\<forall>i. length r \<le> i \<and> i < length w \<longrightarrow> mem s (i mod 2 ^ (LENGTH('p) - 1)) = w ! i)"

lemma mem_index_of_nat: "mem_index (of_nat k :: 'p::len word) = k mod 2 ^ (LENGTH('p) - 1)"
proof -
  have "mem_index (of_nat k :: 'p word) = take_bit (LENGTH('p) - 1) (unat (of_nat k :: 'p word))"
    by (simp only: mem_index_def unsigned_take_bit_eq)
  then show ?thesis by (simp add: unat_of_nat take_bit_eq_mod mod_mod_cancel le_imp_power_dvd)
qed

lemma of_nat_close:
  assumes "a \<le> b" "b - a < 2 ^ LENGTH('p)" "(of_nat a :: 'p::len word) = of_nat b"
  shows "a = b"
proof -
  have "of_nat (b - a) = (0 :: 'p word)" using assms by (simp add: of_nat_diff)
  then have "2 ^ LENGTH('p) dvd b - a" by (simp add: word_of_nat_eq_0_iff)
  with assms show ?thesis by (auto dest: nat_dvd_not_less)
qed

lemma half_range: "2 \<le> n \<Longrightarrow> (2 :: nat) ^ n = 2 * 2 ^ (n - 1)"
  by (simp add: power_eq_if)

lemma read_valid_iff:
  assumes "fifo_inv s w r a1 a2 b1 b2" "2 \<le> LENGTH('p)"
  shows "read_valid (s :: 'p::len word fifo) \<longleftrightarrow> length r < a2"
proof -
  have "a2 - length r < 2 ^ LENGTH('p)"
    using assms half_range [of "LENGTH('p)"] by (auto simp: fifo_inv_def)
  then show ?thesis
    using assms of_nat_close [of "length r" a2, where 'p = 'p]
    by (cases "length r = a2") (auto simp: read_valid_def fifo_inv_def)
qed

lemma write_ready_iff:
  assumes "fifo_inv s w r a1 a2 b1 b2" "2 \<le> LENGTH('p)"
  shows "write_ready (s :: 'p::len word fifo) \<longleftrightarrow> Suc (length w) - b2 < 2 ^ (LENGTH('p) - 1)"
proof -
  obtain n where n: "LENGTH('p) = Suc (Suc n)"
    using assms(2) by (metis Suc_le_D numeral_2_eq_2 Suc_le_mono)
  have b: "b2 \<le> length w" "length w - b2 < 2 ^ Suc n"
    using assms(1) n by (auto simp: fifo_inv_def)
  have "rd_gray_w2 s XOR push_bit (LENGTH('p) - 2) 3 = gray (of_nat (b2 + 2 ^ Suc n))"
    using assms(1) gray_add_top [OF n, of "of_nat b2"] by (simp add: fifo_inv_def n)
  moreover have "gray (wr_bin s + 1) = gray (of_nat (Suc (length w)))"
    using assms(1) by (simp add: fifo_inv_def add.commute)
  ultimately have "write_ready s \<longleftrightarrow> (of_nat (Suc (length w)) :: 'p word) \<noteq> of_nat (b2 + 2 ^ Suc n)"
    by (simp only: write_ready_def gray_eq_iff)
  also have "\<dots> \<longleftrightarrow> Suc (length w) \<noteq> b2 + 2 ^ Suc n"
  proof -
    have "Suc (length w) = b2 + 2 ^ Suc n" if "(of_nat (Suc (length w)) :: 'p word) = of_nat (b2 + 2 ^ Suc n)"
    proof (rule of_nat_close [OF _ _ that])
      show "Suc (length w) \<le> b2 + 2 ^ Suc n" using b by linarith
      have "b2 + 2 ^ Suc n - Suc (length w) \<le> 2 ^ Suc n" using b by linarith
      also have "(2 :: nat) ^ Suc n < 2 ^ LENGTH('p)" by (simp add: n)
      finally show "b2 + 2 ^ Suc n - Suc (length w) < 2 ^ LENGTH('p)" .
    qed
    then show ?thesis by metis
  qed
  also have "\<dots> \<longleftrightarrow> Suc (length w) - b2 < 2 ^ (LENGTH('p) - 1)"
    using b n by auto
  finally show ?thesis .
qed

text \<open>What an edge transfers, in terms of the ghost state.\<close>

lemma fifo_written_cases:
  assumes "fifo_inv s w r a1 a2 b1 b2" "2 \<le> LENGTH('p)" "out_of_reset e"
  obtains "fifo_written e (s :: 'p::len word fifo) = []" "wr_bin (fifo_clock e s) = wr_bin s"
    "wr_gray (fifo_clock e s) = wr_gray s" "mem (fifo_clock e s) = mem s"
  | d where "fifo_written e s = [d]" "Suc (length w) - b2 < 2 ^ (LENGTH('p) - 1)" "fst e \<noteq> None"
    "wr_bin (fifo_clock e s) = of_nat (Suc (length w))" "wr_gray (fifo_clock e s) = gray (of_nat (Suc (length w)))"
    "mem (fifo_clock e s) = (mem s)(length w mod 2 ^ (LENGTH('p) - 1) := d)"
proof -
  have i: "mem_index (wr_bin s) = length w mod 2 ^ (LENGTH('p) - 1)" "wr_bin s = of_nat (length w)"
    using assms(1) by (simp_all add: fifo_inv_def mem_index_of_nat)
  show thesis
  proof (cases "fst e")
    case None
    show ?thesis
      by (rule that(1)) (use None in \<open>simp_all add: fifo_written_def fifo_clock_def read_ff_def Let_def split: option.splits\<close>)
  next
    case (Some k)
    then have rs: "write_reset_n k" using assms(3) by (simp add: out_of_reset_def)
    show ?thesis
    proof (cases "write_valid k \<and> write_ready s")
      case False
      show ?thesis
        by (rule that(1)) (use Some rs False in \<open>auto simp: fifo_written_def fifo_clock_def read_ff_def write_ff_def Let_def split: option.splits\<close>)
    next
      case True
      then have "Suc (length w) - b2 < 2 ^ (LENGTH('p) - 1)"
        using write_ready_iff [OF assms(1,2)] by simp
      then show ?thesis
        by (rule that(2) [of "write_data k", rotated])
          (use Some rs True in \<open>auto simp: fifo_written_def fifo_clock_def read_ff_def write_ff_def wr_next_def i mem_index_of_nat
             Let_def add.commute split: option.splits\<close>)
    qed
  qed
qed

lemma fifo_read_cases:
  assumes "fifo_inv s w r a1 a2 b1 b2" "2 \<le> LENGTH('p)" "out_of_reset e"
  obtains "fifo_read_out e (s :: 'p::len word fifo) = []" "rd_bin (fifo_clock e s) = rd_bin s"
    "rd_gray (fifo_clock e s) = rd_gray s"
  | "fifo_read_out e s = [w ! length r]" "length r < a2" "snd e \<noteq> None"
    "rd_bin (fifo_clock e s) = of_nat (Suc (length r))" "rd_gray (fifo_clock e s) = gray (of_nat (Suc (length r)))"
proof (cases "snd e")
  case None
  show ?thesis
    by (rule that(1)) (use None in \<open>simp_all add: fifo_read_out_def fifo_clock_def write_ff_def Let_def split: option.splits\<close>)
next
  case (Some k)
  then have rs: "read_reset_n k" using assms(3) by (simp add: out_of_reset_def)
  show ?thesis
  proof (cases "read_valid s \<and> read_ready k")
    case False
    show ?thesis
      by (rule that(1)) (use Some rs False in \<open>auto simp: fifo_read_out_def fifo_clock_def read_ff_def write_ff_def Let_def split: option.splits\<close>)
  next
    case True
    then have a: "length r < a2" using read_valid_iff [OF assms(1,2)] by simp
    have "read_data s = w ! length r" "rd_bin s = of_nat (length r)"
      using assms(1) a by (auto simp: fifo_inv_def read_data_def mem_index_of_nat)
    then show ?thesis
      by (intro that(2) [OF _ a])
        (use Some rs True in \<open>auto simp: fifo_read_out_def fifo_clock_def read_ff_def write_ff_def Let_def
           add.commute split: option.splits\<close>)
  qed
qed

lemma fifo_sync:
  assumes "out_of_reset e"
  shows "wr_gray_r1 (fifo_clock e s) = (if snd e = None then wr_gray_r1 s else wr_gray s)"
    "wr_gray_r2 (fifo_clock e s) = (if snd e = None then wr_gray_r2 s else wr_gray_r1 s)"
    "rd_gray_w1 (fifo_clock e s) = (if fst e = None then rd_gray_w1 s else rd_gray s)"
    "rd_gray_w2 (fifo_clock e s) = (if fst e = None then rd_gray_w2 s else rd_gray_w1 s)"
  using assms by (auto simp: fifo_clock_def read_ff_def write_ff_def out_of_reset_def Let_def split: option.splits)

lemma fifo_step:
  assumes inv: "fifo_inv s w r a1 a2 b1 b2" and len: "2 \<le> LENGTH('p)" and e: "out_of_reset e"
  shows "fifo_inv (fifo_clock e (s :: 'p::len word fifo)) (w @ fifo_written e s) (r @ fifo_read_out e s)
    (if snd e = None then a1 else length w) (if snd e = None then a2 else a1)
    (if fst e = None then b1 else length r) (if fst e = None then b2 else b1)"
proof -
  have o: "b2 \<le> b1" "b1 \<le> length r" "length r \<le> a2" "a2 \<le> a1" "a1 \<le> length w"
      "length w - b2 < 2 ^ (LENGTH('p) - 1)" "r = take (length r) w"
      "\<forall>i. length r \<le> i \<and> i < length w \<longrightarrow> mem s (i mod 2 ^ (LENGTH('p) - 1)) = w ! i"
    using inv unfolding fifo_inv_def by blast+
  define w' r' where "w' = w @ fifo_written e s" and "r' = r @ fifo_read_out e s"
  have w: "wr_bin (fifo_clock e s) = of_nat (length w') \<and> wr_gray (fifo_clock e s) = gray (of_nat (length w'))
    \<and> length w' - (if fst e = None then b2 else b1) < 2 ^ (LENGTH('p) - 1)
    \<and> (\<forall>i. length r \<le> i \<and> i < length w' \<longrightarrow> mem (fifo_clock e s) (i mod 2 ^ (LENGTH('p) - 1)) = w' ! i)"
  proof (rule fifo_written_cases [OF inv len e])
    assume "fifo_written e s = []" "wr_bin (fifo_clock e s) = wr_bin s" "wr_gray (fifo_clock e s) = wr_gray s"
      "mem (fifo_clock e s) = mem s"
    then show ?thesis using inv o by (auto simp: w'_def fifo_inv_def)
  next
    fix d
    assume d: "fifo_written e s = [d]" and lim: "Suc (length w) - b2 < 2 ^ (LENGTH('p) - 1)" and "fst e \<noteq> None"
      and f: "wr_bin (fifo_clock e s) = of_nat (Suc (length w))" "wr_gray (fifo_clock e s) = gray (of_nat (Suc (length w)))"
      and m: "mem (fifo_clock e s) = (mem s)(length w mod 2 ^ (LENGTH('p) - 1) := d)"
    have other: "i mod 2 ^ (LENGTH('p) - 1) \<noteq> length w mod 2 ^ (LENGTH('p) - 1)"
      if "length r \<le> i" "i < length w" for i
    proof
      assume "i mod 2 ^ (LENGTH('p) - 1) = length w mod 2 ^ (LENGTH('p) - 1)"
      then have "2 ^ (LENGTH('p) - 1) dvd length w - i" using that(2) mod_eq_dvd_iff_nat [of i "length w"]
        by (simp add: eq_commute)
      then have "2 ^ (LENGTH('p) - 1) \<le> length w - i" using that(2) by (simp add: dvd_imp_le)
      then show False using that(1) lim o by linarith
    qed
    have "mem (fifo_clock e s) (i mod 2 ^ (LENGTH('p) - 1)) = w' ! i" if "length r \<le> i" "i < length w'" for i
      using that other [of i] o(8) by (cases "i < length w") (auto simp: m w'_def d nth_append less_Suc_eq)
    then show ?thesis using d lim f o \<open>fst e \<noteq> None\<close> by (auto simp: w'_def)
  qed
  have r: "rd_bin (fifo_clock e s) = of_nat (length r') \<and> rd_gray (fifo_clock e s) = gray (of_nat (length r'))
    \<and> length r' \<le> (if snd e = None then a2 else a1) \<and> r' = take (length r') w \<and> length r \<le> length r'"
  proof (rule fifo_read_cases [OF inv len e])
    assume "fifo_read_out e s = []" "rd_bin (fifo_clock e s) = rd_bin s" "rd_gray (fifo_clock e s) = rd_gray s"
    then show ?thesis using inv o by (auto simp: r'_def fifo_inv_def)
  next
    assume x: "fifo_read_out e s = [w ! length r]" "length r < a2" and "snd e \<noteq> None"
      and f: "rd_bin (fifo_clock e s) = of_nat (Suc (length r))" "rd_gray (fifo_clock e s) = gray (of_nat (Suc (length r)))"
    have "take (Suc (length r)) w = r @ [w ! length r]"
      using o x(2) by (metis less_le_trans take_Suc_conv_app_nth)
    then show ?thesis using x f o \<open>snd e \<noteq> None\<close> by (simp add: r'_def)
  qed
  have "r' = take (length r') w'" using r o by (auto simp: w'_def split: if_splits)
  moreover have "length w \<le> length w'" by (simp add: w'_def)
  ultimately show ?thesis
    using inv w r o unfolding fifo_inv_def w'_def [symmetric] r'_def [symmetric] fifo_sync [OF e]
    by auto
qed

section \<open>The queue\<close>

lemma fifo_run_inv:
  assumes "fifo_inv s w r a1 a2 b1 b2" "2 \<le> LENGTH('p)" "\<forall>e \<in> set es. out_of_reset e"
    "fifo_run es (s :: 'p::len word fifo) = (t, w', r')"
  shows "\<exists>a1 a2 b1 b2. fifo_inv t (w @ w') (r @ r') a1 a2 b1 b2"
  using assms
proof (induction es arbitrary: s w r a1 a2 b1 b2 w' r')
  case Nil
  then show ?case by auto
next
  case (Cons e es)
  from Cons.prems(3) have e: "out_of_reset e" and es: "\<forall>e \<in> set es. out_of_reset e" by auto
  obtain w1 r1 where run: "fifo_run es (fifo_clock e s) = (t, w1, r1)"
    and w': "w' = fifo_written e s @ w1" and r': "r' = fifo_read_out e s @ r1"
    using Cons.prems(4) by (auto split: prod.splits)
  show ?case
    using Cons.IH [OF fifo_step [OF Cons.prems(1,2) e] Cons.prems(2) es run] by (simp add: w' r')
qed

lemma fifo_inv_reset: "fifo_inv (fifo_reset (s :: 'p::len word fifo)) [] [] 0 0 0 0"
  by (simp add: fifo_inv_def fifo_reset_def fifo_clock_def write_ff_def read_ff_def)

text \<open>A side that only reads: the other clock may run, but nothing is offered.\<close>

definition reading :: "fifo_edges \<Rightarrow> bool" where
  "reading e \<longleftrightarrow> snd e = Some \<lparr>read_reset_n = True, read_ready = True\<rparr>
     \<and> (case fst e of Some i \<Rightarrow> write_reset_n i \<and> \<not> write_valid i | None \<Rightarrow> True)"

lemma reading_no_write:
  "reading e \<Longrightarrow> fifo_written e s = [] \<and> out_of_reset e"
  by (auto simp: reading_def fifo_written_def out_of_reset_def split: option.splits)

lemma reading_step:
  assumes "fifo_inv s w r a1 a2 b1 b2" "2 \<le> LENGTH('p)" "reading e"
  shows "\<exists>b1' b2'. fifo_inv (fifo_clock e (s :: 'p::len word fifo)) w (r @ fifo_read_out e s) (length w) a1 b1' b2'"
    and "length r < a2 \<Longrightarrow> length (fifo_read_out e s) = 1"
proof -
  show "\<exists>b1' b2'. fifo_inv (fifo_clock e s) w (r @ fifo_read_out e s) (length w) a1 b1' b2'"
    using fifo_step [OF assms(1,2)] reading_no_write [OF assms(3), of s] assms(3)
    by (fastforce simp: reading_def)
  show "length (fifo_read_out e s) = 1" if "length r < a2"
    using that read_valid_iff [OF assms(1,2)] assms(3) by (simp add: reading_def fifo_read_out_def)
qed

lemma drain_synchronised:
  assumes "fifo_inv s w r (length w) (length w) b1 b2" "2 \<le> LENGTH('p)" "\<forall>e \<in> set es. reading e"
    "length w \<le> length r + length es" "fifo_run es (s :: 'p::len word fifo) = (t, w', r')"
  shows "w' = [] \<and> r @ r' = w"
  using assms
proof (induction es arbitrary: s r b1 b2 w' r')
  case Nil
  then show ?case by (auto simp: fifo_inv_def)
next
  case (Cons e es)
  from Cons.prems(3) have e: "reading e" and es: "\<forall>e \<in> set es. reading e" by auto
  obtain w1 r1 where run: "fifo_run es (fifo_clock e s) = (t, w1, r1)"
    and w': "w' = fifo_written e s @ w1" and r': "r' = fifo_read_out e s @ r1"
    using Cons.prems(5) by (auto split: prod.splits)
  obtain b1' b2' where inv: "fifo_inv (fifo_clock e s) w (r @ fifo_read_out e s) (length w) (length w) b1' b2'"
    using reading_step(1) [OF Cons.prems(1,2) e] by auto
  have "length w \<le> length (r @ fifo_read_out e s) + length es"
    using reading_step(2) [OF Cons.prems(1,2) e] Cons.prems(4) by (cases "length r < length w") auto
  from Cons.IH [OF inv Cons.prems(2) es this run] show ?case
    using reading_no_write [OF e, of s] by (simp add: w' r')
qed

lemma fifo_drains:
  assumes "fifo_inv s w r a1 a2 b1 b2" "2 \<le> LENGTH('p)" "\<forall>e \<in> set es. reading e"
    "length w + 2 \<le> length r + length es" "fifo_run es (s :: 'p::len word fifo) = (t, w', r')"
  shows "w' = [] \<and> r @ r' = w"
proof -
  have "length r \<le> length w" using assms(1) by (auto simp: fifo_inv_def)
  with assms(4) obtain e1 e2 es' where es: "es = e1 # e2 # es'"
    by (cases es; cases "tl es") auto
  have e: "reading e1" "reading e2" "\<forall>e \<in> set es'. reading e" using assms(3) es by auto
  let ?s1 = "fifo_clock e1 s" and ?r1 = "r @ fifo_read_out e1 s"
  let ?r2 = "?r1 @ fifo_read_out e2 ?s1"
  obtain c1 c2 where i1: "fifo_inv ?s1 w ?r1 (length w) a1 c1 c2"
    using reading_step(1) [OF assms(1,2) e(1)] by blast
  obtain d1 d2 where i2: "fifo_inv (fifo_clock e2 ?s1) w ?r2 (length w) (length w) d1 d2"
    using reading_step(1) [OF i1 assms(2) e(2)] by blast
  obtain w1 r1 where run: "fifo_run es' (fifo_clock e2 ?s1) = (t, w1, r1)"
    and w': "w' = fifo_written e1 s @ fifo_written e2 ?s1 @ w1"
    and r': "r' = fifo_read_out e1 s @ fifo_read_out e2 ?s1 @ r1"
    using assms(5) by (auto simp: es split: prod.splits)
  have "length w \<le> length ?r2 + length es'" using assms(4) es by simp
  from drain_synchronised [OF i2 assms(2) e(3) this run] show ?thesis
    using reading_no_write [OF e(1), of s] reading_no_write [OF e(2), of ?s1] by (simp add: w' r')
qed

text \<open>
  Property C5. Under any interleaving of the two clocks, what is read is a prefix of what was written, in order and
  without repetition; at most one byte less than the memory has words is held; and when nothing more is offered,
  a reader that is ready gets the rest within two edges of its clock more than there are bytes.
\<close>

theorem clock_crossing_is_fifo:
  fixes s :: "'p::len word fifo"
  assumes "2 \<le> LENGTH('p)" "\<forall>e \<in> set es. out_of_reset e" "fifo_run es (fifo_reset s) = (t, w, r)"
  shows "r = take (length r) w \<and> length w - length r < 2 ^ (LENGTH('p) - 1)
    \<and> (\<forall>es' u w' r'. (\<forall>e \<in> set es'. reading e) \<longrightarrow> length w + 2 \<le> length r + length es' \<longrightarrow>
         fifo_run es' t = (u, w', r') \<longrightarrow> w' = [] \<and> r @ r' = w)"
proof -
  obtain a1 a2 b1 b2 where inv: "fifo_inv t w r a1 a2 b1 b2"
    using fifo_run_inv [OF fifo_inv_reset assms] by auto
  have "r = take (length r) w" "length w - length r < 2 ^ (LENGTH('p) - 1)"
    using inv unfolding fifo_inv_def by (blast, linarith)
  then show ?thesis using fifo_drains [OF inv assms(1)] by blast
qed

definition write_edge :: "u8 \<Rightarrow> fifo_edges" where
  "write_edge d = (Some \<lparr>write_reset_n = True, write_data = d, write_valid = True\<rparr>, None)"

definition read_edge :: fifo_edges where
  "read_edge = (None, Some \<lparr>read_reset_n = True, read_ready = True\<rparr>)"

definition idle_edges :: fifo_edges where
  "idle_edges = (Some \<lparr>write_reset_n = True, write_data = 0, write_valid = False\<rparr>, snd read_edge)"

definition blank_fifo :: "6 word fifo" where
  "blank_fifo = \<lparr>mem = (\<lambda>_. 0), wr_bin = 0, rd_bin = 0, wr_gray = 0, rd_gray = 0, rd_gray_w1 = 0, rd_gray_w2 = 0,
     wr_gray_r1 = 0, wr_gray_r2 = 0\<rparr>"

section \<open>The level\<close>

lemma write_level_value:
  assumes "fifo_inv s w r a1 a2 b1 b2"
  shows "write_level (s :: 'p::len word fifo) =
    of_nat (length w) - (of_nat b2 XOR drop_bit 2 (of_nat b2))"
proof -
  have "drop_bit 1 (gray x) XOR gray x = x XOR drop_bit 2 x" for x :: "'p word"
    by (rule bit_word_eqI) (auto simp: bit_gray bit_xor_iff bit_drop_bit_eq)
  then show ?thesis using assms by (simp add: write_level_def fifo_inv_def)
qed

text \<open>
  The level undoes only the first step of the Gray code: it is the distance of the pointers exactly as long as the
  synchronised read pointer is below four.
\<close>

lemma write_level_right_iff:
  assumes "fifo_inv s w r a1 a2 b1 b2"
  shows "write_level (s :: 'p::len word fifo) = of_nat (length w) - of_nat b2 \<longleftrightarrow>
    drop_bit 2 (of_nat b2 :: 'p word) = 0"
proof -
  have "x XOR y = x \<longleftrightarrow> y = 0" for x y :: "'p word"
    by (metis xor.left_neutral xor.right_neutral xor_self_eq xor.assoc)
  then show ?thesis by (simp add: write_level_value [OF assms])
qed

lemma fifo_run_append:
  "fifo_run (es @ es') s = (case fifo_run es s of (t, w, r) \<Rightarrow>
     case fifo_run es' t of (u, w', r') \<Rightarrow> (u, w @ w', r @ r'))"
  by (induction es arbitrary: s) (auto split: prod.splits)

lemma fifo_fills:
  assumes "fifo_inv s w [] a1 a2 b1 0" "2 \<le> LENGTH('p)" "length w + length ds < 2 ^ (LENGTH('p) - 1)"
  shows "\<exists>t a1 a2 b1. fifo_run (map write_edge ds) (s :: 'p::len word fifo) = (t, ds, []) \<and> fifo_inv t (w @ ds) [] a1 a2 b1 0"
  using assms
proof (induction ds arbitrary: s w a1 a2 b1)
  case Nil
  then show ?case by auto
next
  case (Cons d ds)
  have e: "out_of_reset (write_edge d)" by (simp add: out_of_reset_def write_edge_def)
  have wr: "fifo_written (write_edge d) s = [d]" "fifo_read_out (write_edge d) s = []"
    using write_ready_iff [OF Cons.prems(1,2)] Cons.prems(3)
    by (simp_all add: fifo_written_def fifo_read_out_def write_edge_def)
  have b1: "b1 = 0" using Cons.prems(1) by (simp add: fifo_inv_def)
  have "fifo_inv (fifo_clock (write_edge d) s) (w @ [d]) [] a1 a2 0 0"
    using fifo_step [OF Cons.prems(1,2) e] by (simp add: wr) (simp add: write_edge_def b1)
  moreover have "length (w @ [d]) + length ds < 2 ^ (LENGTH('p) - 1)" using Cons.prems(3) by simp
  ultimately obtain t c1 c2 d1 where "fifo_run (map write_edge ds) (fifo_clock (write_edge d) s) = (t, ds, [])"
    "fifo_inv t ((w @ [d]) @ ds) [] c1 c2 d1 0"
    using Cons.IH Cons.prems(2) by blast
  then show ?case by (intro exI [of _ t] exI [of _ c1] exI [of _ c2] exI [of _ d1]) (simp add: wr)
qed

lemma idle_edges_settle:
  assumes "fifo_inv s w w a1 a2 b1 b2" "2 \<le> LENGTH('p)"
  shows "\<exists>t a1 a2. fifo_run [idle_edges, idle_edges] (s :: 'p::len word fifo) = (t, [], [])
    \<and> fifo_inv t w w a1 a2 (length w) (length w)"
proof -
  have e: "out_of_reset idle_edges" "reading idle_edges"
    by (simp_all add: out_of_reset_def reading_def idle_edges_def read_edge_def)
  have none: "fifo_written idle_edges x = [] \<and> fifo_read_out idle_edges x = []"
    if "fifo_inv x w w c1 c2 d1 d2" for x :: "'p word fifo" and c1 c2 d1 d2
    using reading_no_write [OF e(2)] read_valid_iff [OF that assms(2)] that
    by (auto simp: fifo_read_out_def fifo_inv_def idle_edges_def read_edge_def)
  have 1: "fifo_inv (fifo_clock idle_edges s) w w (length w) a1 (length w) b1"
    using fifo_step [OF assms e(1)] none [OF assms(1)] by (simp add: idle_edges_def read_edge_def)
  have 2: "fifo_inv (fifo_clock idle_edges (fifo_clock idle_edges s)) w w (length w) (length w) (length w) (length w)"
    using fifo_step [OF 1 assms(2) e(1)] none [OF 1] by (simp add: idle_edges_def read_edge_def)
  show ?thesis using none [OF assms(1)] none [OF 1] 2 by auto
qed

theorem clock_crossing_is_fifo_witness:
  "\<exists>t. fifo_run [write_edge 7, write_edge 8] (fifo_reset blank_fifo) = (t, [7, 8], [])
    \<and> (\<exists>u. fifo_run [read_edge, idle_edges, read_edge, read_edge] t = (u, [], [7, 8]))"
proof -
  obtain t where run: "fifo_run [write_edge 7, write_edge 8] (fifo_reset blank_fifo) = (t, [7, 8], [])"
  proof -
    have "length ([] :: bytes) + length [7, 8 :: u8] < 2 ^ (LENGTH(6) - 1)" by simp
    then show ?thesis using that fifo_fills [OF fifo_inv_reset [of blank_fifo], of "[7, 8]"] by auto
  qed
  obtain u w' r' where run': "fifo_run [read_edge, idle_edges, read_edge, read_edge] t = (u, w', r')"
    using prod_cases3 by blast
  have e: "\<forall>e \<in> set [write_edge 7, write_edge 8]. out_of_reset e"
    by (simp add: out_of_reset_def write_edge_def)
  have r: "\<forall>e \<in> set [read_edge, idle_edges, read_edge, read_edge]. reading e"
    by (simp add: reading_def read_edge_def idle_edges_def)
  have len: "2 \<le> LENGTH(6)" "length [7, 8 :: u8] + 2 \<le> length ([] :: bytes) + length [read_edge, idle_edges, read_edge, read_edge]"
    by simp_all
  have "w' = [] \<and> [] @ r' = [7, 8]"
    using clock_crossing_is_fifo [OF len(1) e run] r len(2) run' by blast
  then show ?thesis using run run' by auto
qed

lemma minus_one_63: "- 1 = (63 :: 6 word)"
  by simp

text \<open>
  Property C37. Four bytes through the queue leave it empty and its level at the maximum of its width: 63 at the depth of
  32, 2047 at the depth of 1024.
\<close>

theorem empty_fifo_reports_full:
  fixes s :: "'p::len word fifo"
  assumes "4 \<le> LENGTH('p)"
  shows "\<exists>es t w. (\<forall>e \<in> set es. out_of_reset e) \<and> fifo_run es (fifo_reset s) = (t, w, w) \<and> length w = 4
    \<and> \<not> read_valid t \<and> write_level t = - 1"
proof -
  have len: "2 \<le> LENGTH('p)" using assms by simp
  have "(2 :: nat) ^ 3 \<le> 2 ^ (LENGTH('p) - 1)" using assms by (intro power_increasing) auto
  then have "length ([] :: bytes) + length [0, 0, 0, 0 :: u8] < 2 ^ (LENGTH('p) - 1)" by simp
  then obtain t1 a1 a2 b1 where run1: "fifo_run (map write_edge [0, 0, 0, 0]) (fifo_reset s) = (t1, [0, 0, 0, 0], [])"
    and inv1: "fifo_inv t1 [0, 0, 0, 0] [] a1 a2 b1 0"
    using fifo_fills [OF fifo_inv_reset len] by fastforce
  obtain t2 w2 r2 where run2: "fifo_run (replicate 6 idle_edges) t1 = (t2, w2, r2)" using prod_cases3 by blast
  have "\<forall>e \<in> set (replicate 6 idle_edges). reading e" by (simp add: reading_def idle_edges_def read_edge_def)
  from fifo_drains [OF inv1 len this _ run2] have w2: "w2 = []" "r2 = [0, 0, 0, 0]" by auto
  have "\<forall>e \<in> set (replicate 6 idle_edges). out_of_reset e"
    by (simp add: out_of_reset_def idle_edges_def read_edge_def)
  from fifo_run_inv [OF inv1 len this run2] obtain c1 c2 d1 d2 where
    "fifo_inv t2 [0, 0, 0, 0] [0, 0, 0, 0] c1 c2 d1 d2" by (auto simp: w2)
  from idle_edges_settle [OF this len] obtain t3 f1 f2 where
    run3: "fifo_run [idle_edges, idle_edges] t2 = (t3, [], [])"
    and inv3: "fifo_inv t3 [0, 0, 0, 0] [0, 0, 0, 0] f1 f2 4 4" by (auto simp: numeral_eq_Suc)
  let ?es = "map write_edge [0, 0, 0, 0] @ replicate 6 idle_edges @ [idle_edges, idle_edges]"
  have "fifo_run ?es (fifo_reset s) = (t3, [0, 0, 0, 0], [0, 0, 0, 0])"
    using run1 run2 run3 by (simp only: fifo_run_append w2) simp
  moreover have "\<forall>e \<in> set ?es. out_of_reset e"
    by (simp add: out_of_reset_def idle_edges_def read_edge_def write_edge_def)
  moreover have "\<not> read_valid t3" using read_valid_iff [OF inv3 len] inv3 by (simp add: fifo_inv_def)
  moreover have "write_level t3 = - 1"
  proof -
    have "drop_bit 2 (2 ^ 2 :: 'p word) = 1"
      by (rule bit_word_eqI) (use assms in \<open>auto simp: bit_simps simp del: power2_eq_square\<close>)
    then have "drop_bit 2 (4 :: 'p word) = 1" by simp
    moreover have "(4 :: 'p word) XOR 1 = 5" by simp
    ultimately show ?thesis using write_level_value [OF inv3] by simp
  qed
  ultimately show ?thesis by (intro exI [of _ ?es] exI [of _ t3] exI [of _ "[0, 0, 0, 0]"]) simp
qed

theorem empty_fifo_reports_full_witness:
  "\<exists>es t w. (\<forall>e \<in> set es. out_of_reset e) \<and> fifo_run es (fifo_reset blank_fifo) = (t, w, w) \<and> length w = 4
    \<and> \<not> read_valid t \<and> write_level t = 63"
  using empty_fifo_reports_full [of blank_fifo] minus_one_63 by simp

section \<open>The channel around it\<close>

text \<open>
  What \<open>orbtrace_pl.v\<close> keeps beside the queue: on the trace side the overrun flag and the number of bytes dropped,
  also as a Gray code; on the system side the synchronisers of both and the high-water mark of the level.
\<close>

record 'p cdc =
  crossing :: "'p fifo"
  cdc_overrun :: bool
  cdc_drops :: u64
  cdc_drops_gray :: u64
  overrun_s1 :: bool
  overrun_s2 :: bool
  drops_gray_s1 :: u64
  drops_gray_s2 :: u64
  high_water :: u32

text \<open>The function \<open>gray_to_binary\<close>: bit 63 first, then each bit from the one above it.\<close>

definition gray_to_binary :: "u64 \<Rightarrow> u64" where
  "gray_to_binary g = foldl (\<lambda>b i. if bit b (i + 1) \<noteq> bit g i then set_bit i b else unset_bit i b)
     (if bit g 63 then set_bit 63 0 else 0) (rev [0..<63])"

definition cdc_trace_ff :: "fifo_write \<Rightarrow> 'p::len word cdc \<Rightarrow> 'p word cdc \<Rightarrow> 'p word cdc" where
  "cdc_trace_ff i s t =
     (if \<not> write_reset_n i then t\<lparr>cdc_overrun := False, cdc_drops := 0, cdc_drops_gray := 0\<rparr>
      else if write_valid i \<and> \<not> write_ready (crossing s) then
        t\<lparr>cdc_overrun := True, cdc_drops := cdc_drops s + 1, cdc_drops_gray := gray (cdc_drops s + 1)\<rparr>
      else t)"

definition cdc_aclk_ff :: "fifo_read \<Rightarrow> 'p::len word cdc \<Rightarrow> 'p word cdc \<Rightarrow> 'p word cdc" where
  "cdc_aclk_ff i s t =
     (if \<not> read_reset_n i then
        t\<lparr>overrun_s1 := False, overrun_s2 := False, drops_gray_s1 := 0, drops_gray_s2 := 0, high_water := 0\<rparr>
      else let t = t\<lparr>overrun_s1 := cdc_overrun s, overrun_s2 := overrun_s1 s,
                     drops_gray_s1 := cdc_drops_gray s, drops_gray_s2 := drops_gray_s1 s\<rparr>
        in if high_water s < ucast (write_level (crossing s)) then t\<lparr>high_water := ucast (write_level (crossing s))\<rparr> else t)"

definition cdc_clock :: "fifo_edges \<Rightarrow> 'p::len word cdc \<Rightarrow> 'p word cdc" where
  "cdc_clock e s =
     (let t = s\<lparr>crossing := fifo_clock e (crossing s)\<rparr>;
          t = (case fst e of None \<Rightarrow> t | Some i \<Rightarrow> cdc_trace_ff i s t)
      in case snd e of None \<Rightarrow> t | Some i \<Rightarrow> cdc_aclk_ff i s t)"

definition cdc_run :: "fifo_edges list \<Rightarrow> 'p::len word cdc \<Rightarrow> 'p word cdc" where
  "cdc_run es s = foldl (\<lambda>s e. cdc_clock e s) s es"

definition cdc_drops_sync :: "'p::len word cdc \<Rightarrow> u64" where
  "cdc_drops_sync s = gray_to_binary (drops_gray_s2 s)"

definition cdc_reset :: "'p::len word cdc \<Rightarrow> 'p word cdc" where
  "cdc_reset s = cdc_clock (Some \<lparr>write_reset_n = False, write_data = 0, write_valid = False\<rparr>,
     Some \<lparr>read_reset_n = False, read_ready = False\<rparr>) s"

text \<open>What the capture offers at an edge.\<close>

definition offered :: "fifo_edges \<Rightarrow> bytes" where
  "offered e = (case fst e of Some i \<Rightarrow> if write_valid i then [write_data i] else [] | None \<Rightarrow> [])"

lemma gray_to_binary_step:
  fixes w :: u64
  assumes "k \<le> 63"
  shows "\<forall>j \<in> {k..63}. bit (foldl (\<lambda>b i. if bit b (i + 1) \<noteq> bit (gray w) i then set_bit i b else unset_bit i b)
     (if bit (gray w) 63 then set_bit 63 0 else 0) (rev [k..<63]) :: u64) j = bit w j"
  using assms
proof (induction rule: inc_induct)
  case base
  have "\<not> bit w 64" using bit_imp_le_length [of w 64] by auto
  then show ?case by (auto simp: bit_gray bit_simps)
next
  case (step k)
  let ?f = "\<lambda>b i. if bit b (i + 1) \<noteq> bit (gray w) i then set_bit i b else unset_bit i b :: u64"
  let ?b = "foldl ?f (if bit (gray w) 63 then set_bit 63 0 else 0) (rev [Suc k..<63])"
  have "bit (?f ?b k) j = bit w j" if "j \<in> {k..63}" for j
  proof (cases "j = k")
    case True
    have "bit ?b (Suc k) = bit w (Suc k)" using step by simp
    then show ?thesis using True step.hyps by (auto simp: bit_gray bit_simps)
  next
    case False
    then have "bit ?b j = bit w j" using that step by simp
    then show ?thesis using False by (auto simp: bit_simps)
  qed
  then show ?case using step.hyps by (simp only: upt_conv_Cons rev.simps foldl_append foldl.simps) simp
qed

lemma gray_to_binary_gray [simp]: "gray_to_binary (gray w) = w"
proof (rule bit_word_eqI)
  fix n
  assume "n < LENGTH(64)"
  then show "bit (gray_to_binary (gray w)) n = bit w n"
    using gray_to_binary_step [of 0 w] by (simp add: gray_to_binary_def)
qed

lemma crossing_run:
  "fifo_run es (crossing s) = (t, w, r) \<Longrightarrow> crossing (cdc_run es s) = t"
proof (induction es arbitrary: s w r)
  case Nil
  then show ?case by (simp add: cdc_run_def)
next
  case (Cons e es)
  have "crossing (cdc_clock e s) = fifo_clock e (crossing s)"
    by (auto simp: cdc_clock_def cdc_trace_ff_def cdc_aclk_ff_def Let_def split: option.splits)
  then show ?case using Cons by (auto simp: cdc_run_def split: prod.splits)
qed

text \<open>The flag and the counter, with the number of bytes lost so far as ghost state.\<close>

definition cdc_inv :: "'p::len word cdc \<Rightarrow> nat \<Rightarrow> nat \<Rightarrow> nat \<Rightarrow> bool" where
  "cdc_inv s n k1 k2 \<longleftrightarrow> cdc_drops s = of_nat n \<and> cdc_drops_gray s = gray (of_nat n)
     \<and> drops_gray_s1 s = gray (of_nat k1) \<and> drops_gray_s2 s = gray (of_nat k2) \<and> k2 \<le> k1 \<and> k1 \<le> n
     \<and> (cdc_overrun s \<longleftrightarrow> 0 < n) \<and> (overrun_s2 s \<longrightarrow> 0 < n) \<and> (overrun_s1 s \<longrightarrow> 0 < n)"

lemma cdc_step:
  assumes "cdc_inv s n k1 k2" "out_of_reset e"
  shows "\<exists>k1 k2. cdc_inv (cdc_clock e s)
    (n + length (offered e) - length (fifo_written e (crossing s))) k1 k2"
    and "subseq (fifo_written e (crossing s)) (offered e)"
proof -
  let ?n = "n + length (offered e) - length (fifo_written e (crossing s))"
  let ?k1 = "if snd e = None then k1 else n" and ?k2 = "if snd e = None then k2 else k1"
  have "cdc_inv (cdc_clock e s) ?n ?k1 ?k2"
    using assms by (auto simp: cdc_inv_def cdc_clock_def cdc_trace_ff_def cdc_aclk_ff_def out_of_reset_def offered_def
      fifo_written_def Let_def add.commute split: option.splits)
  then show "\<exists>k1 k2. cdc_inv (cdc_clock e s) ?n k1 k2" by blast
  show "subseq (fifo_written e (crossing s)) (offered e)"
    using assms(2) by (auto simp: offered_def fifo_written_def split: option.splits)
qed

lemma cdc_run_inv:
  assumes "cdc_inv s n k1 k2" "\<forall>e \<in> set es. out_of_reset e" "fifo_run es (crossing s) = (t, w, r)"
  shows "subseq w (concat (map offered es))
    \<and> (\<exists>k1 k2. cdc_inv (cdc_run es s) (n + length (concat (map offered es)) - length w) k1 k2)"
  using assms
proof (induction es arbitrary: s n k1 k2 w r)
  case Nil
  then show ?case by (auto simp: cdc_run_def)
next
  case (Cons e es)
  from Cons.prems(2) have e: "out_of_reset e" and es: "\<forall>e \<in> set es. out_of_reset e" by auto
  let ?v = "fifo_written e (crossing s)"
  note step = cdc_step [OF Cons.prems(1) e]
  obtain k1' k2' where inv: "cdc_inv (cdc_clock e s) (n + length (offered e) - length ?v) k1' k2'" using step(1) by blast
  have c: "crossing (cdc_clock e s) = fifo_clock e (crossing s)"
    by (auto simp: cdc_clock_def cdc_trace_ff_def cdc_aclk_ff_def Let_def split: option.splits)
  obtain w1 r1 where run: "fifo_run es (crossing (cdc_clock e s)) = (t, w1, r1)" and w: "w = ?v @ w1"
    using Cons.prems(3) by (auto simp: c split: prod.splits)
  from Cons.IH [OF inv es run] obtain j1 j2 where sub: "subseq w1 (concat (map offered es))"
    and i: "cdc_inv (cdc_run es (cdc_clock e s))
      (n + length (offered e) - length ?v + length (concat (map offered es)) - length w1) j1 j2" by blast
  have "length ?v \<le> length (offered e)" "length w1 \<le> length (concat (map offered es))"
    using step(2) sub by (auto dest: list_emb_length)
  then have eq: "n + length (offered e) - length ?v + length (concat (map offered es)) - length w1 =
      n + length (concat (map offered (e # es))) - length w" by (simp add: w)
  have "cdc_run (e # es) s = cdc_run es (cdc_clock e s)" by (simp add: cdc_run_def)
  moreover have "subseq w (concat (map offered (e # es)))"
    using list_emb_append_mono [OF step(2) sub] by (simp add: w)
  ultimately show ?case using i unfolding eq by metis
qed

lemma cdc_inv_reset: "cdc_inv (cdc_reset s) 0 0 0" "crossing (cdc_reset s) = fifo_reset (crossing s)"
  by (simp_all add: cdc_inv_def cdc_reset_def cdc_clock_def cdc_trace_ff_def cdc_aclk_ff_def fifo_reset_def)

text \<open>
  The bytes that enter the queue are a subsequence of those the capture offers; the counter is the
  number of the others, the flag says whether there are any, and the count that the system side sees never exceeds it.
\<close>

theorem cdc_counts_losses:
  fixes s :: "'p::len word cdc"
  assumes "\<forall>e \<in> set es. out_of_reset e" "fifo_run es (fifo_reset (crossing s)) = (t, w, r)"
    and "length (concat (map offered es)) - length w < 2 ^ 64"
  shows "subseq w (concat (map offered es))
    \<and> unat (cdc_drops (cdc_run es (cdc_reset s))) = length (concat (map offered es)) - length w
    \<and> (cdc_overrun (cdc_run es (cdc_reset s)) \<longleftrightarrow> w \<noteq> concat (map offered es))
    \<and> cdc_drops_sync (cdc_run es (cdc_reset s)) \<le> cdc_drops (cdc_run es (cdc_reset s))"
proof -
  let ?o = "concat (map offered es)" and ?t = "cdc_run es (cdc_reset s)"
  obtain k1 k2 where sub: "subseq w ?o" and inv: "cdc_inv ?t (length ?o - length w) k1 k2"
    using cdc_run_inv [OF cdc_inv_reset(1) assms(1), of s] assms(2) cdc_inv_reset(2) [of s] by fastforce
  have d: "unat (cdc_drops ?t) = length ?o - length w"
    using inv assms(3) by (simp add: cdc_inv_def unat_of_nat)
  have "cdc_drops_sync ?t = of_nat k2" "k2 \<le> length ?o - length w"
    using inv by (simp_all add: cdc_inv_def cdc_drops_sync_def)
  then have "cdc_drops_sync ?t \<le> cdc_drops ?t"
    using d assms(3) by (simp add: word_le_nat_alt unat_of_nat)
  moreover have "cdc_overrun ?t \<longleftrightarrow> w \<noteq> ?o"
  proof (cases "w = ?o")
    case True
    then show ?thesis using inv by (simp add: cdc_inv_def)
  next
    case False
    then have "length w < length ?o"
      using list_emb_length [OF sub] subseq_same_length [OF sub] by linarith
    then show ?thesis using inv False by (simp add: cdc_inv_def)
  qed
  ultimately show ?thesis using sub d by blast
qed

definition blank_cdc :: "6 word cdc" where
  "blank_cdc = \<lparr>crossing = blank_fifo, cdc_overrun = False, cdc_drops = 0, cdc_drops_gray = 0, overrun_s1 = False,
     overrun_s2 = False, drops_gray_s1 = 0, drops_gray_s2 = 0, high_water = 0\<rparr>"

lemma full_fifo_refuses:
  "\<exists>t. fifo_run (map write_edge (replicate 31 0) @ [write_edge 9]) (fifo_reset blank_fifo) = (t, replicate 31 0, [])"
proof -
  have "length ([] :: bytes) + length (replicate 31 (0 :: u8)) < 2 ^ (LENGTH(6) - 1)" by simp
  then obtain t a1 a2 b1 where run: "fifo_run (map write_edge (replicate 31 0)) (fifo_reset blank_fifo) = (t, replicate 31 0, [])"
    and inv: "fifo_inv t (replicate 31 0) [] a1 a2 b1 0"
    using fifo_fills [OF fifo_inv_reset [of blank_fifo], of "replicate 31 0"] by auto
  have "\<not> write_ready t" using write_ready_iff [OF inv] by simp
  then show ?thesis
    unfolding fifo_run_append run by (simp add: fifo_written_def fifo_read_out_def write_edge_def)
qed

theorem cdc_counts_losses_witness:
  "unat (cdc_drops (cdc_run (map write_edge (replicate 31 0) @ [write_edge 9]) (cdc_reset blank_cdc))) = 1"
proof -
  let ?es = "map write_edge (replicate 31 0) @ [write_edge 9]"
  obtain t where run: "fifo_run ?es (fifo_reset (crossing blank_cdc)) = (t, replicate 31 0, [])"
    using full_fifo_refuses by (auto simp: blank_cdc_def)
  have e: "\<forall>e \<in> set ?es. out_of_reset e" by (simp add: out_of_reset_def write_edge_def)
  have "length (concat (map offered ?es)) = 32" by (simp add: offered_def write_edge_def)
  then show ?thesis using cdc_counts_losses [OF e run] by simp
qed

text \<open>At the next edge of the system clock the mark takes the wrong level.\<close>

lemma high_water_takes_level:
  assumes "out_of_reset e" "snd e \<noteq> None"
  shows "ucast (write_level (crossing s)) \<le> high_water (cdc_clock e s)"
  using assms by (auto simp: cdc_clock_def cdc_trace_ff_def cdc_aclk_ff_def out_of_reset_def Let_def split: option.splits)

end
