(* ===== verification/PackerRtl.thy ===== *)
theory PackerRtl
  imports EncoderRtl
begin

text \<open>
  The packer in front of the DMA engine, \<open>applications/orbtrace/rtl/orbtrace_axis_packer.sv\<close>: bytes into beats of
  64 bits with a mask of the lanes in use, a transfer ending after a number of frames, \<open>FRAMES_PER_TRANSFER\<close>,
  which is the parameter \<open>fpt\<close> of the definitions.
\<close>

section \<open>The registers\<close>

record packer =
  ax_buffer :: u64
  ax_keep :: u8
  ax_count :: "3 word"
  ax_frame_count :: nat
  ax_output_data :: u64
  ax_output_keep :: u8
  ax_output_valid :: bool
  ax_output_last :: bool

record packer_in =
  ai_reset_n :: bool
  ai_data :: u8
  ai_valid :: bool
  ai_last :: bool
  ai_ready :: bool

definition FRAME_COUNT_WIDTH :: "nat \<Rightarrow> nat" where
  "FRAME_COUNT_WIDTH fpt = (if fpt \<le> 1 then 1 else clog2 fpt)"

definition ax_input_ready :: "packer_in \<Rightarrow> packer \<Rightarrow> bool" where
  "ax_input_ready i s \<longleftrightarrow> \<not> ax_output_valid s \<or> ai_ready i"

text \<open>\<open>assembled_data[count * 8 +: 8] = input_data\<close>, and the mask.\<close>

definition assembled_data :: "packer_in \<Rightarrow> packer \<Rightarrow> u64" where
  "assembled_data i s =
     (ax_buffer s AND NOT (push_bit (unat (ax_count s) * 8) 0xff)) OR push_bit (unat (ax_count s) * 8) (ucast (ai_data i))"

definition assembled_keep :: "packer \<Rightarrow> u8" where
  "assembled_keep s = set_bit (unat (ax_count s)) (ax_keep s)"

definition transfer_last :: "nat \<Rightarrow> packer_in \<Rightarrow> packer \<Rightarrow> bool" where
  "transfer_last fpt i s \<longleftrightarrow> ai_last i \<and> (fpt = 1 \<or> ax_frame_count s = fpt - 1)"

section \<open>The clock edge\<close>

definition packer_reset :: "packer \<Rightarrow> packer" where
  "packer_reset s = \<lparr>ax_buffer = 0, ax_keep = 0, ax_count = 0, ax_frame_count = 0, ax_output_data = 0,
     ax_output_keep = 0, ax_output_valid = False, ax_output_last = False\<rparr>"

definition packer_clock :: "nat \<Rightarrow> packer_in \<Rightarrow> packer \<Rightarrow> packer" where
  "packer_clock fpt i s =
     (if \<not> ai_reset_n i then packer_reset s
      else let t = (if ax_output_valid s \<and> ai_ready i then s\<lparr>ax_output_valid := False\<rparr> else s)
        in if ai_valid i \<and> ax_input_ready i s then
             let t = (if transfer_last fpt i s \<or> ax_count s = 7 then
                        t\<lparr>ax_output_data := assembled_data i s, ax_output_keep := assembled_keep s,
                          ax_output_last := transfer_last fpt i s, ax_output_valid := True,
                          ax_buffer := 0, ax_keep := 0, ax_count := 0\<rparr>
                      else t\<lparr>ax_buffer := assembled_data i s, ax_keep := assembled_keep s, ax_count := ax_count s + 1\<rparr>)
             in if ai_last i then
                  (if transfer_last fpt i s then t\<lparr>ax_frame_count := 0\<rparr>
                   else t\<lparr>ax_frame_count := (ax_frame_count s + 1) mod 2 ^ FRAME_COUNT_WIDTH fpt\<rparr>)
                else t
           else t)"

text \<open>What crosses at an edge: a byte with its frame mark; a beat of data, lanes and end of transfer.\<close>

type_synonym beat = "u64 \<times> u8 \<times> bool"

definition ax_taken :: "packer_in \<Rightarrow> packer \<Rightarrow> (u8 \<times> bool) list" where
  "ax_taken i s = (if ai_valid i \<and> ax_input_ready i s then [(ai_data i, ai_last i)] else [])"

definition ax_pending :: "packer \<Rightarrow> beat list" where
  "ax_pending s = (if ax_output_valid s then [(ax_output_data s, ax_output_keep s, ax_output_last s)] else [])"

definition ax_given :: "packer_in \<Rightarrow> packer \<Rightarrow> beat list" where
  "ax_given i s = (if ai_ready i then ax_pending s else [])"

fun packer_run :: "nat \<Rightarrow> packer \<Rightarrow> packer_in list \<Rightarrow> (u8 \<times> bool) list \<times> beat list \<times> packer" where
  "packer_run fpt s [] = ([], [], s)"
| "packer_run fpt s (i # is) =
     (case packer_run fpt (packer_clock fpt i s) is of (xs, beats, s') \<Rightarrow> (ax_taken i s @ xs, ax_given i s @ beats, s'))"

text \<open>The bytes of a beat: the lanes its mask names, lane 0 first.\<close>

definition beat_bytes :: "beat \<Rightarrow> bytes" where
  "beat_bytes b = (case b of (d, k, l) \<Rightarrow> map (\<lambda>j. ucast (drop_bit (8 * j) d)) (filter (\<lambda>j. bit k j) [0..<8]))"

definition beat_last :: "beat \<Rightarrow> bool" where
  "beat_last b = snd (snd b)"

section \<open>Assembling\<close>

lemma assembled_from_le:
  assumes "ax_buffer s = from_le bs" "ax_count s = of_nat (length bs)" "length bs < 8"
  shows "assembled_data i s = from_le (bs @ [ai_data i])"
proof -
  have c: "unat (ax_count s) = length bs" using assms by (simp add: unat_of_nat)
  have ff: "bit (push_bit (length bs * 8) 0xff :: u64) n \<longleftrightarrow> length bs * 8 \<le> n \<and> n < length bs * 8 + 8 \<and> n < 64" for n
  proof -
    have "(0xff :: u64) = mask 8" by (simp add: mask_eq_exp_minus_1)
    then have "bit (push_bit (length bs * 8) 0xff :: u64) n = bit (push_bit (length bs * 8) (mask 8) :: u64) n" by simp
    then show ?thesis by (auto simp: bit_simps)
  qed
  show ?thesis
    unfolding assembled_data_def c assms(1)
  proof (rule bit_word_eqI)
    fix n
    assume n: "n < LENGTH(64)"
    consider "n div 8 < length bs" | "n div 8 = length bs" | "length bs < n div 8" by linarith
    then show "bit (from_le bs AND NOT (push_bit (length bs * 8) 0xff) OR push_bit (length bs * 8) (ucast (ai_data i)) :: u64) n
        = bit (from_le (bs @ [ai_data i]) :: u64) n"
    proof cases
      case 1
      then have "n < length bs * 8" by linarith
      with 1 n show ?thesis by (simp add: bit_or_iff bit_and_iff bit_not_iff ff bit_from_le nth_append bit_push_bit_iff)
    next
      case 2
      then have m: "n - length bs * 8 = n mod 8" by (metis minus_div_mult_eq_mod)
      have "length bs * 8 \<le> n" "n < length bs * 8 + 8" using 2 by linarith+
      moreover have "n mod 8 < 64" by (rule less_trans [of _ 8]) simp_all
      ultimately show ?thesis using 2 m n
        by (simp add: bit_or_iff bit_and_iff bit_not_iff ff bit_from_le nth_append bit_push_bit_iff bit_ucast_iff)
    next
      case 3
      then have "length bs * 8 + 8 \<le> n" by linarith
      with 3 n show ?thesis
        by (auto simp: bit_or_iff bit_and_iff bit_not_iff ff bit_from_le nth_append bit_push_bit_iff bit_ucast_iff
            dest: bit_imp_le_length)
    qed
  qed
qed

lemma assembled_keep_mask:
  assumes "ax_keep s = mask n" "ax_count s = of_nat n" "n < 8"
  shows "assembled_keep s = mask (Suc n)"
proof -
  have "unat (ax_count s) = n" using assms by (simp add: unat_of_nat)
  then show ?thesis
    unfolding assembled_keep_def assms(1) by (intro bit_word_eqI) (auto simp: bit_simps)
qed

lemma beat_bytes_from_le:
  assumes "length bs \<le> 8"
  shows "beat_bytes (from_le bs, mask (length bs), l) = bs"
proof -
  have "[0..<8] = [0..<length bs] @ [length bs..<8]"
    using assms upt_add_eq_append [of 0 "length bs" "8 - length bs"] by simp
  moreover have "filter (\<lambda>j. bit (mask (length bs) :: u8) j) [0..<length bs] = [0..<length bs]"
    "filter (\<lambda>j. bit (mask (length bs) :: u8) j) [length bs..<8] = []"
    using assms by (auto simp: bit_simps filter_id_conv filter_empty_conv)
  ultimately have "filter (\<lambda>j. bit (mask (length bs) :: u8) j) [0..<8] = [0..<length bs]"
    by (simp only: filter_append append_Nil2)
  then have "beat_bytes (from_le bs, mask (length bs), l) = to_le (length bs) (from_le bs :: u64)"
    by (simp only: beat_bytes_def to_le_def prod.case)
  with assms show ?thesis by simp
qed

section \<open>The invariant\<close>

text \<open>
  Ghost state: the bytes taken with their frame marks, \<open>xs\<close>, the beats that left or wait in the output register,
  \<open>bts\<close>, and the bytes in the buffer, \<open>part\<close>.
\<close>

abbreviation frames :: "(u8 \<times> bool) list \<Rightarrow> nat" where
  "frames xs \<equiv> length (filter snd xs)"

abbreviation transfers :: "beat list \<Rightarrow> nat" where
  "transfers bts \<equiv> length (filter beat_last bts)"

abbreviation beats_bytes :: "beat list \<Rightarrow> bytes" where
  "beats_bytes bts \<equiv> concat (map beat_bytes bts)"

text \<open>A beat that ends a transfer ends with the last byte of the frame that completes it.\<close>

definition ends_frames :: "nat \<Rightarrow> (u8 \<times> bool) list \<Rightarrow> nat \<Rightarrow> nat \<Rightarrow> bool" where
  "ends_frames fpt xs n k \<longleftrightarrow> 0 < n \<and> n \<le> length xs \<and> snd (xs ! (n - 1)) \<and> frames (take n xs) = fpt * k"

definition cut_at_frames :: "nat \<Rightarrow> (u8 \<times> bool) list \<Rightarrow> beat list \<Rightarrow> bool" where
  "cut_at_frames fpt xs bts \<longleftrightarrow>
     (\<forall>k < length bts. if beat_last (bts ! k) then
        ends_frames fpt xs (length (beats_bytes (take (Suc k) bts))) (transfers (take (Suc k) bts))
      else length (beat_bytes (bts ! k)) = 8)"

definition packer_inv :: "nat \<Rightarrow> packer \<Rightarrow> (u8 \<times> bool) list \<Rightarrow> beat list \<Rightarrow> bytes \<Rightarrow> bool" where
  "packer_inv fpt s xs bts part \<longleftrightarrow>
     ax_buffer s = from_le part \<and> ax_keep s = mask (length part) \<and> ax_count s = of_nat (length part) \<and> length part < 8
     \<and> map fst xs = beats_bytes bts @ part
     \<and> ax_frame_count s = frames xs mod fpt \<and> transfers bts = frames xs div fpt
     \<and> cut_at_frames fpt xs bts
     \<and> (xs \<noteq> [] \<longrightarrow> snd (last xs) \<longrightarrow> frames xs mod fpt = 0 \<longrightarrow> part = [])"

lemma cut_at_frames_byte:
  assumes "cut_at_frames fpt xs bts"
  shows "cut_at_frames fpt (xs @ [x]) bts"
proof -
  have "ends_frames fpt (xs @ [x]) n k" if "ends_frames fpt xs n k" for n k
    using that by (auto simp: ends_frames_def nth_append)
  then show ?thesis using assms by (auto simp: cut_at_frames_def)
qed

lemma cut_at_frames_beat:
  assumes "cut_at_frames fpt xs bts"
    and "if beat_last b then ends_frames fpt xs (length (beats_bytes (bts @ [b]))) (transfers (bts @ [b]))
      else length (beat_bytes b) = 8"
  shows "cut_at_frames fpt xs (bts @ [b])"
  using assms unfolding cut_at_frames_def by (auto simp: nth_append less_Suc_eq split: if_splits)

text \<open>Taking one byte: the buffer grows, or a beat is full, or a transfer ends.\<close>

lemma frame_count_fits:
  assumes "0 < fpt" "n < fpt"
  shows "n < 2 ^ FRAME_COUNT_WIDTH fpt"
  using assms clog2_bound [of fpt] by (auto simp: FRAME_COUNT_WIDTH_def)

definition next_beat :: "nat \<Rightarrow> packer_in \<Rightarrow> packer \<Rightarrow> beat list" where
  "next_beat fpt i s = (if ax_taken i s \<noteq> [] \<and> (transfer_last fpt i s \<or> ax_count s = 7)
     then [(assembled_data i s, assembled_keep s, transfer_last fpt i s)] else [])"

lemma transfer_last_iff:
  assumes "packer_inv fpt s xs bts part" "0 < fpt"
  shows "transfer_last fpt i s \<longleftrightarrow> ai_last i \<and> Suc (frames xs) mod fpt = 0"
proof -
  have f: "ax_frame_count s = frames xs mod fpt" using assms(1) by (simp add: packer_inv_def)
  have "frames xs mod fpt = fpt - 1 \<longleftrightarrow> Suc (frames xs) mod fpt = 0"
    using assms(2) by (auto simp: mod_Suc split: if_splits)
  then show ?thesis using f by (cases "fpt = 1") (auto simp: transfer_last_def)
qed

lemma beats_move:
  assumes "ai_reset_n i"
  shows "ax_given i s @ ax_pending (packer_clock fpt i s) = ax_pending s @ next_beat fpt i s"
  using assms
  by (auto simp: ax_given_def ax_pending_def packer_clock_def next_beat_def ax_taken_def ax_input_ready_def Let_def)

lemma frames_snoc: "frames (xs @ [x]) = frames xs + (if snd x then 1 else 0)"
  by simp

lemma packer_step:
  assumes inv: "packer_inv fpt s xs bts part" and fpt: "0 < fpt" and rs: "ai_reset_n i"
  shows "\<exists>part'. packer_inv fpt (packer_clock fpt i s) (xs @ ax_taken i s) (bts @ next_beat fpt i s) part'"
proof (cases "ax_taken i s = []")
  case True
  then have "next_beat fpt i s = []" "\<not> (ai_valid i \<and> ax_input_ready i s)"
    by (auto simp: next_beat_def ax_taken_def split: if_splits)
  then show ?thesis
    using inv rs True by (intro exI [of _ part]) (auto simp: packer_inv_def packer_clock_def Let_def)
next
  case False
  then have taken: "ax_taken i s = [(ai_data i, ai_last i)]" and acc: "ai_valid i" "ax_input_ready i s"
    by (auto simp: ax_taken_def split: if_splits)
  from inv have o: "ax_buffer s = from_le part" "ax_keep s = mask (length part)" "ax_count s = of_nat (length part)"
      "length part < 8" "map fst xs = beats_bytes bts @ part" "ax_frame_count s = frames xs mod fpt"
      "transfers bts = frames xs div fpt" "cut_at_frames fpt xs bts"
    by (auto simp: packer_inv_def)
  let ?x = "(ai_data i, ai_last i)" and ?part = "part @ [ai_data i]"
  have d: "assembled_data i s = from_le ?part" by (rule assembled_from_le [OF o(1,3,4)])
  have k: "assembled_keep s = mask (length ?part)" using assembled_keep_mask [OF o(2,3,4)] by simp
  have seven: "ax_count s = 7 \<longleftrightarrow> length part = 7"
  proof -
    have "unat (ax_count s) = length part" using o(3,4) by (simp add: unat_of_nat)
    moreover have "ax_count s = 7 \<longleftrightarrow> unat (ax_count s) = 7" by (simp add: word_unat_eq_iff)
    ultimately show ?thesis by simp
  qed
  note tl = transfer_last_iff [OF inv fpt, of i]
  have fc: "ax_frame_count (packer_clock fpt i s) = frames (xs @ [?x]) mod fpt"
  proof (cases "ai_last i")
    case True
    show ?thesis
    proof (cases "transfer_last fpt i s")
      case l: True
      then show ?thesis using True rs acc tl by (simp add: packer_clock_def Let_def)
    next
      case l: False
      then have "Suc (frames xs) mod fpt \<noteq> 0" using True tl by simp
      then have "Suc (frames xs mod fpt) < fpt" "Suc (frames xs) mod fpt = Suc (frames xs mod fpt)"
        using mod_less_divisor [OF fpt, of "frames xs"] by (auto simp: mod_Suc split: if_splits)
      moreover have "Suc (frames xs mod fpt) mod 2 ^ FRAME_COUNT_WIDTH fpt = Suc (frames xs mod fpt)"
        by (rule mod_less) (rule frame_count_fits [OF fpt calculation(1)])
      ultimately show ?thesis using True l rs acc o(6) by (simp add: packer_clock_def Let_def)
    qed
  next
    case False
    then show ?thesis using rs acc o(6) by (auto simp: packer_clock_def Let_def)
  qed
  have bytes: "map fst (xs @ [?x]) = beats_bytes bts @ ?part" using o(5) by simp
  show ?thesis
  proof (cases "transfer_last fpt i s \<or> ax_count s = 7")
    case True
    let ?b = "(from_le ?part :: u64, mask (length ?part) :: u8, transfer_last fpt i s)"
    have nb: "next_beat fpt i s = [?b]" using True False d k by (simp add: next_beat_def)
    have bb: "beat_bytes ?b = ?part" by (rule beat_bytes_from_le) (use o(4) in simp)
    have div: "frames (xs @ [?x]) div fpt = frames xs div fpt + (if transfer_last fpt i s then 1 else 0)"
      using tl fpt by (auto simp: div_Suc)
    have tr: "transfers (bts @ [?b]) = frames (xs @ [?x]) div fpt"
      unfolding div using o(7) by (simp add: beat_last_def)
    have cut: "cut_at_frames fpt (xs @ [?x]) (bts @ [?b])"
    proof (rule cut_at_frames_beat [OF cut_at_frames_byte [OF o(8)]])
      show "if beat_last ?b then ends_frames fpt (xs @ [?x]) (length (beats_bytes (bts @ [?b]))) (transfers (bts @ [?b]))
        else length (beat_bytes ?b) = 8"
      proof (cases "transfer_last fpt i s")
        case True
        have n: "length (beats_bytes (bts @ [?b])) = length (xs @ [?x])"
          using arg_cong [OF bytes, of length] bb by simp
        have "frames (xs @ [?x]) = fpt * (frames (xs @ [?x]) div fpt)" using True tl by (simp add: dvd_eq_mod_eq_0 [symmetric])
        then show ?thesis unfolding ends_frames_def n tr using True tl by (simp add: beat_last_def nth_append)
      next
        case False
        then show ?thesis using True seven bb by (simp add: beat_last_def)
      qed
    qed
    have "packer_inv fpt (packer_clock fpt i s) (xs @ [?x]) (bts @ [?b]) []"
      unfolding packer_inv_def fc tr
      using True rs acc cut bytes bb by (simp add: packer_clock_def Let_def)
    then show ?thesis unfolding taken nb by blast
  next
    case False
    then have nb: "next_beat fpt i s = []" by (simp add: next_beat_def)
    have "transfers bts = frames (xs @ [?x]) div fpt" using False tl fpt o(7) by (auto simp: div_Suc)
    moreover have "\<not> (ai_last i \<and> frames (xs @ [?x]) mod fpt = 0)" using False tl by auto
    moreover have "length ?part < 8" using False seven o(4) by simp
    ultimately have "packer_inv fpt (packer_clock fpt i s) (xs @ [?x]) bts ?part"
      unfolding packer_inv_def fc
      using False rs acc o d k bytes cut_at_frames_byte [OF o(8)] by (simp add: packer_clock_def Let_def)
    then show ?thesis unfolding taken nb by auto
  qed
qed

section \<open>Runs\<close>

lemma packer_run_inv:
  assumes "packer_inv fpt s xs (sent @ ax_pending s) part" "0 < fpt" "\<forall>i \<in> set is. ai_reset_n i"
    "packer_run fpt s is = (ys, bts, s')"
  shows "\<exists>part'. packer_inv fpt s' (xs @ ys) (sent @ bts @ ax_pending s') part'"
  using assms
proof (induction "is" arbitrary: s xs sent part ys bts)
  case Nil
  then show ?case by auto
next
  case (Cons i "is")
  from Cons.prems(3) have i: "ai_reset_n i" and "is": "\<forall>i \<in> set is. ai_reset_n i" by auto
  obtain ys1 bts1 where run: "packer_run fpt (packer_clock fpt i s) is = (ys1, bts1, s')"
    and ys: "ys = ax_taken i s @ ys1" and bts: "bts = ax_given i s @ bts1"
    using Cons.prems(4) by (auto split: prod.splits)
  obtain part1 where "packer_inv fpt (packer_clock fpt i s) (xs @ ax_taken i s)
      ((sent @ ax_given i s) @ ax_pending (packer_clock fpt i s)) part1"
    using packer_step [OF Cons.prems(1,2) i] beats_move [OF i, of s fpt] by auto
  from Cons.IH [OF this Cons.prems(2) "is" run] show ?case by (simp add: ys bts)
qed

lemma packer_inv_reset: "packer_inv fpt (packer_reset s) [] (ax_pending (packer_reset s)) []"
  by (simp add: packer_inv_def packer_reset_def ax_pending_def cut_at_frames_def)

lemma packer_run_spec:
  assumes "0 < fpt" "\<forall>i \<in> set is. ai_reset_n i" "packer_run fpt (packer_reset s0) is = (xs, bts, s)"
  shows "\<exists>part. length part < 8 \<and> map fst xs = beats_bytes (bts @ ax_pending s) @ part
    \<and> transfers (bts @ ax_pending s) = frames xs div fpt \<and> cut_at_frames fpt xs (bts @ ax_pending s)
    \<and> (xs \<noteq> [] \<longrightarrow> snd (last xs) \<longrightarrow> frames xs mod fpt = 0 \<longrightarrow> part = [])"
proof -
  have "packer_inv fpt (packer_reset s0) [] ([] @ ax_pending (packer_reset s0)) []"
    using packer_inv_reset by simp
  from packer_run_inv [OF this assms] obtain part where
    "packer_inv fpt s xs (bts @ ax_pending s) part" unfolding append_Nil by blast
  then show ?thesis unfolding packer_inv_def by (intro exI [of _ part]) simp
qed

text \<open>
  Property C14. Whatever the stalls on both sides, the lanes in use of the beats are the bytes taken, in order and none
  twice, but for at most seven that wait for more; a beat that does not end a transfer is full; and a transfer ends
  with the last byte of every \<open>fpt\<close>-th frame and nowhere else, with nothing left behind.
\<close>

theorem packer_lossless:
  assumes "0 < fpt" "\<forall>i \<in> set is. ai_reset_n i" "packer_run fpt (packer_reset s0) is = (xs, bts, s)"
  shows "\<exists>part. length part < 8 \<and> map fst xs = beats_bytes (bts @ ax_pending s) @ part
    \<and> transfers (bts @ ax_pending s) = frames xs div fpt \<and> cut_at_frames fpt xs (bts @ ax_pending s)
    \<and> (xs \<noteq> [] \<longrightarrow> snd (last xs) \<longrightarrow> frames xs mod fpt = 0 \<longrightarrow> part = [])"
  using assms by (rule packer_run_spec)

definition pack_edge :: "u8 \<Rightarrow> bool \<Rightarrow> packer_in" where
  "pack_edge b l = \<lparr>ai_reset_n = True, ai_data = b, ai_valid = True, ai_last = l, ai_ready = True\<rparr>"

definition blank_packer :: packer where
  "blank_packer = \<lparr>ax_buffer = 0, ax_keep = 0, ax_count = 0, ax_frame_count = 0, ax_output_data = 0,
     ax_output_keep = 0, ax_output_valid = False, ax_output_last = False\<rparr>"

definition two_frames :: "packer_in list" where
  "two_frames = [pack_edge 1 False, pack_edge 2 True, pack_edge 3 True]"

lemma two_frames_taken:
  "fst (packer_run 2 (packer_reset blank_packer) two_frames) = [(1, False), (2, True), (3, True)]"
  by (simp add: two_frames_def pack_edge_def packer_reset_def packer_clock_def ax_taken_def ax_input_ready_def Let_def)

theorem packer_lossless_witness:
  "\<exists>bts s part. packer_run 2 (packer_reset blank_packer) two_frames = ([(1, False), (2, True), (3, True)], bts, s)
    \<and> [1, 2, 3] = beats_bytes (bts @ ax_pending s) @ part \<and> transfers (bts @ ax_pending s) = 1 \<and> part = []"
proof -
  obtain bts s where run: "packer_run 2 (packer_reset blank_packer) two_frames = ([(1, False), (2, True), (3, True)], bts, s)"
    using two_frames_taken by (metis prod.exhaust_sel)
  have "\<forall>i \<in> set two_frames. ai_reset_n i" by (simp add: two_frames_def pack_edge_def)
  from packer_lossless [OF _ this run] run show ?thesis by auto
qed

end
