(* ===== verification/SerialRtl.thy ===== *)
theory SerialRtl
  imports Prelude
begin

text \<open>
  The serial receiver of the capture front end: \<open>applications/orbtrace/rtl/orbtrace_baud_tick.sv\<close>, which divides the
  clock down to four ticks a bit, and \<open>orbtrace_swo_nrz.sv\<close>, which samples the line at them; both on one clock, as
  \<open>orbtrace_pl.v\<close> wires them.
\<close>

section \<open>The divider\<close>

record baud_tick =
  accumulator :: u64
  tick :: bool

definition next_accumulator :: "u32 \<Rightarrow> baud_tick \<Rightarrow> u64" where
  "next_accumulator baud s = accumulator s + push_bit 2 (ucast baud)"

definition baud_clock :: "u64 \<Rightarrow> bool \<Rightarrow> u32 \<Rightarrow> baud_tick \<Rightarrow> baud_tick" where
  "baud_clock CLOCK_HZ reset_n baud s =
     (if \<not> reset_n then \<lparr>accumulator = 0, tick = False\<rparr>
      else if baud = 0 then \<lparr>accumulator = 0, tick = False\<rparr>
      else if CLOCK_HZ \<le> next_accumulator baud s then
        \<lparr>accumulator = next_accumulator baud s - CLOCK_HZ, tick = True\<rparr>
      else \<lparr>accumulator = next_accumulator baud s, tick = False\<rparr>)"

text \<open>The divider after \<open>n\<close> clocks, and the number of ticks it gave in them.\<close>

primrec baud_after :: "u64 \<Rightarrow> u32 \<Rightarrow> nat \<Rightarrow> baud_tick \<Rightarrow> baud_tick" where
  "baud_after c b 0 s = s"
| "baud_after c b (Suc n) s = baud_clock c True b (baud_after c b n s)"

definition ticks :: "u64 \<Rightarrow> u32 \<Rightarrow> nat \<Rightarrow> baud_tick \<Rightarrow> nat" where
  "ticks c b n s = length (filter (\<lambda>k. tick (baud_after c b (Suc k) s)) [0..<n])"

lemma baud_clock_step:
  assumes "0 < b" "4 * unat b \<le> unat c" "accumulator s < c" "c < 2 ^ 63"
  shows "unat (accumulator (baud_clock c True b s)) = (unat (accumulator s) + 4 * unat b) mod unat c"
    and "tick (baud_clock c True b s) \<longleftrightarrow> unat c \<le> unat (accumulator s) + 4 * unat b"
    and "accumulator (baud_clock c True b s) < c"
proof -
  let ?x = "unat (accumulator s) + 4 * unat b"
  have c: "unat c < 2 ^ 63" using assms(4) by (simp add: word_less_nat_alt)
  have a: "unat (accumulator s) < unat c" using assms(3) by (simp add: word_less_nat_alt)
  have x: "?x < 2 ^ 64" using a assms(2) c by simp
  have "unat (push_bit 2 (ucast b) :: u64) = 4 * unat b"
  proof -
    have "unat (push_bit 2 (ucast b) :: u64) = take_bit 64 (push_bit 2 (take_bit 64 (unat b)))"
      by (simp add: unsigned_push_bit_eq unsigned_ucast_eq)
    then show ?thesis using assms(2) c by (simp add: take_bit_nat_eq_self push_bit_eq_mult)
  qed
  then have n: "unat (next_accumulator b s) = ?x"
    using x by (simp add: next_accumulator_def unat_word_ariths)
  have ge: "c \<le> next_accumulator b s \<longleftrightarrow> unat c \<le> ?x" by (simp add: word_le_nat_alt n)
  have b: "b \<noteq> 0" using assms(1) by auto
  show "tick (baud_clock c True b s) \<longleftrightarrow> unat c \<le> ?x" by (simp add: baud_clock_def b ge)
  show m: "unat (accumulator (baud_clock c True b s)) = ?x mod unat c"
  proof (cases "unat c \<le> ?x")
    case True
    then have "?x mod unat c = ?x - unat c"
      using a assms(2) by (simp add: le_mod_geq)
    moreover have "unat (next_accumulator b s - c) = ?x - unat c"
      using True by (simp add: unat_sub ge n)
    ultimately show ?thesis using True by (simp add: baud_clock_def b ge)
  qed (simp add: baud_clock_def b ge n)
  have "0 < unat c" using a by simp
  then show "accumulator (baud_clock c True b s) < c" unfolding word_less_nat_alt m by simp
qed

lemma baud_after_spec:
  assumes "0 < b" "4 * unat b \<le> unat c" "accumulator s < c" "c < 2 ^ 63"
  shows "unat (accumulator (baud_after c b n s)) = (unat (accumulator s) + 4 * unat b * n) mod unat c
    \<and> accumulator (baud_after c b n s) < c"
proof (induction n)
  case 0
  then show ?case using assms(3) by (simp add: word_less_nat_alt)
next
  case (Suc n)
  then show ?case using baud_clock_step [OF assms(1,2) conjunct2 [OF Suc] assms(4)]
    by (simp add: mod_simps algebra_simps)
qed

text \<open>A tick is where the quotient of the accumulated phase steps.\<close>

lemma div_step:
  fixes x d c :: nat
  assumes "0 < c" "d \<le> c"
  shows "(x + d) div c = x div c + (if c \<le> x mod c + d then 1 else 0)"
proof -
  have "x + d = (x mod c + d) + x div c * c" by (simp add: algebra_simps)
  then have "(x + d) div c = x div c + (x mod c + d) div c" using assms(1) by (metis div_mult_self1 less_numeral_extra(3))
  moreover have "(x mod c + d) div c = (if c \<le> x mod c + d then 1 else 0)"
  proof (cases "c \<le> x mod c + d")
    case True
    moreover have "x mod c + d < 2 * c" using mod_less_divisor [OF assms(1), of x] assms(2) by linarith
    ultimately have "(x mod c + d) div c = 1" by (intro div_nat_eqI) simp_all
    with True show ?thesis by simp
  qed simp
  ultimately show ?thesis by simp
qed

lemma tick_after:
  assumes "0 < b" "4 * unat b \<le> unat c" "accumulator s < c" "c < 2 ^ 63"
  shows "(unat (accumulator s) + 4 * unat b * Suc n) div unat c = (unat (accumulator s) + 4 * unat b * n) div unat c
    + (if tick (baud_after c b (Suc n) s) then 1 else 0)"
proof -
  have "0 < unat c" using assms(3) by (simp add: word_less_nat_alt)
  have "tick (baud_after c b (Suc n) s) \<longleftrightarrow> unat c \<le> (unat (accumulator s) + 4 * unat b * n) mod unat c + 4 * unat b"
    using baud_clock_step(2) [OF assms(1,2) conjunct2 [OF baud_after_spec [OF assms]] assms(4), of n]
      baud_after_spec [OF assms, of n] by simp
  then show ?thesis
    using div_step [OF \<open>0 < unat c\<close> assms(2), of "unat (accumulator s) + 4 * unat b * n"] by (simp add: algebra_simps)
qed

text \<open>
  Property C39. At any rate up to a quarter of the clock, the ticks of the first \<open>n\<close> clocks are the whole part of four
  times the rate over the clock, from the phase at the start: the sampling never drifts by more than one clock.
\<close>

theorem baud_ticks_exact:
  assumes "0 < b" "4 * unat b \<le> unat c" "accumulator s < c" "c < 2 ^ 63"
  shows "ticks c b n s = (unat (accumulator s) + 4 * unat b * n) div unat c"
proof (induction n)
  case 0
  then show ?case using assms(3) by (simp add: ticks_def word_less_nat_alt)
next
  case (Suc n)
  then show ?case using tick_after [OF assms, of n] by (simp add: ticks_def)
qed

theorem baud_ticks_exact_witness:
  "ticks 100000000 115200 1000000 \<lparr>accumulator = 5, tick = False\<rparr> = 4608"
  using baud_ticks_exact [of 115200 100000000 "\<lparr>accumulator = 5, tick = False\<rparr>" 1000000] by simp

section \<open>The receiver\<close>

record nrz =
  swo_m :: bool
  swo_s :: bool
  quarter :: nat
  bit_index :: nat
  shift :: u8
  active :: bool
  output_data :: u8
  output_valid :: bool
  malformed_count :: u64

record nrz_in =
  nrz_reset_n :: bool
  swo :: bool
  sample_tick :: bool
  output_ready :: bool

text \<open>\<open>shift[i] <= v\<close>.\<close>

definition assign_bit :: "nat \<Rightarrow> bool \<Rightarrow> u8 \<Rightarrow> u8" where
  "assign_bit i v w = (if v then set_bit i w else unset_bit i w)"

text \<open>At the sampling phase of a bit: the start bit must still be low, the stop bit high.\<close>

definition nrz_sample :: "nrz \<Rightarrow> nrz \<Rightarrow> nrz" where
  "nrz_sample s t =
     (if bit_index s = 0 \<and> swo_s s then t\<lparr>active := False, malformed_count := malformed_count s + 1\<rparr>
      else if 1 \<le> bit_index s \<and> bit_index s \<le> 8 then t\<lparr>shift := assign_bit (bit_index s - 1) (swo_s s) (shift t)\<rparr>
      else if bit_index s = 9 then
        let t = t\<lparr>active := False\<rparr>
        in if swo_s s then t\<lparr>output_data := shift s, output_valid := True\<rparr>
           else t\<lparr>malformed_count := malformed_count s + 1\<rparr>
      else t)"

definition nrz_clock :: "nrz_in \<Rightarrow> nrz \<Rightarrow> nrz" where
  "nrz_clock i s =
     (let t = s\<lparr>swo_m := swo i, swo_s := swo_m s\<rparr>
      in if \<not> nrz_reset_n i then
           t\<lparr>quarter := 0, bit_index := 0, shift := 0, active := False, output_valid := False, malformed_count := 0\<rparr>
         else let t = (if output_valid s \<and> output_ready i then t\<lparr>output_valid := False\<rparr> else t)
           in if \<not> active s \<and> \<not> swo_s s \<and> \<not> output_valid s then t\<lparr>active := True, bit_index := 0, quarter := 0\<rparr>
              else if active s \<and> sample_tick i then
                let t = (if quarter s = 1 then nrz_sample s t else t)
                in if quarter s = 3 then t\<lparr>quarter := 0, bit_index := (bit_index s + 1) mod 16\<rparr>
                   else t\<lparr>quarter := quarter s + 1\<rparr>
              else t)"

text \<open>The bit of a byte's frame on the line: a start bit, eight data bits, then the line rests high.\<close>

definition frame_bit :: "u8 \<Rightarrow> nat \<Rightarrow> bool" where
  "frame_bit b i = (if i = 0 then False else if i \<le> 8 then bit b (i - 1) else True)"

text \<open>\<open>k\<close> ticks into a frame: the samples taken so far are in place.\<close>

definition nrz_receiving :: "u8 \<Rightarrow> u64 \<Rightarrow> nat \<Rightarrow> nrz \<Rightarrow> bool" where
  "nrz_receiving b m0 k s \<longleftrightarrow> active s \<and> \<not> output_valid s \<and> malformed_count s = m0
     \<and> bit_index s = k div 4 \<and> quarter s = k mod 4
     \<and> (\<forall>i \<in> {1..8}. 4 * i + 1 < k \<longrightarrow> bit (shift s) (i - 1) = bit b (i - 1))"

lemma nrz_sync:
  "nrz_reset_n i \<Longrightarrow> swo_m (nrz_clock i s) = swo i \<and> swo_s (nrz_clock i s) = swo_m s"
  by (simp add: nrz_clock_def nrz_sample_def Let_def)

lemma nrz_receiving_wait:
  assumes "nrz_receiving b m0 k s" "nrz_reset_n i" "\<not> sample_tick i"
  shows "nrz_receiving b m0 k (nrz_clock i s)"
  using assms by (simp add: nrz_receiving_def nrz_clock_def Let_def)

lemma bit_assign_bit: "j < 8 \<Longrightarrow> bit (assign_bit i v w) j = (if i = j then v else bit w j)"
  by (auto simp: assign_bit_def bit_simps)

lemma nrz_receiving_tick:
  assumes r: "nrz_receiving b m0 k s" and i: "nrz_reset_n i" "sample_tick i" and k: "k < 37"
    and sample: "k mod 4 = 1 \<longrightarrow> swo_s s = frame_bit b (k div 4)"
  shows "nrz_receiving b m0 (Suc k) (nrz_clock i s)"
proof -
  have idx: "bit_index s < 10" using r k by (simp add: nrz_receiving_def)
  have q: "Suc k div 4 = (if k mod 4 = 3 then Suc (k div 4) else k div 4)"
    "Suc k mod 4 = (if k mod 4 = 3 then 0 else Suc (k mod 4))" by (auto simp: div_Suc mod_Suc)
  have eight: "k mod 4 = 1 \<Longrightarrow> k div 4 \<le> 8" using k by presburger
  have sh: "shift (nrz_clock i s) = (if k mod 4 = 1 \<and> 1 \<le> k div 4 then assign_bit (k div 4 - 1) (bit b (k div 4 - 1)) (shift s)
      else shift s)"
  proof -
    show ?thesis using r i sample eight by (auto simp: nrz_receiving_def nrz_clock_def nrz_sample_def frame_bit_def Let_def)
  qed
  have "bit (shift (nrz_clock i s)) (j - 1) = bit b (j - 1)" if j: "j \<in> {1..8}" "4 * j + 1 < Suc k" for j
  proof (cases "4 * j + 1 < k")
    case True
    then have old: "bit (shift s) (j - 1) = bit b (j - 1)" using r j by (simp add: nrz_receiving_def)
    moreover have "j - 1 < 8" using j(1) by auto
    ultimately show ?thesis unfolding sh by (cases "k div 4 - 1 = j - 1") (simp_all add: bit_assign_bit)
  next
    case False
    then have "k = 4 * j + 1" using j(2) by simp
    then have "k mod 4 = 1" "k div 4 = j" by simp_all
    moreover have "j - 1 < 8" using j(1) by auto
    ultimately show ?thesis unfolding sh using j(1) by (simp add: bit_assign_bit)
  qed
  then show ?thesis
    using r i sample idx k q eight unfolding nrz_receiving_def
    by (auto simp: nrz_clock_def nrz_sample_def frame_bit_def Let_def)
qed

lemma nrz_receiving_last:
  assumes "nrz_receiving b m0 37 s" "nrz_reset_n i" "sample_tick i" "swo_s s"
  shows "\<not> active (nrz_clock i s)" "output_valid (nrz_clock i s)" "output_data (nrz_clock i s) = b"
    "malformed_count (nrz_clock i s) = m0"
proof -
  have "shift s = b"
  proof (rule bit_word_eqI)
    fix n
    assume "n < LENGTH(8)"
    then show "bit (shift s) n = bit b n"
      using assms(1) by (auto simp: nrz_receiving_def dest!: bspec [of _ _ "Suc n"])
  qed
  then show "\<not> active (nrz_clock i s)" "output_valid (nrz_clock i s)" "output_data (nrz_clock i s) = b"
    "malformed_count (nrz_clock i s) = m0"
    using assms by (simp_all add: nrz_receiving_def nrz_clock_def nrz_sample_def Let_def)
qed

section \<open>Both on one clock\<close>

record serial =
  sr_baud :: baud_tick
  sr_nrz :: nrz

definition serial_clock :: "u64 \<Rightarrow> u32 \<Rightarrow> bool \<Rightarrow> serial \<Rightarrow> serial" where
  "serial_clock c b line s =
     \<lparr>sr_baud = baud_clock c True b (sr_baud s),
      sr_nrz = nrz_clock \<lparr>nrz_reset_n = True, swo = line, sample_tick = tick (sr_baud s), output_ready = True\<rparr> (sr_nrz s)\<rparr>"

primrec serial_after :: "u64 \<Rightarrow> u32 \<Rightarrow> (nat \<Rightarrow> bool) \<Rightarrow> serial \<Rightarrow> nat \<Rightarrow> serial" where
  "serial_after c b line s 0 = s"
| "serial_after c b line s (Suc n) = serial_clock c b (line n) (serial_after c b line s n)"

text \<open>The bytes taken in the first \<open>n\<close> clocks.\<close>

primrec serial_out :: "u64 \<Rightarrow> u32 \<Rightarrow> (nat \<Rightarrow> bool) \<Rightarrow> serial \<Rightarrow> nat \<Rightarrow> bytes" where
  "serial_out c b line s 0 = []"
| "serial_out c b line s (Suc n) = serial_out c b line s n
     @ (if output_valid (sr_nrz (serial_after c b line s n)) then [output_data (sr_nrz (serial_after c b line s n))] else [])"

text \<open>
  The line of a sender at rate \<open>r\<close> that starts the frames of \<open>ds\<close> back to back a fraction \<open>e\<close> of a clock before the
  first one.
\<close>

definition sender :: "nat \<Rightarrow> nat \<Rightarrow> nat \<Rightarrow> bytes \<Rightarrow> nat \<Rightarrow> bool" where
  "sender c r e ds t =
     (let k = (t * r + e) div c in if k div 10 < length ds then frame_bit (ds ! (k div 10)) (k mod 10) else True)"

text \<open>
  How far the rate \<open>r\<close> of the sender may be from the rate \<open>b\<close> of the receiver: at equal rates it is enough
  that the rate is a tenth of the clock.
\<close>

definition rates_fit :: "nat \<Rightarrow> nat \<Rightarrow> nat \<Rightarrow> bool" where
  "rates_fit c b r \<longleftrightarrow> 0 < b \<and> 4 * b \<le> c \<and> 36 * b \<le> 37 * r \<and> r * (2 * c + 8 * b) \<le> 4 * b * c
     \<and> r * (38 * c + 20 * b) \<le> 40 * b * c"

lemma rates_fit_equal: "0 < b \<Longrightarrow> 10 * b \<le> c \<Longrightarrow> rates_fit c b b"
proof -
  assume b: "0 < b" "10 * b \<le> c"
  then have "b * (10 * b) \<le> b * c" by (intro mult_left_mono) auto
  then show "rates_fit c b b" using b by (simp add: rates_fit_def algebra_simps)
qed

lemma rates_fit_le:
  assumes "rates_fit c b r"
  shows "r \<le> c"
proof -
  have f: "r * (2 * c + 8 * b) \<le> 4 * b * c" "4 * b \<le> c" "0 < c" using assms by (auto simp: rates_fit_def)
  have "r * (2 * c) \<le> r * (2 * c + 8 * b)" by simp
  also note f(1)
  also have "4 * b * c \<le> c * c" using f(2) by (rule mult_le_mono1)
  finally show ?thesis using f(3) by simp
qed

text \<open>The quarter of a bit at which tick \<open>4 i + 1\<close> samples lies in bit \<open>i\<close> of the sender.\<close>

lemma sample_in_bit:
  assumes fit: "rates_fit c b r" and e: "e < r" and i: "i \<le> 9"
    and lo: "(4 * i + 1) * c < 4 * b * n" and hi: "4 * b * n < (4 * i + 2) * c + 4 * b"
  shows "(n * r + e) div c = i"
proof -
  have f: "0 < b" "36 * b \<le> 37 * r" "r * (2 * c + 8 * b) \<le> 4 * b * c" "r * (38 * c + 20 * b) \<le> 40 * b * c"
    using fit by (simp_all add: rates_fit_def)
  then have r: "0 < r" by (cases r) auto
  have "36 * i * b \<le> i * (37 * r)" using mult_left_mono [OF f(2), of i] by (simp add: algebra_simps)
  also have "\<dots> \<le> 9 * (4 * i + 1) * r"
    using mult_right_mono [of "37 * i" "9 * (4 * i + 1)" r] i by (simp add: algebra_simps)
  finally have "4 * i * b \<le> (4 * i + 1) * r" by (simp add: algebra_simps)
  then have "4 * i * b * c \<le> (4 * i + 1) * r * c" by (rule mult_right_mono) simp
  also have "\<dots> \<le> 4 * b * n * r" using mult_right_mono [OF less_imp_le [OF lo], of r] by (simp add: algebra_simps)
  finally have "4 * b * (i * c) \<le> 4 * b * (n * r)" by (simp add: algebra_simps)
  then have low: "i * c \<le> n * r" using f(1) by simp
  have "4 * b * (n * r + e) < 4 * b * (n * r + r)" using e f(1) by simp
  also have "\<dots> \<le> r * ((4 * i + 2) * c + 8 * b)"
    using mult_left_mono [OF less_imp_le [OF hi], of r] by (simp add: algebra_simps)
  also have "\<dots> \<le> 4 * b * ((i + 1) * c)"
  proof -
    obtain j where j: "i + j = 9" using i by (metis le_add_diff_inverse)
    have "9 * (r * ((4 * i + 2) * c + 8 * b)) = r * c * (36 * i + 18) + r * (8 * b) * 9" by (simp add: algebra_simps)
    also have "\<dots> = r * c * (2 * j + 38 * i) + r * (8 * b) * (i + j)"
    proof -
      have "36 * i + 18 = 2 * j + 38 * i" using j by simp
      then show ?thesis using j by simp
    qed
    also have "\<dots> = j * (r * (2 * c + 8 * b)) + i * (r * (38 * c + 8 * b))" by (simp add: algebra_simps)
    also have "\<dots> \<le> j * (4 * b * c) + i * (40 * b * c)"
      using f(3,4) by (intro add_mono mult_left_mono) (auto simp: algebra_simps)
    also have "\<dots> = b * c * (4 * j + 40 * i)" by (simp add: algebra_simps)
    also have "4 * j + 40 * i = 36 * (i + 1)" using j by simp
    finally have "9 * (r * ((4 * i + 2) * c + 8 * b)) \<le> 9 * (4 * b * ((i + 1) * c))" by (simp add: algebra_simps)
    then show ?thesis by simp
  qed
  finally have "n * r + e < (i + 1) * c" using f(1) by simp
  with low show ?thesis by (intro div_nat_eqI) (simp_all add: algebra_simps)
qed

lemma serial_after_baud: "sr_baud (serial_after C B line s n) = baud_after C B n (sr_baud s)"
  by (induction n) (simp_all add: serial_clock_def)

text \<open>The receiver at rest with the line high.\<close>

definition at_rest :: "serial \<Rightarrow> bool" where
  "at_rest s \<longleftrightarrow> \<not> active (sr_nrz s) \<and> \<not> output_valid (sr_nrz s) \<and> swo_m (sr_nrz s) \<and> swo_s (sr_nrz s)"

text \<open>The number of ticks up to a clock.\<close>

definition phase :: "u64 \<Rightarrow> u32 \<Rightarrow> serial \<Rightarrow> nat \<Rightarrow> nat" where
  "phase C B s t = (unat (accumulator (sr_baud s)) + 4 * unat B * t) div unat C"

lemma phase_step:
  assumes "rates_fit (unat C) (unat B) r" "accumulator (sr_baud s) < C" "C < 2 ^ 63"
  shows "phase C B s (Suc t) = phase C B s t + (if tick (sr_baud (serial_after C B line s (Suc t))) then 1 else 0)"
proof -
  have "0 < B" "4 * unat B \<le> unat C" using assms(1) by (auto simp: rates_fit_def word_less_nat_alt)
  from tick_after [OF this assms(2,3), of t] show ?thesis by (simp only: phase_def serial_after_baud)
qed

text \<open>When tick \<open>k\<close> after the start is seen, the sample is from the quarter of a bit that belongs to it.\<close>

lemma tick_window:
  assumes "rates_fit (unat C) (unat B) r" "phase C B s (t + 2) = phase C B s 2 + k" "phase C B s (t + 3) = phase C B s 2 + Suc k"
  shows "k * unat C < 4 * unat B * (t + 1)" and "4 * unat B * (t + 1) < (k + 1) * unat C + 4 * unat B"
proof -
  let ?c = "unat C" and ?b = "unat B" and ?a = "unat (accumulator (sr_baud s))"
  have c: "0 < ?c" using assms(1) by (auto simp: rates_fit_def)
  let ?q = "phase C B s 2"
  have two: "?q * ?c \<le> ?a + 4 * ?b * 2" "?a + 4 * ?b * 2 < (?q + 1) * ?c"
    unfolding phase_def using c div_times_less_eq_dividend [of "?a + 4 * ?b * 2" ?c] dividend_less_div_times [OF c, of "?a + 4 * ?b * 2"]
    by simp_all
  have hi: "?a + 4 * ?b * (t + 2) < (?q + k + 1) * ?c"
    using dividend_less_div_times [OF c, of "?a + 4 * ?b * (t + 2)"] assms(2) by (simp add: phase_def)
  have lo: "(?q + Suc k) * ?c \<le> ?a + 4 * ?b * (t + 3)"
    using div_times_less_eq_dividend [of "?a + 4 * ?b * (t + 3)" ?c] assms(3) by (simp only: phase_def)
  show "k * ?c < 4 * ?b * (t + 1)" using lo two(2) by (simp add: algebra_simps)
  show "4 * ?b * (t + 1) < (k + 1) * ?c + 4 * ?b" using hi two(1) by (simp add: algebra_simps)
qed

text \<open>One frame: first the start bit is seen, then a sample is taken in every bit.\<close>

lemma frame_starts:
  assumes "at_rest s" "\<not> line 0"
  shows "nrz_receiving d (malformed_count (sr_nrz s)) 0 (sr_nrz (serial_after C B line s 3))"
    and "swo_m (sr_nrz (serial_after C B line s 3)) = line 2" "swo_s (sr_nrz (serial_after C B line s 3)) = line 1"
    and "serial_out C B line s 3 = []"
  using assms by (simp_all add: numeral_3_eq_3 numeral_2_eq_2 serial_clock_def nrz_clock_def nrz_receiving_def at_rest_def Let_def)

lemma frame_goes_on:
  assumes fit: "rates_fit (unat C) (unat B) r" and e: "e < r" and acc: "accumulator (sr_baud s) < C" "C < 2 ^ 63"
    and rest: "at_rest s"
    and line: "\<And>t. t * r + e < 10 * unat C \<Longrightarrow> line t = frame_bit d ((t * r + e) div unat C)"
    and t: "phase C B s (t + 2) \<le> phase C B s 2 + 37"
  shows "nrz_receiving d (malformed_count (sr_nrz s)) (phase C B s (t + 2) - phase C B s 2) (sr_nrz (serial_after C B line s (t + 3)))
    \<and> swo_m (sr_nrz (serial_after C B line s (t + 3))) = line (t + 2)
    \<and> swo_s (sr_nrz (serial_after C B line s (t + 3))) = line (t + 1)
    \<and> serial_out C B line s (t + 3) = []"
  using t
proof (induction t)
  case 0
  have "unat C \<noteq> 0" using fit by (auto simp: rates_fit_def)
  moreover have "r \<le> unat C" by (rule rates_fit_le [OF fit])
  ultimately have "\<not> line 0" using line [of 0] e by (simp add: frame_bit_def)
  then show ?case using frame_starts [where line = line, OF rest] by (simp add: numeral_2_eq_2)
next
  case (Suc t)
  let ?s = "serial_after C B line s (t + 3)" and ?k = "phase C B s (t + 2) - phase C B s 2"
  have step: "phase C B s (Suc t + 2) = phase C B s (t + 2) + (if tick (sr_baud ?s) then 1 else 0)"
    using phase_step [OF fit acc, of "t + 2" line] by (simp add: numeral_3_eq_3)
  have mono: "phase C B s 2 \<le> phase C B s (t + 2)" unfolding phase_def by (intro div_le_mono) simp
  from Suc.prems step have "phase C B s (t + 2) \<le> phase C B s 2 + 37" by (auto split: if_splits)
  note IH = Suc.IH [OF this]
  have edge: "serial_after C B line s (Suc t + 3) = serial_clock C B (line (Suc t + 2)) ?s"
  proof -
    have "Suc t + 3 = Suc (t + 3)" "Suc t + 2 = t + 3" by simp_all
    then show ?thesis by (simp only: serial_after.simps)
  qed
  have sync: "swo_m (sr_nrz (serial_after C B line s (Suc t + 3))) = line (Suc t + 2)"
    "swo_s (sr_nrz (serial_after C B line s (Suc t + 3))) = line (Suc t + 1)"
    using IH unfolding edge by (simp_all add: serial_clock_def nrz_sync)
  have out: "serial_out C B line s (Suc t + 3) = []"
  proof -
    have "Suc t + 3 = Suc (t + 3)" by simp
    then show ?thesis using IH by (simp only: serial_out.simps) (simp add: nrz_receiving_def)
  qed
  have "nrz_receiving d (malformed_count (sr_nrz s)) (phase C B s (Suc t + 2) - phase C B s 2) (sr_nrz (serial_after C B line s (Suc t + 3)))"
  proof (cases "tick (sr_baud ?s)")
    case True
    then have k: "phase C B s (t + 3) = phase C B s 2 + Suc ?k" "?k < 37"
      using step mono Suc.prems by (simp_all add: numeral_3_eq_3)
    have "swo_s (sr_nrz ?s) = frame_bit d (?k div 4)" if "?k mod 4 = 1"
    proof -
      define i where "i = ?k div 4"
      have ki: "?k = 4 * i + 1" "i \<le> 9"
        using that k(2) div_mult_mod_eq [of ?k 4] unfolding i_def by linarith+
      have w: "(4 * i + 1) * unat C < 4 * unat B * (t + 1)" "4 * unat B * (t + 1) < (4 * i + 2) * unat C + 4 * unat B"
        using tick_window [OF fit le_add_diff_inverse [OF mono, symmetric] k(1)] unfolding ki(1)
        by (simp_all add: algebra_simps)
      have "((t + 1) * r + e) div unat C = i" by (rule sample_in_bit [OF fit e ki(2) w])
      moreover from this have "(t + 1) * r + e < 10 * unat C"
        using ki(2) fit by (simp add: div_less_iff_less_mult [symmetric] rates_fit_def)
      ultimately show ?thesis using IH line [of "t + 1"] by (simp add: i_def)
    qed
    with nrz_receiving_tick [OF conjunct1 [OF IH], of "\<lparr>nrz_reset_n = True, swo = line (Suc t + 2), sample_tick = True, output_ready = True\<rparr>"]
    show ?thesis using True k step mono unfolding edge by (simp add: serial_clock_def Suc_diff_le)
  next
    case False
    with nrz_receiving_wait [OF conjunct1 [OF IH], of "\<lparr>nrz_reset_n = True, swo = line (Suc t + 2), sample_tick = False, output_ready = True\<rparr>"]
    show ?thesis using step False unfolding edge by (simp add: serial_clock_def)
  qed
  with sync out show ?case by simp
qed

lemma tick_number_seen:
  assumes "rates_fit (unat C) (unat B) r" "accumulator (sr_baud s) < C" "C < 2 ^ 63"
  obtains t where "phase C B s (t + 2) = phase C B s 2 + k" "phase C B s (t + 3) = phase C B s 2 + Suc k"
proof -
  let ?P = "\<lambda>t. phase C B s 2 + Suc k \<le> phase C B s (t + 2)"
  have b: "0 < unat B" "0 < unat C" using assms(1) by (auto simp: rates_fit_def)
  have "?P ((phase C B s 2 + Suc k) * unat C)"
  proof -
    have "(phase C B s 2 + Suc k) * unat C \<le> 4 * unat B * ((phase C B s 2 + Suc k) * unat C + 2)"
      using mult_mono [of 1 "4 * unat B" "(phase C B s 2 + Suc k) * unat C" "(phase C B s 2 + Suc k) * unat C + 2"] b(1)
      by simp
    then have "(phase C B s 2 + Suc k) * unat C
        \<le> unat (accumulator (sr_baud s)) + 4 * unat B * ((phase C B s 2 + Suc k) * unat C + 2)" by linarith
    then show ?thesis using b(2) by (simp only: phase_def less_eq_div_iff_mult_less_eq)
  qed
  then obtain n where n: "?P n" "\<And>m. m < n \<Longrightarrow> \<not> ?P m" using exists_least_iff [of ?P] by blast
  then obtain t where t: "n = Suc t" by (cases n) (auto simp: numeral_2_eq_2)
  have "phase C B s (Suc (t + 2)) \<le> Suc (phase C B s (t + 2))" using phase_step [OF assms, of "t + 2" "\<lambda>_. True"] by simp
  then show ?thesis using that [of t] n(1) n(2) [of t] t by (simp add: numeral_3_eq_3)
qed

lemma frame_received:
  assumes fit: "rates_fit (unat C) (unat B) r" and e: "e < r" and acc: "accumulator (sr_baud s) < C" "C < 2 ^ 63"
    and rest: "at_rest s"
    and line: "\<And>t. t * r + e < 10 * unat C \<Longrightarrow> line t = frame_bit d ((t * r + e) div unat C)"
    and n: "10 * unat C \<le> Suc n * r + e" "n * r + e < 10 * unat C"
  shows "at_rest (serial_after C B line s (Suc n)) \<and> serial_out C B line s (Suc n) = [d]
    \<and> malformed_count (sr_nrz (serial_after C B line s (Suc n))) = malformed_count (sr_nrz s)"
proof -
  let ?c = "unat C" and ?b = "unat B" and ?s = "serial_after C B line s"
  let ?i = "\<lambda>t. \<lparr>nrz_reset_n = True, swo = line t, sample_tick = tick (sr_baud (?s t)), output_ready = True\<rparr>"
  obtain t where t: "phase C B s (t + 2) = phase C B s 2 + 37" "phase C B s (t + 3) = phase C B s 2 + Suc 37"
    using tick_number_seen [OF fit acc, of 37] .
  have w: "(4 * 9 + 1) * ?c < 4 * ?b * (t + 1)" "4 * ?b * (t + 1) < (4 * 9 + 2) * ?c + 4 * ?b"
    using tick_window [OF fit t] by simp_all
  have nine: "((t + 1) * r + e) div ?c = 9" by (rule sample_in_bit [OF fit e _ w]) simp
  have stop: "line k" if "t + 1 \<le> k" "k \<le> n" for k
  proof -
    have "9 \<le> (k * r + e) div ?c" using nine div_le_mono [of "(t + 1) * r + e" "k * r + e" ?c] mult_le_mono1 [OF that(1), of r]
      by simp
    moreover have "k * r + e < 10 * ?c" using mult_le_mono1 [OF that(2), of r] n(2) by linarith
    ultimately show ?thesis using line [of k] by (simp add: frame_bit_def)
  qed
  have early: "t + 4 \<le> n"
  proof -
    have "4 * ?b * ((t + 4) * r + e) < 4 * ?b * ((t + 4) * r + r)" using e fit by (simp add: rates_fit_def)
    also have "\<dots> = r * (4 * ?b * (t + 1)) + 16 * ?b * r" by (simp add: algebra_simps)
    also have "\<dots> \<le> r * ((4 * 9 + 2) * ?c + 4 * ?b) + 16 * ?b * r" using mult_left_mono [OF less_imp_le [OF w(2)], of r] by simp
    also have "\<dots> = r * (38 * ?c + 20 * ?b)" by (simp add: algebra_simps)
    also have "\<dots> \<le> 4 * ?b * (10 * ?c)" using fit by (simp add: rates_fit_def algebra_simps)
    finally have "(t + 4) * r + e < 10 * ?c" using fit by (simp add: rates_fit_def)
    with n(1) have "(t + 4) * r < Suc n * r" by linarith
    then show ?thesis by (metis less_Suc_eq_le mult_less_cancel2)
  qed
  have r37: "nrz_receiving d (malformed_count (sr_nrz s)) 37 (sr_nrz (?s (t + 3)))" "swo_s (sr_nrz (?s (t + 3))) = line (t + 1)"
    "serial_out C B line s (t + 3) = []" "swo_m (sr_nrz (?s (t + 3))) = line (t + 2)"
    using frame_goes_on [OF fit e acc rest line, of t] t(1) by simp_all
  have clk: "sr_nrz (?s (Suc k)) = nrz_clock (?i k) (sr_nrz (?s k))" for k by (simp add: serial_clock_def)
  have tk: "tick (sr_baud (?s (t + 3)))" using phase_step [OF fit acc, of "t + 2" line] t by (simp add: numeral_3_eq_3 split: if_splits)
  have "swo_s (sr_nrz (?s (t + 3)))" using r37(2) stop [of "t + 1"] early by simp
  note done4 = nrz_receiving_last [OF r37(1) _ _ this, of "?i (t + 3)"]
  have out4: "serial_out C B line s (Suc (t + 3)) = []"
    using r37(1,3) by (simp only: serial_out.simps) (simp add: nrz_receiving_def)
  have s4: "\<not> active (sr_nrz (?s (Suc (t + 3))))" "output_valid (sr_nrz (?s (Suc (t + 3))))"
    "output_data (sr_nrz (?s (Suc (t + 3)))) = d" "malformed_count (sr_nrz (?s (Suc (t + 3)))) = malformed_count (sr_nrz s)"
    using done4 tk unfolding clk by simp_all
  have idle: "at_rest (?s (t + 5 + j)) \<and> serial_out C B line s (t + 5 + j) = [d]
      \<and> malformed_count (sr_nrz (?s (t + 5 + j))) = malformed_count (sr_nrz s)" if "t + 5 + j \<le> Suc n" for j
    using that
  proof (induction j)
    case 0
    have five: "t + 5 + 0 = Suc (Suc (t + 3))" by simp
    have "swo_m (sr_nrz (?s (Suc (t + 3)))) = line (t + 3)" unfolding clk by (simp add: nrz_sync)
    moreover have "line (t + 3)" "line (Suc (t + 3))" using stop early by simp_all
    ultimately show ?case
      unfolding five using s4 out4 clk [of "Suc (t + 3)"] by (simp only: serial_out.simps) (simp add: at_rest_def nrz_clock_def Let_def)
  next
    case (Suc j)
    have six: "t + 5 + Suc j = Suc (t + 5 + j)" by simp
    have "line (t + 5 + j)" using stop Suc.prems by simp
    then show ?case
      unfolding six using Suc clk [of "t + 5 + j"] by (simp only: serial_out.simps) (simp add: at_rest_def nrz_clock_def Let_def)
  qed
  have "t + 5 + (n - (t + 4)) = Suc n" using early by simp
  with idle [of "n - (t + 4)"] show ?thesis by simp
qed

section \<open>A string of bytes\<close>

lemma serial_after_add:
  "serial_after C B line s (m + n) = serial_after C B (\<lambda>t. line (m + t)) (serial_after C B line s m) n"
  by (induction n) simp_all

lemma serial_out_add:
  "serial_out C B line s (m + n) = serial_out C B line s m @ serial_out C B (\<lambda>t. line (m + t)) (serial_after C B line s m) n"
  by (induction n) (simp_all add: serial_after_add)

lemma sender_first:
  assumes "0 < c" "t * r + e < 10 * c"
  shows "sender c r e (d # ds) t = frame_bit d ((t * r + e) div c)"
proof -
  have "(t * r + e) div c < 10" using assms by (simp add: div_less_iff_less_mult)
  then show ?thesis by (simp add: sender_def Let_def)
qed

lemma sender_rest:
  assumes "0 < c" "10 * c \<le> n * r + e"
  shows "sender c r e (d # ds) (n + t) = sender c r (n * r + e - 10 * c) ds t"
proof -
  have "(n + t) * r + e = (t * r + (n * r + e - 10 * c)) + 10 * c" using assms(2) by (simp add: algebra_simps)
  also have "\<dots> div c = (t * r + (n * r + e - 10 * c)) div c + 10" using assms(1) by simp
  finally have k: "((n + t) * r + e) div c = (t * r + (n * r + e - 10 * c)) div c + 10" .
  have "(x + 10) div 10 = Suc (x div 10)" "(x + 10) mod 10 = x mod 10" for x :: nat by simp_all
  then show ?thesis unfolding sender_def Let_def k by simp
qed

lemma serial_receives:
  assumes fit: "rates_fit (unat C) (unat B) r" and "e < r" and "accumulator (sr_baud s) < C" and C: "C < 2 ^ 63"
    and "at_rest s"
  shows "\<exists>n. serial_out C B (sender (unat C) r e ds) s n = ds
    \<and> malformed_count (sr_nrz (serial_after C B (sender (unat C) r e ds) s n)) = malformed_count (sr_nrz s)
    \<and> at_rest (serial_after C B (sender (unat C) r e ds) s n)
    \<and> 10 * unat C * length ds \<le> n * r + e \<and> n * r + e < 10 * unat C * length ds + r"
  using assms(2,3,5)
proof (induction ds arbitrary: s e)
  case Nil
  then show ?case by (intro exI [of _ 0]) simp
next
  case (Cons d ds)
  let ?c = "unat C" and ?line = "sender (unat C) r e (d # ds)"
  have c: "0 < ?c" and b: "0 < B" "4 * unat B \<le> ?c" using fit by (auto simp: rates_fit_def word_less_nat_alt)
  have r: "0 < r" "r \<le> 10 * ?c"
  proof -
    show "0 < r" using Cons.prems(1) by simp
    show "r \<le> 10 * ?c" using rates_fit_le [OF fit] by simp
  qed
  obtain n where n: "10 * ?c \<le> Suc n * r + e" "n * r + e < 10 * ?c"
  proof -
    let ?P = "\<lambda>n. 10 * ?c \<le> n * r + e"
    have "?P (10 * ?c)" using r(1) by (cases r) auto
    then obtain k where k: "?P k" "\<And>m. m < k \<Longrightarrow> \<not> ?P m" using exists_least_iff [of ?P] by blast
    have "\<not> ?P 0" using Cons.prems(1) r(2) by simp
    then obtain n where "k = Suc n" using k(1) by (cases k) auto
    then show ?thesis using that [of n] k(1) k(2) [of n] by simp
  qed
  let ?s = "serial_after C B ?line s (Suc n)" and ?e = "Suc n * r + e - 10 * ?c"
  have first: "at_rest ?s" "serial_out C B ?line s (Suc n) = [d]" "malformed_count (sr_nrz ?s) = malformed_count (sr_nrz s)"
  proof -
    have "at_rest ?s \<and> serial_out C B ?line s (Suc n) = [d] \<and> malformed_count (sr_nrz ?s) = malformed_count (sr_nrz s)"
      by (rule frame_received [OF fit Cons.prems(1,2) C Cons.prems(3) sender_first [OF c] n])
    then show "at_rest ?s" "serial_out C B ?line s (Suc n) = [d]" "malformed_count (sr_nrz ?s) = malformed_count (sr_nrz s)"
      by blast+
  qed
  have "accumulator (sr_baud ?s) < C"
    unfolding serial_after_baud using baud_after_spec [OF b Cons.prems(2) C] by blast
  moreover have "?e < r" using n by simp
  ultimately obtain m where m: "serial_out C B (sender ?c r ?e ds) ?s m = ds"
      "malformed_count (sr_nrz (serial_after C B (sender ?c r ?e ds) ?s m)) = malformed_count (sr_nrz ?s)"
      "at_rest (serial_after C B (sender ?c r ?e ds) ?s m)"
      "10 * ?c * length ds \<le> m * r + ?e" "m * r + ?e < 10 * ?c * length ds + r"
    using Cons.IH [of ?e ?s] first(1) by blast
  have shift: "(\<lambda>t. ?line (Suc n + t)) = sender ?c r ?e ds" using sender_rest [OF c n(1)] by blast
  show ?case
  proof (intro exI conjI)
    show "serial_out C B ?line s (Suc n + m) = d # ds" unfolding serial_out_add shift m(1) first(2) by simp
    show "malformed_count (sr_nrz (serial_after C B ?line s (Suc n + m))) = malformed_count (sr_nrz s)"
      unfolding serial_after_add shift m(2) first(3) by simp
    show "at_rest (serial_after C B ?line s (Suc n + m))" unfolding serial_after_add shift by (rule m(3))
    show "10 * ?c * length (d # ds) \<le> (Suc n + m) * r + e" using m(4) n by (simp add: algebra_simps)
    show "(Suc n + m) * r + e < 10 * ?c * length (d # ds) + r" using m(5) n by (simp add: algebra_simps)
  qed
qed

text \<open>
  Property C16. A receiver at rest gets every byte of a string of frames, in order, and counts none as malformed, at
  every rate of the sender that fits and at every phase of the divider and of the sender's clock.
\<close>

theorem nrz_receives:
  assumes "rates_fit (unat C) (unat B) r" "e < r" "accumulator (sr_baud s) < C" "C < 2 ^ 63" "at_rest s"
  shows "\<exists>n. serial_out C B (sender (unat C) r e ds) s n = ds
    \<and> malformed_count (sr_nrz (serial_after C B (sender (unat C) r e ds) s n)) = malformed_count (sr_nrz s)
    \<and> at_rest (serial_after C B (sender (unat C) r e ds) s n)
    \<and> 10 * unat C * length ds \<le> n * r + e \<and> n * r + e < 10 * unat C * length ds + r"
  using serial_receives [OF assms(1,2,3,4,5)] .

definition resting :: serial where
  "resting = \<lparr>sr_baud = \<lparr>accumulator = 77, tick = True\<rparr>,
     sr_nrz = \<lparr>swo_m = True, swo_s = True, quarter = 0, bit_index = 0, shift = 0, active = False, output_data = 0,
       output_valid = False, malformed_count = 0\<rparr>\<rparr>"

theorem nrz_receives_witness:
  "\<exists>n. serial_out 100000000 115200 (sender 100000000 116000 9 [0xa6, 0]) resting n = [0xa6, 0]"
proof -
  have "rates_fit (unat (100000000 :: u64)) (unat (115200 :: u32)) 116000" by (simp add: rates_fit_def)
  from nrz_receives [OF this, of 9 resting "[0xa6, 0]"] show ?thesis by (auto simp: resting_def at_rest_def)
qed

end
