(* ===== verification/ManchesterRtl.thy ===== *)
theory ManchesterRtl
  imports Prelude
begin

text \<open>
  The Manchester receiver of the capture front end, \<open>applications/orbtrace/rtl/orbtrace_swo_manchester.sv\<close>: four ticks
  a bit, a sample in each half.
\<close>

record manchester =
  swo_meta :: bool
  swo_sync :: bool
  active :: bool
  first_half :: bool
  quarter :: nat
  bit_index :: nat
  shift :: u8
  output_data :: u8
  output_valid :: bool
  malformed_count :: u64

record manchester_in =
  mc_reset_n :: bool
  swo :: bool
  sample_tick :: bool
  output_ready :: bool

text \<open>The second sample of a bit, with the first one in \<open>first_half\<close>.\<close>

definition second_half :: "manchester \<Rightarrow> manchester \<Rightarrow> manchester" where
  "second_half s t =
     (if first_half s = swo_sync s then t\<lparr>active := False, malformed_count := malformed_count s + 1\<rparr>
      else if bit_index s = 0 \<and> first_half s then t\<lparr>active := False, malformed_count := malformed_count s + 1\<rparr>
      else if 1 \<le> bit_index s \<and> bit_index s \<le> 8 then
        t\<lparr>shift := (if first_half s then set_bit (bit_index s - 1) (shift t) else unset_bit (bit_index s - 1) (shift t))\<rparr>
      else if bit_index s = 9 then
        let t = t\<lparr>active := False\<rparr>
        in if first_half s then t\<lparr>output_data := shift s, output_valid := True\<rparr>
           else t\<lparr>malformed_count := malformed_count s + 1\<rparr>
      else t)"

definition manchester_clock :: "manchester_in \<Rightarrow> manchester \<Rightarrow> manchester" where
  "manchester_clock i s =
     (let t = s\<lparr>swo_meta := swo i, swo_sync := swo_meta s\<rparr>
      in if \<not> mc_reset_n i then
           t\<lparr>active := False, first_half := False, quarter := 0, bit_index := 0, shift := 0, output_data := 0,
             output_valid := False, malformed_count := 0\<rparr>
         else let t = (if output_valid s \<and> output_ready i then t\<lparr>output_valid := False\<rparr> else t)
           in if \<not> active s \<and> \<not> output_valid s \<and> \<not> swo_sync s then t\<lparr>active := True, quarter := 0, bit_index := 0\<rparr>
              else if active s \<and> sample_tick i then
                let t = (if quarter s = 0 then t\<lparr>first_half := swo_sync s\<rparr> else t);
                    t = (if quarter s = 2 then second_half s t else t)
                in if quarter s = 3 then t\<lparr>quarter := 0, bit_index := (bit_index s + 1) mod 16\<rparr>
                   else t\<lparr>quarter := (quarter s + 1) mod 16\<rparr>
              else t)"

primrec manchester_run :: "manchester_in list \<Rightarrow> manchester \<Rightarrow> manchester" where
  "manchester_run [] s = s"
| "manchester_run (i # is) s = manchester_run is (manchester_clock i s)"

text \<open>What the receiver sees of the line at the ticks of a run.\<close>

primrec tick_samples :: "manchester_in list \<Rightarrow> manchester \<Rightarrow> bool list" where
  "tick_samples [] s = []"
| "tick_samples (i # is) s = (if sample_tick i then [swo_sync s] else []) @ tick_samples is (manchester_clock i s)"

section \<open>One frame\<close>

text \<open>The value of bit \<open>i\<close> of a frame: a start bit of zero, eight data bits, a stop bit of one.\<close>

definition mc_frame_bit :: "u8 \<Rightarrow> nat \<Rightarrow> bool" where
  "mc_frame_bit b i = (if i = 0 then False else if i \<le> 8 then bit b (i - 1) else True)"

definition mc_receiving :: "u8 \<Rightarrow> u64 \<Rightarrow> nat \<Rightarrow> manchester \<Rightarrow> bool" where
  "mc_receiving b m0 k s \<longleftrightarrow> active s \<and> \<not> output_valid s \<and> malformed_count s = m0
     \<and> bit_index s = k div 4 \<and> quarter s = k mod 4
     \<and> (0 < k mod 4 \<longrightarrow> first_half s = mc_frame_bit b (k div 4))
     \<and> (\<forall>i \<in> {1..8}. 4 * i + 2 < k \<longrightarrow> bit (shift s) (i - 1) = bit b (i - 1))"

lemma mc_receiving_wait:
  assumes "mc_receiving b m0 k s" "mc_reset_n i" "\<not> sample_tick i"
  shows "mc_receiving b m0 k (manchester_clock i s)"
  using assms by (simp add: mc_receiving_def manchester_clock_def Let_def)

lemma mc_receiving_tick:
  assumes r: "mc_receiving b m0 k s" and i: "mc_reset_n i" "sample_tick i" and k: "k < 38"
    and s0: "k mod 4 = 0 \<longrightarrow> swo_sync s = mc_frame_bit b (k div 4)"
    and s2: "k mod 4 = 2 \<longrightarrow> swo_sync s = (\<not> mc_frame_bit b (k div 4))"
  shows "mc_receiving b m0 (Suc k) (manchester_clock i s)"
proof -
  have q: "Suc k div 4 = (if k mod 4 = 3 then Suc (k div 4) else k div 4)"
    "Suc k mod 4 = (if k mod 4 = 3 then 0 else Suc (k mod 4))" "k mod 4 < 4" by (auto simp: div_Suc mod_Suc)
  have idx: "k div 4 < 10" using k by simp
  have eight: "k mod 4 = 2 \<Longrightarrow> k div 4 \<le> 8" using k div_mult_mod_eq [of k 4] by linarith
  have sh: "shift (manchester_clock i s) = (if k mod 4 = 2 \<and> 1 \<le> k div 4 then
      (if bit b (k div 4 - 1) then set_bit (k div 4 - 1) (shift s) else unset_bit (k div 4 - 1) (shift s)) else shift s)"
  proof (cases "k mod 4 = 2")
    case True
    then show ?thesis
      using r i s2 eight by (auto simp: mc_receiving_def manchester_clock_def second_half_def mc_frame_bit_def Let_def)
  next
    case False
    then show ?thesis using r i by (simp add: mc_receiving_def manchester_clock_def Let_def)
  qed
  have bits: "bit (shift (manchester_clock i s)) (j - 1) = bit b (j - 1)" if j: "j \<in> {1..8}" "4 * j + 2 < Suc k" for j
  proof (cases "4 * j + 2 < k")
    case True
    then have "bit (shift s) (j - 1) = bit b (j - 1)" using r j by (simp add: mc_receiving_def)
    moreover have "j - 1 < 8" using j(1) by auto
    ultimately show ?thesis unfolding sh by (cases "k div 4 - 1 = j - 1") (simp_all add: bit_simps)
  next
    case False
    then have "k = 4 * j + 2" using j(2) by simp
    then have "k mod 4 = 2" "k div 4 = j" by presburger+
    moreover have "j - 1 < 8" using j(1) by auto
    ultimately show ?thesis unfolding sh using j(1) by (simp add: bit_simps)
  qed
  have o: "active s" "\<not> output_valid s" "malformed_count s = m0" "bit_index s = k div 4" "quarter s = k mod 4"
    "0 < k mod 4 \<Longrightarrow> first_half s = mc_frame_bit b (k div 4)"
    using r by (simp_all add: mc_receiving_def)
  have fields: "active (manchester_clock i s) \<and> \<not> output_valid (manchester_clock i s) \<and> malformed_count (manchester_clock i s) = m0
    \<and> bit_index (manchester_clock i s) = Suc k div 4 \<and> quarter (manchester_clock i s) = Suc k mod 4
    \<and> (0 < Suc k mod 4 \<longrightarrow> first_half (manchester_clock i s) = mc_frame_bit b (Suc k div 4))"
  proof -
    consider "k mod 4 = 0" | "k mod 4 = 1" | "k mod 4 = 2" | "k mod 4 = 3" using q(3) by linarith
    then show ?thesis
    proof cases
      case 1
      then show ?thesis unfolding q(1,2) using o i s0 by (simp add: manchester_clock_def Let_def)
    next
      case 2
      then show ?thesis unfolding q(1,2) using o i by (simp add: manchester_clock_def Let_def)
    next
      case 3
      have "\<not> (bit_index s = 0 \<and> first_half s)" "bit_index s = 0 \<or> 1 \<le> bit_index s \<and> bit_index s \<le> 8" "first_half s \<noteq> swo_sync s"
        using 3 o eight s2 by (auto simp: mc_frame_bit_def)
      then have "second_half s t = (if bit_index s = 0 then t else t\<lparr>shift :=
          (if first_half s then set_bit (bit_index s - 1) (shift t) else unset_bit (bit_index s - 1) (shift t))\<rparr>)" for t
        by (auto simp: second_half_def)
      then show ?thesis unfolding q(1,2) using 3 o i by (simp add: manchester_clock_def Let_def)
    next
      case 4
      then show ?thesis unfolding q(1,2) using o i idx by (simp add: manchester_clock_def Let_def)
    qed
  qed
  then show ?thesis unfolding mc_receiving_def using bits by blast
qed

lemma mc_receiving_last:
  assumes "mc_receiving b m0 38 s" "mc_reset_n i" "sample_tick i" "\<not> swo_sync s"
  shows "\<not> active (manchester_clock i s)" "output_valid (manchester_clock i s)" "output_data (manchester_clock i s) = b"
    "malformed_count (manchester_clock i s) = m0"
proof -
  have "shift s = b"
  proof (rule bit_word_eqI)
    fix n
    assume "n < LENGTH(8)"
    then show "bit (shift s) n = bit b n"
      using assms(1) by (auto simp: mc_receiving_def dest!: bspec [of _ _ "Suc n"])
  qed
  then show "\<not> active (manchester_clock i s)" "output_valid (manchester_clock i s)" "output_data (manchester_clock i s) = b"
    "malformed_count (manchester_clock i s) = m0"
    using assms by (simp_all add: mc_receiving_def mc_frame_bit_def manchester_clock_def second_half_def Let_def)
qed

text \<open>Between the ticks and over them: a run whose samples are those of the byte.\<close>

definition good_samples :: "u8 \<Rightarrow> bool list \<Rightarrow> bool" where
  "good_samples b xs \<longleftrightarrow> (\<forall>k < length xs. (k mod 4 = 0 \<longrightarrow> xs ! k = mc_frame_bit b (k div 4))
     \<and> (k mod 4 = 2 \<longrightarrow> xs ! k = (\<not> mc_frame_bit b (k div 4))))"

lemma mc_receiving_run:
  assumes "mc_receiving b m0 k s" "\<forall>i \<in> set is. mc_reset_n i" "k + length (tick_samples is s) \<le> 38"
    and "\<forall>j < length (tick_samples is s). ((k + j) mod 4 = 0 \<longrightarrow> tick_samples is s ! j = mc_frame_bit b ((k + j) div 4))
      \<and> ((k + j) mod 4 = 2 \<longrightarrow> tick_samples is s ! j = (\<not> mc_frame_bit b ((k + j) div 4)))"
  shows "mc_receiving b m0 (k + length (tick_samples is s)) (manchester_run is s)"
  using assms
proof (induction "is" arbitrary: k s)
  case Nil
  then show ?case by simp
next
  case (Cons i "is")
  have rs: "mc_reset_n i" "\<forall>i \<in> set is. mc_reset_n i" using Cons.prems(2) by auto
  show ?case
  proof (cases "sample_tick i")
    case False
    then show ?thesis using Cons.IH [OF mc_receiving_wait [OF Cons.prems(1) rs(1) False] rs(2)] Cons.prems(3,4) by simp
  next
    case True
    then have samples: "tick_samples (i # is) s = swo_sync s # tick_samples is (manchester_clock i s)" by simp
    have "mc_receiving b m0 (Suc k) (manchester_clock i s)"
      using mc_receiving_tick [OF Cons.prems(1) rs(1) True] Cons.prems(3) Cons.prems(4) [rule_format, of 0]
      unfolding samples by simp
    moreover have "(Suc k + j) mod 4 = 0 \<longrightarrow> tick_samples is (manchester_clock i s) ! j = mc_frame_bit b ((Suc k + j) div 4)"
      "(Suc k + j) mod 4 = 2 \<longrightarrow> tick_samples is (manchester_clock i s) ! j = (\<not> mc_frame_bit b ((Suc k + j) div 4))"
      if "j < length (tick_samples is (manchester_clock i s))" for j
      using Cons.prems(4) [rule_format, of "Suc j"] that unfolding samples by simp_all
    ultimately show ?thesis
      using Cons.IH [of "Suc k" "manchester_clock i s"] rs(2) Cons.prems(3) unfolding samples by simp
  qed
qed

text \<open>
  A receiver that has seen the start of a frame gets its byte with the tick in the second half of the
  stop bit, at any spacing of the ticks, and nothing is counted as malformed.
\<close>

theorem manchester_receives:
  assumes "mc_receiving b m0 0 s" "\<forall>j \<in> set (is @ [i]). mc_reset_n j" "sample_tick i"
    and "length (tick_samples (is @ [i]) s) = 39" "good_samples b (tick_samples (is @ [i]) s)"
  shows "output_valid (manchester_run (is @ [i]) s) \<and> output_data (manchester_run (is @ [i]) s) = b
    \<and> malformed_count (manchester_run (is @ [i]) s) = m0"
proof -
  have app: "tick_samples (is @ js) t = tick_samples is t @ tick_samples js (manchester_run is t)"
    "manchester_run (is @ js) t = manchester_run js (manchester_run is t)" for js t
    by (induction "is" arbitrary: t) simp_all
  let ?t = "manchester_run is s" and ?xs = "tick_samples is s"
  have all: "tick_samples (is @ [i]) s = ?xs @ [swo_sync ?t]" using assms(3) by (simp add: app)
  then have len: "length ?xs = 38" using assms(4) by simp
  have good: "(j mod 4 = 0 \<longrightarrow> ?xs ! j = mc_frame_bit b (j div 4)) \<and> (j mod 4 = 2 \<longrightarrow> ?xs ! j = (\<not> mc_frame_bit b (j div 4)))"
    if "j < 38" for j
    using assms(5) that len unfolding good_samples_def all by (auto simp: nth_append dest!: spec [of _ j])
  have "mc_receiving b m0 38 ?t"
    using mc_receiving_run [OF assms(1), of "is"] assms(2) len good by simp
  moreover have "\<not> swo_sync ?t"
    using assms(5) len unfolding good_samples_def all by (auto simp: nth_append mc_frame_bit_def dest!: spec [of _ 38])
  ultimately show ?thesis using mc_receiving_last [of b m0 ?t i] assms(2,3) by (simp add: app)
qed

section \<open>After a frame\<close>

text \<open>
  Property C38. The second half of the stop bit is low, and a receiver that has just given a byte takes a low line for
  the start of the next frame: two clocks after the byte it is active again, while the stop bit still lasts.
\<close>

theorem stop_bit_starts_frame:
  assumes "mc_receiving b m0 38 s" "sample_tick i" "\<not> swo_sync s" "\<not> swo_meta s" "\<not> swo i"
    and "\<forall>j \<in> {i, i1, i2}. mc_reset_n j \<and> output_ready j"
  shows "output_valid (manchester_run [i] s) \<and> active (manchester_run [i, i1, i2] s)
    \<and> bit_index (manchester_run [i, i1, i2] s) = 0 \<and> quarter (manchester_run [i, i1, i2] s) = 0"
proof -
  have i: "mc_reset_n i" "mc_reset_n i1" "mc_reset_n i2" "output_ready i1" "output_ready i2" using assms(6) by auto
  let ?s1 = "manchester_clock i s"
  have s1: "\<not> active ?s1" "output_valid ?s1" using mc_receiving_last [OF assms(1) i(1) assms(2,3)] by simp_all
  have sync: "swo_meta (manchester_clock j t) = swo j" "swo_sync (manchester_clock j t) = swo_meta t" if "mc_reset_n j" for j t
    using that by (simp_all add: manchester_clock_def second_half_def Let_def)
  have "\<not> swo_sync ?s1" "\<not> swo_meta ?s1" using assms(4,5) by (simp_all add: sync i(1))
  then have "\<not> active (manchester_clock i1 ?s1)" "\<not> output_valid (manchester_clock i1 ?s1)" "\<not> swo_sync (manchester_clock i1 ?s1)"
    using s1 i by (simp_all add: sync) (simp_all add: manchester_clock_def Let_def)
  then show ?thesis using s1 i by (simp add: manchester_clock_def [of i2] Let_def)
qed

section \<open>Concrete runs\<close>

definition mc_edge :: "bool \<Rightarrow> manchester_in" where
  "mc_edge v = \<lparr>mc_reset_n = True, swo = v, sample_tick = True, output_ready = True\<rparr>"

definition mc_state :: "nat \<Rightarrow> nat \<Rightarrow> bool \<Rightarrow> manchester" where
  "mc_state i q h = \<lparr>swo_meta = False, swo_sync = False, active = True, first_half = h, quarter = q, bit_index = i,
     shift = 0, output_data = 0, output_valid = False, malformed_count = 0\<rparr>"

text \<open>With a tick at every clock the samples are the line, two clocks late.\<close>

lemma tick_samples_line:
  "tick_samples (map mc_edge vs) s = take (length vs) (swo_sync s # swo_meta s # vs)"
proof (induction vs arbitrary: s)
  case (Cons v vs)
  have "swo_meta (manchester_clock (mc_edge v) s) = v" "swo_sync (manchester_clock (mc_edge v) s) = swo_meta s"
    by (simp_all add: manchester_clock_def second_half_def mc_edge_def Let_def)
  with Cons show ?case by (simp add: mc_edge_def)
qed simp

definition zero_frame :: "bool list" where
  "zero_frame = concat (replicate 9 [False, False, True, True]) @ [True, True, False]"

theorem manchester_receives_witness:
  "output_data (manchester_run (map mc_edge (drop 2 zero_frame @ [False]) @ [mc_edge False]) (mc_state 0 0 True)) = 0"
proof -
  let ?is = "map mc_edge (drop 2 zero_frame @ [False])"
  have all: "?is @ [mc_edge False] = map mc_edge (drop 2 zero_frame @ [False, False])" by simp
  have "take (length (drop 2 zero_frame @ [False, False])) (False # False # drop 2 zero_frame @ [False, False]) = zero_frame"
    by code_simp
  then have xs: "tick_samples (?is @ [mc_edge False]) (mc_state 0 0 True) = zero_frame"
    unfolding all tick_samples_line by (simp add: mc_state_def)
  have "good_samples 0 zero_frame" "length zero_frame = 39" by code_simp+
  moreover have "mc_receiving 0 0 0 (mc_state 0 0 True)" by (simp add: mc_receiving_def mc_state_def)
  moreover have "\<forall>j \<in> set (?is @ [mc_edge False]). mc_reset_n j" by (simp add: mc_edge_def)
  moreover have "sample_tick (mc_edge False)" by (simp add: mc_edge_def)
  ultimately show ?thesis using manchester_receives [of 0 0 "mc_state 0 0 True" ?is "mc_edge False"] unfolding xs by blast
qed

theorem stop_bit_starts_frame_witness:
  "active (manchester_run [mc_edge False, mc_edge False, mc_edge True] (mc_state 9 2 True))"
proof -
  have "mc_receiving 0 0 38 (mc_state 9 2 True)" by (simp add: mc_receiving_def mc_state_def mc_frame_bit_def)
  from stop_bit_starts_frame [OF this, of "mc_edge False" "mc_edge False" "mc_edge True"]
  show ?thesis by (simp add: mc_state_def mc_edge_def)
qed

end
