(* ===== verification/DdrRtl.thy ===== *)
theory DdrRtl
  imports Swo
begin

text \<open>
  The parallel trace port, \<open>applications/orbtrace/rtl/orbtrace_ddr_capture.sv\<close>: one, two or four lanes sampled on both
  edges of the trace clock. A cycle is a rising edge, with the data on the lanes then, and the falling edge
  after it.
\<close>

type_synonym lanes = "4 word"

record ddr_capture =
  rise_sample :: lanes
  fall_sample :: lanes
  partial :: u8
  phase :: nat
  active_width :: nat
  primed :: bool
  byte_data :: u8
  byte_valid :: bool

record ddr_in =
  dd_reset_n :: bool
  dd_enable :: bool
  dd_width_select :: nat
  dd_data :: lanes

text \<open>\<open>{fall_sample[n-1:0], rise_sample[n-1:0]}\<close>, and \<open>partial[lo +: n] <= v\<close>.\<close>

definition edge_pair :: "nat \<Rightarrow> ddr_capture \<Rightarrow> u8" where
  "edge_pair n s = push_bit n (take_bit n (ucast (fall_sample s))) OR take_bit n (ucast (rise_sample s))"

definition assign_slice :: "nat \<Rightarrow> nat \<Rightarrow> u8 \<Rightarrow> u8 \<Rightarrow> u8" where
  "assign_slice lo n v w = (w AND NOT (push_bit lo (mask n))) OR push_bit lo (take_bit n v)"

definition ddr_negedge :: "ddr_in \<Rightarrow> ddr_capture \<Rightarrow> ddr_capture" where
  "ddr_negedge i s =
     (if \<not> dd_reset_n i then s\<lparr>fall_sample := 0\<rparr>
      else if dd_enable i then s\<lparr>fall_sample := dd_data i\<rparr> else s)"

definition ddr_posedge :: "ddr_in \<Rightarrow> ddr_capture \<Rightarrow> ddr_capture" where
  "ddr_posedge i s =
     (if \<not> dd_reset_n i then
        s\<lparr>rise_sample := 0, partial := 0, phase := 0, active_width := 0, primed := False, byte_data := 0, byte_valid := False\<rparr>
      else let t = s\<lparr>byte_valid := False, rise_sample := dd_data i\<rparr>
        in if \<not> dd_enable i \<or> 2 < dd_width_select i then t\<lparr>primed := False, phase := 0\<rparr>
           else if \<not> primed s \<or> active_width s \<noteq> dd_width_select i then
             t\<lparr>primed := True, active_width := dd_width_select i, phase := 0, partial := 0\<rparr>
           else if active_width s = 2 then t\<lparr>byte_data := edge_pair 4 s, byte_valid := True\<rparr>
           else if active_width s = 1 then
             (if phase s = 0 then t\<lparr>partial := assign_slice 0 4 (edge_pair 2 s) (partial s), phase := 1\<rparr>
              else t\<lparr>byte_data := push_bit 4 (edge_pair 2 s) OR take_bit 4 (partial s), byte_valid := True, phase := 0\<rparr>)
           else
             let t = (if phase s < 3 then t\<lparr>partial := assign_slice (2 * phase s) 2 (edge_pair 1 s) (partial s)\<rparr>
                      else t\<lparr>byte_data := push_bit 6 (edge_pair 1 s) OR take_bit 6 (partial s), byte_valid := True\<rparr>)
             in t\<lparr>phase := (if phase s = 3 then 0 else phase s + 1)\<rparr>)"

text \<open>A cycle with the port enabled at a width, and the bytes of a run.\<close>

definition ddr_cycle :: "nat \<Rightarrow> lanes \<times> lanes \<Rightarrow> ddr_capture \<Rightarrow> ddr_capture" where
  "ddr_cycle w c s = ddr_negedge \<lparr>dd_reset_n = True, dd_enable = True, dd_width_select = w, dd_data = snd c\<rparr>
     (ddr_posedge \<lparr>dd_reset_n = True, dd_enable = True, dd_width_select = w, dd_data = fst c\<rparr> s)"

fun ddr_run :: "nat \<Rightarrow> (lanes \<times> lanes) list \<Rightarrow> ddr_capture \<Rightarrow> bytes" where
  "ddr_run w [] s = []"
| "ddr_run w (c # cs) s =
     (let t = ddr_cycle w c s in (if byte_valid t then [byte_data t] else []) @ ddr_run w cs t)"

definition ddr_reset :: "ddr_capture \<Rightarrow> ddr_capture" where
  "ddr_reset s = (let i = \<lparr>dd_reset_n = False, dd_enable = False, dd_width_select = 0, dd_data = 0\<rparr>
     in ddr_negedge i (ddr_posedge i s))"

text \<open>The samples of the cycles in their order, as the host's decoder takes them.\<close>

definition edge_samples :: "(lanes \<times> lanes) list \<Rightarrow> bytes" where
  "edge_samples cs = concat (map (\<lambda>(r, f). [ucast r, ucast f]) cs)"

lemma edge_samples_simps [simp]:
  "edge_samples [] = []" "edge_samples ((r, f) # cs) = ucast r # ucast f # edge_samples cs"
  by (simp_all add: edge_samples_def)

lemma length_edge_samples [simp]: "length (edge_samples cs) = 2 * length cs"
  by (induction cs) auto

section \<open>Assembled bytes\<close>

lemma less_8: "(k :: nat) < 8 \<longleftrightarrow> k \<in> {0, 1, 2, 3, 4, 5, 6, 7}"
  by auto

lemma byte_of_four:
  "push_bit 4 (take_bit 4 (ucast (f :: lanes))) OR take_bit 4 (ucast (r :: lanes)) = ddr_byte (mask 4) 4 [ucast r, ucast f]"
proof (unfold bit_word_eq_iff8, intro allI impI)
  fix k :: nat
  assume "k < 8"
  then show "bit (push_bit 4 (take_bit 4 (ucast f)) OR take_bit 4 (ucast r) :: u8) k = bit (ddr_byte (mask 4) 4 [ucast r, ucast f]) k"
    by (subst bit_ddr_byte) (auto simp: less_8 bit_simps)
qed

abbreviation pair :: "nat \<Rightarrow> lanes \<Rightarrow> lanes \<Rightarrow> u8" where
  "pair n r f \<equiv> push_bit n (take_bit n (ucast f)) OR take_bit n (ucast r)"

lemma bit_assign_slice:
  "k < 8 \<Longrightarrow> bit (assign_slice lo n v w) k = (if lo \<le> k \<and> k < lo + n then bit v (k - lo) else bit w k)"
  by (auto simp: assign_slice_def bit_simps)

lemma bit_pair:
  assumes "n \<le> 4" "k < 2 * n"
  shows "bit (pair n r f) k = (if k < n then bit r k else bit f (k - n))"
  using assms
  by (simp only: bit_or_iff bit_push_bit_iff bit_take_bit_iff bit_unsigned_iff) auto

lemma bit_high_low:
  "k < 8 \<Longrightarrow> bit (push_bit n x OR take_bit n y :: u8) k = (if k < n then bit y k else bit x (k - n))"
  by (subst bit_or_iff, subst bit_push_bit_iff, subst bit_take_bit_iff) auto

lemma byte_of_two:
  "push_bit 4 (pair 2 r1 f1) OR take_bit 4 (assign_slice 0 4 (pair 2 r0 f0) w)
   = ddr_byte (mask 2) 2 [ucast r0, ucast f0, ucast r1, ucast f1]"
proof (unfold bit_word_eq_iff8, intro allI impI)
  fix k :: nat
  assume k: "k < 8"
  show "bit (push_bit 4 (pair 2 r1 f1) OR take_bit 4 (assign_slice 0 4 (pair 2 r0 f0) w)) k
   = bit (ddr_byte (mask 2) 2 [ucast r0, ucast f0, ucast r1, ucast f1]) k"
  proof (cases "k < 4")
    case True
    then have "bit (push_bit 4 (pair 2 r1 f1) OR take_bit 4 (assign_slice 0 4 (pair 2 r0 f0) w)) k = bit (pair 2 r0 f0) k"
      by (subst bit_high_low [OF k]) (simp add: bit_assign_slice)
    then show ?thesis using True k by (subst bit_ddr_byte) (auto simp: less_8 bit_pair bit_ucast_iff)
  next
    case False
    then have "bit (push_bit 4 (pair 2 r1 f1) OR take_bit 4 (assign_slice 0 4 (pair 2 r0 f0) w)) k = bit (pair 2 r1 f1) (k - 4)"
      by (subst bit_high_low [OF k]) simp
    then show ?thesis using False k by (subst bit_ddr_byte) (auto simp: less_8 bit_pair bit_ucast_iff)
  qed
qed

lemma byte_of_one:
  "push_bit 6 (pair 1 r3 f3) OR take_bit 6 (assign_slice 4 2 (pair 1 r2 f2) (assign_slice 2 2 (pair 1 r1 f1)
     (assign_slice 0 2 (pair 1 r0 f0) w)))
   = ddr_byte (mask 1) 1 [ucast r0, ucast f0, ucast r1, ucast f1, ucast r2, ucast f2, ucast r3, ucast f3]"
proof (unfold bit_word_eq_iff8, intro allI impI)
  fix k :: nat
  assume k: "k < 8"
  let ?p = "assign_slice 4 2 (pair 1 r2 f2) (assign_slice 2 2 (pair 1 r1 f1) (assign_slice 0 2 (pair 1 r0 f0) w))"
  have p: "bit ?p k = bit (if k < 2 then pair 1 r0 f0 else if k < 4 then pair 1 r1 f1 else pair 1 r2 f2)
      (if k < 2 then k else if k < 4 then k - 2 else k - 4)" if "k < 6"
    using that by (simp add: bit_assign_slice)
  have whole: "bit (push_bit 6 (pair 1 r3 f3) OR take_bit 6 ?p) k = (if k < 6 then bit ?p k else bit (pair 1 r3 f3) (k - 6))"
    by (rule bit_high_low [OF k])
  show "bit (push_bit 6 (pair 1 r3 f3) OR take_bit 6 ?p) k
   = bit (ddr_byte (mask 1) 1 [ucast r0, ucast f0, ucast r1, ucast f1, ucast r2, ucast f2, ucast r3, ucast f3]) k"
    unfolding whole bit_ddr_byte [OF zero_less_one k]
    using k p bit_pair [of 1] by (auto simp: less_8 bit_ucast_iff)
qed

section \<open>Runs\<close>

text \<open>Between bytes the port holds the two samples of the last cycle.\<close>

definition ddr_holds :: "nat \<Rightarrow> lanes \<times> lanes \<Rightarrow> ddr_capture \<Rightarrow> bool" where
  "ddr_holds w c s \<longleftrightarrow> primed s \<and> active_width s = w \<and> phase s = 0 \<and> rise_sample s = fst c \<and> fall_sample s = snd c"

lemma run_four:
  "ddr_holds 2 c s \<Longrightarrow> ddr_run 2 cs s = map (ddr_byte (mask 4) 4) (chunks_exact 2 (edge_samples (butlast (c # cs))))"
proof (induction cs arbitrary: c s)
  case Nil
  then show ?case by (simp add: chunks_exact.simps)
next
  case (Cons d cs)
  let ?t = "ddr_cycle 2 d s"
  have "ddr_holds 2 d ?t" "byte_valid ?t" "byte_data ?t = ddr_byte (mask 4) 4 [ucast (fst c), ucast (snd c)]"
    using Cons.prems byte_of_four [of "snd c" "fst c"]
    by (simp_all add: ddr_holds_def ddr_cycle_def ddr_posedge_def ddr_negedge_def edge_pair_def Let_def)
  with Cons.IH show ?case by (cases c) (simp add: chunks_exact.simps Let_def)
qed

lemma run_two:
  "ddr_holds 1 c s \<Longrightarrow> ddr_run 1 cs s = map (ddr_byte (mask 2) 2) (chunks_exact 4 (edge_samples (butlast (c # cs))))"
proof (induction cs arbitrary: c s rule: induct_list012)
  case 1
  then show ?case by (simp add: chunks_exact.simps)
next
  case (2 d)
  then show ?case
    by (cases c) (simp add: chunks_exact.simps ddr_holds_def ddr_cycle_def ddr_posedge_def ddr_negedge_def Let_def)
next
  case (3 d d' cs)
  let ?t = "ddr_cycle 1 d s" and ?u = "ddr_cycle 1 d' (ddr_cycle 1 d s)"
  have "\<not> byte_valid ?t" "ddr_holds 1 d' ?u" "byte_valid ?u"
    "byte_data ?u = ddr_byte (mask 2) 2 [ucast (fst c), ucast (snd c), ucast (fst d), ucast (snd d)]"
    using "3.prems" byte_of_two [where ?r0.0 = "fst c" and ?f0.0 = "snd c" and ?r1.0 = "fst d" and ?f1.0 = "snd d"]
    by (simp_all add: ddr_holds_def ddr_cycle_def ddr_posedge_def ddr_negedge_def edge_pair_def Let_def)
  with "3.IH"(1) [of d' ?u] show ?case by (cases c; cases d) (simp add: chunks_exact.simps Let_def)
qed

text \<open>At one lane a byte takes four cycles; fewer give none.\<close>

lemma run_one:
  "ddr_holds 0 c s \<Longrightarrow> ddr_run 0 cs s = map (ddr_byte (mask 1) 1) (chunks_exact 8 (edge_samples (butlast (c # cs))))"
proof (induction "length cs" arbitrary: c s cs rule: less_induct)
  case less
  note step = ddr_holds_def ddr_cycle_def ddr_posedge_def ddr_negedge_def edge_pair_def Let_def
  show ?case
  proof (cases "length cs < 4")
    case True
    have "chunks_exact 8 (edge_samples (butlast (c # cs))) = []" using True by (simp add: chunks_exact.simps)
    moreover have "ddr_run 0 cs s = []"
    proof -
      consider "cs = []" | d1 where "cs = [d1]" | d1 d2 where "cs = [d1, d2]" | d1 d2 d3 where "cs = [d1, d2, d3]"
        using True by (auto simp: less_Suc_eq numeral_eq_Suc length_Suc_conv)
      then show ?thesis by cases (use less.prems in \<open>simp_all add: step\<close>)
    qed
    ultimately show ?thesis by simp
  next
    case False
    then obtain d1 d2 d3 d4 rest where cs: "cs = d1 # d2 # d3 # d4 # rest"
      by (auto simp: not_less numeral_eq_Suc Suc_le_length_iff)
    let ?s1 = "ddr_cycle 0 d1 s" and ?s2 = "ddr_cycle 0 d2 (ddr_cycle 0 d1 s)"
    let ?s3 = "ddr_cycle 0 d3 ?s2" and ?s4 = "ddr_cycle 0 d4 (ddr_cycle 0 d3 ?s2)"
    have f: "\<not> byte_valid ?s1" "\<not> byte_valid ?s2" "\<not> byte_valid ?s3" "ddr_holds 0 d4 ?s4" "byte_valid ?s4"
      using less.prems by (simp_all add: step)
    have b: "byte_data ?s4 = ddr_byte (mask 1) 1 [ucast (fst c), ucast (snd c), ucast (fst d1), ucast (snd d1),
        ucast (fst d2), ucast (snd d2), ucast (fst d3), ucast (snd d3)]"
      unfolding byte_of_one [symmetric, of _ _ _ _ _ _ _ _ "partial s"] using less.prems by (simp add: step)
    have "ddr_run 0 rest ?s4 = map (ddr_byte (mask 1) 1) (chunks_exact 8 (edge_samples (butlast (d4 # rest))))"
      using less.hyps [OF _ f(4), of rest] cs by simp
    then show ?thesis
      using f b by (cases c; cases d1; cases d2; cases d3) (simp add: cs chunks_exact.simps Let_def)
  qed
qed

text \<open>
  Property C28. The port gives exactly the bytes that the host's reference decoder makes of the edge samples, at every
  width, with the last cycle still held.
\<close>

theorem ddr_capture_decodes:
  assumes "w \<le> 2"
  shows "decode_parallel_ddr (edge_samples (butlast cs)) (2 ^ w) = Inr (ddr_run w cs (ddr_reset s))"
proof (cases cs)
  case Nil
  consider "w = 0" | "w = 1" | "w = 2" using assms by linarith
  then show ?thesis by cases (simp_all add: Nil decode_parallel_ddr_def edge_samples_def chunks_exact.simps)
next
  case (Cons c ds)
  let ?t = "ddr_cycle w c (ddr_reset s)"
  have t: "ddr_holds w c ?t" "\<not> byte_valid ?t"
    using assms by (simp_all add: ddr_holds_def ddr_cycle_def ddr_posedge_def ddr_negedge_def ddr_reset_def Let_def)
  have run: "ddr_run w cs (ddr_reset s) = ddr_run w ds ?t" using t(2) by (simp add: Cons Let_def)
  consider "w = 0" | "w = 1" | "w = 2" using assms by linarith
  then show ?thesis
  proof cases
    case 1
    with run_one [of c ?t ds] t(1) run show ?thesis
      by (simp add: decode_parallel_ddr_def Cons mask_eq_exp_minus_1)
  next
    case 2
    with run_two [of c ?t ds] t(1) run show ?thesis
      by (simp add: decode_parallel_ddr_def Cons mask_eq_exp_minus_1)
  next
    case 3
    with run_four [of c ?t ds] t(1) run show ?thesis
      by (simp add: decode_parallel_ddr_def Cons mask_eq_exp_minus_1)
  qed
qed

definition ddr_blank :: ddr_capture where
  "ddr_blank = \<lparr>rise_sample = 0, fall_sample = 0, partial = 0, phase = 0, active_width = 0, primed = False, byte_data = 0,
     byte_valid = False\<rparr>"

theorem ddr_capture_decodes_witness:
  "decode_parallel_ddr (edge_samples [(0xb, 0xa)]) 4 = Inr (ddr_run 2 [(0xb, 0xa), (5, 12)] (ddr_reset ddr_blank))"
  using ddr_capture_decodes [of 2 "[(0xb, 0xa), (5, 12)]" ddr_blank] by simp

end
