(* ===== verification/RoutesRtl.thy ===== *)
theory RoutesRtl
  imports CoreRtl FifoRtl
begin

text \<open>
  The wiring between the capture units and the core in \<open>applications/orbtrace/rtl/orbtrace_pl.v\<close>: when capture runs, which
  stream reaches the core, and which of the queues are read.
\<close>

section \<open>Running\<close>

definition running_clock :: "bool \<Rightarrow> bool \<Rightarrow> bool \<Rightarrow> bool \<Rightarrow> bool \<Rightarrow> bool" where
  "running_clock aresetn start_pulse stop_pulse reset_pulse running =
     (if \<not> aresetn then False
      else let r = (if start_pulse then True else running)
        in if stop_pulse \<or> reset_pulse then False else r)"

text \<open>Both parallel ports are enabled by the synchronised copies of \<open>running\<close> and of the format.\<close>

definition capture_enable :: "bool \<Rightarrow> 3 word \<Rightarrow> bool" where
  "capture_enable running_s format_s \<longleftrightarrow> running_s \<and> format_s \<le> 2"

section \<open>Streams\<close>

text \<open>A byte and whether there is one, of each unit.\<close>

record streams =
  nrz_out :: "u8 \<times> bool"
  manchester_out :: "u8 \<times> bool"
  cdc_out :: "u8 \<times> bool"
  m3_cdc_out :: "u8 \<times> bool"
  test_out :: "u8 \<times> bool"

definition capture_stream :: "3 word \<Rightarrow> streams \<Rightarrow> u8 \<times> bool" where
  "capture_stream f st = (if f = 3 then nrz_out st else if f = 4 then manchester_out st else cdc_out st)"

definition m3_stream :: "3 word \<Rightarrow> streams \<Rightarrow> u8 \<times> bool" where
  "m3_stream f st = (if f = 3 then nrz_out st else if f = 4 then manchester_out st else m3_cdc_out st)"

definition pl_core_in :: "bool \<Rightarrow> 2 word \<Rightarrow> 3 word \<Rightarrow> bool \<Rightarrow> bool \<Rightarrow> streams \<Rightarrow> core_in" where
  "pl_core_in running sel f reset_pulse tready st =
     \<lparr>ci_reset_n = True, ci_source_select = sel, ci_trace_format = f, ci_reset_sync = reset_pulse,
      ci_m3_data = fst (m3_stream f st), ci_m3_valid = (running \<and> sel = 0 \<and> snd (m3_stream f st)),
      ci_coresight_data = fst (capture_stream f st), ci_coresight_valid = (running \<and> sel \<noteq> 0 \<and> snd (capture_stream f st)),
      ci_test_data = fst (test_out st), ci_test_valid = snd (test_out st), ci_tready = tready\<rparr>"

text \<open>The ready signals, from those of the core's multiplexer.\<close>

definition cdc_ready :: "3 word \<Rightarrow> bool \<times> bool \<times> bool \<Rightarrow> bool" where
  "cdc_ready f r = (case r of (m3, coresight, test) \<Rightarrow> if f < 3 then coresight else True)"

definition m3_cdc_ready :: "3 word \<Rightarrow> bool \<times> bool \<times> bool \<Rightarrow> bool" where
  "m3_cdc_ready f r = (case r of (m3, coresight, test) \<Rightarrow> if f < 3 then m3 else True)"

definition nrz_manchester_ready :: "2 word \<Rightarrow> bool \<times> bool \<times> bool \<Rightarrow> bool" where
  "nrz_manchester_ready sel r = (case r of (m3, coresight, test) \<Rightarrow> if sel = 0 then m3 else coresight)"

definition nrz_ready :: "2 word \<Rightarrow> 3 word \<Rightarrow> bool \<times> bool \<times> bool \<Rightarrow> bool" where
  "nrz_ready sel f r = (if f = 3 then nrz_manchester_ready sel r else False)"

definition manchester_ready :: "2 word \<Rightarrow> 3 word \<Rightarrow> bool \<times> bool \<times> bool \<Rightarrow> bool" where
  "manchester_ready sel f r = (if f = 4 then nrz_manchester_ready sel r else False)"

text \<open>What the status registers report of losses: both channels, whichever source is selected.\<close>

definition pl_dropped_bytes :: "u64 \<Rightarrow> 'p::len word cdc \<Rightarrow> 'q::len word cdc \<Rightarrow> u64" where
  "pl_dropped_bytes core_dropped c m3 = core_dropped + cdc_drops_sync c + cdc_drops_sync m3"

definition pl_irq_overrun :: "bool \<Rightarrow> 'p::len word cdc \<Rightarrow> 'q::len word cdc \<Rightarrow> bool" where
  "pl_irq_overrun core_overrun c m3 \<longleftrightarrow> core_overrun \<or> overrun_s2 c \<or> overrun_s2 m3"

section \<open>The stream that is selected\<close>

definition selected_stream :: "2 word \<Rightarrow> 3 word \<Rightarrow> streams \<Rightarrow> u8 \<times> bool" where
  "selected_stream sel f st =
     (if sel = 3 then test_out st else if f = 3 then nrz_out st else if f = 4 then manchester_out st
      else if sel = 0 then m3_cdc_out st else cdc_out st)"

lemma two_bits: "(sel :: 2 word) = 0 \<or> sel = 1 \<or> sel = 2 \<or> sel = 3"
proof -
  have "unat sel < 4" using unsigned_less [of sel] by simp
  then have "unat sel = 0 \<or> unat sel = 1 \<or> unat sel = 2 \<or> unat sel = 3" by linarith
  then show ?thesis by (simp add: word_unat_eq_iff)
qed

lemma selected_reaches_core:
  assumes "running"
  shows "mux_output (pl_core_in running sel f rp tready st) = selected_stream sel f st"
  using two_bits [of sel] assms
  by (elim disjE) (auto simp: mux_output_def pl_core_in_def selected_stream_def m3_stream_def capture_stream_def prod_eq_iff)

lemma selected_is_read:
  assumes "f < 3" "i = pl_core_in running sel f rp tready st"
  shows "m3_cdc_ready f (mux_ready i r) \<longleftrightarrow> sel = 0 \<and> r" "cdc_ready f (mux_ready i r) \<longleftrightarrow> (sel = 1 \<or> sel = 2) \<and> r"
  using two_bits [of sel] assms by (auto simp: m3_cdc_ready_def cdc_ready_def mux_ready_def pl_core_in_def)

section \<open>The streams that are not\<close>

text \<open>A queue that is not read.\<close>

lemma unread_run:
  assumes "\<forall>e \<in> set es. \<forall>i. snd e = Some i \<longrightarrow> \<not> read_ready i" "fifo_run es s = (t, w, r)"
  shows "r = []"
  using assms
proof (induction es arbitrary: s w r)
  case (Cons e es)
  have "fifo_read_out e s = []" using Cons.prems(1) by (auto simp: fifo_read_out_def split: option.splits)
  then show ?case using Cons by (auto split: prod.splits)
qed simp

lemma unread_channel_overruns:
  fixes s :: "'p::len word cdc"
  assumes "2 \<le> LENGTH('p)" "\<forall>e \<in> set es. out_of_reset e" "\<forall>e \<in> set es. \<forall>i. snd e = Some i \<longrightarrow> \<not> read_ready i"
    and "2 ^ (LENGTH('p) - 1) \<le> length (concat (map offered es))" "length (concat (map offered es)) < 2 ^ 64"
  shows "cdc_overrun (cdc_run es (cdc_reset s))
    \<and> length (concat (map offered es)) < unat (cdc_drops (cdc_run es (cdc_reset s))) + 2 ^ (LENGTH('p) - 1)"
proof -
  let ?n = "length (concat (map offered es))" and ?t = "cdc_run es (cdc_reset s)"
  obtain t w r where run: "fifo_run es (fifo_reset (crossing s)) = (t, w, r)" using prod_cases3 by blast
  have r: "r = []" by (rule unread_run [OF assms(3) run])
  obtain a1 a2 b1 b2 where inv: "fifo_inv t w r a1 a2 b1 b2"
    using fifo_run_inv [OF fifo_inv_reset assms(1,2) run] by auto
  then have w: "length w < 2 ^ (LENGTH('p) - 1)" unfolding fifo_inv_def r by auto
  obtain k1 k2 where c: "cdc_inv ?t (?n - length w) k1 k2"
    using cdc_run_inv [OF cdc_inv_reset(1) assms(2), of s] run cdc_inv_reset(2) [of s] by fastforce
  have "unat (cdc_drops ?t) = ?n - length w" using c assms(5) by (simp add: cdc_inv_def unat_of_nat)
  moreover have "cdc_overrun ?t" using c w assms(4) by (simp add: cdc_inv_def)
  ultimately show ?thesis using w by simp
qed


text \<open>Forty bytes of the M3 while the trace of the R5 is captured.\<close>

definition forty_bytes :: "fifo_edges list" where
  "forty_bytes = replicate 40 (fst (write_edge 7), Some \<lparr>read_reset_n = True, read_ready = False\<rparr>)"


end
