(* ===== verification/RegsRtl.thy ===== *)
theory RegsRtl
  imports Registers
begin

text \<open>
  The register block of the programmable logic, \<open>applications/orbtrace/rtl/orbtrace_axi_regs.sv\<close>, as a clocked step:
  the handshakes of the AXI-Lite port, the registers behind it, the interrupts and the mailbox of the debug-port
  engine.
\<close>

section \<open>Addresses\<close>

text \<open>The constants of the generated header \<open>orbtrace_regs.svh\<close>.\<close>

definition ORBTRACE_REG_ID :: u16 where "ORBTRACE_REG_ID = 0x0000"
definition ORBTRACE_REG_VERSION :: u16 where "ORBTRACE_REG_VERSION = 0x0004"
definition ORBTRACE_REG_CONTROL :: u16 where "ORBTRACE_REG_CONTROL = 0x0008"
definition ORBTRACE_REG_SOURCE_FORMAT :: u16 where "ORBTRACE_REG_SOURCE_FORMAT = 0x000c"
definition ORBTRACE_REG_SWO_BAUD :: u16 where "ORBTRACE_REG_SWO_BAUD = 0x0010"
definition ORBTRACE_REG_DMA_BASE_LO :: u16 where "ORBTRACE_REG_DMA_BASE_LO = 0x0018"
definition ORBTRACE_REG_DMA_BASE_HI :: u16 where "ORBTRACE_REG_DMA_BASE_HI = 0x001c"
definition ORBTRACE_REG_DMA_RING_SIZE :: u16 where "ORBTRACE_REG_DMA_RING_SIZE = 0x0020"
definition ORBTRACE_REG_IRQ_STATUS :: u16 where "ORBTRACE_REG_IRQ_STATUS = 0x0024"
definition ORBTRACE_REG_IRQ_ENABLE :: u16 where "ORBTRACE_REG_IRQ_ENABLE = 0x0028"
definition ORBTRACE_REG_RX_BYTES_LO :: u16 where "ORBTRACE_REG_RX_BYTES_LO = 0x0040"
definition ORBTRACE_REG_RX_BYTES_HI :: u16 where "ORBTRACE_REG_RX_BYTES_HI = 0x0044"
definition ORBTRACE_REG_DROP_BYTES_LO :: u16 where "ORBTRACE_REG_DROP_BYTES_LO = 0x0048"
definition ORBTRACE_REG_DROP_BYTES_HI :: u16 where "ORBTRACE_REG_DROP_BYTES_HI = 0x004c"
definition ORBTRACE_REG_SYNC_LOSS_LO :: u16 where "ORBTRACE_REG_SYNC_LOSS_LO = 0x0050"
definition ORBTRACE_REG_SYNC_LOSS_HI :: u16 where "ORBTRACE_REG_SYNC_LOSS_HI = 0x0054"
definition ORBTRACE_REG_FIFO_HIGH_WATER :: u16 where "ORBTRACE_REG_FIFO_HIGH_WATER = 0x0058"
definition ORBTRACE_REG_DMA_FAULTS_LO :: u16 where "ORBTRACE_REG_DMA_FAULTS_LO = 0x0060"
definition ORBTRACE_REG_DMA_FAULTS_HI :: u16 where "ORBTRACE_REG_DMA_FAULTS_HI = 0x0064"
definition ORBTRACE_REG_DAP_COMMAND :: u16 where "ORBTRACE_REG_DAP_COMMAND = 0x0080"
definition ORBTRACE_REG_DAP_RESPONSE :: u16 where "ORBTRACE_REG_DAP_RESPONSE = 0x0084"
definition ORBTRACE_REG_DAP_STATUS :: u16 where "ORBTRACE_REG_DAP_STATUS = 0x0088"
definition ORBTRACE_REG_DAP_CONTROL :: u16 where "ORBTRACE_REG_DAP_CONTROL = 0x008c"
definition ORBTRACE_REG_DAP_TRANSFERS_LO :: u16 where "ORBTRACE_REG_DAP_TRANSFERS_LO = 0x0090"
definition ORBTRACE_REG_DAP_TRANSFERS_HI :: u16 where "ORBTRACE_REG_DAP_TRANSFERS_HI = 0x0094"
definition ORBTRACE_REG_DAP_ABORTS :: u16 where "ORBTRACE_REG_DAP_ABORTS = 0x0098"
definition ORBTRACE_REG_M3_CONTROL :: u16 where "ORBTRACE_REG_M3_CONTROL = 0x00a0"

lemmas reg_address_defs =
  ORBTRACE_REG_ID_def ORBTRACE_REG_VERSION_def ORBTRACE_REG_CONTROL_def ORBTRACE_REG_SOURCE_FORMAT_def
  ORBTRACE_REG_SWO_BAUD_def ORBTRACE_REG_DMA_BASE_LO_def ORBTRACE_REG_DMA_BASE_HI_def ORBTRACE_REG_DMA_RING_SIZE_def
  ORBTRACE_REG_IRQ_STATUS_def ORBTRACE_REG_IRQ_ENABLE_def ORBTRACE_REG_RX_BYTES_LO_def ORBTRACE_REG_RX_BYTES_HI_def
  ORBTRACE_REG_DROP_BYTES_LO_def ORBTRACE_REG_DROP_BYTES_HI_def ORBTRACE_REG_SYNC_LOSS_LO_def
  ORBTRACE_REG_SYNC_LOSS_HI_def ORBTRACE_REG_FIFO_HIGH_WATER_def ORBTRACE_REG_DMA_FAULTS_LO_def
  ORBTRACE_REG_DMA_FAULTS_HI_def ORBTRACE_REG_DAP_COMMAND_def ORBTRACE_REG_DAP_RESPONSE_def ORBTRACE_REG_DAP_STATUS_def
  ORBTRACE_REG_DAP_CONTROL_def ORBTRACE_REG_DAP_TRANSFERS_LO_def ORBTRACE_REG_DAP_TRANSFERS_HI_def
  ORBTRACE_REG_DAP_ABORTS_def ORBTRACE_REG_M3_CONTROL_def

lemma reg_addresses_generated:
  "map snd register_entries = map unat
    [ORBTRACE_REG_ID, ORBTRACE_REG_VERSION, ORBTRACE_REG_CONTROL, ORBTRACE_REG_SOURCE_FORMAT, ORBTRACE_REG_SWO_BAUD, ORBTRACE_REG_DMA_BASE_LO, ORBTRACE_REG_DMA_BASE_HI, ORBTRACE_REG_DMA_RING_SIZE, ORBTRACE_REG_IRQ_STATUS, ORBTRACE_REG_IRQ_ENABLE, ORBTRACE_REG_RX_BYTES_LO, ORBTRACE_REG_RX_BYTES_HI, ORBTRACE_REG_DROP_BYTES_LO, ORBTRACE_REG_DROP_BYTES_HI, ORBTRACE_REG_SYNC_LOSS_LO, ORBTRACE_REG_SYNC_LOSS_HI, ORBTRACE_REG_FIFO_HIGH_WATER, ORBTRACE_REG_DMA_FAULTS_LO, ORBTRACE_REG_DMA_FAULTS_HI, ORBTRACE_REG_DAP_COMMAND, ORBTRACE_REG_DAP_RESPONSE, ORBTRACE_REG_DAP_STATUS, ORBTRACE_REG_DAP_CONTROL, ORBTRACE_REG_DAP_TRANSFERS_LO, ORBTRACE_REG_DAP_TRANSFERS_HI, ORBTRACE_REG_DAP_ABORTS, ORBTRACE_REG_M3_CONTROL]"
  by (simp add: register_entries_def reg_address_defs)

section \<open>State\<close>

record regs =
  bvalid :: bool
  rvalid :: bool
  rdata :: u32
  aw_pending :: bool
  w_pending :: bool
  awaddr_hold :: u16
  wdata_hold :: u32
  wstrb_hold :: "4 word"
  start_pulse :: bool
  stop_pulse :: bool
  reset_pulse :: bool
  rg_source_select :: "2 word"
  rg_trace_format :: "3 word"
  rg_swo_baud :: u32
  rg_dma_base :: u64
  rg_dma_ring_size :: u32
  irq_status :: "3 word"
  irq_enable :: "3 word"
  dap_command_data :: u8
  dap_command_valid :: bool
  dap_command_last :: bool
  dap_response_hold :: u8
  dap_response_hold_valid :: bool
  dap_response_hold_last :: bool
  dap_force_wait :: bool
  dap_force_fault :: bool
  dap_force_parity_error :: bool
  m3_release :: bool
  m3_dap_real :: bool

record axi_in =
  awaddr :: u16
  awvalid :: bool
  wdata :: u32
  wstrb :: "4 word"
  wvalid :: bool
  bready :: bool
  araddr :: u16
  arvalid :: bool
  rready :: bool

record logic_in =
  irq_dma_complete :: bool
  irq_overrun :: bool
  irq_debug_complete :: bool
  ri_received_bytes :: u64
  ri_dropped_bytes :: u64
  ri_sync_loss :: u64
  ri_fifo_high_water :: u32
  ri_dma_faults :: u64
  ri_command_ready :: bool
  ri_response_data :: u8
  ri_response_valid :: bool
  ri_response_last :: bool
  ri_transfer_count :: u64
  ri_abort_count :: u32

text \<open>An edge: reset, the inputs of the bus and those from the logic.\<close>

type_synonym regs_in = "bool \<times> axi_in \<times> logic_in"

section \<open>Wires\<close>

definition awready :: "regs \<Rightarrow> bool" where
  "awready s \<longleftrightarrow> \<not> aw_pending s \<and> \<not> bvalid s"

definition wready :: "regs \<Rightarrow> bool" where
  "wready s \<longleftrightarrow> \<not> w_pending s \<and> \<not> bvalid s"

definition aw_take :: "axi_in \<Rightarrow> regs \<Rightarrow> bool" where
  "aw_take i s \<longleftrightarrow> awvalid i \<and> awready s"

definition w_take :: "axi_in \<Rightarrow> regs \<Rightarrow> bool" where
  "w_take i s \<longleftrightarrow> wvalid i \<and> wready s"

definition write_fire :: "axi_in \<Rightarrow> regs \<Rightarrow> bool" where
  "write_fire i s \<longleftrightarrow> (aw_pending s \<or> aw_take i s) \<and> (w_pending s \<or> w_take i s) \<and> \<not> bvalid s"

definition write_address :: "axi_in \<Rightarrow> regs \<Rightarrow> u16" where
  "write_address i s = (if aw_pending s then awaddr_hold s else awaddr i)"

definition write_data_wire :: "axi_in \<Rightarrow> regs \<Rightarrow> u32" where
  "write_data_wire i s = (if w_pending s then wdata_hold s else wdata i)"

definition arready :: "regs \<Rightarrow> bool" where
  "arready s \<longleftrightarrow> \<not> rvalid s"

definition read_fire :: "axi_in \<Rightarrow> regs \<Rightarrow> bool" where
  "read_fire i s \<longleftrightarrow> arvalid i \<and> arready s"

definition irq :: "regs \<Rightarrow> bool" where
  "irq s \<longleftrightarrow> irq_status s AND irq_enable s \<noteq> 0"

definition dap_response_ready :: "regs \<Rightarrow> bool" where
  "dap_response_ready s \<longleftrightarrow> \<not> dap_response_hold_valid s"

section \<open>Registers\<close>

text \<open>A write to the register at \<open>a\<close>: from the state \<open>s\<close> before the edge, and what is assigned so far, \<open>t\<close>.\<close>

definition reg_write :: "u16 \<Rightarrow> u32 \<Rightarrow> regs \<Rightarrow> regs \<Rightarrow> regs" where
  "reg_write a d s t =
     (if a = ORBTRACE_REG_CONTROL then t\<lparr>start_pulse := bit d 0, stop_pulse := bit d 1, reset_pulse := bit d 2\<rparr>
      else if a = ORBTRACE_REG_SOURCE_FORMAT then t\<lparr>rg_source_select := ucast d, rg_trace_format := ucast (drop_bit 8 d)\<rparr>
      else if a = ORBTRACE_REG_SWO_BAUD then t\<lparr>rg_swo_baud := d\<rparr>
      else if a = ORBTRACE_REG_DMA_BASE_LO then t\<lparr>rg_dma_base := push_bit 32 (drop_bit 32 (rg_dma_base t)) OR ucast d\<rparr>
      else if a = ORBTRACE_REG_DMA_BASE_HI then t\<lparr>rg_dma_base := push_bit 32 (ucast d) OR take_bit 32 (rg_dma_base t)\<rparr>
      else if a = ORBTRACE_REG_DMA_RING_SIZE then t\<lparr>rg_dma_ring_size := d\<rparr>
      else if a = ORBTRACE_REG_IRQ_STATUS then t\<lparr>irq_status := irq_status s AND NOT (ucast d)\<rparr>
      else if a = ORBTRACE_REG_IRQ_ENABLE then t\<lparr>irq_enable := ucast d\<rparr>
      else if a = ORBTRACE_REG_DAP_COMMAND then
        (if \<not> dap_command_valid s then
           t\<lparr>dap_command_data := ucast d, dap_command_last := bit d 8, dap_command_valid := True\<rparr>
         else t)
      else if a = ORBTRACE_REG_DAP_CONTROL then
        t\<lparr>dap_force_wait := bit d 0, dap_force_fault := bit d 1, dap_force_parity_error := bit d 2\<rparr>
      else if a = ORBTRACE_REG_M3_CONTROL then t\<lparr>m3_release := bit d 0, m3_dap_real := bit d 1\<rparr>
      else t)"

text \<open>Concatenations of flags: the first one is bit 0.\<close>

definition flag_bits :: "bool list \<Rightarrow> u32" where
  "flag_bits bs = horner_sum of_bool 2 bs"

definition reg_read :: "u16 \<Rightarrow> logic_in \<Rightarrow> regs \<Rightarrow> u32" where
  "reg_read a i s =
     (if a = ORBTRACE_REG_ID then 0x4f524254
      else if a = ORBTRACE_REG_VERSION then 0x00010000
      else if a = ORBTRACE_REG_SOURCE_FORMAT then push_bit 8 (ucast (rg_trace_format s)) OR ucast (rg_source_select s)
      else if a = ORBTRACE_REG_SWO_BAUD then rg_swo_baud s
      else if a = ORBTRACE_REG_DMA_BASE_LO then ucast (rg_dma_base s)
      else if a = ORBTRACE_REG_DMA_BASE_HI then ucast (drop_bit 32 (rg_dma_base s))
      else if a = ORBTRACE_REG_DMA_RING_SIZE then rg_dma_ring_size s
      else if a = ORBTRACE_REG_IRQ_STATUS then ucast (irq_status s)
      else if a = ORBTRACE_REG_IRQ_ENABLE then ucast (irq_enable s)
      else if a = ORBTRACE_REG_RX_BYTES_LO then ucast (ri_received_bytes i)
      else if a = ORBTRACE_REG_RX_BYTES_HI then ucast (drop_bit 32 (ri_received_bytes i))
      else if a = ORBTRACE_REG_DROP_BYTES_LO then ucast (ri_dropped_bytes i)
      else if a = ORBTRACE_REG_DROP_BYTES_HI then ucast (drop_bit 32 (ri_dropped_bytes i))
      else if a = ORBTRACE_REG_SYNC_LOSS_LO then ucast (ri_sync_loss i)
      else if a = ORBTRACE_REG_SYNC_LOSS_HI then ucast (drop_bit 32 (ri_sync_loss i))
      else if a = ORBTRACE_REG_FIFO_HIGH_WATER then ri_fifo_high_water i
      else if a = ORBTRACE_REG_DMA_FAULTS_LO then ucast (ri_dma_faults i)
      else if a = ORBTRACE_REG_DMA_FAULTS_HI then ucast (drop_bit 32 (ri_dma_faults i))
      else if a = ORBTRACE_REG_DAP_RESPONSE then
        push_bit 8 (flag_bits [dap_response_hold_valid s, dap_response_hold_last s]) OR ucast (dap_response_hold s)
      else if a = ORBTRACE_REG_DAP_STATUS then flag_bits [\<not> dap_command_valid s, dap_response_hold_valid s]
      else if a = ORBTRACE_REG_DAP_CONTROL then flag_bits [dap_force_wait s, dap_force_fault s, dap_force_parity_error s]
      else if a = ORBTRACE_REG_DAP_TRANSFERS_LO then ucast (ri_transfer_count i)
      else if a = ORBTRACE_REG_DAP_TRANSFERS_HI then ucast (drop_bit 32 (ri_transfer_count i))
      else if a = ORBTRACE_REG_DAP_ABORTS then ri_abort_count i
      else if a = ORBTRACE_REG_M3_CONTROL then flag_bits [m3_release s, m3_dap_real s]
      else 0)"

section \<open>The clock edge\<close>

definition regs_reset :: "regs \<Rightarrow> regs" where
  "regs_reset s = s\<lparr>bvalid := False, rvalid := False, rdata := 0, aw_pending := False, w_pending := False,
     awaddr_hold := 0, wdata_hold := 0, wstrb_hold := 0, start_pulse := False, stop_pulse := False, reset_pulse := False,
     rg_source_select := 0, rg_trace_format := 0, rg_swo_baud := 2000000, rg_dma_base := 0, rg_dma_ring_size := 0,
     irq_status := 0, irq_enable := 0, dap_command_data := 0, dap_command_valid := False, dap_command_last := False,
     dap_response_hold := 0, dap_response_hold_valid := False, dap_response_hold_last := False, dap_force_wait := False,
     dap_force_fault := False, dap_force_parity_error := False, m3_release := False, m3_dap_real := False\<rparr>"

text \<open>The assignments in front of the two accesses, the write and the read.\<close>

definition events_ff :: "axi_in \<Rightarrow> logic_in \<Rightarrow> regs \<Rightarrow> regs \<Rightarrow> regs" where
  "events_ff a i s t =
     (let t = t\<lparr>start_pulse := False, stop_pulse := False, reset_pulse := False\<rparr>;
          t = (if irq_dma_complete i then t\<lparr>irq_status := set_bit 0 (irq_status t)\<rparr> else t);
          t = (if irq_overrun i then t\<lparr>irq_status := set_bit 1 (irq_status t)\<rparr> else t);
          t = (if irq_debug_complete i then t\<lparr>irq_status := set_bit 2 (irq_status t)\<rparr> else t);
          t = (if bvalid s \<and> bready a then t\<lparr>bvalid := False\<rparr> else t);
          t = (if dap_command_valid s \<and> ri_command_ready i then t\<lparr>dap_command_valid := False\<rparr> else t)
      in if ri_response_valid i \<and> dap_response_ready s then
           t\<lparr>dap_response_hold := ri_response_data i, dap_response_hold_last := ri_response_last i,
             dap_response_hold_valid := True\<rparr>
         else t)"

definition reg_write_ff :: "axi_in \<Rightarrow> regs \<Rightarrow> regs \<Rightarrow> regs" where
  "reg_write_ff a s t =
     (let t = (if aw_take a s then t\<lparr>awaddr_hold := awaddr a, aw_pending := True\<rparr> else t);
          t = (if w_take a s then t\<lparr>wdata_hold := wdata a, wstrb_hold := wstrb a, w_pending := True\<rparr> else t)
      in if write_fire a s then
           reg_write (write_address a s) (write_data_wire a s) s (t\<lparr>bvalid := True, aw_pending := False, w_pending := False\<rparr>)
         else t)"

definition reg_read_ff :: "axi_in \<Rightarrow> logic_in \<Rightarrow> regs \<Rightarrow> regs \<Rightarrow> regs" where
  "reg_read_ff a i s t =
     (let t = (if rvalid s \<and> rready a then t\<lparr>rvalid := False\<rparr> else t)
      in if read_fire a s then
           let t = t\<lparr>rvalid := True, rdata := reg_read (araddr a) i s\<rparr>
           in if araddr a = ORBTRACE_REG_DAP_RESPONSE then t\<lparr>dap_response_hold_valid := False\<rparr> else t
         else t)"

definition regs_clock :: "regs_in \<Rightarrow> regs \<Rightarrow> regs" where
  "regs_clock e s =
     (case e of (aresetn, a, i) \<Rightarrow>
        if \<not> aresetn then regs_reset s else reg_read_ff a i s (reg_write_ff a s (events_ff a i s s)))"

text \<open>
  A run out of reset: the addresses and the data taken, the number of responses to writes, the reads taken with
  the value of the register then, and the words given.
\<close>

fun regs_run :: "(axi_in \<times> logic_in) list \<Rightarrow> regs \<Rightarrow>
    u16 list \<times> u32 list \<times> nat \<times> (u16 \<times> u32) list \<times> u32 list \<times> regs" where
  "regs_run [] s = ([], [], 0, [], [], s)"
| "regs_run ((a, i) # es) s =
     (case regs_run es (regs_clock (True, a, i) s) of (aws, ws, n, ars, rs, t) \<Rightarrow>
        ((if aw_take a s then [awaddr a] else []) @ aws, (if w_take a s then [wdata a] else []) @ ws,
         (if bvalid s \<and> bready a then 1 else 0) + n,
         (if read_fire a s then [(araddr a, reg_read (araddr a) i s)] else []) @ ars,
         (if rvalid s \<and> rready a then [rdata s] else []) @ rs, t))"

section \<open>A file of registers\<close>

text \<open>
  The registers that keep what is written to them, the bits that they have, and their values after reset.
\<close>

definition plain_registers :: "u16 list" where
  "plain_registers = [ORBTRACE_REG_SOURCE_FORMAT, ORBTRACE_REG_SWO_BAUD, ORBTRACE_REG_DMA_BASE_LO, ORBTRACE_REG_DMA_BASE_HI,
     ORBTRACE_REG_DMA_RING_SIZE, ORBTRACE_REG_IRQ_ENABLE, ORBTRACE_REG_DAP_CONTROL, ORBTRACE_REG_M3_CONTROL]"

definition register_bits :: "u16 \<Rightarrow> u32" where
  "register_bits a =
     (if a = ORBTRACE_REG_SOURCE_FORMAT then 0x703
      else if a = ORBTRACE_REG_IRQ_ENABLE \<or> a = ORBTRACE_REG_DAP_CONTROL then 7
      else if a = ORBTRACE_REG_M3_CONTROL then 3 else NOT 0)"

definition reset_value :: "u16 \<Rightarrow> u32" where
  "reset_value a = (if a = ORBTRACE_REG_SWO_BAUD then 2000000 else 0)"

text \<open>What a register holds after a list of writes: the last word written to it.\<close>

definition stored :: "u16 \<Rightarrow> (u16 \<times> u32) list \<Rightarrow> u32" where
  "stored a ws = foldl (\<lambda>v (b, d). if b = a then d AND register_bits a else v) (reset_value a) ws"

lemma stored_snoc: "stored a (ws @ [(b, d)]) = (if b = a then d AND register_bits a else stored a ws)"
  by (simp add: stored_def)

lemma bit_flag_bits: "bit (flag_bits bs) n \<longleftrightarrow> n < 32 \<and> n < length bs \<and> bs ! n"
  unfolding flag_bits_def by (simp add: bit_horner_sum_bit_iff)

lemma read_back_source_format:
  "push_bit 8 (ucast (ucast (drop_bit 8 d) :: 3 word)) OR ucast (ucast d :: 2 word) = (d :: u32) AND 0x703"
proof -
  have "(0x703 :: u32) = mask 2 OR push_bit 8 (mask 3)" by (simp add: mask_eq_exp_minus_1)
  moreover have "bit (push_bit 8 (ucast (ucast (drop_bit 8 d) :: 3 word)) OR ucast (ucast d :: 2 word) :: u32) n =
      bit (d AND (mask 2 OR push_bit 8 (mask 3))) n" if "n < 32" for n
    using that by (auto simp: bit_simps)
  ultimately show ?thesis by (intro bit_word_eqI) simp
qed

lemma read_back_flags:
  "flag_bits [bit d 0, bit d 1, bit d 2] = d AND 7" "flag_bits [bit d 0, bit d 1] = d AND 3"
proof -
  have m: "(7 :: u32) = mask 3" "(3 :: u32) = mask 2" by (simp_all add: mask_eq_exp_minus_1)
  have n: "n = 0 \<or> n = 1 \<or> n = 2 \<or> 3 \<le> n" for n :: nat by linarith
  show "flag_bits [bit d 0, bit d 1, bit d 2] = d AND 7"
    unfolding m
  proof (rule bit_word_eqI)
    fix n
    assume "n < LENGTH(32)"
    then show "bit (flag_bits [bit d 0, bit d 1, bit d 2]) n = bit (d AND mask 3) n"
      using n [of n] by (elim disjE) (simp_all add: bit_flag_bits bit_simps)
  qed
  show "flag_bits [bit d 0, bit d 1] = d AND 3"
    unfolding m
  proof (rule bit_word_eqI)
    fix n
    assume "n < LENGTH(32)"
    then show "bit (flag_bits [bit d 0, bit d 1]) n = bit (d AND mask 2) n"
      using n [of n] by (elim disjE) (simp_all add: bit_flag_bits bit_simps)
  qed
qed

lemma read_back_irq_enable: "ucast (ucast d :: 3 word) = (d :: u32) AND 7"
proof -
  have m: "(7 :: u32) = mask 3" by (simp add: mask_eq_exp_minus_1)
  show ?thesis unfolding m by (rule bit_word_eqI) (auto simp: bit_simps)
qed

lemma read_back_base:
  "ucast (push_bit 32 (drop_bit 32 b) OR ucast d :: u64) = (d :: u32)"
  "ucast (drop_bit 32 (push_bit 32 (drop_bit 32 b) OR ucast d) :: u64) = (ucast (drop_bit 32 b) :: u32)"
  "ucast (push_bit 32 (ucast d) OR take_bit 32 b :: u64) = (ucast b :: u32)"
  "ucast (drop_bit 32 (push_bit 32 (ucast d) OR take_bit 32 b) :: u64) = (d :: u32)"
  by (rule bit_word_eqI; auto simp: bit_simps dest: bit_imp_le_length)+

text \<open>One edge: what a write to another register leaves, and what an access assigns beside it.\<close>

lemma reg_write_other:
  "a \<noteq> ORBTRACE_REG_SOURCE_FORMAT \<Longrightarrow> rg_source_select (reg_write a d s t) = rg_source_select t"
  "a \<noteq> ORBTRACE_REG_SOURCE_FORMAT \<Longrightarrow> rg_trace_format (reg_write a d s t) = rg_trace_format t"
  "a \<noteq> ORBTRACE_REG_SWO_BAUD \<Longrightarrow> rg_swo_baud (reg_write a d s t) = rg_swo_baud t"
  "a \<noteq> ORBTRACE_REG_DMA_BASE_LO \<Longrightarrow> a \<noteq> ORBTRACE_REG_DMA_BASE_HI \<Longrightarrow> rg_dma_base (reg_write a d s t) = rg_dma_base t"
  "a \<noteq> ORBTRACE_REG_DMA_RING_SIZE \<Longrightarrow> rg_dma_ring_size (reg_write a d s t) = rg_dma_ring_size t"
  "a \<noteq> ORBTRACE_REG_IRQ_ENABLE \<Longrightarrow> irq_enable (reg_write a d s t) = irq_enable t"
  "a \<noteq> ORBTRACE_REG_DAP_CONTROL \<Longrightarrow> dap_force_wait (reg_write a d s t) = dap_force_wait t"
  "a \<noteq> ORBTRACE_REG_DAP_CONTROL \<Longrightarrow> dap_force_fault (reg_write a d s t) = dap_force_fault t"
  "a \<noteq> ORBTRACE_REG_DAP_CONTROL \<Longrightarrow> dap_force_parity_error (reg_write a d s t) = dap_force_parity_error t"
  "a \<noteq> ORBTRACE_REG_M3_CONTROL \<Longrightarrow> m3_release (reg_write a d s t) = m3_release t"
  "a \<noteq> ORBTRACE_REG_M3_CONTROL \<Longrightarrow> m3_dap_real (reg_write a d s t) = m3_dap_real t"
  by (simp_all add: reg_write_def)

lemma reg_write_hit:
  "rg_source_select (reg_write ORBTRACE_REG_SOURCE_FORMAT d s t) = ucast d"
  "rg_trace_format (reg_write ORBTRACE_REG_SOURCE_FORMAT d s t) = ucast (drop_bit 8 d)"
  "rg_swo_baud (reg_write ORBTRACE_REG_SWO_BAUD d s t) = d"
  "rg_dma_base (reg_write ORBTRACE_REG_DMA_BASE_LO d s t) = push_bit 32 (drop_bit 32 (rg_dma_base t)) OR ucast d"
  "rg_dma_base (reg_write ORBTRACE_REG_DMA_BASE_HI d s t) = push_bit 32 (ucast d) OR take_bit 32 (rg_dma_base t)"
  "rg_dma_ring_size (reg_write ORBTRACE_REG_DMA_RING_SIZE d s t) = d"
  "irq_enable (reg_write ORBTRACE_REG_IRQ_ENABLE d s t) = ucast d"
  "dap_force_wait (reg_write ORBTRACE_REG_DAP_CONTROL d s t) = bit d 0"
  "dap_force_fault (reg_write ORBTRACE_REG_DAP_CONTROL d s t) = bit d 1"
  "dap_force_parity_error (reg_write ORBTRACE_REG_DAP_CONTROL d s t) = bit d 2"
  "m3_release (reg_write ORBTRACE_REG_M3_CONTROL d s t) = bit d 0"
  "m3_dap_real (reg_write ORBTRACE_REG_M3_CONTROL d s t) = bit d 1"
  by (simp_all add: reg_write_def reg_address_defs)

lemma reg_read_plain:
  "reg_read ORBTRACE_REG_SOURCE_FORMAT i s = push_bit 8 (ucast (rg_trace_format s)) OR ucast (rg_source_select s)"
  "reg_read ORBTRACE_REG_SWO_BAUD i s = rg_swo_baud s"
  "reg_read ORBTRACE_REG_DMA_BASE_LO i s = ucast (rg_dma_base s)"
  "reg_read ORBTRACE_REG_DMA_BASE_HI i s = ucast (drop_bit 32 (rg_dma_base s))"
  "reg_read ORBTRACE_REG_DMA_RING_SIZE i s = rg_dma_ring_size s"
  "reg_read ORBTRACE_REG_IRQ_ENABLE i s = ucast (irq_enable s)"
  "reg_read ORBTRACE_REG_DAP_CONTROL i s = flag_bits [dap_force_wait s, dap_force_fault s, dap_force_parity_error s]"
  "reg_read ORBTRACE_REG_M3_CONTROL i s = flag_bits [m3_release s, m3_dap_real s]"
  by (simp_all add: reg_read_def reg_address_defs)

lemma register_bits_plain:
  "register_bits ORBTRACE_REG_SOURCE_FORMAT = 0x703" "register_bits ORBTRACE_REG_IRQ_ENABLE = 7"
  "register_bits ORBTRACE_REG_DAP_CONTROL = 7" "register_bits ORBTRACE_REG_M3_CONTROL = 3"
  "d AND register_bits ORBTRACE_REG_SWO_BAUD = d" "d AND register_bits ORBTRACE_REG_DMA_BASE_LO = d"
  "d AND register_bits ORBTRACE_REG_DMA_BASE_HI = d" "d AND register_bits ORBTRACE_REG_DMA_RING_SIZE = d"
  by (simp_all add: register_bits_def reg_address_defs)

lemma plain_cases:
  assumes "a \<in> set plain_registers"
  obtains "a = ORBTRACE_REG_SOURCE_FORMAT" | "a = ORBTRACE_REG_SWO_BAUD" | "a = ORBTRACE_REG_DMA_BASE_LO"
    | "a = ORBTRACE_REG_DMA_BASE_HI" | "a = ORBTRACE_REG_DMA_RING_SIZE" | "a = ORBTRACE_REG_IRQ_ENABLE"
    | "a = ORBTRACE_REG_DAP_CONTROL" | "a = ORBTRACE_REG_M3_CONTROL"
  using assms unfolding plain_registers_def by auto

lemma reg_read_hits:
  "reg_read ORBTRACE_REG_SOURCE_FORMAT i (reg_write ORBTRACE_REG_SOURCE_FORMAT d s t) = d AND register_bits ORBTRACE_REG_SOURCE_FORMAT"
  "reg_read ORBTRACE_REG_SWO_BAUD i (reg_write ORBTRACE_REG_SWO_BAUD d s t) = d AND register_bits ORBTRACE_REG_SWO_BAUD"
  "reg_read ORBTRACE_REG_DMA_BASE_LO i (reg_write ORBTRACE_REG_DMA_BASE_LO d s t) = d AND register_bits ORBTRACE_REG_DMA_BASE_LO"
  "reg_read ORBTRACE_REG_DMA_BASE_HI i (reg_write ORBTRACE_REG_DMA_BASE_HI d s t) = d AND register_bits ORBTRACE_REG_DMA_BASE_HI"
  "reg_read ORBTRACE_REG_DMA_RING_SIZE i (reg_write ORBTRACE_REG_DMA_RING_SIZE d s t) = d AND register_bits ORBTRACE_REG_DMA_RING_SIZE"
  "reg_read ORBTRACE_REG_IRQ_ENABLE i (reg_write ORBTRACE_REG_IRQ_ENABLE d s t) = d AND register_bits ORBTRACE_REG_IRQ_ENABLE"
  "reg_read ORBTRACE_REG_DAP_CONTROL i (reg_write ORBTRACE_REG_DAP_CONTROL d s t) = d AND register_bits ORBTRACE_REG_DAP_CONTROL"
  "reg_read ORBTRACE_REG_M3_CONTROL i (reg_write ORBTRACE_REG_M3_CONTROL d s t) = d AND register_bits ORBTRACE_REG_M3_CONTROL"
  unfolding reg_read_plain reg_write_hit register_bits_plain read_back_source_format read_back_flags read_back_base
  by (rule refl read_back_irq_enable)+

lemma reg_read_hit: "a \<in> set plain_registers \<Longrightarrow> reg_read a i (reg_write a d s t) = d AND register_bits a"
  by (erule plain_cases) (simp_all only: reg_read_hits)

lemma reg_read_other:
  assumes "a \<in> set plain_registers" "b \<noteq> a"
  shows "reg_read a i (reg_write b d s t) = reg_read a i' t"
proof -
  have lo: "ucast (rg_dma_base (reg_write b d s t)) = (ucast (rg_dma_base t) :: u32)" if "b \<noteq> ORBTRACE_REG_DMA_BASE_LO"
    using that by (cases "b = ORBTRACE_REG_DMA_BASE_HI") (simp_all only: reg_write_hit read_back_base reg_write_other not_False_eq_True)
  have hi: "ucast (drop_bit 32 (rg_dma_base (reg_write b d s t))) = (ucast (drop_bit 32 (rg_dma_base t)) :: u32)"
    if "b \<noteq> ORBTRACE_REG_DMA_BASE_HI"
    using that by (cases "b = ORBTRACE_REG_DMA_BASE_LO") (simp_all only: reg_write_hit read_back_base reg_write_other not_False_eq_True)
  show ?thesis
    using assms(2) by (rule_tac plain_cases [OF assms(1)]) (simp_all only: reg_read_plain reg_write_other lo hi not_False_eq_True)
qed

text \<open>Only these fields are read.\<close>

lemma reg_read_beside:
  assumes "a \<in> set plain_registers" "rg_source_select t = rg_source_select s" "rg_trace_format t = rg_trace_format s"
    "rg_swo_baud t = rg_swo_baud s" "rg_dma_base t = rg_dma_base s" "rg_dma_ring_size t = rg_dma_ring_size s"
    "irq_enable t = irq_enable s" "dap_force_wait t = dap_force_wait s" "dap_force_fault t = dap_force_fault s"
    "dap_force_parity_error t = dap_force_parity_error s" "m3_release t = m3_release s" "m3_dap_real t = m3_dap_real s"
  shows "reg_read a i t = reg_read a i' s"
  using assms by (rule_tac plain_cases [OF assms(1)]) (simp_all only: reg_read_plain)

lemma read_after_edge:
  assumes "a \<in> set plain_registers"
  shows "reg_read a i' (regs_clock (True, ax, i) s) =
    (if write_fire ax s \<and> write_address ax s = a then write_data_wire ax s AND register_bits a else reg_read a i s)"
proof -
  let ?u = "events_ff ax i s s"
  let ?v = "if w_take ax s then (if aw_take ax s then ?u\<lparr>awaddr_hold := awaddr ax, aw_pending := True\<rparr> else ?u)
      \<lparr>wdata_hold := wdata ax, wstrb_hold := wstrb ax, w_pending := True\<rparr>
    else if aw_take ax s then ?u\<lparr>awaddr_hold := awaddr ax, aw_pending := True\<rparr> else ?u"
  let ?w = "?v\<lparr>bvalid := True, aw_pending := False, w_pending := False\<rparr>"
  have "reg_read a i' (regs_clock (True, ax, i) s) = reg_read a i' (reg_write_ff ax s ?u)"
    by (rule reg_read_beside [OF assms]) (simp_all add: regs_clock_def reg_read_ff_def Let_def)
  also have "reg_write_ff ax s ?u =
      (if write_fire ax s then reg_write (write_address ax s) (write_data_wire ax s) s ?w else ?v)"
    by (simp add: reg_write_ff_def Let_def)
  finally have step: "reg_read a i' (regs_clock (True, ax, i) s) = reg_read a i'
      (if write_fire ax s then reg_write (write_address ax s) (write_data_wire ax s) s ?w else ?v)" .
  have "reg_read a i' ?v = reg_read a i s" "reg_read a i' ?w = reg_read a i s"
    by (rule reg_read_beside [OF assms]; simp add: events_ff_def Let_def)+
  then show ?thesis
    unfolding step using reg_read_hit [OF assms] reg_read_other [OF assms, of "write_address ax s" i' _ s ?w i'] by simp
qed

text \<open>The handshakes, as each block of the edge leaves them.\<close>

lemma bus_after_edge:
  "bvalid (regs_clock (True, a, i) s) \<longleftrightarrow> write_fire a s \<or> bvalid s \<and> \<not> bready a"
  "aw_pending (regs_clock (True, a, i) s) \<longleftrightarrow> \<not> write_fire a s \<and> (aw_pending s \<or> aw_take a s)"
  "w_pending (regs_clock (True, a, i) s) \<longleftrightarrow> \<not> write_fire a s \<and> (w_pending s \<or> w_take a s)"
  "awaddr_hold (regs_clock (True, a, i) s) = (if aw_take a s then awaddr a else awaddr_hold s)"
  "wdata_hold (regs_clock (True, a, i) s) = (if w_take a s then wdata a else wdata_hold s)"
  "rvalid (regs_clock (True, a, i) s) \<longleftrightarrow> read_fire a s \<or> rvalid s \<and> \<not> rready a"
  "rdata (regs_clock (True, a, i) s) = (if read_fire a s then reg_read (araddr a) i s else rdata s)"
proof -
  let ?u = "events_ff a i s s" let ?v = "reg_write_ff a s ?u"
  have u: "bvalid ?u = (bvalid s \<and> \<not> bready a)" "aw_pending ?u = aw_pending s" "w_pending ?u = w_pending s"
    "awaddr_hold ?u = awaddr_hold s" "wdata_hold ?u = wdata_hold s" "rvalid ?u = rvalid s" "rdata ?u = rdata s"
    by (auto simp: events_ff_def Let_def)
  have w: "bvalid (reg_write b d s t) = bvalid t" "aw_pending (reg_write b d s t) = aw_pending t"
    "w_pending (reg_write b d s t) = w_pending t" "awaddr_hold (reg_write b d s t) = awaddr_hold t"
    "wdata_hold (reg_write b d s t) = wdata_hold t" "rvalid (reg_write b d s t) = rvalid t" "rdata (reg_write b d s t) = rdata t"
    for b d t by (simp_all add: reg_write_def)
  have v: "bvalid ?v = (write_fire a s \<or> bvalid s \<and> \<not> bready a)" "aw_pending ?v = (\<not> write_fire a s \<and> (aw_pending s \<or> aw_take a s))"
    "w_pending ?v = (\<not> write_fire a s \<and> (w_pending s \<or> w_take a s))"
    "awaddr_hold ?v = (if aw_take a s then awaddr a else awaddr_hold s)"
    "wdata_hold ?v = (if w_take a s then wdata a else wdata_hold s)" "rvalid ?v = rvalid s" "rdata ?v = rdata s"
    by (simp_all add: reg_write_ff_def u w Let_def)
  show "bvalid (regs_clock (True, a, i) s) \<longleftrightarrow> write_fire a s \<or> bvalid s \<and> \<not> bready a"
    "aw_pending (regs_clock (True, a, i) s) \<longleftrightarrow> \<not> write_fire a s \<and> (aw_pending s \<or> aw_take a s)"
    "w_pending (regs_clock (True, a, i) s) \<longleftrightarrow> \<not> write_fire a s \<and> (w_pending s \<or> w_take a s)"
    "awaddr_hold (regs_clock (True, a, i) s) = (if aw_take a s then awaddr a else awaddr_hold s)"
    "wdata_hold (regs_clock (True, a, i) s) = (if w_take a s then wdata a else wdata_hold s)"
    "rvalid (regs_clock (True, a, i) s) \<longleftrightarrow> read_fire a s \<or> rvalid s \<and> \<not> rready a"
    "rdata (regs_clock (True, a, i) s) = (if read_fire a s then reg_read (araddr a) i s else rdata s)"
    by (auto simp: regs_clock_def reg_read_ff_def v Let_def)
qed

text \<open>The addresses and data taken so far, \<open>aws\<close> and \<open>ws\<close>, the responses \<open>n\<close>, the values read \<open>vs\<close> and given \<open>rs\<close>.\<close>

definition axi_inv :: "regs \<Rightarrow> u16 list \<Rightarrow> u32 list \<Rightarrow> nat \<Rightarrow> u32 list \<Rightarrow> u32 list \<Rightarrow> bool" where
  "axi_inv s aws ws n vs rs \<longleftrightarrow>
     (bvalid s \<longrightarrow> \<not> aw_pending s \<and> \<not> w_pending s) \<and> \<not> (aw_pending s \<and> w_pending s)
     \<and> (if aw_pending s then \<exists>xs. aws = xs @ [awaddr_hold s] \<and> length xs = length ws
        else if w_pending s then \<exists>ys. ws = ys @ [wdata_hold s] \<and> length ys = length aws
        else length aws = length ws)
     \<and> length (zip aws ws) = n + (if bvalid s then 1 else 0)
     \<and> (\<forall>a \<in> set plain_registers. \<forall>i. reg_read a i s = stored a (zip aws ws))
     \<and> vs = rs @ (if rvalid s then [rdata s] else [])"

lemma axi_inv_reset: "axi_inv (regs_reset s) [] [] 0 [] []"
proof -
  have "reg_read a i (regs_reset s) = stored a []" if "a \<in> set plain_registers" for a i
    using that by (auto simp: plain_registers_def regs_reset_def reg_read_def stored_def reset_value_def flag_bits_def reg_address_defs)
  then show ?thesis by (simp add: axi_inv_def regs_reset_def)
qed

lemma axi_step:
  assumes "axi_inv s aws ws n vs rs"
  shows "axi_inv (regs_clock (True, a, i) s) (aws @ (if aw_take a s then [awaddr a] else [])) (ws @ (if w_take a s then [wdata a] else []))
    (n + (if bvalid s \<and> bready a then 1 else 0)) (vs @ (if read_fire a s then [reg_read (araddr a) i s] else []))
    (rs @ (if rvalid s \<and> rready a then [rdata s] else []))"
proof -
  let ?t = "regs_clock (True, a, i) s" and ?aws = "aws @ (if aw_take a s then [awaddr a] else [])"
  let ?ws = "ws @ (if w_take a s then [wdata a] else [])"
  have more: "length ys = length xs \<Longrightarrow> zip xs (ys @ zs) = zip xs ys" for xs :: "u16 list" and ys zs :: "u32 list"
    by (simp add: zip_append2)
  have zip: "zip ?aws ?ws = zip aws ws @ (if write_fire a s then [(write_address a s, write_data_wire a s)] else [])"
    using assms unfolding axi_inv_def write_fire_def aw_take_def w_take_def awready_def wready_def write_address_def write_data_wire_def
    by (cases "aw_pending s"; cases "w_pending s"; cases "bvalid s") (auto simp: zip_append1 more split: if_splits)
  have shape: "(bvalid ?t \<longrightarrow> \<not> aw_pending ?t \<and> \<not> w_pending ?t) \<and> \<not> (aw_pending ?t \<and> w_pending ?t)
     \<and> (if aw_pending ?t then \<exists>xs. ?aws = xs @ [awaddr_hold ?t] \<and> length xs = length ?ws
        else if w_pending ?t then \<exists>ys. ?ws = ys @ [wdata_hold ?t] \<and> length ys = length ?aws
        else length ?aws = length ?ws)"
    using assms unfolding axi_inv_def bus_after_edge write_fire_def aw_take_def w_take_def awready_def wready_def
    by (cases "aw_pending s"; cases "w_pending s"; cases "bvalid s") (auto split: if_splits)
  have resp: "length (zip ?aws ?ws) = n + (if bvalid s \<and> bready a then 1 else 0) + (if bvalid ?t then 1 else 0)"
    using assms unfolding zip axi_inv_def bus_after_edge by (auto simp: write_fire_def)
  have regs: "\<forall>b \<in> set plain_registers. \<forall>i. reg_read b i ?t = stored b (zip ?aws ?ws)"
    using assms unfolding zip axi_inv_def by (auto simp: read_after_edge stored_snoc)
  have reads: "vs @ (if read_fire a s then [reg_read (araddr a) i s] else []) =
      (rs @ (if rvalid s \<and> rready a then [rdata s] else [])) @ (if rvalid ?t then [rdata ?t] else [])"
    using assms unfolding axi_inv_def bus_after_edge by (auto simp: read_fire_def arready_def)
  show ?thesis unfolding axi_inv_def [of ?t] using shape resp regs reads by blast
qed

lemma axi_run:
  assumes "axi_inv s aws ws n vs rs" "regs_run es s = (aws', ws', n', ars, rs', t)"
  shows "axi_inv t (aws @ aws') (ws @ ws') (n + n') (vs @ map snd ars) (rs @ rs')"
  using assms
proof (induction es arbitrary: s aws ws n vs rs aws' ws' n' ars rs')
  case Nil
  then show ?case by simp
next
  case (Cons e es)
  obtain a i where e: "e = (a, i)" by (cases e)
  obtain aws2 ws2 n2 ars2 rs2 where run: "regs_run es (regs_clock (True, a, i) s) = (aws2, ws2, n2, ars2, rs2, t)"
    using Cons.prems(2) unfolding e by (auto split: prod.splits)
  have "aws' = (if aw_take a s then [awaddr a] else []) @ aws2" "ws' = (if w_take a s then [wdata a] else []) @ ws2"
    "n' = (if bvalid s \<and> bready a then 1 else 0) + n2"
    "map snd ars = (if read_fire a s then [reg_read (araddr a) i s] else []) @ map snd ars2"
    "rs' = (if rvalid s \<and> rready a then [rdata s] else []) @ rs2"
    using Cons.prems(2) run unfolding e by auto
  then show ?case using Cons.IH [OF axi_step [OF Cons.prems(1), of a i] run] by (simp only: append_assoc add.assoc)
qed

text \<open>
  Property C15. However the master spaces the addresses, the data and its readiness, the block performs exactly one write
  for each address with its data, in order, and answers each once; a register that keeps its word
  reads as the last word written to it, in the bits that it has, or as its reset value; and each read
  is answered once, with the value at the time it was taken.
\<close>

theorem register_file:
  assumes "regs_run es (regs_reset s) = (aws, ws, n, ars, rs, t)"
  shows "length aws \<le> length ws + 1 \<and> length ws \<le> length aws + 1 \<and> length (zip aws ws) = n + (if bvalid t then 1 else 0)
    \<and> (\<forall>a \<in> set plain_registers. \<forall>i. reg_read a i t = stored a (zip aws ws))
    \<and> map snd ars = rs @ (if rvalid t then [rdata t] else [])"
proof -
  have inv: "axi_inv t aws ws n (map snd ars) rs" using axi_run [OF axi_inv_reset assms] by simp
  then have "length aws \<le> length ws + 1 \<and> length ws \<le> length aws + 1"
    unfolding axi_inv_def by (auto split: if_splits)
  with inv show ?thesis unfolding axi_inv_def by blast
qed

text \<open>A master that sends an address, then its data, and reads the register back.\<close>

definition regs_init :: regs where
  "regs_init = regs_reset \<lparr>bvalid = True, rvalid = True, rdata = 1, aw_pending = False, w_pending = False, awaddr_hold = 0,
     wdata_hold = 0, wstrb_hold = 0, start_pulse = False, stop_pulse = False, reset_pulse = False, rg_source_select = 2,
     rg_trace_format = 1, rg_swo_baud = 0, rg_dma_base = 9, rg_dma_ring_size = 0, irq_status = 5, irq_enable = 0,
     dap_command_data = 0, dap_command_valid = False, dap_command_last = False, dap_response_hold = 0,
     dap_response_hold_valid = True, dap_response_hold_last = False, dap_force_wait = False, dap_force_fault = True,
     dap_force_parity_error = False, m3_release = True, m3_dap_real = False\<rparr>"

definition axi_idle :: axi_in where
  "axi_idle = \<lparr>awaddr = 0, awvalid = False, wdata = 0, wstrb = 0xf, wvalid = False, bready = True, araddr = 0, arvalid = False,
     rready = True\<rparr>"

definition quiet_logic :: logic_in where
  "quiet_logic = \<lparr>irq_dma_complete = False, irq_overrun = False, irq_debug_complete = False, ri_received_bytes = 0,
     ri_dropped_bytes = 0, ri_sync_loss = 0, ri_fifo_high_water = 0, ri_dma_faults = 0, ri_command_ready = False,
     ri_response_data = 0, ri_response_valid = False, ri_response_last = False, ri_transfer_count = 0, ri_abort_count = 0\<rparr>"

definition write_and_read :: "(axi_in \<times> logic_in) list" where
  "write_and_read = map (\<lambda>a. (a, quiet_logic))
     [axi_idle\<lparr>awaddr := ORBTRACE_REG_SWO_BAUD, awvalid := True\<rparr>, axi_idle\<lparr>wdata := 115200, wvalid := True\<rparr>, axi_idle,
      axi_idle\<lparr>araddr := ORBTRACE_REG_SWO_BAUD, arvalid := True\<rparr>, axi_idle]"

theorem register_file_witness:
  "\<exists>t. regs_run write_and_read (regs_reset regs_init) =
      ([ORBTRACE_REG_SWO_BAUD], [115200], 1, [(ORBTRACE_REG_SWO_BAUD, 115200)], [115200], t)
    \<and> reg_read ORBTRACE_REG_SWO_BAUD quiet_logic t = 115200 \<and> reg_read ORBTRACE_REG_SOURCE_FORMAT quiet_logic t = 0"
proof -
  have "(case regs_run write_and_read (regs_reset regs_init) of (aws, ws, n, ars, rs, t) \<Rightarrow>
      aws = [ORBTRACE_REG_SWO_BAUD] \<and> ws = [115200] \<and> n = 1 \<and> ars = [(ORBTRACE_REG_SWO_BAUD, 115200)] \<and> rs = [115200])"
    by code_simp
  then obtain t where run: "regs_run write_and_read (regs_reset regs_init) =
      ([ORBTRACE_REG_SWO_BAUD], [115200], 1, [(ORBTRACE_REG_SWO_BAUD, 115200)], [115200], t)"
    by (auto split: prod.splits)
  have reg: "\<forall>a \<in> set plain_registers. \<forall>i. reg_read a i t = stored a (zip [ORBTRACE_REG_SWO_BAUD] [115200])"
    using register_file [OF run] by blast
  have "reg_read ORBTRACE_REG_SWO_BAUD quiet_logic t = 115200" "reg_read ORBTRACE_REG_SOURCE_FORMAT quiet_logic t = 0"
    using reg by (simp_all add: plain_registers_def stored_def register_bits_def reset_value_def reg_address_defs)
  with run show ?thesis by blast
qed

section \<open>Interrupts and strobes\<close>

definition interrupt_events :: "logic_in \<Rightarrow> nat set" where
  "interrupt_events i = {n. n = 0 \<and> irq_dma_complete i \<or> n = 1 \<and> irq_overrun i \<or> n = 2 \<and> irq_debug_complete i}"

text \<open>
  An event sets its bit in the status register, which keeps it until a write clears it; but an event at the edge at which
  any write to the status register is performed is lost, also when the write does not clear its bit.
\<close>

theorem interrupt_status:
  "bit (irq_status (regs_clock (True, a, i) s)) n \<longleftrightarrow>
    (if write_fire a s \<and> write_address a s = ORBTRACE_REG_IRQ_STATUS
     then bit (irq_status s) n \<and> \<not> bit (ucast (write_data_wire a s) :: 3 word) n
     else bit (irq_status s) n \<or> n \<in> interrupt_events i)"
proof -
  have "irq_status (events_ff a i s s) = (if irq_debug_complete i then set_bit 2 else id)
      ((if irq_overrun i then set_bit 1 else id) ((if irq_dma_complete i then set_bit 0 else id) (irq_status s)))"
    by (simp add: events_ff_def Let_def)
  then have events: "bit (irq_status (events_ff a i s s)) n \<longleftrightarrow> bit (irq_status s) n \<or> n \<in> interrupt_events i"
    by (simp add: bit_set_bit_iff interrupt_events_def) auto
  have wr: "irq_status (reg_write b d s t) = (if b = ORBTRACE_REG_IRQ_STATUS then irq_status s AND NOT (ucast d) else irq_status t)"
    for b d t by (simp add: reg_write_def reg_address_defs)
  have "irq_status (regs_clock (True, a, i) s) = irq_status (reg_write_ff a s (events_ff a i s s))"
    by (simp add: regs_clock_def reg_read_ff_def Let_def)
  also have "\<dots> = (if write_fire a s \<and> write_address a s = ORBTRACE_REG_IRQ_STATUS
      then irq_status s AND NOT (ucast (write_data_wire a s)) else irq_status (events_ff a i s s))"
    by (simp add: reg_write_ff_def wr Let_def)
  finally show ?thesis using events bit_imp_le_length [of "irq_status s" n] by (auto simp: bit_simps)
qed

text \<open>The byte strobes are kept but not looked at: a write of one lane changes the whole register.\<close>

lemma strobes_ignored:
  "b \<in> set plain_registers \<Longrightarrow>
   reg_read b i' (regs_clock (True, a\<lparr>wstrb := x\<rparr>, i) s) = reg_read b i' (regs_clock (True, a, i) s)"
  by (simp add: read_after_edge write_fire_def w_take_def aw_take_def write_address_def write_data_wire_def)

end
