(* ===== verification/DapEngineRtl.thy ===== *)
theory DapEngineRtl
  imports SyntheticDap
begin

text \<open>
  The debug-port engine in the programmable logic, \<open>applications/orbtrace/rtl/orbtrace_dap_engine.sv\<close>, as a clocked
  step; its counters of type \<open>integer\<close> stay below the sizes of the memories and are numbers here. It is compared
  with the reference of the host, \<open>SyntheticDap\<close>.
\<close>

definition MAX_PACKET :: nat where "MAX_PACKET = 1024"
definition MAX_TRANSFERS :: nat where "MAX_TRANSFERS = 32"
definition JTAG_HALF_PERIOD :: nat where "JTAG_HALF_PERIOD = 8"

datatype engine_state = CAPTURE | PREPARE | FETCH_TRANSFER | BUILD_TRANSFER | RESPOND | JTAG_SETUP | JTAG_HOLD

record engine =
  de_state :: engine_state
  jtag_wait :: nat
  jtag_tdo_sample :: bool
  request_mem :: "nat \<Rightarrow> u8"
  response_mem :: "nat \<Rightarrow> u8"
  request_pos :: nat
  request_length :: nat
  response_pos :: nat
  response_length :: nat
  transfer_index :: nat
  transfer_request_pos :: nat
  output_index :: nat
  completed_transfers :: nat
  request_read_address :: nat
  request_read_data :: u8
  header_command :: u8
  header_argument :: u8
  header_count :: u8
  header_data :: u8
  debug_complete :: bool
  transfer_count :: u64
  abort_count :: u32
  jtag_tck :: bool
  jtag_tms :: bool
  jtag_tdi :: bool
  jtag_ntrst :: bool
  jtag_nreset :: bool

record engine_in =
  ei_reset_n :: bool
  command_data :: u8
  command_valid :: bool
  command_last :: bool
  response_ready :: bool
  force_wait :: bool
  force_fault :: bool
  force_parity_error :: bool
  use_real_target :: bool
  jtag_tdo :: bool

section \<open>Outputs\<close>

definition command_ready :: "engine \<Rightarrow> bool" where
  "command_ready s \<longleftrightarrow> de_state s = CAPTURE \<and> request_pos s < MAX_PACKET"

definition response_valid :: "engine \<Rightarrow> bool" where
  "response_valid s \<longleftrightarrow> de_state s = RESPOND"

definition response_data :: "engine \<Rightarrow> u8" where
  "response_data s = response_mem s (response_pos s)"

definition response_last :: "engine \<Rightarrow> bool" where
  "response_last s \<longleftrightarrow> de_state s = RESPOND \<and> response_pos s + 1 = response_length s"

section \<open>The states\<close>

text \<open>Each takes the state before the edge, \<open>s\<close>, and what is assigned so far, \<open>t\<close>.\<close>

definition capture_ff :: "engine_in \<Rightarrow> engine \<Rightarrow> engine \<Rightarrow> engine" where
  "capture_ff i s t =
     (if command_valid i \<and> command_ready s then
        let t = t\<lparr>request_mem := (request_mem t)(request_pos s := command_data i)\<rparr>;
            t = (if request_pos s = 0 then t\<lparr>header_command := command_data i\<rparr> else t);
            t = (if request_pos s = 1 then t\<lparr>header_argument := command_data i\<rparr> else t);
            t = (if request_pos s = 2 then t\<lparr>header_count := command_data i\<rparr> else t);
            t = (if request_pos s = 3 then t\<lparr>header_data := command_data i\<rparr> else t)
        in if command_last i then t\<lparr>request_length := request_pos s + 1, request_pos := 0, de_state := PREPARE\<rparr>
           else t\<lparr>request_pos := request_pos s + 1\<rparr>
      else t)"

text \<open>Assignments to consecutive bytes of the response.\<close>

definition respond_bytes :: "nat \<Rightarrow> bytes \<Rightarrow> engine \<Rightarrow> engine" where
  "respond_bytes k bs t = t\<lparr>response_mem := (\<lambda>j. if k \<le> j \<and> j < k + length bs then bs ! (j - k) else response_mem t j)\<rparr>"

definition transfer_refused :: "engine_in \<Rightarrow> engine \<Rightarrow> bool" where
  "transfer_refused i s \<longleftrightarrow> request_length s < 3 \<or> MAX_TRANSFERS < unat (header_count s) \<or> force_wait i \<or> force_fault i"

definition prepare_response :: "engine_in \<Rightarrow> engine \<Rightarrow> engine \<Rightarrow> engine" where
  "prepare_response i s t =
     (if header_command s = 0x00 then
        (if 1 < request_length s \<and> header_argument s = 1 then
           respond_bytes 1 [7, 0x4f, 0x72, 0x62, 0x63, 0x6f, 0x64, 0x65] (t\<lparr>response_length := 9\<rparr>)
         else respond_bytes 1 [0] (t\<lparr>response_length := 2\<rparr>))
      else if header_command s = 0x02 then
        respond_bytes 1 [if 1 < request_length s then header_argument s AND 3 else 0] (t\<lparr>response_length := 2\<rparr>)
      else if header_command s = 0x05 then
        (if request_length s < 3 \<or> MAX_TRANSFERS < unat (header_count s) then
           respond_bytes 1 [0, 4] (t\<lparr>response_length := 3\<rparr>)
         else if force_wait i then respond_bytes 1 [0, 2] (t\<lparr>response_length := 3\<rparr>)
         else if force_fault i then respond_bytes 1 [0, 4] (t\<lparr>response_length := 3\<rparr>)
         else respond_bytes 1 [0, if force_parity_error i then 9 else 1]
           (t\<lparr>output_index := 3, transfer_index := 0, transfer_request_pos := 3, request_read_address := 3,
              completed_transfers := 0, de_state := FETCH_TRANSFER\<rparr>))
      else if header_command s = 0x07 \<or> header_command s = 0x08 then
        respond_bytes 1 [0] (t\<lparr>abort_count := abort_count s + 1, response_length := 2\<rparr>)
      else if header_command s = 0x10 then
        respond_bytes 1 [if 1 < request_length s then header_argument s else 0]
          ((if use_real_target i \<and> 1 < request_length s then
              t\<lparr>jtag_ntrst := bit (header_argument s) 5, jtag_nreset := bit (header_argument s) 7\<rparr> else t)
           \<lparr>response_length := 2\<rparr>)
      else if header_command s = 0x14 then
        (if use_real_target i then
           respond_bytes 1 [0] (t\<lparr>jtag_tms := bit (header_count s) 7, jtag_tdi := bit (header_data s) 0, jtag_tck := False,
             jtag_wait := 0\<rparr>)
         else respond_bytes 1 [0, if 3 < request_length s then header_data s XOR 1 else 0] (t\<lparr>response_length := 3\<rparr>))
      else respond_bytes 1 [0xff] (t\<lparr>response_length := 2\<rparr>))"

definition prepare_ff :: "engine_in \<Rightarrow> engine \<Rightarrow> engine \<Rightarrow> engine" where
  "prepare_ff i s t =
     (let t = respond_bytes 0 [header_command s] (t\<lparr>response_pos := 0\<rparr>);
          t = prepare_response i s t
      in if header_command s = 0x14 \<and> use_real_target i then t\<lparr>de_state := JTAG_SETUP\<rparr>
         else if header_command s \<noteq> 0x05 \<or> transfer_refused i s then t\<lparr>de_state := RESPOND\<rparr>
         else t)"

definition jtag_setup_ff :: "engine \<Rightarrow> engine \<Rightarrow> engine" where
  "jtag_setup_ff s t =
     (if JTAG_HALF_PERIOD \<le> jtag_wait s then t\<lparr>jtag_tck := True, jtag_wait := 0, de_state := JTAG_HOLD\<rparr>
      else t\<lparr>jtag_wait := jtag_wait s + 1\<rparr>)"

definition jtag_hold_ff :: "engine_in \<Rightarrow> engine \<Rightarrow> engine \<Rightarrow> engine" where
  "jtag_hold_ff i s t =
     (let t = t\<lparr>jtag_wait := jtag_wait s + 1\<rparr>;
          t = (if jtag_wait s = JTAG_HALF_PERIOD - 1 then t\<lparr>jtag_tdo_sample := jtag_tdo i\<rparr> else t)
      in if JTAG_HALF_PERIOD \<le> jtag_wait s then
           respond_bytes 2 [if jtag_tdo_sample s then 1 else 0] (t\<lparr>jtag_tck := False, response_length := 3, de_state := RESPOND\<rparr>)
         else t)"

definition fault_ff :: "engine \<Rightarrow> engine \<Rightarrow> engine" where
  "fault_ff s t = respond_bytes 1 [of_nat (completed_transfers s), 4] (t\<lparr>response_length := output_index s, de_state := RESPOND\<rparr>)"

definition build_ff :: "engine \<Rightarrow> engine \<Rightarrow> engine" where
  "build_ff s t =
     (if unat (header_count s) \<le> transfer_index s then
        respond_bytes 1 [of_nat (completed_transfers s)] (t\<lparr>response_length := output_index s, de_state := RESPOND\<rparr>)
      else if request_length s \<le> transfer_request_pos s then fault_ff s t
      else let t = t\<lparr>transfer_count := transfer_count s + 1, completed_transfers := completed_transfers s + 1,
                     transfer_index := transfer_index s + 1\<rparr>;
               more = (transfer_index s + 1 < unat (header_count s))
        in if bit (request_read_data s) 1 then
             (let t = respond_bytes (output_index s) [request_read_data s, 0, 0xa5, 0xa5]
                (t\<lparr>output_index := output_index s + 4, transfer_request_pos := transfer_request_pos s + 1,
                   request_read_address := transfer_request_pos s + 1\<rparr>)
              in if more then t\<lparr>de_state := FETCH_TRANSFER\<rparr> else t)
           else if transfer_request_pos s + 4 < request_length s then
             (let t = t\<lparr>transfer_request_pos := transfer_request_pos s + 5, request_read_address := transfer_request_pos s + 5\<rparr>
              in if more then t\<lparr>de_state := FETCH_TRANSFER\<rparr> else t)
           else fault_ff s t)"

definition respond_ff :: "engine_in \<Rightarrow> engine \<Rightarrow> engine \<Rightarrow> engine" where
  "respond_ff i s t =
     (if response_ready i then
        (if response_last s then t\<lparr>de_state := CAPTURE, response_pos := 0, debug_complete := True\<rparr>
         else t\<lparr>response_pos := response_pos s + 1\<rparr>)
      else t)"

definition engine_reset :: "engine \<Rightarrow> engine" where
  "engine_reset s = s\<lparr>de_state := CAPTURE, request_pos := 0, request_length := 0, response_pos := 0, response_length := 0,
     request_read_address := 0, header_command := 0, header_argument := 0, header_count := 0, header_data := 0,
     debug_complete := False, transfer_count := 0, abort_count := 0, jtag_tck := False, jtag_tms := True, jtag_tdi := False,
     jtag_ntrst := True, jtag_nreset := True, jtag_wait := 0, jtag_tdo_sample := False\<rparr>"

definition engine_clock :: "engine_in \<Rightarrow> engine \<Rightarrow> engine" where
  "engine_clock i s =
     (let t = s\<lparr>request_read_data := request_mem s (request_read_address s)\<rparr>
      in if \<not> ei_reset_n i then engine_reset t
         else let t = t\<lparr>debug_complete := False\<rparr>
           in case de_state s of
                CAPTURE \<Rightarrow> capture_ff i s t
              | PREPARE \<Rightarrow> prepare_ff i s t
              | JTAG_SETUP \<Rightarrow> jtag_setup_ff s t
              | JTAG_HOLD \<Rightarrow> jtag_hold_ff i s t
              | FETCH_TRANSFER \<Rightarrow> t\<lparr>de_state := BUILD_TRANSFER\<rparr>
              | BUILD_TRANSFER \<Rightarrow> build_ff s t
              | RESPOND \<Rightarrow> respond_ff i s t)"

text \<open>What crosses at an edge, each byte with its mark of the last one; and a run.\<close>

definition de_taken :: "engine_in \<Rightarrow> engine \<Rightarrow> (u8 \<times> bool) list" where
  "de_taken i s = (if command_valid i \<and> command_ready s then [(command_data i, command_last i)] else [])"

definition de_given :: "engine_in \<Rightarrow> engine \<Rightarrow> (u8 \<times> bool) list" where
  "de_given i s = (if response_valid s \<and> response_ready i then [(response_data s, response_last s)] else [])"

fun engine_run :: "engine_in list \<Rightarrow> engine \<Rightarrow> (u8 \<times> bool) list \<times> (u8 \<times> bool) list \<times> engine" where
  "engine_run [] s = ([], [], s)"
| "engine_run (i # is) s =
     (case engine_run is (engine_clock i s) of (xs, ys, t) \<Rightarrow> (de_taken i s @ xs, de_given i s @ ys, t))"

text \<open>A packet on either side: its bytes, the last one marked.\<close>

definition packet :: "bytes \<Rightarrow> (u8 \<times> bool) list" where
  "packet bs = map (\<lambda>k. (bs ! k, Suc k = length bs)) [0..<length bs]"

section \<open>Taking a request\<close>

lemma packet_snoc: "packet (bs @ [b]) = map (\<lambda>x. (x, False)) bs @ [(b, True)]"
  by (rule nth_equalityI) (auto simp: packet_def nth_append)

definition capturing :: "bytes \<Rightarrow> engine \<Rightarrow> bool" where
  "capturing xs s \<longleftrightarrow> de_state s = CAPTURE \<and> request_pos s = length xs \<and> (\<forall>j < length xs. request_mem s j = xs ! j)
     \<and> (0 < length xs \<longrightarrow> header_command s = xs ! 0) \<and> (1 < length xs \<longrightarrow> header_argument s = xs ! 1)
     \<and> (2 < length xs \<longrightarrow> header_count s = xs ! 2) \<and> (3 < length xs \<longrightarrow> header_data s = xs ! 3)"

definition prepared :: "bytes \<Rightarrow> engine \<Rightarrow> bool" where
  "prepared xs s \<longleftrightarrow> de_state s = PREPARE \<and> request_pos s = 0 \<and> request_length s = length xs
     \<and> (\<forall>j < length xs. request_mem s j = xs ! j)
     \<and> header_command s = xs ! 0 \<and> (1 < length xs \<longrightarrow> header_argument s = xs ! 1)
     \<and> (2 < length xs \<longrightarrow> header_count s = xs ! 2) \<and> (3 < length xs \<longrightarrow> header_data s = xs ! 3)"

definition counters :: "engine \<Rightarrow> u64 \<times> u32" where
  "counters s = (transfer_count s, abort_count s)"

lemma capture_step:
  assumes c: "capturing xs s" and i: "ei_reset_n i" and len: "length xs < MAX_PACKET"
  shows "de_taken i s = [] \<Longrightarrow> capturing xs (engine_clock i s)"
    and "de_taken i s = [(b, False)] \<Longrightarrow> capturing (xs @ [b]) (engine_clock i s)"
    and "de_taken i s = [(b, True)] \<Longrightarrow> prepared (xs @ [b]) (engine_clock i s)"
    and "counters (engine_clock i s) = counters s" and "de_given i s = []"
proof -
  have rdy: "command_ready s" using c len by (simp add: command_ready_def capturing_def)
  note defs = engine_clock_def capture_ff_def Let_def i rdy
  show "capturing xs (engine_clock i s)" if "de_taken i s = []"
    using c that rdy by (auto simp: capturing_def defs de_taken_def split: if_splits)
  have mem: "request_mem (engine_clock i s) = (request_mem s)(length xs := b)" if "de_taken i s = [(b, l)]" for l
    using c that by (auto simp: capturing_def defs de_taken_def split: if_splits)
  have headers: "header_command (engine_clock i s) = (if length xs = 0 then b else header_command s)"
    "header_argument (engine_clock i s) = (if length xs = 1 then b else header_argument s)"
    "header_count (engine_clock i s) = (if length xs = 2 then b else header_count s)"
    "header_data (engine_clock i s) = (if length xs = 3 then b else header_data s)" if "de_taken i s = [(b, l)]" for l
    using c that by (auto simp: capturing_def defs de_taken_def split: if_splits)
  show "capturing (xs @ [b]) (engine_clock i s)" if t: "de_taken i s = [(b, False)]"
  proof -
    have "de_state (engine_clock i s) = CAPTURE" "request_pos (engine_clock i s) = Suc (length xs)"
      using c t by (auto simp: capturing_def defs de_taken_def split: if_splits)
    then show ?thesis
      using c unfolding capturing_def mem [OF t] headers [OF t] by (auto simp: nth_append less_Suc_eq)
  qed
  show "prepared (xs @ [b]) (engine_clock i s)" if t: "de_taken i s = [(b, True)]"
  proof -
    have "de_state (engine_clock i s) = PREPARE" "request_pos (engine_clock i s) = 0" "request_length (engine_clock i s) = Suc (length xs)"
      using c t by (auto simp: capturing_def defs de_taken_def split: if_splits)
    then show ?thesis
      using c unfolding capturing_def prepared_def mem [OF t] headers [OF t] by (auto simp: nth_append less_Suc_eq)
  qed
  show "counters (engine_clock i s) = counters s" using c by (simp add: capturing_def defs counters_def)
  show "de_given i s = []" using c by (simp add: capturing_def de_given_def response_valid_def)
qed

lemma capture_run:
  assumes "capturing xs s" "\<forall>i \<in> set is. ei_reset_n i" "length xs + length ys < MAX_PACKET"
    "engine_run is s = (map (\<lambda>b. (b, False)) ys, zs, t)"
  shows "capturing (xs @ ys) t \<and> zs = [] \<and> counters t = counters s"
  using assms
proof (induction "is" arbitrary: xs s ys zs)
  case Nil
  then show ?case by simp
next
  case (Cons i "is")
  obtain ys1 zs1 where run: "engine_run is (engine_clock i s) = (ys1, zs1, t)"
    and ys: "map (\<lambda>b. (b, False)) ys = de_taken i s @ ys1" and zs: "zs = de_given i s @ zs1"
    using Cons.prems(4) by (auto split: prod.splits)
  have i: "ei_reset_n i" "\<forall>i \<in> set is. ei_reset_n i" and len: "length xs < MAX_PACKET" using Cons.prems(2,3) by auto
  note step = capture_step [OF Cons.prems(1) i(1) len]
  show ?case
  proof (cases "de_taken i s = []")
    case True
    then show ?thesis
      using Cons.IH [OF step(1) i(2) Cons.prems(3)] run ys zs step(4,5) by simp
  next
    case False
    then obtain b ys' where b: "ys = b # ys'" "de_taken i s = [(b, False)]" "ys1 = map (\<lambda>b. (b, False)) ys'"
      using ys by (cases ys) (auto simp: de_taken_def split: if_splits)
    have "length (xs @ [b]) + length ys' < MAX_PACKET" using Cons.prems(3) b(1) by simp
    with Cons.IH [OF step(2) [OF b(2)] i(2) this] run show ?thesis using b zs step(4,5) by simp
  qed
qed

section \<open>Giving a response\<close>

definition responding :: "bytes \<Rightarrow> nat \<Rightarrow> engine \<Rightarrow> bool" where
  "responding bs k s \<longleftrightarrow> de_state s = RESPOND \<and> request_pos s = 0 \<and> response_pos s = k \<and> response_length s = length bs \<and> k < length bs
     \<and> (\<forall>j < length bs. response_mem s j = bs ! j)"

abbreviation ready_count :: "engine_in list \<Rightarrow> nat" where
  "ready_count is \<equiv> length (filter response_ready is)"

lemma idle_waits:
  assumes "capturing [] s" "\<forall>i \<in> set is. ei_reset_n i \<and> \<not> command_valid i"
  shows "\<exists>t. engine_run is s = ([], [], t) \<and> capturing [] t \<and> counters t = counters s"
  using assms
proof (induction "is" arbitrary: s)
  case (Cons i "is")
  have t: "de_taken i s = []" using Cons.prems(2) by (simp add: de_taken_def)
  have "MAX_PACKET > 0" by (simp add: MAX_PACKET_def)
  note step = capture_step [OF Cons.prems(1), of i]
  have "capturing [] (engine_clock i s)" "counters (engine_clock i s) = counters s" "de_given i s = []"
    using step(1,4,5) t Cons.prems(2) \<open>MAX_PACKET > 0\<close> by simp_all
  with Cons.IH [of "engine_clock i s"] Cons.prems(2) t show ?case by auto
qed simp

lemma respond_run:
  assumes "responding bs k s" "\<forall>i \<in> set is. ei_reset_n i \<and> \<not> command_valid i"
  shows "\<exists>t. engine_run is s = ([], take (ready_count is) (drop k (packet bs)), t) \<and> counters t = counters s
    \<and> (if ready_count is < length bs - k then responding bs (k + ready_count is) t else capturing [] t)"
  using assms
proof (induction "is" arbitrary: k s)
  case Nil
  then show ?case by (simp add: responding_def)
next
  case (Cons i "is")
  have i: "ei_reset_n i" and "is": "\<forall>i \<in> set is. ei_reset_n i \<and> \<not> command_valid i" using Cons.prems(2) by auto
  have k: "k < length bs" "response_pos s = k" "de_state s = RESPOND" "response_length s = length bs" "response_mem s k = bs ! k"
    using Cons.prems(1) by (simp_all add: responding_def)
  have taken: "de_taken i s = []" using k(3) by (simp add: de_taken_def command_ready_def)
  have cnt: "counters (engine_clock i s) = counters s" using k(3) i by (simp add: engine_clock_def respond_ff_def counters_def Let_def)
  show ?case
  proof (cases "response_ready i")
    case False
    have "responding bs k (engine_clock i s)"
      using Cons.prems(1) i False by (simp add: responding_def engine_clock_def respond_ff_def Let_def)
    moreover have "de_given i s = []" using False by (simp add: de_given_def)
    ultimately show ?thesis using Cons.IH [OF _ "is"] taken cnt False by (fastforce split: prod.splits)
  next
    case True
    have given: "de_given i s = [(bs ! k, Suc k = length bs)]"
      using True k by (simp add: de_given_def response_valid_def response_data_def response_last_def)
    have head: "drop k (packet bs) = (bs ! k, Suc k = length bs) # drop (Suc k) (packet bs)"
      using k(1) by (simp add: packet_def Cons_nth_drop_Suc [symmetric])
    show ?thesis
    proof (cases "Suc k = length bs")
      case last: True
      have "capturing [] (engine_clock i s)"
        using Cons.prems(1) i True last by (simp add: responding_def capturing_def engine_clock_def respond_ff_def response_last_def Let_def)
      from idle_waits [OF this "is"] obtain t where "engine_run is (engine_clock i s) = ([], [], t)" "capturing [] t"
        "counters t = counters s" using cnt by auto
      moreover have "drop (Suc k) (packet bs) = []" using last by (simp add: packet_def)
      moreover have "length bs - k = 1" using last by simp
      ultimately show ?thesis using taken given head True by simp
    next
      case False
      have "responding bs (Suc k) (engine_clock i s)"
        using Cons.prems(1) i True False k(1) by (simp add: responding_def engine_clock_def respond_ff_def response_last_def Let_def)
      from Cons.IH [OF this "is"] obtain t where t: "engine_run is (engine_clock i s) =
          ([], take (ready_count is) (drop (Suc k) (packet bs)), t)" "counters t = counters s"
        "if ready_count is < length bs - Suc k then responding bs (Suc k + ready_count is) t else capturing [] t"
        using cnt by auto
      have "Suc (ready_count is) < length bs - k \<longleftrightarrow> ready_count is < length bs - Suc k" by linarith
      then show ?thesis using t taken given head True by (intro exI [of _ t]) (simp split: if_splits)
    qed
  qed
qed

section \<open>Working out the response\<close>

text \<open>\<open>n\<close> clocks that take and give nothing lead to \<open>t\<close>, whatever the inputs.\<close>

definition settles :: "nat \<Rightarrow> engine \<Rightarrow> engine \<Rightarrow> bool" where
  "settles n s t \<longleftrightarrow> (\<forall>js. length js = n \<longrightarrow> (\<forall>i \<in> set js. ei_reset_n i) \<longrightarrow> engine_run js s = ([], [], t))"

lemma settles_0: "settles 0 s s"
  by (simp add: settles_def)

lemma settles_Suc:
  assumes "\<And>i. ei_reset_n i \<Longrightarrow> engine_clock i s = s'" "de_state s = FETCH_TRANSFER \<or> de_state s = BUILD_TRANSFER" "settles n s' t"
  shows "settles (Suc n) s t"
proof -
  have "de_taken i s = []" "de_given i s = []" for i
    using assms(2) by (auto simp: de_taken_def de_given_def command_ready_def response_valid_def)
  then show ?thesis using assms(1,3) by (auto simp: settles_def length_Suc_conv)
qed

definition looping :: "bytes \<Rightarrow> u8 \<Rightarrow> nat \<Rightarrow> nat \<Rightarrow> bytes \<Rightarrow> engine \<Rightarrow> bool" where
  "looping xs st k p data s \<longleftrightarrow> request_pos s = 0 \<and> response_pos s = 0 \<and> request_length s = length xs
     \<and> (\<forall>j < length xs. request_mem s j = xs ! j) \<and> header_count s = xs ! 2
     \<and> transfer_index s = k \<and> completed_transfers s = k \<and> transfer_request_pos s = p \<and> request_read_address s = p
     \<and> output_index s = 3 + length data \<and> response_mem s 0 = 5 \<and> response_mem s 2 = st
     \<and> (\<forall>j < length data. response_mem s (3 + j) = data ! j)"

lemma fetch_step:
  assumes "looping xs st k p data s" "de_state s = FETCH_TRANSFER" "ei_reset_n i"
  shows "looping xs st k p data (engine_clock i s) \<and> de_state (engine_clock i s) = BUILD_TRANSFER
    \<and> (p < length xs \<longrightarrow> request_read_data (engine_clock i s) = xs ! p) \<and> counters (engine_clock i s) = counters s"
  using assms by (simp add: looping_def engine_clock_def counters_def)

text \<open>The ways out of the loop.\<close>

text \<open>A response in the memory: its first three bytes and the data behind them.\<close>

lemma resp_bytes:
  assumes "m 0 = a" "m 1 = b" "m 2 = c" "\<forall>j < length data. m (3 + j) = data ! j"
  shows "\<forall>j < length ([a, b, c] @ data). m j = ([a, b, c] @ data) ! j"
proof (intro allI impI)
  fix j
  assume "j < length ([a, b, c] @ data)"
  then have "j = 0 \<or> j = 1 \<or> j = 2 \<or> (\<exists>i < length data. j = 3 + i)"
    by (cases "j < 3") (auto simp: not_less dest!: le_Suc_ex)
  then show "m j = ([a, b, c] @ data) ! j"
    using assms by (auto simp: numeral_3_eq_3 numeral_2_eq_2)
qed

lemma build_done:
  assumes l: "looping xs st k p data s" and st: "de_state s = BUILD_TRANSFER" and i: "ei_reset_n i" and "unat (xs ! 2) \<le> k"
  shows "responding ([5, of_nat k, st] @ data) 0 (engine_clock i s) \<and> counters (engine_clock i s) = counters s"
proof -
  let ?t = "engine_clock i s"
  have t: "build_ff s u = respond_bytes 1 [of_nat k] (u\<lparr>response_length := 3 + length data, de_state := RESPOND\<rparr>)" for u
    using l assms(4) by (simp add: looping_def build_ff_def)
  have mem: "response_mem ?t = (response_mem s)(1 := of_nat k)"
    using st i by (auto simp: engine_clock_def t respond_bytes_def Let_def fun_eq_iff)
  have "response_mem ?t 0 = 5" "response_mem ?t 1 = of_nat k" "response_mem ?t 2 = st"
    "\<forall>j < length data. response_mem ?t (3 + j) = data ! j"
    using l by (simp_all add: mem looping_def)
  note r = resp_bytes [OF this]
  have "de_state ?t = RESPOND" "request_pos ?t = 0" "response_pos ?t = 0" "response_length ?t = 3 + length data" "counters ?t = counters s"
    using l st i by (simp_all add: engine_clock_def t respond_bytes_def looping_def counters_def Let_def)
  then show ?thesis using r by (simp add: responding_def)
qed

lemma build_fault:
  assumes l: "looping xs st k p data s" and st: "de_state s = BUILD_TRANSFER" and i: "ei_reset_n i" and "k < unat (xs ! 2)"
    and f: "length xs \<le> p \<or> p < length xs \<and> request_read_data s = xs ! p \<and> \<not> bit (xs ! p) 1 \<and> length xs \<le> p + 4"
  shows "responding ([5, of_nat k, 4] @ data) 0 (engine_clock i s)
    \<and> counters (engine_clock i s) = (transfer_count s + (if p < length xs then 1 else 0), abort_count s)"
proof -
  let ?t = "engine_clock i s"
  have t: "build_ff s u = fault_ff s (if p < length xs then u\<lparr>transfer_count := transfer_count s + 1,
      completed_transfers := completed_transfers s + 1, transfer_index := transfer_index s + 1\<rparr> else u)" for u
    using l assms(4) f by (auto simp: looping_def build_ff_def)
  have mem: "response_mem ?t = (response_mem s)(1 := of_nat k, 2 := 4)"
    using st i l by (auto simp: engine_clock_def t fault_ff_def respond_bytes_def looping_def Let_def fun_eq_iff less_Suc_eq nth_Cons')
  have "response_mem ?t 0 = 5" "response_mem ?t 1 = of_nat k" "response_mem ?t 2 = 4"
    "\<forall>j < length data. response_mem ?t (3 + j) = data ! j"
    using l by (simp_all add: mem looping_def)
  note r = resp_bytes [OF this]
  have "de_state ?t = RESPOND" "request_pos ?t = 0" "response_pos ?t = 0" "response_length ?t = 3 + length data"
    "counters ?t = (transfer_count s + (if p < length xs then 1 else 0), abort_count s)"
    using l st i by (simp_all add: engine_clock_def t fault_ff_def respond_bytes_def looping_def counters_def Let_def)
  then show ?thesis using r by (simp add: responding_def)
qed

text \<open>A transfer that is done: the loop goes on behind it, or is at its end.\<close>

lemma build_read:
  assumes l: "looping xs st k p data s" and st: "de_state s = BUILD_TRANSFER" and i: "ei_reset_n i" and "k < unat (xs ! 2)"
    and "p < length xs" "request_read_data s = xs ! p" "bit (xs ! p) 1"
  shows "looping xs st (Suc k) (Suc p) (data @ [xs ! p, 0, 0xa5, 0xa5]) (engine_clock i s)
    \<and> de_state (engine_clock i s) = (if Suc k < unat (xs ! 2) then FETCH_TRANSFER else BUILD_TRANSFER)
    \<and> counters (engine_clock i s) = (transfer_count s + 1, abort_count s)"
proof -
  let ?d = "[xs ! p, 0, 0xa5, 0xa5]"
  have mem: "response_mem (engine_clock i s) = (\<lambda>j. if 3 + length data \<le> j \<and> j < 3 + length data + 4 then ?d ! (j - (3 + length data))
      else response_mem s j)"
    using assms by (auto simp: looping_def engine_clock_def build_ff_def respond_bytes_def Let_def fun_eq_iff)
  have "response_mem (engine_clock i s) (3 + j) = (data @ ?d) ! j" if "j < length (data @ ?d)" for j
    using that l by (auto simp: mem nth_append looping_def)
  moreover have "response_mem (engine_clock i s) 0 = 5" "response_mem (engine_clock i s) 2 = st"
    using l by (simp_all add: mem looping_def)
  ultimately show ?thesis
    using assms by (auto simp: looping_def engine_clock_def build_ff_def respond_bytes_def counters_def Let_def)
qed

lemma build_write:
  assumes l: "looping xs st k p data s" and st: "de_state s = BUILD_TRANSFER" and i: "ei_reset_n i" and "k < unat (xs ! 2)"
    and "p + 4 < length xs" "request_read_data s = xs ! p" "\<not> bit (xs ! p) 1"
  shows "looping xs st (Suc k) (p + 5) data (engine_clock i s)
    \<and> de_state (engine_clock i s) = (if Suc k < unat (xs ! 2) then FETCH_TRANSFER else BUILD_TRANSFER)
    \<and> counters (engine_clock i s) = (transfer_count s + 1, abort_count s)"
  using assms by (simp add: looping_def engine_clock_def build_ff_def respond_bytes_def counters_def Let_def)

lemma bit_1_and_2: "(w :: u8) AND 2 \<noteq> 0 \<longleftrightarrow> bit w 1"
proof -
  have "w AND 2 = (if bit w 1 then 2 else 0)"
    by (rule bit_word_eqI) (auto simp: bit_simps)
  then show ?thesis by simp
qed

lemma read_data_bytes: "u32_le (0xa5a50000 OR ucast (t :: u8)) = [t, 0, 0xa5, 0xa5]"
proof -
  have "(0xa5a50000 OR ucast t :: u32) = from_le [t, 0, 0xa5, 0xa5]" by (simp add: from_le_Cons or.commute)
  then show ?thesis by simp
qed

lemma quiet_in: "ei_reset_n \<lparr>ei_reset_n = True, command_data = 0, command_valid = False, command_last = False,
    response_ready = False, force_wait = False, force_fault = False, force_parity_error = False, use_real_target = False,
    jtag_tdo = False\<rparr>"
  by simp

text \<open>The loop is that of the reference.\<close>

lemma loop_settles:
  assumes "looping xs st k p data s" "de_state s = FETCH_TRANSFER" "k + n = unat (xs ! 2)" "3 \<le> length xs"
    and "dap_transfers n (drop p xs) (of_nat k) data d = (d', c, good, data')" "transfer_count s = transfers d"
  shows "\<exists>m t. m \<le> 2 * n + 2 \<and> settles m s t \<and> responding ([5, c, if good then st else 4] @ data') 0 t
    \<and> counters t = (transfers d', abort_count s)"
  using assms
proof (induction n arbitrary: k p data s d)
  case 0
  note f = fetch_step [OF "0.prems"(1,2)]
  obtain i0 :: engine_in where i0: "ei_reset_n i0" using quiet_in by blast
  let ?s1 = "engine_clock i0 s" let ?s2 = "engine_clock i0 ?s1"
  have same: "engine_clock i s = ?s1" "engine_clock i ?s1 = ?s2" if "ei_reset_n i" for i
    using f [OF i0] that i0 "0.prems"(2) by (simp_all add: engine_clock_def)
  have s1: "looping xs st k p data ?s1" "de_state ?s1 = BUILD_TRANSFER" using f [OF i0] by simp_all
  have "settles 2 s ?s2"
    using settles_Suc [OF same(1) _ settles_Suc [OF same(2) _ settles_0]] "0.prems"(2) s1(2) by (simp add: numeral_2_eq_2)
  moreover have "responding ([5, of_nat k, st] @ data) 0 ?s2 \<and> counters ?s2 = counters s"
    using build_done [OF s1 i0] f [OF i0] "0.prems"(3) by simp
  ultimately show ?case using "0.prems"(5,6) by (intro exI [of _ 2] exI [of _ ?s2]) (auto simp: counters_def)
next
  case (Suc n)
  note f = fetch_step [OF Suc.prems(1,2)]
  obtain i0 :: engine_in where i0: "ei_reset_n i0" using quiet_in by blast
  let ?s1 = "engine_clock i0 s" let ?s2 = "engine_clock i0 ?s1"
  have same: "engine_clock i s = ?s1" "engine_clock i ?s1 = ?s2" if "ei_reset_n i" for i
    using f [OF i0] that i0 Suc.prems(2) by (simp_all add: engine_clock_def)
  have s1: "looping xs st k p data ?s1" "de_state ?s1 = BUILD_TRANSFER" "p < length xs \<Longrightarrow> request_read_data ?s1 = xs ! p"
    "counters ?s1 = counters s" using f [OF i0] by simp_all
  have k: "k < unat (xs ! 2)" using Suc.prems(3) by simp
  have two: "settles (m + 2) s t" if "settles m ?s2 t" for m t
    using settles_Suc [OF same(1) _ settles_Suc [OF same(2) _ that]] Suc.prems(2) s1(2) by simp
  have out: "\<exists>m t. m \<le> 2 * Suc n + 2 \<and> settles m s t \<and> responding ([5, c, if good then st else 4] @ data') 0 t \<and> counters t = (transfers d', abort_count s)"
    if l: "looping xs st (Suc k) p2 data2 ?s2"
      "de_state ?s2 = (if Suc k < unat (xs ! 2) then FETCH_TRANSFER else BUILD_TRANSFER)"
      and cnt: "counters ?s2 = (transfers d2, abort_count s)"
      and ref: "dap_transfers n (drop p2 xs) (of_nat (Suc k)) data2 d2 = (d', c, good, data')" for p2 data2 d2
  proof (cases "Suc k < unat (xs ! 2)")
    case True
    have "transfer_count ?s2 = transfers d2" "abort_count ?s2 = abort_count s" using cnt by (simp_all add: counters_def)
    then show ?thesis using Suc.IH [OF l(1) _ _ Suc.prems(4) ref] l(2) True Suc.prems(3) two by fastforce
  next
    case False
    then have n: "n = 0" using Suc.prems(3) by simp
    let ?s3 = "engine_clock i0 ?s2"
    have bt: "de_state ?s2 = BUILD_TRANSFER" using l(2) False by simp
    have "engine_clock i ?s2 = ?s3" if "ei_reset_n i" for i using bt that i0 by (simp add: engine_clock_def)
    then have "settles 1 ?s2 ?s3" using settles_Suc [OF _ _ settles_0] bt by simp
    moreover have "responding ([5, of_nat (Suc k), st] @ data2) 0 ?s3 \<and> counters ?s3 = counters ?s2"
      using build_done [OF l(1) bt i0] False by simp
    ultimately show ?thesis using two [of 1 ?s3] cnt ref by (intro exI [of _ "1 + 2"] exI [of _ ?s3]) (auto simp: n)
  qed
  have ref: "dap_transfers (Suc n) (drop p xs) (of_nat k) data d = (d', c, good, data')" by (rule Suc.prems(5))
  consider "length xs \<le> p" | "p < length xs" "bit (xs ! p) 1" | "p < length xs" "\<not> bit (xs ! p) 1" "p + 4 < length xs"
    | "p < length xs" "\<not> bit (xs ! p) 1" "length xs \<le> p + 4" by linarith
  then show ?case
  proof cases
    case 1
    then have d: "d' = d" "c = of_nat k" "\<not> good" "data' = data" using ref by auto
    have "responding ([5, of_nat k, 4] @ data) 0 ?s2 \<and> counters ?s2 = (transfer_count ?s1, abort_count ?s1)"
      using build_fault [OF s1(1,2) i0 k] 1 by simp
    then show ?thesis
      using two [OF settles_0] s1(4) Suc.prems(6) d by (intro exI [of _ "0 + 2"] exI [of _ ?s2]) (auto simp: counters_def)
  next
    case 2
    have split: "drop p xs = xs ! p # drop (Suc p) xs" using 2(1) by (simp add: Cons_nth_drop_Suc)
    have "xs ! p AND 2 \<noteq> 0" using 2(2) by (simp add: bit_1_and_2)
    then have r: "dap_transfers n (drop (Suc p) xs) (of_nat (Suc k)) (data @ [xs ! p, 0, 0xa5, 0xa5]) (d\<lparr>transfers := transfers d + 1\<rparr>)
        = (d', c, good, data')"
      using ref by (simp add: split Let_def read_data_bytes add.commute)
    note b = build_read [OF s1(1,2) i0 k 2(1) s1(3) [OF 2(1)] 2(2)]
    show ?thesis by (rule out [OF _ _ _ r]) (use b s1(4) Suc.prems(6) in \<open>simp_all add: counters_def\<close>)
  next
    case 3
    have split: "drop p xs = xs ! p # drop (Suc p) xs" using 3(1) by (simp add: Cons_nth_drop_Suc)
    have "xs ! p AND 2 = 0" using 3(2) bit_1_and_2 [of "xs ! p"] by blast
    then have r: "dap_transfers n (drop (p + 5) xs) (of_nat (Suc k)) data (d\<lparr>transfers := transfers d + 1\<rparr>) = (d', c, good, data')"
    proof -
      have "4 \<le> length xs - Suc p" "drop 4 (drop (Suc p) xs) = drop (p + 5) xs" using 3(3) by (simp_all add: add.commute)
      then show ?thesis using ref \<open>xs ! p AND 2 = 0\<close> by (simp add: split Let_def add.commute del: drop_drop)
    qed
    note b = build_write [OF s1(1,2) i0 k 3(3) s1(3) [OF 3(1)] 3(2)]
    show ?thesis by (rule out [OF _ _ _ r]) (use b s1(4) Suc.prems(6) in \<open>simp_all add: counters_def\<close>)
  next
    case 4
    have split: "drop p xs = xs ! p # drop (Suc p) xs" using 4(1) by (simp add: Cons_nth_drop_Suc)
    have "xs ! p AND 2 = 0" using 4(2) bit_1_and_2 [of "xs ! p"] by blast
    then have d: "d' = d\<lparr>transfers := transfers d + 1\<rparr>" "c = of_nat k" "\<not> good" "data' = data"
    proof -
      have "\<not> 4 \<le> length xs - Suc p" using 4(1,3) by linarith
      then show "d' = d\<lparr>transfers := transfers d + 1\<rparr>" "c = of_nat k" "\<not> good" "data' = data"
        using ref \<open>xs ! p AND 2 = 0\<close> by (auto simp: split Let_def)
    qed
    have "responding ([5, of_nat k, 4] @ data) 0 ?s2 \<and> counters ?s2 = (transfer_count ?s1 + 1, abort_count ?s1)"
      using build_fault [OF s1(1,2) i0 k] 4 s1(3) by simp
    then show ?thesis
      using two [OF settles_0] s1(4) Suc.prems(6) d by (intro exI [of _ "0 + 2"] exI [of _ ?s2]) (auto simp: counters_def)
  qed
qed

text \<open>The requests on which the two are to agree, and the inputs that stand for the flags of the reference.\<close>

definition in_common :: "bytes \<Rightarrow> bool" where
  "in_common xs \<longleftrightarrow> xs \<noteq> [] \<and> length xs \<le> MAX_PACKET
     \<and> (xs ! 0 = 0x00 \<longrightarrow> get_or_0 xs 1 \<noteq> 2)
     \<and> (xs ! 0 = 0x05 \<longrightarrow> 3 \<le> length xs \<and> unat (xs ! 2) \<le> MAX_TRANSFERS)
     \<and> (xs ! 0 = 0x14 \<longrightarrow> 4 \<le> length xs)"

definition flags_of :: "synthetic_dap \<Rightarrow> engine_in \<Rightarrow> bool" where
  "flags_of d i \<longleftrightarrow> ei_reset_n i \<and> \<not> use_real_target i \<and> force_wait i = wait_once d \<and> force_fault i = fault_once d
     \<and> force_parity_error i = parity_error_once d"

text \<open>The response to a command without transfers, or one that is refused.\<close>

definition short_response :: "engine_in \<Rightarrow> bytes \<Rightarrow> bytes" where
  "short_response i xs =
     (if xs ! 0 = 0x00 then if get_or_0 xs 1 = 1 then [0, 7, 0x4f, 0x72, 0x62, 0x63, 0x6f, 0x64, 0x65] else [0, 0]
      else if xs ! 0 = 0x02 then [2, get_or_0 xs 1 AND 3]
      else if xs ! 0 = 0x05 then [5, 0, if force_wait i then 2 else 4]
      else if xs ! 0 = 0x07 \<or> xs ! 0 = 0x08 then [xs ! 0, 0]
      else if xs ! 0 = 0x10 then [0x10, get_or_0 xs 1]
      else if xs ! 0 = 0x14 then [0x14, 0, get_or_0 xs 3 XOR 1]
      else [xs ! 0, 0xff])"

lemma prepare_short:
  assumes p: "prepared xs s" and c: "in_common xs" and i: "ei_reset_n i" "\<not> use_real_target i"
    and r: "xs ! 0 \<noteq> 0x05 \<or> force_wait i \<or> force_fault i"
  shows "responding (short_response i xs) 0 (engine_clock i s)
    \<and> counters (engine_clock i s) = (transfer_count s, abort_count s + (if xs ! 0 = 0x07 \<or> xs ! 0 = 0x08 then 1 else 0))"
proof -
  have h: "header_command s = xs ! 0" "1 < length xs \<Longrightarrow> header_argument s = xs ! 1" "2 < length xs \<Longrightarrow> header_count s = xs ! 2"
    "3 < length xs \<Longrightarrow> header_data s = xs ! 3" "request_length s = length xs" "request_pos s = 0"
    using p by (simp_all add: prepared_def)
  have clock: "engine_clock i s = prepare_ff i s (s\<lparr>request_read_data := request_mem s (request_read_address s), debug_complete := False\<rparr>)"
    using p i by (simp add: prepared_def engine_clock_def Let_def)
  have refused: "transfer_refused i s" if "xs ! 0 = 0x05" using r that by (auto simp: transfer_refused_def)
  have state: "de_state (engine_clock i s) = RESPOND"
    unfolding clock using refused i(2) by (auto simp: prepare_ff_def h(1) Let_def)
  let ?c = "engine_clock i s"
  have split: "xs ! 0 = 0x00 \<or> xs ! 0 = 0x02 \<or> xs ! 0 = 0x05 \<or> xs ! 0 = 0x07 \<or> xs ! 0 = 0x08 \<or> xs ! 0 = 0x10 \<or> xs ! 0 = 0x14
    \<or> xs ! 0 \<notin> {0x00, 0x02, 0x05, 0x07, 0x08, 0x10, 0x14}" by blast
  have parts: "request_pos ?c = 0 \<and> response_pos ?c = 0 \<and> response_length ?c = length (short_response i xs)
     \<and> response_mem ?c = (\<lambda>j. if 1 \<le> j \<and> j < length (short_response i xs) then short_response i xs ! j
         else if j = 0 then xs ! 0 else response_mem s j)
     \<and> transfer_count ?c = transfer_count s \<and> abort_count ?c = abort_count s + (if xs ! 0 = 0x07 \<or> xs ! 0 = 0x08 then 1 else 0)"
    using split c r i(2) unfolding clock
    by (elim disjE)
      (auto simp: prepare_ff_def prepare_response_def short_response_def respond_bytes_def get_or_0_def in_common_def
        transfer_refused_def h Let_def fun_eq_iff)
  moreover have "short_response i xs ! 0 = xs ! 0" "0 < length (short_response i xs)"
    by (auto simp: short_response_def)
  ultimately show ?thesis using state by (auto simp: responding_def counters_def Suc_le_eq)
qed

lemma prepare_transfer:
  assumes p: "prepared xs s" and c: "in_common xs" and i: "ei_reset_n i" "\<not> use_real_target i"
    and r: "xs ! 0 = 0x05" "\<not> force_wait i" "\<not> force_fault i"
  shows "looping xs (if force_parity_error i then 9 else 1) 0 3 [] (engine_clock i s) \<and> de_state (engine_clock i s) = FETCH_TRANSFER
    \<and> counters (engine_clock i s) = counters s"
proof -
  have h: "header_command s = 5" "header_count s = xs ! 2" "request_length s = length xs" "3 \<le> length xs" "unat (xs ! 2) \<le> MAX_TRANSFERS"
    using p c r(1) by (simp_all add: prepared_def in_common_def)
  have clock: "engine_clock i s = prepare_ff i s (s\<lparr>request_read_data := request_mem s (request_read_address s), debug_complete := False\<rparr>)"
    using p i by (simp add: prepared_def engine_clock_def Let_def)
  show ?thesis
    unfolding clock using p h i(2) r
    by (simp add: prepare_ff_def prepare_response_def transfer_refused_def looping_def respond_bytes_def prepared_def counters_def Let_def)
qed

lemma execute_short:
  assumes "in_common xs" "xs ! 0 \<noteq> 0x05 \<or> force_wait i \<or> force_fault i" "flags_of d i" "dap_execute d xs = (d', Inr resp)"
  shows "resp = short_response i xs \<and> transfers d' = transfers d
    \<and> aborts d' = aborts d + (if xs ! 0 = 0x07 \<or> xs ! 0 = 0x08 then 1 else 0)"
proof -
  have split: "xs ! 0 = 0x00 \<or> xs ! 0 = 0x02 \<or> xs ! 0 = 0x05 \<or> xs ! 0 = 0x07 \<or> xs ! 0 = 0x08 \<or> xs ! 0 = 0x10 \<or> xs ! 0 = 0x14
    \<or> xs ! 0 \<notin> {0x00, 0x02, 0x05, 0x07, 0x08, 0x10, 0x14}" by blast
  have len: "\<not> (xs = [] \<or> length xs > max_dap_packet)"
    using assms(1) by (simp add: in_common_def MAX_PACKET_def max_dap_packet_def)
  show ?thesis
    using split assms len
    by (elim disjE) (auto simp: dap_execute_def short_response_def flags_of_def in_common_def dap_info_def ascii_def Let_def
      split: if_splits)
qed

lemma dap_transfers_aborts: "dap_transfers n rest c data d = (d', c', good, data') \<Longrightarrow> aborts d' = aborts d"
  by (induction n rest c data d rule: dap_transfers.induct) (auto simp: Let_def split: if_splits)

lemma execute_transfer:
  assumes "in_common xs" "xs ! 0 = 0x05" "\<not> force_wait i" "\<not> force_fault i" "flags_of d i" "dap_execute d xs = (d', Inr resp)"
  obtains c good data where "dap_transfers (unat (xs ! 2)) (drop 3 xs) 0 [] (d\<lparr>parity_error_once := False\<rparr>) = (d', c, good, data)"
    and "resp = [5, c, if good then if force_parity_error i then 9 else 1 else 4] @ data"
  using assms
  by (auto simp: dap_execute_def flags_of_def in_common_def MAX_PACKET_def max_dap_packet_def Let_def split: prod.splits)

section \<open>The engine and the reference\<close>

lemma engine_run_append:
  "engine_run (is @ js) s = (case engine_run is s of (xs, ys, t) \<Rightarrow> case engine_run js t of (xs2, ys2, u) \<Rightarrow> (xs @ xs2, ys @ ys2, u))"
  by (induction "is" arbitrary: s) (auto split: prod.splits)

text \<open>From a request that is taken to the response that is ready to be given.\<close>

lemma prepared_answers:
  assumes p: "prepared xs s" and c: "in_common xs" and f: "flags_of d i" and cnt: "counters s = (transfers d, aborts d)"
    and ref: "dap_execute d xs = (d', Inr resp)"
  shows "\<exists>n t. n \<le> 2 * MAX_TRANSFERS + 2 \<and> settles n (engine_clock i s) t \<and> responding resp 0 t
    \<and> counters t = (transfers d', aborts d')"
proof (cases "xs ! 0 = 0x05 \<and> \<not> force_wait i \<and> \<not> force_fault i")
  case True
  obtain c' good data where tr: "dap_transfers (unat (xs ! 2)) (drop 3 xs) 0 [] (d\<lparr>parity_error_once := False\<rparr>) = (d', c', good, data)"
    and resp: "resp = [5, c', if good then if force_parity_error i then 9 else 1 else 4] @ data"
    using execute_transfer [OF c _ _ _ f ref] True by blast
  have i: "ei_reset_n i" "\<not> use_real_target i" using f by (simp_all add: flags_of_def)
  have l: "looping xs (if force_parity_error i then 9 else 1) 0 3 [] (engine_clock i s)" "de_state (engine_clock i s) = FETCH_TRANSFER"
    "counters (engine_clock i s) = counters s"
    using prepare_transfer [OF p c i] True by simp_all
  have three: "3 \<le> length xs" using c True by (simp add: in_common_def)
  have count: "transfer_count (engine_clock i s) = transfers (d\<lparr>parity_error_once := False\<rparr>)" "abort_count (engine_clock i s) = aborts d"
    using l(3) cnt by (simp_all add: counters_def)
  obtain m t where "m \<le> 2 * unat (xs ! 2) + 2" "settles m (engine_clock i s) t" "responding resp 0 t"
    "counters t = (transfers d', abort_count (engine_clock i s))"
    using loop_settles [OF l(1,2) _ three _ count(1), of "unat (xs ! 2)" d' c' good data] tr resp by auto
  moreover have "unat (xs ! 2) \<le> MAX_TRANSFERS" using c True by (simp add: in_common_def)
  ultimately show ?thesis
    using count(2) dap_transfers_aborts [OF tr] by (intro exI [of _ m] exI [of _ t]) simp
next
  case False
  then have short: "xs ! 0 \<noteq> 0x05 \<or> force_wait i \<or> force_fault i" by blast
  have i: "ei_reset_n i" "\<not> use_real_target i" using f by (simp_all add: flags_of_def)
  show ?thesis
    using prepare_short [OF p c i short] execute_short [OF c short f ref] cnt settles_0
    by (intro exI [of _ 0] exI [of _ "engine_clock i s"]) (simp add: counters_def)
qed

text \<open>
  Property C8. The engine answers as the reference does. Once the bytes of a request have been taken, with its last one marked, the
  response that the engine then gives is, for every request in common and every combination of the flags
  at the edge of \<open>PREPARE\<close>, the one of \<open>SyntheticDap::execute\<close>: after a number of clocks that depends on
  the request alone it is offered byte by byte at the pace of the reader, the last byte marked; nothing
  is taken meanwhile. The two counters go on as the reference's, and with the last byte gone the engine waits for the next request.
\<close>

theorem dap_engine_answers:
  assumes "capturing [] s" and "counters s = (transfers d, aborts d)" and "\<forall>i \<in> set is. ei_reset_n i" and "ei_reset_n i1"
    and "engine_run is s = (map (\<lambda>b. (b, False)) (butlast xs), zs, s0)" and "de_taken i1 s0 = [(last xs, True)]"
    and "in_common xs" and "flags_of d i2" and "dap_execute d xs = (d', Inr resp)"
  shows "\<exists>n. \<forall>js ks. length js = n \<longrightarrow> (\<forall>i \<in> set js. ei_reset_n i) \<longrightarrow> (\<forall>i \<in> set ks. ei_reset_n i \<and> \<not> command_valid i) \<longrightarrow>
    (\<exists>t. engine_run (is @ [i1, i2] @ js @ ks) s = (packet xs, take (ready_count ks) (packet resp), t)
       \<and> counters t = (transfers d', aborts d') \<and> (length resp \<le> ready_count ks \<longrightarrow> capturing [] t))"
proof -
  have xs: "xs \<noteq> []" "length xs \<le> MAX_PACKET" using assms(7) by (simp_all add: in_common_def)
  have len: "length ([] :: bytes) + length (butlast xs) < MAX_PACKET" using xs by (cases xs) simp_all
  have c: "capturing (butlast xs) s0" "zs = []" "counters s0 = counters s"
    using capture_run [OF assms(1,3) len assms(5)] by simp_all
  note step = capture_step [OF c(1) assms(4)]
  have blen: "length (butlast xs) < MAX_PACKET" using len by simp
  have p: "prepared xs (engine_clock i1 s0)" "counters (engine_clock i1 s0) = (transfers d, aborts d)" "de_given i1 s0 = []"
    using step(3) [OF blen assms(6)] step(4,5) [OF blen] c(3) assms(2) xs by simp_all
  obtain n t where n: "settles n (engine_clock i2 (engine_clock i1 s0)) t" "responding resp 0 t" "counters t = (transfers d', aborts d')"
    using prepared_answers [OF p(1) assms(7,8) p(2) assms(9)] by blast
  have quiet: "de_taken i2 (engine_clock i1 s0) = []" "de_given i2 (engine_clock i1 s0) = []"
    using p(1) by (simp_all add: prepared_def de_taken_def de_given_def command_ready_def response_valid_def)
  have pk: "packet xs = map (\<lambda>b. (b, False)) (butlast xs) @ [(last xs, True)]" using packet_snoc [of "butlast xs" "last xs"] xs by simp
  show ?thesis
  proof (intro exI [of _ n] allI impI)
    fix js ks :: "engine_in list"
    assume js: "length js = n" "\<forall>i \<in> set js. ei_reset_n i" and ks: "\<forall>i \<in> set ks. ei_reset_n i \<and> \<not> command_valid i"
    obtain u where u: "engine_run ks t = ([], take (ready_count ks) (packet resp), u)" "counters u = counters t"
      "if ready_count ks < length resp then responding resp (ready_count ks) u else capturing [] u"
      using respond_run [OF n(2) ks] unfolding drop_0 minus_nat.diff_0 add_0 by blast
    have "engine_run js (engine_clock i2 (engine_clock i1 s0)) = ([], [], t)" using n(1) js by (simp add: settles_def)
    then show "\<exists>t. engine_run (is @ [i1, i2] @ js @ ks) s = (packet xs, take (ready_count ks) (packet resp), t)
       \<and> counters t = (transfers d', aborts d') \<and> (length resp \<le> ready_count ks \<longrightarrow> capturing [] t)"
      using u n(3) quiet p(3) assms(5,6) c(2) pk by (auto simp: engine_run_append not_less)
  qed
qed

text \<open>An engine after reset, and what arrives with a byte of a request.\<close>

definition engine_init :: engine where
  "engine_init = engine_reset \<lparr>de_state = RESPOND, jtag_wait = 0, jtag_tdo_sample = False, request_mem = (\<lambda>_. 0), response_mem = (\<lambda>_. 0),
     request_pos = 3, request_length = 0, response_pos = 0, response_length = 0, transfer_index = 0, transfer_request_pos = 0,
     output_index = 0, completed_transfers = 0, request_read_address = 0, request_read_data = 0, header_command = 0,
     header_argument = 0, header_count = 0, header_data = 0, debug_complete = False, transfer_count = 7, abort_count = 9,
     jtag_tck = False, jtag_tms = True, jtag_tdi = False, jtag_ntrst = True, jtag_nreset = True\<rparr>"

definition command_byte :: "u8 \<Rightarrow> bool \<Rightarrow> engine_in" where
  "command_byte b l = \<lparr>ei_reset_n = True, command_data = b, command_valid = True, command_last = l, response_ready = True,
     force_wait = False, force_fault = False, force_parity_error = False, use_real_target = False, jtag_tdo = False\<rparr>"

text \<open>A transfer of two operations, a read and a write, on an engine after reset.\<close>

lemma dap_engine_answers_witness:
  "\<exists>n. \<forall>js ks. length js = n \<longrightarrow> (\<forall>i \<in> set js. ei_reset_n i) \<longrightarrow> (\<forall>i \<in> set ks. ei_reset_n i \<and> \<not> command_valid i) \<longrightarrow>
    (\<exists>t. engine_run (map (\<lambda>b. command_byte b False) (butlast [5, 0, 2, 2, 0, 1, 2, 3, 4])
           @ [command_byte 4 True, command_byte 0 False] @ js @ ks) engine_init
         = (packet [5, 0, 2, 2, 0, 1, 2, 3, 4], take (ready_count ks) (packet [5, 2, 1, 2, 0, 0xa5, 0xa5]), t)
       \<and> counters t = (2, 0) \<and> (length [5, 2, 1, 2, 0, 0xa5, 0xa5 :: u8] \<le> ready_count ks \<longrightarrow> capturing [] t))"
proof -
  let ?xs = "[5, 0, 2, 2, 0, 1, 2, 3, 4] :: u8 list"
  let ?is = "map (\<lambda>b. command_byte b False) (butlast ?xs)"
  have run: "fst (engine_run ?is engine_init) = map (\<lambda>b. (b, False)) (butlast ?xs)"
    "de_taken (command_byte 4 True) (snd (snd (engine_run ?is engine_init))) = [(last ?xs, True)]"
    by (simp_all add: command_byte_def engine_init_def engine_reset_def engine_clock_def capture_ff_def de_taken_def command_ready_def
      MAX_PACKET_def Let_def)
  have ref: "dap_execute dap_default ?xs = (dap_default\<lparr>transfers := 2\<rparr>, Inr [5, 2, 1, 2, 0, 0xa5, 0xa5])"
    by code_simp
  have "counters engine_init = (transfers dap_default, aborts dap_default)" "capturing [] engine_init"
    "in_common ?xs" "flags_of dap_default (command_byte 0 False)" "\<forall>i \<in> set ?is. ei_reset_n i" "ei_reset_n (command_byte 4 True)"
    by (simp_all add: engine_init_def engine_reset_def counters_def capturing_def dap_default_def in_common_def flags_of_def
      command_byte_def MAX_PACKET_def MAX_TRANSFERS_def)
  note facts = this
  obtain zs s0 where r: "engine_run ?is engine_init = (map (\<lambda>b. (b, False)) (butlast ?xs), zs, s0)"
    "de_taken (command_byte 4 True) s0 = [(last ?xs, True)]"
    using run by (metis prod.collapse fst_conv snd_conv)
  have "transfers (dap_default\<lparr>transfers := 2\<rparr>) = 2" "aborts (dap_default\<lparr>transfers := 2\<rparr>) = 0" by (simp_all add: dap_default_def)
  then show ?thesis
    using dap_engine_answers [OF facts(2,1,5,6) r facts(3,4) ref] by simp
qed

end
