(* ===== verification/DapPathRtl.thy ===== *)
theory DapPathRtl
  imports RegsRtl DapEngineRtl
begin

text \<open>
  The way of a debug request through the hardware: the firmware's \<open>dap_exchange\<close> on the register block of
  \<open>orbtrace_axi_regs.sv\<close> with the engine of \<open>orbtrace_dap_engine.sv\<close> behind its mailbox, joined as in
  \<open>orbtrace_pl.v\<close>. The processor's accesses are those of a bus master that waits any number of clocks before each
  of them.
\<close>

section \<open>The two units on one clock\<close>

record dap_path =
  dp_regs :: regs
  dp_engine :: engine

text \<open>The inputs from elsewhere: the other events and counters, and the data line of the scan chain.\<close>

type_synonym outside = "logic_in \<times> bool"

definition engine_wires :: "outside \<Rightarrow> regs \<Rightarrow> engine_in" where
  "engine_wires x r = \<lparr>ei_reset_n = True, command_data = dap_command_data r, command_valid = dap_command_valid r,
     command_last = dap_command_last r, response_ready = dap_response_ready r, force_wait = dap_force_wait r,
     force_fault = dap_force_fault r, force_parity_error = dap_force_parity_error r, use_real_target = m3_dap_real r,
     jtag_tdo = snd x\<rparr>"

definition regs_wires :: "outside \<Rightarrow> engine \<Rightarrow> logic_in" where
  "regs_wires x e = (fst x)\<lparr>irq_debug_complete := irq_debug_complete (fst x) \<or> debug_complete e,
     ri_command_ready := command_ready e, ri_response_data := response_data e, ri_response_valid := response_valid e,
     ri_response_last := response_last e, ri_transfer_count := transfer_count e, ri_abort_count := abort_count e\<rparr>"

definition path_clock :: "axi_in \<Rightarrow> outside \<Rightarrow> dap_path \<Rightarrow> dap_path" where
  "path_clock a x p =
     \<lparr>dp_regs = regs_clock (True, a, regs_wires x (dp_engine p)) (dp_regs p),
      dp_engine = engine_clock (engine_wires x (dp_regs p)) (dp_engine p)\<rparr>"

section \<open>The bus master\<close>

text \<open>The hardware, the clocks to wait before each access (none when the list is used up), and the time.\<close>

record bus =
  bs_path :: dap_path
  bs_delays :: "nat list"
  bs_time :: nat

definition bus_cycle :: "(nat \<Rightarrow> outside) \<Rightarrow> axi_in \<Rightarrow> bus \<Rightarrow> bus" where
  "bus_cycle out a b = b\<lparr>bs_path := path_clock a (out (bs_time b)) (bs_path b), bs_time := Suc (bs_time b)\<rparr>"

definition bus_wait :: "(nat \<Rightarrow> outside) \<Rightarrow> bus \<Rightarrow> bus" where
  "bus_wait out b = (case bs_delays b of [] \<Rightarrow> b
     | n # ns \<Rightarrow> (bus_cycle out axi_idle ^^ n) (b\<lparr>bs_delays := ns\<rparr>))"

definition bus_read :: "(nat \<Rightarrow> outside) \<Rightarrow> nat \<Rightarrow> bus \<Rightarrow> u32 \<times> bus" where
  "bus_read out a b =
     (let b1 = bus_cycle out (axi_idle\<lparr>araddr := of_nat a, arvalid := True\<rparr>) (bus_wait out b)
      in (rdata (dp_regs (bs_path b1)), bus_cycle out axi_idle b1))"

definition bus_write :: "(nat \<Rightarrow> outside) \<Rightarrow> nat \<Rightarrow> u32 \<Rightarrow> bus \<Rightarrow> bus" where
  "bus_write out a d b =
     bus_cycle out axi_idle
       (bus_cycle out (axi_idle\<lparr>awaddr := of_nat a, awvalid := True, wdata := d, wvalid := True\<rparr>) (bus_wait out b))"

definition bus_io :: "(nat \<Rightarrow> outside) \<Rightarrow> bus register_io" where
  "bus_io out = with_defaults (bus_read out) (bus_write out)"

section \<open>The mailbox\<close>

lemma mailbox_after_edge:
  "dap_command_valid (regs_clock (True, a, i) s) \<longleftrightarrow>
     (if dap_command_valid s then \<not> ri_command_ready i else write_fire a s \<and> write_address a s = ORBTRACE_REG_DAP_COMMAND)"
  "dap_command_data (regs_clock (True, a, i) s) =
     (if \<not> dap_command_valid s \<and> write_fire a s \<and> write_address a s = ORBTRACE_REG_DAP_COMMAND
      then ucast (write_data_wire a s) else dap_command_data s)"
  "dap_command_last (regs_clock (True, a, i) s) =
     (if \<not> dap_command_valid s \<and> write_fire a s \<and> write_address a s = ORBTRACE_REG_DAP_COMMAND
      then bit (write_data_wire a s) 8 else dap_command_last s)"
  "dap_response_hold_valid (regs_clock (True, a, i) s) \<longleftrightarrow>
     (dap_response_hold_valid s \<or> ri_response_valid i) \<and> \<not> (read_fire a s \<and> araddr a = ORBTRACE_REG_DAP_RESPONSE)"
  "dap_response_hold (regs_clock (True, a, i) s) =
     (if ri_response_valid i \<and> \<not> dap_response_hold_valid s then ri_response_data i else dap_response_hold s)"
  "dap_response_hold_last (regs_clock (True, a, i) s) =
     (if ri_response_valid i \<and> \<not> dap_response_hold_valid s then ri_response_last i else dap_response_hold_last s)"
proof -
  let ?u = "events_ff a i s s" let ?v = "reg_write_ff a s ?u"
  have u: "dap_command_valid ?u = (dap_command_valid s \<and> \<not> ri_command_ready i)" "dap_command_data ?u = dap_command_data s"
    "dap_command_last ?u = dap_command_last s" "dap_response_hold_valid ?u = (dap_response_hold_valid s \<or> ri_response_valid i)"
    "dap_response_hold ?u = (if ri_response_valid i \<and> \<not> dap_response_hold_valid s then ri_response_data i else dap_response_hold s)"
    "dap_response_hold_last ?u = (if ri_response_valid i \<and> \<not> dap_response_hold_valid s then ri_response_last i
      else dap_response_hold_last s)"
    by (auto simp: events_ff_def dap_response_ready_def Let_def)
  have w: "dap_command_valid (reg_write b d s t) = (if b = ORBTRACE_REG_DAP_COMMAND \<and> \<not> dap_command_valid s then True else dap_command_valid t)"
    "dap_command_data (reg_write b d s t) = (if b = ORBTRACE_REG_DAP_COMMAND \<and> \<not> dap_command_valid s then ucast d else dap_command_data t)"
    "dap_command_last (reg_write b d s t) = (if b = ORBTRACE_REG_DAP_COMMAND \<and> \<not> dap_command_valid s then bit d 8 else dap_command_last t)"
    "dap_response_hold_valid (reg_write b d s t) = dap_response_hold_valid t" "dap_response_hold (reg_write b d s t) = dap_response_hold t"
    "dap_response_hold_last (reg_write b d s t) = dap_response_hold_last t" for b d t
    by (simp_all add: reg_write_def reg_address_defs)
  have v: "dap_command_valid ?v = (if dap_command_valid s then \<not> ri_command_ready i
      else write_fire a s \<and> write_address a s = ORBTRACE_REG_DAP_COMMAND)"
    "dap_command_data ?v = (if \<not> dap_command_valid s \<and> write_fire a s \<and> write_address a s = ORBTRACE_REG_DAP_COMMAND
      then ucast (write_data_wire a s) else dap_command_data s)"
    "dap_command_last ?v = (if \<not> dap_command_valid s \<and> write_fire a s \<and> write_address a s = ORBTRACE_REG_DAP_COMMAND
      then bit (write_data_wire a s) 8 else dap_command_last s)"
    "dap_response_hold_valid ?v = dap_response_hold_valid ?u" "dap_response_hold ?v = dap_response_hold ?u"
    "dap_response_hold_last ?v = dap_response_hold_last ?u"
    by (simp_all add: reg_write_ff_def w u(1-3) Let_def)
  show "dap_command_valid (regs_clock (True, a, i) s) \<longleftrightarrow>
      (if dap_command_valid s then \<not> ri_command_ready i else write_fire a s \<and> write_address a s = ORBTRACE_REG_DAP_COMMAND)"
    "dap_command_data (regs_clock (True, a, i) s) =
      (if \<not> dap_command_valid s \<and> write_fire a s \<and> write_address a s = ORBTRACE_REG_DAP_COMMAND
       then ucast (write_data_wire a s) else dap_command_data s)"
    "dap_command_last (regs_clock (True, a, i) s) =
      (if \<not> dap_command_valid s \<and> write_fire a s \<and> write_address a s = ORBTRACE_REG_DAP_COMMAND
       then bit (write_data_wire a s) 8 else dap_command_last s)"
    "dap_response_hold_valid (regs_clock (True, a, i) s) \<longleftrightarrow>
      (dap_response_hold_valid s \<or> ri_response_valid i) \<and> \<not> (read_fire a s \<and> araddr a = ORBTRACE_REG_DAP_RESPONSE)"
    "dap_response_hold (regs_clock (True, a, i) s) =
      (if ri_response_valid i \<and> \<not> dap_response_hold_valid s then ri_response_data i else dap_response_hold s)"
    "dap_response_hold_last (regs_clock (True, a, i) s) =
      (if ri_response_valid i \<and> \<not> dap_response_hold_valid s then ri_response_last i else dap_response_hold_last s)"
    by (auto simp: regs_clock_def reg_read_ff_def v u(4-6) Let_def)
qed

lemma flags_after_edge:
  assumes "write_fire a s \<longrightarrow> write_address a s = ORBTRACE_REG_DAP_COMMAND"
  shows "dap_force_wait (regs_clock (True, a, i) s) = dap_force_wait s" "dap_force_fault (regs_clock (True, a, i) s) = dap_force_fault s"
    "dap_force_parity_error (regs_clock (True, a, i) s) = dap_force_parity_error s"
    "m3_dap_real (regs_clock (True, a, i) s) = m3_dap_real s"
proof -
  have u: "dap_force_wait (events_ff a i s s) = dap_force_wait s" "dap_force_fault (events_ff a i s s) = dap_force_fault s"
    "dap_force_parity_error (events_ff a i s s) = dap_force_parity_error s" "m3_dap_real (events_ff a i s s) = m3_dap_real s"
    by (simp_all add: events_ff_def Let_def)
  have c: "ORBTRACE_REG_DAP_COMMAND \<noteq> ORBTRACE_REG_DAP_CONTROL" "ORBTRACE_REG_DAP_COMMAND \<noteq> ORBTRACE_REG_M3_CONTROL"
    by (simp_all add: reg_address_defs)
  show "dap_force_wait (regs_clock (True, a, i) s) = dap_force_wait s" "dap_force_fault (regs_clock (True, a, i) s) = dap_force_fault s"
    "dap_force_parity_error (regs_clock (True, a, i) s) = dap_force_parity_error s"
    "m3_dap_real (regs_clock (True, a, i) s) = m3_dap_real s"
    using assms c by (simp_all add: regs_clock_def reg_read_ff_def reg_write_ff_def reg_write_other u Let_def)
qed

section \<open>Phases of an exchange\<close>

text \<open>
  Taking the request, with the bytes \<open>xs\<close> so far; a byte in the mailbox; the request taken; the engine at work, at most
  \<open>n\<close> clocks before byte \<open>j\<close> of the response is offered; that byte in the mailbox.
\<close>

definition taking :: "bytes \<Rightarrow> u64 \<times> u32 \<Rightarrow> dap_path \<Rightarrow> bool" where
  "taking xs c p \<longleftrightarrow> \<not> dap_command_valid (dp_regs p) \<and> \<not> dap_response_hold_valid (dp_regs p)
     \<and> capturing xs (dp_engine p) \<and> counters (dp_engine p) = c"

definition sent :: "bytes \<Rightarrow> u8 \<Rightarrow> bool \<Rightarrow> u64 \<times> u32 \<Rightarrow> dap_path \<Rightarrow> bool" where
  "sent xs b l c p \<longleftrightarrow> dap_command_valid (dp_regs p) \<and> dap_command_data (dp_regs p) = b \<and> dap_command_last (dp_regs p) = l
     \<and> \<not> dap_response_hold_valid (dp_regs p) \<and> capturing xs (dp_engine p) \<and> counters (dp_engine p) = c"

definition asked :: "bytes \<Rightarrow> u64 \<times> u32 \<Rightarrow> dap_path \<Rightarrow> bool" where
  "asked xs c p \<longleftrightarrow> \<not> dap_command_valid (dp_regs p) \<and> \<not> dap_response_hold_valid (dp_regs p)
     \<and> prepared xs (dp_engine p) \<and> counters (dp_engine p) = c"

definition busy :: "nat \<Rightarrow> bytes \<Rightarrow> nat \<Rightarrow> u64 \<times> u32 \<Rightarrow> dap_path \<Rightarrow> bool" where
  "busy n resp j c p \<longleftrightarrow> \<not> dap_command_valid (dp_regs p) \<and> \<not> dap_response_hold_valid (dp_regs p)
     \<and> (responding resp j (dp_engine p) \<and> counters (dp_engine p) = c
        \<or> j = 0 \<and> (\<exists>m \<le> n. \<exists>u. settles m (dp_engine p) u \<and> responding resp 0 u \<and> counters u = c))"

definition holding :: "bytes \<Rightarrow> nat \<Rightarrow> u64 \<times> u32 \<Rightarrow> dap_path \<Rightarrow> bool" where
  "holding resp j c p \<longleftrightarrow> \<not> dap_command_valid (dp_regs p) \<and> dap_response_hold_valid (dp_regs p) \<and> j < length resp
     \<and> dap_response_hold (dp_regs p) = resp ! j \<and> dap_response_hold_last (dp_regs p) = (Suc j = length resp)
     \<and> counters (dp_engine p) = c
     \<and> (if Suc j = length resp then capturing [] (dp_engine p) else responding resp (Suc j) (dp_engine p))"

text \<open>An edge that neither writes a register nor reads the response.\<close>

definition apart :: "axi_in \<Rightarrow> dap_path \<Rightarrow> bool" where
  "apart a p \<longleftrightarrow> \<not> write_fire a (dp_regs p) \<and> \<not> (read_fire a (dp_regs p) \<and> araddr a = ORBTRACE_REG_DAP_RESPONSE)"

lemmas path_mailbox = path_clock_def engine_wires_def regs_wires_def mailbox_after_edge dap_response_ready_def

lemma capturing_wires:
  assumes "capturing xs e" "length xs < MAX_PACKET"
  shows "command_ready e" "\<not> response_valid e"
  using assms by (simp_all add: capturing_def command_ready_def response_valid_def)

lemma MAX_PACKET_pos: "0 < MAX_PACKET"
  by (simp add: MAX_PACKET_def)

lemma taking_step:
  assumes "taking xs c p" "length xs < MAX_PACKET" "\<not> (read_fire a (dp_regs p) \<and> araddr a = ORBTRACE_REG_DAP_RESPONSE)"
  shows "\<not> write_fire a (dp_regs p) \<Longrightarrow> taking xs c (path_clock a x p)"
    and "write_fire a (dp_regs p) \<Longrightarrow> write_address a (dp_regs p) = ORBTRACE_REG_DAP_COMMAND \<Longrightarrow>
      sent xs (ucast (write_data_wire a (dp_regs p))) (bit (write_data_wire a (dp_regs p)) 8) c (path_clock a x p)"
proof -
  let ?i = "engine_wires x (dp_regs p)"
  have e: "capturing xs (dp_engine p)" "counters (dp_engine p) = c" and v: "\<not> dap_command_valid (dp_regs p)"
    using assms(1) by (simp_all add: taking_def)
  have i: "ei_reset_n ?i" "de_taken ?i (dp_engine p) = []" using v by (simp_all add: engine_wires_def de_taken_def)
  note s = capture_step [OF e(1) i(1) assms(2)]
  have "capturing xs (engine_clock ?i (dp_engine p))" "counters (engine_clock ?i (dp_engine p)) = c"
    using s(1) [OF i(2)] s(4) e(2) by simp_all
  then show "\<not> write_fire a (dp_regs p) \<Longrightarrow> taking xs c (path_clock a x p)"
    and "write_fire a (dp_regs p) \<Longrightarrow> write_address a (dp_regs p) = ORBTRACE_REG_DAP_COMMAND \<Longrightarrow>
      sent xs (ucast (write_data_wire a (dp_regs p))) (bit (write_data_wire a (dp_regs p)) 8) c (path_clock a x p)"
    using assms(1) capturing_wires [OF e(1) assms(2)]
    by (simp_all add: taking_def sent_def path_clock_def regs_wires_def mailbox_after_edge)
qed

lemma sent_step:
  assumes "sent xs b l c p" "length xs < MAX_PACKET" "apart a p"
  shows "l \<Longrightarrow> asked (xs @ [b]) c (path_clock a x p)" and "\<not> l \<Longrightarrow> taking (xs @ [b]) c (path_clock a x p)"
proof -
  let ?i = "engine_wires x (dp_regs p)"
  have e: "capturing xs (dp_engine p)" "counters (dp_engine p) = c" using assms(1) by (simp_all add: sent_def)
  note w = capturing_wires [OF e(1) assms(2)]
  have i: "ei_reset_n ?i" "de_taken ?i (dp_engine p) = [(b, l)]"
    using assms(1) w by (simp_all add: sent_def engine_wires_def de_taken_def)
  note s = capture_step [OF e(1) i(1) assms(2)]
  have r: "\<not> dap_command_valid (dp_regs (path_clock a x p))" "\<not> dap_response_hold_valid (dp_regs (path_clock a x p))"
    using assms(1,3) w by (auto simp: sent_def apart_def path_clock_def regs_wires_def mailbox_after_edge)
  show "l \<Longrightarrow> asked (xs @ [b]) c (path_clock a x p)" "\<not> l \<Longrightarrow> taking (xs @ [b]) c (path_clock a x p)"
    using s(2,3) [of b] s(4) i(2) e(2) r by (simp_all add: asked_def taking_def path_clock_def)
qed

lemma respond_step:
  assumes "responding bs k e" "ei_reset_n i" "\<not> command_valid i"
  shows "counters (engine_clock i e) = counters e" "response_valid e" "response_data e = bs ! k"
    "response_last e \<longleftrightarrow> Suc k = length bs" "k < length bs"
    "\<not> response_ready i \<Longrightarrow> responding bs k (engine_clock i e)"
    "response_ready i \<Longrightarrow> Suc k < length bs \<Longrightarrow> responding bs (Suc k) (engine_clock i e)"
    "response_ready i \<Longrightarrow> Suc k = length bs \<Longrightarrow> capturing [] (engine_clock i e)"
proof -
  have "\<forall>j \<in> set [i]. ei_reset_n j \<and> \<not> command_valid j" using assms(2,3) by simp
  from respond_run [OF assms(1) this] have s: "counters (engine_clock i e) = counters e"
    "if ready_count [i] < length bs - k then responding bs (k + ready_count [i]) (engine_clock i e) else capturing [] (engine_clock i e)"
    by auto
  show "counters (engine_clock i e) = counters e" by (rule s(1))
  show "response_valid e" "response_data e = bs ! k" "response_last e \<longleftrightarrow> Suc k = length bs" "k < length bs"
    using assms(1) by (auto simp: responding_def response_valid_def response_data_def response_last_def)
  then show "\<not> response_ready i \<Longrightarrow> responding bs k (engine_clock i e)"
    "response_ready i \<Longrightarrow> Suc k < length bs \<Longrightarrow> responding bs (Suc k) (engine_clock i e)"
    "response_ready i \<Longrightarrow> Suc k = length bs \<Longrightarrow> capturing [] (engine_clock i e)"
    using s(2) by (simp_all split: if_splits)
qed

lemma settles_step:
  assumes "settles (Suc m) e u" "ei_reset_n i"
  shows "settles m (engine_clock i e) u" "response_ready i \<Longrightarrow> \<not> response_valid e"
proof -
  have run: "engine_run (i # js) e = ([], [], u)" if "length js = m" "\<forall>i \<in> set js. ei_reset_n i" for js
    using assms that unfolding settles_def by (metis length_Cons set_ConsD)
  show "settles m (engine_clock i e) u"
    unfolding settles_def using run by (fastforce split: prod.splits)
  have "engine_run (i # replicate m i) e = ([], [], u)" using run assms(2) by simp
  then show "response_ready i \<Longrightarrow> \<not> response_valid e" by (auto simp: de_given_def split: prod.splits if_splits)
qed

lemma settles_0_iff: "settles 0 e u \<longleftrightarrow> u = e"
  by (auto simp: settles_def)

lemma asked_step:
  assumes "asked xs (transfers d, aborts d) p" "apart a p" "in_common xs" "flags_of d (engine_wires x (dp_regs p))"
    "dap_execute d xs = (d', Inr resp)"
  shows "busy (2 * MAX_TRANSFERS + 2) resp 0 (transfers d', aborts d') (path_clock a x p)"
proof -
  have e: "prepared xs (dp_engine p)" "counters (dp_engine p) = (transfers d, aborts d)" using assms(1) by (simp_all add: asked_def)
  have "\<not> response_valid (dp_engine p)" using e(1) by (simp add: prepared_def response_valid_def)
  then have "\<not> dap_command_valid (dp_regs (path_clock a x p))" "\<not> dap_response_hold_valid (dp_regs (path_clock a x p))"
    using assms(1,2) by (simp_all add: asked_def apart_def path_clock_def regs_wires_def mailbox_after_edge)
  then show ?thesis
    using prepared_answers [OF e(1) assms(3,4) e(2) assms(5)] by (fastforce simp: busy_def path_clock_def)
qed

lemma busy_wires:
  assumes "busy n resp j c p"
  shows "ei_reset_n (engine_wires x (dp_regs p))" "\<not> command_valid (engine_wires x (dp_regs p))"
    "response_ready (engine_wires x (dp_regs p))"
  using assms by (simp_all add: busy_def engine_wires_def dap_response_ready_def)

lemma busy_step:
  assumes "busy n resp j c p" "apart a p"
  shows "holding resp j c (path_clock a x p) \<or> 0 < n \<and> busy (n - 1) resp j c (path_clock a x p)"
proof (cases "responding resp j (dp_engine p) \<and> counters (dp_engine p) = c")
  case True
  note r = respond_step [OF conjunct1 [OF True] busy_wires(1,2) [OF assms(1)]]
  have "holding resp j c (path_clock a x p)"
    using assms True r(1,7,8) [of x] r(2-5) busy_wires(3) [OF assms(1)] r(5)
    by (auto simp: holding_def busy_def apart_def path_clock_def regs_wires_def mailbox_after_edge)
  then show ?thesis by simp
next
  case False
  then obtain m u where m: "m \<le> n" "settles m (dp_engine p) u" "responding resp 0 u" "counters u = c" and j: "j = 0"
    using assms(1) by (auto simp: busy_def)
  then obtain k where k: "m = Suc k" using False by (cases m) (auto simp: settles_0_iff)
  note s = settles_step [OF m(2) [unfolded k] busy_wires(1) [OF assms(1), of x]]
  have "\<not> response_valid (dp_engine p)" using s(2) busy_wires(3) [OF assms(1)] by blast
  then have "\<not> dap_command_valid (dp_regs (path_clock a x p))" "\<not> dap_response_hold_valid (dp_regs (path_clock a x p))"
    using assms by (simp_all add: busy_def apart_def path_clock_def regs_wires_def mailbox_after_edge)
  moreover have "k \<le> n - 1" "0 < n" using m(1) k by simp_all
  ultimately show ?thesis using s(1) m(3,4) j by (auto simp: busy_def path_clock_def)
qed

lemma busy_more: "busy n resp j c p \<Longrightarrow> busy (Suc n) resp j c p"
  by (auto simp: busy_def dest: le_SucI)

lemma holding_engine:
  assumes "holding resp j c p"
  shows "counters (engine_clock (engine_wires x (dp_regs p)) (dp_engine p)) = c"
    "Suc j = length resp \<Longrightarrow> capturing [] (engine_clock (engine_wires x (dp_regs p)) (dp_engine p))"
    "Suc j \<noteq> length resp \<Longrightarrow> responding resp (Suc j) (engine_clock (engine_wires x (dp_regs p)) (dp_engine p))"
proof -
  let ?i = "engine_wires x (dp_regs p)"
  have i: "ei_reset_n ?i" "\<not> command_valid ?i" "\<not> response_ready ?i"
    using assms by (simp_all add: holding_def engine_wires_def dap_response_ready_def)
  then have taken: "de_taken ?i (dp_engine p) = []" by (simp add: de_taken_def)
  have "counters (engine_clock ?i (dp_engine p)) = c
    \<and> (if Suc j = length resp then capturing [] (engine_clock ?i (dp_engine p)) else responding resp (Suc j) (engine_clock ?i (dp_engine p)))"
  proof (cases "Suc j = length resp")
    case True
    then have "capturing [] (dp_engine p)" "counters (dp_engine p) = c" using assms by (simp_all add: holding_def)
    then show ?thesis using True capture_step(1,4) [of "[]" "dp_engine p" ?i] i(1) taken MAX_PACKET_pos by simp
  next
    case False
    then have "responding resp (Suc j) (dp_engine p)" "counters (dp_engine p) = c" using assms by (simp_all add: holding_def)
    then show ?thesis using False respond_step(1,6) [OF _ i(1,2)] i(3) by simp
  qed
  then show "counters (engine_clock ?i (dp_engine p)) = c"
    "Suc j = length resp \<Longrightarrow> capturing [] (engine_clock ?i (dp_engine p))"
    "Suc j \<noteq> length resp \<Longrightarrow> responding resp (Suc j) (engine_clock ?i (dp_engine p))"
    by (simp_all split: if_splits)
qed

lemma holding_step:
  assumes "holding resp j c p" "\<not> write_fire a (dp_regs p)"
  shows "\<not> (read_fire a (dp_regs p) \<and> araddr a = ORBTRACE_REG_DAP_RESPONSE) \<Longrightarrow> holding resp j c (path_clock a x p)"
    and "read_fire a (dp_regs p) \<Longrightarrow> araddr a = ORBTRACE_REG_DAP_RESPONSE \<Longrightarrow>
      (if Suc j = length resp then taking [] c (path_clock a x p) else busy 0 resp (Suc j) c (path_clock a x p))"
  using assms holding_engine [OF assms(1), of x]
  by (auto simp: holding_def taking_def busy_def path_clock_def regs_wires_def mailbox_after_edge)

text \<open>The response to come: \<open>k\<close> edges are left at most until its first byte is in the mailbox.\<close>

definition near :: "nat \<Rightarrow> bytes \<Rightarrow> u64 \<times> u32 \<Rightarrow> bytes \<Rightarrow> u64 \<times> u32 \<Rightarrow> dap_path \<Rightarrow> bool" where
  "near k xs c0 resp c p \<longleftrightarrow> holding resp 0 c p
     \<or> (\<exists>n. k = Suc n \<and> (busy n resp 0 c p \<or> 2 * MAX_TRANSFERS + 2 < n \<and> asked xs c0 p))"

lemma near_step:
  assumes "near k xs (transfers d, aborts d) resp (transfers d', aborts d') p" "apart a p" "in_common xs"
    "flags_of d (engine_wires x (dp_regs p))" "dap_execute d xs = (d', Inr resp)"
  shows "near (k - 1) xs (transfers d, aborts d) resp (transfers d', aborts d') (path_clock a x p)"
proof -
  let ?c = "(transfers d', aborts d')" and ?p = "path_clock a x p"
  consider "holding resp 0 ?c p" | n where "k = Suc n" "busy n resp 0 ?c p"
    | n where "k = Suc n" "2 * MAX_TRANSFERS + 2 < n" "asked xs (transfers d, aborts d) p"
    using assms(1) by (auto simp: near_def)
  then show ?thesis
  proof cases
    case 1
    then show ?thesis using holding_step(1) [OF 1, of a x] assms(2) by (simp add: near_def apart_def)
  next
    case 2
    then show ?thesis using busy_step [OF 2(2) assms(2), of x] by (cases n) (auto simp: near_def)
  next
    case 3
    then obtain m where m: "n = Suc m" "2 * MAX_TRANSFERS + 2 \<le> m" by (cases n) auto
    have "busy (2 * MAX_TRANSFERS + 2) resp 0 ?c ?p" by (rule asked_step [OF 3(3) assms(2-5)])
    then have "busy m resp 0 ?c ?p" using m(2) by (auto simp: busy_def intro: order_trans)
    then show ?thesis using 3(1) m by (simp add: near_def)
  qed
qed

lemma near_more: "near k xs c0 resp c p \<Longrightarrow> near (Suc k) xs c0 resp c p"
  by (auto simp: near_def intro: busy_more)

lemma near_0: "near 0 xs c0 resp c p \<longleftrightarrow> holding resp 0 c p"
  by (simp add: near_def)

section \<open>Accesses\<close>

definition bus_free :: "dap_path \<Rightarrow> bool" where
  "bus_free p \<longleftrightarrow> \<not> bvalid (dp_regs p) \<and> \<not> rvalid (dp_regs p) \<and> \<not> aw_pending (dp_regs p) \<and> \<not> w_pending (dp_regs p)"

text \<open>The flags of the engine are those of the reference, and its target is the synthetic one.\<close>

definition flags_set :: "synthetic_dap \<Rightarrow> dap_path \<Rightarrow> bool" where
  "flags_set d p \<longleftrightarrow> dap_force_wait (dp_regs p) = wait_once d \<and> dap_force_fault (dp_regs p) = fault_once d
     \<and> dap_force_parity_error (dp_regs p) = parity_error_once d \<and> \<not> m3_dap_real (dp_regs p)"

lemma flags_set_of: "flags_set d p \<Longrightarrow> flags_of d (engine_wires x (dp_regs p))"
  by (simp add: flags_set_def flags_of_def engine_wires_def)

definition stands :: "synthetic_dap \<Rightarrow> (dap_path \<Rightarrow> bool) \<Rightarrow> bus \<Rightarrow> bool" where
  "stands d P b \<longleftrightarrow> bus_free (bs_path b) \<and> flags_set d (bs_path b) \<and> P (bs_path b)"

lemma idle_free:
  assumes "\<not> aw_pending (dp_regs p)" "\<not> w_pending (dp_regs p)"
  shows "apart axi_idle p" "bus_free (path_clock axi_idle x p)" "flags_set d p \<Longrightarrow> flags_set d (path_clock axi_idle x p)"
proof -
  have fire: "\<not> write_fire axi_idle (dp_regs p)" "\<not> read_fire axi_idle (dp_regs p)" "\<not> aw_take axi_idle (dp_regs p)"
    "\<not> w_take axi_idle (dp_regs p)" "bready axi_idle" "rready axi_idle"
    using assms by (simp_all add: write_fire_def read_fire_def aw_take_def w_take_def axi_idle_def)
  then show "apart axi_idle p" "bus_free (path_clock axi_idle x p)"
    using assms by (simp_all add: apart_def bus_free_def path_clock_def bus_after_edge)
  show "flags_set d p \<Longrightarrow> flags_set d (path_clock axi_idle x p)"
    using fire(1) by (simp add: flags_set_def path_clock_def flags_after_edge)
qed

lemma cycle_stands:
  assumes "stands d P b" "\<And>p x. P p \<Longrightarrow> apart axi_idle p \<Longrightarrow> flags_of d (engine_wires x (dp_regs p)) \<Longrightarrow> P (path_clock axi_idle x p)"
  shows "stands d P (bus_cycle out axi_idle b)"
proof -
  have p: "\<not> aw_pending (dp_regs (bs_path b))" "\<not> w_pending (dp_regs (bs_path b))" "flags_set d (bs_path b)" "P (bs_path b)"
    using assms(1) by (simp_all add: stands_def bus_free_def)
  show ?thesis
    using idle_free [OF p(1,2)] assms(2) [OF p(4) idle_free(1) [OF p(1,2)] flags_set_of [OF p(3)]] p(3)
    by (simp add: stands_def bus_cycle_def)
qed

lemma wait_stands:
  assumes "stands d P b" "\<And>p x. P p \<Longrightarrow> apart axi_idle p \<Longrightarrow> flags_of d (engine_wires x (dp_regs p)) \<Longrightarrow> P (path_clock axi_idle x p)"
  shows "stands d P (bus_wait out b)"
proof -
  have "stands d P (bus_cycle out axi_idle b')" if "stands d P b'" for b'
    using that by (rule cycle_stands) (rule assms(2))
  then have "stands d P ((bus_cycle out axi_idle ^^ n) b')" if "stands d P b'" for n b'
    using that by (induction n) auto
  moreover have "stands d P (b\<lparr>bs_delays := ns\<rparr>)" for ns using assms(1) by (simp add: stands_def)
  ultimately show ?thesis using assms(1) by (auto simp: bus_wait_def split: list.splits)
qed

text \<open>A read takes the value of the register at its first edge, a write is performed at its first edge.\<close>

definition read_request :: "nat \<Rightarrow> axi_in" where
  "read_request a = axi_idle\<lparr>araddr := of_nat a, arvalid := True\<rparr>"

definition write_request :: "nat \<Rightarrow> u32 \<Rightarrow> axi_in" where
  "write_request a d = axi_idle\<lparr>awaddr := of_nat a, awvalid := True, wdata := d, wvalid := True\<rparr>"

lemma read_edge:
  assumes "bus_free p"
  shows "\<not> write_fire (read_request a) (dp_regs p)" "read_fire (read_request a) (dp_regs p)" "araddr (read_request a) = of_nat a"
    "rdata (dp_regs (path_clock (read_request a) x p)) = reg_read (of_nat a) (regs_wires x (dp_engine p)) (dp_regs p)"
    "\<not> aw_pending (dp_regs (path_clock (read_request a) x p))" "\<not> w_pending (dp_regs (path_clock (read_request a) x p))"
    "flags_set d p \<Longrightarrow> flags_set d (path_clock (read_request a) x p)"
proof -
  show fire: "\<not> write_fire (read_request a) (dp_regs p)" "read_fire (read_request a) (dp_regs p)"
    "araddr (read_request a) = of_nat a"
    using assms by (simp_all add: bus_free_def write_fire_def read_fire_def arready_def aw_take_def read_request_def axi_idle_def)
  then show "rdata (dp_regs (path_clock (read_request a) x p)) = reg_read (of_nat a) (regs_wires x (dp_engine p)) (dp_regs p)"
    by (simp add: path_clock_def bus_after_edge)
  show "\<not> aw_pending (dp_regs (path_clock (read_request a) x p))" "\<not> w_pending (dp_regs (path_clock (read_request a) x p))"
    using assms by (simp_all add: path_clock_def bus_after_edge bus_free_def aw_take_def w_take_def read_request_def axi_idle_def)
  show "flags_set d p \<Longrightarrow> flags_set d (path_clock (read_request a) x p)"
    using fire(1) by (simp add: flags_set_def path_clock_def flags_after_edge)
qed

lemma write_edge_request:
  assumes "bus_free p" "of_nat a = ORBTRACE_REG_DAP_COMMAND"
  shows "write_fire (write_request a v) (dp_regs p)" "write_address (write_request a v) (dp_regs p) = ORBTRACE_REG_DAP_COMMAND"
    "write_data_wire (write_request a v) (dp_regs p) = v" "\<not> read_fire (write_request a v) (dp_regs p)"
    "\<not> aw_pending (dp_regs (path_clock (write_request a v) x p))" "\<not> w_pending (dp_regs (path_clock (write_request a v) x p))"
    "flags_set d p \<Longrightarrow> flags_set d (path_clock (write_request a v) x p)"
proof -
  show fire: "write_fire (write_request a v) (dp_regs p)"
    "write_address (write_request a v) (dp_regs p) = ORBTRACE_REG_DAP_COMMAND"
    "write_data_wire (write_request a v) (dp_regs p) = v" "\<not> read_fire (write_request a v) (dp_regs p)"
    using assms by (simp_all add: bus_free_def write_fire_def aw_take_def w_take_def awready_def wready_def write_address_def
      write_data_wire_def read_fire_def write_request_def axi_idle_def)
  show "\<not> aw_pending (dp_regs (path_clock (write_request a v) x p))" "\<not> w_pending (dp_regs (path_clock (write_request a v) x p))"
    using fire(1) by (simp_all add: path_clock_def bus_after_edge)
  show "flags_set d p \<Longrightarrow> flags_set d (path_clock (write_request a v) x p)"
    using fire(2) by (simp add: flags_set_def path_clock_def flags_after_edge)
qed

text \<open>A whole read in two edges, the waiting before it aside.\<close>

lemma read_stands:
  assumes "stands d P (bus_wait out b)"
    and step: "\<And>p x. P p \<Longrightarrow> \<not> write_fire (read_request a) (dp_regs p) \<Longrightarrow> read_fire (read_request a) (dp_regs p)
      \<Longrightarrow> flags_of d (engine_wires x (dp_regs p)) \<Longrightarrow> Q (path_clock (read_request a) x p)"
    and idle: "\<And>p x. Q p \<Longrightarrow> apart axi_idle p \<Longrightarrow> flags_of d (engine_wires x (dp_regs p)) \<Longrightarrow> R (path_clock axi_idle x p)"
  shows "\<exists>l w b'. bus_read out a b = (w, b') \<and> w = reg_read (of_nat a) l (dp_regs (bs_path (bus_wait out b))) \<and> stands d R b'"
proof -
  let ?p = "bs_path (bus_wait out b)" and ?t = "bs_time (bus_wait out b)"
  let ?q = "path_clock (read_request a) (out ?t) ?p"
  have free: "bus_free ?p" "flags_set d ?p" "P ?p" using assms(1) by (simp_all add: stands_def)
  note r = read_edge [OF free(1), where a = a]
  have q: "Q ?q" by (rule step [OF free(3) r(1,2) flags_set_of [OF free(2)]])
  note i = idle_free [OF r(5,6)]
  have "R (path_clock axi_idle (out (Suc ?t)) ?q)" by (rule idle [OF q i(1) flags_set_of [OF r(7) [OF free(2)]]])
  then have "stands d R (snd (bus_read out a b))"
    using i(2,3) r(7) [OF free(2)] by (simp add: stands_def bus_read_def bus_cycle_def read_request_def [symmetric])
  moreover have "fst (bus_read out a b) = reg_read (of_nat a) (regs_wires (out ?t) (dp_engine ?p)) (dp_regs ?p)"
    using r(4) by (simp add: bus_read_def bus_cycle_def read_request_def [symmetric])
  ultimately show ?thesis by (metis prod.collapse)
qed

lemma write_stands:
  assumes "stands d (taking xs c) b" "length xs < MAX_PACKET"
  shows "stands d (\<lambda>p. if bit v 8 then asked (xs @ [ucast v]) c p else taking (xs @ [ucast v]) c p) (bus_write out reg_dap_command v b)"
proof -
  have a: "of_nat reg_dap_command = ORBTRACE_REG_DAP_COMMAND" by (simp add: reg_dap_command_def reg_address_defs)
  let ?b = "bus_wait out b"
  let ?p = "bs_path ?b" and ?t = "bs_time ?b"
  let ?q = "path_clock (write_request reg_dap_command v) (out ?t) ?p"
  have "stands d (taking xs c) ?b"
    using assms(1) by (rule wait_stands) (use taking_step(1) assms(2) in \<open>auto simp: apart_def\<close>)
  then have free: "bus_free ?p" "flags_set d ?p" "taking xs c ?p" by (simp_all add: stands_def)
  note w = write_edge_request [OF free(1) a, where v = v]
  have q: "sent xs (ucast v) (bit v 8) c ?q"
    using taking_step(2) [OF free(3) assms(2), of "write_request reg_dap_command v"] w(1-4) by simp
  note i = idle_free [OF w(5,6)]
  have "if bit v 8 then asked (xs @ [ucast v]) c (path_clock axi_idle x ?q) else taking (xs @ [ucast v]) c (path_clock axi_idle x ?q)" for x
    using sent_step [OF q assms(2) i(1)] by simp
  then show ?thesis
    using i(2,3) w(7) [OF free(2)] by (simp add: stands_def bus_write_def bus_cycle_def write_request_def [symmetric])
qed

lemma flag_bits_2: "flag_bits [x, y] = (if x then 1 else 0) OR (if y then 2 else 0)"
  by (cases x; cases y) (simp_all add: flag_bits_def)

lemma status_bits:
  "reg_read (of_nat reg_dap_status) l r AND 1 \<noteq> 0 \<longleftrightarrow> \<not> dap_command_valid r"
  "reg_read (of_nat reg_dap_status) l r AND 2 \<noteq> 0 \<longleftrightarrow> dap_response_hold_valid r"
proof -
  have "reg_read (of_nat reg_dap_status) l r = flag_bits [\<not> dap_command_valid r, dap_response_hold_valid r]"
    by (simp add: reg_read_def reg_dap_status_def reg_address_defs)
  then show "reg_read (of_nat reg_dap_status) l r AND 1 \<noteq> 0 \<longleftrightarrow> \<not> dap_command_valid r"
    "reg_read (of_nat reg_dap_status) l r AND 2 \<noteq> 0 \<longleftrightarrow> dap_response_hold_valid r"
    by (simp_all add: flag_bits_2)
qed

lemma response_word:
  "ucast (reg_read (of_nat reg_dap_response) l r) = dap_response_hold r"
  "reg_read (of_nat reg_dap_response) l r AND push_bit 9 1 \<noteq> 0 \<longleftrightarrow> dap_response_hold_last r"
proof -
  let ?w = "reg_read (of_nat reg_dap_response) l r"
  have w: "?w = push_bit 8 (flag_bits [dap_response_hold_valid r, dap_response_hold_last r]) OR ucast (dap_response_hold r)"
    by (simp add: reg_read_def reg_dap_response_def reg_address_defs)
  show "ucast ?w = dap_response_hold r"
    unfolding w by (rule bit_word_eqI) (auto simp: bit_simps)
  have "bit ?w 9 \<longleftrightarrow> dap_response_hold_last r"
    unfolding w using bit_imp_le_length [of "dap_response_hold r" 9] by (auto simp: bit_simps bit_flag_bits)
  then show "?w AND push_bit 9 1 \<noteq> 0 \<longleftrightarrow> dap_response_hold_last r" by (simp only: bit_iff_and_push_bit_not_eq_0)
qed

lemma command_word:
  "ucast (ucast (y :: u8) OR push_bit 8 (of_bool l) :: u32) = y" "bit (ucast y OR push_bit 8 (of_bool l) :: u32) 8 \<longleftrightarrow> l"
proof -
  show "ucast (ucast y OR push_bit 8 (of_bool l) :: u32) = y" by (rule bit_word_eqI) (auto simp: bit_simps)
  show "bit (ucast y OR push_bit 8 (of_bool l) :: u32) 8 \<longleftrightarrow> l"
    using bit_imp_le_length [of y 8] by (auto simp: bit_simps)
qed

section \<open>The driver on the hardware\<close>

lemma bus_io_simps [simp]: "rio_read (bus_io out) = bus_read out" "rio_write (bus_io out) = bus_write out"
  by (simp_all add: bus_io_def with_defaults_def)

lemma status_apart:
  assumes "\<not> write_fire (read_request reg_dap_status) (dp_regs p)"
  shows "apart (read_request reg_dap_status) p"
  using assms by (simp add: apart_def read_request_def reg_dap_status_def reg_address_defs)

text \<open>A poll while the bit asked for stays set.\<close>

lemma poll_now:
  assumes "stands d P b"
    and stable: "\<And>a p x. P p \<Longrightarrow> apart a p \<Longrightarrow> flags_of d (engine_wires x (dp_regs p)) \<Longrightarrow> P (path_clock a x p)"
    and ready: "\<And>l p. P p \<Longrightarrow> reg_read (of_nat reg_dap_status) l (dp_regs p) AND bits \<noteq> 0"
  shows "\<exists>b'. dap_wait (bus_io out) bits budget b = (b', True) \<and> stands d P b'"
proof -
  have w: "stands d P (bus_wait out b)" using assms(1) by (rule wait_stands) (rule stable)
  have "\<exists>l v b'. bus_read out reg_dap_status b = (v, b') \<and> v = reg_read (of_nat reg_dap_status) l (dp_regs (bs_path (bus_wait out b)))
      \<and> stands d P b'"
    by (rule read_stands [where Q = P and R = P, OF w]) (blast intro: stable status_apart)+
  then obtain l b' where "bus_read out reg_dap_status b = (reg_read (of_nat reg_dap_status) l (dp_regs (bs_path (bus_wait out b))), b')"
    "stands d P b'" by blast
  moreover have "P (bs_path (bus_wait out b))" using w by (simp add: stands_def)
  ultimately show ?thesis using ready by (cases budget) auto
qed

lemma poll_taking:
  assumes "stands d (taking xs c) b" "length xs < MAX_PACKET"
  shows "\<exists>b'. dap_wait (bus_io out) 1 budget b = (b', True) \<and> stands d (taking xs c) b'"
  using assms(1)
proof (rule poll_now)
  show "taking xs c p \<Longrightarrow> apart a p \<Longrightarrow> taking xs c (path_clock a x p)" for a p x
    using taking_step(1) assms(2) by (auto simp: apart_def)
  show "taking xs c p \<Longrightarrow> reg_read (of_nat reg_dap_status) l (dp_regs p) AND 1 \<noteq> 0" for l p
    unfolding status_bits(1) by (simp add: taking_def)
qed

lemma poll_holding:
  assumes "stands d (holding resp j c) b"
  shows "\<exists>b'. dap_wait (bus_io out) 2 budget b = (b', True) \<and> stands d (holding resp j c) b'"
  using assms
proof (rule poll_now)
  show "holding resp j c p \<Longrightarrow> apart a p \<Longrightarrow> holding resp j c (path_clock a x p)" for a p x
    using holding_step(1) by (auto simp: apart_def)
  show "holding resp j c p \<Longrightarrow> reg_read (of_nat reg_dap_status) l (dp_regs p) AND 2 \<noteq> 0" for l p
    unfolding status_bits(2) by (simp add: holding_def)
qed

text \<open>Polls of the response: each that fails has let two edges pass.\<close>

lemma poll_near:
  assumes "stands d (near k xs (transfers d, aborts d) resp (transfers d', aborts d')) b" "k \<le> 2 * budget"
    and "in_common xs" "dap_execute d xs = (d', Inr resp)"
  shows "\<exists>b'. dap_wait (bus_io out) 2 budget b = (b', True) \<and> stands d (holding resp 0 (transfers d', aborts d')) b'"
  using assms(1,2)
proof (induction budget arbitrary: k b)
  case 0
  then have "stands d (holding resp 0 (transfers d', aborts d')) b" by (simp add: near_0)
  then show ?case by (rule poll_holding)
next
  case (Suc budget)
  let ?N = "\<lambda>k. near k xs (transfers d, aborts d) resp (transfers d', aborts d')"
  let ?H = "holding resp 0 (transfers d', aborts d')"
  have step: "?N (k - 1) (path_clock a x p)" if "?N k p" "apart a p" "flags_of d (engine_wires x (dp_regs p))" for a p x k
    by (rule near_step [OF that(1,2) assms(3) that(3) assms(4)])
  have keep: "?N k (path_clock a x p)" if "?N k p" "apart a p" "flags_of d (engine_wires x (dp_regs p))" for a p x
    using step [OF that] near_more [of "k - 1"] by (cases k) simp_all
  have w: "stands d (?N k) (bus_wait out b)" using Suc.prems(1) by (rule wait_stands) (rule keep)
  show ?case
  proof (cases "dap_response_hold_valid (dp_regs (bs_path (bus_wait out b)))")
    case True
    then have "stands d ?H (bus_wait out b)"
      using w by (auto simp: stands_def near_def busy_def asked_def)
    moreover have "?H (path_clock a x p)" if "?H p" "apart a p" for a p x using holding_step(1) [OF that(1)] that(2) by (auto simp: apart_def)
    ultimately have "\<exists>l v b'. bus_read out reg_dap_status b = (v, b')
        \<and> v = reg_read (of_nat reg_dap_status) l (dp_regs (bs_path (bus_wait out b))) \<and> stands d ?H b'"
      by (intro read_stands [where P = ?H and Q = ?H and R = ?H]) (blast intro: status_apart)+
    then obtain l b' where b': "stands d ?H b'"
      "bus_read out reg_dap_status b = (reg_read (of_nat reg_dap_status) l (dp_regs (bs_path (bus_wait out b))), b')" by blast
    have "reg_read (of_nat reg_dap_status) l (dp_regs (bs_path (bus_wait out b))) AND 2 \<noteq> 0"
      unfolding status_bits(2) by (rule True)
    then show ?thesis using b' by simp
  next
    case False
    have "\<exists>l v b'. bus_read out reg_dap_status b = (v, b')
        \<and> v = reg_read (of_nat reg_dap_status) l (dp_regs (bs_path (bus_wait out b))) \<and> stands d (?N (k - 1 - 1)) b'"
      by (rule read_stands [where Q = "?N (k - 1)", OF w]) (blast intro: step status_apart)+
    then obtain l b' where b': "stands d (?N (k - 1 - 1)) b'"
      "bus_read out reg_dap_status b = (reg_read (of_nat reg_dap_status) l (dp_regs (bs_path (bus_wait out b))), b')" by blast
    have "\<not> (reg_read (of_nat reg_dap_status) l (dp_regs (bs_path (bus_wait out b))) AND 2 \<noteq> 0)"
      unfolding status_bits(2) by (rule False)
    moreover have "k - 1 - 1 \<le> 2 * budget" using Suc.prems(2) by simp
    ultimately show ?thesis using Suc.IH [OF b'(1)] b'(2) by simp
  qed
qed

lemma send_stands:
  assumes "stands d (taking xs c) b" "bs \<noteq> []" "length xs + length bs \<le> MAX_PACKET"
  shows "\<exists>b'. dap_send (bus_io out) budget bs b = (b', Inr ()) \<and> stands d (asked (xs @ bs) c) b'"
  using assms
proof (induction bs arbitrary: xs b)
  case (Cons y bs)
  let ?v = "ucast y OR push_bit 8 (of_bool (bs = [])) :: u32"
  have len: "length xs < MAX_PACKET" using Cons.prems(3) by simp
  obtain b1 where b1: "dap_wait (bus_io out) 1 budget b = (b1, True)" "stands d (taking xs c) b1"
    using poll_taking [OF Cons.prems(1) len] by blast
  have b2: "stands d (\<lambda>p. if bs = [] then asked (xs @ [y]) c p else taking (xs @ [y]) c p) (bus_write out reg_dap_command ?v b1)"
    using write_stands [OF b1(2) len, of ?v] unfolding command_word .
  show ?case
  proof (cases "bs = []")
    case True
    then show ?thesis using b1(1) b2 by simp
  next
    case False
    then have "stands d (taking (xs @ [y]) c) (bus_write out reg_dap_command ?v b1)" using b2 by simp
    from Cons.IH [OF this False] Cons.prems(3) b1(1) False show ?thesis by simp
  qed
qed simp

text \<open>Reading the byte in the mailbox, and what is in it after that.\<close>

lemma read_response:
  assumes "stands d (holding resp j c) b"
  shows "\<exists>v b'. bus_read out reg_dap_response b = (v, b') \<and> ucast v = resp ! j \<and> (v AND push_bit 9 1 \<noteq> 0 \<longleftrightarrow> Suc j = length resp)
    \<and> stands d (\<lambda>p. if Suc j = length resp then taking [] c p else holding resp (Suc j) c p) b'"
proof -
  let ?Q = "\<lambda>p. if Suc j = length resp then taking [] c p else busy 0 resp (Suc j) c p"
  let ?R = "\<lambda>p. if Suc j = length resp then taking [] c p else holding resp (Suc j) c p"
  have a: "araddr (read_request reg_dap_response) = ORBTRACE_REG_DAP_RESPONSE"
    by (simp add: read_request_def reg_dap_response_def reg_address_defs)
  have w: "stands d (holding resp j c) (bus_wait out b)"
    using assms by (rule wait_stands) (use holding_step(1) in \<open>auto simp: apart_def\<close>)
  have q: "?Q (path_clock (read_request reg_dap_response) x p)"
    if "holding resp j c p" "\<not> write_fire (read_request reg_dap_response) (dp_regs p)" "read_fire (read_request reg_dap_response) (dp_regs p)"
    for x p using holding_step(2) [OF that a] .
  have r: "?R (path_clock axi_idle x p)" if "?Q p" "apart axi_idle p" for x p
    using that taking_step(1) [of "[]" c p axi_idle x] busy_step [of 0 resp "Suc j" c p axi_idle x] MAX_PACKET_pos
    by (simp add: apart_def split: if_splits)
  have "\<exists>l v b'. bus_read out reg_dap_response b = (v, b')
      \<and> v = reg_read (of_nat reg_dap_response) l (dp_regs (bs_path (bus_wait out b))) \<and> stands d ?R b'"
    by (rule read_stands [where Q = ?Q, OF w]) (blast intro: q, blast intro: r)
  then obtain l b' where "stands d ?R b'"
    "bus_read out reg_dap_response b = (reg_read (of_nat reg_dap_response) l (dp_regs (bs_path (bus_wait out b))), b')" by blast
  moreover have "dap_response_hold (dp_regs (bs_path (bus_wait out b))) = resp ! j"
    "dap_response_hold_last (dp_regs (bs_path (bus_wait out b))) = (Suc j = length resp)"
    using w by (simp_all add: stands_def holding_def)
  ultimately show ?thesis using response_word by (metis (no_types, lifting))
qed

lemma receive_stands:
  assumes "dap_wait (bus_io out) 2 budget b = (b1, True)" "stands d (holding resp j c) b1" "length resp \<le> length response"
    and "take j response = take j resp"
  shows "\<exists>b'. dap_receive (bus_io out) budget response j b = ((b', resp @ drop (length resp) response), Inr (length resp))
    \<and> stands d (taking [] c) b'"
  using assms
proof (induction "length resp - j" arbitrary: j b b1 response rule: less_induct)
  case less
  have j: "j < length resp" using less.prems(2) by (simp add: stands_def holding_def)
  obtain v b2 where v: "bus_read out reg_dap_response b1 = (v, b2)" "ucast v = resp ! j"
    "v AND push_bit 9 1 \<noteq> 0 \<longleftrightarrow> Suc j = length resp"
    and b2: "stands d (\<lambda>p. if Suc j = length resp then taking [] c p else holding resp (Suc j) c p) b2"
    using read_response [OF less.prems(2)] by blast
  let ?r = "response[j := resp ! j]"
  have room: "j < length response" "(length response \<le> j) = False" using j less.prems(3) by simp_all
  have step: "dap_receive (bus_io out) budget response j b =
      (if Suc j = length resp then ((b2, ?r), Inr (Suc j)) else dap_receive (bus_io out) budget ?r (Suc j) b2)"
    by (subst dap_receive.simps)
      (use room in \<open>simp only: less.prems(1) v prod.case bus_io_simps not_True_eq_False if_False if_True Let_def Suc_eq_plus1\<close>)
  have pre: "take (Suc j) ?r = take (Suc j) resp"
    using less.prems(4) room(1) j by (simp add: take_Suc_conv_app_nth)
  have post: "drop (length resp) ?r = drop (length resp) response" using j by simp
  show ?case
  proof (cases "Suc j = length resp")
    case True
    then have "?r = resp @ drop (length resp) ?r" using pre by (metis append_take_drop_id order_refl take_all)
    then show ?thesis using step b2 True post by auto
  next
    case False
    then have s: "stands d (holding resp (Suc j) c) b2" using b2 by simp
    obtain b3 where b3: "dap_wait (bus_io out) 2 budget b2 = (b3, True)" "stands d (holding resp (Suc j) c) b3"
      using poll_holding [OF s] by blast
    have "length resp - Suc j < length resp - j" "length resp \<le> length ?r" using j less.prems(3) by simp_all
    from less.hyps [OF this(1) b3 this(2) pre] step False post show ?thesis by simp
  qed
qed

text \<open>
  Property C4. A debug request on the hardware. With a poll limit of at least 34, and whatever time passes between the
  accesses, the firmware's exchange over the register block and the engine gives exactly the response of the host's
  reference, for every request in common and every setting of the fault flags; the engine counts as the reference does,
  and the hardware is ready for the next request.
\<close>

theorem debug_request_through_hardware:
  assumes "stands d (taking [] (transfers d, aborts d)) b" "in_common request" "dap_execute d request = (d', Inr answer)"
    and "length answer \<le> length response" "34 \<le> budget"
  shows "\<exists>b'. dap_exchange (bus_io out) budget b request response =
      ((b', answer @ drop (length answer) response), Inr (length answer))
    \<and> stands d (taking [] (transfers d', aborts d')) b'"
proof -
  have r: "request \<noteq> []" "length ([] :: bytes) + length request \<le> MAX_PACKET" using assms(2) by (simp_all add: in_common_def)
  obtain b1 where b1: "dap_send (bus_io out) budget request b = (b1, Inr ())" "stands d (asked request (transfers d, aborts d)) b1"
    using send_stands [OF assms(1) r] by auto
  have "stands d (near 68 request (transfers d, aborts d) answer (transfers d', aborts d')) b1"
    using b1(2) by (auto simp: stands_def near_def MAX_TRANSFERS_def intro!: exI [of _ 67])
  moreover have "68 \<le> 2 * budget" using assms(5) by simp
  ultimately obtain b2 where b2: "dap_wait (bus_io out) 2 budget b1 = (b2, True)"
    "stands d (holding answer 0 (transfers d', aborts d')) b2"
    using poll_near [OF _ _ assms(2,3)] by blast
  show ?thesis
    using receive_stands [OF b2 assms(4)] b1(1) r(1) by (simp add: dap_exchange_def)
qed

text \<open>A read and a write on the hardware after reset, with some delays between the accesses.\<close>

definition bus_start :: bus where
  "bus_start = \<lparr>bs_path = \<lparr>dp_regs = regs_init, dp_engine = engine_init\<rparr>, bs_delays = [3, 0, 1, 70], bs_time = 0\<rparr>"

theorem debug_request_through_hardware_witness:
  "\<exists>b'. dap_exchange (bus_io (\<lambda>_. (quiet_logic, False))) 34 bus_start [5, 0, 2, 2, 0, 1, 2, 3, 4] (replicate 9 0) =
      ((b', [5, 2, 1, 2, 0, 0xa5, 0xa5, 0, 0]), Inr 7)
    \<and> counters (dp_engine (bs_path b')) = (2, 0)"
proof -
  let ?xs = "[5, 0, 2, 2, 0, 1, 2, 3, 4] :: u8 list"
  have ref: "dap_execute dap_default ?xs = (dap_default\<lparr>transfers := 2\<rparr>, Inr [5, 2, 1, 2, 0, 0xa5, 0xa5])"
    by code_simp
  have start: "stands dap_default (taking [] (transfers dap_default, aborts dap_default)) bus_start"
    by (simp add: stands_def bus_free_def flags_set_def taking_def capturing_def counters_def bus_start_def regs_init_def
      regs_reset_def engine_init_def engine_reset_def dap_default_def)
  have common: "in_common ?xs" by (simp add: in_common_def MAX_PACKET_def MAX_TRANSFERS_def)
  have "length [5, 2, 1, 2, 0, 0xa5, 0xa5 :: u8] \<le> length (replicate 9 (0 :: u8))" by simp
  from debug_request_through_hardware [OF start common ref this order_refl, of "\<lambda>_. (quiet_logic, False)"]
  show ?thesis by (auto simp: stands_def taking_def dap_default_def numeral_eq_Suc)
qed

end
