(* ===== verification/TestsFirmware.thy ===== *)
theory TestsFirmware
  imports Controller S2mmDma Coresight Workloads
begin

text \<open>
  The unit tests of the firmware crates (\<open>firmware/a53/src/lib.rs\<close>, \<open>firmware/common/src/lib.rs\<close>,
  \<open>firmware/m3/src/lib.rs\<close> and \<open>firmware/rpu/src/lib.rs\<close> of \<open>applications/orbtrace\<close>), run on the model. A test
  is the conjunction of its assertions; its mock of a trait is a state and the two access functions.
\<close>

section \<open>The debug mailbox\<close>

record mock_mailbox =
  mb_writes :: "u32 list"
  mb_response :: "u32 list"
  mb_index :: nat

definition mock_mailbox_read :: "nat \<Rightarrow> mock_mailbox \<Rightarrow> u32 \<times> mock_mailbox" where
  "mock_mailbox_read offset s =
     (if offset = reg_dap_status then (if mb_writes s \<noteq> [] \<and> last (mb_writes s) AND 0x100 \<noteq> 0 then 3 else 1, s)
      else if offset = reg_dap_response then (mb_response s ! mb_index s, s\<lparr>mb_index := mb_index s + 1\<rparr>)
      else (0, s))"

definition mock_mailbox_write :: "nat \<Rightarrow> u32 \<Rightarrow> mock_mailbox \<Rightarrow> mock_mailbox" where
  "mock_mailbox_write offset value s = (if offset = reg_dap_command then s\<lparr>mb_writes := mb_writes s @ [value]\<rparr> else s)"

definition mock_mailbox_io :: "mock_mailbox register_io" where
  "mock_mailbox_io = with_defaults mock_mailbox_read mock_mailbox_write"

definition test_mailbox :: mock_mailbox where
  "test_mailbox = \<lparr>mb_writes = [], mb_response = [5 OR push_bit 8 1, 1 OR push_bit 8 1, 1 OR push_bit 8 1 OR push_bit 9 1],
     mb_index = 0\<rparr>"

definition dap_payload_uses_mailbox_without_reframing :: bool where
  "dap_payload_uses_mailbox_without_reframing \<longleftrightarrow>
     (case dap_exchange mock_mailbox_io 10 test_mailbox [5, 0, 0] (replicate 8 0) of ((io, response), r) \<Rightarrow>
        r = Inr 3 \<and> take 3 response = [5, 1, 1] \<and> mb_writes io = [5, 0, 0x100])"

definition dap_tcp_frame_has_only_little_endian_length_wrapper :: bool where
  "dap_tcp_frame_has_only_little_endian_length_wrapper \<longleftrightarrow>
     (case dap_frame mock_mailbox_io 10 test_mailbox [3, 0, 0, 0, 5, 0, 0] (replicate 16 0) of ((io, output), r) \<Rightarrow>
        r = Inr 7 \<and> take 7 output = [3, 0, 0, 0, 5, 1, 1]
        \<and> snd (dap_frame mock_mailbox_io 10 io [2, 0, 0, 0, 5] output) = Inl BadFrame)"

lemma mailbox_tests: "dap_payload_uses_mailbox_without_reframing" "dap_tcp_frame_has_only_little_endian_length_wrapper"
  by code_simp+

section \<open>The connections\<close>

type_synonym service_io_state = "(nat \<times> u32) list"

definition service_io :: "service_io_state register_io" where
  "service_io = with_defaults (\<lambda>_ s. (0, s)) (\<lambda>offset value s. s @ [(offset, value)])"

definition control_connection_handles_fragmentation_and_pipelining :: bool where
  "control_connection_handles_fragmentation_and_pipelining \<longleftrightarrow>
     (let requests = [3, 0, 0, 0, 1, 0, 1, 3, 0, 0, 0, 1, 0, 3]
      in case control_feed service_io control_connection [] (replicate 64 0) (take 2 requests) of (d1, io1, response1, r1) \<Rightarrow>
         r1 = Inr \<lparr>consumed = 2, response_length = None\<rparr>
         \<and> (case control_feed service_io d1 io1 response1 (drop 2 requests) of
              (d2, io2, response2, Inr first) \<Rightarrow>
                consumed first = 5
                \<and> (case response_length first of Some n \<Rightarrow> slice_of 4 n response2 = info_text | None \<Rightarrow> False)
                \<and> (case control_feed service_io d2 io2 response2 (drop (2 + consumed first) requests) of
                     (_, io3, response3, Inr second) \<Rightarrow>
                       response_length second = Some 5 \<and> take 5 response3 = [1, 0, 0, 0, 0] \<and> io3 = [(reg_control, 1)]
                   | _ \<Rightarrow> False)
            | _ \<Rightarrow> False))"

definition dap_connection_preserves_fragmented_payload :: bool where
  "dap_connection_preserves_fragmented_payload \<longleftrightarrow>
     (case dap_feed mock_mailbox_io 10 dap_connection test_mailbox (replicate 16 0) [3, 0, 0] of (d1, io1, output1, r1) \<Rightarrow>
        r1 = Inr \<lparr>consumed = 3, response_length = None\<rparr>
        \<and> (case dap_feed mock_mailbox_io 10 d1 io1 output1 [0, 5, 0, 0] of (_, _, output2, r2) \<Rightarrow>
             r2 = Inr \<lparr>consumed = 4, response_length = Some 7\<rparr> \<and> take 7 output2 = [3, 0, 0, 0, 5, 1, 1]))"

lemma dap_connection_test: "dap_connection_preserves_fragmented_payload"
  by code_simp

lemma control_connection_test: "control_connection_handles_fragmentation_and_pipelining"
  by code_simp

section \<open>The memory of the M3\<close>

record m3_io_state =
  bram :: bytes
  reg_writes :: "(nat \<times> u32) list"

definition m3_io :: "m3_io_state register_io" where
  "m3_io = \<lparr>rio_read = (\<lambda>_ s. (0, s)),
     rio_write = (\<lambda>offset value s. s\<lparr>reg_writes := reg_writes s @ [(offset, value)]\<rparr>),
     rio_write_m3_bram = (\<lambda>offset data s.
       let bram1 = bram s @ replicate (offset + length data - length (bram s)) 0
       in s\<lparr>bram := copy_into bram1 offset data\<rparr>),
     rio_read_m3_bram = (\<lambda>offset n s. (\<lambda>k. if offset + k < length (bram s) then bram s ! (offset + k) else 0, s)),
     rio_select_coresight = (\<lambda>_ s. s), rio_enable_trace = (\<lambda>_ s. s)\<rparr>"

definition m3_io_default :: m3_io_state where
  "m3_io_default = \<lparr>bram = [], reg_writes = []\<rparr>"

definition m3_load_chunk_writes_and_reads_back :: bool where
  "m3_load_chunk_writes_and_reads_back \<longleftrightarrow>
     (case command_op m3_io m3_io_default [1, 0, 7, 4, 0, 0, 0, 0xaa, 0xbb, 0xcc, 0xdd] (replicate 64 0) of
        ((io1, response1), r1) \<Rightarrow> r1 = Inr 1 \<and> slice_of 4 8 (bram io1) = [0xaa, 0xbb, 0xcc, 0xdd]
        \<and> (case command_op m3_io io1 [1, 0, 8, 4, 0, 0, 0, 4, 0] response1 of
             ((io2, response2), r2) \<Rightarrow> r2 = Inr 4 \<and> take 4 response2 = [0xaa, 0xbb, 0xcc, 0xdd]))"

definition m3_load_chunk_rejects_out_of_range_offset :: bool where
  "m3_load_chunk_rejects_out_of_range_offset \<longleftrightarrow>
     (let offset = u32_le (of_nat m3_bram_size)
      in snd (command_op m3_io m3_io_default ([1, 0, 7] @ offset @ [0xaa]) (replicate 8 0)) = Inl ())"

definition m3_control_writes_the_control_register :: bool where
  "m3_control_writes_the_control_register \<longleftrightarrow>
     (case command_op m3_io m3_io_default [1, 0, 9, 1] (replicate 8 0) of
        ((io, response), r) \<Rightarrow> r = Inr 1 \<and> reg_writes io = [(reg_m3_control, 1)])"

lemma m3_window: "n \<le> 4 \<Longrightarrow> checked_add_usize 4 n = Some (4 + n)" "n \<le> 8 \<Longrightarrow> \<not> m3_bram_size < n"
  by (simp_all add: checked_add_usize_def usize_max_def m3_bram_size_def)

lemma m3_tests: "m3_load_chunk_writes_and_reads_back" "m3_control_writes_the_control_register"
proof -
  show "m3_load_chunk_writes_and_reads_back"
    unfolding m3_load_chunk_writes_and_reads_back_def
    by (simp add: command_op_def slice_of_def from_le_Cons protocol_version_def m3_window ack_def Let_def m3_io_def
        m3_io_default_def copy_into_def) code_simp
  show "m3_control_writes_the_control_register" by code_simp
qed

lemma m3_range_test: "m3_load_chunk_rejects_out_of_range_offset"
proof -
  have "u32_le (of_nat m3_bram_size) = [0, 0, 1, 0]"
    by (simp add: m3_bram_size_def) code_simp
  then show ?thesis
    by (simp add: m3_load_chunk_rejects_out_of_range_offset_def command_op_def slice_of_def from_le_Cons
        protocol_version_def checked_add_usize_def m3_bram_size_def Let_def split: if_split)
qed

section \<open>Selecting a source\<close>

datatype coresight_call = Select bool | Enable bool

record coresight_select_io_state =
  cs_reg_writes :: "(nat \<times> u32) list"
  cs_selects :: "bool list"
  cs_calls :: "coresight_call list"

definition coresight_select_io :: "coresight_select_io_state register_io" where
  "coresight_select_io =
     (with_defaults (\<lambda>_ s. (0, s)) (\<lambda>offset value s. s\<lparr>cs_reg_writes := cs_reg_writes s @ [(offset, value)]\<rparr>))
       \<lparr>rio_select_coresight := (\<lambda>a53_1 s. s\<lparr>cs_selects := cs_selects s @ [a53_1], cs_calls := cs_calls s @ [Select a53_1]\<rparr>),
        rio_enable_trace := (\<lambda>a53_1 s. s\<lparr>cs_calls := cs_calls s @ [Enable a53_1]\<rparr>)\<rparr>"

definition select_default :: coresight_select_io_state where
  "select_default = \<lparr>cs_reg_writes = [], cs_selects = [], cs_calls = []\<rparr>"

definition configure_r5_selects_coresight_before_source_format :: bool where
  "configure_r5_selects_coresight_before_source_format \<longleftrightarrow>
     (case command_op coresight_select_io select_default [1, 0, 2, 1, 0, 0, 0, 0, 0] (replicate 8 0) of
        ((io, response), r) \<Rightarrow> r = Inr 1 \<and> cs_selects io = [False]
        \<and> cs_reg_writes io ! 0 = (reg_source_format, 1) \<and> cs_calls io = [Select False, Enable False])"

definition configure_a53_selects_coresight_before_source_format :: bool where
  "configure_a53_selects_coresight_before_source_format \<longleftrightarrow>
     (case command_op coresight_select_io select_default [1, 0, 2, 2, 0, 0, 0, 0, 0] (replicate 8 0) of
        ((io, response), r) \<Rightarrow> r = Inr 1 \<and> cs_selects io = [True]
        \<and> cs_reg_writes io ! 0 = (reg_source_format, 2) \<and> cs_calls io = [Select True, Enable True])"

definition configure_m3_does_not_touch_coresight :: bool where
  "configure_m3_does_not_touch_coresight \<longleftrightarrow>
     (case command_op coresight_select_io select_default [1, 0, 2, 0, 0, 0, 0, 0, 0] (replicate 8 0) of
        ((io, response), r) \<Rightarrow> r = Inr 1 \<and> cs_selects io = [] \<and> cs_calls io = [])"

lemma configure_tests:
  "configure_r5_selects_coresight_before_source_format" "configure_a53_selects_coresight_before_source_format"
  "configure_m3_does_not_touch_coresight"
  by code_simp+

section \<open>The DMA channel\<close>

record dma_io_state =
  reset_stuck :: bool
  dma_writes :: "(nat \<times> u32) list"
  dma_status :: u32

definition dma_io :: "dma_io_state dma_register_io" where
  "dma_io = \<lparr>read_dma = (\<lambda>offset s.
       (if offset = s2mm_dmacr \<and> reset_stuck s then dma_cr_reset
        else if offset = s2mm_dmasr then dma_status s else 0, s)),
     write_dma = (\<lambda>offset value s. s\<lparr>dma_writes := dma_writes s @ [(offset, value)]\<rparr>)\<rparr>"

definition s2mm_programs_64_bit_descriptor_addresses_and_irqs :: bool where
  "s2mm_programs_64_bit_descriptor_addresses_and_irqs \<longleftrightarrow>
     (case s2mm_initialize dma_io 0x123456000 4 \<lparr>reset_stuck = False, dma_writes = [], dma_status = 0x5000\<rparr> of
        (io1, r) \<Rightarrow> r = Inr ()
        \<and> (case s2mm_acknowledge_interrupts dma_io (s2mm_submit_tail dma_io 0x234567000 io1) of (io2, irqs) \<Rightarrow>
             irqs = 0x5000 \<and> dma_writes io2 =
               [(s2mm_dmacr, dma_cr_reset), (s2mm_curdesc_lo, 0x23456000), (s2mm_curdesc_hi, 1),
                (s2mm_dmacr, (dma_cr_run_stop OR dma_cr_ioc_irq_enable) OR dma_cr_error_irq_enable),
                (s2mm_taildesc_hi, 2), (s2mm_taildesc_lo, 0x34567000), (s2mm_dmasr, 0x5000)]))"

definition s2mm_reset_is_bounded :: bool where
  "s2mm_reset_is_bounded \<longleftrightarrow>
     snd (s2mm_initialize dma_io 0x1000 2 \<lparr>reset_stuck = True, dma_writes = [], dma_status = 0\<rparr>) = Inl ResetTimeout"

definition pl_dma_ring_configuration_is_64_bit :: bool where
  "pl_dma_ring_configuration_is_64_bit \<longleftrightarrow>
     configure_dma_ring service_io 0x180000000 256 [] =
       [(reg_dma_base_lo, 0x80000000), (reg_dma_base_hi, 1), (reg_dma_ring_size, 256)]"

lemma dma_tests: "s2mm_programs_64_bit_descriptor_addresses_and_irqs" "s2mm_reset_is_bounded"
  "pl_dma_ring_configuration_is_64_bit"
  by code_simp+

section \<open>The CoreSight sequences\<close>

definition record_write :: "(nat \<times> u32) list write32" where
  "record_write address value ws = ws @ [(address, value)]"

lemma record_all: "write_all record_write ws m = m @ ws"
  by (induction ws arbitrary: m) (auto simp: record_write_def)

definition coresight_routes_r5_and_a53_1_through_distinct_funnels :: bool where
  "coresight_routes_r5_and_a53_1_through_distinct_funnels \<longleftrightarrow>
     (let r5 = coresight_select record_write False []; a53 = coresight_select record_write True []
      in r5 ! 0 = (r5_0_etm + lar, coresight_unlock) \<and> r5 ! 5 = (funnel_rpu + funnel_control, 1)
       \<and> r5 ! 7 = (funnel_system + funnel_control, 1) \<and> length r5 = 8
       \<and> a53 ! 0 = (a53_1_etm + lar, coresight_unlock) \<and> a53 ! 6 = (funnel_apu + funnel_control, 2)
       \<and> a53 ! 7 = (funnel_system + funnel_control, 2))"

definition enable_trace_starts_the_selected_etm_with_a_unique_trace_id :: bool where
  "enable_trace_starts_the_selected_etm_with_a_unique_trace_id \<longleftrightarrow>
     (let r5 = enable_trace record_write False []; a53 = enable_trace record_write True []
      in r5 ! 0 = (r5_0_etm + trcoslar, 0)
       \<and> find (\<lambda>(a, _). a = r5_0_etm + trcauxctlr) r5 = Some (r5_0_etm + trcauxctlr, auxctlr_syncdelay)
       \<and> find (\<lambda>(a, _). a = r5_0_etm + trctraceidr) r5 = Some (r5_0_etm + trctraceidr, trace_id_r5_0)
       \<and> map snd (filter (\<lambda>(a, _). a = r5_0_etm + trcprgctlr) r5) = [0, prgctlr_en]
       \<and> tl (dropWhile (\<lambda>w. w \<noteq> (r5_0_etm + trcprgctlr, prgctlr_en)) r5) =
           [(tpiu + tpiu_ffcr, ffcr_stop_on_flush), (tpiu + tpiu_ffcr, ffcr_stop_on_flush OR ffcr_manual_flush),
            (tpiu + tpiu_ffcr, ffcr_enfcont)]
       \<and> find (\<lambda>(a, _). a = a53_1_etm + trctraceidr) a53 = Some (a53_1_etm + trctraceidr, trace_id_a53_1)
       \<and> trace_id_r5_0 \<noteq> trace_id_a53_1)"

lemma coresight_tests: "coresight_routes_r5_and_a53_1_through_distinct_funnels"
  "enable_trace_starts_the_selected_etm_with_a_unique_trace_id"
proof -
  show "coresight_routes_r5_and_a53_1_through_distinct_funnels"
    by (simp add: coresight_routes_r5_and_a53_1_through_distinct_funnels_def coresight_select_def record_all Let_def etm_of_def
        del: write_all_simps)
  show "enable_trace_starts_the_selected_etm_with_a_unique_trace_id"
    by (simp add: enable_trace_starts_the_selected_etm_with_a_unique_trace_id_def enable_trace_def enable_tpiu_formatter_def
        record_all Let_def etm_of_def coresight_bases coresight_offsets coresight_values del: write_all_simps)
qed

section \<open>Framing and the descriptor ring\<close>

text \<open>The results of pushing some bytes one after the other.\<close>

fun pushes :: "frame_decoder \<Rightarrow> bytes \<Rightarrow> frame_decoder \<times> (frame_error + bool) list" where
  "pushes d [] = (d, [])"
| "pushes d (b # bs) = (case fd_push d b of (d1, r) \<Rightarrow> case pushes d1 bs of (d2, rs) \<Rightarrow> (d2, r # rs))"

definition framing_survives_fragmentation_and_empty_frames :: bool where
  "framing_survives_fragmentation_and_empty_frames \<longleftrightarrow>
     (case pushes (fd_new 8) [3, 0, 0, 0, 0xaa, 0xbb] of (d1, rs) \<Rightarrow> rs = replicate 6 (Inr False)
      \<and> (case fd_push d1 0xcc of (d2, r) \<Rightarrow> r = Inr True \<and> fd_frame d2 = Some [0xaa, 0xbb, 0xcc]
        \<and> (case fd_push d2 0 of (d3, r3) \<Rightarrow> r3 = Inl FramePending
          \<and> fd_frame (fst (pushes (fd_reset d3) [0, 0, 0, 0])) = Some [])))"

definition framing_rejects_oversize_and_recovers :: bool where
  "framing_rejects_oversize_and_recovers \<longleftrightarrow>
     (case pushes (fd_new 2) [3, 0, 0, 0] of (d1, rs) \<Rightarrow>
        rs = [Inr False, Inr False, Inr False, Inl (FrameTooLarge 3)]
        \<and> fd_frame (fst (pushes d1 [1, 0, 0, 0, 0x55])) = Some [0x55])"

lemma framing_tests: "framing_survives_fragmentation_and_empty_frames" "framing_rejects_oversize_and_recovers"
  by code_simp+

text \<open>The size and alignment of a descriptor, which the first assertions are about, are outside of the model.\<close>

definition descriptor_ring_links_wraps_and_never_overwrites :: bool where
  "descriptor_ring_links_wraps_and_never_overwrites \<longleftrightarrow>
     (case ring_new (replicate 4 descriptor_default) 0x80000000 of Inl _ \<Rightarrow> False | Inr r0 \<Rightarrow>
        current_descriptor_address r0 = 0x80000000
        \<and> (case ring_enqueue r0 0x100001000 4096 of (r1, e1) \<Rightarrow> e1 = Inr 0x80000000
        \<and> (case ring_enqueue r1 0x2000 2048 of (r2, e2) \<Rightarrow> e2 = Inr 0x80000040
        \<and> (case ring_enqueue r2 0x3000 1024 of (r3, e3) \<Rightarrow> e3 = Inr 0x80000080
        \<and> (case ring_enqueue r3 0x4000 512 of (r4, e4) \<Rightarrow> e4 = Inl Full
        \<and> (case ring_poll_completed (hw_set_status 0 (axi_dma_status_complete OR 128) r4) of (r5, c) \<Rightarrow>
             c = Inr (Some \<lparr>cb_address = 0x100001000, cb_capacity = 4096, cb_transferred = 128, cb_descriptor = 0x80000000\<rparr>)
             \<and> snd (ring_enqueue r5 0x4000 512) = Inr 0x800000c0))))))"

definition descriptor_ring_reports_dma_errors_without_consuming :: bool where
  "descriptor_ring_reports_dma_errors_without_consuming \<longleftrightarrow>
     (case ring_new (replicate 2 descriptor_default) 0x4000 of Inl _ \<Rightarrow> False | Inr r0 \<Rightarrow>
        (case ring_enqueue r0 0x8000 64 of (r1, Inr _) \<Rightarrow>
           (case ring_poll_completed (hw_set_status 0 (axi_dma_status_complete OR push_bit 29 1) r1) of (r2, c) \<Rightarrow>
              c = Inl (Hardware (axi_dma_status_complete OR push_bit 29 1)) \<and> snd (ring_enqueue r2 0x9000 64) = Inl Full)
         | _ \<Rightarrow> False))"

lemma ring_tests: "descriptor_ring_links_wraps_and_never_overwrites" "descriptor_ring_reports_dma_errors_without_consuming"
  by code_simp+

section \<open>The workloads\<close>

primrec event_sequence :: "(workload \<Rightarrow> workload \<times> 'e) \<Rightarrow> nat \<Rightarrow> workload \<Rightarrow> 'e list" where
  "event_sequence f 0 w = []"
| "event_sequence f (Suc n) w = (case f w of (w1, e) \<Rightarrow> e # event_sequence f n w1)"

definition m3_reproducible :: bool where
  "m3_reproducible \<longleftrightarrow> event_sequence m3_next 100 (workload_new 7) = event_sequence m3_next 100 (workload_new 7)"

definition rpu_reproducible :: bool where
  "rpu_reproducible \<longleftrightarrow> event_sequence rpu_next 100 (workload_new 7) = event_sequence rpu_next 100 (workload_new 7)"

definition visits_every_call_target :: bool where
  "visits_every_call_target \<longleftrightarrow>
     list_all (\<lambda>k. Call (of_nat k) \<in> set (event_sequence rpu_next 1000 (workload_new 1))) [0..<7]"

lemma workload_tests: "m3_reproducible" "rpu_reproducible"
  by (simp_all add: m3_reproducible_def rpu_reproducible_def)

text \<open>The first twelve actions are enough.\<close>

lemma event_sequence_take: "set (event_sequence f n w) \<subseteq> set (event_sequence f (n + k) w)"
  by (induction n arbitrary: w) (fastforce split: prod.split)+

lemma call_targets_test: "visits_every_call_target"
proof -
  have step: "event_sequence rpu_next (Suc n) \<lparr>wl_state = x, wl_sequence = s\<rparr> =
      snd (rpu_next \<lparr>wl_state = x, wl_sequence = s\<rparr>) # event_sequence rpu_next n \<lparr>wl_state = xorshift x, wl_sequence = s + 1\<rparr>"
    for n x s by (simp add: rpu_next_def workload_advance_def Let_def)
  have twelve: "(12 :: nat) = Suc (Suc (Suc (Suc (Suc (Suc (Suc (Suc (Suc (Suc (Suc (Suc 0)))))))))))" by simp
  have "set (map Call [4, 5, 6, 0, 1, 2, 3]) \<subseteq> set (event_sequence rpu_next 12 (workload_new 1))"
    unfolding twelve workload_new_def step by (simp add: rpu_next_def workload_advance_def Let_def)
  then have "list_all (\<lambda>k. Call (of_nat k) \<in> set (event_sequence rpu_next 12 (workload_new 1))) [0..<7]"
    by (simp add: upt_rec)
  moreover have "set (event_sequence rpu_next 12 (workload_new 1)) \<subseteq> set (event_sequence rpu_next (12 + 988) (workload_new 1))"
    by (rule event_sequence_take)
  ultimately show ?thesis by (auto simp: visits_every_call_target_def list_all_iff simp del: upt_rec_numeral)
qed

end
