(* ===== verification/TestsModel.thy ===== *)
theory TestsModel
  imports HostClient Swo Tpiu Workloads
begin

text \<open>
  The unit tests of the model crate (\<open>applications/orbtrace/model/src/lib.rs\<close> and \<open>main.rs\<close>), run on the model. A
  test is the conjunction of its assertions.
\<close>

definition is_err :: "'e + 'a \<Rightarrow> bool" where
  "is_err r = (case r of Inl _ \<Rightarrow> True | Inr _ \<Rightarrow> False)"

section \<open>Byte stuffing and frames\<close>

definition cobs_fixed_and_boundaries :: bool where
  "cobs_fixed_and_boundaries \<longleftrightarrow>
     list_all (\<lambda>input. cobs_decode (cobs_encode input) = Inr input)
       [[], [0], [0, 0], [1, 0, 2], map of_nat [1..<255]]
     \<and> cobs_encode [0] = [1, 1] \<and> cobs_encode [1, 2, 3] = [4, 1, 2, 3]"

text \<open>The bytes of a generator, and an input of each length from it.\<close>

primrec random_bytes :: "nat \<Rightarrow> u32 \<Rightarrow> bytes \<times> u32" where
  "random_bytes 0 state = ([], state)"
| "random_bytes (Suc n) state =
     (let state1 = xorshift state in case random_bytes n state1 of (bs, state2) \<Rightarrow> (ucast state1 # bs, state2))"

primrec random_inputs :: "nat list \<Rightarrow> u32 \<Rightarrow> bytes list" where
  "random_inputs [] state = []"
| "random_inputs (n # ns) state = (case random_bytes n state of (input, state1) \<Rightarrow> input # random_inputs ns state1)"

definition cobs_randomized_streams_are_reversible :: bool where
  "cobs_randomized_streams_are_reversible \<longleftrightarrow>
     list_all (\<lambda>input. cobs_decode (cobs_encode input) = Inr input) (random_inputs [0..<1025] 0x6d2b79f5)"

lemma cobs_tests: "cobs_fixed_and_boundaries" "cobs_randomized_streams_are_reversible"
proof -
  have "cobs_encode [0] = [1, 1]" "cobs_encode [1, 2, 3] = [4, 1, 2, 3]" by code_simp+
  then show "cobs_fixed_and_boundaries" by (simp add: cobs_fixed_and_boundaries_def cobs_roundtrip)
  show "cobs_randomized_streams_are_reversible"
    by (simp add: cobs_randomized_streams_are_reversible_def list_all_iff cobs_roundtrip)
qed

definition orbflow_checksum_wraps :: bool where
  "orbflow_checksum_wraps \<longleftrightarrow>
     (case orbflow_frame 7 [0, 0xff, 1, 2] of Inl _ \<Rightarrow> False | Inr framed \<Rightarrow>
        0 \<notin> set (take (length framed - 1) framed) \<and> orbflow_unframe framed = Inr (7, [0, 0xff, 1, 2])
        \<and> is_err (orbflow_unframe (framed[1 := framed ! 1 XOR 1])))"

definition reconstruct_channel_stream_filters_and_skips_corrupt_frames :: bool where
  "reconstruct_channel_stream_filters_and_skips_corrupt_frames \<longleftrightarrow>
     (case (orbflow_frame 1 [1, 2, 3], orbflow_frame 2 [9, 9], orbflow_frame 3 [7, 7, 7], orbflow_frame 1 [4, 5]) of
        (Inr a, Inr b, Inr corrupt, Inr c) \<Rightarrow>
          let capture = a @ b @ corrupt[1 := corrupt ! 1 XOR 1] @ c
          in reconstruct_channel_stream capture 1 = [1, 2, 3, 4, 5] \<and> reconstruct_channel_stream capture 2 = [9, 9]
           \<and> reconstruct_channel_stream capture 3 = [] \<and> channel_histogram capture = [(1, 2), (2, 1)]
      | _ \<Rightarrow> False)"

lemma frame_tests: "orbflow_checksum_wraps" "reconstruct_channel_stream_filters_and_skips_corrupt_frames"
  by code_simp+

section \<open>Commands\<close>

definition control_round_trip_and_limits :: bool where
  "control_round_trip_and_limits \<longleftrightarrow>
     (let command = Configure R5 Tpiu4 2000000 in command_decode (command_encode command) = Inr command)
     \<and> is_err (length_frame (replicate (max_dap_packet + 1) 0) max_dap_packet)"

definition m3_commands_round_trip :: bool where
  "m3_commands_round_trip \<longleftrightarrow>
     list_all (\<lambda>c. command_decode (command_encode c) = Inr c)
       [LoadM3Chunk 0x1234 [1, 2, 3, 4, 5], ReadM3Bram 0x100 16, M3Control 1, LoadM3Chunk 0 []]"

lemma command_tests: "control_round_trip_and_limits" "m3_commands_round_trip"
proof -
  have "command_decode (command_encode (Configure R5 Tpiu4 2000000)) = Inr (Configure R5 Tpiu4 2000000)" by code_simp
  then show "control_round_trip_and_limits"
    by (simp add: control_round_trip_and_limits_def length_frame_def is_err_def)
  show "m3_commands_round_trip" by code_simp
qed

section \<open>Samples\<close>

definition swo_nrz_decodes_and_rejects_stop_error :: bool where
  "swo_nrz_decodes_and_rejects_stop_error \<longleftrightarrow>
     (let value = 0xa6;
          samples = concat (map (replicate 4) ([False] @ map (\<lambda>b. value AND push_bit b 1 \<noteq> 0) [0..<8] @ [True]))
      in decode_swo_nrz samples 4 = Inr value \<and> decode_swo_nrz (samples[38 := False]) 4 = Inl BadStop)"

definition parallel_ddr_widths_have_identical_wire_order :: bool where
  "parallel_ddr_widths_have_identical_wire_order \<longleftrightarrow>
     decode_parallel_ddr [0x0b, 0x0a] 4 = Inr [0xab] \<and> decode_parallel_ddr [3, 2, 2, 2] 2 = Inr [0xab]
     \<and> decode_parallel_ddr (map of_bool [True, True, False, True, False, True, False, True]) 1 = Inr [0xab]
     \<and> is_err (decode_parallel_ddr [] 3)"

definition swo_manchester_decodes_and_rejects_missing_transition :: bool where
  "swo_manchester_decodes_and_rejects_missing_transition \<longleftrightarrow>
     (let value = 0xa6;
          halves = concat (map (\<lambda>b. [b, \<not> b]) ([False] @ map (\<lambda>b. value AND push_bit b 1 \<noteq> 0) [0..<8] @ [True]))
      in decode_swo_manchester halves = Inr value \<and> decode_swo_manchester (halves[6 := halves ! 7]) = Inl BadManchester)"

lemma sample_tests: "swo_nrz_decodes_and_rejects_stop_error" "parallel_ddr_widths_have_identical_wire_order"
  "swo_manchester_decodes_and_rejects_missing_transition"
  by code_simp+

section \<open>The synthetic debug port\<close>

definition synthetic_dap_wait_read_and_abort :: bool where
  "synthetic_dap_wait_read_and_abort \<longleftrightarrow>
     (case dap_execute (set_wait_once dap_default) [5, 0, 1, 2] of (d1, r1) \<Rightarrow> r1 = Inr [5, 0, 2]
      \<and> (case dap_execute d1 [5, 0, 1, 2] of (d2, r2) \<Rightarrow> r2 = Inr [5, 1, 1, 2, 0, 0xa5, 0xa5]
        \<and> (case dap_execute d2 [8] of (d3, r3) \<Rightarrow> r3 = Inr [8, 0] \<and> aborts d3 = 1)))"

definition synthetic_dap_fault_parity_and_jtag_paths :: bool where
  "synthetic_dap_fault_parity_and_jtag_paths \<longleftrightarrow>
     (case dap_execute (set_fault_once dap_default) [5, 0, 1, 2] of (d1, r1) \<Rightarrow> r1 = Inr [5, 0, 4]
      \<and> (case dap_execute (set_parity_error_once d1) [5, 0, 1, 2] of (d2, r2) \<Rightarrow>
           (case r2 of Inr response \<Rightarrow> take 3 response = [5, 1, 9] | Inl _ \<Rightarrow> False)
        \<and> (case dap_execute d2 [0x14, 1, 1, 0xaa] of (d3, r3) \<Rightarrow> r3 = Inr [0x14, 0, 0xab]
          \<and> (case dap_execute d3 [7] of (d4, r4) \<Rightarrow> r4 = Inr [7, 0] \<and> aborts d4 = 1))))"

definition synthetic_dap_parses_mixed_read_write_transfers :: bool where
  "synthetic_dap_parses_mixed_read_write_transfers \<longleftrightarrow>
     (case dap_execute dap_default [5, 0, 2, 0, 1, 2, 3, 4, 2] of (d1, r1) \<Rightarrow>
        r1 = Inr [5, 2, 1, 2, 0, 0xa5, 0xa5] \<and> transfers d1 = 2
        \<and> snd (dap_execute d1 [5, 0, 1, 0]) = Inr [5, 0, 4])"

lemma dap_tests: "synthetic_dap_wait_read_and_abort" "synthetic_dap_fault_parity_and_jtag_paths"
  "synthetic_dap_parses_mixed_read_write_transfers"
  by code_simp+

section \<open>The formatter decoder\<close>

definition tpiu_sync_and_unmangle :: bool where
  "tpiu_sync_and_unmangle \<longleftrightarrow>
     (case tpiu_feed tpiu_default [0x7f, 0xff, 0xff, 0xff] of (d1, out1) \<Rightarrow> out1 = []
      \<and> (case tpiu_feed d1 ((replicate 16 0x22)[0 := 0x05, 15 := 0]) of (d2, output) \<Rightarrow>
           length output = 14 \<and> list_all (\<lambda>b. mux_channel b = 2) output \<and> sync_losses (reset_sync d2) = 1))"

lemma tpiu_test: "tpiu_sync_and_unmangle"
  by code_simp

section \<open>Packets and the trace\<close>

definition encode_swit :: "u8 \<Rightarrow> u32 \<Rightarrow> u8 \<Rightarrow> bytes option" where
  "encode_swit port value width =
     (if width \<notin> {1, 2, 4} then None
      else let code = (if width = 4 then 3 else width)
      in Some ((push_bit 3 port OR code) # take (unat width) (u32_le value)))"

definition decode_itm_stream_round_trips_and_resyncs_past_garbage :: bool where
  "decode_itm_stream_round_trips_and_resyncs_past_garbage \<longleftrightarrow>
     (let events = [(0, 32, 4), (0, 500, 4), (0, 0xab, 1), (0, 0xf0010007, 4), (5, 0x1234, 2)];
          bytes = concat (map (\<lambda>(port, value, width).
            0x00 # (case encode_swit port value width of Some bs \<Rightarrow> bs | None \<Rightarrow> [])) events) @ [0x06];
          decoded = filter (\<lambda>p. case p of Swit _ _ _ \<Rightarrow> True | _ \<Rightarrow> False) (decode_itm_stream bytes)
      in list_all (\<lambda>(port, value, width). encode_swit port value width \<noteq> None) events
        \<and> decoded = map (\<lambda>(port, value, width). Swit port value width) events)"

definition classify_port0_matches_value_shape :: bool where
  "classify_port0_matches_value_shape \<longleftrightarrow>
     classify_port0 32 4 = Timestamp 32 \<and> classify_port0 500 4 = Idle 500 \<and> classify_port0 0xab 1 = Malformed 0xab
     \<and> classify_port0 0xf0010007 4 = Fault 0xf0010007 \<and> classify_port0 2001 4 = Unknown 2001"

definition build_perfetto_trace_detects_sequence_gaps :: bool where
  "build_perfetto_trace_detects_sequence_gaps \<longleftrightarrow>
     (let trace = build_perfetto_trace [Swit 0 16 4, Swit 0 32 4, Swit 0 64 4]
      in length (events trace) = 3 \<and> sequence_gaps trace = [(2, 1)])"

lemma itm_tests: "decode_itm_stream_round_trips_and_resyncs_past_garbage" "classify_port0_matches_value_shape"
  "build_perfetto_trace_detects_sequence_gaps"
  by code_simp+

section \<open>Arguments\<close>

definition parses_colon_hex :: bool where
  "parses_colon_hex \<longleftrightarrow> parse_hex ''05:00 01:02'' = Inr [5, 0, 1, 2]"

lemma hex_test: "parses_colon_hex"
  by code_simp

end
