(* ===== verification/Spec2Isabelle.thy ===== *)
theory Spec2Isabelle
  imports CapturePath S2mmDma Registers BoardTests CWorkloads ElfImage ZubCtl DocsConvert Swo FifoRtl PackerRtl SerialRtl
    ManchesterRtl DdrRtl RoutesRtl DapPathRtl TestsFirmware TestsModel
begin

text \<open>
  Verification library of the ZUBoard repository.

  The repository holds board support for a Zynq UltraScale+ board and, on top of it, an Orbtrace
  probe: the processing system captures trace data and speaks a debug protocol, a host program
  controls it and decodes what it captured, and Rust tools check, boot and document the result.
  The library models the Rust code of the repository; of the SystemVerilog the path from the trace pins to the words of
  the DMA, the register block and the debug-port engine; and of the C code the stimulus programs, the console and the fault capture of the R5, and the pump
  loop and the spinlock of the A53 application.

  \<^bold>\<open>Conventions.\<close> Machine integers are words of their width; \<open>usize\<close> is \<open>nat\<close>,
  with the bound of 64 bits written out where an addition is checked. A \<open>Result\<close> is a sum with the
  error on the left. A panic is a value: \<open>None\<close>, or a constructor of the outcome. Loops over data are
  structural recursion, and other loops have a measure. Loops that wait for hardware or for a peer carry the bound
  that the code has (the polls of the debug port), or run over the list of what the environment answers.
  Code outside of the repository and the outside world are parameters: register accesses, sockets, files,
  programs, the crates regex, serde, sha2, serialport and clap. The property statements name what
  they assume of them.

  \<^bold>\<open>Prelude and text.\<close> \<open>Prelude\<close>: little-endian byte images, checked slices, word
  lemmas, the collections of simplification rules, and the interface of a consumer that takes a stream in
  chunks (locale \<open>chunked\<close>, with interpretations in \<open>Tpiu\<close> and \<open>SerialWatch\<close>).
  \<open>Text\<close>: number formatting and \<open>from_str_radix\<close>. \<open>Unicode\<close>: scalar values, UTF-8 and
  its lossy decoding, white space.

  \<^bold>\<open>Trace model\<close> (\<open>applications/orbtrace/model/src/lib.rs\<close>).
  \<open>Control\<close>: commands, length framing, statistics; what decodes, and to what.
  \<open>Cobs\<close> and \<open>Orbflow\<close>: byte stuffing as the code's state machine, against its block-wise
  specification; checksummed frames; reconstruction of one channel from a noisy capture (locale
  \<open>delimited_code\<close>).
  \<open>Tpiu\<close>: synchronisation and demultiplexing of formatter frames against an encoder.
  \<open>Swo\<close>: parallel, UART and Manchester sampling. \<open>Itm\<close>: packets, event classification,
  trace events and the JSON writer. \<open>SyntheticDap\<close>: the debug port of the host model.
  \<open>Registers\<close>: the register map, its generated header, and its agreement with the firmware.

  \<^bold>\<open>Capture module\<close> (\<open>applications/orbtrace/rtl\<close>). A module is a record of its registers and one function
  per clocked block, from the inputs of an edge and the state before it; what is transferred at an edge is read off the
  handshake wires, and a run collects it. \<open>EncoderRtl\<close> (\<open>orbtrace_orbflow_encoder.sv\<close>): both halves of the framing
  engine with their two banks; an invariant with ghost state relates the registers to the packets taken, and the frames
  sent are those of \<open>orbflow_frame\<close>. \<open>DemuxRtl\<close> (\<open>orbtrace_tpiu_demux.sv\<close>, \<open>orbtrace_test_source.sv\<close>): a
  simulation by the decoder of \<open>Tpiu\<close> but for the order of the synchronisation packet, with the gate of the
  M3. \<open>PacketizerRtl\<close> (\<open>orbtrace_channel_packetizer.sv\<close>): packets of one source. \<open>CoreRtl\<close>
  (\<open>orbtrace_core.sv\<close>, \<open>orbtrace_source_mux.sv\<close>): the modules on one clock, that the whole comes to
  rest, and what has left it then. The payload limit and the idle time are parameters above zero of these
  definitions; \<open>ORBFLOW_PAYLOAD\<close> is the limit the module sets.

  \<^bold>\<open>Capture front end\<close> (the same directory). \<open>DdrRtl\<close> (\<open>orbtrace_ddr_capture.sv\<close>): the parallel port against the
  host's decoder of its samples. \<open>FifoRtl\<close> (\<open>orbtrace_async_fifo.sv\<close>, its channel in \<open>orbtrace_pl.v\<close>): the crossing
  between two clocks as a queue under any interleaving of their edges, with the counters of what is lost and the
  level as it is computed. \<open>SerialRtl\<close> (\<open>orbtrace_baud_tick.sv\<close>, \<open>orbtrace_swo_nrz.sv\<close>): the rate divider, and the
  receiver on a line of frames at another rate and phase. \<open>ManchesterRtl\<close> (\<open>orbtrace_swo_manchester.sv\<close>): one frame,
  and what its stop bit does. \<open>PackerRtl\<close> (\<open>orbtrace_axis_packer.sv\<close>): bytes into DMA words and transfers.
  \<open>RoutesRtl\<close> (\<open>orbtrace_pl.v\<close>): which stream reaches the core, and what becomes of the queues that are not read.

  \<^bold>\<open>Registers and debug port\<close> (the same directory). \<open>RegsRtl\<close> (\<open>orbtrace_axi_regs.sv\<close>): the bus handshakes against a
  file of registers, interrupts. \<open>DapEngineRtl\<close> (\<open>orbtrace_dap_engine.sv\<close>): the debug-port engine against
  \<open>SyntheticDap\<close>. \<open>DapPathRtl\<close>: both on one clock, driven by the firmware's exchange through a bus master that waits any
  number of clocks before an access and takes an answer as soon as it is there; the phases of an exchange bound the polls by 34,
  from the 66 clocks that the engine needs at most for 32 transfers.

  \<^bold>\<open>Firmware\<close> (\<open>applications/orbtrace/firmware\<close>). \<open>FrameDecoder\<close> and
  \<open>DmaRing\<close> (\<open>common\<close>): the byte-wise decoder refines the host's framing; the descriptor
  ring refines a queue under arbitrary interleaving with the hardware (locale \<open>shared_queue\<close>).
  \<open>S2mmDma\<close> (\<open>a53/src/lib.rs\<close>): the channel driver on a reference engine, which fetches
  exactly what the ring queued (locale \<open>framed_queue\<close>).
  \<open>Controller\<close>: the command handler, the debug passthrough and both connections over an abstract
  register interface (locale \<open>m3_memory\<close>). \<open>Coresight\<close>: the register sequences, run on a
  reference CoreSight system. \<open>Board\<close> (\<open>a53/src/ffi.rs\<close>, \<open>a53_app/src/main.c\<close>): the
  memory-mapped registers, the C entry points, the lock as a step relation with its invariant, the pump
  loop. \<open>Workloads\<close> (\<open>m3\<close>, \<open>rpu\<close>): the deterministic stimulus. \<open>CWorkloads\<close>
  (\<open>m3_app/src/main.c\<close>, \<open>sdk/bsp/m3/itm.h\<close>, \<open>applications/rpu/orbtrace_workload\<close>): the C programs that produce
  it on the board, against those references.

  \<^bold>\<open>R5 support\<close> (\<open>sdk/bsp/rpu\<close>). \<open>Postmortem\<close> (\<open>postmortem.c\<close>, \<open>startup_pm.S\<close>): the record a
  fault leaves in memory, its checksum and its printed form, read back by \<open>PmDecode\<close>. \<open>Uart\<close>
  (\<open>uart.c\<close>): divisors, initialisation, polled output. \<open>BoardTests\<close> (\<open>applications/rpu\<close>, \<open>tests\<close>): what
  the test applications print and that the scripts' watch passes exactly the good runs.

  \<^bold>\<open>Host client\<close> (\<open>model/src/main.rs\<close>). \<open>HostClient\<close>: arguments, transactions,
  capture, the bridge to OpenOCD, loading of the M3; the client is run against the modelled board.
  \<open>Pipeline\<close>: from the events of the M3 through frames and capture to the JSON trace. \<open>CapturePath\<close>: the
  same from the formatter frames at the pins, through the capture module.

  \<^bold>\<open>Tools.\<close> \<open>PmDecode\<close> (\<open>tooling/pm_decode\<close>): checksum, record, report,
  scan. \<open>Elf\<close>, \<open>ElfCheck\<close>, \<open>ElfImage\<close> (\<open>tooling/elf_check\<close>): reading an
  image, the policy it is held to, its command line; a declarative image format and that it is read
  exactly. \<open>Artifacts\<close>: the scan of the board manifest, with its panics, against a grammar of JSON
  documents. \<open>SerialWatch\<close> and \<open>ZubCtl\<close> (\<open>tooling/zub_ctl\<close>): the line accumulator, the
  pattern matcher, the reader thread as a loop over what each turn meets, against the contract of the
  watch; preflight checks and boot commands as traces of actions over an environment, and the integrity test of
  the board artifacts.
  \<open>DocsTables\<close>, \<open>AsciiJson\<close>, \<open>DocsConvert\<close> (\<open>internal/docs_tool\<close>): table
  extraction and Markdown, the ASCII form of JSON, and the incremental conversion over a state of files.

  \<^bold>\<open>Where parts meet.\<close> The client's load and configuration commands run through framing,
  connection, controller and memory-mapped registers; the controller's poll loop through a mailbox; the
  DMA engine through the ring; the preflight check through the scan of the manifest; the watch through
  the accumulator; the converter through table extraction; the demultiplexer, packetizer and framing engine on one
  clock, and their frames in the host's decoder; the fault record in memory and the postmortem decoder; the printed
  report and the watch of the test scripts; the firmware's debug exchange and the hardware that answers it.

  \<^bold>\<open>Conformance.\<close> The unit tests of the crates are run on the model, each as the conjunction of its
  assertions with the mocks it uses: \<open>TestsFirmware\<close> (\<open>firmware/a53\<close>, \<open>common\<close>, \<open>m3\<close>, \<open>rpu\<close>) and
  \<open>TestsModel\<close> (\<open>model\<close>).

  \<^bold>\<open>Bounds.\<close> A poll of the debug port has the budget of the code as a parameter, and a wedged
  port is shown to cost exactly one poll more. The pump and chunk loops have a measure on the bytes left,
  the capture loop on the bytes wanted; the reader thread ends with the first turn that sees its time-out. A clocked
  module runs over a list of edges; that it comes to rest is shown with a measure on what it still holds. Where a C
  program polls a status register, the reads are a list, and the program is stuck when the list ends unready.

  \<^bold>\<open>Not modelled.\<close> The C programs beside the parts named: they are sequences of calls
  into vendored libraries, interrupt, timer and cache control. Of the hardware sources the synchronisers of
  resets and settings in \<open>orbtrace_pl.v\<close>, the level of the M3's queue there, and all of its units on one set of clocks; a
  capture wrapper that nothing instantiates, and the Vivado scripts. The steps of the engine for a real target are
  modelled, but no property is about them. Metastability: a synchroniser takes the value before or after an edge.
  Build rules, toolchains, linker scripts, Tcl and shell scripts. Of the tools: the parser of the command line that clap generates, copying the output of child
  processes to the terminal and its interleaving with the messages of the reader thread, symbol lookup by
  addr2line, texts of errors that the system or a crate words, and the change into the directory of the
  workspace. In the converter, the fixed patterns of the regex crate other than runs of white
  space, and case folding, are parameters; a source directory is a tree that can be listed, while reading each
  file may fail; paths are normalised lists of components. Stack and heap are unlimited.
\<close>

end
